(* ===== verification/Prelude.thy ===== *)
theory Prelude
  imports Main "HOL-Library.Multiset"
begin

text \<open>
  Shared vocabulary of the development: the C types and the SQLite return codes
  the row lock feature uses, and the generic lemmas on cyclic index arithmetic,
  on sums of multisets and on option-valued loops that the components share.

  C integers are modelled as follows. A value of type \<open>u64\<close>, \<open>u32\<close>,
  \<open>u8\<close>, \<open>size_t\<close> or \<open>PID\<close> is a \<open>nat\<close>, with the
  wrap-around at \<open>2 ^ 64\<close> written out where the code does arithmetic on it; a
  value of type \<open>int\<close> or \<open>i64\<close> is an \<open>int\<close>. A pointer used only
  for its identity (the owner of a lock) is the \<open>u64\<close> it is cast to.
\<close>

section \<open>Return codes and C types\<close>

type_synonym u64 = nat
type_synonym u32 = nat
type_synonym u8 = nat
type_synonym PID = nat
type_synonym i64 = int

datatype rc =
    SQLITE_OK | SQLITE_ERROR | SQLITE_BUSY | SQLITE_LOCKED | SQLITE_NOMEM
  | SQLITE_READONLY | SQLITE_CANTOPEN | SQLITE_CONSTRAINT | SQLITE_CORRUPT
  | SQLITE_ABORT | SQLITE_DONE | SQLITE_CORRUPT_ROWID | SQLITE_IOERR
  | SQLITE_IOERR_SEEK | SQLITE_IOERR_WRITE | SQLITE_IOERR_SHMMAP
  | SQLITE_IOERR_SHORT_READ

text \<open>The wrap-around of an unsigned 64-bit result.\<close>

definition wrap64 :: "nat \<Rightarrow> u64" where
  "wrap64 x = x mod 2 ^ 64"

lemma wrap64_id [simp]: "x < 2 ^ 64 \<Longrightarrow> wrap64 x = x"
  by (simp add: wrap64_def)

text \<open>Subtraction of unsigned 64-bit values.\<close>

definition sub64 :: "u64 \<Rightarrow> u64 \<Rightarrow> u64" where
  "sub64 a b = wrap64 (a + 2 ^ 64 - b)"

lemma sub64_id: "b \<le> a \<Longrightarrow> a < 2 ^ 64 \<Longrightarrow> sub64 a b = a - b"
proof -
  assume "b \<le> a" "a < 2 ^ 64"
  then have "a + 2 ^ 64 - b = (a - b) + 2 ^ 64" by linarith
  moreover have "(a - b + 2 ^ 64) mod 2 ^ 64 = a - b"
    using \<open>a < 2 ^ 64\<close> by (simp only: mod_add_self2 mod_less less_imp_diff_less)
  ultimately show ?thesis unfolding sub64_def wrap64_def by (rule ssubst)
qed

text \<open>The \<open>k\<close> bytes of a two's complement integer in memory, the lowest first.\<close>

definition le_bytes :: "nat \<Rightarrow> int \<Rightarrow> nat list" where
  "le_bytes k x = map (\<lambda>i. nat (x div 256 ^ i mod 256)) [0..<k]"

text \<open>
  \<open>rowlockStrCat\<close> of \<open>rowlock.c\<close>: \<open>None\<close> where it returns 1 because
  the buffer of \<open>size\<close> bytes is too small.
\<close>

definition rowlockStrCat :: "nat \<Rightarrow> string \<Rightarrow> string \<Rightarrow> string option" where
  "rowlockStrCat bufSize src1 src2 =
     (if length src1 + length src2 + 1 > bufSize then None else Some (src1 @ src2))"

section \<open>Collections of facts\<close>

named_theorems cyc \<open>definitions of the cyclic index functions\<close>

section \<open>Cyclic indices\<close>

text \<open>
  The lock tables are rings of \<open>n\<close> slots. \<open>cdist n a b\<close> is the number
  of forward steps from slot \<open>a\<close> to slot \<open>b\<close>, for \<open>a, b < n\<close>;
  \<open>cnext\<close> and \<open>cprev\<close> are one step forward and back.
\<close>

definition cdist :: "nat \<Rightarrow> nat \<Rightarrow> nat \<Rightarrow> nat" where
  "cdist n a b = (if a \<le> b then b - a else n + b - a)"

definition cnext :: "nat \<Rightarrow> nat \<Rightarrow> nat" where
  "cnext n i = (if Suc i = n then 0 else Suc i)"

definition cprev :: "nat \<Rightarrow> nat \<Rightarrow> nat" where
  "cprev n i = (if i = 0 then n - 1 else i - 1)"

declare cdist_def [cyc] cnext_def [cyc] cprev_def [cyc]

lemma cdist_self [simp]: "cdist n a a = 0"
  by (simp add: cdist_def)

lemma cdist_less: "a < n \<Longrightarrow> b < n \<Longrightarrow> cdist n a b < n"
  by (auto simp: cdist_def)

lemma cdist_0_iff: "a < n \<Longrightarrow> b < n \<Longrightarrow> cdist n a b = 0 \<longleftrightarrow> a = b"
  by (auto simp: cdist_def)

lemma cdist_inj: "a < n \<Longrightarrow> b < n \<Longrightarrow> c < n \<Longrightarrow> cdist n a b = cdist n a c \<longleftrightarrow> b = c"
  by (auto simp: cdist_def)

lemma cnext_less [simp]: "i < n \<Longrightarrow> cnext n i < n"
  by (auto simp: cnext_def)

lemma cprev_less [simp]: "i < n \<Longrightarrow> cprev n i < n"
  by (auto simp: cprev_def)

lemma cnext_cprev [simp]: "i < n \<Longrightarrow> cnext n (cprev n i) = i"
  by (auto simp: cyc)

lemma cprev_cnext [simp]: "i < n \<Longrightarrow> cprev n (cnext n i) = i"
  by (auto simp: cyc)

lemma cnext_mod: "i < n \<Longrightarrow> (i + 1) mod n = cnext n i"
  by (auto simp: cnext_def)

lemma cprev_mod: "i < n \<Longrightarrow> (i + n - 1) mod n = cprev n i"
proof (cases "i = 0")
  case False
  assume "i < n"
  with False have "(i + n - 1) mod n = (n + (i - 1)) mod n" by (simp add: add.commute)
  also have "\<dots> = i - 1" using \<open>i < n\<close> by (simp only: mod_add_self1) simp
  finally show ?thesis using False by (simp add: cprev_def)
qed (auto simp: cprev_def)

lemma cdist_cnext_Suc:
  "a < n \<Longrightarrow> b < n \<Longrightarrow> cnext n b \<noteq> a \<Longrightarrow> cdist n a (cnext n b) = Suc (cdist n a b)"
  by (auto simp: cyc split: if_splits)

lemma cdist_cprev_Suc:
  "a < n \<Longrightarrow> b < n \<Longrightarrow> b \<noteq> a \<Longrightarrow> Suc (cdist n a (cprev n b)) = cdist n a b"
  by (auto simp: cyc split: if_splits)

lemma cdist_cprev_last: "a < n \<Longrightarrow> cdist n a (cprev n a) = n - 1"
  by (auto simp: cyc)

lemma cdist_cnext_left:
  "a < n \<Longrightarrow> b < n \<Longrightarrow> a \<noteq> b \<Longrightarrow> Suc (cdist n (cnext n a) b) = cdist n a b"
  by (auto simp: cyc split: if_splits)

lemma cdist_add:
  "s < n \<Longrightarrow> a < n \<Longrightarrow> b < n \<Longrightarrow> cdist n s a \<le> cdist n s b \<Longrightarrow>
   cdist n s a + cdist n a b = cdist n s b"
  by (auto simp: cdist_def split: if_splits)

lemma cdist_wrap:
  "s < n \<Longrightarrow> a < n \<Longrightarrow> b < n \<Longrightarrow> cdist n s b < cdist n s a \<Longrightarrow>
   cdist n s a + cdist n a b = n + cdist n s b"
  by (auto simp: cdist_def split: if_splits)

text \<open>Distances between two slots from their distances to a third.\<close>

lemma cdist_via:
  "s < n \<Longrightarrow> a < n \<Longrightarrow> b < n \<Longrightarrow>
   cdist n a b = (if cdist n s a \<le> cdist n s b then cdist n s b - cdist n s a
                  else n + cdist n s b - cdist n s a)"
  by (auto simp: cdist_def split: if_splits)

text \<open>The slots strictly between two slots around \<open>i\<close> exclude the far side of the ring.\<close>

lemma cdist_gap:
  assumes lt: "i < n" "z < n" "p < n" "j < n" and ne: "z \<noteq> i"
    and le: "cdist n i z \<le> cdist n i j" "cdist n i j \<le> cdist n i p"
  shows "cdist n (cnext n p) (cprev n z) < cdist n (cnext n p) j"
proof -
  have e: "Suc (cdist n i (cprev n z)) = cdist n i z" using lt ne by (simp add: cdist_cprev_Suc)
  have p: "cdist n i p < n" using lt by (simp add: cdist_less)
  show ?thesis
  proof (cases "cnext n p = i")
    case True
    with e le show ?thesis by simp
  next
    case False
    then have s: "cdist n i (cnext n p) = Suc (cdist n i p)" using lt by (simp add: cdist_cnext_Suc)
    have "cdist n (cnext n p) (cprev n z) = n + cdist n i (cprev n z) - Suc (cdist n i p)"
      "cdist n (cnext n p) j = n + cdist n i j - Suc (cdist n i p)"
      using lt e le s by (simp_all add: cdist_via [of i n "cnext n p"])
    with e le p show ?thesis by simp
  qed
qed

section \<open>Sums of multisets over the slots of a ring\<close>

text \<open>Replacing the contribution of one slot.\<close>

lemma sum_slot_update:
  fixes f g :: "nat \<Rightarrow> 'a multiset"
  assumes "i < n" and "\<And>j. j < n \<Longrightarrow> j \<noteq> i \<Longrightarrow> g j = f j"
  shows "(\<Sum>j<n. g j) + f i = (\<Sum>j<n. f j) + g i"
proof -
  have "(\<Sum>j<n. g j) = g i + (\<Sum>j\<in>{..<n} - {i}. g j)"
    and "(\<Sum>j<n. f j) = f i + (\<Sum>j\<in>{..<n} - {i}. f j)"
    using assms(1) by (auto intro: sum.remove)
  moreover have "(\<Sum>j\<in>{..<n} - {i}. g j) = (\<Sum>j\<in>{..<n} - {i}. f j)"
    using assms(2) by (intro sum.cong) auto
  ultimately show ?thesis by simp
qed

lemma in_sum_slots: "x \<in># (\<Sum>j<n. f j) \<longleftrightarrow> (\<exists>j<n. x \<in># f j)"
  for f :: "nat \<Rightarrow> 'a multiset"
  by (induction n) (auto simp: less_Suc_eq)

lemma size_sum_slots: "size (\<Sum>j<n. f j) = (\<Sum>j<n. size (f j))" for f :: "nat \<Rightarrow> 'a multiset"
  by (induction n) auto

section \<open>Association lists up to order\<close>

lemma filter_key_unique:
  "distinct (map f (filter P xs)) \<Longrightarrow> i < length xs \<Longrightarrow> j < length xs \<Longrightarrow>
   P (xs ! i) \<Longrightarrow> P (xs ! j) \<Longrightarrow> f (xs ! i) = f (xs ! j) \<Longrightarrow> i = j"
proof (induction xs arbitrary: i j)
  case (Cons x xs)
  have d: "distinct (map f (filter P xs))" using Cons.prems(1) by (simp split: if_splits)
  have ne: "f (xs ! k) \<noteq> f x" if "P x" "k < length xs" "P (xs ! k)" for k
    using Cons.prems(1) that by (force simp: image_iff)
  show ?case
  proof (cases i)
    case 0
    with ne Cons.prems(2-) show ?thesis by (cases j) auto
  next
    case (Suc a)
    with ne [of a] Cons.IH [OF d, of a] Cons.prems(2-) show ?thesis by (cases j) auto
  qed
qed simp

text \<open>Replacing one element of a filtered list.\<close>

lemma filter_list_update:
  assumes "i < length xs" "P (xs ! i)" "P y"
  obtains A B where "filter P xs = A @ xs ! i # B" "filter P (xs[i := y]) = A @ y # B"
proof -
  have "xs = take i xs @ xs ! i # drop (Suc i) xs" using assms(1) by (rule id_take_nth_drop)
  then have "filter P xs = filter P (take i xs) @ xs ! i # filter P (drop (Suc i) xs)"
    using assms(2) by (metis filter.simps(2) filter_append)
  moreover have "filter P (xs[i := y]) = filter P (take i xs) @ y # filter P (drop (Suc i) xs)"
    using assms by (simp add: upd_conv_take_nth_drop)
  ultimately show thesis by (rule that)
qed

lemma map_of_replace:
  "k \<notin> fst ` set xs \<Longrightarrow> map_of (xs @ (k, v') # ys) = (map_of (xs @ (k, v) # ys))(k \<mapsto> v')"
  by (induction xs) auto

text \<open>The map of an association list with distinct keys when one entry is added or removed.\<close>

lemma map_of_mset_Cons:
  assumes eq: "mset xs = mset (x # ys)" and d: "distinct (map fst xs)"
  shows "map_of xs = (map_of ys)(fst x \<mapsto> snd x)"
    and "map_of ys = (map_of xs)(fst x := None)"
    and "distinct (map fst ys)" and "fst x \<notin> fst ` set ys"
proof -
  have "mset (map fst xs) = mset (map fst (x # ys))" using eq by (simp add: mset_map)
  then have d': "distinct (map fst (x # ys))" using d mset_eq_imp_distinct_iff by blast
  then show "distinct (map fst ys)" and new: "fst x \<notin> fst ` set ys" by simp_all
  have "set xs = set (x # ys)" using eq by (rule mset_eq_setD)
  then have "map_of xs = map_of (x # ys)" using d d' map_of_inject_set by blast
  then show "map_of xs = (map_of ys)(fst x \<mapsto> snd x)" by (cases x) simp
  then show "map_of ys = (map_of xs)(fst x := None)" using new by (auto simp: map_of_eq_None_iff)
qed

end
