(* ===== verification/Ipc_Area.thy ===== *)
theory Ipc_Area
  imports Prelude
begin

text \<open>
  The hash area of \<open>rowlock_ipc.c\<close>: an array in a memory mapped file, shared
  by the processes, that is an open addressing hash table with linear probing. Two
  classes of area exist, row locks and table locks; a class is a table of function
  pointers (\<open>IpcClass\<close> in \<open>rowlock_ipc.h\<close>), here a record of functions. This
  theory models the routines that work on any class (\<open>rowlockIpcSearch\<close>,
  \<open>rowlockIpcDelete\<close> and their helpers, the hash function) and proves them
  correct once, in the locale \<open>ipc_area\<close> that states what a class has to provide.

  A loop of the code is a \<open>partial_function (option)\<close>: \<open>None\<close> means that
  the loop does not end. \<open>search_complete\<close> and \<open>delete_correct\<close> show that
  on a well-formed area every one of them returns.
\<close>

section \<open>Classes, search and deletion\<close>

text \<open>
  \<open>IpcClass\<close>: \<open>'m\<close> is the mapped area, \<open>'e\<close> its elements and
  \<open>'k\<close> the arguments of the variadic \<open>xCalcHash\<close>. \<open>xMapName\<close> returns
  \<open>None\<close> where the C function returns 1 (the buffer is too small).
\<close>

record ('m, 'e, 'k) IpcClass =
  xMapName :: "nat \<Rightarrow> string \<Rightarrow> string option"
  xIsInitialized :: "'m \<Rightarrow> bool"
  xInitArea :: "'m \<Rightarrow> u64 \<Rightarrow> 'm"
  xElemCount :: "'m \<Rightarrow> u64"
  xElemIsValid :: "'e \<Rightarrow> bool"
  xElemIsTarget :: "'e \<Rightarrow> 'e \<Rightarrow> bool"
  xElemGet :: "'m \<Rightarrow> u64 \<Rightarrow> 'e"
  xElemHash :: "'m \<Rightarrow> u64 \<Rightarrow> u64"
  xElemClear :: "'m \<Rightarrow> u64 \<Rightarrow> 'm"
  xElemCopy :: "'m \<Rightarrow> u64 \<Rightarrow> u64 \<Rightarrow> 'm"
  xIndexPrev :: "'m \<Rightarrow> u64 \<Rightarrow> u64"
  xIndexNext :: "'m \<Rightarrow> u64 \<Rightarrow> u64"
  xCalcHash :: "'m \<Rightarrow> 'k \<Rightarrow> u64"

text \<open>
  \<open>rowlockIpcCalcHash\<close>: Knuth's multiplicative hash over the bytes of \<open>buf\<close>,
  in 64-bit arithmetic, reduced modulo the number of buckets.
\<close>

fun rowlockIpcCalcHash_loop :: "u64 \<Rightarrow> nat list \<Rightarrow> u64" where
  "rowlockIpcCalcHash_loop h [] = h"
| "rowlockIpcCalcHash_loop h (c # buf) =
     rowlockIpcCalcHash_loop (wrap64 (wrap64 (h + c) * 0x9e3779b1)) buf"

definition rowlockIpcCalcHash :: "u64 \<Rightarrow> nat list \<Rightarrow> u64" where
  "rowlockIpcCalcHash nBucket buf = rowlockIpcCalcHash_loop 0 buf mod nBucket"

text \<open>
  The result of \<open>rowlockIpcSearch\<close>, its return code with \<open>*pIdx\<close>:
  \<open>SQLITE_LOCKED\<close> with the index of the target, \<open>SQLITE_OK\<close> with the
  index where a new entry goes, and \<open>SQLITE_NOMEM\<close>, where \<open>*pIdx\<close> is not written.
\<close>

datatype SearchResult = Found u64 | Vacant u64 | Full

partial_function (option) rowlockIpcSearch_loop ::
  "('m, 'e, 'k) IpcClass \<Rightarrow> 'm \<Rightarrow> 'e \<Rightarrow> u64 \<Rightarrow> u64 \<Rightarrow> SearchResult option" where
  "rowlockIpcSearch_loop C m pTarget hash idx =
     (if xElemIsValid C (xElemGet C m idx) then
        (if xElemIsTarget C (xElemGet C m idx) pTarget then Some (Found idx)
         else if xIndexNext C m idx = hash then Some Full
         else rowlockIpcSearch_loop C m pTarget hash (xIndexNext C m idx))
      else Some (Vacant idx))"

definition rowlockIpcSearch ::
  "('m, 'e, 'k) IpcClass \<Rightarrow> 'm \<Rightarrow> 'e \<Rightarrow> u64 \<Rightarrow> SearchResult option" where
  "rowlockIpcSearch C m pTarget hash = rowlockIpcSearch_loop C m pTarget hash hash"

definition isTargetPattern1and2 ::
  "('m, 'e, 'k) IpcClass \<Rightarrow> 'm \<Rightarrow> u64 \<Rightarrow> u64 \<Rightarrow> u64 \<Rightarrow> bool" where
  "isTargetPattern1and2 C m idxStart idxDel idx =
     (let hash = xElemHash C m idx in idxStart \<le> hash \<and> hash \<le> idxDel)"

definition isTargetPattern3 ::
  "('m, 'e, 'k) IpcClass \<Rightarrow> 'm \<Rightarrow> u64 \<Rightarrow> u64 \<Rightarrow> u64 \<Rightarrow> bool" where
  "isTargetPattern3 C m idxStart idxDel idx =
     (let hash = xElemHash C m idx in hash \<le> idxDel \<or> idxStart \<le> hash)"

text \<open>The choice of \<open>xIsTarget\<close> in \<open>rowlockIpcDelete\<close>.\<close>

definition xIsTarget ::
  "('m, 'e, 'k) IpcClass \<Rightarrow> 'm \<Rightarrow> u64 \<Rightarrow> u64 \<Rightarrow> u64 \<Rightarrow> u64 \<Rightarrow> bool" where
  "xIsTarget C m idxStart idxDel idxEnd idx =
     (if (idxStart \<le> idxDel \<and> idxDel \<le> idxEnd) \<or> (idxEnd \<le> idxStart \<and> idxStart \<le> idxDel)
      then isTargetPattern1and2 C m idxStart idxDel idx
      else isTargetPattern3 C m idxStart idxDel idx)"

text \<open>The first loop of \<open>rowlockIpcDelete\<close>: backwards to an empty element.\<close>

partial_function (option) searchEmptyPrev ::
  "('m, 'e, 'k) IpcClass \<Rightarrow> 'm \<Rightarrow> u64 \<Rightarrow> u64 \<Rightarrow> u64 option" where
  "searchEmptyPrev C m idxEnd idxStart =
     (if xElemIsValid C (xElemGet C m idxStart) then
        (if xIndexPrev C m idxStart = idxEnd then Some (xIndexPrev C m idxStart)
         else searchEmptyPrev C m idxEnd (xIndexPrev C m idxStart))
      else Some idxStart)"

text \<open>Its second loop: from \<open>idxEnd\<close> backwards to an element that may move to \<open>idxDel\<close>.\<close>

partial_function (option) searchMoving ::
  "('m, 'e, 'k) IpcClass \<Rightarrow> 'm \<Rightarrow> u64 \<Rightarrow> u64 \<Rightarrow> u64 \<Rightarrow> u64 \<Rightarrow> u64 option" where
  "searchMoving C m idxStart idxDel idxEnd idx =
     (if idx \<noteq> idxDel then
        (if xIsTarget C m idxStart idxDel idxEnd idx then Some idx
         else searchMoving C m idxStart idxDel idxEnd (xIndexPrev C m idx))
      else Some idx)"

partial_function (option) rowlockIpcDelete ::
  "('m, 'e, 'k) IpcClass \<Rightarrow> 'm \<Rightarrow> u64 \<Rightarrow> u64 \<Rightarrow> u64 \<Rightarrow> 'm option" where
  "rowlockIpcDelete C m idxStart idxDel idxEnd =
     Option.bind (searchEmptyPrev C m idxEnd (xIndexPrev C m idxStart)) (\<lambda>p.
     Option.bind (searchMoving C m (xIndexNext C m p) idxDel idxEnd idxEnd) (\<lambda>idx.
       if idx = idxDel then Some (xElemClear C m idxDel)
       else rowlockIpcDelete C (xElemCopy C m idxDel idx) (xIndexNext C m p) idx idxEnd))"

text \<open>
  The loop "Search empty element" that \<open>sqlite3rowlockIpcUnlockRecord\<close> and
  \<open>sqlite3rowlockIpcUnlockTableCore\<close> share: forwards from \<open>idx\<close>, giving up
  when it is back at \<open>hash\<close>.
\<close>

partial_function (option) searchEmptyNext ::
  "('m, 'e, 'k) IpcClass \<Rightarrow> 'm \<Rightarrow> u64 \<Rightarrow> u64 \<Rightarrow> u64 option" where
  "searchEmptyNext C m hash idx =
     (if xElemIsValid C (xElemGet C m idx) then
        (if xIndexNext C m idx = hash then Some (xIndexNext C m idx)
         else searchEmptyNext C m hash (xIndexNext C m idx))
      else Some idx)"

text \<open>
  The loop "Search an empty element" of the two functions that release every lock of a
  process: backwards from the last slot, giving up at slot 0.
\<close>

partial_function (option) searchEmptyLast ::
  "('m, 'e, 'k) IpcClass \<Rightarrow> 'm \<Rightarrow> u64 \<Rightarrow> u64 option" where
  "searchEmptyLast C m idxStart =
     (if xElemIsValid C (xElemGet C m idxStart) then
        (if xIndexPrev C m idxStart = 0 then Some (xIndexPrev C m idxStart)
         else searchEmptyLast C m (xIndexPrev C m idxStart))
      else Some idxStart)"

text \<open>
  The loop of both functions over the ring, backwards from a start slot around to it:
  \<open>do { W(idx); idx = xIndexPrev(idx); } while( idx!=idxStart )\<close>, where \<open>W\<close> is
  their inner loop.
\<close>

partial_function (option) ringSweep ::
  "('m, 'e, 'k) IpcClass \<Rightarrow> (u64 \<Rightarrow> 'm \<Rightarrow> 'm option) \<Rightarrow> u64 \<Rightarrow> u64 \<Rightarrow> 'm \<Rightarrow> 'm option" where
  "ringSweep C W idxStart idx m =
     Option.bind (W idx m) (\<lambda>m'.
       if xIndexPrev C m' idx \<noteq> idxStart
       then ringSweep C W idxStart (xIndexPrev C m' idx) m'
       else Some m')"

section \<open>Invariant and abstraction\<close>

text \<open>
  \<open>probe_ok\<close>: every valid element can be reached from its home slot over valid
  elements only, the invariant of linear probing. \<open>has_empty\<close>: some slot is free.
  \<open>elems\<close>: the multiset of the valid elements, seen through \<open>core\<close>, the fields
  that a move of an element keeps. \<open>is_run s e\<close>: the slots from \<open>s\<close> to
  \<open>e\<close> are a maximal block of valid elements.
\<close>

definition probe_ok :: "('m, 'e, 'k) IpcClass \<Rightarrow> 'm \<Rightarrow> bool" where
  "probe_ok C m \<longleftrightarrow>
     (\<forall>i<xElemCount C m. xElemIsValid C (xElemGet C m i) \<longrightarrow>
        xElemHash C m i < xElemCount C m \<and>
        (\<forall>j<xElemCount C m.
           cdist (xElemCount C m) (xElemHash C m i) j \<le> cdist (xElemCount C m) (xElemHash C m i) i
           \<longrightarrow> xElemIsValid C (xElemGet C m j)))"

definition has_empty :: "('m, 'e, 'k) IpcClass \<Rightarrow> 'm \<Rightarrow> bool" where
  "has_empty C m \<longleftrightarrow> (\<exists>i<xElemCount C m. \<not> xElemIsValid C (xElemGet C m i))"

definition slot :: "('m, 'e, 'k) IpcClass \<Rightarrow> ('e \<Rightarrow> 'c) \<Rightarrow> 'm \<Rightarrow> u64 \<Rightarrow> 'c multiset" where
  "slot C core m i =
     (if xElemIsValid C (xElemGet C m i) then {#core (xElemGet C m i)#} else {#})"

definition elems :: "('m, 'e, 'k) IpcClass \<Rightarrow> ('e \<Rightarrow> 'c) \<Rightarrow> 'm \<Rightarrow> 'c multiset" where
  "elems C core m = (\<Sum>i<xElemCount C m. slot C core m i)"

definition is_run :: "('m, 'e, 'k) IpcClass \<Rightarrow> 'm \<Rightarrow> u64 \<Rightarrow> u64 \<Rightarrow> bool" where
  "is_run C m s e \<longleftrightarrow>
     (let n = xElemCount C m; val = (\<lambda>i. xElemIsValid C (xElemGet C m i)) in
      s < n \<and> e < n \<and> \<not> val (cprev n s) \<and> \<not> val (cnext n e) \<and>
      (\<forall>j<n. cdist n s j \<le> cdist n s e \<longrightarrow> val j))"

section \<open>What a class provides\<close>

locale ipc_area =
  fixes C :: "('m, 'e, 'k) IpcClass"
    and wf :: "'m \<Rightarrow> bool"
    and core :: "'e \<Rightarrow> 'c"
    and frame :: "'m \<Rightarrow> 'f"
  assumes count_pos: "wf m \<Longrightarrow> 0 < xElemCount C m"
    and next_eq: "wf m \<Longrightarrow> i < xElemCount C m \<Longrightarrow> xIndexNext C m i = cnext (xElemCount C m) i"
    and prev_eq: "wf m \<Longrightarrow> i < xElemCount C m \<Longrightarrow> xIndexPrev C m i = cprev (xElemCount C m) i"
    and valid_core: "core e = core e' \<Longrightarrow> xElemIsValid C e = xElemIsValid C e'"
    and target_core: "core e = core e' \<Longrightarrow> xElemIsTarget C e t = xElemIsTarget C e' t"
    and hash_core: "core (xElemGet C m i) = core (xElemGet C m' j) \<Longrightarrow> xElemHash C m i = xElemHash C m' j"
    and wf_clear: "wf m \<Longrightarrow> wf (xElemClear C m i)"
    and wf_copy: "wf m \<Longrightarrow> j < xElemCount C m \<Longrightarrow> wf (xElemCopy C m i j)"
    and frame_clear: "frame (xElemClear C m i) = frame m"
    and frame_copy: "frame (xElemCopy C m i j) = frame m"
    and count_clear: "xElemCount C (xElemClear C m i) = xElemCount C m"
    and count_copy: "xElemCount C (xElemCopy C m i j) = xElemCount C m"
    and get_clear: "wf m \<Longrightarrow> i < xElemCount C m \<Longrightarrow> \<not> xElemIsValid C (xElemGet C (xElemClear C m i) i)"
    and get_clear_other: "wf m \<Longrightarrow> j < xElemCount C m \<Longrightarrow> j \<noteq> i \<Longrightarrow>
      xElemGet C (xElemClear C m i) j = xElemGet C m j"
    and get_copy: "wf m \<Longrightarrow> i < xElemCount C m \<Longrightarrow> j < xElemCount C m \<Longrightarrow>
      core (xElemGet C (xElemCopy C m i j) i) = core (xElemGet C m j)"
    and get_copy_other: "wf m \<Longrightarrow> j < xElemCount C m \<Longrightarrow> j \<noteq> i \<Longrightarrow>
      xElemGet C (xElemCopy C m i k) j = xElemGet C m j"
begin

abbreviation num :: "'m \<Rightarrow> nat" where "num m \<equiv> xElemCount C m"
abbreviation el :: "'m \<Rightarrow> nat \<Rightarrow> 'e" where "el m i \<equiv> xElemGet C m i"
abbreviation val :: "'m \<Rightarrow> nat \<Rightarrow> bool" where "val m i \<equiv> xElemIsValid C (xElemGet C m i)"
abbreviation hs :: "'m \<Rightarrow> nat \<Rightarrow> nat" where "hs m i \<equiv> xElemHash C m i"
abbreviation dst :: "'m \<Rightarrow> nat \<Rightarrow> nat \<Rightarrow> nat" where "dst m a b \<equiv> cdist (xElemCount C m) a b"

lemma probe_okD:
  assumes "probe_ok C m" "i < num m" "val m i"
  shows "hs m i < num m"
    and "j < num m \<Longrightarrow> dst m (hs m i) j \<le> dst m (hs m i) i \<Longrightarrow> val m j"
  using assms unfolding probe_ok_def by blast+

lemma is_runD:
  assumes "is_run C m s e"
  shows "s < num m" "e < num m" "\<not> val m (cprev (num m) s)" "\<not> val m (cnext (num m) e)"
    "\<And>j. j < num m \<Longrightarrow> dst m s j \<le> dst m s e \<Longrightarrow> val m j"
  using assms by (auto simp: is_run_def Let_def)

subsection \<open>Search\<close>

lemma search_loop:
  assumes wf: "wf m" and empty: "has_empty C m" and h: "h < num m"
  shows "idx < num m \<Longrightarrow>
    (\<And>j. j < num m \<Longrightarrow> dst m h j < dst m h idx \<Longrightarrow> val m j \<and> \<not> xElemIsTarget C (el m j) t) \<Longrightarrow>
    \<exists>i<num m. (\<forall>j<num m. dst m h j < dst m h i \<longrightarrow> val m j \<and> \<not> xElemIsTarget C (el m j) t) \<and>
      (rowlockIpcSearch_loop C m t h idx = Some (Found i) \<and> val m i \<and> xElemIsTarget C (el m i) t \<or>
       rowlockIpcSearch_loop C m t h idx = Some (Vacant i) \<and> \<not> val m i)"
proof (induction "num m - dst m h idx" arbitrary: idx rule: less_induct)
  case less
  note unfold = rowlockIpcSearch_loop.simps [of C m t h idx]
  show ?case
  proof (cases "val m idx \<and> \<not> xElemIsTarget C (el m idx) t")
    case False
    then have "rowlockIpcSearch_loop C m t h idx = Some (Found idx) \<and> val m idx \<and> xElemIsTarget C (el m idx) t \<or>
       rowlockIpcSearch_loop C m t h idx = Some (Vacant idx) \<and> \<not> val m idx"
      by (subst (1 2) unfold) simp
    with less.prems show ?thesis by blast
  next
    case True
    let ?k = "cnext (num m) idx"
    have passed: "val m j \<and> \<not> xElemIsTarget C (el m j) t"
      if "j < num m" "dst m h j \<le> dst m h idx" for j
      using that less.prems True h by (cases "j = idx") (auto simp: cdist_inj le_less)
    have ne: "?k \<noteq> h"
    proof
      assume "?k = h"
      then have "idx = cprev (num m) h" using less.prems(1) by auto
      then have "dst m h idx = num m - 1" using h by (simp add: cdist_cprev_last)
      moreover have "dst m h j < num m" if "j < num m" for j using h that by (rule cdist_less)
      ultimately have "\<forall>j<num m. val m j" using passed by (metis Suc_pred' count_pos less_Suc_eq_le wf)
      with empty show False by (auto simp: has_empty_def)
    qed
    have k: "?k < num m" "dst m h ?k = Suc (dst m h idx)"
      using ne h less.prems(1) by (auto simp: cdist_cnext_Suc)
    have lt: "num m - dst m h ?k < num m - dst m h idx"
      using k cdist_less [OF h less.prems(1)] by simp
    have "rowlockIpcSearch_loop C m t h idx = rowlockIpcSearch_loop C m t h ?k"
      using True ne less.prems(1) by (subst unfold) (simp add: next_eq [OF wf])
    moreover have "val m j \<and> \<not> xElemIsTarget C (el m j) t"
      if "j < num m" "dst m h j < dst m h ?k" for j
      using that k passed by simp
    ultimately show ?thesis using less.hyps [OF lt k(1)] by simp
  qed
qed

lemma search_complete:
  assumes "wf m" "has_empty C m" "h < num m"
  obtains (found) i where "rowlockIpcSearch C m t h = Some (Found i)" "i < num m" "val m i"
      "xElemIsTarget C (el m i) t"
      "\<And>j. j < num m \<Longrightarrow> dst m h j < dst m h i \<Longrightarrow> val m j \<and> \<not> xElemIsTarget C (el m j) t"
  | (vacant) i where "rowlockIpcSearch C m t h = Some (Vacant i)" "i < num m" "\<not> val m i"
      "\<And>j. j < num m \<Longrightarrow> dst m h j < dst m h i \<Longrightarrow> val m j \<and> \<not> xElemIsTarget C (el m j) t"
  using search_loop [OF assms assms(3), of t] assms(3)
  unfolding rowlockIpcSearch_def by (auto simp: cdist_0_iff)

text \<open>A search that ends at a free slot has seen every element of that home slot.\<close>

lemma vacant_absent:
  assumes "probe_ok C m" and "i < num m" "\<not> val m i"
    and "\<And>j. j < num m \<Longrightarrow> dst m h j < dst m h i \<Longrightarrow> val m j \<and> \<not> xElemIsTarget C (el m j) t"
    and "j < num m" "val m j" "hs m j = h"
  shows "\<not> xElemIsTarget C (el m j) t"
proof -
  have "\<not> dst m h i \<le> dst m h j"
    using probe_okD(2) [OF assms(1,5,6) assms(2)] assms(3,7) by auto
  with assms(4,5) show ?thesis by auto
qed

subsection \<open>Runs of valid elements\<close>

lemma run_less: "is_run C m s e \<Longrightarrow> dst m s e < num m - 1"
proof -
  assume r: "is_run C m s e"
  note D = is_runD [OF r]
  have "val m e" using D by simp
  with D have "e \<noteq> cprev (num m) s" by auto
  then have "dst m s e \<noteq> num m - 1"
    using D(1,2) by (metis cdist_cprev_last cdist_inj cprev_less)
  with cdist_less [OF D(1,2)] show ?thesis by simp
qed

text \<open>An element of a run has its home slot in the run, at or before its own slot.\<close>

lemma run_home:
  assumes pr: "probe_ok C m" and r: "is_run C m s e"
    and i: "i < num m" "dst m s i \<le> dst m s e"
  shows "hs m i < num m" "dst m s (hs m i) \<le> dst m s i"
proof -
  note D = is_runD [OF r]
  have vi: "val m i" using D(5) i by blast
  note P = probe_okD [OF pr i(1) vi]
  show h: "hs m i < num m" by (rule P(1))
  let ?p = "cprev (num m) s"
  show "dst m s (hs m i) \<le> dst m s i"
  proof (rule ccontr)
    assume "\<not> ?thesis"
    then have "dst m (hs m i) ?p \<le> dst m (hs m i) i"
      using D(1) h i(1) cdist_less [OF D(1) h]
      by (simp add: cdist_via [of s "num m" "hs m i"] cdist_cprev_last) linarith
    with P(2) D(1,3) show False by simp
  qed
qed

lemma run_exists:
  assumes wf: "wf m" and empty: "has_empty C m" and i: "i < num m" "val m i"
  obtains s e where "is_run C m s e" "dst m s i \<le> dst m s e"
proof -
  let ?n = "num m"
  define E where "E = {j. j < ?n \<and> \<not> val m j}"
  have E: "finite E" "E \<noteq> {}" using empty by (auto simp: E_def has_empty_def)
  obtain z where z: "z \<in> E" "\<And>j. j \<in> E \<Longrightarrow> dst m i z \<le> dst m i j"
    using E by (metis (mono_tags, lifting) arg_min_if_finite(1) arg_min_least)
  obtain p where p: "p \<in> E" "\<And>j. j \<in> E \<Longrightarrow> dst m i j \<le> dst m i p"
  proof -
    have "finite (dst m i ` E)" "dst m i ` E \<noteq> {}" using E by auto
    then have "Max (dst m i ` E) \<in> dst m i ` E" by (rule Max_in)
    then obtain p where "p \<in> E" "dst m i p = Max (dst m i ` E)" by auto
    with E(1) that show thesis by (metis Max_ge finite_imageI imageI)
  qed
  let ?s = "cnext ?n p" and ?e = "cprev ?n z"
  have zp: "z < ?n" "p < ?n" "\<not> val m z" "\<not> val m p" "z \<noteq> i" "p \<noteq> i"
    using z(1) p(1) i by (auto simp: E_def)
  have le: "dst m i z \<le> dst m i p" by (rule z(2) [OF p(1)])
  have s: "?s < ?n" "?e < ?n" using zp by auto
  have in_run: "dst m ?s i \<le> dst m ?s ?e"
    using zp i le by (auto simp: cyc split: if_splits)
  have "val m j" if j: "j < ?n" "dst m ?s j \<le> dst m ?s ?e" for j
  proof (rule ccontr)
    assume "\<not> val m j"
    with j have "j \<in> E" by (simp add: E_def)
    then have "dst m i z \<le> dst m i j" "dst m i j \<le> dst m i p" by (auto intro: z p)
    with j zp i show False using cdist_gap [of i ?n z p j] by simp
  qed
  then have "is_run C m ?s ?e" unfolding is_run_def Let_def using zp s by simp
  then show thesis using in_run by (rule that)
qed

lemma emptyPrev_run:
  assumes wf: "wf m" and r: "is_run C m s e"
  shows "a < num m \<Longrightarrow> dst m s a \<le> dst m s e \<Longrightarrow>
    searchEmptyPrev C m e (cprev (num m) a) = Some (cprev (num m) s)"
proof (induction "dst m s a" arbitrary: a)
  case 0
  note D = is_runD [OF r]
  from 0 D have "a = s" by (simp add: cdist_0_iff)
  with D show ?case by (subst searchEmptyPrev.simps) simp
next
  case (Suc k)
  note D = is_runD [OF r]
  let ?n = "num m"
  let ?b = "cprev ?n a"
  have b: "?b < ?n" using Suc.prems by simp
  have "a \<noteq> s" using Suc.hyps(2) by auto
  then have k: "k = dst m s ?b" using Suc.hyps(2) Suc.prems D(1) by (metis Suc_inject cdist_cprev_Suc)
  have "val m ?b" using D(5) b k Suc by simp
  moreover have "cprev ?n ?b \<noteq> e"
  proof (cases "?b = s")
    case True
    have "val m e" using D by simp
    with True D(3) show ?thesis by auto
  next
    case False
    then have "Suc (dst m s (cprev ?n ?b)) = k" using D(1) b k by (simp add: cdist_cprev_Suc)
    with Suc.hyps(2) Suc.prems show ?thesis by auto
  qed
  ultimately have "searchEmptyPrev C m e ?b = searchEmptyPrev C m e (cprev ?n ?b)"
    using b by (subst searchEmptyPrev.simps) (simp add: prev_eq [OF wf])
  also have "\<dots> = Some (cprev ?n s)"
    using Suc.hyps(1) [OF k b] Suc.hyps(2) Suc.prems k by simp
  finally show ?case .
qed

lemma emptyNext_run:
  assumes wf: "wf m" and r: "is_run C m s e" and h: "h < num m"
  shows "d < num m \<Longrightarrow> dst m s h \<le> dst m s d \<Longrightarrow> dst m s d \<le> dst m s e \<Longrightarrow>
    searchEmptyNext C m h (cnext (num m) d) = Some (cnext (num m) e)"
proof (induction "dst m s e - dst m s d" arbitrary: d)
  case 0
  note D = is_runD [OF r]
  from 0 D have "d = e" by (simp add: cdist_inj)
  with D show ?case by (subst searchEmptyNext.simps) simp
next
  case (Suc k)
  note D = is_runD [OF r]
  let ?n = "num m"
  let ?b = "cnext ?n d"
  have b: "?b < ?n" using Suc.prems by simp
  have "?b \<noteq> s" using D(3) D(5) Suc.prems by auto
  then have db: "dst m s ?b = Suc (dst m s d)" using D(1) Suc.prems by (simp add: cdist_cnext_Suc)
  have vb: "val m ?b" using D(5) b db Suc.hyps(2) by simp
  have "cnext ?n ?b \<noteq> h"
  proof (cases "?b = e")
    case True
    have "val m h" using D(5) h Suc.prems by simp
    with True D(4) show ?thesis by auto
  next
    case False
    have "cnext ?n ?b \<noteq> s" using D(3) vb b by auto
    then have "dst m s (cnext ?n ?b) = Suc (dst m s ?b)" using D(1) b by (simp add: cdist_cnext_Suc)
    with db Suc.prems show ?thesis by auto
  qed
  with vb have "searchEmptyNext C m h ?b = searchEmptyNext C m h (cnext ?n ?b)"
    using b by (subst searchEmptyNext.simps) (simp add: next_eq [OF wf])
  also have "\<dots> = Some (cnext ?n e)"
    using Suc.hyps(1) [OF _ b] Suc.hyps(2) Suc.prems db by simp
  finally show ?case .
qed

lemma xIsTarget_run:
  assumes pr: "probe_ok C m" and r: "is_run C m s e"
    and d: "d < num m" "dst m s d \<le> dst m s e"
    and i: "i < num m" "dst m s i \<le> dst m s e"
  shows "xIsTarget C m s d e i \<longleftrightarrow> dst m s (hs m i) \<le> dst m s d"
  using run_home [OF pr r i] is_runD(1,2) [OF r] d
  by (auto simp: xIsTarget_def isTargetPattern1and2_def isTargetPattern3_def Let_def cdist_def
      split: if_splits)

text \<open>The element that moves: in the run, behind \<open>d\<close>, with its home at or before \<open>d\<close>.\<close>

lemma moving_run:
  assumes wf: "wf m" and pr: "probe_ok C m" and r: "is_run C m s e"
    and d: "d < num m" "dst m s d \<le> dst m s e"
  shows "i < num m \<Longrightarrow> dst m s d \<le> dst m s i \<Longrightarrow> dst m s i \<le> dst m s e \<Longrightarrow>
    (\<And>j. j < num m \<Longrightarrow> dst m s i < dst m s j \<Longrightarrow> dst m s j \<le> dst m s e \<Longrightarrow>
       dst m s d < dst m s (hs m j)) \<Longrightarrow>
    \<exists>k<num m. searchMoving C m s d e i = Some k \<and> dst m s d \<le> dst m s k \<and> dst m s k \<le> dst m s e \<and>
      (k \<noteq> d \<longrightarrow> dst m s (hs m k) \<le> dst m s d) \<and>
      (\<forall>j<num m. dst m s k < dst m s j \<longrightarrow> dst m s j \<le> dst m s e \<longrightarrow> dst m s d < dst m s (hs m j))"
proof (induction "dst m s i" arbitrary: i rule: less_induct)
  case less
  note D = is_runD [OF r]
  let ?b = "cprev (num m) i"
  show ?case
  proof (cases "i = d \<or> xIsTarget C m s d e i")
    case True
    then have "searchMoving C m s d e i = Some i" by (subst searchMoving.simps) auto
    moreover have "i \<noteq> d \<longrightarrow> dst m s (hs m i) \<le> dst m s d"
      using True xIsTarget_run [OF pr r d less.prems(1,3)] by blast
    ultimately show ?thesis using less.prems by blast
  next
    case False
    then have home: "dst m s d < dst m s (hs m i)"
      using xIsTarget_run [OF pr r d less.prems(1,3)] by simp
    have "dst m s i \<noteq> dst m s d" using False less.prems(1) d(1) D(1) by (simp add: cdist_inj)
    with less.prems(2) have lt: "dst m s d < dst m s i" by simp
    then have "i \<noteq> s" by auto
    then have b: "?b < num m" "Suc (dst m s ?b) = dst m s i"
      using less.prems(1) D(1) by (simp_all add: cdist_cprev_Suc)
    have step: "searchMoving C m s d e i = searchMoving C m s d e ?b"
      using False less.prems(1) by (subst searchMoving.simps) (simp add: prev_eq [OF wf])
    have far: "dst m s d < dst m s (hs m j)"
      if "j < num m" "dst m s ?b < dst m s j" "dst m s j \<le> dst m s e" for j
    proof (cases "j = i")
      case False
      then have "dst m s j \<noteq> dst m s i" using that(1) less.prems(1) D(1) by (simp add: cdist_inj)
      with that b(2) less.prems(4) show ?thesis by simp
    qed (use home in simp)
    show ?thesis unfolding step
      by (rule less.hyps) (use b lt less.prems(3) far in simp_all)
  qed
qed

subsection \<open>Clearing and copying one slot\<close>

lemma hs_cong: "el m i = el m' j \<Longrightarrow> hs m i = hs m' j"
  by (rule hash_core) simp

lemma copy_slot:
  assumes "wf m" "d < num m" "k < num m"
  shows "val (xElemCopy C m d k) d = val m k" "hs (xElemCopy C m d k) d = hs m k"
    "j < num m \<Longrightarrow> j \<noteq> d \<Longrightarrow> val (xElemCopy C m d k) j = val m j"
    "j < num m \<Longrightarrow> j \<noteq> d \<Longrightarrow> hs (xElemCopy C m d k) j = hs m j"
proof -
  show "val (xElemCopy C m d k) d = val m k" "hs (xElemCopy C m d k) d = hs m k"
    by (rule valid_core [OF get_copy [OF assms]], rule hash_core [OF get_copy [OF assms]])
  assume "j < num m" "j \<noteq> d"
  note other = get_copy_other [OF assms(1) this]
  show "val (xElemCopy C m d k) j = val m j" "hs (xElemCopy C m d k) j = hs m j"
    by (simp only: other, rule hs_cong [OF other])
qed

lemma clear_slot:
  assumes "wf m" "d < num m"
  shows "j < num m \<Longrightarrow> val (xElemClear C m d) j = (j \<noteq> d \<and> val m j)"
    "j < num m \<Longrightarrow> j \<noteq> d \<Longrightarrow> hs (xElemClear C m d) j = hs m j"
  using get_clear [OF assms] get_clear_other [OF assms(1)]
  by (cases "j = d"; simp) (rule hs_cong, rule get_clear_other [OF assms(1)])

lemma clear_probe:
  assumes wf: "wf m" and pr: "probe_ok C m" and r: "is_run C m s e"
    and d: "d < num m" "dst m s d \<le> dst m s e"
    and far: "\<And>j. j < num m \<Longrightarrow> dst m s d < dst m s j \<Longrightarrow> dst m s j \<le> dst m s e \<Longrightarrow>
       dst m s d < dst m s (hs m j)"
  shows "probe_ok C (xElemClear C m d)"
proof -
  note D = is_runD [OF r] and cl = clear_slot [OF wf d(1)]
  have "val (xElemClear C m d) j"
    if i: "i < num m" "i \<noteq> d" "val m i" and j: "j < num m" "dst m (hs m i) j \<le> dst m (hs m i) i" for i j
  proof -
    note P = probe_okD [OF pr i(1,3)]
    have "j \<noteq> d"
    proof
      assume jd: "j = d"
      show False
      proof (cases "dst m s i \<le> dst m s e")
        case True
        note H = run_home [OF pr r i(1) True]
        have hd: "dst m s (hs m i) \<le> dst m s d" and di: "dst m s d \<le> dst m s i"
          using jd j(2) H D(1) d i(1) cdist_less [OF D(1) H(1)] cdist_less [OF D(1) d(1)]
            cdist_less [OF D(1) i(1)]
          by (simp_all add: cdist_via [OF D(1) H(1)] split: if_splits)
        moreover have "dst m s d \<noteq> dst m s i" using i D(1) d(1) by (simp add: cdist_inj)
        ultimately show False using far [OF i(1) _ True] by simp
      next
        case False
        let ?z = "cnext (num m) e"
        have "?z \<noteq> s" using D(4,5) D(1) by auto
        then have z: "?z < num m" "dst m s ?z = Suc (dst m s e)"
          using D(1,2) by (simp_all add: cdist_cnext_Suc)
        let ?p = "cprev (num m) s"
        have p: "?p < num m" "dst m s ?p = num m - 1" using D(1) by (simp_all add: cdist_cprev_last)
        have "dst m (hs m i) ?z \<le> dst m (hs m i) i \<or> dst m (hs m i) ?p \<le> dst m (hs m i) i"
          using jd j(2) False d(2) z(2) p(2) cdist_less [OF D(1) P(1)] cdist_less [OF D(1) i(1)]
          unfolding cdist_via [OF D(1) P(1) z(1)] cdist_via [OF D(1) P(1) i(1)]
            cdist_via [OF D(1) P(1) p(1)] cdist_via [OF D(1) P(1) j(1)]
          by (simp split: if_splits; arith)
        with P(2) z(1) p(1) D(3,4) show False by blast
      qed
    qed
    with cl j P(2) show ?thesis by simp
  qed
  moreover have "hs m i < num m" if "i < num m" "val m i" for i
    using probe_okD(1) [OF pr that] .
  ultimately show ?thesis
    unfolding probe_ok_def count_clear using cl by (metis (no_types))
qed

lemma copy_valid:
  assumes "wf m" "d < num m" "k < num m" "val m d" "val m k" "j < num m"
  shows "val (xElemCopy C m d k) j = val m j"
  using assms copy_slot [OF assms(1-3)] by (cases "j = d") simp_all

lemma copy_probe:
  assumes wf: "wf m" and pr: "probe_ok C m" and r: "is_run C m s e"
    and d: "d < num m" and k: "k < num m" "dst m s d \<le> dst m s k" "dst m s k \<le> dst m s e"
    and home: "dst m s (hs m k) \<le> dst m s d"
  shows "probe_ok C (xElemCopy C m d k)" "is_run C (xElemCopy C m d k) s e"
proof -
  note D = is_runD [OF r] and cp = copy_slot [OF wf d k(1)]
  have v: "val m d" "val m k" using D(5) d k by auto
  note cv = copy_valid [OF wf d k(1) v]
  have kd: "dst m (hs m k) d \<le> dst m (hs m k) k"
    using home k D(1) d probe_okD(1) [OF pr k(1) v(2)]
    by (simp add: cdist_via [of s "num m" "hs m k"])
  have "hs (xElemCopy C m d k) i < num m \<and>
      (\<forall>j<num m. dst m (hs (xElemCopy C m d k) i) j \<le> dst m (hs (xElemCopy C m d k) i) i \<longrightarrow> val m j)"
    if i: "i < num m" "val m i" for i
  proof (cases "i = d")
    case True
    have "val m j" if "j < num m" "dst m (hs m k) j \<le> dst m (hs m k) d" for j
      using probe_okD(2) [OF pr k(1) v(2) that(1)] that(2) kd by simp
    with probe_okD(1) [OF pr k(1) v(2)] show ?thesis unfolding cp(2) True by blast
  next
    case False
    with probe_okD [OF pr i] show ?thesis unfolding cp(4) [OF i(1) False] by blast
  qed
  then show "probe_ok C (xElemCopy C m d k)" unfolding probe_ok_def count_copy by (simp add: cv)
  show "is_run C (xElemCopy C m d k) s e"
    using r unfolding is_run_def Let_def count_copy by (simp add: cv)
qed

lemma elems_clear:
  assumes "wf m" "d < num m" "val m d"
  shows "elems C core (xElemClear C m d) + {#core (el m d)#} = elems C core m"
  using sum_slot_update [of d "num m" "slot C core (xElemClear C m d)" "slot C core m"] assms
    get_clear [OF assms(1,2)] get_clear_other [OF assms(1)]
  by (simp add: elems_def slot_def count_clear)

lemma elems_copy:
  assumes "wf m" "d < num m" "val m d" "k < num m" "val m k"
  shows "elems C core (xElemCopy C m d k) + {#core (el m d)#} = elems C core m + {#core (el m k)#}"
  using sum_slot_update [of d "num m" "slot C core (xElemCopy C m d k)" "slot C core m"] assms
    get_copy [OF assms(1,2,4)] get_copy_other [OF assms(1)] copy_slot(1) [OF assms(1,2,4)]
  by (simp add: elems_def slot_def count_copy)

lemma elems_iff: "x \<in># elems C core m \<longleftrightarrow> (\<exists>i<num m. val m i \<and> x = core (el m i))"
  by (auto simp: elems_def slot_def in_sum_slots split: if_splits)

subsection \<open>Filling a free slot\<close>

text \<open>An area \<open>m'\<close> that differs from \<open>m\<close> in a new element at the end of its probe path.\<close>

lemma insert_probe:
  assumes pr: "probe_ok C m" and n: "num m' = num m"
    and i: "i < num m" "val m' i" "hs m' i < num m"
    and path: "\<And>j. j < num m \<Longrightarrow> dst m (hs m' i) j < dst m (hs m' i) i \<Longrightarrow> val m j"
    and other: "\<And>j. j < num m \<Longrightarrow> j \<noteq> i \<Longrightarrow> el m' j = el m j"
  shows "probe_ok C m'"
proof -
  have keep: "val m' j" if "j < num m" "val m j" for j
    using that other i(2) by (cases "j = i") auto
  have "hs m' j < num m \<and> (\<forall>k<num m. dst m (hs m' j) k \<le> dst m (hs m' j) j \<longrightarrow> val m' k)"
    if j: "j < num m" "val m' j" for j
  proof (cases "j = i")
    case True
    have "val m' k" if "k < num m" "dst m (hs m' i) k \<le> dst m (hs m' i) i" for k
    proof (cases "k = i")
      case False
      then have "dst m (hs m' i) k \<noteq> dst m (hs m' i) i" using that(1) i by (simp add: cdist_inj)
      with that path keep show ?thesis by simp
    qed (use i in simp)
    with True i show ?thesis by blast
  next
    case False
    note same = other [OF j(1) False]
    have "hs m' j = hs m j" by (rule hs_cong [OF same])
    moreover have "val m j" using j(2) same by simp
    ultimately show ?thesis using probe_okD [OF pr j(1)] keep by simp
  qed
  then show ?thesis unfolding probe_ok_def n by blast
qed

lemma insert_elems:
  assumes "num m' = num m" "i < num m" "\<not> val m i" "val m' i"
    and "\<And>j. j < num m \<Longrightarrow> j \<noteq> i \<Longrightarrow> el m' j = el m j"
  shows "elems C core m' = elems C core m + {#core (el m' i)#}"
  using sum_slot_update [of i "num m" "slot C core m'" "slot C core m"] assms
  by (simp add: elems_def slot_def)

text \<open>Rewriting the element of a slot that keeps its home slot.\<close>

lemma rewrite_probe:
  assumes pr: "probe_ok C m" and n: "num m' = num m" and i: "i < num m"
    and val: "val m' i = val m i" and hs: "hs m' i = hs m i"
    and other: "\<And>j. j < num m \<Longrightarrow> j \<noteq> i \<Longrightarrow> el m' j = el m j"
  shows "probe_ok C m'"
proof -
  have same: "val m' j = val m j \<and> hs m' j = hs m j" if "j < num m" for j
  proof (cases "j = i")
    case False
    note eq = other [OF that False]
    from eq hs_cong [OF eq] show ?thesis by simp
  qed (simp add: val hs)
  then show ?thesis using pr unfolding probe_ok_def n by simp
qed

subsection \<open>Deletion\<close>

text \<open>
  The result of deleting slot \<open>d\<close> of the run from \<open>s\<close> to \<open>e\<close>: one
  element less, the slots outside \<open>d..e\<close> untouched, and in them only elements that
  were at the same place or behind it.
\<close>

definition deleted :: "'m \<Rightarrow> nat \<Rightarrow> nat \<Rightarrow> nat \<Rightarrow> 'm \<Rightarrow> bool" where
  "deleted m s e d m' \<longleftrightarrow>
     wf m' \<and> num m' = num m \<and> frame m' = frame m \<and> probe_ok C m' \<and>
     elems C core m' + {#core (el m d)#} = elems C core m \<and>
     (\<forall>j<num m. dst m s j < dst m s d \<or> dst m s e < dst m s j \<longrightarrow> el m' j = el m j) \<and>
     (\<forall>j<num m. val m' j \<and> dst m s d \<le> dst m s j \<and> dst m s j \<le> dst m s e \<longrightarrow>
        (\<exists>k<num m. dst m s j \<le> dst m s k \<and> dst m s k \<le> dst m s e \<and> core (el m' j) = core (el m k)))"

lemma deletedD:
  assumes "deleted m s e d m'"
  shows "wf m'" "num m' = num m" "frame m' = frame m" "probe_ok C m'"
    "elems C core m' + {#core (el m d)#} = elems C core m"
  using assms by (simp_all add: deleted_def)

lemma deleted_clear:
  assumes "wf m" "probe_ok C m" "is_run C m s e" "d < num m" "dst m s d \<le> dst m s e"
    and "\<And>j. j < num m \<Longrightarrow> dst m s d < dst m s j \<Longrightarrow> dst m s j \<le> dst m s e \<Longrightarrow>
       dst m s d < dst m s (hs m j)"
  shows "deleted m s e d (xElemClear C m d)"
proof -
  have "val m d" using is_runD(5) assms(3-5) by blast
  then show ?thesis
    unfolding deleted_def
    using wf_clear count_clear frame_clear clear_probe elems_clear assms clear_slot(1) get_clear_other
    by (metis (no_types, lifting) le_refl less_irrefl not_less)
qed

lemma deleted_copy:
  assumes wf: "wf m" and r: "is_run C m s e"
    and d: "d < num m" and k: "k < num m" "dst m s d < dst m s k" "dst m s k \<le> dst m s e"
    and del: "deleted (xElemCopy C m d k) s e k m'"
  shows "deleted m s e d m'"
proof -
  note D = is_runD [OF r]
  note X = del [unfolded deleted_def count_copy frame_copy]
  have v: "val m d" "val m k" and ne: "d \<noteq> k" using D(5) d k by auto
  have ek: "el (xElemCopy C m d k) k = el m k" using get_copy_other [OF wf k(1)] ne by auto
  have "elems C core m' + {#core (el m d)#} = elems C core m"
  proof -
    have "elems C core m' + {#core (el m k)#} + {#core (el m d)#} = elems C core m + {#core (el m k)#}"
      using X elems_copy [OF wf d v(1) k(1) v(2)] unfolding ek by simp
    then show ?thesis by simp
  qed
  moreover have "el m' j = el m j" if "j < num m" "dst m s j < dst m s d \<or> dst m s e < dst m s j" for j
  proof -
    have "j \<noteq> d" using that k(2,3) by auto
    moreover have "el m' j = el (xElemCopy C m d k) j" using X that k(2,3) by auto
    ultimately show ?thesis using get_copy_other [OF wf that(1)] by simp
  qed
  moreover have "\<exists>l<num m. dst m s j \<le> dst m s l \<and> dst m s l \<le> dst m s e \<and> core (el m' j) = core (el m l)"
    if j: "j < num m" "val m' j" "dst m s d \<le> dst m s j" "dst m s j \<le> dst m s e" for j
  proof (cases "dst m s k \<le> dst m s j")
    case True
    with X j obtain l where l: "l < num m" "dst m s j \<le> dst m s l" "dst m s l \<le> dst m s e"
      "core (el m' j) = core (el (xElemCopy C m d k) l)" by blast
    then have "l \<noteq> d" using True k(2) by auto
    with l get_copy_other [OF wf l(1)] show ?thesis by auto
  next
    case False
    then have same: "el m' j = el (xElemCopy C m d k) j" using X j(1) by auto
    show ?thesis
    proof (cases "j = d")
      case True
      with same get_copy [OF wf d k(1)] k show ?thesis by (intro exI [of _ k]) auto
    next
      case False
      with same get_copy_other [OF wf j(1)] j show ?thesis by (intro exI [of _ j]) auto
    qed
  qed
  ultimately show ?thesis unfolding deleted_def using X by blast
qed

lemma delete_run:
  "wf m \<Longrightarrow> probe_ok C m \<Longrightarrow> is_run C m s e \<Longrightarrow> a < num m \<Longrightarrow> dst m s a \<le> dst m s e \<Longrightarrow>
   d < num m \<Longrightarrow> dst m s d \<le> dst m s e \<Longrightarrow>
   \<exists>m'. rowlockIpcDelete C m a d e = Some m' \<and> deleted m s e d m'"
proof (induction "dst m s e - dst m s d" arbitrary: m a d rule: less_induct)
  case less
  note wf = less.prems(1) and pr = less.prems(2) and r = less.prems(3) and d = less.prems(6,7)
  note D = is_runD [OF r]
  let ?n = "num m" and ?p = "cprev (num m) s"
  have p: "xIndexNext C m ?p = s" using D(1) by (simp add: next_eq [OF wf])
  have sp: "searchEmptyPrev C m e (xIndexPrev C m a) = Some ?p"
    using emptyPrev_run [OF wf r less.prems(4,5)] less.prems(4) by (simp add: prev_eq [OF wf])
  obtain k where k: "k < ?n" "searchMoving C m s d e e = Some k" "dst m s d \<le> dst m s k"
    "dst m s k \<le> dst m s e" "k \<noteq> d \<longrightarrow> dst m s (hs m k) \<le> dst m s d"
    "\<And>j. j < ?n \<Longrightarrow> dst m s k < dst m s j \<Longrightarrow> dst m s j \<le> dst m s e \<Longrightarrow> dst m s d < dst m s (hs m j)"
    using moving_run [OF wf pr r d, of e] D(2) d(2) by auto
  show ?case
  proof (cases "k = d")
    case True
    have "rowlockIpcDelete C m a d e = Some (xElemClear C m d)"
      using sp k(2) True p by (subst rowlockIpcDelete.simps) simp
    moreover have "deleted m s e d (xElemClear C m d)"
      using deleted_clear [OF wf pr r d] k(6) True by blast
    ultimately show ?thesis by blast
  next
    case False
    let ?m = "xElemCopy C m d k"
    have "dst m s k \<noteq> dst m s d" using False k(1) d(1) D(1) by (simp add: cdist_inj)
    with k(3) have dk: "dst m s d < dst m s k" by simp
    have home: "dst m s (hs m k) \<le> dst m s d" using k(5) False by simp
    note cp = copy_probe [OF wf pr r d(1) k(1,3,4) home]
    have "rowlockIpcDelete C m a d e = rowlockIpcDelete C ?m s k e"
      using sp k(2) False p by (subst rowlockIpcDelete.simps) simp
    moreover have lt: "dst ?m s e - dst ?m s k < dst m s e - dst m s d"
      unfolding count_copy using dk k(4) by linarith
    obtain m' where "rowlockIpcDelete C ?m s k e = Some m'" "deleted ?m s e k m'"
      using less.hyps [OF lt wf_copy [OF wf k(1)] cp, of s] D(1) k(1,4) by (auto simp: count_copy)
    ultimately show ?thesis using deleted_copy [OF wf r d(1) k(1) dk k(4)] by auto
  qed
qed

lemma deleted_outside:
  assumes "deleted m s e d m'" "is_run C m s e" "j < num m" "\<not> val m j"
  shows "\<not> val m' j"
proof -
  have "\<not> dst m s j \<le> dst m s e" using is_runD(5) [OF assms(2)] assms(3,4) by blast
  with assms show ?thesis unfolding deleted_def by auto
qed

lemma deleted_has_empty:
  assumes "deleted m s e d m'" "is_run C m s e"
  shows "has_empty C m'"
  using deleted_outside [OF assms, of "cprev (num m) s"] is_runD(1,3) [OF assms(2)] assms(1)
  unfolding has_empty_def deleted_def by (auto intro!: exI [of _ "cprev (num m) s"])

text \<open>
  The sequence of calls that releases the element of slot \<open>i\<close>, once the search
  has found it there.
\<close>

lemma delete_found:
  assumes wf: "wf m" and pr: "probe_ok C m" and em: "has_empty C m" and i: "i < num m" "val m i"
  obtains s e z m' where "is_run C m s e" "dst m s i \<le> dst m s e"
    "searchEmptyNext C m (hs m i) (xIndexNext C m i) = Some z"
    "rowlockIpcDelete C m (hs m i) i (xIndexPrev C m z) = Some m'"
    "deleted m s e i m'"
proof -
  obtain s e where r: "is_run C m s e" and si: "dst m s i \<le> dst m s e"
    by (rule run_exists [OF wf em i])
  note H = run_home [OF pr r i(1) si] and D = is_runD [OF r]
  let ?z = "cnext (num m) e"
  have z: "searchEmptyNext C m (hs m i) (xIndexNext C m i) = Some ?z"
    using emptyNext_run [OF wf r H(1) i(1) H(2) si] i(1) by (simp add: next_eq [OF wf])
  have "xIndexPrev C m ?z = e" using D(2) by (simp add: prev_eq [OF wf])
  moreover obtain m' where "rowlockIpcDelete C m (hs m i) i e = Some m'" "deleted m s e i m'"
    using delete_run [OF wf pr r H(1) _ i(1) si] H(2) si by auto
  ultimately show thesis using that [OF r si z] by simp
qed

subsection \<open>Sweeping backwards over the ring\<close>

definition swept :: "('c \<Rightarrow> bool) \<Rightarrow> 'm \<Rightarrow> nat \<Rightarrow> nat \<Rightarrow> bool" where
  "swept P m b i \<longleftrightarrow> (\<forall>j<num m. val m j \<and> dst m b i < dst m b j \<longrightarrow> \<not> P (core (el m j)))"

lemma deleted_swept:
  assumes del: "deleted m s e d m'" and r: "is_run C m s e"
    and b: "b < num m" "\<not> val m b" and sw: "swept P m b i"
  shows "swept P m' b i"
proof -
  note D = is_runD [OF r] and X = del [unfolded deleted_def]
  have sb: "dst m s e < dst m s b" using D(5) b by (meson not_less)
  have mono: "dst m b x \<le> dst m b y"
    if "x < num m" "y < num m" "dst m s x \<le> dst m s y" "dst m s y \<le> dst m s e" for x y
    using that sb cdist_less [OF D(1) b(1)]
    by (simp add: cdist_via [OF D(1) b(1)])
  have "\<not> P (core (el m' j))" if j: "j < num m" "val m' j" "dst m b i < dst m b j" for j
  proof (cases "dst m s j < dst m s d \<or> dst m s e < dst m s j")
    case True
    then have "el m' j = el m j" using X j(1) by blast
    with sw j show ?thesis unfolding swept_def by auto
  next
    case False
    then obtain k where k: "k < num m" "dst m s j \<le> dst m s k" "dst m s k \<le> dst m s e"
      "core (el m' j) = core (el m k)" using X j by (meson not_less)
    have "dst m b i < dst m b k" using mono [OF j(1) k(1,2,3)] j(3) by simp
    moreover have "val m k" using D(5) k by blast
    ultimately show ?thesis using sw k unfolding swept_def by auto
  qed
  with X show ?thesis unfolding swept_def by simp
qed

lemma swept_start: "b < num m \<Longrightarrow> swept P m b (cprev (num m) b)"
proof -
  assume b: "b < num m"
  have "\<not> dst m b (cprev (num m) b) < dst m b j" if "j < num m" for j
    using cdist_less [OF b that] by (simp add: cdist_cprev_last [OF b])
  then show ?thesis by (auto simp: swept_def)
qed

lemma swept_step:
  assumes sw: "swept P m b i" and b: "b < num m" and i: "i < num m" "i \<noteq> b"
    and no: "\<not> (val m i \<and> P (core (el m i)))"
  shows "swept P m b (cprev (num m) i)"
proof -
  have "\<not> P (core (el m j))" if "j < num m" "val m j" "dst m b (cprev (num m) i) < dst m b j" for j
  proof (cases "j = i")
    case False
    then have "dst m b j \<noteq> dst m b i" using that(1) i b by (simp add: cdist_inj)
    moreover have "dst m b i \<le> dst m b j" using that(3) cdist_cprev_Suc [OF b i] by simp
    ultimately show ?thesis using sw that unfolding swept_def by simp
  qed (use no that in auto)
  then show ?thesis by (auto simp: swept_def)
qed

lemma swept_end:
  assumes "swept P m b b" "b < num m" "\<not> val m b" "x \<in># elems C core m"
  shows "\<not> P x"
proof -
  obtain j where j: "j < num m" "val m j" "x = core (el m j)" using assms(4) by (auto simp: elems_iff)
  then have "dst m b j \<noteq> 0" using assms(2,3) by (metis cdist_0_iff)
  with j assms(1) show ?thesis by (simp add: swept_def)
qed

text \<open>The slot of a deleted element holds, if anything, an element from behind it.\<close>

lemma deleted_slot:
  assumes del: "deleted m s e d m'" and r: "is_run C m s e" and d: "d < num m" "dst m s d \<le> dst m s e"
    and b: "b < num m" "\<not> val m b" and sw: "swept P m b d"
    and v: "val m' d" and ne: "core (el m' d) \<noteq> core (el m d)"
  shows "\<not> P (core (el m' d))"
proof -
  note D = is_runD [OF r]
  obtain k where k: "k < num m" "dst m s d \<le> dst m s k" "dst m s k \<le> dst m s e"
    "core (el m' d) = core (el m k)"
    using del v d unfolding deleted_def by blast
  then have "dst m s k \<noteq> dst m s d" using ne D(1) d(1) by (auto simp: cdist_inj)
  moreover have "dst m s e < dst m s b" using D(5) b by (meson not_less)
  ultimately have "dst m b d < dst m b k"
    using k(2,3) d(2) cdist_less [OF D(1) b(1)] D(1) b(1) d(1) k(1)
    by (simp add: cdist_via [of s "num m" b])
  moreover have "val m k" using D(5) k by blast
  ultimately show ?thesis using sw k unfolding swept_def by auto
qed

text \<open>
  The sweep, for an inner loop \<open>W\<close> that leaves no element with \<open>P\<close> at its slot and
  brings none to the slots behind it; \<open>R\<close> collects what the steps do to the area.
\<close>

lemma ringSweep_ok:
  assumes W: "\<And>m i. I m \<Longrightarrow> b < num m \<Longrightarrow> \<not> val m b \<Longrightarrow> i < num m \<Longrightarrow> swept P m b i \<Longrightarrow>
      \<exists>m'. W i m = Some m' \<and> I m' \<and> R m m' \<and> num m' = num m \<and> \<not> val m' b \<and> swept P m' b i \<and>
        \<not> (val m' i \<and> P (core (el m' i)))"
    and wf: "\<And>m. I m \<Longrightarrow> wf m" and trans: "\<And>m m' m''. R m m' \<Longrightarrow> R m' m'' \<Longrightarrow> R m m''"
  shows "I m \<Longrightarrow> b < num m \<Longrightarrow> \<not> val m b \<Longrightarrow> i < num m \<Longrightarrow> swept P m b i \<Longrightarrow>
    i = b \<longrightarrow> swept P m b (cprev (num m) b) \<Longrightarrow>
    \<exists>m'. ringSweep C W b i m = Some m' \<and> I m' \<and> R m m' \<and> num m' = num m \<and> \<not> val m' b \<and> swept P m' b b"
proof (induction "if i = b then num m else dst m b i" arbitrary: m i rule: less_induct)
  case less
  note b = less.prems(2) and i = less.prems(4)
  obtain m' where m': "W i m = Some m'" "I m'" "R m m'" "num m' = num m" "\<not> val m' b" "swept P m' b i"
    "\<not> (val m' i \<and> P (core (el m' i)))"
    using W [OF less.prems(1-5)] by blast
  let ?k = "cprev (num m) i"
  have k: "?k < num m" using i by simp
  have prev: "xIndexPrev C m' i = ?k" using prev_eq [OF wf [OF m'(2)]] m'(4) i by simp
  have sw: "swept P m' b ?k"
  proof (cases "i = b")
    case True
    then show ?thesis using swept_start [of b m' P] b m'(4) by simp
  next
    case False
    then show ?thesis using swept_step [OF m'(6) _ _ False m'(7)] b i m'(4) by simp
  qed
  show ?case
  proof (cases "?k = b")
    case True
    then have "ringSweep C W b i m = Some m'" using m'(1) prev by (subst ringSweep.simps) simp
    with m' sw True show ?thesis by auto
  next
    case False
    have "dst m b ?k < (if i = b then num m else dst m b i)"
      using cdist_less [OF b k] cdist_cprev_Suc [OF b i] by auto
    then have lt: "(if ?k = b then num m' else dst m' b ?k) < (if i = b then num m else dst m b i)"
      using False m'(4) by simp
    have "ringSweep C W b i m = ringSweep C W b ?k m'"
      using m'(1) prev False by (subst ringSweep.simps) simp
    moreover obtain m'' where "ringSweep C W b ?k m' = Some m''" "I m''" "R m' m''" "num m'' = num m'"
      "\<not> val m'' b" "swept P m'' b b"
      using less.hyps [OF lt m'(2) _ m'(5) _ sw] b k m'(4) False by auto
    ultimately show ?thesis using trans m'(3,4) by auto
  qed
qed

lemma ringSweep_clean:
  assumes W: "\<And>m i. I m \<Longrightarrow> b < num m \<Longrightarrow> \<not> val m b \<Longrightarrow> i < num m \<Longrightarrow> swept P m b i \<Longrightarrow>
      \<exists>m'. W i m = Some m' \<and> I m' \<and> R m m' \<and> num m' = num m \<and> \<not> val m' b \<and> swept P m' b i \<and>
        \<not> (val m' i \<and> P (core (el m' i)))"
    and first: "W b m = Some m"
    and wf: "\<And>m. I m \<Longrightarrow> wf m" and trans: "\<And>m m' m''. R m m' \<Longrightarrow> R m' m'' \<Longrightarrow> R m m''"
    and refl: "R m m" and m: "I m" "b < num m" "\<not> val m b"
  shows "\<exists>m'. ringSweep C W b b m = Some m' \<and> I m' \<and> R m m' \<and> (\<forall>x\<in>#elems C core m'. \<not> P x)"
proof -
  let ?k = "cprev (num m) b"
  have sw: "swept P m b ?k" by (rule swept_start [OF m(2)])
  have k: "?k < num m" using m(2) by simp
  have prev: "xIndexPrev C m b = ?k" by (rule prev_eq [OF wf [OF m(1)] m(2)])
  have step: "ringSweep C W b b m = (if ?k \<noteq> b then ringSweep C W b ?k m else Some m)"
    using first prev by (subst ringSweep.simps) simp
  have "\<exists>m'. ringSweep C W b b m = Some m' \<and> I m' \<and> R m m' \<and> num m' = num m \<and> \<not> val m' b \<and> swept P m' b b"
  proof (cases "?k = b")
    case True
    with step sw refl m show ?thesis by auto
  next
    case False
    with ringSweep_ok [of I b P W R, OF W wf trans m k sw] step show ?thesis by simp
  qed
  then obtain m' where m': "ringSweep C W b b m = Some m'" "I m'" "R m m'" "num m' = num m" "\<not> val m' b" "swept P m' b b"
    by blast
  have "\<not> P x" if "x \<in># elems C core m'" for x
    using swept_end [OF m'(6) _ m'(5) that] m(2) m'(4) by simp
  with m' show ?thesis by blast
qed

lemma emptyLast:
  assumes wf: "wf m" and em: "has_empty C m"
  shows "i < num m \<Longrightarrow> (\<And>j. j < num m \<Longrightarrow> i < j \<Longrightarrow> val m j) \<Longrightarrow>
    \<exists>b<num m. searchEmptyLast C m i = Some b \<and> \<not> val m b"
proof (induction i)
  case 0
  have "\<not> val m 0" using em 0 unfolding has_empty_def by (metis neq0_conv)
  then show ?case using 0 by (subst searchEmptyLast.simps) auto
next
  case (Suc i)
  show ?case
  proof (cases "val m (Suc i)")
    case False
    then show ?thesis using Suc.prems(1) by (subst searchEmptyLast.simps) auto
  next
    case True
    have later: "val m j" if "j < num m" "i < j" for j
      using that Suc.prems(2) True by (cases "j = Suc i") auto
    have prev: "xIndexPrev C m (Suc i) = i" using Suc.prems(1) by (simp add: prev_eq [OF wf] cprev_def)
    show ?thesis
    proof (cases "i = 0")
      case False
      have "searchEmptyLast C m (Suc i) = searchEmptyLast C m i"
        using True False prev by (subst searchEmptyLast.simps) simp
      with Suc.IH Suc.prems(1) later show ?thesis by simp
    next
      case True0: True
      have "searchEmptyLast C m (Suc i) = Some 0"
        using True True0 prev by (subst searchEmptyLast.simps) simp
      moreover have "\<not> val m 0"
        using em later unfolding has_empty_def True0 by (metis neq0_conv)
      ultimately show ?thesis using Suc.prems(1) by auto
    qed
  qed
qed

lemma emptyLast_top:
  assumes "wf m" "has_empty C m"
  obtains b where "b < num m" "searchEmptyLast C m (num m - 1) = Some b" "\<not> val m b"
proof -
  have "val m j" if "j < num m" "num m - 1 < j" for j using that by simp
  then obtain b where "b < num m" "searchEmptyLast C m (num m - 1) = Some b" "\<not> val m b"
    using emptyLast [OF assms, of "num m - 1"] count_pos [OF assms(1)] by auto
  then show thesis by (rule that)
qed

lemma elems_list:
  "elems C core m = mset (map core (filter (xElemIsValid C) (map (el m) [0..<num m])))"
proof -
  have "(\<Sum>i<k. slot C core m i) = mset (map core (filter (xElemIsValid C) (map (el m) [0..<k])))" for k
    by (induction k) (simp_all add: slot_def)
  then show ?thesis by (simp add: elems_def)
qed

end

end
