(* ===== verification/Lock_Spec.thy ===== *)
theory Lock_Spec
  imports Prelude
begin

text \<open>
  The contract of a table of record locks, which the shared-memory row locks provide: an abstract
  state that maps a record to the holder of its lock, the effect of each operation on
  it, and the locale \<open>record_locks\<close> that an implementation interprets. Its lemmas
  are about interleaved calls of several processes.
\<close>

section \<open>Abstract operations\<close>

type_synonym holder = "PID \<times> u64"

text \<open>Locking a record, on a table with room for \<open>cap\<close> locks.\<close>

definition spec_lock :: "nat \<Rightarrow> ('k \<rightharpoonup> 'h) \<Rightarrow> 'k \<Rightarrow> 'h \<Rightarrow> rc \<times> ('k \<rightharpoonup> 'h)" where
  "spec_lock cap L k h =
     (case L k of
        Some h' \<Rightarrow> (if h' = h then SQLITE_DONE else SQLITE_LOCKED, L)
      | None \<Rightarrow> if card (dom L) < cap then (SQLITE_OK, L(k \<mapsto> h)) else (SQLITE_NOMEM, L))"

definition spec_query :: "('k \<rightharpoonup> 'h) \<Rightarrow> 'k \<Rightarrow> 'h \<Rightarrow> rc" where
  "spec_query L k h =
     (case L k of None \<Rightarrow> SQLITE_OK | Some h' \<Rightarrow> if h' = h then SQLITE_OK else SQLITE_LOCKED)"

text \<open>Releasing the locks of a process, of an owner, or all of them; 0 is a wildcard.\<close>

definition holderMatches :: "PID \<Rightarrow> u64 \<Rightarrow> holder \<Rightarrow> bool" where
  "holderMatches pid owner h \<longleftrightarrow> (pid = 0 \<or> fst h = pid) \<and> (owner = 0 \<or> snd h = owner)"

definition spec_release :: "PID \<Rightarrow> u64 \<Rightarrow> ('k \<rightharpoonup> holder) \<Rightarrow> ('k \<rightharpoonup> holder)" where
  "spec_release pid owner L =
     (\<lambda>k. case L k of None \<Rightarrow> None | Some h \<Rightarrow> if holderMatches pid owner h then None else Some h)"

lemma spec_release_Some:
  "spec_release pid ow L k = Some h \<longleftrightarrow> L k = Some h \<and> \<not> holderMatches pid ow h"
  by (auto simp: spec_release_def split: option.splits)

section \<open>Sequences of calls\<close>

datatype 'k call = CLock holder 'k | CQuery holder 'k | CUnlock 'k | CRelease PID u64

record ('m, 'k) lock_ops =
  op_lock :: "'m \<Rightarrow> holder \<Rightarrow> 'k \<Rightarrow> (rc \<times> 'm) option"
  op_query :: "'m \<Rightarrow> holder \<Rightarrow> 'k \<Rightarrow> rc option"
  op_unlock :: "'m \<Rightarrow> 'k \<Rightarrow> 'm option"
  op_release :: "'m \<Rightarrow> PID \<Rightarrow> u64 \<Rightarrow> 'm option"

fun call_key :: "'k call \<Rightarrow> 'k option" where
  "call_key (CLock h k) = Some k"
| "call_key (CQuery h k) = Some k"
| "call_key (CUnlock k) = Some k"
| "call_key (CRelease p ow) = None"

text \<open>Calls whose keys an implementation admits.\<close>

definition calls_ok :: "('k \<Rightarrow> bool) \<Rightarrow> 'k call list \<Rightarrow> bool" where
  "calls_ok ok cs \<longleftrightarrow> list_all (\<lambda>c. case call_key c of None \<Rightarrow> True | Some k \<Rightarrow> ok k) cs"

text \<open>One call on an implementation and on the abstract state; a void function counts as \<open>SQLITE_OK\<close>.\<close>

fun do_call :: "('m, 'k) lock_ops \<Rightarrow> 'm \<Rightarrow> 'k call \<Rightarrow> (rc \<times> 'm) option" where
  "do_call F m (CLock h k) = op_lock F m h k"
| "do_call F m (CQuery h k) = map_option (\<lambda>rc. (rc, m)) (op_query F m h k)"
| "do_call F m (CUnlock k) = map_option (\<lambda>m'. (SQLITE_OK, m')) (op_unlock F m k)"
| "do_call F m (CRelease p ow) = map_option (\<lambda>m'. (SQLITE_OK, m')) (op_release F m p ow)"

fun spec_call :: "nat \<Rightarrow> ('k \<rightharpoonup> holder) \<Rightarrow> 'k call \<Rightarrow> rc \<times> ('k \<rightharpoonup> holder)" where
  "spec_call cap L (CLock h k) = spec_lock cap L k h"
| "spec_call cap L (CQuery h k) = (spec_query L k h, L)"
| "spec_call cap L (CUnlock k) = (SQLITE_OK, L(k := None))"
| "spec_call cap L (CRelease p ow) = (SQLITE_OK, spec_release p ow L)"

fun do_calls :: "('m, 'k) lock_ops \<Rightarrow> 'm \<Rightarrow> 'k call list \<Rightarrow> (rc list \<times> 'm) option" where
  "do_calls F m [] = Some ([], m)"
| "do_calls F m (c # cs) =
     Option.bind (do_call F m c) (\<lambda>(rc, m').
     Option.bind (do_calls F m' cs) (\<lambda>(rcs, m'').
       Some (rc # rcs, m'')))"

fun spec_calls :: "nat \<Rightarrow> ('k \<rightharpoonup> holder) \<Rightarrow> 'k call list \<Rightarrow> rc list \<times> ('k \<rightharpoonup> holder)" where
  "spec_calls cap L [] = ([], L)"
| "spec_calls cap L (c # cs) =
     (let (rc, L') = spec_call cap L c; (rcs, L'') = spec_calls cap L' cs in (rc # rcs, L''))"

text \<open>A call that ends the lock of \<open>h\<close> on \<open>k\<close>.\<close>

fun drops :: "holder \<Rightarrow> 'k \<Rightarrow> 'k call \<Rightarrow> bool" where
  "drops h k (CUnlock k') \<longleftrightarrow> k' = k"
| "drops h k (CRelease p ow) \<longleftrightarrow> holderMatches p ow h"
| "drops h k (CLock h' k') \<longleftrightarrow> False"
| "drops h k (CQuery h' k') \<longleftrightarrow> False"

lemma spec_calls_length: "length (fst (spec_calls cap L cs)) = length cs"
  by (induction cap L cs rule: spec_calls.induct) (auto simp: Let_def split: prod.splits)

lemma spec_call_keeps: "L k = Some h \<Longrightarrow> \<not> drops h k c \<Longrightarrow> snd (spec_call cap L c) k = Some h"
  by (cases c) (auto simp: spec_lock_def spec_release_def split: option.splits)

lemma spec_call_excludes: "L k = Some h \<Longrightarrow> c = CLock h' k \<Longrightarrow> h' \<noteq> h \<Longrightarrow> fst (spec_call cap L c) = SQLITE_LOCKED"
  by (simp add: spec_lock_def)

text \<open>
  Mutual exclusion: while \<open>h\<close> holds \<open>k\<close>, every attempt of another holder to lock it
  is refused, whatever the calls in between.
\<close>

lemma spec_exclusion:
  "L k = Some h \<Longrightarrow> \<forall>c\<in>set cs. \<not> drops h k c \<Longrightarrow>
   snd (spec_calls cap L cs) k = Some h \<and>
   (\<forall>i<length cs. \<forall>h'. cs ! i = CLock h' k \<longrightarrow>
      fst (spec_calls cap L cs) ! i = (if h' = h then SQLITE_DONE else SQLITE_LOCKED))"
proof (induction cap L cs rule: spec_calls.induct)
  case (2 cap L c cs)
  obtain rc L' where c: "spec_call cap L c = (rc, L')" by fastforce
  have L': "L' k = Some h" using spec_call_keeps [where L = L, OF 2(2), of c cap] c 2(3) by simp
  note IH = 2(1) [OF c [symmetric] refl L']
  have first: "rc = (if h' = h then SQLITE_DONE else SQLITE_LOCKED)" if "c = CLock h' k" for h'
    using that c 2(2) by (auto simp: spec_lock_def)
  from 2(3) have "\<forall>c\<in>set cs. \<not> drops h k c" by simp
  from IH [OF this] first c show ?case
    by (auto simp: Let_def nth_Cons split: prod.splits nat.splits)
qed simp

section \<open>What an implementation provides\<close>

locale record_locks =
  fixes F :: "('m, 'k) lock_ops"
    and inv :: "'m \<Rightarrow> bool"
    and abs :: "'m \<Rightarrow> 'k \<rightharpoonup> holder"
    and cap :: "'m \<Rightarrow> nat"
    and ok :: "'k \<Rightarrow> bool"
  assumes lock_ok: "inv m \<Longrightarrow> ok k \<Longrightarrow>
      \<exists>m'. op_lock F m h k = Some (fst (spec_lock (cap m) (abs m) k h), m') \<and>
        inv m' \<and> cap m' = cap m \<and> abs m' = snd (spec_lock (cap m) (abs m) k h)"
    and query_ok: "inv m \<Longrightarrow> op_query F m h k = Some (spec_query (abs m) k h)"
    and unlock_ok: "inv m \<Longrightarrow>
      \<exists>m'. op_unlock F m k = Some m' \<and> inv m' \<and> cap m' = cap m \<and> abs m' = (abs m)(k := None)"
    and release_ok: "inv m \<Longrightarrow>
      \<exists>m'. op_release F m p ow = Some m' \<and> inv m' \<and> cap m' = cap m \<and> abs m' = spec_release p ow (abs m)"
begin

lemma call_refines:
  assumes "inv m" "calls_ok ok [c]"
  obtains m' where "do_call F m c = Some (fst (spec_call (cap m) (abs m) c), m')"
    "inv m'" "cap m' = cap m" "abs m' = snd (spec_call (cap m) (abs m) c)"
proof (cases c)
  case (CLock h k)
  with assms lock_ok [of m k h] that show thesis by (auto simp: calls_ok_def)
next
  case (CQuery h k)
  with assms query_ok [of m h k] that show thesis by (auto simp: calls_ok_def)
next
  case (CUnlock k)
  with assms unlock_ok [of m k] that show thesis by (auto simp: calls_ok_def)
next
  case (CRelease p ow)
  with assms release_ok [of m p ow] that show thesis by (auto simp: calls_ok_def)
qed

text \<open>Every sequence of calls returns what the abstract table returns.\<close>

lemma calls_refine:
  "inv m \<Longrightarrow> calls_ok ok cs \<Longrightarrow>
   \<exists>m'. do_calls F m cs = Some (fst (spec_calls (cap m) (abs m) cs), m') \<and>
     inv m' \<and> cap m' = cap m \<and> abs m' = snd (spec_calls (cap m) (abs m) cs)"
proof (induction cs arbitrary: m)
  case (Cons c cs)
  obtain m' where m': "do_call F m c = Some (fst (spec_call (cap m) (abs m) c), m')"
    "inv m'" "cap m' = cap m" "abs m' = snd (spec_call (cap m) (abs m) c)"
    by (rule call_refines [OF Cons.prems(1), of c]) (use Cons.prems(2) in \<open>simp add: calls_ok_def\<close>)
  obtain m'' where "do_calls F m' cs = Some (fst (spec_calls (cap m') (abs m') cs), m'')"
    "inv m''" "cap m'' = cap m'" "abs m'' = snd (spec_calls (cap m') (abs m') cs)"
    using Cons.IH [OF m'(2)] Cons.prems(2) by (auto simp: calls_ok_def)
  with m' show ?case by (auto simp: Let_def split: prod.splits)
qed simp

lemma exclusion:
  assumes "inv m" "calls_ok ok cs"
    and "abs m k = Some h" "\<forall>c\<in>set cs. \<not> drops h k c"
  shows "\<exists>rcs m'. do_calls F m cs = Some (rcs, m') \<and> abs m' k = Some h \<and>
    (\<forall>i<length cs. \<forall>h'. cs ! i = CLock h' k \<longrightarrow>
       rcs ! i = (if h' = h then SQLITE_DONE else SQLITE_LOCKED))"
proof -
  obtain m' where "do_calls F m cs = Some (fst (spec_calls (cap m) (abs m) cs), m')"
    "abs m' = snd (spec_calls (cap m) (abs m) cs)"
    using calls_refine [OF assms(1,2)] by blast
  with spec_exclusion [where L = "abs m", OF assms(3,4), of "cap m"] show ?thesis
    by (intro exI [of _ "fst (spec_calls (cap m) (abs m) cs)"] exI [of _ m']) simp
qed

end

end
