(* ===== verification/Ipc_Row.thy ===== *)
theory Ipc_Row
  imports Ipc_Area Lock_Spec
begin

text \<open>
  Row locks in shared memory (\<open>rowlock_ipc_row.c\<close>, \<open>rowlock_ipc_row.h\<close>): the class
  \<open>rowClass\<close> of hash areas and the operations that lock, query and release records.
  \<open>row_inv\<close> is the invariant of the area and \<open>row_abs\<close> its meaning, the map from
  a record (table, rowid) to the holder of its lock (process, owner).

  A handle is represented by what the operations read of it: the mapped area, which they
  return updated, and the \<open>owner\<close>. The process id that \<open>rowlockGetPid\<close> returns is an
  argument. The process-shared mutex makes each operation one atomic step.
\<close>

section \<open>The area\<close>

record RowElement =
  hashR :: u64
  iTableR :: int
  rowidR :: i64
  pidR :: PID
  ownerR :: u64

record RowArea =
  nElementR :: u64
  countR :: u64
  pDataR :: "RowElement list"

definition zeroRow :: RowElement where
  "zeroRow = \<lparr>hashR = 0, iTableR = 0, rowidR = 0, pidR = 0, ownerR = 0\<rparr>"

text \<open>Sizes of the two structures on 64-bit Linux, with the mutex in the meta data.\<close>

definition sizeof_RowMetaData :: u64 where "sizeof_RowMetaData = 64"
definition sizeof_RowElement :: u64 where "sizeof_RowElement = 40"

definition rowClassMapName :: "nat \<Rightarrow> string \<Rightarrow> string option" where
  "rowClassMapName bufSize name = rowlockStrCat bufSize name ''-rowlock''"

definition rowClassIsInitialized :: "RowArea \<Rightarrow> bool" where
  "rowClassIsInitialized m \<longleftrightarrow> nElementR m > 0"

definition rowClassInitArea :: "RowArea \<Rightarrow> u64 \<Rightarrow> RowArea" where
  "rowClassInitArea m allocSize =
     (let nElem = sub64 allocSize sizeof_RowMetaData div sizeof_RowElement in
      \<lparr>nElementR = nElem, countR = 0, pDataR = replicate nElem zeroRow\<rparr>)"

definition rowClassElemCount :: "RowArea \<Rightarrow> u64" where
  "rowClassElemCount m = nElementR m"

definition rowClassIsValid :: "RowElement \<Rightarrow> bool" where
  "rowClassIsValid e \<longleftrightarrow> iTableR e \<noteq> 0"

definition rowClassElemIsTarget :: "RowElement \<Rightarrow> RowElement \<Rightarrow> bool" where
  "rowClassElemIsTarget e1 e2 \<longleftrightarrow> iTableR e1 = iTableR e2 \<and> rowidR e1 = rowidR e2"

definition rowClassElemGet :: "RowArea \<Rightarrow> u64 \<Rightarrow> RowElement" where
  "rowClassElemGet m idx = pDataR m ! idx"

definition rowClassElemHash :: "RowArea \<Rightarrow> u64 \<Rightarrow> u64" where
  "rowClassElemHash m idx = hashR (rowClassElemGet m idx)"

definition rowClassElemClear :: "RowArea \<Rightarrow> u64 \<Rightarrow> RowArea" where
  "rowClassElemClear m idx =
     m\<lparr>pDataR := (pDataR m)[idx := (rowClassElemGet m idx)
         \<lparr>hashR := 0, iTableR := 0, ownerR := 0, pidR := 0, rowidR := 0\<rparr>]\<rparr>"

definition rowClassElemCopy :: "RowArea \<Rightarrow> u64 \<Rightarrow> u64 \<Rightarrow> RowArea" where
  "rowClassElemCopy m iDest iSrc =
     (let src = rowClassElemGet m iSrc in
      m\<lparr>pDataR := (pDataR m)[iDest := (rowClassElemGet m iDest)
         \<lparr>hashR := hashR src, iTableR := iTableR src, ownerR := ownerR src,
          pidR := pidR src, rowidR := rowidR src\<rparr>]\<rparr>)"

definition rowClassIndexPrev :: "RowArea \<Rightarrow> u64 \<Rightarrow> u64" where
  "rowClassIndexPrev m idx =
     (let nElem = rowClassElemCount m in sub64 (wrap64 (idx + nElem)) 1 mod nElem)"

definition rowClassIndexNext :: "RowArea \<Rightarrow> u64 \<Rightarrow> u64" where
  "rowClassIndexNext m idx = (let nElem = rowClassElemCount m in wrap64 (idx + 1) mod nElem)"

definition rowClassCalcHash :: "RowArea \<Rightarrow> int \<times> i64 \<Rightarrow> u64" where
  "rowClassCalcHash m = (\<lambda>(iTable, rowid).
     rowlockIpcCalcHash (nElementR m) (le_bytes 4 iTable @ le_bytes 8 rowid))"

definition rowClass :: "(RowArea, RowElement, int \<times> i64) IpcClass" where
  "rowClass =
     \<lparr>xMapName = rowClassMapName, xIsInitialized = rowClassIsInitialized,
      xInitArea = rowClassInitArea, xElemCount = rowClassElemCount,
      xElemIsValid = rowClassIsValid, xElemIsTarget = rowClassElemIsTarget,
      xElemGet = rowClassElemGet, xElemHash = rowClassElemHash, xElemClear = rowClassElemClear,
      xElemCopy = rowClassElemCopy, xIndexPrev = rowClassIndexPrev,
      xIndexNext = rowClassIndexNext, xCalcHash = rowClassCalcHash\<rparr>"

section \<open>Operations\<close>

definition rowlockIpcRowValueSet ::
  "RowElement list \<Rightarrow> u64 \<Rightarrow> u64 \<Rightarrow> PID \<Rightarrow> int \<Rightarrow> i64 \<Rightarrow> u64 \<Rightarrow> RowElement list" where
  "rowlockIpcRowValueSet pElement idx hash pid iTable rowid owner =
     pElement[idx := (pElement ! idx)
       \<lparr>hashR := hash, pidR := pid, iTableR := iTable, rowidR := rowid, ownerR := owner\<rparr>]"

definition sqlite3rowlockIpcLockRecord ::
  "RowArea \<Rightarrow> PID \<Rightarrow> u64 \<Rightarrow> int \<Rightarrow> i64 \<Rightarrow> (rc \<times> RowArea) option" where
  "sqlite3rowlockIpcLockRecord m pid owner iTable rowid =
     (let hash = xCalcHash rowClass m (iTable, rowid);
          target = zeroRow\<lparr>iTableR := iTable, rowidR := rowid\<rparr>
      in Option.bind (rowlockIpcSearch rowClass m target hash) (\<lambda>r.
         case r of
           Found idx \<Rightarrow>
             if pidR (pDataR m ! idx) = pid \<and> ownerR (pDataR m ! idx) = owner
             then Some (SQLITE_DONE, m) else Some (SQLITE_LOCKED, m)
         | Full \<Rightarrow> Some (SQLITE_NOMEM, m)
         | Vacant idx \<Rightarrow>
             if countR m \<ge> sub64 (nElementR m) 1 then Some (SQLITE_NOMEM, m)
             else Some (SQLITE_OK,
               m\<lparr>pDataR := rowlockIpcRowValueSet (pDataR m) idx hash pid iTable rowid owner,
                 countR := wrap64 (countR m + 1)\<rparr>)))"

definition sqlite3rowlockIpcLockRecordQuery ::
  "RowArea \<Rightarrow> PID \<Rightarrow> u64 \<Rightarrow> int \<Rightarrow> i64 \<Rightarrow> rc option" where
  "sqlite3rowlockIpcLockRecordQuery m pid owner iTable rowid =
     (let hash = xCalcHash rowClass m (iTable, rowid);
          target = zeroRow\<lparr>iTableR := iTable, rowidR := rowid\<rparr>
      in Option.bind (rowlockIpcSearch rowClass m target hash) (\<lambda>r.
         case r of
           Full \<Rightarrow> Some SQLITE_OK
         | Found idx \<Rightarrow>
             (let pElem = xElemGet rowClass m idx in
              if pidR pElem = pid \<and> ownerR pElem = owner then Some SQLITE_OK
              else Some SQLITE_LOCKED)
         | Vacant idx \<Rightarrow> Some SQLITE_OK))"

definition sqlite3rowlockIpcUnlockRecord :: "RowArea \<Rightarrow> int \<Rightarrow> i64 \<Rightarrow> RowArea option" where
  "sqlite3rowlockIpcUnlockRecord m iTable rowid =
     (let hash = xCalcHash rowClass m (iTable, rowid);
          target = zeroRow\<lparr>iTableR := iTable, rowidR := rowid\<rparr>
      in if \<not> xElemIsValid rowClass (xElemGet rowClass m hash) then Some m
         else Option.bind (rowlockIpcSearch rowClass m target hash) (\<lambda>r.
           case r of
             Found idxDel \<Rightarrow>
               Option.bind (searchEmptyNext rowClass m hash (xIndexNext rowClass m idxDel)) (\<lambda>idxEmpty.
               Option.bind (rowlockIpcDelete rowClass m hash idxDel (xIndexPrev rowClass m idxEmpty)) (\<lambda>m'.
                 Some (m'\<lparr>countR := sub64 (countR m') 1\<rparr>)))
           | Vacant idx \<Rightarrow> Some m
           | Full \<Rightarrow> Some m))"

text \<open>
  \<open>sqlite3rowlockIpcUnlockRecordProcCore\<close> on an open handle: its inner loop, which
  releases locks as long as slot \<open>idx\<close> holds one that matches, and the whole function,
  whose outer loop is \<open>ringSweep\<close>.
\<close>

definition rowMatches :: "PID \<Rightarrow> u64 \<Rightarrow> RowElement \<Rightarrow> bool" where
  "rowMatches pid owner e \<longleftrightarrow> (pid = 0 \<or> pidR e = pid) \<and> (owner = 0 \<or> ownerR e = owner)"

partial_function (option) unlockRecordWhile ::
  "PID \<Rightarrow> u64 \<Rightarrow> u64 \<Rightarrow> RowArea \<Rightarrow> RowArea option" where
  "unlockRecordWhile pid owner idx m =
     (if xElemIsValid rowClass (xElemGet rowClass m idx) \<and> rowMatches pid owner (pDataR m ! idx) then
        Option.bind (sqlite3rowlockIpcUnlockRecord m (iTableR (pDataR m ! idx)) (rowidR (pDataR m ! idx)))
          (unlockRecordWhile pid owner idx)
      else Some m)"

definition sqlite3rowlockIpcUnlockRecordProcCore :: "RowArea \<Rightarrow> PID \<Rightarrow> u64 \<Rightarrow> RowArea option" where
  "sqlite3rowlockIpcUnlockRecordProcCore m pid owner =
     (let nElem = xElemCount rowClass m in
      if nElem = 0 then Some m
      else Option.bind (searchEmptyLast rowClass m (nElem - 1)) (\<lambda>idxStart.
        ringSweep rowClass (unlockRecordWhile pid owner) idxStart idxStart m))"

section \<open>Invariant and meaning\<close>

definition row_wf :: "RowArea \<Rightarrow> bool" where
  "row_wf m \<longleftrightarrow> 0 < nElementR m \<and> nElementR m < 2 ^ 63 \<and> length (pDataR m) = nElementR m"

definition rowKey :: "RowElement \<Rightarrow> int \<times> i64" where
  "rowKey e = (iTableR e, rowidR e)"

definition rowHolder :: "RowElement \<Rightarrow> PID \<times> u64" where
  "rowHolder e = (pidR e, ownerR e)"

definition row_locks :: "RowArea \<Rightarrow> RowElement list" where
  "row_locks m = filter rowClassIsValid (pDataR m)"

definition row_abs :: "RowArea \<Rightarrow> int \<times> i64 \<rightharpoonup> PID \<times> u64" where
  "row_abs m = map_of (map (\<lambda>e. (rowKey e, rowHolder e)) (row_locks m))"

definition row_inv :: "RowArea \<Rightarrow> bool" where
  "row_inv m \<longleftrightarrow> row_wf m \<and> probe_ok rowClass m \<and>
     (\<forall>e\<in>set (row_locks m). hashR e = rowClassCalcHash m (rowKey e)) \<and>
     distinct (map rowKey (row_locks m)) \<and>
     countR m = length (row_locks m) \<and> countR m < nElementR m"

lemmas rowClass_defs = rowClassElemCount_def rowClassElemGet_def rowClassElemHash_def
  rowClassElemClear_def rowClassElemCopy_def rowClassIsValid_def rowClassElemIsTarget_def
  rowClassIndexPrev_def rowClassIndexNext_def

lemma rowClass_sel [simp]:
  "xElemCount rowClass = rowClassElemCount" "xElemIsValid rowClass = rowClassIsValid"
  "xElemIsTarget rowClass = rowClassElemIsTarget" "xElemGet rowClass = rowClassElemGet"
  "xElemHash rowClass = rowClassElemHash" "xElemClear rowClass = rowClassElemClear"
  "xElemCopy rowClass = rowClassElemCopy" "xIndexPrev rowClass = rowClassIndexPrev"
  "xIndexNext rowClass = rowClassIndexNext" "xCalcHash rowClass = rowClassCalcHash"
  "xIsInitialized rowClass = rowClassIsInitialized" "xInitArea rowClass = rowClassInitArea"
  "xMapName rowClass = rowClassMapName"
  by (simp_all add: rowClass_def)

interpretation row: ipc_area rowClass row_wf "\<lambda>e. e" "\<lambda>m. (nElementR m, countR m)"
proof (unfold_locales, simp_all)
  fix m i
  assume wf: "row_wf m" and i: "i < rowClassElemCount m"
  then have le: "i + nElementR m < 2 ^ 64" "1 \<le> i + nElementR m" "i + 1 < 2 ^ 64"
    by (simp_all add: row_wf_def rowClassElemCount_def)
  show "rowClassIndexNext m i = cnext (rowClassElemCount m) i"
    using le i by (simp add: rowClassIndexNext_def Let_def cnext_mod [symmetric])
  show "rowClassIndexPrev m i = cprev (rowClassElemCount m) i"
    using le i by (simp add: rowClassIndexPrev_def Let_def cprev_mod [symmetric] rowClassElemCount_def sub64_id)
qed (auto simp: rowClass_defs row_wf_def Let_def nth_list_update)

subsection \<open>The invariant\<close>

lemma row_elems: "row_wf m \<Longrightarrow> elems rowClass (\<lambda>e. e) m = mset (row_locks m)"
  unfolding row.elems_list row_locks_def row_wf_def rowClass_sel rowClassElemGet_def [abs_def]
    rowClassElemCount_def by (metis map_nth list.map_ident)

lemma row_locks_iff:
  "row_wf m \<Longrightarrow> e \<in> set (row_locks m) \<longleftrightarrow>
     (\<exists>i<nElementR m. rowClassIsValid (pDataR m ! i) \<and> e = pDataR m ! i)"
  by (auto simp: row_locks_def row_wf_def in_set_conv_nth)

lemma row_invD:
  assumes "row_inv m"
  shows "row_wf m" "probe_ok rowClass m" "distinct (map rowKey (row_locks m))"
    "countR m = length (row_locks m)" "countR m < nElementR m"
    "\<And>e. e \<in> set (row_locks m) \<Longrightarrow> hashR e = rowClassCalcHash m (rowKey e)"
    "0 < nElementR m" "nElementR m < 2 ^ 63" "length (pDataR m) = nElementR m"
  using assms by (simp_all add: row_inv_def row_wf_def)

lemma row_inv_empty:
  assumes "row_inv m"
  shows "has_empty rowClass m"
proof (rule ccontr)
  note I = row_invD [OF assms]
  assume "\<not> has_empty rowClass m"
  then have "\<forall>e\<in>set (pDataR m). rowClassIsValid e"
    using I(9) by (auto simp: has_empty_def rowClass_defs in_set_conv_nth)
  then have "row_locks m = pDataR m" by (simp add: row_locks_def)
  with I(4,5,9) show False by simp
qed

lemma row_abs_Some:
  assumes "row_inv m"
  shows "row_abs m k = Some v \<longleftrightarrow> (\<exists>e\<in>set (row_locks m). rowKey e = k \<and> rowHolder e = v)"
proof -
  have "distinct (map fst (map (\<lambda>e. (rowKey e, rowHolder e)) (row_locks m)))"
    using row_invD(3) [OF assms] by (simp add: comp_def)
  then show ?thesis unfolding row_abs_def by (auto simp: map_of_eq_Some_iff)
qed

lemma row_abs_None: "row_abs m k = None \<longleftrightarrow> (\<forall>e\<in>set (row_locks m). rowKey e \<noteq> k)"
  by (auto simp: row_abs_def map_of_eq_None_iff image_image)

lemma row_abs_card: "row_inv m \<Longrightarrow> card (dom (row_abs m)) = countR m"
proof -
  assume "row_inv m"
  note I = row_invD [OF this]
  have "dom (row_abs m) = set (map rowKey (row_locks m))"
    by (auto simp: row_abs_def dom_map_of_conv_image_fst image_image)
  with I(3,4) show ?thesis by (metis distinct_card length_map)
qed

lemma row_hash_less: "row_inv m \<Longrightarrow> rowClassCalcHash m k < nElementR m"
  using row_invD(7) by (auto simp: rowClassCalcHash_def rowlockIpcCalcHash_def split: prod.splits)

lemma row_target: "rowClassElemIsTarget e (zeroRow\<lparr>iTableR := t, rowidR := r\<rparr>) \<longleftrightarrow> rowKey e = (t, r)"
  by (simp add: rowClassElemIsTarget_def rowKey_def)

lemma row_hash: "rowClassElemHash m i = hashR (pDataR m ! i)"
  by (simp add: rowClass_defs)

text \<open>What the search for a record returns: its slot, or the free slot for it.\<close>

lemma row_search:
  assumes inv: "row_inv m"
  obtains (found) i where
      "rowlockIpcSearch rowClass m (zeroRow\<lparr>iTableR := t, rowidR := r\<rparr>) (rowClassCalcHash m (t, r)) = Some (Found i)"
      "i < nElementR m" "rowClassIsValid (pDataR m ! i)" "rowKey (pDataR m ! i) = (t, r)"
      "row_abs m (t, r) = Some (rowHolder (pDataR m ! i))"
  | (vacant) i where
      "rowlockIpcSearch rowClass m (zeroRow\<lparr>iTableR := t, rowidR := r\<rparr>) (rowClassCalcHash m (t, r)) = Some (Vacant i)"
      "i < nElementR m" "\<not> rowClassIsValid (pDataR m ! i)" "row_abs m (t, r) = None"
      "\<And>j. j < nElementR m \<Longrightarrow> cdist (nElementR m) (rowClassCalcHash m (t, r)) j <
         cdist (nElementR m) (rowClassCalcHash m (t, r)) i \<Longrightarrow> rowClassIsValid (pDataR m ! j)"
proof -
  note I = row_invD [OF inv]
  let ?t = "zeroRow\<lparr>iTableR := t, rowidR := r\<rparr>" and ?h = "rowClassCalcHash m (t, r)"
  have h: "?h < xElemCount rowClass m" using row_hash_less [OF inv] by (simp add: rowClass_defs)
  show thesis
  proof (cases rule: row.search_complete [OF I(1) row_inv_empty [OF inv] h, of ?t])
    case (1 i)
    then have i: "i < nElementR m" "rowClassIsValid (pDataR m ! i)" "rowKey (pDataR m ! i) = (t, r)"
      by (simp_all add: rowClassElemCount_def rowClassElemGet_def row_target)
    then have "row_abs m (t, r) = Some (rowHolder (pDataR m ! i))"
      using row_locks_iff [OF I(1)] by (subst row_abs_Some [OF inv]) blast
    with 1 i show thesis by (intro found)
  next
    case (2 i)
    have "rowKey e \<noteq> (t, r)" if e: "e \<in> set (row_locks m)" for e
    proof
      assume key: "rowKey e = (t, r)"
      obtain j where j: "j < nElementR m" "rowClassIsValid (pDataR m ! j)" "e = pDataR m ! j"
        using e row_locks_iff [OF I(1)] by blast
      have "hashR e = ?h" using I(6) [OF e] key by simp
      then show False using row.vacant_absent [OF I(2) 2(2,3,4), of ?h j] j key
        by (simp add: rowClassElemCount_def rowClassElemGet_def row_target row_hash)
    qed
    then have "row_abs m (t, r) = None" by (simp add: row_abs_None)
    moreover have "rowClassIsValid (pDataR m ! j)"
      if "j < nElementR m" "cdist (nElementR m) ?h j < cdist (nElementR m) ?h i" for j
      using 2(4) [of j] that by (simp add: rowClassElemCount_def rowClassElemGet_def)
    ultimately show thesis
      using 2(1-3) by (intro vacant) (simp_all add: rowClassElemCount_def rowClassElemGet_def)
  qed
qed

subsection \<open>Locking\<close>

lemma row_insert:
  assumes inv: "row_inv m" and t: "t \<noteq> 0" and i: "i < nElementR m" "\<not> rowClassIsValid (pDataR m ! i)"
    and free: "row_abs m (t, r) = None" and room: "Suc (countR m) < nElementR m"
    and path: "\<And>j. j < nElementR m \<Longrightarrow> cdist (nElementR m) (rowClassCalcHash m (t, r)) j <
         cdist (nElementR m) (rowClassCalcHash m (t, r)) i \<Longrightarrow> rowClassIsValid (pDataR m ! j)"
    and m': "m' = m\<lparr>pDataR := rowlockIpcRowValueSet (pDataR m) i (rowClassCalcHash m (t, r)) p t r ow,
                 countR := Suc (countR m)\<rparr>"
  shows "row_inv m'" "row_abs m' = (row_abs m)((t, r) \<mapsto> (p, ow))"
proof -
  note I = row_invD [OF inv]
  let ?e = "(pDataR m ! i)\<lparr>hashR := rowClassCalcHash m (t, r), pidR := p, iTableR := t, rowidR := r, ownerR := ow\<rparr>"
  have pd: "pDataR m' = (pDataR m)[i := ?e]" by (simp add: m' rowlockIpcRowValueSet_def)
  have n: "nElementR m' = nElementR m" by (simp add: m')
  have wf: "row_wf m'" using I(1) pd n by (simp add: row_wf_def)
  have e: "pDataR m' ! i = ?e" using i I(9) pd by simp
  have other: "pDataR m' ! j = pDataR m ! j" if "j \<noteq> i" for j using that pd by simp
  have ve: "rowClassIsValid ?e" using t by (simp add: rowClassIsValid_def)
  have probe: "probe_ok rowClass m'"
    by (rule row.insert_probe [OF I(2), of _ i])
      (use i ve path row_hash_less [OF inv] in
        \<open>simp_all add: rowClassElemCount_def n rowClassElemGet_def e other row_hash\<close>)
  have "elems rowClass (\<lambda>e. e) m' = elems rowClass (\<lambda>e. e) m + {#?e#}"
    using row.insert_elems [of m' m i] i ve
    by (simp add: rowClassElemCount_def n rowClassElemGet_def e other)
  then have ms: "mset (row_locks m') = mset (?e # row_locks m)"
    by (simp add: row_elems wf I(1))
  have key: "rowKey ?e = (t, r)" "rowHolder ?e = (p, ow)" by (simp_all add: rowKey_def rowHolder_def)
  have new: "(t, r) \<notin> rowKey ` set (row_locks m)" using free by (auto simp: row_abs_None)
  have dk: "distinct (map rowKey (row_locks m'))"
  proof -
    have "mset (map rowKey (row_locks m')) = mset (map rowKey (?e # row_locks m))"
      using ms by (simp add: mset_map)
    then show ?thesis using mset_eq_imp_distinct_iff I(3) new key by fastforce
  qed
  have hash: "rowClassCalcHash m' = rowClassCalcHash m"
    by (simp add: rowClassCalcHash_def n)
  have "hashR e' = rowClassCalcHash m' (rowKey e')" if "e' \<in> set (row_locks m')" for e'
    using that I(6) key mset_eq_setD [OF ms] unfolding hash by auto
  moreover have "length (row_locks m') = Suc (length (row_locks m))"
    using ms by (metis length_Cons size_mset)
  ultimately show "row_inv m'"
    using wf probe dk I(4) room by (simp add: row_inv_def n) (simp add: m')
  show "row_abs m' = (row_abs m)((t, r) \<mapsto> (p, ow))"
    using map_of_mset_Cons(1) [of "map (\<lambda>e. (rowKey e, rowHolder e)) (row_locks m')"
        "(rowKey ?e, rowHolder ?e)" "map (\<lambda>e. (rowKey e, rowHolder e)) (row_locks m)"] ms dk
    unfolding row_abs_def by (simp add: key mset_map comp_def)
qed

lemma row_lock_refines:
  assumes inv: "row_inv m" and t: "t \<noteq> 0"
  obtains m' where "sqlite3rowlockIpcLockRecord m p ow t r =
      Some (fst (spec_lock (nElementR m - 1) (row_abs m) (t, r) (p, ow)), m')"
    "row_abs m' = snd (spec_lock (nElementR m - 1) (row_abs m) (t, r) (p, ow))"
    "row_inv m'" "nElementR m' = nElementR m"
proof -
  note I = row_invD [OF inv]
  have cap: "sub64 (nElementR m) 1 = nElementR m - 1" using I(7,8) by (intro sub64_id) auto
  show thesis
  proof (cases rule: row_search [OF inv, where t = t and r = r])
    case (1 i)
    then show thesis
      by (intro that [of m])
        (simp_all add: sqlite3rowlockIpcLockRecord_def Let_def spec_lock_def rowHolder_def inv)
  next
    case (2 i)
    show thesis
    proof (cases "countR m < nElementR m - 1")
      case False
      with 2 cap show thesis
        by (intro that [of m])
          (simp_all add: sqlite3rowlockIpcLockRecord_def Let_def spec_lock_def row_abs_card inv)
    next
      case True
      let ?m = "m\<lparr>pDataR := rowlockIpcRowValueSet (pDataR m) i (rowClassCalcHash m (t, r)) p t r ow,
                 countR := Suc (countR m)\<rparr>"
      have "Suc (countR m) < nElementR m" using True by simp
      note ins = row_insert [OF inv t 2(2,3,4) this 2(5) refl]
      have "Suc (countR m) < 2 ^ 64" using True I(8) by simp
      with 2 cap True show thesis
        by (intro that [OF _ _ ins(1)])
          (simp_all add: sqlite3rowlockIpcLockRecord_def Let_def spec_lock_def row_abs_card inv ins(2))
    qed
  qed
qed

lemma row_query_refines:
  assumes inv: "row_inv m"
  shows "sqlite3rowlockIpcLockRecordQuery m p ow t r =
    Some (spec_query (row_abs m) (t, r) (p, ow))"
  by (cases rule: row_search [OF inv, where t = t and r = r])
    (simp_all add: sqlite3rowlockIpcLockRecordQuery_def Let_def spec_query_def rowHolder_def rowClassElemGet_def)

subsection \<open>Releasing\<close>

lemma row_count_upd [simp]:
  "rowClassElemGet (m\<lparr>countR := c\<rparr>) = rowClassElemGet m"
  "rowClassElemCount (m\<lparr>countR := c\<rparr>) = rowClassElemCount m"
  "rowClassElemHash (m\<lparr>countR := c\<rparr>) = rowClassElemHash m"
  "row_locks (m\<lparr>countR := c\<rparr>) = row_locks m"
  "row_wf (m\<lparr>countR := c\<rparr>) = row_wf m"
  "probe_ok rowClass (m\<lparr>countR := c\<rparr>) = probe_ok rowClass m"
  "row.swept P (m\<lparr>countR := c\<rparr>) = row.swept P m"
  by (auto simp: fun_eq_iff rowClass_defs row_locks_def row_wf_def probe_ok_def row.swept_def)

lemma row_removed:
  assumes inv: "row_inv m" and wf: "row_wf m'" and pr: "probe_ok rowClass m'"
    and n: "nElementR m' = nElementR m" and c: "countR m' = countR m"
    and ms: "mset (row_locks m) = mset (e # row_locks m')"
  shows "row_inv (m'\<lparr>countR := sub64 (countR m') 1\<rparr>)"
    "row_abs (m'\<lparr>countR := c'\<rparr>) = (row_abs m)(rowKey e := None)"
proof -
  note I = row_invD [OF inv]
  let ?kv = "\<lambda>e. (rowKey e, rowHolder e)"
  have d: "distinct (map fst (map ?kv (row_locks m)))" using I(3) by (simp add: comp_def)
  have eq: "mset (map ?kv (row_locks m)) = mset (?kv e # map ?kv (row_locks m'))"
    using ms by (simp add: mset_map)
  note MC = map_of_mset_Cons [OF eq d]
  show "row_abs (m'\<lparr>countR := c'\<rparr>) = (row_abs m)(rowKey e := None)"
    using MC(2) by (simp add: row_abs_def)
  have hash: "rowClassCalcHash (m'\<lparr>countR := c'\<rparr>) = rowClassCalcHash m" for c'
    by (simp add: rowClassCalcHash_def n)
  have len: "length (row_locks m) = Suc (length (row_locks m'))"
    using ms by (metis length_Cons size_mset)
  then have "sub64 (countR m') 1 = length (row_locks m')"
    using c I(4,5,8) by (subst sub64_id) auto
  moreover have "set (row_locks m') \<subseteq> set (row_locks m)" using mset_eq_setD [OF ms] by auto
  moreover have "distinct (map rowKey (row_locks m'))" using MC(3) by (simp add: comp_def)
  ultimately show "row_inv (m'\<lparr>countR := sub64 (countR m') 1\<rparr>)"
    unfolding row_inv_def hash using wf pr n len I(4,5,6) by (auto simp: subset_iff)
qed

lemma row_unlock_slot:
  assumes inv: "row_inv m" and i: "i < nElementR m" "rowClassIsValid (pDataR m ! i)"
    and key: "rowKey (pDataR m ! i) = (t, r)"
  obtains m' where "sqlite3rowlockIpcUnlockRecord m t r = Some m'" "row_inv m'"
    "row_abs m' = (row_abs m)((t, r) := None)" "nElementR m' = nElementR m"
    "mset (row_locks m) = mset (pDataR m ! i # row_locks m')"
    "\<And>b P. b < nElementR m \<Longrightarrow> \<not> rowClassIsValid (pDataR m ! b) \<Longrightarrow>
       \<not> rowClassIsValid (pDataR m' ! b) \<and> (row.swept P m b i \<longrightarrow> row.swept P m' b i)"
proof -
  note I = row_invD [OF inv] and em = row_inv_empty [OF inv]
  have ei: "pDataR m ! i \<in> set (row_locks m)" using i row_locks_iff [OF I(1)] by blast
  have h: "rowClassElemHash m i = rowClassCalcHash m (t, r)" using I(6) [OF ei] key by (simp add: row_hash)
  have i': "i < xElemCount rowClass m" "xElemIsValid rowClass (xElemGet rowClass m i)"
    using i by (simp_all add: rowClassElemCount_def rowClassElemGet_def)
  obtain s e z m' where r: "is_run rowClass m s e" "cdist (nElementR m) s i \<le> cdist (nElementR m) s e"
    and z: "searchEmptyNext rowClass m (rowClassCalcHash m (t, r)) (rowClassIndexNext m i) = Some z"
    and d: "rowlockIpcDelete rowClass m (rowClassCalcHash m (t, r)) i (rowClassIndexPrev m z) = Some m'"
    and del: "row.deleted m s e i m'"
    using row.delete_found [OF I(1,2) em i'] by (simp add: rowClassElemCount_def h) blast
  note X = row.deletedD [OF del]
  have wf: "row_wf m'" "probe_ok rowClass m'" "nElementR m' = nElementR m" "countR m' = countR m"
    using X by simp_all
  have ms: "mset (row_locks m) = mset (pDataR m ! i # row_locks m')"
    using X(5) row_elems [OF wf(1)] row_elems [OF I(1)] by (simp add: rowClassElemGet_def)
  have home: "rowClassIsValid (rowClassElemGet m (rowClassCalcHash m (t, r)))"
    using row.probe_okD(2) [OF I(2) i', of "rowClassCalcHash m (t, r)"] row_hash_less [OF inv]
    by (simp add: h rowClassElemCount_def)
  let ?m = "m'\<lparr>countR := sub64 (countR m') 1\<rparr>"
  have "sqlite3rowlockIpcUnlockRecord m t r = Some ?m"
  proof (cases rule: row_search [OF inv, where t = t and r = r])
    case (1 j)
    have "j = i"
      using filter_key_unique [OF I(3) [unfolded row_locks_def]] 1(2,3,4) i key I(9) by simp
    with 1 home z d show ?thesis by (simp add: sqlite3rowlockIpcUnlockRecord_def Let_def)
  next
    case (2 j)
    with ei key show ?thesis by (auto simp: row_abs_None)
  qed
  moreover have "\<not> rowClassIsValid (pDataR ?m ! b) \<and> (row.swept P m b i \<longrightarrow> row.swept P ?m b i)"
    if "b < nElementR m" "\<not> rowClassIsValid (pDataR m ! b)" for b P
    using row.deleted_outside [OF del r(1), of b] row.deleted_swept [OF del r(1), of b P i] that
    by (simp add: rowClassElemCount_def rowClassElemGet_def)
  ultimately show thesis
    using row_removed [OF inv wf ms] key ms wf(3) by (intro that [of ?m]) simp_all
qed

lemma row_unlock_refines:
  assumes inv: "row_inv m"
  obtains m' where "sqlite3rowlockIpcUnlockRecord m t r = Some m'" "row_inv m'"
    "row_abs m' = (row_abs m)((t, r) := None)" "nElementR m' = nElementR m"
proof (cases rule: row_search [OF inv, where t = t and r = r])
  case (1 i)
  show thesis by (rule row_unlock_slot [OF inv 1(2,3,4)]) (rule that)
next
  case (2 i)
  then show thesis
    by (intro that [of m])
      (simp_all add: sqlite3rowlockIpcUnlockRecord_def Let_def inv fun_upd_idem)
qed

subsection \<open>Releasing the locks of a process or an owner\<close>

text \<open>
  What both loops keep: the start slot \<open>b\<close> stays free, and the locks gone so far all match.
\<close>

definition sweeping :: "PID \<Rightarrow> u64 \<Rightarrow> u64 \<Rightarrow> RowArea \<Rightarrow> RowArea \<Rightarrow> bool" where
  "sweeping pid ow b m m' \<longleftrightarrow> row_inv m' \<and> nElementR m' = nElementR m \<and>
     \<not> rowClassIsValid (pDataR m' ! b) \<and>
     (\<exists>D. mset (row_locks m) = mset (row_locks m') + D \<and> (\<forall>e\<in>#D. rowMatches pid ow e))"

lemma sweepingD:
  assumes "sweeping pid ow b m m'"
  shows "row_inv m'" "nElementR m' = nElementR m" "\<not> rowClassIsValid (pDataR m' ! b)"
  using assms by (simp_all add: sweeping_def)

lemma sweeping_refl: "row_inv m \<Longrightarrow> \<not> rowClassIsValid (pDataR m ! b) \<Longrightarrow> sweeping pid ow b m m"
  by (auto simp: sweeping_def intro!: exI [of _ "{#}"])

lemma sweeping_trans:
  assumes "sweeping pid ow b m m'" "sweeping pid ow b m' m''"
  shows "sweeping pid ow b m m''"
proof -
  from assms obtain D D' where
    "mset (row_locks m) = mset (row_locks m') + D" "\<forall>e\<in>#D. rowMatches pid ow e"
    "mset (row_locks m') = mset (row_locks m'') + D'" "\<forall>e\<in>#D'. rowMatches pid ow e"
    unfolding sweeping_def by blast
  then have "mset (row_locks m) = mset (row_locks m'') + (D' + D)" "\<forall>e\<in>#D' + D. rowMatches pid ow e"
    by (auto simp: add.assoc)
  with assms show ?thesis unfolding sweeping_def by auto
qed

lemma unlockRecordWhile_ok:
  "row_inv m \<Longrightarrow> b < nElementR m \<Longrightarrow> \<not> rowClassIsValid (pDataR m ! b) \<Longrightarrow> i < nElementR m \<Longrightarrow>
   row.swept (rowMatches pid ow) m b i \<Longrightarrow>
   \<exists>m'. unlockRecordWhile pid ow i m = Some m' \<and> sweeping pid ow b m m' \<and>
     row.swept (rowMatches pid ow) m' b i \<and>
     \<not> (rowClassIsValid (pDataR m' ! i) \<and> rowMatches pid ow (pDataR m' ! i))"
proof (induction "length (row_locks m)" arbitrary: m rule: less_induct)
  case less
  show ?case
  proof (cases "rowClassIsValid (pDataR m ! i) \<and> rowMatches pid ow (pDataR m ! i)")
    case False
    then have "unlockRecordWhile pid ow i m = Some m"
      by (subst unlockRecordWhile.simps) (auto simp: rowClassElemGet_def)
    with False sweeping_refl less.prems show ?thesis by blast
  next
    case True
    let ?e = "pDataR m ! i"
    obtain m' where m': "sqlite3rowlockIpcUnlockRecord m (iTableR ?e) (rowidR ?e) = Some m'" "row_inv m'"
      "nElementR m' = nElementR m" "mset (row_locks m) = mset (?e # row_locks m')"
      "\<not> rowClassIsValid (pDataR m' ! b)" "row.swept (rowMatches pid ow) m' b i"
      by (rule row_unlock_slot [of m i "iTableR ?e" "rowidR ?e"])
        (use True less.prems in \<open>auto simp: rowKey_def\<close>)
    have "sweeping pid ow b m m'"
      unfolding sweeping_def using m' True by (auto intro!: exI [of _ "{#?e#}"])
    moreover have "length (row_locks m') < length (row_locks m)"
      using m'(4) by (metis length_Cons lessI size_mset)
    then obtain m'' where "unlockRecordWhile pid ow i m' = Some m''" "sweeping pid ow b m' m''"
      "row.swept (rowMatches pid ow) m'' b i"
      "\<not> (rowClassIsValid (pDataR m'' ! i) \<and> rowMatches pid ow (pDataR m'' ! i))"
      using less.hyps [of m'] less.prems m' by auto
    moreover have "unlockRecordWhile pid ow i m = unlockRecordWhile pid ow i m'"
      using True m'(1) by (subst unlockRecordWhile.simps) (simp add: rowClassElemGet_def)
    ultimately show ?thesis using sweeping_trans by metis
  qed
qed

lemma row_prev: "row_inv m \<Longrightarrow> i < nElementR m \<Longrightarrow> rowClassIndexPrev m i = cprev (nElementR m) i"
  using row.prev_eq [of m i] row_invD(1) [of m] by (simp add: rowClassElemCount_def)

lemma row_proc_core:
  assumes inv: "row_inv m"
  obtains m' where "sqlite3rowlockIpcUnlockRecordProcCore m pid ow = Some m'" "row_inv m'"
    "nElementR m' = nElementR m"
    "mset (row_locks m') = filter_mset (\<lambda>e. \<not> rowMatches pid ow e) (mset (row_locks m))"
proof -
  note I = row_invD [OF inv] and em = row_inv_empty [OF inv]
  obtain b where b: "b < nElementR m" "searchEmptyLast rowClass m (nElementR m - 1) = Some b"
    "\<not> rowClassIsValid (pDataR m ! b)"
    by (rule row.emptyLast_top [OF I(1) em]) (simp add: rowClassElemCount_def rowClassElemGet_def)
  have first: "unlockRecordWhile pid ow b m = Some m"
    using b(3) by (subst unlockRecordWhile.simps) (simp add: rowClassElemGet_def)
  have core: "sqlite3rowlockIpcUnlockRecordProcCore m pid ow =
      ringSweep rowClass (unlockRecordWhile pid ow) b b m"
    using b I(7) by (simp add: sqlite3rowlockIpcUnlockRecordProcCore_def Let_def rowClassElemCount_def)
  have "\<exists>m'. ringSweep rowClass (unlockRecordWhile pid ow) b b m = Some m' \<and> row_inv m' \<and>
      sweeping pid ow b m m' \<and> (\<forall>x\<in>#elems rowClass (\<lambda>e. e) m'. \<not> rowMatches pid ow x)"
  proof (rule row.ringSweep_clean [where I = row_inv and R = "sweeping pid ow b"])
    fix m i
    assume *: "row_inv m" "b < xElemCount rowClass m" "\<not> xElemIsValid rowClass (xElemGet rowClass m b)"
      "i < xElemCount rowClass m" "row.swept (rowMatches pid ow) m b i"
    show "\<exists>m'. unlockRecordWhile pid ow i m = Some m' \<and> row_inv m' \<and> sweeping pid ow b m m' \<and>
       xElemCount rowClass m' = xElemCount rowClass m \<and> \<not> xElemIsValid rowClass (xElemGet rowClass m' b) \<and>
       row.swept (rowMatches pid ow) m' b i \<and>
       \<not> (xElemIsValid rowClass (xElemGet rowClass m' i) \<and> rowMatches pid ow (xElemGet rowClass m' i))"
      using unlockRecordWhile_ok [of m b i pid ow] *
      by (auto simp: rowClassElemCount_def rowClassElemGet_def dest: sweepingD)
  qed (use b inv first row_invD(1) sweeping_trans sweeping_refl in \<open>auto simp: rowClassElemCount_def rowClassElemGet_def\<close>)
  then obtain m' where m': "ringSweep rowClass (unlockRecordWhile pid ow) b b m = Some m'"
    "sweeping pid ow b m m'" "\<forall>x\<in>#elems rowClass (\<lambda>e. e) m'. \<not> rowMatches pid ow x" by blast
  note S = sweepingD [OF m'(2)]
  from m'(2) obtain D where D: "mset (row_locks m) = mset (row_locks m') + D" "\<forall>e\<in>#D. rowMatches pid ow e"
    unfolding sweeping_def by blast
  have "\<not> rowMatches pid ow e" if "e \<in># mset (row_locks m')" for e
    using m'(3) row_elems [OF row_invD(1) [OF S(1)]] that by simp
  then have "filter_mset (\<lambda>e. \<not> rowMatches pid ow e) (mset (row_locks m')) = mset (row_locks m')"
    "filter_mset (\<lambda>e. \<not> rowMatches pid ow e) D = {#}"
    using D(2) by (auto simp: filter_mset_eq_conv)
  then have "filter_mset (\<lambda>e. \<not> rowMatches pid ow e) (mset (row_locks m)) = mset (row_locks m')"
    using D(1) by simp
  with m'(1) core S that show thesis by simp
qed

lemma row_proc_refines:
  assumes inv: "row_inv m"
  obtains m' where "sqlite3rowlockIpcUnlockRecordProcCore m pid ow = Some m'" "row_inv m'"
    "nElementR m' = nElementR m" "row_abs m' = spec_release pid ow (row_abs m)"
proof (rule row_proc_core [OF inv, of pid ow])
  fix m'
  assume m': "sqlite3rowlockIpcUnlockRecordProcCore m pid ow = Some m'" "row_inv m'"
    "nElementR m' = nElementR m"
    and ms: "mset (row_locks m') = filter_mset (\<lambda>e. \<not> rowMatches pid ow e) (mset (row_locks m))"
  have hm: "rowMatches pid ow e \<longleftrightarrow> holderMatches pid ow (rowHolder e)" for e
    by (simp add: rowMatches_def holderMatches_def rowHolder_def)
  have set: "set (row_locks m') = {e \<in> set (row_locks m). \<not> holderMatches pid ow (rowHolder e)}"
    using arg_cong [OF ms, of set_mset] by (simp add: hm)
  have "row_abs m' k = Some h \<longleftrightarrow> spec_release pid ow (row_abs m) k = Some h" for k h
    unfolding row_abs_Some [OF m'(2)] spec_release_Some row_abs_Some [OF inv] set by blast
  then have "row_abs m' = spec_release pid ow (row_abs m)"
    by (intro ext) (metis option.exhaust)
  with m' show thesis by (rule that)
qed

lemma row_init:
  assumes "104 \<le> sz" "sz < 2 ^ 63"
  shows "row_inv (rowClassInitArea m sz)" "row_abs (rowClassInitArea m sz) = Map.empty"
proof -
  let ?n = "(sz - 64) div 40"
  have a: "rowClassInitArea m sz = \<lparr>nElementR = ?n, countR = 0, pDataR = replicate ?n zeroRow\<rparr>"
    using assms by (simp add: rowClassInitArea_def Let_def sizeof_RowMetaData_def sizeof_RowElement_def sub64_id)
  have n: "0 < ?n" "?n < 2 ^ 63" using assms by (simp_all add: div_greater_zero_iff)
  have none: "row_locks (rowClassInitArea m sz) = []"
    by (simp add: a row_locks_def rowClassIsValid_def zeroRow_def)
  have "\<not> rowClassIsValid (pDataR (rowClassInitArea m sz) ! i)" if "i < ?n" for i
    using that by (simp add: a rowClassIsValid_def zeroRow_def)
  then have "probe_ok rowClass (rowClassInitArea m sz)"
    unfolding probe_ok_def by (simp add: rowClassElemCount_def rowClassElemGet_def a)
  with none n show "row_inv (rowClassInitArea m sz)"
    unfolding row_inv_def none by (simp add: row_wf_def a)
  show "row_abs (rowClassInitArea m sz) = Map.empty" by (simp add: row_abs_def none)
qed

section \<open>The contract\<close>

definition rowOps :: "(RowArea, int \<times> i64) lock_ops" where
  "rowOps =
     \<lparr>op_lock = (\<lambda>m (p, ow) (t, r). sqlite3rowlockIpcLockRecord m p ow t r),
      op_query = (\<lambda>m (p, ow) (t, r). sqlite3rowlockIpcLockRecordQuery m p ow t r),
      op_unlock = (\<lambda>m (t, r). sqlite3rowlockIpcUnlockRecord m t r),
      op_release = sqlite3rowlockIpcUnlockRecordProcCore\<rparr>"

interpretation row_table: record_locks rowOps row_inv row_abs "\<lambda>m. nElementR m - 1" "\<lambda>(t, r). t \<noteq> 0"
proof (unfold_locales, goal_cases)
  case (1 m k h)
  obtain t r p ow where kh: "k = (t, r)" "h = (p, ow)" by fastforce
  show ?case
    by (rule row_lock_refines [of m t p ow r]) (use 1 in \<open>auto simp: rowOps_def kh\<close>)
next
  case (2 m h k)
  then show ?case by (auto simp: rowOps_def row_query_refines split: prod.splits)
next
  case (3 m k)
  then show ?case by (cases k, rule row_unlock_refines [of m]) (auto simp: rowOps_def)
next
  case (4 m p ow)
  then show ?case by (rule row_proc_refines [of m p ow]) (auto simp: rowOps_def)
qed

section \<open>Properties\<close>

text \<open>A mapped file that was just created holds zero bytes.\<close>

definition freshRowArea :: RowArea where
  "freshRowArea = \<lparr>nElementR = 0, countR = 0, pDataR = []\<rparr>"

lemma row_demo:
  obtains m where "row_inv m" "nElementR m = 3" "row_abs m = [(5, 42) \<mapsto> (7, 1)]"
proof -
  let ?m = "rowClassInitArea freshRowArea 184"
  have i: "row_inv ?m" "row_abs ?m = Map.empty" by (simp_all add: row_init)
  have n: "nElementR ?m = 3"
    by (simp add: rowClassInitArea_def Let_def sizeof_RowMetaData_def sizeof_RowElement_def sub64_id)
  show thesis
    by (rule row_lock_refines [OF i(1), of 5 7 1 42]) (use that i n in \<open>auto simp: spec_lock_def\<close>)
qed

text \<open>
  C2. \<open>sqlite3rowlockIpcLockRecord\<close> implements the abstract lock operation on every
  branch: it always returns; a record locked by the caller gives \<open>SQLITE_DONE\<close>, one
  locked by another process or owner \<open>SQLITE_LOCKED\<close>, both without a change; a free record
  is locked with \<open>SQLITE_OK\<close> as long as one slot stays empty, and refused with
  \<open>SQLITE_NOMEM\<close> otherwise. The invariant of the hash area is kept.
\<close>

theorem LockRecord_refines:
  assumes "row_inv m" and "iTable \<noteq> 0"
  shows "\<exists>m'. sqlite3rowlockIpcLockRecord m pid owner iTable rowid =
      Some (fst (spec_lock (nElementR m - 1) (row_abs m) (iTable, rowid) (pid, owner)), m') \<and>
    row_inv m' \<and> nElementR m' = nElementR m \<and>
    row_abs m' = snd (spec_lock (nElementR m - 1) (row_abs m) (iTable, rowid) (pid, owner))"
  by (rule row_lock_refines [OF assms, of pid owner rowid]) blast

theorem LockRecord_refines_witness:
  "\<exists>m'. sqlite3rowlockIpcLockRecord (rowClassInitArea freshRowArea 184) 7 1 5 42 = Some (SQLITE_OK, m') \<and>
     row_abs m' = [(5, 42) \<mapsto> (7, 1)]"
proof -
  have n: "nElementR (rowClassInitArea freshRowArea 184) = 3"
    by (simp add: rowClassInitArea_def Let_def sizeof_RowMetaData_def sizeof_RowElement_def sub64_id)
  show ?thesis
    using LockRecord_refines [of "rowClassInitArea freshRowArea 184" 5 7 1 42] row_init [of 184 freshRowArea] n
    by (auto simp: spec_lock_def)
qed

text \<open>
  C19. \<open>sqlite3rowlockIpcLockRecordQuery\<close> returns \<open>SQLITE_LOCKED\<close> exactly when another
  holder has the lock, and \<open>SQLITE_OK\<close> when the record is free or the caller has it.
\<close>

theorem LockRecordQuery_correct:
  assumes "row_inv m"
  shows "sqlite3rowlockIpcLockRecordQuery m pid owner iTable rowid =
    Some (case row_abs m (iTable, rowid) of
            None \<Rightarrow> SQLITE_OK
          | Some h \<Rightarrow> if h = (pid, owner) then SQLITE_OK else SQLITE_LOCKED)"
  using row_query_refines [OF assms] by (simp add: spec_query_def)

theorem LockRecordQuery_correct_witness:
  "\<exists>m. row_inv m \<and> sqlite3rowlockIpcLockRecordQuery m 7 1 5 42 = Some SQLITE_OK \<and>
     sqlite3rowlockIpcLockRecordQuery m 8 1 5 42 = Some SQLITE_LOCKED"
proof (rule row_demo)
  fix m
  assume "row_inv m" "row_abs m = [(5, 42) \<mapsto> (7, 1)]"
  then show ?thesis
    using LockRecordQuery_correct [of m 7 1 5 42] LockRecordQuery_correct [of m 8 1 5 42] by auto
qed

text \<open>
  C3. \<open>sqlite3rowlockIpcUnlockRecord\<close> returns, keeps the invariant and removes the lock of
  exactly this record, whoever holds it: the deletion that closes the gap in the probe
  sequence loses no other lock and makes none unreachable.
\<close>

theorem UnlockRecord_refines:
  assumes "row_inv m"
  shows "\<exists>m'. sqlite3rowlockIpcUnlockRecord m iTable rowid = Some m' \<and> row_inv m' \<and>
    nElementR m' = nElementR m \<and> row_abs m' = (row_abs m)((iTable, rowid) := None)"
  by (rule row_unlock_refines [OF assms, of iTable rowid]) blast

theorem UnlockRecord_refines_witness:
  "\<exists>m m'. row_abs m (5, 42) = Some (7, 1) \<and> sqlite3rowlockIpcUnlockRecord m 5 42 = Some m' \<and>
     row_abs m' (5, 42) = None"
proof (rule row_demo)
  fix m
  assume m: "row_inv m" "row_abs m = [(5, 42) \<mapsto> (7, 1)]"
  from UnlockRecord_refines [OF m(1), of 5 42] m(2) show ?thesis by (metis fun_upd_same)
qed

text \<open>
  C18. \<open>sqlite3rowlockIpcUnlockRecordProcCore\<close> on an open handle ends and releases exactly
  the locks of the given process and owner, where 0 stands for any: every matching lock
  is gone after one sweep, although deletions move elements while the sweep runs, and every
  other lock is kept.
\<close>

theorem UnlockRecordProcCore_exact:
  assumes "row_inv m"
  shows "\<exists>m'. sqlite3rowlockIpcUnlockRecordProcCore m pid owner = Some m' \<and> row_inv m' \<and>
    (\<forall>k h. row_abs m' k = Some h \<longleftrightarrow>
       row_abs m k = Some h \<and> \<not> ((pid = 0 \<or> fst h = pid) \<and> (owner = 0 \<or> snd h = owner)))"
  by (rule row_proc_refines [OF assms, of pid owner])
    (auto simp: spec_release_Some holderMatches_def)

theorem UnlockRecordProcCore_exact_witness:
  "\<exists>m m'. row_abs m (5, 42) = Some (7, 1) \<and>
     sqlite3rowlockIpcUnlockRecordProcCore m 7 0 = Some m' \<and> row_abs m' (5, 42) = None"
proof (rule row_demo)
  fix m
  assume m: "row_inv m" "row_abs m = [(5, 42) \<mapsto> (7, 1)]"
  obtain m' where m': "sqlite3rowlockIpcUnlockRecordProcCore m 7 0 = Some m'"
    "\<forall>k h. row_abs m' k = Some h \<longleftrightarrow> row_abs m k = Some h \<and> \<not> (fst h = 7)"
    using UnlockRecordProcCore_exact [OF m(1), of 7 0] by auto
  then have "row_abs m' (5, 42) = None" using m(2) by (cases "row_abs m' (5, 42)") auto
  with m m' show ?thesis by (intro exI [of _ m] exI [of _ m']) simp
qed

text \<open>
  C17. Mutual exclusion of row locks over interleaved processes: from a state where \<open>h\<close>
  has the lock of a record, any sequence of calls of any processes returns, and as long
  as no call in it unlocks that record or releases the locks of \<open>h\<close>, each attempt of
  another holder to lock it returns \<open>SQLITE_LOCKED\<close>, each attempt of \<open>h\<close>
  returns \<open>SQLITE_DONE\<close>, and \<open>h\<close> still has the lock at the end.
\<close>

theorem row_lock_exclusion:
  assumes "row_inv m" and "calls_ok (\<lambda>(t, r). t \<noteq> 0) cs"
    and "row_abs m k = Some h" and "\<forall>c\<in>set cs. \<not> drops h k c"
  shows "\<exists>rcs m'. do_calls rowOps m cs = Some (rcs, m') \<and> row_abs m' k = Some h \<and>
    (\<forall>i<length cs. \<forall>h'. cs ! i = CLock h' k \<longrightarrow>
       rcs ! i = (if h' = h then SQLITE_DONE else SQLITE_LOCKED))"
  by (rule row_table.exclusion [OF assms])

theorem row_lock_exclusion_witness:
  "\<exists>m rcs m'. row_inv m \<and>
     do_calls rowOps m [CLock (8, 1) (5, 42), CRelease 8 0, CLock (7, 1) (5, 42)] = Some (rcs, m') \<and>
     rcs ! 0 = SQLITE_LOCKED \<and> rcs ! 2 = SQLITE_DONE"
proof (rule row_demo)
  fix m
  let ?cs = "[CLock (8, 1) (5, 42), CRelease 8 0, CLock (7, 1) (5, 42)] :: (int \<times> i64) call list"
  assume m: "row_inv m" "row_abs m = [(5, 42) \<mapsto> (7, 1)]"
  obtain rcs m' where "do_calls rowOps m ?cs = Some (rcs, m')"
    and X: "\<And>i h'. i < length ?cs \<Longrightarrow> ?cs ! i = CLock h' (5, 42) \<Longrightarrow>
       rcs ! i = (if h' = (7, 1) then SQLITE_DONE else SQLITE_LOCKED)"
    using row_lock_exclusion [OF m(1), of ?cs "(5, 42)" "(7, 1)"] m(2)
    by (auto simp: calls_ok_def holderMatches_def)
  with X [of 0 "(8, 1)"] X [of 2 "(7, 1)"] m(1) show ?thesis
    by (intro exI [of _ m] exI [of _ rcs] exI [of _ m']) simp
qed

end
