(* ===== verification/Ipc_Table.thy ===== *)
theory Ipc_Table
  imports Ipc_Area
begin

text \<open>
  Table locks in shared memory (first part of \<open>rowlock_ipc_table.c\<close>, with
  \<open>rowlock_ipc_table.h\<close>): the class \<open>tableClass\<close> of hash areas and the operations
  that lock, query and release tables. A lock is identified by table, process and
  owner, so one table can carry the locks of several holders; \<open>table_inv\<close> is the
  invariant and \<open>table_abs\<close> the map from (table, process, owner) to the lock level.

  The \<open>inUse\<close> flag of a slot is not part of that map: the deletion moves an element to
  another slot without its flag (the flag stays with the slot), so the class is
  interpreted on elements up to the flag.
\<close>

section \<open>The area\<close>

record TableElement =
  hashT :: u64
  iTableT :: int
  pidT :: PID
  ownerT :: u64
  eLockT :: u8
  inUseT :: u8

record CachedRowid =
  iTableC :: int
  rowidC :: i64

record TableArea =
  nElementT :: u64
  nLockT :: u64
  nCacheT :: u64
  pDataT :: "TableElement list"
  cachedT :: "CachedRowid list"

definition zeroTable :: TableElement where
  "zeroTable = \<lparr>hashT = 0, iTableT = 0, pidT = 0, ownerT = 0, eLockT = 0, inUseT = 0\<rparr>"

definition zeroCache :: CachedRowid where
  "zeroCache = \<lparr>iTableC = 0, rowidC = 0\<rparr>"

text \<open>Lock levels, modes and the root page of \<open>sqlite_master\<close>.\<close>

abbreviation "NOT_LOCKED \<equiv> (0::u8)"
abbreviation "READ_LOCK \<equiv> (1::u8)"
abbreviation "WRITE_LOCK \<equiv> (2::u8)"
abbreviation "WRITEEX_LOCK \<equiv> (3::u8)"
abbreviation "EXCLSV_LOCK \<equiv> (4::u8)"
abbreviation "SCHEMA_ROOT \<equiv> (1::int)"
abbreviation "MODE_LOCK_NORMAL \<equiv> (0::nat)"
abbreviation "MODE_LOCK_COMMIT \<equiv> (1::nat)"
abbreviation "MODE_LOCK_FORCE \<equiv> (2::nat)"
abbreviation "MODE_UNLOCK_TRANS \<equiv> (0::nat)"
abbreviation "MODE_UNLOCK_STMT \<equiv> (1::nat)"

text \<open>Sizes of the structures on 64-bit Linux, with the mutex in the meta data.\<close>

definition sizeof_TableMetaData :: u64 where "sizeof_TableMetaData = 72"
definition sizeof_TableElement :: u64 where "sizeof_TableElement = 32"
definition sizeof_CachedRowid :: u64 where "sizeof_CachedRowid = 16"

definition tableClassMapName :: "nat \<Rightarrow> string \<Rightarrow> string option" where
  "tableClassMapName bufSize name = rowlockStrCat bufSize name ''-tablelock''"

definition tableClassIsInitialized :: "TableArea \<Rightarrow> bool" where
  "tableClassIsInitialized m \<longleftrightarrow> nElementT m > 0"

definition tableClassInitArea :: "TableArea \<Rightarrow> u64 \<Rightarrow> TableArea" where
  "tableClassInitArea m allocSize =
     (let nElem = sub64 allocSize sizeof_TableMetaData div (sizeof_TableElement + sizeof_CachedRowid) in
      \<lparr>nElementT = nElem, nLockT = 0, nCacheT = 0,
       pDataT = replicate nElem zeroTable, cachedT = replicate nElem zeroCache\<rparr>)"

definition tableClassElemCount :: "TableArea \<Rightarrow> u64" where
  "tableClassElemCount m = nElementT m"

definition tableClassIsValid :: "TableElement \<Rightarrow> bool" where
  "tableClassIsValid e \<longleftrightarrow> iTableT e \<noteq> 0"

definition tableClassElemIsTarget :: "TableElement \<Rightarrow> TableElement \<Rightarrow> bool" where
  "tableClassElemIsTarget e1 e2 \<longleftrightarrow> iTableT e1 = iTableT e2 \<and>
     (ownerT e1 = 0 \<or> ownerT e2 = 0 \<or> ownerT e1 = ownerT e2) \<and>
     (pidT e1 = 0 \<or> pidT e2 = 0 \<or> pidT e1 = pidT e2)"

definition tableClassElemGet :: "TableArea \<Rightarrow> u64 \<Rightarrow> TableElement" where
  "tableClassElemGet m idx = pDataT m ! idx"

definition tableClassElemHash :: "TableArea \<Rightarrow> u64 \<Rightarrow> u64" where
  "tableClassElemHash m idx = hashT (tableClassElemGet m idx)"

definition tableClassElemClear :: "TableArea \<Rightarrow> u64 \<Rightarrow> TableArea" where
  "tableClassElemClear m idx =
     m\<lparr>pDataT := (pDataT m)[idx := (tableClassElemGet m idx)
         \<lparr>hashT := 0, iTableT := 0, pidT := 0, ownerT := 0, eLockT := 0\<rparr>]\<rparr>"

definition tableClassElemCopy :: "TableArea \<Rightarrow> u64 \<Rightarrow> u64 \<Rightarrow> TableArea" where
  "tableClassElemCopy m iDest iSrc =
     (let src = tableClassElemGet m iSrc in
      m\<lparr>pDataT := (pDataT m)[iDest := (tableClassElemGet m iDest)
         \<lparr>hashT := hashT src, iTableT := iTableT src, pidT := pidT src,
          ownerT := ownerT src, eLockT := eLockT src\<rparr>]\<rparr>)"

definition tableClassIndexPrev :: "TableArea \<Rightarrow> u64 \<Rightarrow> u64" where
  "tableClassIndexPrev m idx =
     (let nElem = tableClassElemCount m in sub64 (wrap64 (idx + nElem)) 1 mod nElem)"

definition tableClassIndexNext :: "TableArea \<Rightarrow> u64 \<Rightarrow> u64" where
  "tableClassIndexNext m idx = (let nElem = tableClassElemCount m in wrap64 (idx + 1) mod nElem)"

definition tableClassCalcHash :: "TableArea \<Rightarrow> int \<Rightarrow> u64" where
  "tableClassCalcHash m iTable = rowlockIpcCalcHash (nElementT m) (le_bytes 4 iTable)"

definition tableClass :: "(TableArea, TableElement, int) IpcClass" where
  "tableClass =
     \<lparr>xMapName = tableClassMapName, xIsInitialized = tableClassIsInitialized,
      xInitArea = tableClassInitArea, xElemCount = tableClassElemCount,
      xElemIsValid = tableClassIsValid, xElemIsTarget = tableClassElemIsTarget,
      xElemGet = tableClassElemGet, xElemHash = tableClassElemHash, xElemClear = tableClassElemClear,
      xElemCopy = tableClassElemCopy, xIndexPrev = tableClassIndexPrev,
      xIndexNext = tableClassIndexNext, xCalcHash = tableClassCalcHash\<rparr>"

section \<open>Operations\<close>

definition rowlockIpcTableValueSet ::
  "TableElement list \<Rightarrow> u64 \<Rightarrow> u64 \<Rightarrow> PID \<Rightarrow> int \<Rightarrow> u64 \<Rightarrow> u8 \<Rightarrow> TableElement list" where
  "rowlockIpcTableValueSet pElement idx hash pid iTable owner eLock =
     pElement[idx := (pElement ! idx)
       \<lparr>hashT := hash, pidT := pid, iTableT := iTable, ownerT := owner, eLockT := eLock, inUseT := 1\<rparr>]"

text \<open>
  The condition under which the lock \<open>e\<close> of another holder on the same table refuses a
  request for level \<open>eLock\<close> in the given mode.
\<close>

definition lockConflict :: "int \<Rightarrow> u8 \<Rightarrow> nat \<Rightarrow> TableElement \<Rightarrow> bool" where
  "lockConflict iTable eLock mode e \<longleftrightarrow>
     (if iTable = SCHEMA_ROOT
      then eLockT e = WRITE_LOCK \<or> (eLockT e = READ_LOCK \<and> eLock = WRITE_LOCK)
      else eLockT e = EXCLSV_LOCK \<or>
        (mode = MODE_LOCK_NORMAL \<and> eLockT e \<ge> WRITE_LOCK \<and> eLock \<ge> WRITEEX_LOCK) \<or>
        (mode = MODE_LOCK_NORMAL \<and> eLockT e \<ge> WRITEEX_LOCK \<and> eLock \<ge> WRITE_LOCK) \<or>
        (mode = MODE_LOCK_COMMIT \<and> inUseT e = 1))"

text \<open>
  How the loop of \<open>sqlite3rowlockIpcLockTable\<close> ends: at its own lock in
  \<open>MODE_LOCK_FORCE\<close>, at its own lock that is strong enough, at a conflict, after all
  slots, or at a free slot \<open>idx\<close> with the slot of its own lock if one was seen.
\<close>

datatype LockScan = ScanForce u64 | ScanHeld | ScanConflict | ScanFull | ScanEnd u64 "u64 option"

partial_function (option) lockTableLoop ::
  "TableArea \<Rightarrow> PID \<Rightarrow> u64 \<Rightarrow> int \<Rightarrow> u8 \<Rightarrow> nat \<Rightarrow> u64 \<Rightarrow> u64 \<Rightarrow> u64 option \<Rightarrow> LockScan option" where
  "lockTableLoop m pid owner iTable eLock mode hash idx found =
     (let pElem = xElemGet tableClass m idx; nxt = xIndexNext tableClass m idx;
          mine = (pidT pElem = pid \<and> ownerT pElem = owner)
      in if \<not> xElemIsValid tableClass pElem then Some (ScanEnd idx found)
         else if iTableT pElem = iTable \<and> mine \<and> mode = MODE_LOCK_FORCE then Some (ScanForce idx)
         else if iTableT pElem = iTable \<and> mine \<and> eLockT pElem \<ge> eLock then Some ScanHeld
         else if iTableT pElem = iTable \<and> \<not> mine \<and> lockConflict iTable eLock mode pElem then Some ScanConflict
         else if nxt = hash then Some ScanFull
         else lockTableLoop m pid owner iTable eLock mode hash nxt
                (if iTableT pElem = iTable \<and> mine then Some idx else found))"

text \<open>The result is the return code, the value written to \<open>*prevLock\<close> if any, and the area.\<close>

definition sqlite3rowlockIpcLockTable ::
  "TableArea \<Rightarrow> PID \<Rightarrow> u64 \<Rightarrow> int \<Rightarrow> u8 \<Rightarrow> nat \<Rightarrow> (rc \<times> u8 option \<times> TableArea) option" where
  "sqlite3rowlockIpcLockTable m pid owner iTable eLock mode =
     (let hash = xCalcHash tableClass m iTable in
      Option.bind (lockTableLoop m pid owner iTable eLock mode hash hash None) (\<lambda>r.
        case r of
          ScanForce idx \<Rightarrow>
            Some (SQLITE_OK, None, m\<lparr>pDataT := (pDataT m)[idx := (pDataT m ! idx)\<lparr>eLockT := eLock\<rparr>]\<rparr>)
        | ScanHeld \<Rightarrow> Some (SQLITE_OK, None, m)
        | ScanConflict \<Rightarrow> Some (SQLITE_LOCKED, None, m)
        | ScanFull \<Rightarrow> Some (SQLITE_NOMEM, None, m)
        | ScanEnd idx found \<Rightarrow>
            (let iidx = (case found of None \<Rightarrow> idx | Some i \<Rightarrow> i) in
             if nLockT m \<ge> sub64 (nElementT m) 1 then Some (SQLITE_NOMEM, None, m)
             else Some (SQLITE_OK, Some (eLockT (pDataT m ! iidx)),
               m\<lparr>pDataT := rowlockIpcTableValueSet (pDataT m) iidx hash pid iTable owner eLock,
                 nLockT := (if found = None then wrap64 (nLockT m + 1) else nLockT m)\<rparr>))))"

definition sqlite3rowlockIpcLockTableQuery :: "TableArea \<Rightarrow> u64 \<Rightarrow> int \<Rightarrow> u8 option" where
  "sqlite3rowlockIpcLockTableQuery m owner iTable =
     (let hash = xCalcHash tableClass m iTable;
          target = zeroTable\<lparr>iTableT := iTable, ownerT := owner\<rparr>
      in if \<not> xElemIsValid tableClass (xElemGet tableClass m hash) then Some NOT_LOCKED
         else Option.bind (rowlockIpcSearch tableClass m target hash) (\<lambda>r.
           case r of
             Found idx \<Rightarrow> Some (eLockT (xElemGet tableClass m idx))
           | Vacant idx \<Rightarrow> Some NOT_LOCKED
           | Full \<Rightarrow> Some NOT_LOCKED))"

definition sqlite3rowlockIpcUnlockTableCore ::
  "TableArea \<Rightarrow> PID \<Rightarrow> u64 \<Rightarrow> int \<Rightarrow> nat \<Rightarrow> TableArea option" where
  "sqlite3rowlockIpcUnlockTableCore m pid owner iTable mode =
     (let hash = xCalcHash tableClass m iTable;
          target = zeroTable\<lparr>iTableT := iTable, ownerT := owner, pidT := pid\<rparr>
      in if \<not> xElemIsValid tableClass (xElemGet tableClass m hash) then Some m
         else Option.bind (rowlockIpcSearch tableClass m target hash) (\<lambda>r.
           case r of
             Found idxDel \<Rightarrow>
               Option.bind (searchEmptyNext tableClass m hash (xIndexNext tableClass m idxDel)) (\<lambda>idxEmpty.
                 if mode = MODE_UNLOCK_TRANS \<or> eLockT (xElemGet tableClass m idxDel) = READ_LOCK then
                   Option.bind (rowlockIpcDelete tableClass m hash idxDel (xIndexPrev tableClass m idxEmpty))
                     (\<lambda>m'. Some (m'\<lparr>nLockT := sub64 (nLockT m') 1\<rparr>))
                 else
                   Some (m\<lparr>pDataT := (pDataT m)[idxDel := (pDataT m ! idxDel)\<lparr>inUseT := 0\<rparr>]\<rparr>))
           | Vacant idx \<Rightarrow> Some m
           | Full \<Rightarrow> Some m))"

definition sqlite3rowlockIpcUnlockTable :: "TableArea \<Rightarrow> PID \<Rightarrow> u64 \<Rightarrow> int \<Rightarrow> TableArea option" where
  "sqlite3rowlockIpcUnlockTable m pid owner iTable =
     sqlite3rowlockIpcUnlockTableCore m pid owner iTable MODE_UNLOCK_TRANS"

definition sqlite3rowlockIpcUnlockTableStmt :: "TableArea \<Rightarrow> PID \<Rightarrow> u64 \<Rightarrow> int \<Rightarrow> TableArea option" where
  "sqlite3rowlockIpcUnlockTableStmt m pid owner iTable =
     sqlite3rowlockIpcUnlockTableCore m pid owner iTable MODE_UNLOCK_STMT"

text \<open>
  \<open>sqlite3rowlockIpcUnlockTablesProcCore\<close> on an open handle. \<open>self\<close> is the process
  that runs it (\<open>rowlockGetPid\<close>, which \<open>sqlite3rowlockIpcUnlockTableCore\<close> calls),
  \<open>pid\<close> the argument.
\<close>

definition tableMatches :: "PID \<Rightarrow> u64 \<Rightarrow> TableElement \<Rightarrow> bool" where
  "tableMatches pid owner e \<longleftrightarrow> (pid = 0 \<or> pidT e = pid) \<and> (owner = 0 \<or> ownerT e = owner)"

partial_function (option) unlockTableWhile ::
  "PID \<Rightarrow> PID \<Rightarrow> u64 \<Rightarrow> nat \<Rightarrow> u64 \<Rightarrow> TableArea \<Rightarrow> TableArea option" where
  "unlockTableWhile self pid owner mode idx m =
     (if xElemIsValid tableClass (xElemGet tableClass m idx) \<and> tableMatches pid owner (pDataT m ! idx) then
        Option.bind (sqlite3rowlockIpcUnlockTableCore m self owner (iTableT (pDataT m ! idx)) mode) (\<lambda>m'.
          if mode = MODE_UNLOCK_STMT \<and> inUseT (pDataT m' ! idx) = 0 then Some m'
          else unlockTableWhile self pid owner mode idx m')
      else Some m)"

definition sqlite3rowlockIpcUnlockTablesProcCore ::
  "TableArea \<Rightarrow> PID \<Rightarrow> PID \<Rightarrow> u64 \<Rightarrow> nat \<Rightarrow> TableArea option" where
  "sqlite3rowlockIpcUnlockTablesProcCore m self pid owner mode =
     (let nElem = xElemCount tableClass m in
      if nElem = 0 then Some m
      else Option.bind (searchEmptyLast tableClass m (nElem - 1)) (\<lambda>idxStart.
        ringSweep tableClass (unlockTableWhile self pid owner mode) idxStart idxStart m))"

text \<open>Whether anyone has a table lock.\<close>

definition sqlite3rowlockIpcCheckTableLockExisted :: "TableArea \<Rightarrow> rc" where
  "sqlite3rowlockIpcCheckTableLockExisted m = (if nLockT m \<noteq> 0 then SQLITE_LOCKED else SQLITE_OK)"

section \<open>Invariant and meaning\<close>

definition table_wf :: "TableArea \<Rightarrow> bool" where
  "table_wf m \<longleftrightarrow> 0 < nElementT m \<and> nElementT m < 2 ^ 63 \<and> length (pDataT m) = nElementT m \<and>
     (\<forall>e\<in>set (pDataT m). \<not> tableClassIsValid e \<longrightarrow> eLockT e = 0)"

definition tableKey :: "TableElement \<Rightarrow> int \<times> PID \<times> u64" where
  "tableKey e = (iTableT e, pidT e, ownerT e)"

definition table_locks :: "TableArea \<Rightarrow> TableElement list" where
  "table_locks m = filter tableClassIsValid (pDataT m)"

text \<open>An element without its flag.\<close>

definition flagless :: "TableElement \<Rightarrow> TableElement" where
  "flagless e = e\<lparr>inUseT := 0\<rparr>"

definition table_abs :: "TableArea \<Rightarrow> int \<times> PID \<times> u64 \<rightharpoonup> u8" where
  "table_abs m = map_of (map (\<lambda>e. (tableKey e, eLockT e)) (table_locks m))"

definition table_inv :: "TableArea \<Rightarrow> bool" where
  "table_inv m \<longleftrightarrow> table_wf m \<and> probe_ok tableClass m \<and>
     (\<forall>e\<in>set (table_locks m). hashT e = tableClassCalcHash m (iTableT e) \<and> pidT e \<noteq> 0 \<and> ownerT e \<noteq> 0) \<and>
     distinct (map tableKey (table_locks m)) \<and>
     nLockT m = length (table_locks m) \<and> nLockT m < nElementT m"

lemmas tableClass_defs = tableClassElemCount_def tableClassElemGet_def tableClassElemHash_def
  tableClassElemClear_def tableClassElemCopy_def tableClassIsValid_def tableClassElemIsTarget_def
  tableClassIndexPrev_def tableClassIndexNext_def

lemma tableClass_sel [simp]:
  "xElemCount tableClass = tableClassElemCount" "xElemIsValid tableClass = tableClassIsValid"
  "xElemIsTarget tableClass = tableClassElemIsTarget" "xElemGet tableClass = tableClassElemGet"
  "xElemHash tableClass = tableClassElemHash" "xElemClear tableClass = tableClassElemClear"
  "xElemCopy tableClass = tableClassElemCopy" "xIndexPrev tableClass = tableClassIndexPrev"
  "xIndexNext tableClass = tableClassIndexNext" "xCalcHash tableClass = tableClassCalcHash"
  "xIsInitialized tableClass = tableClassIsInitialized" "xInitArea tableClass = tableClassInitArea"
  "xMapName tableClass = tableClassMapName"
  by (simp_all add: tableClass_def)

lemma flagless_eqD:
  assumes "flagless e = flagless e'"
  shows "hashT e = hashT e'" "iTableT e = iTableT e'" "pidT e = pidT e'" "ownerT e = ownerT e'"
    "eLockT e = eLockT e'"
  using assms by (cases e; cases e'; simp add: flagless_def)+

lemma table_wf_update:
  assumes "table_wf m" "\<not> tableClassIsValid e \<longrightarrow> eLockT e = 0"
  shows "table_wf (m\<lparr>pDataT := (pDataT m)[i := e]\<rparr>)"
  using assms by (auto simp: table_wf_def dest: set_update_subset_insert [THEN subsetD])

lemma table_flags_stay:
  "nElementT (tableClassElemClear m i) = nElementT m \<and> nLockT (tableClassElemClear m i) = nLockT m \<and> nCacheT (tableClassElemClear m i) = nCacheT m \<and>
    cachedT (tableClassElemClear m i) = cachedT m \<and> map inUseT (pDataT (tableClassElemClear m i)) = map inUseT (pDataT m)"
  "nElementT (tableClassElemCopy m i j) = nElementT m \<and> nLockT (tableClassElemCopy m i j) = nLockT m \<and> nCacheT (tableClassElemCopy m i j) = nCacheT m \<and>
    cachedT (tableClassElemCopy m i j) = cachedT m \<and> map inUseT (pDataT (tableClassElemCopy m i j)) = map inUseT (pDataT m)"
  by (cases "i < length (pDataT m)";
      simp add: tableClass_defs Let_def map_update list_update_same_conv not_less list_update_beyond)+

interpretation tab: ipc_area tableClass table_wf flagless
  "\<lambda>m. (nElementT m, nLockT m, nCacheT m, cachedT m, map inUseT (pDataT m))"
proof (unfold_locales, simp_all)
  fix m i
  assume wf: "table_wf m" and i: "i < tableClassElemCount m"
  then have le: "i + nElementT m < 2 ^ 64" "1 \<le> i + nElementT m" "i + 1 < 2 ^ 64"
    by (simp_all add: table_wf_def tableClassElemCount_def)
  show "tableClassIndexNext m i = cnext (tableClassElemCount m) i"
    using le i by (simp add: tableClassIndexNext_def Let_def cnext_mod [symmetric])
  show "tableClassIndexPrev m i = cprev (tableClassElemCount m) i"
    using le i
    by (simp add: tableClassIndexPrev_def Let_def cprev_mod [symmetric] tableClassElemCount_def sub64_id)
next
  fix m i
  assume "table_wf m"
  then show "table_wf (tableClassElemClear m i)"
    unfolding tableClassElemClear_def by (rule table_wf_update) simp
next
  fix m i j
  assume wf: "table_wf m" and j: "j < tableClassElemCount m"
  then have "\<not> tableClassIsValid (pDataT m ! j) \<longrightarrow> eLockT (pDataT m ! j) = 0"
    by (auto simp: table_wf_def tableClassElemCount_def)
  then show "table_wf (tableClassElemCopy m i j)"
    unfolding tableClassElemCopy_def Let_def
    by (intro table_wf_update [OF wf]) (simp add: tableClassIsValid_def tableClassElemGet_def)
next
  show "tableClassIsValid e = tableClassIsValid e'" if "flagless e = flagless e'" for e e'
    using flagless_eqD [OF that] by (simp add: tableClassIsValid_def)
  show "tableClassElemIsTarget e t = tableClassElemIsTarget e' t" if "flagless e = flagless e'" for e e' t
    using flagless_eqD [OF that] by (simp add: tableClassElemIsTarget_def)
  show "tableClassElemHash m i = tableClassElemHash m' j"
    if "flagless (tableClassElemGet m i) = flagless (tableClassElemGet m' j)" for m i m' j
    using flagless_eqD [OF that] by (simp add: tableClassElemHash_def)
next
  show "nElementT (tableClassElemClear m i) = nElementT m \<and> nLockT (tableClassElemClear m i) = nLockT m \<and> nCacheT (tableClassElemClear m i) = nCacheT m \<and>
    cachedT (tableClassElemClear m i) = cachedT m \<and> map inUseT (pDataT (tableClassElemClear m i)) = map inUseT (pDataT m)" for m i
    by (rule table_flags_stay)
  show "nElementT (tableClassElemCopy m i j) = nElementT m \<and> nLockT (tableClassElemCopy m i j) = nLockT m \<and> nCacheT (tableClassElemCopy m i j) = nCacheT m \<and>
    cachedT (tableClassElemCopy m i j) = cachedT m \<and> map inUseT (pDataT (tableClassElemCopy m i j)) = map inUseT (pDataT m)" for m i j
    by (rule table_flags_stay)
qed (auto simp: tableClass_defs table_wf_def Let_def nth_list_update flagless_def)

subsection \<open>The invariant\<close>

lemma flagless_sel [simp]:
  "tableKey (flagless e) = tableKey e" "eLockT (flagless e) = eLockT e" "hashT (flagless e) = hashT e"
  "iTableT (flagless e) = iTableT e" "pidT (flagless e) = pidT e" "ownerT (flagless e) = ownerT e"
  "tableClassIsValid (flagless e) = tableClassIsValid e" "tableMatches p ow (flagless e) = tableMatches p ow e"
  by (simp_all add: flagless_def tableKey_def tableClassIsValid_def tableMatches_def)

lemma table_elems: "table_wf m \<Longrightarrow> elems tableClass flagless m = mset (map flagless (table_locks m))"
  unfolding tab.elems_list table_locks_def table_wf_def tableClass_sel tableClassElemGet_def [abs_def]
    tableClassElemCount_def by (metis map_nth)

lemma table_locks_iff:
  "table_wf m \<Longrightarrow> e \<in> set (table_locks m) \<longleftrightarrow>
     (\<exists>i<nElementT m. tableClassIsValid (pDataT m ! i) \<and> e = pDataT m ! i)"
  by (auto simp: table_locks_def table_wf_def in_set_conv_nth)

lemma table_invD:
  assumes "table_inv m"
  shows "table_wf m" "probe_ok tableClass m" "distinct (map tableKey (table_locks m))"
    "nLockT m = length (table_locks m)" "nLockT m < nElementT m"
    "\<And>e. e \<in> set (table_locks m) \<Longrightarrow> hashT e = tableClassCalcHash m (iTableT e) \<and> pidT e \<noteq> 0 \<and> ownerT e \<noteq> 0"
    "0 < nElementT m" "nElementT m < 2 ^ 63" "length (pDataT m) = nElementT m"
    "\<And>i. i < nElementT m \<Longrightarrow> \<not> tableClassIsValid (pDataT m ! i) \<Longrightarrow> eLockT (pDataT m ! i) = 0"
  using assms by (auto simp: table_inv_def table_wf_def)

lemma table_inv_empty:
  assumes "table_inv m"
  shows "has_empty tableClass m"
proof (rule ccontr)
  note I = table_invD [OF assms]
  assume "\<not> has_empty tableClass m"
  then have "\<forall>e\<in>set (pDataT m). tableClassIsValid e"
    using I(9) by (auto simp: has_empty_def tableClass_defs in_set_conv_nth)
  then have "table_locks m = pDataT m" by (simp add: table_locks_def)
  with I(4,5,9) show False by simp
qed

lemma table_abs_Some:
  assumes "table_inv m"
  shows "table_abs m k = Some v \<longleftrightarrow> (\<exists>e\<in>set (table_locks m). tableKey e = k \<and> eLockT e = v)"
proof -
  have "distinct (map fst (map (\<lambda>e. (tableKey e, eLockT e)) (table_locks m)))"
    using table_invD(3) [OF assms] by (simp add: comp_def)
  then show ?thesis unfolding table_abs_def by (auto simp: map_of_eq_Some_iff)
qed

lemma table_abs_None: "table_abs m k = None \<longleftrightarrow> (\<forall>e\<in>set (table_locks m). tableKey e \<noteq> k)"
  by (auto simp: table_abs_def map_of_eq_None_iff image_image)

lemma table_slot_lock:
  "table_inv m \<Longrightarrow> i < nElementT m \<Longrightarrow> tableClassIsValid (pDataT m ! i) \<Longrightarrow> pDataT m ! i \<in> set (table_locks m)"
  using table_locks_iff table_invD(1) by blast

lemma table_hash_less: "table_inv m \<Longrightarrow> tableClassCalcHash m t < nElementT m"
  using table_invD(7) by (auto simp: tableClassCalcHash_def rowlockIpcCalcHash_def)

lemma table_slot_hash:
  "table_inv m \<Longrightarrow> i < nElementT m \<Longrightarrow> tableClassIsValid (pDataT m ! i) \<Longrightarrow>
   tableClassElemHash m i = tableClassCalcHash m (iTableT (pDataT m ! i))"
  using table_invD(6) table_slot_lock by (simp add: tableClassElemHash_def tableClassElemGet_def)

text \<open>A valid element makes its home slot, and every slot up to its own, valid.\<close>

lemma table_home_valid:
  assumes inv: "table_inv m" and i: "i < nElementT m" "tableClassIsValid (pDataT m ! i)"
  shows "tableClassIsValid (pDataT m ! tableClassCalcHash m (iTableT (pDataT m ! i)))"
proof -
  have i': "i < xElemCount tableClass m" "xElemIsValid tableClass (xElemGet tableClass m i)"
    using i by (simp_all add: tableClassElemCount_def tableClassElemGet_def)
  show ?thesis
    using tab.probe_okD(2) [OF table_invD(2) [OF inv] i', of "tableClassCalcHash m (iTableT (pDataT m ! i))"]
      table_hash_less [OF inv] table_slot_hash [OF inv i]
    by (simp add: tableClassElemCount_def tableClassElemGet_def)
qed

lemma table_search:
  assumes inv: "table_inv m" and t: "iTableT tg = t"
  obtains (found) i where "rowlockIpcSearch tableClass m tg (tableClassCalcHash m t) = Some (Found i)"
      "i < nElementT m" "tableClassIsValid (pDataT m ! i)" "tableClassElemIsTarget (pDataT m ! i) tg"
      "tableClassIsValid (pDataT m ! tableClassCalcHash m t)"
  | (vacant) i where "rowlockIpcSearch tableClass m tg (tableClassCalcHash m t) = Some (Vacant i)"
      "\<And>e. e \<in> set (table_locks m) \<Longrightarrow> \<not> tableClassElemIsTarget e tg"
proof -
  note I = table_invD [OF inv]
  let ?h = "tableClassCalcHash m t"
  have h: "?h < xElemCount tableClass m" using table_hash_less [OF inv] by (simp add: tableClassElemCount_def)
  show thesis
  proof (cases rule: tab.search_complete [OF I(1) table_inv_empty [OF inv] h, of tg])
    case (1 i)
    then have i: "i < nElementT m" "tableClassIsValid (pDataT m ! i)" "tableClassElemIsTarget (pDataT m ! i) tg"
      by (simp_all add: tableClassElemCount_def tableClassElemGet_def)
    moreover have "iTableT (pDataT m ! i) = t" using i t by (simp add: tableClassElemIsTarget_def)
    ultimately show thesis using table_home_valid [OF inv i(1,2)] 1(1) by (intro found) auto
  next
    case (2 i)
    have "\<not> tableClassElemIsTarget e tg" if e: "e \<in> set (table_locks m)" for e
    proof
      assume tg: "tableClassElemIsTarget e tg"
      obtain j where j: "j < nElementT m" "tableClassIsValid (pDataT m ! j)" "e = pDataT m ! j"
        using e table_locks_iff [OF I(1)] by blast
      have "iTableT e = t" using tg t by (simp add: tableClassElemIsTarget_def)
      then have "tableClassElemHash m j = ?h" using table_slot_hash [OF inv j(1,2)] j(3) by simp
      then show False using tab.vacant_absent [OF I(2) 2(2,3,4), of ?h j] j tg
        by (simp add: tableClassElemCount_def tableClassElemGet_def)
    qed
    with 2(1) show thesis by (rule vacant)
  qed
qed

subsection \<open>Deleting a lock\<close>

lemma table_upd [simp]:
  "tableClassElemGet (m\<lparr>nLockT := c\<rparr>) = tableClassElemGet m"
  "tableClassElemCount (m\<lparr>nLockT := c\<rparr>) = tableClassElemCount m"
  "tableClassElemHash (m\<lparr>nLockT := c\<rparr>) = tableClassElemHash m"
  "table_locks (m\<lparr>nLockT := c\<rparr>) = table_locks m"
  "table_wf (m\<lparr>nLockT := c\<rparr>) = table_wf m"
  "probe_ok tableClass (m\<lparr>nLockT := c\<rparr>) = probe_ok tableClass m"
  "tab.swept P (m\<lparr>nLockT := c\<rparr>) = tab.swept P m"
  by (auto simp: fun_eq_iff tableClass_defs table_locks_def table_wf_def probe_ok_def tab.swept_def)

lemma table_abs_flagless: "table_abs m = map_of (map (\<lambda>e. (tableKey e, eLockT e)) (map flagless (table_locks m)))"
  by (simp add: table_abs_def comp_def)

lemma table_removed:
  assumes inv: "table_inv m" and wf: "table_wf m'" and pr: "probe_ok tableClass m'"
    and n: "nElementT m' = nElementT m" and c: "nLockT m' = nLockT m"
    and ms: "mset (map flagless (table_locks m)) = mset (flagless e # map flagless (table_locks m'))"
  shows "table_inv (m'\<lparr>nLockT := sub64 (nLockT m') 1\<rparr>)"
    "table_abs (m'\<lparr>nLockT := c'\<rparr>) = (table_abs m)(tableKey e := None)"
proof -
  note I = table_invD [OF inv]
  let ?kv = "\<lambda>e. (tableKey e, eLockT e)"
  have d: "distinct (map fst (map ?kv (map flagless (table_locks m))))" using I(3) by (simp add: comp_def)
  have eq: "mset (map ?kv (map flagless (table_locks m))) =
      mset (?kv (flagless e) # map ?kv (map flagless (table_locks m')))"
    using arg_cong [OF ms, of "image_mset ?kv"] by (simp only: mset_map [symmetric] list.map)
  note MC = map_of_mset_Cons [OF eq d]
  show "table_abs (m'\<lparr>nLockT := c'\<rparr>) = (table_abs m)(tableKey e := None)"
    using MC(2) by (simp add: table_abs_flagless)
  have hash: "tableClassCalcHash (m'\<lparr>nLockT := c'\<rparr>) = tableClassCalcHash m" for c'
    by (simp add: fun_eq_iff tableClassCalcHash_def n)
  have len: "length (table_locks m) = Suc (length (table_locks m'))"
    using arg_cong [OF ms, of size] by simp
  then have cnt: "sub64 (nLockT m') 1 = length (table_locks m')"
    using c I(4,5,8) by (subst sub64_id) auto
  have "hashT e' = tableClassCalcHash m (iTableT e') \<and> pidT e' \<noteq> 0 \<and> ownerT e' \<noteq> 0"
    if "e' \<in> set (table_locks m')" for e'
  proof -
    have "flagless e' \<in> set (map flagless (table_locks m))" using that mset_eq_setD [OF ms] by auto
    then obtain e'' where "e'' \<in> set (table_locks m)" "flagless e' = flagless e''" by auto
    with I(6) [of e''] flagless_eqD [of e' e''] show ?thesis by simp
  qed
  moreover have "distinct (map tableKey (table_locks m'))" using MC(3) by (simp add: comp_def)
  ultimately show "table_inv (m'\<lparr>nLockT := sub64 (nLockT m') 1\<rparr>)"
    unfolding table_inv_def hash using wf pr n len cnt I(4,5) by simp
qed

lemma table_delete_slot:
  assumes inv: "table_inv m" and i: "i < nElementT m" "tableClassIsValid (pDataT m ! i)"
    and h: "h = tableClassCalcHash m (iTableT (pDataT m ! i))"
  obtains z m' where "searchEmptyNext tableClass m h (tableClassIndexNext m i) = Some z"
    "rowlockIpcDelete tableClass m h i (tableClassIndexPrev m z) = Some m'"
    "table_inv (m'\<lparr>nLockT := sub64 (nLockT m') 1\<rparr>)"
    "table_abs (m'\<lparr>nLockT := sub64 (nLockT m') 1\<rparr>) = (table_abs m)(tableKey (pDataT m ! i) := None)"
    "nElementT m' = nElementT m" "nCacheT m' = nCacheT m" "cachedT m' = cachedT m"
    "mset (map flagless (table_locks m)) = mset (flagless (pDataT m ! i) # map flagless (table_locks m'))"
    "\<And>b P j. b < nElementT m \<Longrightarrow> \<not> tableClassIsValid (pDataT m ! b) \<Longrightarrow>
       \<not> tableClassIsValid (pDataT m' ! b) \<and> (tab.swept P m b j \<longrightarrow> tab.swept P m' b j)"
    "\<And>b P. b < nElementT m \<Longrightarrow> \<not> tableClassIsValid (pDataT m ! b) \<Longrightarrow> tab.swept P m b i \<Longrightarrow>
       tableClassIsValid (pDataT m' ! i) \<Longrightarrow> \<not> P (flagless (pDataT m' ! i))"
proof -
  note I = table_invD [OF inv] and em = table_inv_empty [OF inv]
  have hs: "tableClassElemHash m i = h" using table_slot_hash [OF inv i] h by simp
  have i': "i < xElemCount tableClass m" "xElemIsValid tableClass (xElemGet tableClass m i)"
    using i by (simp_all add: tableClassElemCount_def tableClassElemGet_def)
  obtain s e z m' where r: "is_run tableClass m s e" "cdist (nElementT m) s i \<le> cdist (nElementT m) s e"
    and z: "searchEmptyNext tableClass m h (tableClassIndexNext m i) = Some z"
    and d: "rowlockIpcDelete tableClass m h i (tableClassIndexPrev m z) = Some m'"
    and del: "tab.deleted m s e i m'"
    by (rule tab.delete_found [OF I(1,2) em i']) (simp add: hs tableClassElemCount_def)
  note X = tab.deletedD [OF del]
  have wf: "table_wf m'" "probe_ok tableClass m'" "nElementT m' = nElementT m" "nLockT m' = nLockT m"
    "nCacheT m' = nCacheT m" "cachedT m' = cachedT m"
    using X by simp_all
  have ms: "mset (map flagless (table_locks m)) = mset (flagless (pDataT m ! i) # map flagless (table_locks m'))"
    using X(5) table_elems [OF wf(1)] table_elems [OF I(1)] by (simp add: tableClassElemGet_def)
  have "\<not> tableClassIsValid (pDataT m' ! b) \<and> (tab.swept P m b j \<longrightarrow> tab.swept P m' b j)"
    if "b < nElementT m" "\<not> tableClassIsValid (pDataT m ! b)" for b P j
    using tab.deleted_outside [OF del r(1), of b] tab.deleted_swept [OF del r(1), of b P j] that
    by (simp add: tableClassElemCount_def tableClassElemGet_def)
  moreover have "\<not> P (flagless (pDataT m' ! i))"
    if b: "b < nElementT m" "\<not> tableClassIsValid (pDataT m ! b)" "tab.swept P m b i"
      and v: "tableClassIsValid (pDataT m' ! i)" for b P
  proof -
    have "pDataT m' ! i \<in> set (table_locks m')"
      using v i(1) wf(3) table_locks_iff [OF wf(1)] by auto
    moreover have "tableKey (pDataT m ! i) \<notin> tableKey ` set (table_locks m')"
    proof -
      have "mset (map tableKey (table_locks m)) = mset (tableKey (pDataT m ! i) # map tableKey (table_locks m'))"
        using arg_cong [OF ms, of "image_mset tableKey"] by (simp add: image_mset.compositionality comp_def)
      then have "distinct (tableKey (pDataT m ! i) # map tableKey (table_locks m'))"
        using I(3) mset_eq_imp_distinct_iff by blast
      then show ?thesis by simp
    qed
    ultimately have "flagless (pDataT m' ! i) \<noteq> flagless (pDataT m ! i)"
      by (metis flagless_sel(1) imageI)
    then show ?thesis
      using tab.deleted_slot [OF del r(1) i'(1), of b P] r(2) b v
      by (simp add: tableClassElemCount_def tableClassElemGet_def)
  qed
  ultimately show thesis using z d table_removed [OF inv wf(1-4) ms] wf ms by (intro that [of z m'])
qed

subsection \<open>Locking a table\<close>

text \<open>What the loop of \<open>sqlite3rowlockIpcLockTable\<close> knows of an element it has passed, and of its result.\<close>

definition scanPassed :: "TableArea \<Rightarrow> PID \<Rightarrow> u64 \<Rightarrow> int \<Rightarrow> u8 \<Rightarrow> nat \<Rightarrow> u64 option \<Rightarrow> u64 \<Rightarrow> bool" where
  "scanPassed m p ow t l mode f j \<longleftrightarrow> tableClassIsValid (pDataT m ! j) \<and>
     (iTableT (pDataT m ! j) = t \<longrightarrow>
        (if pidT (pDataT m ! j) = p \<and> ownerT (pDataT m ! j) = ow
         then f \<noteq> None \<and> mode \<noteq> MODE_LOCK_FORCE \<and> eLockT (pDataT m ! j) < l
         else \<not> lockConflict t l mode (pDataT m ! j)))"

definition ownSlot :: "TableArea \<Rightarrow> PID \<Rightarrow> u64 \<Rightarrow> int \<Rightarrow> u64 \<Rightarrow> bool" where
  "ownSlot m p ow t i \<longleftrightarrow> i < nElementT m \<and> tableClassIsValid (pDataT m ! i) \<and> tableKey (pDataT m ! i) = (t, p, ow)"

fun scanResult :: "TableArea \<Rightarrow> PID \<Rightarrow> u64 \<Rightarrow> int \<Rightarrow> u8 \<Rightarrow> nat \<Rightarrow> u64 \<Rightarrow> LockScan \<Rightarrow> bool" where
  "scanResult m p ow t l mode h (ScanForce i) \<longleftrightarrow> mode = MODE_LOCK_FORCE \<and> ownSlot m p ow t i"
| "scanResult m p ow t l mode h ScanHeld \<longleftrightarrow> mode \<noteq> MODE_LOCK_FORCE \<and>
     (\<exists>i. ownSlot m p ow t i \<and> l \<le> eLockT (pDataT m ! i))"
| "scanResult m p ow t l mode h ScanConflict \<longleftrightarrow>
     (\<exists>e\<in>set (table_locks m). iTableT e = t \<and> \<not> (pidT e = p \<and> ownerT e = ow) \<and> lockConflict t l mode e)"
| "scanResult m p ow t l mode h ScanFull \<longleftrightarrow> False"
| "scanResult m p ow t l mode h (ScanEnd z f) \<longleftrightarrow> z < nElementT m \<and> \<not> tableClassIsValid (pDataT m ! z) \<and>
     (\<forall>j<nElementT m. cdist (nElementT m) h j < cdist (nElementT m) h z \<longrightarrow> scanPassed m p ow t l mode f j) \<and>
     (\<forall>i. f = Some i \<longrightarrow> ownSlot m p ow t i)"

lemma scanPassed_found: "scanPassed m p ow t l mode f j \<Longrightarrow> scanPassed m p ow t l mode (Some i) j"
  by (auto simp: scanPassed_def)

lemma table_next: "table_inv m \<Longrightarrow> i < nElementT m \<Longrightarrow> tableClassIndexNext m i = cnext (nElementT m) i"
  using tab.next_eq [of m i] table_invD(1) [of m] by (simp add: tableClassElemCount_def)

lemma lockTableLoop_ok:
  assumes inv: "table_inv m" and h: "h < nElementT m"
  shows "idx < nElementT m \<Longrightarrow>
    (\<And>j. j < nElementT m \<Longrightarrow> cdist (nElementT m) h j < cdist (nElementT m) h idx \<Longrightarrow> scanPassed m p ow t l mode f j) \<Longrightarrow>
    (\<And>i. f = Some i \<Longrightarrow> ownSlot m p ow t i) \<Longrightarrow>
    \<exists>r. lockTableLoop m p ow t l mode h idx f = Some r \<and> scanResult m p ow t l mode h r"
proof (induction "nElementT m - cdist (nElementT m) h idx" arbitrary: idx f rule: less_induct)
  case less
  let ?n = "nElementT m" and ?e = "pDataT m ! idx"
  let ?mine = "pidT ?e = p \<and> ownerT ?e = ow" and ?k = "cnext (nElementT m) idx"
  let ?f = "if iTableT ?e = t \<and> ?mine then Some idx else f"
  note unfold = lockTableLoop.simps [of m p ow t l mode h idx f]
  have get: "tableClassElemGet m idx = ?e" by (simp add: tableClassElemGet_def)
  show ?case
  proof (cases "tableClassIsValid ?e")
    case False
    then have "lockTableLoop m p ow t l mode h idx f = Some (ScanEnd idx f)"
      by (subst unfold) (simp add: get)
    with False less.prems show ?thesis by simp
  next
    case val: True
    have lock: "?e \<in> set (table_locks m)" by (rule table_slot_lock [OF inv less.prems(1) val])
    have own: "ownSlot m p ow t idx" if "iTableT ?e = t" ?mine
      using that val less.prems(1) by (simp add: ownSlot_def tableKey_def)
    show ?thesis
    proof (cases "scanPassed m p ow t l mode ?f idx")
      case False
      then consider (force) "iTableT ?e = t" ?mine "mode = MODE_LOCK_FORCE"
        | (held) "iTableT ?e = t" ?mine "mode \<noteq> MODE_LOCK_FORCE" "l \<le> eLockT ?e"
        | (conflict) "iTableT ?e = t" "\<not> ?mine" "lockConflict t l mode ?e"
        using val by (cases "mode = MODE_LOCK_FORCE") (auto simp: scanPassed_def not_less split: if_splits)
      then show ?thesis
      proof cases
        case force
        then have "lockTableLoop m p ow t l mode h idx f = Some (ScanForce idx)"
          using val by (subst unfold) (simp add: get)
        with own force show ?thesis by simp
      next
        case held
        then have "lockTableLoop m p ow t l mode h idx f = Some ScanHeld"
          using val by (subst unfold) (simp add: get)
        with own held show ?thesis by auto
      next
        case conflict
        then have "lockTableLoop m p ow t l mode h idx f = Some ScanConflict"
          using val by (subst unfold) (auto simp: get)
        with lock conflict show ?thesis by auto
      qed
    next
      case True
      have passed: "scanPassed m p ow t l mode ?f j"
        if "j < ?n" "cdist ?n h j \<le> cdist ?n h idx" for j
      proof (cases "j = idx")
        case False
        then have "cdist ?n h j \<noteq> cdist ?n h idx" using that(1) less.prems(1) h by (simp add: cdist_inj)
        with that less.prems(2) have "scanPassed m p ow t l mode f j" by simp
        then show ?thesis by (cases "?f = f") (auto dest: scanPassed_found)
      qed (use True in simp)
      have ne: "?k \<noteq> h"
      proof
        assume "?k = h"
        then have "idx = cprev ?n h" using less.prems(1) by auto
        then have "cdist ?n h idx = ?n - 1" using h by (simp add: cdist_cprev_last)
        moreover have "cdist ?n h j < ?n" if "j < ?n" for j using h that by (rule cdist_less)
        ultimately have "scanPassed m p ow t l mode ?f j" if "j < ?n" for j
          using passed [OF that] that by (simp add: less_eq_nat.simps Suc_leI less_Suc_eq_le [symmetric])
        then have "\<not> has_empty tableClass m"
          by (auto simp: has_empty_def scanPassed_def tableClassElemCount_def tableClassElemGet_def)
        with table_inv_empty [OF inv] show False by simp
      qed
      have k: "?k < ?n" "cdist ?n h ?k = Suc (cdist ?n h idx)"
        using ne h less.prems(1) by (auto simp: cdist_cnext_Suc)
      have lt: "?n - cdist ?n h ?k < ?n - cdist ?n h idx"
        using k cdist_less [OF h less.prems(1)] by simp
      have "lockTableLoop m p ow t l mode h idx f = lockTableLoop m p ow t l mode h ?k ?f"
        using True val ne by (subst unfold) (auto simp: get scanPassed_def Let_def table_next [OF inv less.prems(1)])
      moreover have "\<exists>r. lockTableLoop m p ow t l mode h ?k ?f = Some r \<and> scanResult m p ow t l mode h r"
      proof (rule less.hyps [OF lt k(1)])
        show "scanPassed m p ow t l mode ?f j" if "j < ?n" "cdist ?n h j < cdist ?n h ?k" for j
          using that k passed by simp
        show "ownSlot m p ow t i" if "?f = Some i" for i
          using that own less.prems(3) by (auto split: if_splits)
      qed
      ultimately show ?thesis by simp
    qed
  qed
qed

lemma table_rewrite:
  assumes inv: "table_inv m" and i: "i < nElementT m" "tableClassIsValid (pDataT m ! i)"
    and e: "tableKey e = tableKey (pDataT m ! i)" "hashT e = hashT (pDataT m ! i)"
  shows "table_inv (m\<lparr>pDataT := (pDataT m)[i := e]\<rparr>)"
    "table_abs (m\<lparr>pDataT := (pDataT m)[i := e]\<rparr>) = (table_abs m)(tableKey e \<mapsto> eLockT e)"
proof -
  note I = table_invD [OF inv]
  let ?m = "m\<lparr>pDataT := (pDataT m)[i := e]\<rparr>" and ?o = "pDataT m ! i"
  have key: "iTableT e = iTableT ?o" "pidT e = pidT ?o" "ownerT e = ownerT ?o"
    using e(1) by (simp_all add: tableKey_def)
  have ve: "tableClassIsValid e" using i(2) key by (simp add: tableClassIsValid_def)
  obtain A B where A: "table_locks m = A @ ?o # B" and A': "table_locks ?m = A @ e # B"
    unfolding table_locks_def
    by (rule filter_list_update [of i "pDataT m" tableClassIsValid e]) (use i ve I(9) in auto)
  have keys: "map tableKey (table_locks ?m) = map tableKey (table_locks m)" by (simp add: A A' e(1))
  have wf: "table_wf ?m" using table_wf_update [OF I(1)] ve by blast
  have pr: "probe_ok tableClass ?m"
    by (rule tab.rewrite_probe [OF I(2), of _ i])
      (use i ve e I(9) in \<open>auto simp: tableClassElemCount_def tableClassElemGet_def tableClassElemHash_def\<close>)
  have "hashT e' = tableClassCalcHash m (iTableT e') \<and> pidT e' \<noteq> 0 \<and> ownerT e' \<noteq> 0"
    if "e' \<in> set (table_locks ?m)" for e'
    using that I(6) [of e'] I(6) [of ?o] e(2) key unfolding A A' by auto
  moreover have "tableClassCalcHash ?m = tableClassCalcHash m" by (simp add: fun_eq_iff tableClassCalcHash_def)
  ultimately show "table_inv ?m"
    unfolding table_inv_def keys using wf pr I(3,4,5) by (simp add: A A')
  have "tableKey e \<notin> fst ` set (map (\<lambda>e. (tableKey e, eLockT e)) A)"
    using I(3) by (auto simp: A e(1))
  from map_of_replace [OF this] show "table_abs ?m = (table_abs m)(tableKey e \<mapsto> eLockT e)"
    by (simp add: table_abs_def A A' e(1))
qed

lemma table_insert:
  assumes inv: "table_inv m" and t: "t \<noteq> 0" "p \<noteq> 0" "ow \<noteq> 0"
    and i: "i < nElementT m" "\<not> tableClassIsValid (pDataT m ! i)"
    and free: "table_abs m (t, p, ow) = None" and room: "Suc (nLockT m) < nElementT m"
    and path: "\<And>j. j < nElementT m \<Longrightarrow> cdist (nElementT m) (tableClassCalcHash m t) j <
         cdist (nElementT m) (tableClassCalcHash m t) i \<Longrightarrow> tableClassIsValid (pDataT m ! j)"
    and m': "m' = m\<lparr>pDataT := rowlockIpcTableValueSet (pDataT m) i (tableClassCalcHash m t) p t ow l,
                 nLockT := Suc (nLockT m)\<rparr>"
  shows "table_inv m'" "table_abs m' = (table_abs m)((t, p, ow) \<mapsto> l)"
proof -
  note I = table_invD [OF inv]
  let ?e = "(pDataT m ! i)\<lparr>hashT := tableClassCalcHash m t, pidT := p, iTableT := t, ownerT := ow, eLockT := l, inUseT := 1\<rparr>"
  have pd: "pDataT m' = (pDataT m)[i := ?e]" by (simp add: m' rowlockIpcTableValueSet_def)
  have n: "nElementT m' = nElementT m" by (simp add: m')
  have ve: "tableClassIsValid ?e" using t by (simp add: tableClassIsValid_def)
  have wf: "table_wf m'"
    using table_wf_update [OF I(1), of ?e i] ve by (simp add: m' rowlockIpcTableValueSet_def table_wf_def)
  have e: "pDataT m' ! i = ?e" using i I(9) pd by simp
  have other: "pDataT m' ! j = pDataT m ! j" if "j \<noteq> i" for j using that pd by simp
  have probe: "probe_ok tableClass m'"
    by (rule tab.insert_probe [OF I(2), of _ i])
      (use i ve path table_hash_less [OF inv] in
        \<open>simp_all add: tableClassElemCount_def n tableClassElemGet_def e other tableClassElemHash_def\<close>)
  have "elems tableClass flagless m' = elems tableClass flagless m + {#flagless ?e#}"
    using tab.insert_elems [of m' m i] i ve
    by (simp add: tableClassElemCount_def n tableClassElemGet_def e other)
  then have ms: "mset (map flagless (table_locks m')) = mset (flagless ?e # map flagless (table_locks m))"
    using table_elems [OF wf] table_elems [OF I(1)] by simp
  have key: "tableKey ?e = (t, p, ow)" by (simp add: tableKey_def)
  have new: "(t, p, ow) \<notin> tableKey ` set (table_locks m)" using free by (auto simp: table_abs_None)
  have dk: "distinct (map tableKey (table_locks m'))"
  proof -
    have "mset (map tableKey (map flagless (table_locks m'))) = mset (map tableKey (flagless ?e # map flagless (table_locks m)))"
      using arg_cong [OF ms, of "image_mset tableKey"] by (simp only: mset_map)
    then have "mset (map tableKey (table_locks m')) = mset ((t, p, ow) # map tableKey (table_locks m))"
      by (simp add: comp_def) (simp add: tableKey_def)
    then show ?thesis using mset_eq_imp_distinct_iff I(3) new by fastforce
  qed
  have hash: "tableClassCalcHash m' = tableClassCalcHash m"
    by (simp add: fun_eq_iff tableClassCalcHash_def n)
  have "hashT e' = tableClassCalcHash m (iTableT e') \<and> pidT e' \<noteq> 0 \<and> ownerT e' \<noteq> 0"
    if e': "e' \<in> set (table_locks m')" for e'
  proof -
    have "flagless e' \<in> set (flagless ?e # map flagless (table_locks m))"
      using e' mset_eq_setD [OF ms] by (metis image_eqI set_map)
    then obtain e'' where "e'' = ?e \<or> e'' \<in> set (table_locks m)" "flagless e' = flagless e''" by auto
    with I(6) [of e''] flagless_eqD [of e' e''] t show ?thesis by auto
  qed
  moreover have "length (table_locks m') = Suc (length (table_locks m))"
    using arg_cong [OF ms, of size] by simp
  ultimately show "table_inv m'"
    using wf probe dk I(4) room by (simp add: table_inv_def n hash) (simp add: m')
  have "mset (map (\<lambda>e. (tableKey e, eLockT e)) (map flagless (table_locks m'))) =
      mset (((t, p, ow), l) # map (\<lambda>e. (tableKey e, eLockT e)) (map flagless (table_locks m)))"
    using arg_cong [OF ms, of "image_mset (\<lambda>e. (tableKey e, eLockT e))"]
    by (simp only: mset_map mset.simps image_mset_add_mset) (simp add: tableKey_def)
  from map_of_mset_Cons(1) [OF this] dk show "table_abs m' = (table_abs m)((t, p, ow) \<mapsto> l)"
    unfolding table_abs_flagless by (simp add: comp_def)
qed

text \<open>Conflicts with the locks of other holders.\<close>

definition tableConflict :: "TableArea \<Rightarrow> PID \<Rightarrow> u64 \<Rightarrow> int \<Rightarrow> u8 \<Rightarrow> nat \<Rightarrow> bool" where
  "tableConflict m p ow t l mode \<longleftrightarrow>
     (\<exists>e\<in>set (table_locks m). iTableT e = t \<and> \<not> (pidT e = p \<and> ownerT e = ow) \<and> lockConflict t l mode e)"

text \<open>At a free slot the loop has seen every lock of the table.\<close>

lemma scanEnd_complete:
  assumes inv: "table_inv m" and sc: "scanResult m p ow t l mode (tableClassCalcHash m t) (ScanEnd z f)"
    and i: "i < nElementT m" "tableClassIsValid (pDataT m ! i)" "iTableT (pDataT m ! i) = t"
  shows "scanPassed m p ow t l mode f i"
proof -
  let ?h = "tableClassCalcHash m t"
  have i': "i < xElemCount tableClass m" "xElemIsValid tableClass (xElemGet tableClass m i)"
    using i by (simp_all add: tableClassElemCount_def tableClassElemGet_def)
  have "tableClassElemHash m i = ?h" using table_slot_hash [OF inv i(1,2)] i(3) by simp
  then have "\<not> cdist (nElementT m) ?h z \<le> cdist (nElementT m) ?h i"
    using tab.probe_okD(2) [OF table_invD(2) [OF inv] i', of z] sc
    by (auto simp: tableClassElemCount_def tableClassElemGet_def)
  with sc i show ?thesis by simp
qed

text \<open>
  The abstract outcomes of a request for level \<open>l\<close> by the holder of key \<open>k\<close>, on the
  map \<open>L\<close> of table locks: \<open>conflict\<close> tells whether the lock of another holder stands
  against it and \<open>room\<close> whether a slot may be filled. A lock that is already strong
  enough is kept even where a conflict exists, if the loop meets it first.
\<close>

inductive lock_outcome ::
  "('k \<rightharpoonup> u8) \<Rightarrow> bool \<Rightarrow> bool \<Rightarrow> 'k \<Rightarrow> u8 \<Rightarrow> nat \<Rightarrow> rc \<Rightarrow> u8 option \<Rightarrow> ('k \<rightharpoonup> u8) \<Rightarrow> bool"
  for L conflict room k l mode where
  forced: "L k = Some e \<Longrightarrow> mode = MODE_LOCK_FORCE \<Longrightarrow>
     lock_outcome L conflict room k l mode SQLITE_OK None (L(k \<mapsto> l))"
| held: "L k = Some e \<Longrightarrow> mode \<noteq> MODE_LOCK_FORCE \<Longrightarrow> l \<le> e \<Longrightarrow>
     lock_outcome L conflict room k l mode SQLITE_OK None L"
| refused: "conflict \<Longrightarrow> lock_outcome L conflict room k l mode SQLITE_LOCKED None L"
| no_room: "\<not> conflict \<Longrightarrow> \<not> room \<Longrightarrow> lock_outcome L conflict room k l mode SQLITE_NOMEM None L"
| granted: "\<not> conflict \<Longrightarrow> room \<Longrightarrow> (\<And>e. L k = Some e \<Longrightarrow> mode \<noteq> MODE_LOCK_FORCE \<and> e < l) \<Longrightarrow>
     lock_outcome L conflict room k l mode SQLITE_OK
       (Some (case L k of None \<Rightarrow> NOT_LOCKED | Some e \<Rightarrow> e)) (L(k \<mapsto> l))"

inductive_cases lock_outcomeE: "lock_outcome L conflict room k l mode rc prev L'"

lemma table_abs_slot:
  "table_inv m \<Longrightarrow> ownSlot m p ow t i \<Longrightarrow> table_abs m (t, p, ow) = Some (eLockT (pDataT m ! i))"
  unfolding ownSlot_def using table_abs_Some table_slot_lock by blast

lemma table_lock_granted:
  assumes inv: "table_inv m" and t: "t \<noteq> 0" "p \<noteq> 0" "ow \<noteq> 0"
    and sc: "scanResult m p ow t l mode (tableClassCalcHash m t) (ScanEnd z f)"
    and room: "nLockT m < nElementT m - 1"
    and i: "i = (case f of None \<Rightarrow> z | Some i \<Rightarrow> i)"
    and m': "m' = m\<lparr>pDataT := rowlockIpcTableValueSet (pDataT m) i (tableClassCalcHash m t) p t ow l,
                 nLockT := (if f = None then Suc (nLockT m) else nLockT m)\<rparr>"
  shows "table_inv m'" "table_abs m' = (table_abs m)((t, p, ow) \<mapsto> l)"
    "eLockT (pDataT m ! i) = (case table_abs m (t, p, ow) of None \<Rightarrow> NOT_LOCKED | Some e \<Rightarrow> e)"
    "\<And>e. table_abs m (t, p, ow) = Some e \<Longrightarrow> mode \<noteq> MODE_LOCK_FORCE \<and> e < l"
proof -
  note I = table_invD [OF inv]
  have z: "z < nElementT m" "\<not> tableClassIsValid (pDataT m ! z)"
    "\<And>j. j < nElementT m \<Longrightarrow> cdist (nElementT m) (tableClassCalcHash m t) j <
         cdist (nElementT m) (tableClassCalcHash m t) z \<Longrightarrow> tableClassIsValid (pDataT m ! j)"
    "\<And>i. f = Some i \<Longrightarrow> ownSlot m p ow t i"
    using sc by (auto simp: scanPassed_def)
  have own: "f \<noteq> None \<and> mode \<noteq> MODE_LOCK_FORCE \<and> e < l" if e: "table_abs m (t, p, ow) = Some e" for e
  proof -
    obtain d where d: "d \<in> set (table_locks m)" "tableKey d = (t, p, ow)" "eLockT d = e"
      using e by (auto simp: table_abs_Some [OF inv])
    then obtain j where j: "j < nElementT m" "tableClassIsValid (pDataT m ! j)" "d = pDataT m ! j"
      using table_locks_iff [OF I(1)] by blast
    then have "scanPassed m p ow t l mode f j"
      using d by (intro scanEnd_complete [OF inv sc]) (auto simp: tableKey_def)
    with d j show ?thesis by (auto simp: scanPassed_def tableKey_def)
  qed
  then show "\<And>e. table_abs m (t, p, ow) = Some e \<Longrightarrow> mode \<noteq> MODE_LOCK_FORCE \<and> e < l" by simp
  have "table_inv m' \<and> table_abs m' = (table_abs m)((t, p, ow) \<mapsto> l) \<and>
    eLockT (pDataT m ! i) = (case table_abs m (t, p, ow) of None \<Rightarrow> NOT_LOCKED | Some e \<Rightarrow> e)"
  proof (cases f)
    case None
    then have free: "table_abs m (t, p, ow) = None" using own by (cases "table_abs m (t, p, ow)") auto
    have "Suc (nLockT m) < nElementT m" using room by simp
    from table_insert [OF inv t z(1,2) free this z(3)] m' None i I(10) [OF z(1,2)] free
    show ?thesis by simp
  next
    case (Some j)
    then have j: "ownSlot m p ow t j" and ij: "i = j" using z(4) i by auto
    let ?e = "(pDataT m ! j)\<lparr>hashT := tableClassCalcHash m t, pidT := p, iTableT := t, ownerT := ow, eLockT := l, inUseT := 1\<rparr>"
    have "hashT (pDataT m ! j) = tableClassCalcHash m t"
      using table_slot_lock [OF inv, of j] I(6) [of "pDataT m ! j"] j by (auto simp: ownSlot_def tableKey_def)
    then have same: "tableKey ?e = tableKey (pDataT m ! j)" "hashT ?e = hashT (pDataT m ! j)"
      using j by (simp_all add: ownSlot_def tableKey_def)
    have "j < nElementT m" "tableClassIsValid (pDataT m ! j)" using j by (simp_all add: ownSlot_def)
    note rw = table_rewrite [OF inv this same]
    moreover have "m' = m\<lparr>pDataT := (pDataT m)[j := ?e]\<rparr>"
      using Some ij by (simp add: m' rowlockIpcTableValueSet_def)
    moreover have "tableKey ?e = (t, p, ow)" "eLockT ?e = l" by (simp_all add: tableKey_def)
    ultimately show ?thesis using ij table_abs_slot [OF inv j] by simp
  qed
  then show "table_inv m'" "table_abs m' = (table_abs m)((t, p, ow) \<mapsto> l)"
    "eLockT (pDataT m ! i) = (case table_abs m (t, p, ow) of None \<Rightarrow> NOT_LOCKED | Some e \<Rightarrow> e)"
    by simp_all
qed

lemma table_lock_refines:
  assumes inv: "table_inv m" and t: "t \<noteq> 0" "p \<noteq> 0" "ow \<noteq> 0"
  shows "\<exists>rc prev m'. sqlite3rowlockIpcLockTable m p ow t l mode = Some (rc, prev, m') \<and> table_inv m' \<and>
    lock_outcome (table_abs m) (tableConflict m p ow t l mode) (nLockT m < nElementT m - 1)
      (t, p, ow) l mode rc prev (table_abs m')"
proof -
  note I = table_invD [OF inv]
  let ?h = "tableClassCalcHash m t"
  have h: "?h < nElementT m" by (rule table_hash_less [OF inv])
  obtain r where r: "lockTableLoop m p ow t l mode ?h ?h None = Some r" and sc: "scanResult m p ow t l mode ?h r"
    using lockTableLoop_ok [OF inv h h, of p ow t l mode None] by auto
  note D = sqlite3rowlockIpcLockTable_def Let_def
  have cap: "sub64 (nElementT m) 1 = nElementT m - 1" using I(7,8) by (intro sub64_id) auto
  show ?thesis
  proof (cases r)
    case (ScanForce i)
    let ?e = "(pDataT m ! i)\<lparr>eLockT := l\<rparr>"
    have i: "mode = MODE_LOCK_FORCE" "ownSlot m p ow t i" using sc ScanForce by simp_all
    then have "table_inv (m\<lparr>pDataT := (pDataT m)[i := ?e]\<rparr>)"
      "table_abs (m\<lparr>pDataT := (pDataT m)[i := ?e]\<rparr>) = (table_abs m)((t, p, ow) \<mapsto> l)"
      using table_rewrite [OF inv, of i ?e] by (simp_all add: ownSlot_def tableKey_def)
    with r ScanForce i table_abs_slot [OF inv i(2)] show ?thesis
      by (auto simp: D intro: lock_outcome.forced)
  next
    case ScanHeld
    with sc obtain i where "mode \<noteq> MODE_LOCK_FORCE" "ownSlot m p ow t i" "l \<le> eLockT (pDataT m ! i)" by auto
    with r ScanHeld inv table_abs_slot [OF inv] show ?thesis
      by (auto simp: D intro: lock_outcome.held)
  next
    case ScanConflict
    with r sc inv show ?thesis by (auto simp: D tableConflict_def intro: lock_outcome.refused)
  next
    case ScanFull
    with sc show ?thesis by simp
  next
    case (ScanEnd z f)
    note sc' = sc [unfolded ScanEnd]
    have nc: "\<not> tableConflict m p ow t l mode"
    proof
      assume "tableConflict m p ow t l mode"
      then obtain e where e: "e \<in> set (table_locks m)" "iTableT e = t" "\<not> (pidT e = p \<and> ownerT e = ow)"
        "lockConflict t l mode e" by (auto simp: tableConflict_def)
      then obtain j where "j < nElementT m" "tableClassIsValid (pDataT m ! j)" "e = pDataT m ! j"
        using table_locks_iff [OF I(1)] by blast
      with scanEnd_complete [OF inv sc', of j] e show False by (auto simp: scanPassed_def)
    qed
    show ?thesis
    proof (cases "nLockT m < nElementT m - 1")
      case False
      with r ScanEnd inv nc cap show ?thesis by (auto simp: D intro: lock_outcome.no_room)
    next
      case True
      let ?i = "case f of None \<Rightarrow> z | Some i \<Rightarrow> i"
      note G = table_lock_granted [OF inv t sc' True refl refl]
      have wr: "wrap64 (nLockT m + 1) = Suc (nLockT m)" using True I(8) by simp
      show ?thesis
        using r ScanEnd cap True G wr nc
          lock_outcome.granted [of "tableConflict m p ow t l mode" "nLockT m < nElementT m - 1"
            "table_abs m" "(t, p, ow)" mode l, OF nc True G(4)]
        by (simp add: D cong: if_cong)
    qed
  qed
qed

subsection \<open>Querying and releasing\<close>

lemma table_target:
  assumes "pidT e \<noteq> 0" "ownerT e \<noteq> 0"
  shows "tableClassElemIsTarget e (zeroTable\<lparr>iTableT := t, ownerT := ow\<rparr>) \<longleftrightarrow> iTableT e = t \<and> tableMatches 0 ow e"
    "p \<noteq> 0 \<Longrightarrow> tableClassElemIsTarget e (zeroTable\<lparr>iTableT := t, ownerT := ow, pidT := p\<rparr>) \<longleftrightarrow>
       iTableT e = t \<and> tableMatches p ow e"
  using assms by (auto simp: tableClassElemIsTarget_def tableMatches_def zeroTable_def)

lemma table_query:
  assumes inv: "table_inv m"
  obtains (some) e where "e \<in> set (table_locks m)" "iTableT e = t" "tableMatches 0 ow e"
      "sqlite3rowlockIpcLockTableQuery m ow t = Some (eLockT e)"
  | (none) "\<And>e. e \<in> set (table_locks m) \<Longrightarrow> \<not> (iTableT e = t \<and> tableMatches 0 ow e)"
      "sqlite3rowlockIpcLockTableQuery m ow t = Some NOT_LOCKED"
proof -
  let ?tg = "zeroTable\<lparr>iTableT := t, ownerT := ow\<rparr>"
  have tg: "iTableT ?tg = t" by simp
  note D = sqlite3rowlockIpcLockTableQuery_def Let_def tableClassElemGet_def
  show thesis
  proof (cases rule: table_search [OF inv tg])
    case (1 i)
    have e: "pDataT m ! i \<in> set (table_locks m)" by (rule table_slot_lock [OF inv 1(2,3)])
    with 1 table_target(1) [of "pDataT m ! i"] table_invD(6) [OF inv e]
    show thesis by (intro some [OF e]) (simp_all add: D)
  next
    case (2 i)
    with table_target(1) table_invD(6) [OF inv] show thesis by (intro none) (auto simp: D)
  qed
qed

text \<open>The three ways \<open>sqlite3rowlockIpcUnlockTableCore\<close> ends, for a nonzero process id.\<close>

lemma table_unlock:
  assumes inv: "table_inv m" and p: "p \<noteq> 0"
  obtains (absent) "\<And>e. e \<in> set (table_locks m) \<Longrightarrow> \<not> (iTableT e = t \<and> tableMatches p ow e)"
      "sqlite3rowlockIpcUnlockTableCore m p ow t mode = Some m"
  | (deleted) i m' where "i < nElementT m" "tableClassIsValid (pDataT m ! i)" "iTableT (pDataT m ! i) = t"
      "tableMatches p ow (pDataT m ! i)" "mode = MODE_UNLOCK_TRANS \<or> eLockT (pDataT m ! i) = READ_LOCK"
      "sqlite3rowlockIpcUnlockTableCore m p ow t mode = Some m'" "table_inv m'"
      "table_abs m' = (table_abs m)(tableKey (pDataT m ! i) := None)"
      "nElementT m' = nElementT m" "nCacheT m' = nCacheT m" "cachedT m' = cachedT m"
      "mset (map flagless (table_locks m)) = mset (flagless (pDataT m ! i) # map flagless (table_locks m'))"
      "\<And>b P j. b < nElementT m \<Longrightarrow> \<not> tableClassIsValid (pDataT m ! b) \<Longrightarrow>
         \<not> tableClassIsValid (pDataT m' ! b) \<and> (tab.swept P m b j \<longrightarrow> tab.swept P m' b j)"
      "\<And>b P. b < nElementT m \<Longrightarrow> \<not> tableClassIsValid (pDataT m ! b) \<Longrightarrow> tab.swept P m b i \<Longrightarrow>
         tableClassIsValid (pDataT m' ! i) \<Longrightarrow> \<not> P (flagless (pDataT m' ! i))"
  | (flagged) i where "i < nElementT m" "tableClassIsValid (pDataT m ! i)" "iTableT (pDataT m ! i) = t"
      "tableMatches p ow (pDataT m ! i)" "mode \<noteq> MODE_UNLOCK_TRANS" "eLockT (pDataT m ! i) \<noteq> READ_LOCK"
      "sqlite3rowlockIpcUnlockTableCore m p ow t mode =
         Some (m\<lparr>pDataT := (pDataT m)[i := (pDataT m ! i)\<lparr>inUseT := 0\<rparr>]\<rparr>)"
proof -
  let ?tg = "zeroTable\<lparr>iTableT := t, ownerT := ow, pidT := p\<rparr>"
  have tg: "iTableT ?tg = t" by simp
  note D = sqlite3rowlockIpcUnlockTableCore_def Let_def tableClassElemGet_def
  show thesis
  proof (cases rule: table_search [OF inv tg])
    case (1 i)
    have e: "pDataT m ! i \<in> set (table_locks m)" by (rule table_slot_lock [OF inv 1(2,3)])
    have mt: "iTableT (pDataT m ! i) = t" "tableMatches p ow (pDataT m ! i)"
      using 1(4) table_target(2) [of "pDataT m ! i"] table_invD(6) [OF inv e] p by simp_all
    have h: "tableClassCalcHash m t = tableClassCalcHash m (iTableT (pDataT m ! i))" using mt by simp
    show thesis
    proof (rule table_delete_slot [OF inv 1(2,3) h])
      fix z and m' :: TableArea
      let ?m = "m'\<lparr>nLockT := sub64 (nLockT m') 1\<rparr>"
      assume z: "searchEmptyNext tableClass m (tableClassCalcHash m t) (tableClassIndexNext m i) = Some z"
        and d: "rowlockIpcDelete tableClass m (tableClassCalcHash m t) i (tableClassIndexPrev m z) = Some m'"
        and r: "table_inv ?m" "table_abs ?m = (table_abs m)(tableKey (pDataT m ! i) := None)"
          "nElementT m' = nElementT m" "nCacheT m' = nCacheT m" "cachedT m' = cachedT m"
          "mset (map flagless (table_locks m)) = mset (flagless (pDataT m ! i) # map flagless (table_locks m'))"
        and b: "\<And>b P j. b < nElementT m \<Longrightarrow> \<not> tableClassIsValid (pDataT m ! b) \<Longrightarrow>
           \<not> tableClassIsValid (pDataT m' ! b) \<and> (tab.swept P m b j \<longrightarrow> tab.swept P m' b j)"
          "\<And>b P. b < nElementT m \<Longrightarrow> \<not> tableClassIsValid (pDataT m ! b) \<Longrightarrow> tab.swept P m b i \<Longrightarrow>
           tableClassIsValid (pDataT m' ! i) \<Longrightarrow> \<not> P (flagless (pDataT m' ! i))"
      show thesis
      proof (cases "mode = MODE_UNLOCK_TRANS \<or> eLockT (pDataT m ! i) = READ_LOCK")
        case True
        with 1 z d have "sqlite3rowlockIpcUnlockTableCore m p ow t mode = Some ?m" by (auto simp: D)
        note del = deleted [OF 1(2,3) mt True this r(1,2)]
        show thesis
        proof (rule del)
          show "\<not> P (flagless (pDataT ?m ! i))"
            if "b < nElementT m" "\<not> tableClassIsValid (pDataT m ! b)" "tab.swept P m b i"
              "tableClassIsValid (pDataT ?m ! i)" for b P
            using b(2) [of b P] that by simp
        qed (use r b(1) in simp_all)
      next
        case False
        with 1 z have "sqlite3rowlockIpcUnlockTableCore m p ow t mode =
            Some (m\<lparr>pDataT := (pDataT m)[i := (pDataT m ! i)\<lparr>inUseT := 0\<rparr>]\<rparr>)" by (simp add: D)
        with flagged [of i] 1(2,3) mt False show thesis by simp
      qed
    qed
  next
    case (2 i)
    with table_target(2) table_invD(6) [OF inv] p show thesis by (intro absent) (auto simp: D)
  qed
qed

subsection \<open>Releasing the locks of a process or an owner\<close>

text \<open>The locks that a sweep in the given mode removes.\<close>

definition tableReleased :: "PID \<Rightarrow> u64 \<Rightarrow> nat \<Rightarrow> TableElement \<Rightarrow> bool" where
  "tableReleased p ow mode e \<longleftrightarrow>
     tableMatches p ow e \<and> (mode = MODE_UNLOCK_TRANS \<or> eLockT e = READ_LOCK)"

lemma tableReleased_flagless [simp]: "tableReleased p ow mode (flagless e) = tableReleased p ow mode e"
  by (simp add: tableReleased_def)

definition tableSweeping :: "(TableElement \<Rightarrow> bool) \<Rightarrow> u64 \<Rightarrow> TableArea \<Rightarrow> TableArea \<Rightarrow> bool" where
  "tableSweeping P b m m' \<longleftrightarrow> table_inv m' \<and> nElementT m' = nElementT m \<and>
     nCacheT m' = nCacheT m \<and> cachedT m' = cachedT m \<and> \<not> tableClassIsValid (pDataT m' ! b) \<and>
     (\<exists>D. mset (map flagless (table_locks m)) = mset (map flagless (table_locks m')) + D \<and> (\<forall>e\<in>#D. P e))"

lemma tableSweepingD:
  assumes "tableSweeping P b m m'"
  shows "table_inv m'" "nElementT m' = nElementT m" "\<not> tableClassIsValid (pDataT m' ! b)"
    "nCacheT m' = nCacheT m" "cachedT m' = cachedT m"
  using assms by (simp_all add: tableSweeping_def)

lemma tableSweeping_refl: "table_inv m \<Longrightarrow> \<not> tableClassIsValid (pDataT m ! b) \<Longrightarrow> tableSweeping P b m m"
  by (auto simp: tableSweeping_def intro!: exI [of _ "{#}"])

lemma tableSweeping_trans:
  assumes "tableSweeping P b m m'" "tableSweeping P b m' m''"
  shows "tableSweeping P b m m''"
proof -
  from assms obtain D D' where
    "mset (map flagless (table_locks m)) = mset (map flagless (table_locks m')) + D" "\<forall>e\<in>#D. P e"
    "mset (map flagless (table_locks m')) = mset (map flagless (table_locks m'')) + D'" "\<forall>e\<in>#D'. P e"
    unfolding tableSweeping_def by blast
  then have "mset (map flagless (table_locks m)) = mset (map flagless (table_locks m'')) + (D' + D)"
    "\<forall>e\<in>#D' + D. P e"
    by (auto simp: add.assoc)
  with assms show ?thesis unfolding tableSweeping_def by auto
qed

text \<open>Clearing the flag of one slot.\<close>

lemma table_flag:
  assumes inv: "table_inv m" and i: "i < nElementT m" "tableClassIsValid (pDataT m ! i)"
    and m': "m' = m\<lparr>pDataT := (pDataT m)[i := (pDataT m ! i)\<lparr>inUseT := c\<rparr>]\<rparr>"
  shows "table_inv m'" "table_abs m' = table_abs m"
    "map flagless (table_locks m') = map flagless (table_locks m)"
    "tab.swept P m b j \<Longrightarrow> tab.swept P m' b j"
    "tableClassIsValid (pDataT m' ! j) = tableClassIsValid (pDataT m ! j)"
proof -
  let ?e = "(pDataT m ! i)\<lparr>inUseT := c\<rparr>"
  have len: "i < length (pDataT m)" using table_invD(9) [OF inv] i by simp
  have ve: "tableClassIsValid ?e" using i by (simp add: tableClassIsValid_def)
  note rw = table_rewrite [OF inv i, of ?e, folded m']
  then show "table_inv m'" by (simp add: tableKey_def)
  have "table_abs m (tableKey ?e) = Some (eLockT ?e)"
    using table_slot_lock [OF inv i] by (auto simp: table_abs_Some [OF inv] tableKey_def)
  with rw(2) show "table_abs m' = table_abs m" by (auto simp: tableKey_def)
  show "map flagless (table_locks m') = map flagless (table_locks m)"
    by (rule filter_list_update [OF len i(2) ve]) (simp add: m' table_locks_def flagless_def)
  have same: "flagless (pDataT m' ! j) = flagless (pDataT m ! j)" for j
    using len by (cases "j = i") (simp_all add: m' flagless_def)
  then show v: "tableClassIsValid (pDataT m' ! j) = tableClassIsValid (pDataT m ! j)" for j
    by (metis flagless_sel(7))
  have "nElementT m' = nElementT m" by (simp add: m')
  then show "tab.swept P m b j \<Longrightarrow> tab.swept P m' b j"
    unfolding tab.swept_def by (simp add: tableClassElemCount_def tableClassElemGet_def same v)
qed

lemma table_unique_slot:
  assumes inv: "table_inv m" and "i < nElementT m" "tableClassIsValid (pDataT m ! i)"
    and "j < nElementT m" "tableClassIsValid (pDataT m ! j)" "tableKey (pDataT m ! i) = tableKey (pDataT m ! j)"
  shows "i = j"
  using filter_key_unique [OF table_invD(3) [OF inv, unfolded table_locks_def]] table_invD(9) [OF inv] assms(2-)
  by simp

lemma unlockTableWhile_ok:
  assumes p: "p \<noteq> 0" and mode: "mode = MODE_UNLOCK_TRANS \<or> mode = MODE_UNLOCK_STMT \<and> ow \<noteq> 0"
  shows "table_inv m \<Longrightarrow> b < nElementT m \<Longrightarrow> \<not> tableClassIsValid (pDataT m ! b) \<Longrightarrow> i < nElementT m \<Longrightarrow>
    tab.swept (tableReleased p ow mode) m b i \<Longrightarrow>
    \<exists>m'. unlockTableWhile p p ow mode i m = Some m' \<and> tableSweeping (tableReleased p ow mode) b m m' \<and>
      tab.swept (tableReleased p ow mode) m' b i \<and>
      \<not> (tableClassIsValid (pDataT m' ! i) \<and> tableReleased p ow mode (pDataT m' ! i))"
proof (induction "length (table_locks m)" arbitrary: m rule: less_induct)
  case less
  let ?e = "pDataT m ! i" and ?P = "tableReleased p ow mode"
  note inv = less.prems(1)
  note unfold = unlockTableWhile.simps [of p p ow mode i m]
  show ?case
  proof (cases "tableClassIsValid ?e \<and> tableMatches p ow ?e")
    case False
    then have "unlockTableWhile p p ow mode i m = Some m"
      by (subst unfold) (auto simp: tableClassElemGet_def)
    with False less.prems tableSweeping_refl show ?thesis by (auto simp: tableReleased_def)
  next
    case True
    have lock: "?e \<in> set (table_locks m)" using table_slot_lock less.prems True by blast
    have same: "k = i" if "mode \<noteq> MODE_UNLOCK_TRANS" "k < nElementT m" "tableClassIsValid (pDataT m ! k)"
      "iTableT (pDataT m ! k) = iTableT ?e" "tableMatches p ow (pDataT m ! k)" for k
      using that True mode p less.prems(4)
      by (intro table_unique_slot [OF inv]) (auto simp: tableKey_def tableMatches_def)
    show ?thesis
    proof (cases rule: table_unlock [OF inv p, of "iTableT ?e" ow mode])
      case 1
      with lock True show ?thesis by blast
    next
      case (2 k m')
      note deleted = 2
      have sw: "\<not> tableClassIsValid (pDataT m' ! b)" "tab.swept ?P m' b i"
        using deleted(13) [OF less.prems(2,3)] less.prems(5) by blast+
      have step: "tableSweeping ?P b m m'"
        unfolding tableSweeping_def using deleted sw(1)
        by (auto simp: tableReleased_def intro!: exI [of _ "{#flagless (pDataT m ! k)#}"])
      show ?thesis
      proof (cases "mode = MODE_UNLOCK_STMT \<and> inUseT (pDataT m' ! i) = 0")
        case stop: True
        then have "k = i" using same deleted(1-4) by simp
        then have "\<not> (tableClassIsValid (pDataT m' ! i) \<and> ?P (pDataT m' ! i))"
          using deleted(14) [OF less.prems(2,3), of ?P] less.prems(5) by auto
        moreover have "unlockTableWhile p p ow mode i m = Some m'"
          using True deleted(6) stop by (subst unfold) (simp add: tableClassElemGet_def)
        ultimately show ?thesis using step sw by blast
      next
        case go: False
        have "length (table_locks m') < length (table_locks m)"
          using arg_cong [OF deleted(12), of size] by simp
        then obtain m'' where "unlockTableWhile p p ow mode i m' = Some m''" "tableSweeping ?P b m' m''"
          "tab.swept ?P m'' b i" "\<not> (tableClassIsValid (pDataT m'' ! i) \<and> ?P (pDataT m'' ! i))"
          using less.hyps [of m'] less.prems deleted(7,9) sw by auto
        moreover have "unlockTableWhile p p ow mode i m = unlockTableWhile p p ow mode i m'"
          using True deleted(6) go by (subst unfold) (auto simp: tableClassElemGet_def)
        ultimately show ?thesis using tableSweeping_trans [OF step] by metis
      qed
    next
      case (3 k)
      note flagged = 3
      have k: "k = i" using same flagged by simp
      let ?m = "m\<lparr>pDataT := (pDataT m)[i := ?e\<lparr>inUseT := 0\<rparr>]\<rparr>"
      note F = table_flag [OF inv, of i ?m 0]
      have e': "pDataT ?m ! i = ?e\<lparr>inUseT := 0\<rparr>" using table_invD(9) [OF inv] less.prems(4) by simp
      have "unlockTableWhile p p ow mode i m = Some ?m"
        using True flagged(5,7) mode k e' by (subst unfold) (auto simp: tableClassElemGet_def)
      moreover have "\<not> ?P (pDataT ?m ! i)" using flagged(5,6) k e' by (simp add: tableReleased_def)
      moreover have "tableSweeping ?P b m ?m"
        unfolding tableSweeping_def using F(1,3,5) True less.prems(3,4) by (auto intro!: exI [of _ "{#}"])
      moreover have "tab.swept ?P ?m b i" using F(4) True less.prems(4,5) by simp
      ultimately show ?thesis by blast
    qed
  qed
qed

lemma table_proc_core:
  assumes inv: "table_inv m" and p: "p \<noteq> 0"
    and mode: "mode = MODE_UNLOCK_TRANS \<or> mode = MODE_UNLOCK_STMT \<and> ow \<noteq> 0"
  obtains m' where "sqlite3rowlockIpcUnlockTablesProcCore m p p ow mode = Some m'" "table_inv m'"
    "nElementT m' = nElementT m" "nCacheT m' = nCacheT m" "cachedT m' = cachedT m"
    "mset (map flagless (table_locks m')) =
       filter_mset (\<lambda>e. \<not> tableReleased p ow mode e) (mset (map flagless (table_locks m)))"
proof -
  note I = table_invD [OF inv] and em = table_inv_empty [OF inv]
  let ?P = "tableReleased p ow mode" and ?W = "unlockTableWhile p p ow mode"
  obtain b where b: "b < nElementT m" "searchEmptyLast tableClass m (nElementT m - 1) = Some b"
    "\<not> tableClassIsValid (pDataT m ! b)"
    by (rule tab.emptyLast_top [OF I(1) em]) (simp add: tableClassElemCount_def tableClassElemGet_def)
  have first: "?W b m = Some m"
    using b(3) by (subst unlockTableWhile.simps) (simp add: tableClassElemGet_def)
  have core: "sqlite3rowlockIpcUnlockTablesProcCore m p p ow mode = ringSweep tableClass ?W b b m"
    using b I(7) by (simp add: sqlite3rowlockIpcUnlockTablesProcCore_def Let_def tableClassElemCount_def)
  have "\<exists>m'. ringSweep tableClass ?W b b m = Some m' \<and> table_inv m' \<and>
      tableSweeping ?P b m m' \<and> (\<forall>x\<in>#elems tableClass flagless m'. \<not> ?P x)"
  proof (rule tab.ringSweep_clean [where I = table_inv and R = "tableSweeping ?P b"])
    fix m i
    assume *: "table_inv m" "b < xElemCount tableClass m" "\<not> xElemIsValid tableClass (xElemGet tableClass m b)"
      "i < xElemCount tableClass m" "tab.swept ?P m b i"
    show "\<exists>m'. ?W i m = Some m' \<and> table_inv m' \<and> tableSweeping ?P b m m' \<and>
       xElemCount tableClass m' = xElemCount tableClass m \<and> \<not> xElemIsValid tableClass (xElemGet tableClass m' b) \<and>
       tab.swept ?P m' b i \<and>
       \<not> (xElemIsValid tableClass (xElemGet tableClass m' i) \<and> ?P (flagless (xElemGet tableClass m' i)))"
      using unlockTableWhile_ok [OF p mode, of m b i] *
      by (auto simp: tableClassElemCount_def tableClassElemGet_def dest: tableSweepingD)
  qed (use b inv first table_invD(1) tableSweeping_trans tableSweeping_refl in
      \<open>auto simp: tableClassElemCount_def tableClassElemGet_def\<close>)
  then obtain m' where m': "ringSweep tableClass ?W b b m = Some m'"
    "tableSweeping ?P b m m'" "\<forall>x\<in>#elems tableClass flagless m'. \<not> ?P x" by blast
  note S = tableSweepingD [OF m'(2)]
  from m'(2) obtain D where D: "mset (map flagless (table_locks m)) = mset (map flagless (table_locks m')) + D"
    "\<forall>e\<in>#D. ?P e"
    unfolding tableSweeping_def by blast
  have "\<forall>x\<in>#mset (map flagless (table_locks m')). \<not> ?P x"
    using m'(3) table_elems [OF table_invD(1) [OF S(1)]] by metis
  then have "filter_mset (\<lambda>e. \<not> ?P e) (mset (map flagless (table_locks m'))) = mset (map flagless (table_locks m'))"
    "filter_mset (\<lambda>e. \<not> ?P e) D = {#}"
    using D(2) by (auto simp: filter_mset_eq_conv)
  then have "filter_mset (\<lambda>e. \<not> ?P e) (mset (map flagless (table_locks m))) = mset (map flagless (table_locks m'))"
    unfolding D(1) by (simp only: filter_union_mset add_0_right)
  with m'(1) core S that show thesis by simp
qed

lemma table_proc_abs:
  assumes inv: "table_inv m" "table_inv m'"
    and ms: "mset (map flagless (table_locks m')) =
       filter_mset (\<lambda>e. \<not> tableReleased p ow mode e) (mset (map flagless (table_locks m)))"
  shows "table_abs m' (t, q, o') = Some l \<longleftrightarrow> table_abs m (t, q, o') = Some l \<and>
    \<not> ((p = 0 \<or> q = p) \<and> (ow = 0 \<or> o' = ow) \<and> (mode = MODE_UNLOCK_TRANS \<or> l = READ_LOCK))"
proof -
  have "set (map flagless (table_locks m')) =
      {e \<in> set (map flagless (table_locks m)). \<not> tableReleased p ow mode e}"
    using arg_cong [OF ms, of set_mset] by simp
  then have "(\<exists>e\<in>set (map flagless (table_locks m')). tableKey e = (t, q, o') \<and> eLockT e = l) \<longleftrightarrow>
      (\<exists>e\<in>set (map flagless (table_locks m)). \<not> tableReleased p ow mode e \<and> tableKey e = (t, q, o') \<and> eLockT e = l)"
    by auto
  then have "(\<exists>e\<in>set (table_locks m'). tableKey e = (t, q, o') \<and> eLockT e = l) \<longleftrightarrow>
      (\<exists>e\<in>set (table_locks m). \<not> tableReleased p ow mode e \<and> tableKey e = (t, q, o') \<and> eLockT e = l)"
    by simp
  then show ?thesis
    unfolding table_abs_Some [OF inv(1)] table_abs_Some [OF inv(2)]
    by (auto simp: tableReleased_def tableMatches_def tableKey_def)
qed

lemma table_unlock_own:
  assumes inv: "table_inv m" and p: "p \<noteq> 0" "ow \<noteq> 0"
  shows "\<exists>m'. sqlite3rowlockIpcUnlockTable m p ow t = Some m' \<and> table_inv m' \<and>
    nElementT m' = nElementT m \<and> table_abs m' = (table_abs m)((t, p, ow) := None)"
  unfolding sqlite3rowlockIpcUnlockTable_def
proof (cases rule: table_unlock [OF inv p(1), of t ow MODE_UNLOCK_TRANS])
  case 1
  then have "table_abs m (t, p, ow) = None"
    using p by (auto simp: table_abs_None tableKey_def tableMatches_def)
  with 1(2) inv show "\<exists>m'. sqlite3rowlockIpcUnlockTableCore m p ow t MODE_UNLOCK_TRANS = Some m' \<and> table_inv m' \<and>
    nElementT m' = nElementT m \<and> table_abs m' = (table_abs m)((t, p, ow) := None)"
    by (auto simp: fun_upd_idem)
next
  case (2 i m')
  moreover have "tableKey (pDataT m ! i) = (t, p, ow)"
    using 2 p by (simp add: tableKey_def tableMatches_def)
  ultimately show "\<exists>m'. sqlite3rowlockIpcUnlockTableCore m p ow t MODE_UNLOCK_TRANS = Some m' \<and> table_inv m' \<and>
    nElementT m' = nElementT m \<and> table_abs m' = (table_abs m)((t, p, ow) := None)"
    by simp
qed simp

lemma table_init:
  assumes "120 \<le> sz" "sz < 2 ^ 63"
  shows "table_inv (tableClassInitArea m sz)" "table_abs (tableClassInitArea m sz) = Map.empty"
    "nElementT (tableClassInitArea m sz) = (sz - 72) div 48"
proof -
  let ?n = "(sz - 72) div 48"
  have a: "tableClassInitArea m sz = \<lparr>nElementT = ?n, nLockT = 0, nCacheT = 0,
       pDataT = replicate ?n zeroTable, cachedT = replicate ?n zeroCache\<rparr>"
    using assms by (simp add: tableClassInitArea_def Let_def sizeof_TableMetaData_def
        sizeof_TableElement_def sizeof_CachedRowid_def sub64_id)
  have n: "0 < ?n" "?n < 2 ^ 63" using assms by (simp_all add: div_greater_zero_iff)
  have none: "table_locks (tableClassInitArea m sz) = []"
    by (simp add: a table_locks_def tableClassIsValid_def zeroTable_def)
  have "\<not> tableClassIsValid (pDataT (tableClassInitArea m sz) ! i)" if "i < ?n" for i
    using that by (simp add: a tableClassIsValid_def zeroTable_def)
  then have "probe_ok tableClass (tableClassInitArea m sz)"
    unfolding probe_ok_def by (simp add: tableClassElemCount_def tableClassElemGet_def a)
  with none n show "table_inv (tableClassInitArea m sz)"
    unfolding table_inv_def none by (simp add: table_wf_def a zeroTable_def)
  show "table_abs (tableClassInitArea m sz) = Map.empty" by (simp add: table_abs_def none)
  show "nElementT (tableClassInitArea m sz) = ?n" by (simp add: a)
qed

section \<open>The release loop that does not end\<close>

text \<open>
  With process id 0 (the cleanup tool) the inner loop selects the locks of every process,
  but \<open>sqlite3rowlockIpcUnlockTableCore\<close> searches for the locks of the running process.
  On a lock of another process it changes nothing, and the loop runs for ever.
\<close>

definition stuckAt :: "PID \<Rightarrow> PID \<Rightarrow> u64 \<Rightarrow> nat \<Rightarrow> u64 \<Rightarrow> TableArea \<Rightarrow> bool" where
  "stuckAt self pid ow mode idx m \<longleftrightarrow> pid = 0 \<and> ow = 0 \<and> mode = MODE_UNLOCK_TRANS \<and>
     tableClassIsValid (pDataT m ! idx) \<and>
     sqlite3rowlockIpcUnlockTableCore m self ow (iTableT (pDataT m ! idx)) mode = Some m"

lemma unlockTableWhile_stuck:
  assumes "unlockTableWhile self pid ow mode idx m = Some r"
  shows "\<not> stuckAt self pid ow mode idx m"
proof (rule unlockTableWhile.raw_induct [rotated, OF assms,
      where P = "\<lambda>self pid ow mode idx m r. \<not> stuckAt self pid ow mode idx m"])
  fix f self pid ow mode idx m y
  assume IH: "\<And>self pid ow mode idx m y. f self pid ow mode idx m = Some y \<Longrightarrow> \<not> stuckAt self pid ow mode idx m"
    and body: "(if xElemIsValid tableClass (xElemGet tableClass m idx) \<and> tableMatches pid ow (pDataT m ! idx)
      then Option.bind (sqlite3rowlockIpcUnlockTableCore m self ow (iTableT (pDataT m ! idx)) mode) (\<lambda>m'.
        if mode = MODE_UNLOCK_STMT \<and> inUseT (pDataT m' ! idx) = 0 then Some m' else f self pid ow mode idx m')
      else Some m) = Some y"
  show "\<not> stuckAt self pid ow mode idx m"
  proof
    assume st: "stuckAt self pid ow mode idx m"
    then have "f self pid ow mode idx m = Some y"
      using body by (auto simp: stuckAt_def tableClassElemGet_def tableMatches_def)
    from IH [OF this] st show False by simp
  qed
qed

lemma table_unlock_foreign:
  assumes inv: "table_inv m" and self: "self \<noteq> 0" and foreign: "\<forall>e\<in>set (table_locks m). pidT e \<noteq> self"
  shows "sqlite3rowlockIpcUnlockTableCore m self ow t mode = Some m"
proof (cases rule: table_unlock [OF inv self, of t ow mode])
  case (2 i m')
  with foreign self table_slot_lock [OF inv 2(1,2)] show ?thesis by (auto simp: tableMatches_def)
next
  case (3 i)
  with foreign self table_slot_lock [OF inv 3(1,2)] show ?thesis by (auto simp: tableMatches_def)
qed simp

lemma ringSweep_stuck:
  assumes inv: "table_inv m" and b: "b < nElementT m"
    and stuck: "\<And>j. j < nElementT m \<Longrightarrow> tableClassIsValid (pDataT m ! j) \<Longrightarrow> W j m = None"
    and skip: "\<And>j. j < nElementT m \<Longrightarrow> \<not> tableClassIsValid (pDataT m ! j) \<Longrightarrow> W j m = Some m"
  shows "i < nElementT m \<Longrightarrow> k < nElementT m \<Longrightarrow> tableClassIsValid (pDataT m ! k) \<Longrightarrow> k \<noteq> b \<Longrightarrow>
    cdist (nElementT m) b k \<le> cdist (nElementT m) b i \<Longrightarrow> ringSweep tableClass W b i m = None"
proof (induction "cdist (nElementT m) b i" arbitrary: i rule: less_induct)
  case less
  let ?n = "nElementT m"
  let ?j = "cprev ?n i"
  show ?case
  proof (cases "tableClassIsValid (pDataT m ! i)")
    case True
    then show ?thesis using stuck less.prems(1) by (subst ringSweep.simps) simp
  next
    case False
    have prev: "tableClassIndexPrev m i = ?j"
      using tab.prev_eq [of m i] table_invD(1) [OF inv] less.prems(1) by (simp add: tableClassElemCount_def)
    have "cdist ?n b k \<noteq> cdist ?n b i" using False less.prems b by (auto simp: cdist_inj)
    then have lt: "cdist ?n b k < cdist ?n b i" using less.prems(5) by simp
    then have "i \<noteq> b" by auto
    then have j: "Suc (cdist ?n b ?j) = cdist ?n b i" "?j < ?n"
      using b less.prems(1) by (simp_all add: cdist_cprev_Suc)
    have "cdist ?n b k \<noteq> 0" using less.prems(2,4) b by (simp add: cdist_0_iff)
    then have "?j \<noteq> b" using j(1) lt by auto
    then have "ringSweep tableClass W b i m = ringSweep tableClass W b ?j m"
      using skip [OF less.prems(1) False] prev by (subst ringSweep.simps) simp
    also have "\<dots> = None" using less.hyps [of ?j] less.prems j lt by simp
    finally show ?thesis .
  qed
qed

lemma table_cleaner_diverges:
  assumes inv: "table_inv m" and self: "self \<noteq> 0"
    and foreign: "\<forall>e\<in>set (table_locks m). pidT e \<noteq> self" and some: "table_locks m \<noteq> []"
  shows "sqlite3rowlockIpcUnlockTablesProcCore m self 0 0 MODE_UNLOCK_TRANS = None"
proof -
  note I = table_invD [OF inv] and em = table_inv_empty [OF inv]
  let ?W = "unlockTableWhile self 0 0 MODE_UNLOCK_TRANS" and ?n = "nElementT m"
  obtain b where b: "b < ?n" "searchEmptyLast tableClass m (?n - 1) = Some b" "\<not> tableClassIsValid (pDataT m ! b)"
    by (rule tab.emptyLast_top [OF I(1) em]) (simp add: tableClassElemCount_def tableClassElemGet_def)
  have core: "sqlite3rowlockIpcUnlockTablesProcCore m self 0 0 MODE_UNLOCK_TRANS = ringSweep tableClass ?W b b m"
    using b I(7) by (simp add: sqlite3rowlockIpcUnlockTablesProcCore_def Let_def tableClassElemCount_def)
  have stuck: "?W j m = None" if "j < ?n" "tableClassIsValid (pDataT m ! j)" for j
    using unlockTableWhile_stuck [of self 0 0 MODE_UNLOCK_TRANS j m] that table_unlock_foreign [OF inv self foreign]
    by (cases "?W j m") (auto simp: stuckAt_def)
  have skip: "?W j m = Some m" if "j < ?n" "\<not> tableClassIsValid (pDataT m ! j)" for j
    using that by (subst unlockTableWhile.simps) (simp add: tableClassElemGet_def)
  obtain k where k: "k < ?n" "tableClassIsValid (pDataT m ! k)"
    using some table_locks_iff [OF I(1)] by (metis list.set_intros(1) neq_Nil_conv)
  have kb: "k \<noteq> b" using k b by auto
  let ?j = "cprev ?n b"
  have prev: "tableClassIndexPrev m b = ?j"
    using tab.prev_eq [of m b] I(1) b(1) by (simp add: tableClassElemCount_def)
  have jk: "cdist ?n b k \<le> cdist ?n b ?j" using cdist_less [OF b(1) k(1)] by (simp add: cdist_cprev_last [OF b(1)])
  have "?j \<noteq> b" using jk kb k(1) b(1) by (metis cdist_0_iff cdist_self le_zero_eq)
  then have "ringSweep tableClass ?W b b m = ringSweep tableClass ?W b ?j m"
    using skip [OF b(1,3)] prev by (subst ringSweep.simps) simp
  also have "\<dots> = None" by (rule ringSweep_stuck [where W = ?W, OF inv b(1) stuck skip _ k kb jk]) (use b in auto)
  finally show ?thesis using core by simp
qed

section \<open>Properties\<close>

text \<open>A mapped file that was just created holds zero bytes.\<close>

definition freshTableArea :: TableArea where
  "freshTableArea = \<lparr>nElementT = 0, nLockT = 0, nCacheT = 0, pDataT = [], cachedT = []\<rparr>"

text \<open>A table with four slots, where process 1 and then process 2 have a write lock on table 5.\<close>

definition tableDemo :: TableArea where
  "tableDemo = \<lparr>nElementT = 4, nLockT = 2, nCacheT = 0,
     pDataT = [zeroTable,
       \<lparr>hashT = 1, iTableT = 5, pidT = 1, ownerT = 10, eLockT = WRITE_LOCK, inUseT = 0\<rparr>,
       \<lparr>hashT = 1, iTableT = 5, pidT = 2, ownerT = 20, eLockT = WRITE_LOCK, inUseT = 1\<rparr>,
       zeroTable],
     cachedT = replicate 4 zeroCache\<rparr>"

lemma tableDemo_hash: "nElementT m = 4 \<Longrightarrow> tableClassCalcHash m 5 = 1"
  by (simp add: tableClassCalcHash_def rowlockIpcCalcHash_def le_bytes_def upt_rec wrap64_def)

lemma all_less_4: "(\<forall>i<4. P i) \<longleftrightarrow> P 0 \<and> P 1 \<and> P 2 \<and> P (3::nat)"
  by (auto simp: less_Suc_eq numeral_eq_Suc)

lemma tableDemo_locks:
  "table_locks tableDemo =
     [\<lparr>hashT = 1, iTableT = 5, pidT = 1, ownerT = 10, eLockT = WRITE_LOCK, inUseT = 0\<rparr>,
      \<lparr>hashT = 1, iTableT = 5, pidT = 2, ownerT = 20, eLockT = WRITE_LOCK, inUseT = 1\<rparr>]"
  by (simp add: table_locks_def tableDemo_def tableClassIsValid_def zeroTable_def)

lemma tableDemo_inv: "table_inv tableDemo"
proof -
  have "probe_ok tableClass tableDemo"
    unfolding probe_ok_def tableClass_sel tableClassElemCount_def
    by (simp add: all_less_4 tableDemo_def tableClass_defs zeroTable_def cdist_def)
  moreover have "table_wf tableDemo"
    by (simp add: table_wf_def tableDemo_def tableClassIsValid_def zeroTable_def)
  moreover have "tableClassCalcHash tableDemo 5 = 1" by (rule tableDemo_hash) (simp add: tableDemo_def)
  ultimately show ?thesis
    unfolding table_inv_def tableDemo_locks by (simp add: tableKey_def) (simp add: tableDemo_def)
qed

lemma tableDemo_abs: "table_abs tableDemo = [(5, 1, 10) \<mapsto> WRITE_LOCK, (5, 2, 20) \<mapsto> WRITE_LOCK]"
  by (auto simp: table_abs_def tableDemo_locks tableKey_def)

text \<open>
  C20. \<open>sqlite3rowlockIpcLockTable\<close> always returns one of five outcomes: the caller's lock is
  set to the level (\<open>MODE_LOCK_FORCE\<close>), or is already strong enough and kept; the request is
  refused with \<open>SQLITE_LOCKED\<close> and a lock of another holder really conflicts with it; no
  conflict exists but only one slot is free (\<open>SQLITE_NOMEM\<close>); or no conflict exists and the
  lock is entered or raised, with \<open>*prevLock\<close> the caller's former level. No other
  lock changes, and the invariant of the area is kept.
\<close>

theorem LockTable_outcome:
  assumes "table_inv m" and "iTable \<noteq> 0" and "pid \<noteq> 0" and "owner \<noteq> 0"
  shows "\<exists>rc prev m'. sqlite3rowlockIpcLockTable m pid owner iTable eLock mode = Some (rc, prev, m') \<and>
    table_inv m' \<and>
    lock_outcome (table_abs m) (tableConflict m pid owner iTable eLock mode) (nLockT m < nElementT m - 1)
      (iTable, pid, owner) eLock mode rc prev (table_abs m')"
  by (rule table_lock_refines [OF assms])

theorem LockTable_outcome_witness:
  "\<exists>prev m'. sqlite3rowlockIpcLockTable tableDemo 3 30 5 WRITEEX_LOCK MODE_LOCK_NORMAL = Some (SQLITE_LOCKED, prev, m')"
proof -
  have conflict: "tableConflict tableDemo 3 30 5 WRITEEX_LOCK MODE_LOCK_NORMAL"
    by (simp add: tableConflict_def tableDemo_locks lockConflict_def)
  obtain rc prev m' where r: "sqlite3rowlockIpcLockTable tableDemo 3 30 5 WRITEEX_LOCK MODE_LOCK_NORMAL = Some (rc, prev, m')"
    and o: "lock_outcome (table_abs tableDemo) (tableConflict tableDemo 3 30 5 WRITEEX_LOCK MODE_LOCK_NORMAL)
      (nLockT tableDemo < nElementT tableDemo - 1) (5, 3, 30) WRITEEX_LOCK MODE_LOCK_NORMAL rc prev (table_abs m')"
    using LockTable_outcome [OF tableDemo_inv, of 5 3 30 WRITEEX_LOCK MODE_LOCK_NORMAL] by auto
  from o have "rc = SQLITE_LOCKED" using conflict by cases (auto simp: tableDemo_abs)
  with r show ?thesis by blast
qed

text \<open>Levels that two holders may have on one table, and maps where this holds.\<close>

definition compatPair :: "int \<Rightarrow> u8 \<Rightarrow> u8 \<Rightarrow> bool" where
  "compatPair t l l' \<longleftrightarrow>
     (if t = SCHEMA_ROOT
      then \<not> (l = WRITE_LOCK \<and> (l' = READ_LOCK \<or> l' = WRITE_LOCK)) \<and>
           \<not> (l' = WRITE_LOCK \<and> (l = READ_LOCK \<or> l = WRITE_LOCK))
      else l \<ge> WRITE_LOCK \<and> l' \<ge> WRITE_LOCK \<longrightarrow> l = WRITE_LOCK \<and> l' = WRITE_LOCK)"

definition tableCompat :: "(int \<times> PID \<times> u64 \<rightharpoonup> u8) \<Rightarrow> bool" where
  "tableCompat L \<longleftrightarrow> (\<forall>t h h' l l'. h \<noteq> h' \<longrightarrow> L (t, h) = Some l \<longrightarrow> L (t, h') = Some l' \<longrightarrow> compatPair t l l')"

lemma compatPair_sym: "compatPair t l l' \<longleftrightarrow> compatPair t l' l"
  by (auto simp: compatPair_def)

lemma tableCompat_upd:
  assumes L: "tableCompat L"
    and new: "\<And>h' l'. L (t, h') = Some l' \<Longrightarrow> h' \<noteq> h \<Longrightarrow> compatPair t l l'"
  shows "tableCompat (L((t, h) \<mapsto> l))"
  unfolding tableCompat_def
proof (intro allI impI)
  fix t' a b la lb
  assume *: "a \<noteq> b" "(L((t, h) \<mapsto> l)) (t', a) = Some la" "(L((t, h) \<mapsto> l)) (t', b) = Some lb"
  consider "(t', a) = (t, h)" | "(t', b) = (t, h)" | "(t', a) \<noteq> (t, h)" "(t', b) \<noteq> (t, h)" by blast
  then show "compatPair t' la lb"
  proof cases
    case 1
    with * new [of b lb] show ?thesis by auto
  next
    case 2
    with * new [of a la] show ?thesis by (auto simp: compatPair_sym [of _ la])
  next
    case 3
    then have "L (t', a) = Some la" "L (t', b) = Some lb" using *(2,3) by (simp_all add: fun_upd_def split: if_splits)
    with *(1) L show ?thesis unfolding tableCompat_def by blast
  qed
qed

lemma compat_granted:
  assumes inv: "table_inv m" and free: "\<not> tableConflict m p ow t l MODE_LOCK_NORMAL"
    and l: "t = SCHEMA_ROOT \<longrightarrow> l = READ_LOCK \<or> l = WRITE_LOCK"
    and h': "table_abs m (t, h') = Some l'" "h' \<noteq> (p, ow)"
  shows "compatPair t l l'"
proof -
  obtain e where e: "e \<in> set (table_locks m)" "tableKey e = (t, h')" "eLockT e = l'"
    using h'(1) table_abs_Some [OF inv] by blast
  then have "\<not> lockConflict t l MODE_LOCK_NORMAL e"
    using free h'(2) by (auto simp: tableConflict_def tableKey_def)
  with e(3) l show ?thesis by (auto simp: lockConflict_def compatPair_def split: if_splits)
qed

text \<open>
  Compatibility of table locks in \<open>MODE_LOCK_NORMAL\<close>: if no two holders of a table have
  incompatible locks (on a normal table, two locks of level \<open>WRITE_LOCK\<close> or above only
  if both are \<open>WRITE_LOCK\<close>; on \<open>sqlite_master\<close>, no \<open>WRITE_LOCK\<close> beside a read or write
  lock of another holder), this still holds after any request, granted or not.
\<close>

theorem LockTable_compat:
  assumes "table_inv m" and "iTable \<noteq> 0" and "pid \<noteq> 0" and "owner \<noteq> 0"
    and "iTable = SCHEMA_ROOT \<longrightarrow> eLock = READ_LOCK \<or> eLock = WRITE_LOCK"
    and compat: "tableCompat (table_abs m)"
  shows "\<exists>rc prev m'. sqlite3rowlockIpcLockTable m pid owner iTable eLock MODE_LOCK_NORMAL = Some (rc, prev, m') \<and>
    tableCompat (table_abs m')"
proof -
  obtain rc prev m' where r: "sqlite3rowlockIpcLockTable m pid owner iTable eLock MODE_LOCK_NORMAL = Some (rc, prev, m')"
    and o: "lock_outcome (table_abs m) (tableConflict m pid owner iTable eLock MODE_LOCK_NORMAL) (nLockT m < nElementT m - 1)
      (iTable, pid, owner) eLock MODE_LOCK_NORMAL rc prev (table_abs m')"
    using table_lock_refines [OF assms(1-4), of eLock MODE_LOCK_NORMAL] by blast
  from o have "tableCompat (table_abs m')"
  proof cases
    case granted
    show ?thesis unfolding granted(3)
      by (rule tableCompat_upd [OF compat]) (rule compat_granted [OF assms(1) granted(4) assms(5)])
  qed (use compat in simp_all)
  with r show ?thesis by blast
qed

theorem LockTable_compat_witness:
  "\<exists>rc prev m'. sqlite3rowlockIpcLockTable tableDemo 3 30 5 READ_LOCK MODE_LOCK_NORMAL = Some (rc, prev, m') \<and>
     tableCompat (table_abs m')"
proof -
  have "tableCompat (table_abs tableDemo)"
    by (auto simp: tableCompat_def tableDemo_abs compatPair_def split: if_splits)
  then show ?thesis using LockTable_compat [OF tableDemo_inv, of 5 3 30 READ_LOCK] by simp
qed

text \<open>
  C22. \<open>sqlite3rowlockIpcUnlockTable\<close> returns, keeps the invariant and removes exactly the
  caller's lock on the table.
\<close>

theorem UnlockTable_exact:
  assumes "table_inv m" and "pid \<noteq> 0" and "owner \<noteq> 0"
  shows "\<exists>m'. sqlite3rowlockIpcUnlockTable m pid owner iTable = Some m' \<and> table_inv m' \<and>
    table_abs m' = (table_abs m)((iTable, pid, owner) := None)"
  using table_unlock_own [OF assms, of iTable] by blast

theorem UnlockTable_exact_witness:
  "\<exists>m'. sqlite3rowlockIpcUnlockTable tableDemo 1 10 5 = Some m' \<and> table_abs m' = [(5, 2, 20) \<mapsto> WRITE_LOCK]"
proof -
  have "(table_abs tableDemo)((5, 1, 10) := None) = [(5, 2, 20) \<mapsto> WRITE_LOCK]"
    by (auto simp: tableDemo_abs fun_eq_iff)
  then show ?thesis using UnlockTable_exact [OF tableDemo_inv, of 1 10 5] by auto
qed

text \<open>
  C23. \<open>sqlite3rowlockIpcUnlockTablesProcCore\<close>, called with the running process, ends and
  releases exactly the locks of this process and owner (0 for any owner) at the end of a
  transaction, and exactly its read locks at the end of a statement.
\<close>

theorem UnlockTablesProcCore_exact:
  assumes "table_inv m" and "pid \<noteq> 0"
    and "mode = MODE_UNLOCK_TRANS \<or> mode = MODE_UNLOCK_STMT \<and> owner \<noteq> 0"
  shows "\<exists>m'. sqlite3rowlockIpcUnlockTablesProcCore m pid pid owner mode = Some m' \<and> table_inv m' \<and>
    (\<forall>t q ow l. table_abs m' (t, q, ow) = Some l \<longleftrightarrow> table_abs m (t, q, ow) = Some l \<and>
       \<not> (q = pid \<and> (owner = 0 \<or> ow = owner) \<and> (mode = MODE_UNLOCK_TRANS \<or> l = READ_LOCK)))"
proof (rule table_proc_core [OF assms])
  fix m'
  assume m': "sqlite3rowlockIpcUnlockTablesProcCore m pid pid owner mode = Some m'" "table_inv m'"
    and ms: "mset (map flagless (table_locks m')) =
       filter_mset (\<lambda>e. \<not> tableReleased pid owner mode e) (mset (map flagless (table_locks m)))"
  have "table_abs m' (t, q, ow) = Some l \<longleftrightarrow> table_abs m (t, q, ow) = Some l \<and>
       \<not> (q = pid \<and> (owner = 0 \<or> ow = owner) \<and> (mode = MODE_UNLOCK_TRANS \<or> l = READ_LOCK))" for t q ow l
    using table_proc_abs [OF assms(1) m'(2) ms] assms(2) by blast
  with m' show ?thesis by blast
qed

theorem UnlockTablesProcCore_exact_witness:
  "\<exists>m'. sqlite3rowlockIpcUnlockTablesProcCore tableDemo 1 1 0 MODE_UNLOCK_TRANS = Some m' \<and>
     table_abs m' (5, 1, 10) = None \<and> table_abs m' (5, 2, 20) = Some WRITE_LOCK"
proof -
  obtain m' where m': "sqlite3rowlockIpcUnlockTablesProcCore tableDemo 1 1 0 MODE_UNLOCK_TRANS = Some m'"
    "\<And>t q ow l. table_abs m' (t, q, ow) = Some l \<longleftrightarrow> table_abs tableDemo (t, q, ow) = Some l \<and> q \<noteq> 1"
    using UnlockTablesProcCore_exact [OF tableDemo_inv, of 1 MODE_UNLOCK_TRANS 0] by auto
  then have "table_abs m' (5, 1, 10) = None" by (cases "table_abs m' (5, 1, 10)") auto
  with m' show ?thesis by (auto simp: tableDemo_abs)
qed

text \<open>
  \<open>sqlite3rowlockIpcLockTableQuery\<close> returns the level of a lock that the given owner has
  on the table, in whatever process, and \<open>NOT_LOCKED\<close> if there is none; so where the
  owner value is used by one process only, it returns the level of the caller's own lock.
\<close>

theorem LockTableQuery_own:
  assumes "table_inv m" and "owner \<noteq> 0"
    and "\<forall>e\<in>set (table_locks m). ownerT e = owner \<longrightarrow> pidT e = pid"
  shows "sqlite3rowlockIpcLockTableQuery m owner iTable =
    Some (case table_abs m (iTable, pid, owner) of None \<Rightarrow> NOT_LOCKED | Some l \<Rightarrow> l)"
proof (cases rule: table_query [OF assms(1), of iTable owner])
  case (1 e)
  then have "tableKey e = (iTable, pid, owner)" using assms(2,3) by (auto simp: tableKey_def tableMatches_def)
  then have "table_abs m (iTable, pid, owner) = Some (eLockT e)" using 1 table_abs_Some [OF assms(1)] by blast
  with 1 show ?thesis by simp
next
  case 2
  then have "table_abs m (iTable, pid, owner) = None"
    by (auto simp: table_abs_None tableKey_def tableMatches_def)
  with 2 show ?thesis by simp
qed

theorem LockTableQuery_own_witness:
  "sqlite3rowlockIpcLockTableQuery tableDemo 20 5 = Some WRITE_LOCK"
  using LockTableQuery_own [OF tableDemo_inv, of 20 2 5] by (simp add: tableDemo_locks tableDemo_abs)

text \<open>
  The cleanup of table locks for every process (process id 0) does not end as soon as
  the lock table holds a lock of another process: the inner loop selects that
  lock, but the function it calls searches for locks of the running process only.
\<close>

theorem UnlockTablesAll_diverges:
  assumes "table_inv m" and "self \<noteq> 0"
    and "\<forall>e\<in>set (table_locks m). pidT e \<noteq> self" and "table_locks m \<noteq> []"
  shows "sqlite3rowlockIpcUnlockTablesProcCore m self 0 0 MODE_UNLOCK_TRANS = None"
  by (rule table_cleaner_diverges [OF assms])

theorem UnlockTablesAll_diverges_witness:
  "sqlite3rowlockIpcUnlockTablesProcCore tableDemo 9 0 0 MODE_UNLOCK_TRANS = None"
  using UnlockTablesAll_diverges [OF tableDemo_inv, of 9] by (simp add: tableDemo_locks)

subsection \<open>The flag of a lock that moves\<close>

text \<open>The demonstration table after process 1 has released its lock.\<close>

definition tableMoved :: TableArea where
  "tableMoved = tableDemo\<lparr>nLockT := 1, pDataT := [zeroTable,
       \<lparr>hashT = 1, iTableT = 5, pidT = 2, ownerT = 20, eLockT = WRITE_LOCK, inUseT = 0\<rparr>,
       zeroTable\<lparr>inUseT := 1\<rparr>, zeroTable]\<rparr>"

lemma tableDemo_slots:
  "tableClassElemCount tableDemo = 4" "tableClassElemGet tableDemo 0 = zeroTable"
  "tableClassElemGet tableDemo (Suc 0) =
     \<lparr>hashT = 1, iTableT = 5, pidT = 1, ownerT = 10, eLockT = WRITE_LOCK, inUseT = 0\<rparr>"
  "tableClassElemGet tableDemo 2 =
     \<lparr>hashT = 1, iTableT = 5, pidT = 2, ownerT = 20, eLockT = WRITE_LOCK, inUseT = 1\<rparr>"
  "tableClassElemGet tableDemo 3 = zeroTable"
  by (simp_all add: tableDemo_def tableClassElemCount_def tableClassElemGet_def)

lemma tableDemo_index:
  "tableClassIndexNext tableDemo (Suc 0) = 2" "tableClassIndexNext tableDemo 2 = 3"
  "tableClassIndexNext tableDemo 0 = 1" "tableClassIndexPrev tableDemo (Suc 0) = 0"
  "tableClassIndexPrev tableDemo 2 = 1" "tableClassIndexPrev tableDemo 3 = 2"
  by (simp_all add: tableClassIndexNext_def tableClassIndexPrev_def wrap64_def sub64_def tableDemo_slots(1))

lemma tableDemo_delete: "rowlockIpcDelete tableClass tableDemo (Suc 0) (Suc 0) 2 = Some (tableMoved\<lparr>nLockT := 2\<rparr>)"
proof -
  have "rowlockIpcDelete tableClass tableDemo (Suc 0) (Suc 0) 2 =
      rowlockIpcDelete tableClass (tableClassElemCopy tableDemo (Suc 0) 2) (Suc 0) 2 2"
    by (subst rowlockIpcDelete.simps, subst searchEmptyPrev.simps, subst searchMoving.simps)
      (simp add: tableDemo_index tableDemo_slots tableClassIsValid_def zeroTable_def xIsTarget_def
        isTargetPattern1and2_def tableClassElemHash_def)
  also have "\<dots> = Some (tableMoved\<lparr>nLockT := 2\<rparr>)"
    by (subst rowlockIpcDelete.simps, subst searchEmptyPrev.simps, subst searchMoving.simps)
      (simp add: tableClass_defs tableDemo_def tableMoved_def zeroTable_def Let_def sub64_def wrap64_def)
  finally show ?thesis .
qed

lemma tableDemo_unlock: "sqlite3rowlockIpcUnlockTable tableDemo 1 10 5 = Some tableMoved"
proof -
  have h: "tableClassCalcHash tableDemo 5 = Suc 0" using tableDemo_hash by (simp add: tableDemo_def)
  have "rowlockIpcSearch tableClass tableDemo (zeroTable\<lparr>iTableT := 5, ownerT := 10, pidT := 1\<rparr>) (Suc 0) = Some (Found 1)"
    unfolding rowlockIpcSearch_def
    by (subst rowlockIpcSearch_loop.simps)
      (simp add: tableDemo_slots tableClassIsValid_def tableClassElemIsTarget_def)
  moreover have "searchEmptyNext tableClass tableDemo (Suc 0) 2 = Some 3"
    by (subst searchEmptyNext.simps, subst searchEmptyNext.simps)
      (simp add: tableDemo_index tableDemo_slots tableClassIsValid_def zeroTable_def)
  ultimately show ?thesis
    unfolding sqlite3rowlockIpcUnlockTable_def sqlite3rowlockIpcUnlockTableCore_def
    by (simp add: h tableDemo_index tableDemo_slots tableDemo_delete tableClassIsValid_def)
      (simp add: tableMoved_def sub64_def wrap64_def)
qed

lemma tableMoved_inv: "table_inv tableMoved"
  using table_unlock_own [OF tableDemo_inv, of 1 10 5] tableDemo_unlock by simp

lemma tableMoved_locks:
  "table_locks tableMoved = [\<lparr>hashT = 1, iTableT = 5, pidT = 2, ownerT = 20, eLockT = WRITE_LOCK, inUseT = 0\<rparr>]"
  by (simp add: table_locks_def tableMoved_def tableClassIsValid_def zeroTable_def)

lemma tableDemo_commit:
  "\<exists>prev m'. sqlite3rowlockIpcLockTable tableDemo 3 30 5 EXCLSV_LOCK MODE_LOCK_COMMIT = Some (SQLITE_LOCKED, prev, m')"
proof -
  have c: "tableConflict tableDemo 3 30 5 EXCLSV_LOCK MODE_LOCK_COMMIT"
    by (simp add: tableConflict_def tableDemo_locks lockConflict_def)
  obtain rc prev m' where r: "sqlite3rowlockIpcLockTable tableDemo 3 30 5 EXCLSV_LOCK MODE_LOCK_COMMIT = Some (rc, prev, m')"
    "lock_outcome (table_abs tableDemo) (tableConflict tableDemo 3 30 5 EXCLSV_LOCK MODE_LOCK_COMMIT)
      (nLockT tableDemo < nElementT tableDemo - 1) (5, 3, 30) EXCLSV_LOCK MODE_LOCK_COMMIT rc prev (table_abs m')"
    using table_lock_refines [OF tableDemo_inv, of 5 3 30 EXCLSV_LOCK MODE_LOCK_COMMIT] by auto
  from r(2) have "rc = SQLITE_LOCKED" using c by cases (auto simp: tableDemo_abs)
  with r(1) show ?thesis by blast
qed

lemma tableMoved_commit:
  "\<exists>prev m'. sqlite3rowlockIpcLockTable tableMoved 3 30 5 EXCLSV_LOCK MODE_LOCK_COMMIT = Some (SQLITE_OK, prev, m')"
proof -
  have c: "\<not> tableConflict tableMoved 3 30 5 EXCLSV_LOCK MODE_LOCK_COMMIT"
    by (simp add: tableConflict_def tableMoved_locks lockConflict_def)
  have room: "nLockT tableMoved < nElementT tableMoved - 1" by (simp add: tableMoved_def tableDemo_def)
  obtain rc prev m' where r: "sqlite3rowlockIpcLockTable tableMoved 3 30 5 EXCLSV_LOCK MODE_LOCK_COMMIT = Some (rc, prev, m')"
    "lock_outcome (table_abs tableMoved) (tableConflict tableMoved 3 30 5 EXCLSV_LOCK MODE_LOCK_COMMIT)
      (nLockT tableMoved < nElementT tableMoved - 1) (5, 3, 30) EXCLSV_LOCK MODE_LOCK_COMMIT rc prev (table_abs m')"
    using table_lock_refines [OF tableMoved_inv, of 5 3 30 EXCLSV_LOCK MODE_LOCK_COMMIT] by auto
  from r(2) have "rc = SQLITE_OK" using c room by cases auto
  with r(1) show ?thesis by blast
qed

text \<open>
  The \<open>inUse\<close> flag is lost when a deletion moves a lock. Process 2 runs a statement under
  a write lock, so a commit of process 3 that asks for the exclusive lock is refused;
  then process 1, whose statement is over, releases its own lock on the table, the
  lock of process 2 moves to the freed slot and takes over that slot's flag 0,
  and the same request of process 3 is granted while the statement of process 2 still runs.
\<close>

lemma inUse_lost_on_move:
  "(\<exists>prev m'. sqlite3rowlockIpcLockTable tableDemo 3 30 5 EXCLSV_LOCK MODE_LOCK_COMMIT = Some (SQLITE_LOCKED, prev, m')) \<and>
   sqlite3rowlockIpcUnlockTable tableDemo 1 10 5 = Some tableMoved \<and>
   table_abs tableMoved (5, 2, 20) = Some WRITE_LOCK \<and>
   (\<exists>prev m'. sqlite3rowlockIpcLockTable tableMoved 3 30 5 EXCLSV_LOCK MODE_LOCK_COMMIT = Some (SQLITE_OK, prev, m'))"
  using tableDemo_commit tableDemo_unlock tableMoved_commit
  by (simp add: table_abs_def tableMoved_locks tableKey_def)

end
