(* ===== verification/Hash_Table.thy ===== *)
theory Hash_Table
  imports Prelude
begin

text \<open>
  The hash tables of \<open>rowlock_hash.c\<close> (64-bit integer keys) and \<open>rowlock_psm_hash.c\<close> (byte
  string keys, in shared memory). Both are the same structure, SQLite's own hash
  table: all elements on one doubly linked list, and, from ten elements on, an array
  of buckets, each of which is a count and a pointer to the first of its elements, which
  follow each other on the list.

  The model is one set of functions over an explicit heap, a map from addresses to
  elements, with two parameters for what the two files do differently: \<open>bidx\<close>, the bucket of
  a key for a table of a given size, and \<open>cmp\<close>, the comparison of keys. A pointer is an
  address, \<open>0\<close> is \<open>NULL\<close>. Reading or writing through a pointer that is not allocated gives
  \<open>None\<close>, and so does a loop that does not end. The results of the allocator, which is not part of
  the sources, are arguments: the address of the new element (0 for a failed
  allocation) and whether the allocations of the key copy and of the bucket array succeed.
\<close>

section \<open>Data\<close>

type_synonym addr = nat

record 'k HashElem =
  nextH :: addr
  prevH :: addr
  dataH :: addr
  keyH :: 'k

record Bucket =
  bcount :: int
  chain :: addr

record HashTab =
  htsize :: nat
  hcount :: nat
  firstH :: addr
  ht :: "Bucket list option"

type_synonym 'k heap = "addr \<rightharpoonup> 'k HashElem"

definition wrap32 :: "nat \<Rightarrow> u32" where
  "wrap32 x = x mod 2 ^ 32"

section \<open>Operations\<close>

definition hashInit :: HashTab where
  "hashInit = \<lparr>htsize = 0, hcount = 0, firstH = 0, ht = None\<rparr>"

partial_function (option) hashClearLoop :: "'k heap \<Rightarrow> addr \<Rightarrow> 'k heap option" where
  "hashClearLoop H elem =
     (if elem = 0 then Some H
      else Option.bind (H elem) (\<lambda>e. hashClearLoop (H(elem := None)) (nextH e)))"

definition hashClear :: "HashTab \<Rightarrow> 'k heap \<Rightarrow> (HashTab \<times> 'k heap) option" where
  "hashClear T H =
     Option.bind (hashClearLoop H (firstH T)) (\<lambda>H'.
       Some (T\<lparr>firstH := 0, ht := None, htsize := 0, hcount := 0\<rparr>, H'))"

text \<open>\<open>insertElement\<close>: \<open>pEntry\<close> is the index of the bucket, or \<open>None\<close> for a null pointer.\<close>

definition bucketHead :: "HashTab \<Rightarrow> nat option \<Rightarrow> addr" where
  "bucketHead T pEntry =
     (case pEntry of
        None \<Rightarrow> 0
      | Some b \<Rightarrow> if bcount (the (ht T) ! b) \<noteq> 0 then chain (the (ht T) ! b) else 0)"

definition bucketPush :: "HashTab \<Rightarrow> nat option \<Rightarrow> addr \<Rightarrow> HashTab" where
  "bucketPush T pEntry pNew =
     (case pEntry of
        None \<Rightarrow> T
      | Some b \<Rightarrow> T\<lparr>ht := Some ((the (ht T))[b := \<lparr>bcount = bcount (the (ht T) ! b) + 1, chain = pNew\<rparr>])\<rparr>)"

definition insertElement ::
  "HashTab \<Rightarrow> 'k heap \<Rightarrow> nat option \<Rightarrow> addr \<Rightarrow> (HashTab \<times> 'k heap) option" where
  "insertElement T H pEntry pNew =
     (let pHead = bucketHead T pEntry; T1 = bucketPush T pEntry pNew in
      if pEntry \<noteq> None \<and> \<not> the pEntry < length (the (ht T)) then None
      else if pHead \<noteq> 0 then
        Option.bind (H pHead) (\<lambda>head.
        Option.bind (H pNew) (\<lambda>new.
          let H1 = H(pNew \<mapsto> new\<lparr>nextH := pHead, prevH := prevH head\<rparr>) in
          Option.bind
            (if prevH head \<noteq> 0
             then Option.bind (H1 (prevH head)) (\<lambda>p. Some (T1, H1(prevH head \<mapsto> p\<lparr>nextH := pNew\<rparr>)))
             else Some (T1\<lparr>firstH := pNew\<rparr>, H1)) (\<lambda>(T2, H2).
          Option.bind (H2 pHead) (\<lambda>head'.
            Some (T2, H2(pHead \<mapsto> head'\<lparr>prevH := pNew\<rparr>))))))
      else
        Option.bind (H pNew) (\<lambda>new.
          let H1 = H(pNew \<mapsto> new\<lparr>nextH := firstH T1\<rparr>) in
          Option.bind
            (if firstH T1 \<noteq> 0
             then Option.bind (H1 (firstH T1)) (\<lambda>f. Some (H1(firstH T1 \<mapsto> f\<lparr>prevH := pNew\<rparr>)))
             else Some H1) (\<lambda>H2.
          Option.bind (H2 pNew) (\<lambda>new'.
            Some (T1\<lparr>firstH := pNew\<rparr>, H2(pNew \<mapsto> new'\<lparr>prevH := 0\<rparr>))))))"

partial_function (option) rehashLoop ::
  "('k \<Rightarrow> nat \<Rightarrow> nat) \<Rightarrow> nat \<Rightarrow> HashTab \<Rightarrow> 'k heap \<Rightarrow> addr \<Rightarrow> (HashTab \<times> 'k heap) option" where
  "rehashLoop bidx nsize T H elem =
     (if elem = 0 then Some (T, H)
      else Option.bind (H elem) (\<lambda>e.
           Option.bind (insertElement T H (Some (bidx (keyH e) nsize)) elem) (\<lambda>(T', H').
             rehashLoop bidx nsize T' H' (nextH e))))"

text \<open>
  \<open>rehash\<close>, with the default soft limit of 1024 bytes for one allocation (64 buckets of 16
  bytes). The first result tells whether the table was resized.
\<close>

definition rehash ::
  "('k \<Rightarrow> nat \<Rightarrow> nat) \<Rightarrow> HashTab \<Rightarrow> 'k heap \<Rightarrow> nat \<Rightarrow> bool \<Rightarrow> (bool \<times> HashTab \<times> 'k heap) option" where
  "rehash bidx T H new_size htOk =
     (let nsize = (if new_size * 16 > 1024 then 1024 div 16 else new_size) in
      if nsize = htsize T then Some (False, T, H)
      else if \<not> htOk then Some (False, T, H)
      else Option.bind
        (rehashLoop bidx nsize
          (T\<lparr>ht := Some (replicate nsize \<lparr>bcount = 0, chain = 0\<rparr>), htsize := nsize, firstH := 0\<rparr>) H (firstH T))
        (\<lambda>(T', H'). Some (True, T', H')))"

text \<open>The search loop; address 0 stands for the static null element.\<close>

partial_function (option) findElementLoop ::
  "('k \<Rightarrow> 'k \<Rightarrow> bool) \<Rightarrow> 'k heap \<Rightarrow> 'k \<Rightarrow> int \<Rightarrow> addr \<Rightarrow> addr option" where
  "findElementLoop cmp H k n elem =
     (if n = 0 then Some 0
      else Option.bind (H elem) (\<lambda>e.
        if cmp (keyH e) k then Some elem
        else findElementLoop cmp H k (n - 1) (nextH e)))"

definition findElementWithHash ::
  "('k \<Rightarrow> nat \<Rightarrow> nat) \<Rightarrow> ('k \<Rightarrow> 'k \<Rightarrow> bool) \<Rightarrow> HashTab \<Rightarrow> 'k heap \<Rightarrow> 'k \<Rightarrow> (nat \<times> addr) option" where
  "findElementWithHash bidx cmp T H k =
     (case ht T of
        Some bs \<Rightarrow>
          (let h = bidx k (htsize T) in
           if h < length bs
           then map_option (Pair h) (findElementLoop cmp H k (bcount (bs ! h)) (chain (bs ! h)))
           else None)
      | None \<Rightarrow> map_option (Pair 0) (findElementLoop cmp H k (int (hcount T)) (firstH T)))"

definition removeElementGivenHash ::
  "HashTab \<Rightarrow> 'k heap \<Rightarrow> addr \<Rightarrow> nat \<Rightarrow> (HashTab \<times> 'k heap) option" where
  "removeElementGivenHash T H elem h =
     Option.bind (H elem) (\<lambda>e.
     Option.bind
       (if prevH e \<noteq> 0
        then Option.bind (H (prevH e)) (\<lambda>p. Some (T, H(prevH e \<mapsto> p\<lparr>nextH := nextH e\<rparr>)))
        else Some (T\<lparr>firstH := nextH e\<rparr>, H)) (\<lambda>(T1, H1).
     Option.bind
       (if nextH e \<noteq> 0
        then Option.bind (H1 (nextH e)) (\<lambda>n. Some (H1(nextH e \<mapsto> n\<lparr>prevH := prevH e\<rparr>)))
        else Some H1) (\<lambda>H2.
     Option.bind
       (case ht T1 of
          None \<Rightarrow> Some T1
        | Some bs \<Rightarrow>
            if h < length bs
            then Some (T1\<lparr>ht := Some (bs[h := \<lparr>bcount = bcount (bs ! h) - 1,
                   chain = (if chain (bs ! h) = elem then nextH e else chain (bs ! h))\<rparr>])\<rparr>)
            else None) (\<lambda>T2.
       let H3 = H2(elem := None); T3 = T2\<lparr>hcount := wrap32 (hcount T2 + 2 ^ 32 - 1)\<rparr> in
       if hcount T3 = 0 then hashClear T3 H3 else Some (T3, H3)))))"

definition hashFind ::
  "('k \<Rightarrow> nat \<Rightarrow> nat) \<Rightarrow> ('k \<Rightarrow> 'k \<Rightarrow> bool) \<Rightarrow> HashTab \<Rightarrow> 'k heap \<Rightarrow> 'k \<Rightarrow> addr option" where
  "hashFind bidx cmp T H k =
     Option.bind (findElementWithHash bidx cmp T H k) (\<lambda>(h, a).
       if a = 0 then Some 0 else Option.bind (H a) (\<lambda>e. Some (dataH e)))"

text \<open>
  \<open>Insert\<close>: the result is the returned data pointer with the table and the heap. A null
  \<open>d\<close> removes the element.
\<close>

definition hashInsert ::
  "('k \<Rightarrow> nat \<Rightarrow> nat) \<Rightarrow> ('k \<Rightarrow> 'k \<Rightarrow> bool) \<Rightarrow> HashTab \<Rightarrow> 'k heap \<Rightarrow> 'k \<Rightarrow> addr \<Rightarrow>
   addr \<Rightarrow> bool \<Rightarrow> bool \<Rightarrow> (addr \<times> HashTab \<times> 'k heap) option" where
  "hashInsert bidx cmp T H k d newElem keyOk htOk =
     Option.bind (findElementWithHash bidx cmp T H k) (\<lambda>(h, a).
     Option.bind (if a = 0 then Some 0 else Option.bind (H a) (\<lambda>e. Some (dataH e))) (\<lambda>old.
       if old \<noteq> 0 then
         (if d = 0 then
            Option.bind (removeElementGivenHash T H a h) (\<lambda>(T', H'). Some (old, T', H'))
          else
            Option.bind (H a) (\<lambda>e.
              if keyOk then Some (old, T, H(a \<mapsto> e\<lparr>dataH := d, keyH := k\<rparr>))
              else Some (d, T, H(a \<mapsto> e\<lparr>dataH := d\<rparr>))))
       else if d = 0 then Some (0, T, H)
       else if newElem = 0 then Some (d, T, H)
       else if \<not> keyOk then Some (d, T, H)
       else
         (let H1 = H(newElem \<mapsto> \<lparr>nextH = 0, prevH = 0, dataH = d, keyH = k\<rparr>);
              T1 = T\<lparr>hcount := wrap32 (hcount T + 1)\<rparr> in
          Option.bind
            (if hcount T1 \<ge> 10 \<and> hcount T1 > wrap32 (2 * htsize T1)
             then rehash bidx T1 H1 (wrap32 (hcount T1 * 2)) htOk
             else Some (False, T1, H1)) (\<lambda>(resized, T2, H2).
          let h' = (if resized then bidx k (htsize T2) else h) in
          Option.bind (insertElement T2 H2 (if ht T2 = None then None else Some h') newElem) (\<lambda>(T3, H3).
            Some (0, T3, H3))))))"

text \<open>\<open>sqlite3HashBlobRemoveElement\<close>: removal of an element found by traversing the list.\<close>

definition hashRemoveElement ::
  "('k \<Rightarrow> nat \<Rightarrow> nat) \<Rightarrow> HashTab \<Rightarrow> 'k heap \<Rightarrow> addr \<Rightarrow> (HashTab \<times> 'k heap) option" where
  "hashRemoveElement bidx T H elem =
     (if ht T = None then removeElementGivenHash T H elem 0
      else Option.bind (H elem) (\<lambda>e. removeElementGivenHash T H elem (bidx (keyH e) (htsize T))))"

section \<open>The linked list\<close>

text \<open>
  \<open>dls H p as q\<close>: the addresses \<open>as\<close> are linked in the heap in both directions, with \<open>p\<close> before the
  first and \<open>q\<close> after the last.
\<close>

definition hdq :: "addr list \<Rightarrow> addr \<Rightarrow> addr" where
  "hdq as q = (case as of [] \<Rightarrow> q | a # _ \<Rightarrow> a)"

definition lastq :: "addr list \<Rightarrow> addr \<Rightarrow> addr" where
  "lastq as p = (if as = [] then p else last as)"

fun dls :: "'k heap \<Rightarrow> addr \<Rightarrow> addr list \<Rightarrow> addr \<Rightarrow> bool" where
  "dls H p [] q \<longleftrightarrow> True"
| "dls H p (a # as) q \<longleftrightarrow> a \<noteq> 0 \<and>
     (\<exists>e. H a = Some e \<and> prevH e = p \<and> nextH e = hdq as q) \<and> dls H a as q"

lemma hdq_simps [simp]: "hdq [] q = q" "hdq (a # as) q = a"
  by (simp_all add: hdq_def)

lemma hdq_append: "hdq (xs @ ys) q = hdq xs (hdq ys q)"
  by (cases xs) simp_all

lemma lastq_simps [simp]: "lastq [] p = p" "lastq (xs @ [a]) p = a" "lastq (a # as) p = lastq as a"
  by (simp_all add: lastq_def)

lemma dls_append: "dls H p (xs @ ys) q \<longleftrightarrow> dls H p xs (hdq ys q) \<and> dls H (lastq xs p) ys q"
  by (induction xs arbitrary: p) (auto simp: hdq_append)

lemma dls_frame: "(\<And>a. a \<in> set as \<Longrightarrow> H' a = H a) \<Longrightarrow> dls H' p as q = dls H p as q"
  by (induction as arbitrary: p) auto

lemma dls_upd_other [simp]: "a \<notin> set as \<Longrightarrow> dls (H(a := v)) p as q = dls H p as q"
  by (rule dls_frame) auto

lemma dls_nonzero: "dls H p as q \<Longrightarrow> 0 \<notin> set as"
  by (induction as arbitrary: p) auto

lemma dls_alloc: "dls H p as q \<Longrightarrow> a \<in> set as \<Longrightarrow> \<exists>e. H a = Some e"
  by (induction as arbitrary: p) auto

lemma dls_hd0: "dls H p as 0 \<Longrightarrow> hdq as 0 = 0 \<longleftrightarrow> as = []"
  by (cases as) auto

text \<open>The list seen from one of its elements.\<close>

lemma dls_mid:
  assumes "dls H 0 (xs @ a # ys) 0"
  obtains e where "H a = Some e" "a \<noteq> 0" "prevH e = lastq xs 0" "nextH e = hdq ys 0"
    "dls H 0 xs a" "dls H a ys 0"
  using assms by (auto simp: dls_append)

text \<open>Changing the last link of a segment, and the first back link.\<close>

lemma dls_set_next:
  assumes "dls H p (xs @ [a]) q" "distinct (xs @ [a])" "H a = Some e"
  shows "dls (H(a \<mapsto> e\<lparr>nextH := q'\<rparr>)) p (xs @ [a]) q'"
proof -
  have "dls (H(a \<mapsto> e\<lparr>nextH := q'\<rparr>)) p xs a = dls H p xs a"
    using assms(2) by (intro dls_frame) auto
  with assms show ?thesis by (auto simp: dls_append)
qed

lemma dls_set_prev:
  assumes "dls H p (a # ys) q" "distinct (a # ys)" "H a = Some e"
  shows "dls (H(a \<mapsto> e\<lparr>prevH := p'\<rparr>)) p' (a # ys) q"
proof -
  have "dls (H(a \<mapsto> e\<lparr>prevH := p'\<rparr>)) a ys q = dls H a ys q"
    using assms(2) by (intro dls_frame) auto
  with assms show ?thesis by auto
qed

text \<open>Two heaps that agree on keys and data of the elements of a list.\<close>

definition same_elems :: "'k heap \<Rightarrow> 'k heap \<Rightarrow> addr set \<Rightarrow> bool" where
  "same_elems H H' A \<longleftrightarrow> (\<forall>a\<in>A. \<forall>e. H a = Some e \<longrightarrow> (\<exists>e'. H' a = Some e' \<and> keyH e' = keyH e \<and> dataH e' = dataH e))"

definition key_of :: "'k heap \<Rightarrow> addr \<Rightarrow> 'k" where
  "key_of H a = keyH (the (H a))"

definition data_of :: "'k heap \<Rightarrow> addr \<Rightarrow> addr" where
  "data_of H a = dataH (the (H a))"

lemma same_elemsD:
  assumes "same_elems H H' A" "a \<in> A" "H a \<noteq> None"
  shows "H' a \<noteq> None" "key_of H' a = key_of H a" "data_of H' a = data_of H a"
proof -
  obtain e where e: "H a = Some e" using assms(3) by blast
  then obtain e' where "H' a = Some e'" "keyH e' = keyH e" "dataH e' = dataH e"
    using assms(1,2) unfolding same_elems_def by blast
  with e show "H' a \<noteq> None" "key_of H' a = key_of H a" "data_of H' a = data_of H a"
    by (simp_all add: key_of_def data_of_def)
qed

lemma same_elems_refl: "same_elems H H A"
  by (auto simp: same_elems_def)

lemma same_elems_trans: "same_elems H H' A \<Longrightarrow> same_elems H' H'' A \<Longrightarrow> same_elems H H'' A"
  unfolding same_elems_def by metis

lemma same_elems_free: "same_elems H H' UNIV \<Longrightarrow> same_elems H (H'(a := None)) (- {a})"
  unfolding same_elems_def by simp

lemma same_elems_link:
  "H a = Some e \<Longrightarrow> same_elems H (H(a \<mapsto> e\<lparr>nextH := n\<rparr>)) A"
  "H a = Some e \<Longrightarrow> same_elems H (H(a \<mapsto> e\<lparr>prevH := n\<rparr>)) A"
  "H a = Some e \<Longrightarrow> same_elems H (H(a \<mapsto> e\<lparr>nextH := n, prevH := n'\<rparr>)) A"
  by (auto simp: same_elems_def)

text \<open>Linking a new element between \<open>xs\<close> and \<open>ys\<close>, and removing one.\<close>

definition linked :: "'k heap \<Rightarrow> addr list \<Rightarrow> addr \<Rightarrow> addr list \<Rightarrow> 'k heap \<Rightarrow> bool" where
  "linked H xs a ys H' \<longleftrightarrow> dls H' 0 (xs @ a # ys) 0 \<and> same_elems H H' UNIV \<and>
     (\<forall>b. b \<notin> set (xs @ a # ys) \<longrightarrow> H' b = H b)"

lemma dls_link:
  assumes l: "dls H 0 (xs @ ys) 0" and d: "distinct (xs @ a # ys)" and a: "a \<noteq> 0" "H a = Some e"
    and H1: "H1 = H(a \<mapsto> e\<lparr>nextH := hdq ys 0, prevH := lastq xs 0\<rparr>)"
    and H2: "H2 = (if xs = [] then H1 else H1(last xs \<mapsto> (the (H1 (last xs)))\<lparr>nextH := a\<rparr>))"
    and H3: "H3 = (if ys = [] then H2 else H2(hd ys \<mapsto> (the (H2 (hd ys)))\<lparr>prevH := a\<rparr>))"
  shows "linked H xs a ys H3"
proof -
  have x: "dls H 0 xs (hdq ys 0)" and y: "dls H (lastq xs 0) ys 0" using l by (auto simp: dls_append)
  have x2: "dls H2 0 xs a"
  proof (cases xs rule: rev_cases)
    case (snoc xs' b)
    then obtain eb where eb: "H b = Some eb" using dls_alloc [OF x] by auto
    have "b \<noteq> a" "a \<notin> set xs" using d snoc by auto
    then have "H1 b = Some eb" "dls H1 0 xs (hdq ys 0)"
      using eb x by (simp_all add: H1)
    moreover have "distinct xs" using d by simp
    ultimately show ?thesis using snoc dls_set_next [of H1 0 xs' b "hdq ys 0" eb a] by (simp add: H2)
  qed simp
  have y2: "dls H2 (lastq xs 0) ys 0"
  proof -
    have "H2 b = H b" if "b \<in> set ys" for b
      using that d by (cases xs rule: rev_cases) (auto simp: H2 H1)
    then show ?thesis using y dls_frame by metis
  qed
  have a2: "H2 a = Some (e\<lparr>nextH := hdq ys 0, prevH := lastq xs 0\<rparr>)"
    using d by (auto simp: H2 H1)
  have y3: "dls H3 a ys 0"
  proof (cases ys)
    case (Cons b ys')
    then obtain eb where "H2 b = Some eb" using dls_alloc [OF y2] by auto
    with Cons y2 d show ?thesis using dls_set_prev [of H2 "lastq xs 0" b ys' 0 eb a] by (simp add: H3)
  qed simp
  have "dls H3 0 xs a"
  proof -
    have "H3 b = H2 b" if "b \<in> set xs" for b using that d by (cases ys) (auto simp: H3)
    then show ?thesis using x2 dls_frame by metis
  qed
  moreover have "H3 a = H2 a" using d by (cases ys) (auto simp: H3)
  ultimately have "dls H3 0 (xs @ a # ys) 0" using y3 a2 a(1) by (auto simp: dls_append)
  moreover have "same_elems H H3 UNIV"
  proof -
    have s1: "same_elems H H1 UNIV" unfolding H1 by (rule same_elems_link) (rule a)
    have s2: "same_elems H1 H2 UNIV"
    proof (cases "xs = []")
      case False
      then obtain el where "H (last xs) = Some el" using dls_alloc [OF x] by (meson last_in_set)
      then have "H1 (last xs) \<noteq> None" by (simp add: H1)
      then show ?thesis using False by (auto simp: H2 intro: same_elems_link)
    qed (simp add: H2 same_elems_refl)
    have s3: "same_elems H2 H3 UNIV"
    proof (cases "ys = []")
      case False
      then obtain el where "H2 (hd ys) = Some el" using dls_alloc [OF y2] by (meson hd_in_set)
      then show ?thesis using False by (auto simp: H3 intro: same_elems_link)
    qed (simp add: H3 same_elems_refl)
    show ?thesis by (rule same_elems_trans [OF s1 same_elems_trans [OF s2 s3]])
  qed
  moreover have "H3 b = H b" if "b \<notin> set (xs @ a # ys)" for b
    using that by (cases xs rule: rev_cases; cases ys) (simp_all add: H3 H2 H1)
  ultimately show ?thesis by (simp add: linked_def)
qed

lemma insertElement_ok:
  assumes l: "dls H 0 (xs @ ys) 0" and d: "distinct (xs @ a # ys)" and a: "a \<noteq> 0" "H a = Some e"
    and f: "firstH T = hdq (xs @ ys) 0"
    and b: "\<And>b. pEntry = Some b \<Longrightarrow> b < length (the (ht T))"
    and head: "bucketHead T pEntry = (if xs = [] \<and> bucketHead T pEntry = 0 then 0 else hdq ys 0)"
      "bucketHead T pEntry = 0 \<longrightarrow> xs = []"
  obtains H' where "insertElement T H pEntry a =
      Some ((bucketPush T pEntry a)\<lparr>firstH := hdq (xs @ [a]) 0\<rparr>, H')" "linked H xs a ys H'"
proof -
  define H1 where "H1 = H(a \<mapsto> e\<lparr>nextH := hdq ys 0, prevH := lastq xs 0\<rparr>)"
  define H2 where "H2 = (if xs = [] then H1 else H1(last xs \<mapsto> (the (H1 (last xs)))\<lparr>nextH := a\<rparr>))"
  define H3 where "H3 = (if ys = [] then H2 else H2(hd ys \<mapsto> (the (H2 (hd ys)))\<lparr>prevH := a\<rparr>))"
  note link = dls_link [OF l d a H1_def H2_def H3_def]
  have x: "dls H 0 xs (hdq ys 0)" and y: "dls H (lastq xs 0) ys 0" using l by (auto simp: dls_append)
  have fp: "firstH (bucketPush T pEntry a) = firstH T" by (simp add: bucketPush_def split: option.splits)
  have ok: "\<not> (pEntry \<noteq> None \<and> \<not> the pEntry < length (the (ht T)))" using b by (cases pEntry) auto
  have "insertElement T H pEntry a = Some ((bucketPush T pEntry a)\<lparr>firstH := hdq (xs @ [a]) 0\<rparr>, H3)"
  proof (cases "bucketHead T pEntry = 0")
    case True
    then have xs: "xs = []" using head(2) by simp
    have first: "firstH (bucketPush T pEntry a) = hdq ys 0" using f xs fp by simp
    show ?thesis
    proof (cases ys)
      case Nil
      have "H(a \<mapsto> e\<lparr>nextH := 0\<rparr>, a \<mapsto> e\<lparr>nextH := 0, prevH := 0\<rparr>) = H3"
        by (simp add: H3_def H2_def H1_def xs Nil)
      with True ok a first Nil xs show ?thesis by (simp add: insertElement_def Let_def)
    next
      case (Cons c ys')
      have c: "c \<noteq> 0" "c \<noteq> a" using dls_nonzero [OF l] d Cons by auto
      obtain ec where ec: "H c = Some ec" using dls_alloc [OF y] Cons by auto
      have "(H(a \<mapsto> e\<lparr>nextH := c\<rparr>))(c \<mapsto> ec\<lparr>prevH := a\<rparr>, a \<mapsto> e\<lparr>nextH := c, prevH := 0\<rparr>) = H3"
        using c ec by (auto simp: H3_def H2_def H1_def xs Cons fun_eq_iff)
      with True ok a first Cons xs c ec show ?thesis by (simp add: insertElement_def Let_def)
    qed
  next
    case False
    then have hd: "bucketHead T pEntry = hdq ys 0" using head(1) by (auto split: if_splits)
    with False obtain c ys' where ys: "ys = c # ys'" by (cases ys) auto
    have c: "c \<noteq> 0" "c \<noteq> a" "c \<notin> set xs" using dls_nonzero [OF l] d ys by auto
    obtain ec where ec: "H c = Some ec" "prevH ec = lastq xs 0" using y ys by auto
    show ?thesis
    proof (cases xs rule: rev_cases)
      case Nil
      have "(H(a \<mapsto> e\<lparr>nextH := c, prevH := 0\<rparr>))(c \<mapsto> ec\<lparr>prevH := a\<rparr>) = H3"
        using c ec by (auto simp: H3_def H2_def H1_def Nil ys fun_eq_iff)
      with False hd ok a ys c ec Nil show ?thesis by (simp add: insertElement_def Let_def)
    next
      case (snoc xs' g)
      have g: "g \<noteq> 0" "g \<noteq> a" "g \<noteq> c" using dls_nonzero [OF l] d ys snoc by auto
      obtain eg where eg: "H g = Some eg" using dls_alloc [OF x] snoc by auto
      have h3: "(H(a \<mapsto> e\<lparr>nextH := c, prevH := g\<rparr>))(g \<mapsto> eg\<lparr>nextH := a\<rparr>, c \<mapsto> ec\<lparr>prevH := a\<rparr>) = H3"
        using c g ec eg by (auto simp: H3_def H2_def H1_def snoc ys fun_eq_iff)
      have "firstH (bucketPush T pEntry a) = hdq (xs @ [a]) 0"
        using f fp snoc by (cases xs') simp_all
      then have "(bucketPush T pEntry a)\<lparr>firstH := hdq (xs @ [a]) 0\<rparr> = bucketPush T pEntry a" by simp
      with False hd ok a ys c ec g eg snoc h3 show ?thesis by (simp add: insertElement_def Let_def)
    qed
  qed
  then show thesis using link by (rule that)
qed

section \<open>Unlinking\<close>

definition unlinked :: "'k heap \<Rightarrow> addr list \<Rightarrow> addr \<Rightarrow> addr list \<Rightarrow> 'k heap \<Rightarrow> bool" where
  "unlinked H xs a ys H' \<longleftrightarrow> dls H' 0 (xs @ ys) 0 \<and> same_elems H H' (- {a}) \<and> H' a = None \<and>
     (\<forall>b. b \<notin> set (xs @ a # ys) \<longrightarrow> H' b = H b)"

lemma dls_unlink:
  assumes l: "dls H 0 (xs @ a # ys) 0" and d: "distinct (xs @ a # ys)"
    and H1: "H1 = (if xs = [] then H else H(last xs \<mapsto> (the (H (last xs)))\<lparr>nextH := hdq ys 0\<rparr>))"
    and H2: "H2 = (if ys = [] then H1 else H1(hd ys \<mapsto> (the (H1 (hd ys)))\<lparr>prevH := lastq xs 0\<rparr>))"
  shows "unlinked H xs a ys (H2(a := None))"
proof -
  have x: "dls H 0 xs a" and y: "dls H a ys 0" using l by (auto simp: dls_append)
  have x1: "dls H1 0 xs (hdq ys 0)"
  proof (cases xs rule: rev_cases)
    case (snoc xs' b)
    then obtain eb where eb: "H b = Some eb" using dls_alloc [OF x] by auto
    with snoc x d show ?thesis using dls_set_next [of H 0 xs' b a eb "hdq ys 0"] by (simp add: H1)
  qed simp
  have y1: "dls H1 a ys 0"
  proof -
    have "H1 b = H b" if "b \<in> set ys" for b
      using that d by (cases xs rule: rev_cases) (auto simp: H1)
    then show ?thesis using y dls_frame by metis
  qed
  have y2: "dls H2 (lastq xs 0) ys 0"
  proof (cases ys)
    case (Cons b ys')
    then obtain eb where "H1 b = Some eb" using dls_alloc [OF y1] by auto
    with Cons y1 d show ?thesis using dls_set_prev [of H1 a b ys' 0 eb "lastq xs 0"] by (simp add: H2)
  qed simp
  have x2: "dls H2 0 xs (hdq ys 0)"
  proof -
    have "H2 b = H1 b" if "b \<in> set xs" for b using that d by (cases ys) (auto simp: H2)
    then show ?thesis using x1 dls_frame by metis
  qed
  have "dls (H2(a := None)) 0 (xs @ ys) 0" using x2 y2 d by (simp add: dls_append)
  moreover have "same_elems H (H2(a := None)) (- {a})"
  proof -
    have s1: "same_elems H H1 UNIV"
    proof (cases "xs = []")
      case False
      then obtain el where "H (last xs) = Some el" using dls_alloc [OF x] by (meson last_in_set)
      then show ?thesis using False by (auto simp: H1 intro: same_elems_link)
    qed (simp add: H1 same_elems_refl)
    have s2: "same_elems H1 H2 UNIV"
    proof (cases "ys = []")
      case False
      then obtain el where "H1 (hd ys) = Some el" using dls_alloc [OF y1] by (meson hd_in_set)
      then show ?thesis using False by (auto simp: H2 intro: same_elems_link)
    qed (simp add: H2 same_elems_refl)
    show ?thesis by (rule same_elems_free [OF same_elems_trans [OF s1 s2]])
  qed
  moreover have "(H2(a := None)) b = H b" if "b \<notin> set (xs @ a # ys)" for b
    using that by (cases xs rule: rev_cases; cases ys) (simp_all add: H2 H1)
  ultimately show ?thesis by (simp add: unlinked_def)
qed

text \<open>Releasing every element of a list.\<close>

lemma hashClearLoop_ok:
  "dls H p as 0 \<Longrightarrow> distinct as \<Longrightarrow> hashClearLoop H (hdq as 0) = Some (\<lambda>a. if a \<in> set as then None else H a)"
proof (induction as arbitrary: H p)
  case Nil
  then show ?case by (subst hashClearLoop.simps) simp
next
  case (Cons a as)
  then obtain e where e: "a \<noteq> 0" "H a = Some e" "nextH e = hdq as 0" "dls H a as 0" by auto
  have "hashClearLoop H a = hashClearLoop (H(a := None)) (hdq as 0)"
    using e by (subst hashClearLoop.simps) simp
  moreover have "dls (H(a := None)) a as 0" "distinct as" using e(4) Cons.prems(2) by simp_all
  note Cons.IH [OF this]
  ultimately show ?case by (auto simp: fun_eq_iff)
qed

lemma hashClear_ok:
  assumes "dls H 0 as 0" "distinct as" "firstH T = hdq as 0"
  shows "hashClear T H = Some (hashInit, \<lambda>a. if a \<in> set as then None else H a)"
  using hashClearLoop_ok [OF assms(1,2)] assms(3) by (simp add: hashClear_def hashInit_def)


section \<open>The elements of a bucket are contiguous\<close>

definition contig :: "('a \<Rightarrow> bool) \<Rightarrow> 'a list \<Rightarrow> bool" where
  "contig P as \<longleftrightarrow> (\<exists>u v w. as = u @ v @ w \<and> (\<forall>x\<in>set u. \<not> P x) \<and> (\<forall>x\<in>set v. P x) \<and> (\<forall>x\<in>set w. \<not> P x))"

lemma contigI:
  "as = u @ v @ w \<Longrightarrow> (\<And>x. x \<in> set u \<Longrightarrow> \<not> P x) \<Longrightarrow> (\<And>x. x \<in> set v \<Longrightarrow> P x) \<Longrightarrow>
   (\<And>x. x \<in> set w \<Longrightarrow> \<not> P x) \<Longrightarrow> contig P as"
  unfolding contig_def by blast

lemma contigE:
  assumes "contig P as"
  obtains u w where "as = u @ filter P as @ w" "\<And>x. x \<in> set u \<Longrightarrow> \<not> P x" "\<And>x. x \<in> set w \<Longrightarrow> \<not> P x"
proof -
  from assms obtain u v w where uvw: "as = u @ v @ w" "\<forall>x\<in>set u. \<not> P x" "\<forall>x\<in>set v. P x" "\<forall>x\<in>set w. \<not> P x"
    unfolding contig_def by blast
  then have "filter P as = v" by (simp add: filter_id_conv [THEN iffD2] filter_empty_conv)
  with uvw show thesis by (intro that [of u w]) auto
qed

lemma contig_mono: "contig P as \<Longrightarrow> \<forall>x\<in>set as. P x = Q x \<Longrightarrow> contig Q as"
  unfolding contig_def by (elim exE conjE) (intro exI conjI, assumption, auto)

lemma contig_cong: "(\<And>x. x \<in> set as \<Longrightarrow> P x = Q x) \<Longrightarrow> contig P as = contig Q as"
  using contig_mono [of P as Q] contig_mono [of Q as P] by blast

lemma contig_none: "\<forall>x\<in>set as. \<not> P x \<Longrightarrow> contig P as"
  by (rule contigI [of _ as "[]" "[]"]) auto

lemma contig_front: "contig P as \<Longrightarrow> \<not> P a \<Longrightarrow> contig P (a # as)"
  by (elim contigE, rule contigI [of _ "a # _" "filter P as"]) auto

lemma contig_own_front:
  assumes "\<forall>x\<in>set as. \<not> P x" "P a"
  shows "contig P (a # as)"
  using assms by (intro contigI [of _ "[]" "[a]" as]) auto

text \<open>A new element just before an element outside of the group, or at the start of the group.\<close>

lemma contig_insert_other:
  assumes "contig P (xs @ c # zs)" "\<not> P c" "\<not> P a"
  shows "contig P (xs @ a # c # zs)"
proof -
  from assms(1) obtain u v w where l: "xs @ c # zs = u @ v @ w"
    and u: "\<forall>x\<in>set u. \<not> P x" and v: "\<forall>x\<in>set v. P x" and w: "\<forall>x\<in>set w. \<not> P x"
    unfolding contig_def by blast
  from l consider (u) us where "u = xs @ us" "c # zs = us @ v @ w" | (r) us where "xs = u @ us" "us @ c # zs = v @ w"
    by (auto simp: append_eq_append_conv2)
  then show ?thesis
  proof cases
    case u
    show ?thesis
    proof (cases us)
      case Nil
      then have vw: "c # zs = v @ w" using u by simp
      then have "v = []" using v assms(2) by (cases v) auto
      then show ?thesis using u Nil vw w \<open>\<forall>x\<in>set u. \<not> P x\<close> assms(3) by (intro contigI [of _ u "[]" "a # w"]) auto
    next
      case (Cons d us')
      then show ?thesis using u v w \<open>\<forall>x\<in>set u. \<not> P x\<close> assms(3)
        by (intro contigI [of _ "xs @ a # c # us'" v w]) auto
    qed
  next
    case r
    from r(2) consider (v) vs where "v = us @ vs" "c # zs = vs @ w" | (w) vs where "us = v @ vs" "w = vs @ c # zs"
      by (auto simp: append_eq_append_conv2)
    then show ?thesis
    proof cases
      case v
      then have "vs = []" using \<open>\<forall>x\<in>set v. P x\<close> assms(2) by (cases vs) auto
      then show ?thesis using v r u w assms(3) \<open>\<forall>x\<in>set v. P x\<close> by (intro contigI [of _ u v "a # w"]) auto
    next
      case w
      then show ?thesis using r u v assms(3) \<open>\<forall>x\<in>set w. \<not> P x\<close>
        by (intro contigI [of _ u v "vs @ a # c # zs"]) auto
    qed
  qed
qed

lemma contig_remove:
  assumes "contig P (xs @ a # ys)"
  shows "contig P (xs @ ys)"
proof -
  from assms obtain u v w where l: "xs @ a # ys = u @ v @ w"
    and u: "\<forall>x\<in>set u. \<not> P x" and v: "\<forall>x\<in>set v. P x" and w: "\<forall>x\<in>set w. \<not> P x"
    unfolding contig_def by blast
  from l consider (u) us where "u = xs @ us" "a # ys = us @ v @ w" | (r) us where "xs = u @ us" "us @ a # ys = v @ w"
    by (auto simp: append_eq_append_conv2)
  then show ?thesis
  proof cases
    case u
    then consider (n) "us = []" "a # ys = v @ w" | (c) us' where "us = a # us'" "ys = us' @ v @ w" by (cases us) auto
    then show ?thesis
    proof cases
      case n
      then consider "v = []" "w = a # ys" | v' where "v = a # v'" "ys = v' @ w" by (cases v) auto
      then show ?thesis
      proof cases
        case 1
        then show ?thesis using u n w \<open>\<forall>x\<in>set u. \<not> P x\<close> by (intro contigI [of _ xs "[]" ys]) auto
      next
        case (2 v')
        then show ?thesis using u n v w \<open>\<forall>x\<in>set u. \<not> P x\<close> by (intro contigI [of _ xs v' w]) auto
      qed
    next
      case c
      then show ?thesis using u v w \<open>\<forall>x\<in>set u. \<not> P x\<close> by (intro contigI [of _ "xs @ us'" v w]) auto
    qed
  next
    case r
    then consider (v) vs where "v = us @ vs" "a # ys = vs @ w" | (w) vs where "us = v @ vs" "w = vs @ a # ys"
      by (auto simp: append_eq_append_conv2)
    then show ?thesis
    proof cases
      case v
      then consider "vs = []" "w = a # ys" | vs' where "vs = a # vs'" "ys = vs' @ w" by (cases vs) auto
      then show ?thesis
      proof cases
        case 1
        then show ?thesis using r u v w \<open>\<forall>x\<in>set v. P x\<close> by (intro contigI [of _ u us ys]) auto
      next
        case (2 vs')
        then show ?thesis using r u v w \<open>\<forall>x\<in>set v. P x\<close> by (intro contigI [of _ u "us @ vs'" w]) auto
      qed
    next
      case w
      then show ?thesis using r u v \<open>\<forall>x\<in>set w. \<not> P x\<close> by (intro contigI [of _ u v "vs @ ys"]) auto
    qed
  qed
qed


section \<open>Invariant\<close>

text \<open>
  \<open>bucket_ok\<close>: the bucket \<open>B\<close> of number \<open>b\<close> counts and heads the elements with that bucket number.
  \<open>shape_inv\<close> is the structure (list and buckets), \<open>hash_inv\<close> adds the element count and
  that the table is a map: no null data and no two elements with equal keys.
\<close>

definition inBucket :: "('k \<Rightarrow> nat \<Rightarrow> nat) \<Rightarrow> nat \<Rightarrow> 'k heap \<Rightarrow> nat \<Rightarrow> addr \<Rightarrow> bool" where
  "inBucket bidx n H b a \<longleftrightarrow> bidx (key_of H a) n = b"

definition bucket_ok :: "('k \<Rightarrow> nat \<Rightarrow> nat) \<Rightarrow> nat \<Rightarrow> 'k heap \<Rightarrow> addr list \<Rightarrow> nat \<Rightarrow> Bucket \<Rightarrow> bool" where
  "bucket_ok bidx n H as b B \<longleftrightarrow> (let seg = filter (inBucket bidx n H b) as in
     contig (inBucket bidx n H b) as \<and> bcount B = int (length seg) \<and> (seg \<noteq> [] \<longrightarrow> chain B = hd seg))"

definition shape_inv :: "('k \<Rightarrow> nat \<Rightarrow> nat) \<Rightarrow> ('k \<Rightarrow> bool) \<Rightarrow> HashTab \<Rightarrow> 'k heap \<Rightarrow> addr list \<Rightarrow> bool" where
  "shape_inv bidx okkey T H as \<longleftrightarrow> dls H 0 as 0 \<and> distinct as \<and> firstH T = hdq as 0 \<and>
     (\<forall>a\<in>set as. okkey (key_of H a)) \<and>
     (case ht T of None \<Rightarrow> htsize T = 0
      | Some bs \<Rightarrow> length bs = htsize T \<and> htsize T > 0 \<and> htsize T < 2 ^ 31 \<and>
          (\<forall>b<htsize T. bucket_ok bidx (htsize T) H as b (bs ! b)))"

definition hash_inv ::
  "('k \<Rightarrow> nat \<Rightarrow> nat) \<Rightarrow> ('k \<Rightarrow> 'k \<Rightarrow> bool) \<Rightarrow> ('k \<Rightarrow> bool) \<Rightarrow> HashTab \<Rightarrow> 'k heap \<Rightarrow> addr list \<Rightarrow> bool" where
  "hash_inv bidx cmp okkey T H as \<longleftrightarrow> shape_inv bidx okkey T H as \<and> hcount T = length as \<and>
     (\<forall>a\<in>set as. data_of H a \<noteq> 0) \<and>
     (\<forall>a\<in>set as. \<forall>b\<in>set as. cmp (key_of H a) (key_of H b) \<longrightarrow> a = b)"

text \<open>The map the table stands for: the data of the element with that key, or null.\<close>

definition contents :: "('k \<Rightarrow> 'k \<Rightarrow> bool) \<Rightarrow> 'k heap \<Rightarrow> addr list \<Rightarrow> 'k \<Rightarrow> addr" where
  "contents cmp H as k = (case find (\<lambda>a. cmp (key_of H a) k) as of None \<Rightarrow> 0 | Some a \<Rightarrow> data_of H a)"

text \<open>What \<open>Insert\<close> returns and whether it changes the map, by its comment and code.\<close>

definition insertResult :: "addr \<Rightarrow> addr \<Rightarrow> bool \<Rightarrow> bool \<Rightarrow> addr" where
  "insertResult old d elemOk keyOk =
     (if old \<noteq> 0 then (if d \<noteq> 0 \<and> \<not> keyOk then d else old)
      else if d \<noteq> 0 \<and> \<not> (elemOk \<and> keyOk) then d else 0)"

definition insertStores :: "addr \<Rightarrow> addr \<Rightarrow> bool \<Rightarrow> bool \<Rightarrow> bool" where
  "insertStores old d elemOk keyOk \<longleftrightarrow> old \<noteq> 0 \<or> d = 0 \<or> elemOk \<and> keyOk"

lemma contents_none: "\<forall>a\<in>set as. \<not> cmp (key_of H a) k \<Longrightarrow> contents cmp H as k = 0"
  by (simp add: contents_def find_None_iff [THEN iffD2] split: option.split)

lemma bucket_ok_cong_inBucket:
  assumes "\<And>a. a \<in> set as \<Longrightarrow> inBucket bidx n H' b a = inBucket bidx n H b a"
  shows "bucket_ok bidx n H' as b B = bucket_ok bidx n H as b B"
proof -
  have "filter (inBucket bidx n H' b) as = filter (inBucket bidx n H b) as"
    using assms by (intro filter_cong refl)
  moreover have "contig (inBucket bidx n H' b) as = contig (inBucket bidx n H b) as"
    using assms by (intro contig_cong)
  ultimately show ?thesis unfolding bucket_ok_def Let_def by simp
qed

lemma bucket_ok_cong:
  assumes "\<And>a. a \<in> set as \<Longrightarrow> key_of H' a = key_of H a"
  shows "bucket_ok bidx n H' as b B = bucket_ok bidx n H as b B"
  using assms by (intro bucket_ok_cong_inBucket) (simp add: inBucket_def)

section \<open>Search\<close>

lemma findElementLoop_ok:
  "dls H p seg q \<Longrightarrow> findElementLoop cmp H k (int (length seg)) (if seg = [] then c else hd seg) =
     Some (case find (\<lambda>a. cmp (key_of H a) k) seg of None \<Rightarrow> 0 | Some a \<Rightarrow> a)"
proof (induction seg arbitrary: p c)
  case Nil
  then show ?case by (subst findElementLoop.simps) simp
next
  case (Cons a seg)
  then obtain e where e: "H a = Some e" "nextH e = hdq seg q" "dls H a seg q" by auto
  have "hdq seg q = (if seg = [] then q else hd seg)" by (cases seg) simp_all
  moreover note Cons.IH [OF e(3), of q]
  moreover have "findElementLoop cmp H k (int (length (a # seg))) a =
      (if cmp (keyH e) k then Some a else findElementLoop cmp H k (int (length seg)) (nextH e))"
    by (subst findElementLoop.simps) (simp add: e)
  ultimately show ?case using e by (simp add: key_of_def)
qed

lemma find_filter:
  "(\<And>a. a \<in> set as \<Longrightarrow> P a \<Longrightarrow> Q a) \<Longrightarrow> find P (filter Q as) = find P as"
  by (induction as) auto

text \<open>
  For any comparison: the elements that a search reads, all of them as long as there is no bucket array, otherwise those in the bucket of the key, of which it takes the
  first that compares equal. Two comparisons that agree on the elements give the same result.
\<close>

definition scanned :: "('k \<Rightarrow> nat \<Rightarrow> nat) \<Rightarrow> HashTab \<Rightarrow> 'k heap \<Rightarrow> addr list \<Rightarrow> 'k \<Rightarrow> addr list" where
  "scanned bidx T H as k = (case ht T of None \<Rightarrow> as | Some _ \<Rightarrow> filter (inBucket bidx (htsize T) H (bidx k (htsize T))) as)"

lemma findElement_scan:
  assumes i: "shape_inv bidx okkey T H as" and c: "hcount T = length as" and lt: "\<And>n. 0 < n \<Longrightarrow> n < 2 ^ 31 \<Longrightarrow> bidx k n < n"
  shows "findElementWithHash bidx cmp T H k =
    Some (case ht T of None \<Rightarrow> 0 | Some _ \<Rightarrow> bidx k (htsize T),
          case find (\<lambda>a. cmp (key_of H a) k) (scanned bidx T H as k) of None \<Rightarrow> 0 | Some a \<Rightarrow> a)"
proof (cases "ht T")
  case None
  have "firstH T = (if as = [] then 0 else hd as)"
    using i by (cases as) (simp_all add: shape_inv_def)
  moreover have "dls H 0 as 0" using i by (simp add: shape_inv_def)
  note findElementLoop_ok [OF this, where c = 0]
  ultimately show ?thesis using None c by (simp add: findElementWithHash_def scanned_def)
next
  case (Some bs)
  let ?n = "htsize T"
  let ?P = "inBucket bidx ?n H (bidx k ?n)"
  have n: "length bs = ?n" "?n > 0" "?n < 2 ^ 31" and b: "\<And>b. b < ?n \<Longrightarrow> bucket_ok bidx ?n H as b (bs ! b)"
    and l: "dls H 0 as 0"
    using i Some by (auto simp: shape_inv_def)
  have lt: "bidx k ?n < ?n" using lt [OF n(2,3)] .
  note bo = b [OF lt, unfolded bucket_ok_def Let_def]
  then obtain u w where "as = u @ filter ?P as @ w" by (elim conjE contigE) blast
  then have "dls H (lastq u 0) (filter ?P as) (hdq w 0)"
    using l dls_append [of H 0 u "filter ?P as @ w" 0] dls_append [of H "lastq u 0" "filter ?P as" w 0] by simp
  note findElementLoop_ok [OF this, where c = "chain (bs ! bidx k ?n)"]
  moreover have "(if filter ?P as = [] then chain (bs ! bidx k ?n) else hd (filter ?P as)) = chain (bs ! bidx k ?n)"
    using bo by simp
  ultimately show ?thesis using Some bo lt n by (simp add: findElementWithHash_def scanned_def Let_def)
qed

lemma find_agree:
  "(\<And>a. a \<in> set as \<Longrightarrow> P a = Q a) \<Longrightarrow> find P as = find Q as"
  by (induction as) auto

lemma findElement_agree:
  assumes "shape_inv bidx okkey T H as" "hcount T = length as" "\<And>n. 0 < n \<Longrightarrow> n < 2 ^ 31 \<Longrightarrow> bidx k n < n"
    and agree: "\<And>a. a \<in> set as \<Longrightarrow> cmp (key_of H a) k = cmp' (key_of H a) k"
  shows "findElementWithHash bidx cmp T H k = findElementWithHash bidx cmp' T H k"
proof -
  have "find (\<lambda>a. cmp (key_of H a) k) (scanned bidx T H as k) = find (\<lambda>a. cmp' (key_of H a) k) (scanned bidx T H as k)"
    using agree by (intro find_agree) (auto simp: scanned_def split: option.splits)
  then show ?thesis using findElement_scan [OF assms(1-3), of cmp] findElement_scan [OF assms(1-3), of cmp'] by simp
qed

locale hash_keys =
  fixes bidx :: "'k \<Rightarrow> nat \<Rightarrow> nat" and cmp :: "'k \<Rightarrow> 'k \<Rightarrow> bool" and okkey :: "'k \<Rightarrow> bool"
  assumes bidx_lt: "okkey k \<Longrightarrow> 0 < n \<Longrightarrow> n < 2 ^ 31 \<Longrightarrow> bidx k n < n"
    and cmp_bidx: "okkey k \<Longrightarrow> okkey k' \<Longrightarrow> cmp k k' \<Longrightarrow> bidx k n = bidx k' n"
    and cmp_refl: "cmp k k"
    and cmp_sym: "cmp k k' \<Longrightarrow> cmp k' k"
    and cmp_trans: "cmp k k' \<Longrightarrow> cmp k' k'' \<Longrightarrow> cmp k k''"
begin

lemma findElement_ok:
  assumes i: "shape_inv bidx okkey T H as" and c: "hcount T = length as" and k: "okkey k"
  shows "findElementWithHash bidx cmp T H k =
    Some (case ht T of None \<Rightarrow> 0 | Some _ \<Rightarrow> bidx k (htsize T),
          case find (\<lambda>a. cmp (key_of H a) k) as of None \<Rightarrow> 0 | Some a \<Rightarrow> a)"
proof -
  have "find (\<lambda>a. cmp (key_of H a) k) (scanned bidx T H as k) = find (\<lambda>a. cmp (key_of H a) k) as"
  proof (cases "ht T")
    case (Some bs)
    have "\<And>a. a \<in> set as \<Longrightarrow> okkey (key_of H a)" using i by (simp add: shape_inv_def)
    then show ?thesis using Some k cmp_bidx by (simp add: scanned_def) (intro find_filter, simp add: inBucket_def)
  qed (simp add: scanned_def)
  then show ?thesis using findElement_scan [OF i c bidx_lt [OF k]] by simp
qed

end

section \<open>Linking an element into its bucket\<close>

lemma bucket_insert_other:
  assumes "bucket_ok bidx n H (xs @ ys) b B" "\<not> inBucket bidx n H b a"
    and "xs = [] \<or> ys \<noteq> [] \<and> \<not> inBucket bidx n H b (hd ys)"
  shows "bucket_ok bidx n H (xs @ a # ys) b B"
proof -
  have c: "contig (inBucket bidx n H b) (xs @ ys)" using assms(1) by (simp add: bucket_ok_def Let_def)
  have "contig (inBucket bidx n H b) (xs @ a # ys)"
  proof (cases "xs = []")
    case True
    then show ?thesis using contig_front [where P = "inBucket bidx n H b" and a = a and as = ys] assms(2) c by simp
  next
    case False
    then obtain c ys' where "ys = c # ys'" "\<not> inBucket bidx n H b c" using assms(3) by (cases ys) auto
    then show ?thesis using contig_insert_other [of _ xs c ys' a] c assms(2) by simp
  qed
  then show ?thesis using assms(1,2) by (simp add: bucket_ok_def Let_def)
qed

lemma bucket_insert_own:
  assumes "inBucket bidx n H b a" "\<And>x. x \<in> set xs \<Longrightarrow> \<not> inBucket bidx n H b x"
    and "ys = filter (inBucket bidx n H b) ys @ w" "\<And>x. x \<in> set w \<Longrightarrow> \<not> inBucket bidx n H b x"
    and "bucket_ok bidx n H (xs @ ys) b B"
  shows "bucket_ok bidx n H (xs @ a # ys) b \<lparr>bcount = bcount B + 1, chain = a\<rparr>"
proof -
  have "filter (inBucket bidx n H b) xs = []" using assms(2) by (simp add: filter_empty_conv)
  moreover have "contig (inBucket bidx n H b) (xs @ a # ys)"
  proof (rule contigI [of _ xs "a # filter (inBucket bidx n H b) ys" w])
    show "xs @ a # ys = xs @ (a # filter (inBucket bidx n H b) ys) @ w" using assms(3) by simp
  qed (use assms(1,2,4) in auto)
  ultimately show ?thesis using assms(1,5) by (simp add: bucket_ok_def Let_def)
qed

context hash_keys
begin

definition entry :: "HashTab \<Rightarrow> 'k \<Rightarrow> nat option" where
  "entry T k = (case ht T of None \<Rightarrow> None | Some _ \<Rightarrow> Some (bidx k (htsize T)))"

text \<open>The place in the list where the new element goes.\<close>

lemma insert_place:
  assumes i: "shape_inv bidx okkey T H as" and k: "okkey k"
  obtains xs ys where "as = xs @ ys" "bucketHead T (entry T k) = 0 \<longrightarrow> xs = []"
    "bucketHead T (entry T k) \<noteq> 0 \<longrightarrow> bucketHead T (entry T k) = hdq ys 0"
    "\<And>b. entry T k = Some b \<Longrightarrow> b < length (the (ht T)) \<and> b = bidx k (htsize T) \<and>
       (\<forall>x\<in>set xs. \<not> inBucket bidx (htsize T) H b x) \<and>
       (xs = [] \<or> ys \<noteq> [] \<and> inBucket bidx (htsize T) H b (hd ys)) \<and>
       (\<exists>w. ys = filter (inBucket bidx (htsize T) H b) ys @ w \<and> (\<forall>x\<in>set w. \<not> inBucket bidx (htsize T) H b x))"
proof (cases "ht T")
  case None
  then show thesis by (intro that [of "[]" as]) (simp_all add: entry_def bucketHead_def)
next
  case (Some bs)
  let ?n = "htsize T" and ?b = "bidx k (htsize T)"
  let ?P = "inBucket bidx ?n H ?b"
  have n: "length bs = ?n" "?n > 0" "?n < 2 ^ 31" and l: "dls H 0 as 0"
    and bk: "\<And>b. b < ?n \<Longrightarrow> bucket_ok bidx ?n H as b (bs ! b)"
    using i Some by (auto simp: shape_inv_def)
  have lt: "?b < ?n" using bidx_lt [OF k n(2,3)] .
  note bo = bk [OF lt, unfolded bucket_ok_def Let_def]
  have e: "entry T k = Some ?b" using Some by (simp add: entry_def)
  show thesis
  proof (cases "filter ?P as = []")
    case True
    then have "bucketHead T (entry T k) = 0" using bo Some by (simp add: e bucketHead_def)
    moreover have "as = filter ?P as @ as \<and> (\<forall>x\<in>set as. \<not> ?P x)" using True by (simp add: filter_empty_conv)
    ultimately show thesis using e lt n Some by (intro that [of "[]" as]) auto
  next
    case False
    from bo obtain u w where uw: "as = u @ filter ?P as @ w" "\<And>x. x \<in> set u \<Longrightarrow> \<not> ?P x" "\<And>x. x \<in> set w \<Longrightarrow> \<not> ?P x"
      by (elim conjE contigE) blast
    have h: "hd (filter ?P as) \<in> set (filter ?P as)" using False by (rule hd_in_set)
    then have "hd (filter ?P as) \<in> set as" using filter_is_subset by (rule rev_subsetD)
    then have "hd (filter ?P as) \<noteq> 0" using dls_nonzero [OF l] by metis
    then have bh: "bucketHead T (entry T k) = hd (filter ?P as)" "bucketHead T (entry T k) \<noteq> 0"
      using bo False Some by (simp_all add: e bucketHead_def)
    have w0: "filter ?P w = []" using uw(3) by (simp add: filter_empty_conv)
    show thesis
    proof (rule that [of u "filter ?P as @ w"])
      show "as = u @ filter ?P as @ w" by (rule uw(1))
      show "bucketHead T (entry T k) \<noteq> 0 \<longrightarrow> bucketHead T (entry T k) = hdq (filter ?P as @ w) 0"
        using bh False by (cases "filter ?P as") simp_all
      fix b assume "entry T k = Some b"
      then have b: "b = ?b" using e by simp
      have "?P (hd (filter ?P as))" using h by simp
      then have "?P (hd (filter ?P as @ w))" using False by simp
      then show "b < length (the (ht T)) \<and> b = ?b \<and> (\<forall>x\<in>set u. \<not> inBucket bidx ?n H b x) \<and>
       (u = [] \<or> filter ?P as @ w \<noteq> [] \<and> inBucket bidx ?n H b (hd (filter ?P as @ w))) \<and>
       (\<exists>w'. filter ?P as @ w = filter (inBucket bidx ?n H b) (filter ?P as @ w) @ w' \<and>
          (\<forall>x\<in>set w'. \<not> inBucket bidx ?n H b x))"
        using uw(2,3) w0 False Some n lt unfolding b
        by (intro conjI exI [of _ w]) simp_all
    qed (use bh in simp)
  qed
qed

lemma insertElement_shape:
  assumes i: "shape_inv bidx okkey T H as" and a: "a \<notin> set as" "a \<noteq> 0" "H a = Some e" and k: "okkey (keyH e)"
  obtains T' H' as' where "insertElement T H (entry T (keyH e)) a = Some (T', H')"
    "shape_inv bidx okkey T' H' as'" "set as' = insert a (set as)" "length as' = Suc (length as)"
    "same_elems H H' UNIV" "\<forall>b. b \<notin> insert a (set as) \<longrightarrow> H' b = H b"
    "htsize T' = htsize T" "hcount T' = hcount T" "ht T' = None \<longleftrightarrow> ht T = None"
proof -
  let ?E = "entry T (keyH e)" and ?n = "htsize T"
  obtain xs ys where as: "as = xs @ ys" and h0: "bucketHead T ?E = 0 \<longrightarrow> xs = []"
    and h1: "bucketHead T ?E \<noteq> 0 \<longrightarrow> bucketHead T ?E = hdq ys 0"
    and E: "\<And>b. ?E = Some b \<Longrightarrow> b < length (the (ht T)) \<and> b = bidx (keyH e) ?n \<and>
       (\<forall>x\<in>set xs. \<not> inBucket bidx ?n H b x) \<and> (xs = [] \<or> ys \<noteq> [] \<and> inBucket bidx ?n H b (hd ys)) \<and>
       (\<exists>w. ys = filter (inBucket bidx ?n H b) ys @ w \<and> (\<forall>x\<in>set w. \<not> inBucket bidx ?n H b x))"
    using insert_place [OF i k] by blast
  have l: "dls H 0 (xs @ ys) 0" and d: "distinct (xs @ a # ys)" and f: "firstH T = hdq (xs @ ys) 0"
    and ok: "\<And>x. x \<in> set as \<Longrightarrow> okkey (key_of H x)"
    using i a(1) by (auto simp: shape_inv_def as)
  have hd: "bucketHead T ?E = (if xs = [] \<and> bucketHead T ?E = 0 then 0 else hdq ys 0)" using h0 h1 by auto
  obtain H' where ins: "insertElement T H ?E a = Some ((bucketPush T ?E a)\<lparr>firstH := hdq (xs @ [a]) 0\<rparr>, H')"
    and lk: "linked H xs a ys H'"
    by (rule insertElement_ok [OF l d a(2,3) f _ hd h0]) (use E in auto)
  let ?T = "(bucketPush T ?E a)\<lparr>firstH := hdq (xs @ [a]) 0\<rparr>"
  have se: "same_elems H H' UNIV" using lk by (simp add: linked_def)
  have key: "key_of H' x = key_of H x" if "x \<in> insert a (set as)" for x
  proof -
    have "H x \<noteq> None" using that a(3) dls_alloc [OF l] by (auto simp: as)
    then show ?thesis using same_elemsD(2) [OF se] by simp
  qed
  have ka: "key_of H a = keyH e" using a(3) by (simp add: key_of_def)
  have "shape_inv bidx okkey ?T H' (xs @ a # ys)"
  proof -
    have cs: "case ht ?T of None \<Rightarrow> htsize ?T = 0
      | Some bs \<Rightarrow> length bs = htsize ?T \<and> htsize ?T > 0 \<and> htsize ?T < 2 ^ 31 \<and>
          (\<forall>b<htsize ?T. bucket_ok bidx (htsize ?T) H' (xs @ a # ys) b (bs ! b))"
    proof (cases "ht T")
      case None
      then show ?thesis using i by (simp add: bucketPush_def entry_def shape_inv_def)
    next
      case (Some bs)
      let ?b = "bidx (keyH e) ?n"
      have e: "?E = Some ?b" using Some by (simp add: entry_def)
      have n: "length bs = ?n" "?n > 0" "?n < 2 ^ 31" and bk: "\<And>b. b < ?n \<Longrightarrow> bucket_ok bidx ?n H (xs @ ys) b (bs ! b)"
        using i Some by (auto simp: shape_inv_def as)
      have lt: "?b < ?n" using bidx_lt [OF k n(2,3)] .
      have "bucket_ok bidx ?n H (xs @ a # ys) b (bs[?b := \<lparr>bcount = bcount (bs ! ?b) + 1, chain = a\<rparr>] ! b)" if b: "b < ?n" for b
      proof (cases "b = ?b")
        case True
        then obtain w where w: "ys = filter (inBucket bidx ?n H b) ys @ w" "\<And>x. x \<in> set w \<Longrightarrow> \<not> inBucket bidx ?n H b x"
          and x: "\<And>x. x \<in> set xs \<Longrightarrow> \<not> inBucket bidx ?n H b x" using E [of b] e by blast
        have "inBucket bidx ?n H b a" by (simp add: inBucket_def ka True)
        from bucket_insert_own [OF this x w bk [OF b]] show ?thesis using True lt n by simp
      next
        case False
        have "\<not> inBucket bidx ?n H b a" using False by (simp add: inBucket_def ka)
        moreover have "xs = [] \<or> ys \<noteq> [] \<and> \<not> inBucket bidx ?n H b (hd ys)"
          using E [of ?b] e False by (auto simp: inBucket_def)
        ultimately show ?thesis using bucket_insert_other [OF bk [OF b]] False by simp
      qed
      moreover have "bucket_ok bidx ?n H' (xs @ a # ys) b B = bucket_ok bidx ?n H (xs @ a # ys) b B" for b B
        by (rule bucket_ok_cong) (use key as in auto)
      ultimately show ?thesis using Some e n by (simp add: bucketPush_def)
    qed
    have okk: "\<forall>x\<in>set (xs @ a # ys). okkey (key_of H' x)"
      using key ok k ka as by auto
    have "hdq (xs @ [a]) 0 = hdq (xs @ a # ys) 0" by (cases xs) simp_all
    then show ?thesis
      unfolding shape_inv_def using lk d by (intro conjI cs okk) (simp_all add: linked_def)
  qed
  then show thesis
  proof (rule that [OF ins])
    show "\<forall>b. b \<notin> insert a (set as) \<longrightarrow> H' b = H b" using lk by (auto simp: linked_def as)
  qed (use se in \<open>auto simp: as bucketPush_def entry_def split: option.splits\<close>)
qed


text \<open>
  \<open>rehash\<close> takes the elements off the old list one by one; the rest of the old list is only
  linked forward.
\<close>

fun nexts :: "'k heap \<Rightarrow> addr list \<Rightarrow> bool" where
  "nexts H [] \<longleftrightarrow> True"
| "nexts H (a # as) \<longleftrightarrow> a \<noteq> 0 \<and> (\<exists>e. H a = Some e \<and> nextH e = hdq as 0) \<and> nexts H as"

lemma dls_nexts: "dls H p as 0 \<Longrightarrow> nexts H as"
  by (induction as arbitrary: p) auto

lemma nexts_frame: "(\<And>a. a \<in> set as \<Longrightarrow> H' a = H a) \<Longrightarrow> nexts H' as = nexts H as"
  by (induction as) auto

lemma rehashLoop_ok:
  assumes "shape_inv bidx okkey T H as" "ht T \<noteq> None" "nexts H rs" "distinct (as @ rs)"
    and "\<And>a. a \<in> set rs \<Longrightarrow> okkey (key_of H a)"
  shows "\<exists>T' H' as'. rehashLoop bidx (htsize T) T H (hdq rs 0) = Some (T', H') \<and>
    shape_inv bidx okkey T' H' as' \<and> set as' = set as \<union> set rs \<and> length as' = length as + length rs \<and>
    same_elems H H' UNIV \<and> (\<forall>b. b \<notin> set as \<union> set rs \<longrightarrow> H' b = H b) \<and>
    htsize T' = htsize T \<and> hcount T' = hcount T \<and> ht T' \<noteq> None"
  using assms
proof (induction rs arbitrary: T H as)
  case Nil
  then show ?case by (subst rehashLoop.simps) (auto intro!: exI [of _ as] same_elems_refl)
next
  case (Cons a rs)
  then obtain e where e: "a \<noteq> 0" "H a = Some e" "nextH e = hdq rs 0" "nexts H rs" by auto
  have k: "okkey (keyH e)" using Cons.prems(5) [of a] e by (simp add: key_of_def)
  have a: "a \<notin> set as" using Cons.prems(4) by simp
  obtain T1 H1 as1 where i: "insertElement T H (entry T (keyH e)) a = Some (T1, H1)"
    "shape_inv bidx okkey T1 H1 as1" "set as1 = insert a (set as)" "length as1 = Suc (length as)"
    "same_elems H H1 UNIV" "\<forall>b. b \<notin> insert a (set as) \<longrightarrow> H1 b = H b"
    "htsize T1 = htsize T" "hcount T1 = hcount T" "ht T1 = None \<longleftrightarrow> ht T = None"
    using insertElement_shape [OF Cons.prems(1) a e(1,2) k] by blast
  have r: "H1 b = H b" if "b \<in> set rs" for b using i(6) that Cons.prems(4) by auto
  have n1: "nexts H1 rs" using nexts_frame [of rs H1 H] r e(4) by simp
  have "distinct as1" using i(2) by (simp add: shape_inv_def)
  then have d1: "distinct (as1 @ rs)" using i(3) Cons.prems(4) by auto
  have k1: "okkey (key_of H1 b)" if "b \<in> set rs" for b
    using r [OF that] Cons.prems(5) [of b] that by (simp add: key_of_def)
  have "rehashLoop bidx (htsize T) T H a = rehashLoop bidx (htsize T) T1 H1 (hdq rs 0)"
    using Cons.prems(2) e i(1) by (subst rehashLoop.simps) (auto simp: entry_def)
  moreover have h1: "ht T1 \<noteq> None" using i(9) Cons.prems(2) by simp
  obtain T' H' as' where r: "rehashLoop bidx (htsize T) T1 H1 (hdq rs 0) = Some (T', H')"
    "shape_inv bidx okkey T' H' as'" "set as' = set as1 \<union> set rs" "length as' = length as1 + length rs"
    "same_elems H1 H' UNIV" "\<forall>b. b \<notin> set as1 \<union> set rs \<longrightarrow> H' b = H1 b"
    "htsize T' = htsize T" "hcount T' = hcount T" "ht T' \<noteq> None"
    using Cons.IH [OF i(2) h1 n1 d1] k1 unfolding i(7,8) by blast
  moreover have "H' b = H b" if "b \<notin> set as \<union> set (a # rs)" for b
    using r(6) i(3) i(6) that by simp
  ultimately show ?case using same_elems_trans [OF i(5) r(5)] i(3,4)
    by (intro exI [of _ T'] exI [of _ H'] exI [of _ as']) simp
qed

lemma shape_new_table:
  assumes "0 < n" "n < 2 ^ 31"
  shows "shape_inv bidx okkey (T\<lparr>ht := Some (replicate n \<lparr>bcount = 0, chain = 0\<rparr>), htsize := n, firstH := 0\<rparr>) H []"
  using assms by (simp add: shape_inv_def bucket_ok_def contig_none)

lemma rehash_ok:
  assumes i: "shape_inv bidx okkey T H as" and n: "0 < n"
  shows "\<exists>r T' H' as'. rehash bidx T H n htOk = Some (r, T', H') \<and>
    shape_inv bidx okkey T' H' as' \<and> set as' = set as \<and> length as' = length as \<and>
    same_elems H H' UNIV \<and> (\<forall>b. b \<notin> set as \<longrightarrow> H' b = H b) \<and> hcount T' = hcount T \<and>
    (r \<longrightarrow> ht T' \<noteq> None) \<and> (\<not> r \<longrightarrow> T' = T)"
proof -
  define m where "m = (if n * 16 > 1024 then 1024 div 16 else n)"
  have m: "0 < m" "m < 2 ^ 31" using n by (auto simp: m_def)
  have l: "dls H 0 as 0" "distinct as" "firstH T = hdq as 0" "\<And>a. a \<in> set as \<Longrightarrow> okkey (key_of H a)"
    using i by (auto simp: shape_inv_def)
  show ?thesis
  proof (cases "m = htsize T \<or> \<not> htOk")
    case True
    then have "rehash bidx T H n htOk = Some (False, T, H)" by (auto simp: rehash_def m_def)
    then show ?thesis using i same_elems_refl by blast
  next
    case False
    define U where "U = T\<lparr>ht := Some (replicate m \<lparr>bcount = 0, chain = 0\<rparr>), htsize := m, firstH := 0\<rparr>"
    have U: "shape_inv bidx okkey U H []" "ht U \<noteq> None" "htsize U = m" "hcount U = hcount T"
      using shape_new_table [OF m] by (simp_all add: U_def)
    have "rehash bidx T H n htOk = Option.bind (rehashLoop bidx m U H (hdq as 0)) (\<lambda>(T', H'). Some (True, T', H'))"
      using False unfolding rehash_def m_def [symmetric] Let_def l(3) U_def by simp
    moreover have d: "distinct ([] @ as)" using l by simp
    obtain T' H' as' where "rehashLoop bidx m U H (hdq as 0) = Some (T', H')"
      "shape_inv bidx okkey T' H' as'" "set as' = set as" "length as' = length as"
      "same_elems H H' UNIV" "\<forall>b. b \<notin> set as \<longrightarrow> H' b = H b" "hcount T' = hcount T" "ht T' \<noteq> None"
      using rehashLoop_ok [OF U(1,2) dls_nexts [OF l(1)] d] l(4) unfolding U(3,4) by auto
    ultimately show ?thesis
      by (intro exI [of _ True] exI [of _ T'] exI [of _ H'] exI [of _ as']) simp
  qed
qed

end

section \<open>Removing an element\<close>

lemma contig_tail:
  assumes "contig P (xs @ a # ys)" "P a" "filter P xs = []" "a \<notin> set ys"
  obtains w where "ys = filter P ys @ w"
proof -
  obtain u w where u: "xs @ a # ys = u @ filter P (xs @ a # ys) @ w" "\<And>x. x \<in> set u \<Longrightarrow> \<not> P x"
    using contigE [OF assms(1)] by metis
  have "a \<notin> set xs" "a \<notin> set ys" using assms(2-4) by (auto simp: filter_empty_conv)
  then have "xs @ a # ys = u @ a # zs \<longleftrightarrow> xs = u \<and> ys = zs" for zs by (rule append_Cons_eq_iff)
  moreover have "xs @ a # ys = u @ a # filter P ys @ w" using u(1) assms(2,3) by simp
  ultimately show thesis by (intro that) blast
qed

lemma bucket_remove:
  assumes "bucket_ok bidx n H (xs @ a # ys) b B" "a \<notin> set xs" "a \<notin> set ys"
  shows "inBucket bidx n H b a \<Longrightarrow> bucket_ok bidx n H (xs @ ys) b
           \<lparr>bcount = bcount B - 1, chain = (if chain B = a then hdq ys 0 else chain B)\<rparr>"
    and "\<not> inBucket bidx n H b a \<Longrightarrow> bucket_ok bidx n H (xs @ ys) b B"
proof -
  let ?P = "inBucket bidx n H b"
  have c: "contig ?P (xs @ a # ys)" and cnt: "bcount B = int (length (filter ?P (xs @ a # ys)))"
    and ch: "filter ?P (xs @ a # ys) \<noteq> [] \<Longrightarrow> chain B = hd (filter ?P (xs @ a # ys))"
    using assms(1) by (auto simp: bucket_ok_def Let_def)
  note c' = contig_remove [OF c]
  show "bucket_ok bidx n H (xs @ ys) b B" if "\<not> ?P a"
    using c' cnt ch that by (simp add: bucket_ok_def Let_def)
  assume P: "?P a"
  have "(if chain B = a then hdq ys 0 else chain B) = hd (filter ?P (xs @ ys))" if ne: "filter ?P (xs @ ys) \<noteq> []"
  proof (cases "filter ?P xs")
    case Nil
    then have "chain B = a" using ch P by simp
    moreover obtain w where "ys = filter ?P ys @ w" using contig_tail [OF c P Nil assms(3)] .
    then have "hdq ys 0 = hd (filter ?P ys)" using ne Nil
      by (cases "filter ?P ys") (auto simp: hdq_def split: list.splits)
    ultimately show ?thesis using Nil by simp
  next
    case (Cons x zs)
    then have x: "chain B = x" using ch by simp
    show ?thesis
    proof (cases "x = a")
      case True
      with Cons have "a \<in> set xs" by (metis filter_is_subset list.set_intros(1) subsetD)
      then show ?thesis using assms(2) by simp
    qed (use x Cons in simp)
  qed
  then show "bucket_ok bidx n H (xs @ ys) b \<lparr>bcount = bcount B - 1, chain = (if chain B = a then hdq ys 0 else chain B)\<rparr>"
    using c' cnt P by (simp add: bucket_ok_def Let_def)
qed


lemma wrap32_dec: "0 < n \<Longrightarrow> n < 2 ^ 32 \<Longrightarrow> wrap32 (n + 2 ^ 32 - 1) = n - 1"
  by (cases n) (simp_all add: wrap32_def)

lemma removeElement_eval:
  assumes l: "dls H 0 (xs @ a # ys) 0" and d: "distinct (xs @ a # ys)" and f: "firstH T = hdq (xs @ a # ys) 0"
    and h: "\<And>bs. ht T = Some bs \<Longrightarrow> h < length bs" and n: "0 < hcount T" "hcount T < 2 ^ 32"
  obtains H' where "unlinked H xs a ys H'"
    "removeElementGivenHash T H a h =
      (let T' = T\<lparr>firstH := hdq (xs @ ys) 0,
         ht := map_option (\<lambda>bs. bs[h := \<lparr>bcount = bcount (bs ! h) - 1,
           chain = (if chain (bs ! h) = a then hdq ys 0 else chain (bs ! h))\<rparr>]) (ht T),
         hcount := hcount T - 1\<rparr> in
       if hcount T = 1 then hashClear T' H' else Some (T', H'))"
proof -
  define H1 where "H1 = (if xs = [] then H else H(last xs \<mapsto> (the (H (last xs)))\<lparr>nextH := hdq ys 0\<rparr>))"
  define H2 where "H2 = (if ys = [] then H1 else H1(hd ys \<mapsto> (the (H1 (hd ys)))\<lparr>prevH := lastq xs 0\<rparr>))"
  obtain e where e: "H a = Some e" "a \<noteq> 0" "prevH e = lastq xs 0" "nextH e = hdq ys 0"
    and x: "dls H 0 xs a" and y: "dls H a ys 0" using dls_mid [OF l] by metis
  have 1: "(if prevH e \<noteq> 0
        then Option.bind (H (prevH e)) (\<lambda>p. Some (T, H(prevH e \<mapsto> p\<lparr>nextH := nextH e\<rparr>)))
        else Some (T\<lparr>firstH := nextH e\<rparr>, H)) = Some (T\<lparr>firstH := hdq (xs @ ys) 0\<rparr>, H1)"
  proof (cases xs rule: rev_cases)
    case Nil
    then show ?thesis using e by (simp add: H1_def)
  next
    case (snoc xs' g)
    have g: "g \<noteq> 0" using dls_nonzero [OF l] snoc by auto
    obtain eg where "H g = Some eg" using dls_alloc [OF x] snoc by auto
    moreover have "T\<lparr>firstH := hdq (xs @ ys) 0\<rparr> = T" using f snoc by (cases xs') simp_all
    ultimately show ?thesis using e g snoc by (simp add: H1_def)
  qed
  have 2: "(if nextH e \<noteq> 0
        then Option.bind (H1 (nextH e)) (\<lambda>n. Some (H1(nextH e \<mapsto> n\<lparr>prevH := prevH e\<rparr>)))
        else Some H1) = Some H2"
  proof (cases ys)
    case Nil
    then show ?thesis using e by (simp add: H2_def)
  next
    case (Cons c ys')
    have c: "c \<noteq> 0" "c \<notin> set xs" using dls_nonzero [OF l] d Cons by auto
    obtain ec where "H c = Some ec" using dls_alloc [OF y] Cons by auto
    then have "H1 c = Some ec" using c by (auto simp: H1_def)
    then show ?thesis using e c Cons by (simp add: H2_def)
  qed
  have 3: "(case ht (T\<lparr>firstH := hdq (xs @ ys) 0\<rparr>) of
          None \<Rightarrow> Some (T\<lparr>firstH := hdq (xs @ ys) 0\<rparr>)
        | Some bs \<Rightarrow>
            if h < length bs
            then Some (T\<lparr>firstH := hdq (xs @ ys) 0, ht := Some (bs[h := \<lparr>bcount = bcount (bs ! h) - 1,
                   chain = (if chain (bs ! h) = a then nextH e else chain (bs ! h))\<rparr>])\<rparr>)
            else None) =
      Some (T\<lparr>firstH := hdq (xs @ ys) 0,
         ht := map_option (\<lambda>bs. bs[h := \<lparr>bcount = bcount (bs ! h) - 1,
           chain = (if chain (bs ! h) = a then hdq ys 0 else chain (bs ! h))\<rparr>]) (ht T)\<rparr>)"
  proof (cases "ht T")
    case None
    then have "T\<lparr>ht := None\<rparr> = T" by (cases T) simp
    then have "T\<lparr>firstH := f, ht := None\<rparr> = T\<lparr>firstH := f\<rparr>" for f by (cases T) simp
    then show ?thesis using None by simp
  next
    case (Some bs)
    then show ?thesis using h e by simp
  qed
  have "removeElementGivenHash T H a h =
      (let T' = T\<lparr>firstH := hdq (xs @ ys) 0,
         ht := map_option (\<lambda>bs. bs[h := \<lparr>bcount = bcount (bs ! h) - 1,
           chain = (if chain (bs ! h) = a then hdq ys 0 else chain (bs ! h))\<rparr>]) (ht T),
         hcount := hcount T - 1\<rparr> in
       if hcount T = 1 then hashClear T' (H2(a := None)) else Some (T', H2(a := None)))"
    unfolding removeElementGivenHash_def e(1) bind.simps 1 prod.case 2 3 Let_def
    using n by (simp add: wrap32_dec [OF n, simplified] wrap32_def [of 4294967296])
  then show thesis using dls_unlink [OF l d H1_def H2_def] by (rule that [rotated])
qed

lemma removeElement_shape:
  assumes i: "shape_inv bidx okkey T H (xs @ a # ys)" and n: "hcount T = length (xs @ a # ys)" "hcount T < 2 ^ 32"
    and h: "\<And>bs. ht T = Some bs \<Longrightarrow> h < length bs \<and> h = bidx (key_of H a) (htsize T)"
  obtains T' H' where "removeElementGivenHash T H a h = Some (T', H')" "shape_inv bidx okkey T' H' (xs @ ys)"
    "hcount T' = length (xs @ ys)" "same_elems H H' (- {a})" "H' a = None"
    "\<forall>b. b \<notin> set (xs @ a # ys) \<longrightarrow> H' b = H b"
proof -
  have l: "dls H 0 (xs @ a # ys) 0" and d: "distinct (xs @ a # ys)" and f: "firstH T = hdq (xs @ a # ys) 0"
    and ok: "\<And>x. x \<in> set (xs @ a # ys) \<Longrightarrow> okkey (key_of H x)"
    using i by (auto simp: shape_inv_def)
  define T1 where "T1 = T\<lparr>firstH := hdq (xs @ ys) 0,
         ht := map_option (\<lambda>bs. bs[h := \<lparr>bcount = bcount (bs ! h) - 1,
           chain = (if chain (bs ! h) = a then hdq ys 0 else chain (bs ! h))\<rparr>]) (ht T),
         hcount := hcount T - 1\<rparr>"
  obtain H' where u: "unlinked H xs a ys H'"
    and r: "removeElementGivenHash T H a h = (if hcount T = 1 then hashClear T1 H' else Some (T1, H'))"
    using removeElement_eval [OF l d f, of h] h n unfolding T1_def Let_def by auto
  have u': "dls H' 0 (xs @ ys) 0" "same_elems H H' (- {a})" "H' a = None"
    "\<forall>b. b \<notin> set (xs @ a # ys) \<longrightarrow> H' b = H b" using u by (auto simp: unlinked_def)
  have key: "key_of H' x = key_of H x" if "x \<in> set (xs @ ys)" for x
    using same_elemsD(2) [OF u'(2), of x] dls_alloc [OF l, of x] d that by auto
  show thesis
  proof (cases "hcount T = 1")
    case True
    then have e: "xs = []" "ys = []" using n by auto
    have "hashClear T1 H' = Some (hashInit, H')"
      using hashClear_ok [of H' "[]" T1] e by (simp add: T1_def)
    then show thesis using True r u'
      by (intro that [of hashInit H']) (simp_all add: e hashInit_def shape_inv_def)
  next
    case False
    have cs: "case ht T1 of None \<Rightarrow> htsize T1 = 0
      | Some bs \<Rightarrow> length bs = htsize T1 \<and> htsize T1 > 0 \<and> htsize T1 < 2 ^ 31 \<and>
          (\<forall>b<htsize T1. bucket_ok bidx (htsize T1) H' (xs @ ys) b (bs ! b))"
    proof (cases "ht T")
      case None
      then show ?thesis using i by (simp add: T1_def shape_inv_def)
    next
      case (Some bs)
      have sz: "length bs = htsize T" "0 < htsize T" "htsize T < 2 ^ 31"
        and bk: "\<And>b. b < htsize T \<Longrightarrow> bucket_ok bidx (htsize T) H (xs @ a # ys) b (bs ! b)"
        using i Some by (auto simp: shape_inv_def)
      have "a \<notin> set xs" "a \<notin> set ys" using d by auto
      note rm = bucket_remove [OF bk this]
      have "bucket_ok bidx (htsize T) H' (xs @ ys) b (bs[h := \<lparr>bcount = bcount (bs ! h) - 1,
           chain = (if chain (bs ! h) = a then hdq ys 0 else chain (bs ! h))\<rparr>] ! b)" if b: "b < htsize T" for b
      proof -
        have "bucket_ok bidx (htsize T) H' (xs @ ys) b B = bucket_ok bidx (htsize T) H (xs @ ys) b B" for B
          using key by (intro bucket_ok_cong) simp
        moreover have "b = h \<longleftrightarrow> inBucket bidx (htsize T) H b a" using h [OF Some] by (auto simp: inBucket_def)
        ultimately show ?thesis using rm [OF b] h [OF Some] by (cases "b = h") (simp_all cong: if_cong)
      qed
      then show ?thesis using Some sz by (simp add: T1_def)
    qed
    have "shape_inv bidx okkey T1 H' (xs @ ys)"
      unfolding shape_inv_def using u'(1) d key ok by (intro conjI cs) (auto simp: T1_def)
    moreover have "removeElementGivenHash T H a h = Some (T1, H')" using False r by simp
    moreover have "hcount T1 = length (xs @ ys)" using n by (simp add: T1_def)
    ultimately show thesis using u'(2-4) by (intro that [of T1 H'])
  qed
qed


section \<open>The table as a map\<close>

lemma contents_cong:
  "(\<And>a. a \<in> set as \<Longrightarrow> key_of H' a = key_of H a \<and> data_of H' a = data_of H a) \<Longrightarrow>
   contents cmp H' as k = contents cmp H as k"
  unfolding contents_def by (induction as) auto

context hash_keys
begin

lemma find_key:
  assumes i: "hash_inv bidx cmp okkey T H as"
  shows "find (\<lambda>a. cmp (key_of H a) k) as = Some a \<longleftrightarrow> a \<in> set as \<and> cmp (key_of H a) k"
proof -
  have u: "\<And>a b. a \<in> set as \<Longrightarrow> b \<in> set as \<Longrightarrow> cmp (key_of H a) k \<Longrightarrow> cmp (key_of H b) k \<Longrightarrow> a = b"
    using i cmp_sym cmp_trans unfolding hash_inv_def by blast
  show ?thesis
  proof (cases "find (\<lambda>a. cmp (key_of H a) k) as")
    case None
    then have "\<forall>x\<in>set as. \<not> cmp (key_of H x) k" unfolding find_None_iff by blast
    then show ?thesis using None by auto
  next
    case (Some b)
    then have "b \<in> set as" "cmp (key_of H b) k" by (auto simp: find_Some_iff)
    then show ?thesis using Some u by auto
  qed
qed

lemma contents_key:
  assumes i: "hash_inv bidx cmp okkey T H as" and a: "a \<in> set as" "cmp (key_of H a) k"
  shows "contents cmp H as k = data_of H a"
  using find_key [OF i, of k a] a by (simp add: contents_def)

lemma contents_cmp:
  assumes i: "hash_inv bidx cmp okkey T H as" and "cmp k k'"
  shows "contents cmp H as k = contents cmp H as k'"
proof -
  have "cmp (key_of H a) k = cmp (key_of H a) k'" for a using assms(2) cmp_sym cmp_trans by blast
  then show ?thesis by (simp add: contents_def)
qed

lemma hashFind_ok:
  assumes i: "hash_inv bidx cmp okkey T H as" and k: "okkey k"
  shows "hashFind bidx cmp T H k = Some (contents cmp H as k)"
proof -
  have s: "shape_inv bidx okkey T H as" "hcount T = length as" and l: "dls H 0 as 0"
    using i by (auto simp: hash_inv_def shape_inv_def)
  note f = findElement_ok [OF s k]
  show ?thesis
  proof (cases "find (\<lambda>a. cmp (key_of H a) k) as")
    case None
    then show ?thesis using f by (simp add: hashFind_def contents_def)
  next
    case (Some a)
    then have "a \<in> set as" using find_key [OF i] by blast
    then obtain e where "H a = Some e" "a \<noteq> 0" using dls_alloc [OF l] dls_nonzero [OF l] by metis
    then show ?thesis using f Some by (simp add: hashFind_def contents_def data_of_def)
  qed
qed


lemma contents_eqI:
  assumes i: "hash_inv bidx cmp okkey T H as" "hash_inv bidx cmp okkey T' H' as'"
    and 1: "\<And>a. a \<in> set as \<Longrightarrow> cmp (key_of H a) k \<Longrightarrow>
      a \<in> set as' \<and> cmp (key_of H' a) k \<and> data_of H' a = data_of H a"
    and 2: "\<And>a. a \<in> set as' \<Longrightarrow> cmp (key_of H' a) k \<Longrightarrow> a \<in> set as \<and> cmp (key_of H a) k"
  shows "contents cmp H' as' k = contents cmp H as k"
proof (cases "\<exists>a\<in>set as. cmp (key_of H a) k")
  case True
  then obtain a where a: "a \<in> set as" "cmp (key_of H a) k" by blast
  with contents_key [OF i(1) a] contents_key [OF i(2), of a k] 1 [OF a] show ?thesis by simp
next
  case False
  then show ?thesis using 2 by (metis contents_none)
qed

text \<open>New data, and possibly a new equal key, for an element.\<close>

lemma dls_set_data:
  "H a = Some e \<Longrightarrow> nextH e' = nextH e \<Longrightarrow> prevH e' = prevH e \<Longrightarrow> dls (H(a \<mapsto> e')) p as q = dls H p as q"
  by (induction as arbitrary: p) auto

lemma hash_replace:
  assumes i: "hash_inv bidx cmp okkey T H as" and a: "a \<in> set as" "H a = Some e"
    and k: "okkey k" "cmp (keyH e) k" "d \<noteq> 0"
    and H': "H' = H(a \<mapsto> e\<lparr>dataH := d, keyH := k\<rparr>)"
  shows "hash_inv bidx cmp okkey T H' as"
    and "contents cmp H' as = (\<lambda>k'. if cmp k k' then d else contents cmp H as k')"
proof -
  have ka: "key_of H a = keyH e" "key_of H' a = k" "data_of H' a = d"
    using a by (simp_all add: key_of_def data_of_def H')
  have other: "key_of H' b = key_of H b" "data_of H' b = data_of H b" if "b \<noteq> a" for b
    using that by (simp_all add: key_of_def data_of_def H')
  have s: "shape_inv bidx okkey T H as" and u: "\<And>a b. a \<in> set as \<Longrightarrow> b \<in> set as \<Longrightarrow> cmp (key_of H a) (key_of H b) \<Longrightarrow> a = b"
    and ok: "\<And>b. b \<in> set as \<Longrightarrow> okkey (key_of H b)"
    using i by (auto simp: hash_inv_def shape_inv_def)
  have cmp': "cmp (key_of H' b) k' = cmp (key_of H b) k'" for b k'
    using other [of b] ka k(2) cmp_sym cmp_trans by (cases "b = a") metis+
  have okk: "okkey (key_of H' b)" if "b \<in> set as" for b
    using other [of b] ok [OF that] ka k(1) by (cases "b = a") auto
  have bi: "bidx (key_of H' b) n = bidx (key_of H b) n" if "b \<in> set as" for b n
    using cmp' okk [OF that] ok [OF that] cmp_refl cmp_bidx by blast
  have "bucket_ok bidx n H' as b B = bucket_ok bidx n H as b B" for n b B
    using bi by (intro bucket_ok_cong_inBucket) (simp add: inBucket_def)
  moreover have "dls H' 0 as 0 = dls H 0 as 0" unfolding H' using a(2) by (rule dls_set_data) simp_all
  ultimately have "shape_inv bidx okkey T H' as"
    using s okk by (simp add: shape_inv_def split: option.splits)
  moreover have "\<forall>b\<in>set as. data_of H' b \<noteq> 0" using i other ka k(3) by (metis hash_inv_def)
  moreover have "b = c" if "b \<in> set as" "c \<in> set as" "cmp (key_of H' b) (key_of H' c)" for b c
    using that cmp' cmp_sym u by blast
  ultimately show i': "hash_inv bidx cmp okkey T H' as" using i by (simp add: hash_inv_def)
  show "contents cmp H' as = (\<lambda>k'. if cmp k k' then d else contents cmp H as k')"
  proof
    fix k'
    show "contents cmp H' as k' = (if cmp k k' then d else contents cmp H as k')"
    proof (cases "cmp k k'")
      case True
      then show ?thesis using contents_key [OF i' a(1), of k'] ka by simp
    next
      case False
      then have "b \<noteq> a" if "cmp (key_of H' b) k'" for b using ka that by metis
      then have "contents cmp H' as k' = contents cmp H as k'"
        using cmp' other by (intro contents_eqI [OF i i']) metis+
      then show ?thesis using False by simp
    qed
  qed
qed

text \<open>Removal of the element with an equal key.\<close>

lemma hash_remove:
  assumes i: "hash_inv bidx cmp okkey T H as" and a: "a \<in> set as" "cmp (key_of H a) k" and n: "length as < 2 ^ 32"
    and h: "\<And>bs. ht T = Some bs \<Longrightarrow> h = bidx (key_of H a) (htsize T)"
  obtains T' H' as' where "removeElementGivenHash T H a h = Some (T', H')" "hash_inv bidx cmp okkey T' H' as'"
    "contents cmp H' as' = (\<lambda>k'. if cmp k k' then 0 else contents cmp H as k')"
    "set as' = set as - {a}" "\<forall>b. b \<notin> set as \<longrightarrow> H' b = H b" "same_elems H H' (- {a})" "H' a = None"
    "as' = remove1 a as"
proof -
  obtain xs ys where as: "as = xs @ a # ys" using a(1) by (meson split_list)
  have s: "shape_inv bidx okkey T H (xs @ a # ys)" and c: "hcount T = length (xs @ a # ys)"
    and u: "\<And>a b. a \<in> set as \<Longrightarrow> b \<in> set as \<Longrightarrow> cmp (key_of H a) (key_of H b) \<Longrightarrow> a = b"
    using i by (auto simp: hash_inv_def as)
  have l: "dls H 0 as 0" "distinct as" and ok: "okkey (key_of H a)" using s by (auto simp: shape_inv_def as)
  have hl: "h < length bs \<and> h = bidx (key_of H a) (htsize T)" if "ht T = Some bs" for bs
    using h [OF that] s that bidx_lt [OF ok, of "htsize T"] by (simp add: shape_inv_def)
  obtain T' H' where r: "removeElementGivenHash T H a h = Some (T', H')" "shape_inv bidx okkey T' H' (xs @ ys)"
    "hcount T' = length (xs @ ys)" "same_elems H H' (- {a})" "H' a = None" "\<forall>b. b \<notin> set (xs @ a # ys) \<longrightarrow> H' b = H b"
    using removeElement_shape [OF s c, of h] n c hl unfolding as by metis
  have set': "set (xs @ ys) = set as - {a}" using l(2) by (auto simp: as)
  have same: "key_of H' b = key_of H b" "data_of H' b = data_of H b" if "b \<in> set (xs @ ys)" for b
    using same_elemsD(2,3) [OF r(4), of b] dls_alloc [OF l(1), of b] that l(2) by (auto simp: as)
  have i': "hash_inv bidx cmp okkey T' H' (xs @ ys)"
  proof -
    have "\<And>b. b \<in> set as \<Longrightarrow> data_of H b \<noteq> 0" using i by (simp add: hash_inv_def)
    then show ?thesis unfolding hash_inv_def set' using r(2,3) u same [unfolded set']
      by (intro conjI ballI impI) auto
  qed
  have "contents cmp H' (xs @ ys) k' = (if cmp k k' then 0 else contents cmp H as k')" for k'
  proof (cases "cmp k k'")
    case True
    have "\<not> cmp (key_of H' b) k'" if b: "b \<in> set (xs @ ys)" for b
    proof
      assume "cmp (key_of H' b) k'"
      then have "cmp (key_of H b) (key_of H a)" using same [OF b] True a(2) cmp_sym cmp_trans by metis
      then show False using u [of b a] b a(1) set' by blast
    qed
    then show ?thesis using contents_none [of "xs @ ys" cmp H' k'] True by simp
  next
    case False
    then have "\<not> cmp (key_of H a) k'" using a(2) cmp_sym cmp_trans by blast
    then have "contents cmp H' (xs @ ys) k' = contents cmp H as k'"
      using same set' by (intro contents_eqI [OF i i']) (metis Diff_iff singletonD)+
    then show ?thesis using False by simp
  qed
  moreover have "xs @ ys = remove1 a as" using l(2) by (simp add: as remove1_append)
  ultimately show thesis using r i' set' by (intro that [of T' H' "xs @ ys"]) (auto simp: as)
qed


text \<open>A new element.\<close>

lemma hash_new_shape:
  assumes i: "hash_inv bidx cmp okkey T H as" and n: "length as < 2 ^ 30" and new: "a \<noteq> 0 \<and> H a = None"
    and H1: "H1 = H(a \<mapsto> \<lparr>nextH = 0, prevH = 0, dataH = d, keyH = k\<rparr>)"
    and T1: "T1 = T\<lparr>hcount := wrap32 (hcount T + 1)\<rparr>"
  shows "shape_inv bidx okkey T1 H1 as" "hcount T1 = Suc (length as)" "a \<notin> set as"
    "\<And>b. b \<in> set as \<Longrightarrow> key_of H1 b = key_of H b \<and> data_of H1 b = data_of H b"
proof -
  have s: "shape_inv bidx okkey T H as" and c: "hcount T = length as" and l: "dls H 0 as 0"
    using i by (auto simp: hash_inv_def shape_inv_def)
  show a: "a \<notin> set as" using dls_alloc [OF l, of a] new by auto
  show "hcount T1 = Suc (length as)" using n c by (simp add: T1 wrap32_def)
  show o1: "key_of H1 b = key_of H b \<and> data_of H1 b = data_of H b" if "b \<in> set as" for b
    using that a by (auto simp: H1 key_of_def data_of_def)
  have "bucket_ok bidx m H1 as b B = bucket_ok bidx m H as b B" for m b B
    using o1 by (intro bucket_ok_cong) simp
  then show "shape_inv bidx okkey T1 H1 as"
    using s a o1 by (simp add: shape_inv_def T1 H1 split: option.splits)
qed

lemma hash_new_rehash:
  assumes i: "hash_inv bidx cmp okkey T H as" and n: "length as < 2 ^ 30" and new: "a \<noteq> 0 \<and> H a = None"
    and H1: "H1 = H(a \<mapsto> \<lparr>nextH = 0, prevH = 0, dataH = d, keyH = k\<rparr>)"
    and T1: "T1 = T\<lparr>hcount := wrap32 (hcount T + 1)\<rparr>"
  shows "\<exists>resized T2 H2. (if hcount T1 \<ge> 10 \<and> hcount T1 > wrap32 (2 * htsize T1)
             then rehash bidx T1 H1 (wrap32 (hcount T1 * 2)) htOk
             else Some (False, T1, H1)) = Some (resized, T2, H2)"
proof -
  note sh = hash_new_shape [OF assms]
  have "0 < wrap32 (hcount T1 * 2)" using sh(2) n by (simp add: wrap32_def)
  from rehash_ok [OF sh(1) this, of htOk] show ?thesis by auto
qed

lemma hash_new:
  assumes i: "hash_inv bidx cmp okkey T H as" and k: "okkey k" "d \<noteq> 0"
    and new: "a \<noteq> 0" "H a = None" and n: "length as < 2 ^ 30"
    and fresh: "\<And>b. b \<in> set as \<Longrightarrow> \<not> cmp (key_of H b) k"
    and H1: "H1 = H(a \<mapsto> \<lparr>nextH = 0, prevH = 0, dataH = d, keyH = k\<rparr>)"
    and T1: "T1 = T\<lparr>hcount := wrap32 (hcount T + 1)\<rparr>"
    and r: "(if hcount T1 \<ge> 10 \<and> hcount T1 > wrap32 (2 * htsize T1)
             then rehash bidx T1 H1 (wrap32 (hcount T1 * 2)) htOk
             else Some (False, T1, H1)) = Some (resized, T2, H2)"
    and h: "ht T \<noteq> None \<Longrightarrow> h = bidx k (htsize T)"
  obtains T3 H3 as3 where
    "insertElement T2 H2 (if ht T2 = None then None else Some (if resized then bidx k (htsize T2) else h)) a = Some (T3, H3)"
    "hash_inv bidx cmp okkey T3 H3 as3" "contents cmp H3 as3 = (\<lambda>k'. if cmp k k' then d else contents cmp H as k')"
    "set as3 = insert a (set as)" "\<forall>b. b \<notin> insert a (set as) \<longrightarrow> H3 b = H b"
proof -
  have l: "dls H 0 as 0" and u: "\<And>a b. a \<in> set as \<Longrightarrow> b \<in> set as \<Longrightarrow> cmp (key_of H a) (key_of H b) \<Longrightarrow> a = b"
    and nz: "\<And>b. b \<in> set as \<Longrightarrow> data_of H b \<noteq> 0"
    using i by (auto simp: hash_inv_def shape_inv_def)
  have nw: "a \<noteq> 0 \<and> H a = None" using new by simp
  note sh = hash_new_shape [OF i n nw H1 T1]
  note s1 = sh(1) and c1 = sh(2) and a = sh(3) and o1 = sh(4) [THEN conjunct1] sh(4) [THEN conjunct2]
  have pos: "0 < wrap32 (hcount T1 * 2)" using c1 n by (simp add: wrap32_def)
  have s2: "\<exists>as2. shape_inv bidx okkey T2 H2 as2 \<and> set as2 = set as \<and> length as2 = length as \<and>
      same_elems H1 H2 UNIV \<and> (\<forall>b. b \<notin> set as \<longrightarrow> H2 b = H1 b) \<and> hcount T2 = hcount T1 \<and>
      (resized \<longrightarrow> ht T2 \<noteq> None) \<and> (\<not> resized \<longrightarrow> T2 = T1)"
  proof (cases "hcount T1 \<ge> 10 \<and> hcount T1 > wrap32 (2 * htsize T1)")
    case True
    from rehash_ok [OF s1 pos, of htOk] True r show ?thesis by auto
  next
    case False
    then show ?thesis using r s1 by (intro exI [of _ as]) (auto simp: same_elems_refl)
  qed
  then obtain as2 where as2: "shape_inv bidx okkey T2 H2 as2" "set as2 = set as" "length as2 = length as"
    "same_elems H1 H2 UNIV" "\<forall>b. b \<notin> set as \<longrightarrow> H2 b = H1 b" "hcount T2 = hcount T1"
    "resized \<longrightarrow> ht T2 \<noteq> None" "\<not> resized \<longrightarrow> T2 = T1" by blast
  have e: "(if ht T2 = None then None else Some (if resized then bidx k (htsize T2) else h)) = entry T2 k"
    using as2(7,8) h by (auto simp: entry_def T1 split: option.splits)
  have a2: "a \<notin> set as2" "H2 a = Some \<lparr>nextH = 0, prevH = 0, dataH = d, keyH = k\<rparr>"
    using a as2(2) as2(5) a by (simp_all add: H1)
  obtain e2 where e2: "H2 a = Some e2" "keyH e2 = k" using a2(2) by simp
  have kk: "okkey (keyH e2)" using k e2 by simp
  obtain T3 H3 as3 where t3: "insertElement T2 H2 (entry T2 k) a = Some (T3, H3)" "shape_inv bidx okkey T3 H3 as3"
    "set as3 = insert a (set as)" "length as3 = Suc (length as)" "same_elems H2 H3 UNIV"
    "\<forall>b. b \<notin> insert a (set as) \<longrightarrow> H3 b = H2 b" "hcount T3 = hcount T2"
    "htsize T3 = htsize T2" "ht T3 = None \<longleftrightarrow> ht T2 = None"
    using insertElement_shape [OF as2(1) a2(1) new(1) e2(1) kk, unfolded as2(2,3) e2(2)] by metis
  have se: "same_elems H1 H3 UNIV" by (rule same_elems_trans [OF as2(4) t3(5)])
  have a3: "key_of H3 a = k" "data_of H3 a = d"
    using same_elemsD(2,3) [OF se, of a] by (simp_all add: H1 key_of_def data_of_def)
  have o3: "key_of H3 b = key_of H b" "data_of H3 b = data_of H b" if "b \<in> set as" for b
  proof -
    have "H1 b \<noteq> None" using dls_alloc [OF l that] by (auto simp: H1)
    then show "key_of H3 b = key_of H b" "data_of H3 b = data_of H b"
      using same_elemsD(2,3) [OF se, of b] o1 [OF that] by simp_all
  qed
  have "x = y" if "x \<in> insert a (set as)" "y \<in> insert a (set as)" "cmp (key_of H3 x) (key_of H3 y)" for x y
    using that u fresh o3 a3 cmp_sym by (metis insert_iff)
  moreover have "data_of H3 x \<noteq> 0" if "x \<in> insert a (set as)" for x using that nz o3 a3 k(2) by auto
  ultimately have i3: "hash_inv bidx cmp okkey T3 H3 as3"
    unfolding hash_inv_def t3(3) using t3(2,4,7) as2(6) c1 by (intro conjI ballI impI) auto
  have "contents cmp H3 as3 k' = (if cmp k k' then d else contents cmp H as k')" for k'
  proof (cases "cmp k k'")
    case True
    then show ?thesis using contents_key [OF i3, of a k'] t3(3) a3 by simp
  next
    case False
    have "contents cmp H3 as3 k' = contents cmp H as k'"
      by (rule contents_eqI [OF i i3]) (use False t3(3) a3 o3 in auto)
    then show ?thesis using False by simp
  qed
  moreover have "H3 b = H b" if "b \<notin> insert a (set as)" for b
    using t3(6) as2(5) that by (auto simp: H1)
  ultimately show thesis using t3(1,3) i3 e by (intro that [of T3 H3 as3]) auto
qed


text \<open>
  The whole of \<open>Insert\<close> as an update of the map, in every case of found or not found, null
  data or not, and failed allocations.
\<close>

lemma hashInsert_ok:
  assumes i: "hash_inv bidx cmp okkey T H as" and k: "okkey k" and n: "length as < 2 ^ 30"
    and new: "newElem \<noteq> 0 \<longrightarrow> H newElem = None"
  obtains T' H' as' where
    "hashInsert bidx cmp T H k d newElem keyOk htOk =
       Some (insertResult (contents cmp H as k) d (newElem \<noteq> 0) keyOk, T', H')"
    "hash_inv bidx cmp okkey T' H' as'"
    "contents cmp H' as' = (\<lambda>k'. if cmp k k' \<and> insertStores (contents cmp H as k) d (newElem \<noteq> 0) keyOk
       then d else contents cmp H as k')"
    "set as' \<subseteq> insert newElem (set as)" "\<forall>b. b \<notin> insert newElem (set as) \<longrightarrow> H' b = H b"
proof -
  let ?old = "contents cmp H as k"
  have s: "shape_inv bidx okkey T H as" "hcount T = length as" and l: "dls H 0 as 0"
    and nz: "\<And>b. b \<in> set as \<Longrightarrow> data_of H b \<noteq> 0"
    and ok: "\<And>b. b \<in> set as \<Longrightarrow> okkey (key_of H b)"
    using i by (auto simp: hash_inv_def shape_inv_def)
  define h where "h = (case ht T of None \<Rightarrow> 0 | Some _ \<Rightarrow> bidx k (htsize T))"
  note f = findElement_ok [OF s k, folded h_def]
  show thesis
  proof (cases "find (\<lambda>a. cmp (key_of H a) k) as")
    case (Some a)
    then have a: "a \<in> set as" "cmp (key_of H a) k" using find_key [OF i] by blast+
    then obtain e where e: "H a = Some e" "a \<noteq> 0" using dls_alloc [OF l] dls_nonzero [OF l] by metis
    have old: "?old = dataH e" "?old \<noteq> 0"
      using contents_key [OF i a] nz [OF a(1)] e by (simp_all add: data_of_def)
    have fe: "findElementWithHash bidx cmp T H k = Some (h, a)" using f Some by simp
    show thesis
    proof (cases "d = 0")
      case True
      have hh: "h = bidx (key_of H a) (htsize T)" if "ht T = Some bs" for bs
        using that cmp_bidx [OF ok [OF a(1)] k a(2)] by (simp add: h_def)
      have n32: "length as < 2 ^ 32" using n by simp
      obtain T' H' as' where r: "removeElementGivenHash T H a h = Some (T', H')" "hash_inv bidx cmp okkey T' H' as'"
        "contents cmp H' as' = (\<lambda>k'. if cmp k k' then 0 else contents cmp H as k')"
        "set as' = set as - {a}" "\<forall>b. b \<notin> set as \<longrightarrow> H' b = H b"
        "same_elems H H' (- {a})" "H' a = None" "as' = remove1 a as"
        by (rule hash_remove [OF i a n32 hh])
      show thesis
      proof (rule that [of T' H' as'])
        show "hashInsert bidx cmp T H k d newElem keyOk htOk =
          Some (insertResult ?old d (newElem \<noteq> 0) keyOk, T', H')"
          using True old e r(1) by (simp add: hashInsert_def fe insertResult_def)
      qed (use True old r(2-5) in \<open>auto simp: insertStores_def\<close>)
    next
      case False
      define k' where "k' = (if keyOk then k else keyH e)"
      define H' where "H' = H(a \<mapsto> e\<lparr>dataH := d, keyH := k'\<rparr>)"
      have ke: "cmp (keyH e) k" "okkey (keyH e)" using a(2) ok [OF a(1)] e by (simp_all add: key_of_def)
      have eq: "cmp (keyH e) q = cmp k q" for q using ke(1) cmp_sym cmp_trans by blast
      have k': "okkey k'" "cmp (keyH e) k'" "cmp k' q = cmp k q" for q
        using k ke eq cmp_refl [of "keyH e"] by (simp_all add: k'_def)
      note r = hash_replace [OF i a(1) e(1) k'(1,2) False H'_def]
      show thesis
      proof (rule that [of T H' as])
        have "e\<lparr>dataH := d\<rparr> = e\<lparr>dataH := d, keyH := keyH e\<rparr>" by simp
        then show "hashInsert bidx cmp T H k d newElem keyOk htOk =
          Some (insertResult ?old d (newElem \<noteq> 0) keyOk, T, H')"
          using False old e by (simp add: hashInsert_def fe insertResult_def H'_def k'_def)
      qed (use False old a r in \<open>auto simp: insertStores_def H'_def k'(3)\<close>)
    qed
  next
    case None
    have fresh: "\<And>b. b \<in> set as \<Longrightarrow> \<not> cmp (key_of H b) k" using None unfolding find_None_iff by blast
    then have old: "?old = 0" by (intro contents_none) blast
    have fe: "findElementWithHash bidx cmp T H k = Some (h, 0)" using f None by simp
    show thesis
    proof (cases "d = 0 \<or> newElem = 0 \<or> \<not> keyOk")
      case True
      show thesis
      proof (rule that [of T H as])
        show "contents cmp H as = (\<lambda>k'. if cmp k k' \<and> insertStores ?old d (newElem \<noteq> 0) keyOk
            then d else contents cmp H as k')"
          using True old contents_cmp [OF i] by (auto simp: insertStores_def fun_eq_iff)
      qed (use i True old in \<open>auto simp: hashInsert_def fe insertResult_def\<close>)
    next
      case False
      define H1 where "H1 = H(newElem \<mapsto> \<lparr>nextH = 0, prevH = 0, dataH = d, keyH = k\<rparr>)"
      define T1 where "T1 = T\<lparr>hcount := wrap32 (hcount T + 1)\<rparr>"
      have nw: "newElem \<noteq> 0 \<and> H newElem = None" using False new by simp
      obtain resized T2 H2 where re: "(if hcount T1 \<ge> 10 \<and> hcount T1 > wrap32 (2 * htsize T1)
             then rehash bidx T1 H1 (wrap32 (hcount T1 * 2)) htOk
             else Some (False, T1, H1)) = Some (resized, T2, H2)"
        using hash_new_rehash [OF i n nw H1_def T1_def, of htOk] by (elim exE)
      have hh: "h = bidx k (htsize T)" if "ht T \<noteq> None" using that by (auto simp: h_def)
      obtain T3 H3 as3 where r:
        "insertElement T2 H2 (if ht T2 = None then None else Some (if resized then bidx k (htsize T2) else h)) newElem = Some (T3, H3)"
        "hash_inv bidx cmp okkey T3 H3 as3" "contents cmp H3 as3 = (\<lambda>k'. if cmp k k' then d else contents cmp H as k')"
        "set as3 = insert newElem (set as)" "\<forall>b. b \<notin> insert newElem (set as) \<longrightarrow> H3 b = H b"
        using hash_new [OF i k _ _ _ n fresh H1_def T1_def re hh] False new by auto
      show thesis
      proof (rule that [of T3 H3 as3])
        show "hashInsert bidx cmp T H k d newElem keyOk htOk =
          Some (insertResult ?old d (newElem \<noteq> 0) keyOk, T3, H3)"
          using False old re r(1) unfolding hashInsert_def fe T1_def [symmetric] H1_def [symmetric] Let_def
          by (simp add: insertResult_def)
      qed (use False old r in \<open>auto simp: insertStores_def\<close>)
    qed
  qed
qed


lemma hashRemoveElement_ok:
  assumes i: "hash_inv bidx cmp okkey T H as" and a: "a \<in> set as" and n: "length as < 2 ^ 32"
  obtains T' H' as' where "hashRemoveElement bidx T H a = Some (T', H')" "hash_inv bidx cmp okkey T' H' as'"
    "contents cmp H' as' = (\<lambda>k'. if cmp (key_of H a) k' then 0 else contents cmp H as k')"
    "set as' = set as - {a}" "\<forall>b. b \<notin> set as \<longrightarrow> H' b = H b" "same_elems H H' (- {a})" "H' a = None" "as' = remove1 a as"
proof -
  have "dls H 0 as 0" using i by (simp add: hash_inv_def shape_inv_def)
  then obtain e where e: "H a = Some e" using dls_alloc a by metis
  let ?h = "if ht T = None then 0 else bidx (keyH e) (htsize T)"
  have h: "?h = bidx (key_of H a) (htsize T)" if "ht T = Some bs" for bs using that e by (simp add: key_of_def)
  obtain T' H' as' where r: "removeElementGivenHash T H a ?h = Some (T', H')" "hash_inv bidx cmp okkey T' H' as'"
    "contents cmp H' as' = (\<lambda>k'. if cmp (key_of H a) k' then 0 else contents cmp H as k')"
    "set as' = set as - {a}" "\<forall>b. b \<notin> set as \<longrightarrow> H' b = H b" "same_elems H H' (- {a})" "H' a = None" "as' = remove1 a as"
    by (rule hash_remove [OF i a cmp_refl n h])
  have "hashRemoveElement bidx T H a = removeElementGivenHash T H a ?h"
    using e by (simp add: hashRemoveElement_def)
  then show thesis using r by (intro that [of T' H' as']) simp_all
qed

end

section \<open>The two tables of the sources\<close>

text \<open>
  64-bit keys: \<open>iKey % htsize\<close> is the remainder of truncating division, stored in an unsigned
  32-bit variable, so that a negative key gives a number far above the table size.
\<close>

definition i64Index :: "int \<Rightarrow> nat \<Rightarrow> nat" where
  "i64Index k n = nat ((if 0 \<le> k then k mod int n else - ((- k) mod int n)) mod 2 ^ 32)"

definition i64Key :: "int \<Rightarrow> bool" where
  "i64Key k \<longleftrightarrow> 0 \<le> k"

definition sqlite3HashI64Find :: "HashTab \<Rightarrow> int heap \<Rightarrow> int \<Rightarrow> addr option" where
  "sqlite3HashI64Find T H iKey = hashFind i64Index (=) T H iKey"

definition sqlite3HashI64Insert ::
  "HashTab \<Rightarrow> int heap \<Rightarrow> int \<Rightarrow> addr \<Rightarrow> addr \<Rightarrow> bool \<Rightarrow> (addr \<times> HashTab \<times> int heap) option" where
  "sqlite3HashI64Insert T H iKey d newElem htOk = hashInsert i64Index (=) T H iKey d newElem True htOk"

text \<open>
  Byte string keys, hashed with a multiplicative hash and compared by the function \<open>xCompare\<close> given
  by the caller (with its collating sequence).
\<close>

type_synonym blob = "nat list"

definition blobHash :: "blob \<Rightarrow> u32" where
  "blobHash p = fold (\<lambda>c h. wrap32 (wrap32 (h + c) * 0x9e3779b1)) p 0"

definition blobIndex :: "blob \<Rightarrow> nat \<Rightarrow> nat" where
  "blobIndex k n = blobHash k mod n"

definition insertElementBlob ::
  "HashTab \<Rightarrow> blob heap \<Rightarrow> nat option \<Rightarrow> addr \<Rightarrow> (HashTab \<times> blob heap) option" where
  "insertElementBlob = insertElement"

definition rehashBlob ::
  "HashTab \<Rightarrow> blob heap \<Rightarrow> nat \<Rightarrow> bool \<Rightarrow> (bool \<times> HashTab \<times> blob heap) option" where
  "rehashBlob = rehash blobIndex"

definition findElementWithHashBlob ::
  "(blob \<Rightarrow> blob \<Rightarrow> int) \<Rightarrow> HashTab \<Rightarrow> blob heap \<Rightarrow> blob \<Rightarrow> (nat \<times> addr) option" where
  "findElementWithHashBlob xCompare = findElementWithHash blobIndex (\<lambda>k k'. xCompare k k' = 0)"

definition removeElementGivenHashBlob ::
  "HashTab \<Rightarrow> blob heap \<Rightarrow> addr \<Rightarrow> nat \<Rightarrow> (HashTab \<times> blob heap) option" where
  "removeElementGivenHashBlob = removeElementGivenHash"

definition sqlite3HashBlobClear :: "HashTab \<Rightarrow> blob heap \<Rightarrow> (HashTab \<times> blob heap) option" where
  "sqlite3HashBlobClear = hashClear"

definition sqlite3HashBlobFind ::
  "(blob \<Rightarrow> blob \<Rightarrow> int) \<Rightarrow> HashTab \<Rightarrow> blob heap \<Rightarrow> blob \<Rightarrow> addr option" where
  "sqlite3HashBlobFind xCompare T H key = hashFind blobIndex (\<lambda>k k'. xCompare k k' = 0) T H key"

definition sqlite3HashBlobInsert ::
  "(blob \<Rightarrow> blob \<Rightarrow> int) \<Rightarrow> HashTab \<Rightarrow> blob heap \<Rightarrow> blob \<Rightarrow> addr \<Rightarrow> addr \<Rightarrow> bool \<Rightarrow> bool \<Rightarrow>
   (addr \<times> HashTab \<times> blob heap) option" where
  "sqlite3HashBlobInsert xCompare T H key d newElem keyOk htOk =
     hashInsert blobIndex (\<lambda>k k'. xCompare k k' = 0) T H key d newElem keyOk htOk"

definition sqlite3HashBlobRemoveElement :: "HashTab \<Rightarrow> blob heap \<Rightarrow> addr \<Rightarrow> (HashTab \<times> blob heap) option" where
  "sqlite3HashBlobRemoveElement = hashRemoveElement blobIndex"

text \<open>\<open>blobComparator\<close> of \<open>rowlock_psm_lock.c\<close>: \<open>memcmp\<close> on the common length, then the lengths.\<close>

fun memcmp :: "nat \<Rightarrow> blob \<Rightarrow> blob \<Rightarrow> int" where
  "memcmp (Suc n) (a # as) (b # bs) = (if a = b then memcmp n as bs else if a < b then - 1 else 1)"
| "memcmp _ _ _ = 0"

definition blobComparator :: "blob \<Rightarrow> blob \<Rightarrow> int" where
  "blobComparator k1 k2 =
     (let ret = memcmp (min (length k1) (length k2)) k1 k2 in
      if ret = 0 then
        (if length k1 = length k2 then 0 else if length k1 > length k2 then 1 else - 1)
      else ret)"

lemma blobComparator_Cons:
  "blobComparator (a # as) (b # bs) = (if a = b then blobComparator as bs else if a < b then - 1 else 1)"
  by (simp add: blobComparator_def Let_def)

lemma blobComparator_Nil [simp]:
  "blobComparator [] bs = (if bs = [] then 0 else - 1)" "blobComparator as [] = (if as = [] then 0 else 1)"
  by (simp_all add: blobComparator_def Let_def)

lemma blobComparator_eq: "blobComparator k1 k2 = 0 \<longleftrightarrow> k1 = k2"
  by (induction k1 k2 rule: list_induct2') (auto simp: blobComparator_Cons)

interpretation i64: hash_keys i64Index "(=)" i64Key
proof unfold_locales
  show "i64Index k n < n" if "i64Key k" "0 < n" "n < 2 ^ 31" for k n
  proof -
    have "k mod int n < int n" "0 \<le> k mod int n" using that(2) by simp_all
    moreover have "int n < 2 ^ 32" using that(3) by simp
    ultimately have "(k mod int n) mod 2 ^ 32 = k mod int n" by (intro mod_pos_pos_trivial) linarith+
    then show ?thesis using that \<open>k mod int n < int n\<close> by (simp add: i64Index_def i64Key_def nat_less_iff)
  qed
qed auto

interpretation blobs: hash_keys blobIndex "\<lambda>k k'. blobComparator k k' = 0" "\<lambda>_. True"
  by unfold_locales (simp_all add: blobIndex_def blobComparator_eq)


abbreviation i64_inv :: "HashTab \<Rightarrow> int heap \<Rightarrow> addr list \<Rightarrow> bool" where
  "i64_inv \<equiv> hash_inv i64Index (=) i64Key"

abbreviation blob_inv :: "(blob \<Rightarrow> blob \<Rightarrow> int) \<Rightarrow> HashTab \<Rightarrow> blob heap \<Rightarrow> addr list \<Rightarrow> bool" where
  "blob_inv xCompare \<equiv> hash_inv blobIndex (\<lambda>k k'. xCompare k k' = 0) (\<lambda>_. True)"

lemma hash_inv_init: "hash_inv bidx cmp okkey hashInit H []"
  by (simp add: hash_inv_def shape_inv_def hashInit_def)

lemma contents_Nil [simp]: "contents cmp H [] k = 0"
  by (simp add: contents_def)

lemma hash_inv_frame:
  assumes i: "hash_inv bidx cmp okkey T H as" and f: "\<And>a. a \<in> set as \<Longrightarrow> H' a = H a"
  shows "hash_inv bidx cmp okkey T H' as" "contents cmp H' as = contents cmp H as"
proof -
  have k: "key_of H' a = key_of H a \<and> data_of H' a = data_of H a" if "a \<in> set as" for a
    using f [OF that] by (simp add: key_of_def data_of_def)
  have "bucket_ok bidx n H' as b B = bucket_ok bidx n H as b B" for n b B
    using k by (intro bucket_ok_cong) simp
  moreover have "dls H' 0 as 0 = dls H 0 as 0" using f by (intro dls_frame)
  ultimately show "hash_inv bidx cmp okkey T H' as"
    using i k by (simp add: hash_inv_def shape_inv_def split: option.splits)
  show "contents cmp H' as = contents cmp H as" using k by (intro ext contents_cong)
qed

lemma hash_inv_addr:
  assumes "hash_inv bidx cmp okkey T H as" "a \<in> set as"
  shows "a \<noteq> 0" "H a \<noteq> None"
proof -
  have "dls H 0 as 0" using assms(1) by (simp add: hash_inv_def shape_inv_def)
  note d = dls_nonzero [OF this] dls_alloc [OF this assms(2)]
  show "H a \<noteq> None" using d(2) by simp
  show "a \<noteq> 0" using d(1) assms(2) by metis
qed

lemma hash_keys_blobI:
  assumes "\<And>k. xCompare k k = 0" "\<And>k k'. xCompare k k' = 0 \<Longrightarrow> xCompare k' k = 0"
    and "\<And>k k' k''. xCompare k k' = 0 \<Longrightarrow> xCompare k' k'' = 0 \<Longrightarrow> xCompare k k'' = 0"
    and "\<And>k k'. xCompare k k' = 0 \<Longrightarrow> blobHash k = blobHash k'"
  shows "hash_keys blobIndex (\<lambda>k k'. xCompare k k' = 0) (\<lambda>_. True)"
proof
  show "xCompare k k' = 0 \<Longrightarrow> blobIndex k n = blobIndex k' n" for k k' n
    unfolding blobIndex_def by (drule assms(4)) simp
qed (use assms(1) in \<open>simp add: blobIndex_def\<close>, rule assms(1), erule assms(2), erule (1) assms(3))

text \<open>A comparison that equates no two different keys among those in use is as good as the equality of bytes.\<close>

lemma blob_agree:
  assumes sep: "\<forall>k\<in>K. \<forall>k'\<in>K. xCompare k k' = 0 \<longleftrightarrow> k = k'" and K: "k \<in> K" "\<forall>a\<in>set as. key_of H a \<in> K" and i: "blob_inv blobComparator T H as"
  shows "sqlite3HashBlobFind xCompare T H k = sqlite3HashBlobFind blobComparator T H k"
    "sqlite3HashBlobInsert xCompare T H k d newElem keyOk htOk = sqlite3HashBlobInsert blobComparator T H k d newElem keyOk htOk"
proof -
  have "findElementWithHash blobIndex (\<lambda>k k'. xCompare k k' = 0) T H k = findElementWithHash blobIndex (\<lambda>k k'. blobComparator k k' = 0) T H k"
    by (rule findElement_agree [where okkey = "\<lambda>_. True" and as = as]) (use i sep K in \<open>simp_all add: hash_inv_def blobIndex_def blobComparator_eq\<close>)
  then show "sqlite3HashBlobFind xCompare T H k = sqlite3HashBlobFind blobComparator T H k"
    "sqlite3HashBlobInsert xCompare T H k d newElem keyOk htOk = sqlite3HashBlobInsert blobComparator T H k d newElem keyOk htOk"
    by (simp_all add: sqlite3HashBlobFind_def sqlite3HashBlobInsert_def hashFind_def hashInsert_def)
qed

section \<open>Properties\<close>

text \<open>
  C30. \<open>sqlite3HashI64Insert\<close> on a well-formed table and a non-negative key never reads or
  writes outside of its objects, ends, keeps the table well-formed (list links, bucket counts
  and chains, element count, distinct keys), also when it resizes the table or an allocation
  fails, and returns the old data, the new data or null as documented. A later
  \<open>sqlite3HashI64Find\<close> gives the new data for the key and the old result for every other key.
\<close>

theorem HashI64_insert_find:
  assumes "i64_inv T H as" "0 \<le> k" "length as < 2 ^ 30" "newElem \<noteq> 0 \<longrightarrow> H newElem = None"
    and "sqlite3HashI64Find T H k = Some old"
  shows "\<exists>T' H' as'. sqlite3HashI64Insert T H k d newElem htOk =
           Some (if old \<noteq> 0 then old else if d \<noteq> 0 \<and> newElem = 0 then d else 0, T', H') \<and> i64_inv T' H' as' \<and>
         (\<forall>k'. 0 \<le> k' \<longrightarrow> sqlite3HashI64Find T' H' k' =
            (if k' = k \<and> (old \<noteq> 0 \<or> newElem \<noteq> 0) then Some d else sqlite3HashI64Find T H k'))"
proof -
  have k: "i64Key k" using assms(2) by (simp add: i64Key_def)
  have old: "contents (=) H as k = old"
    using i64.hashFind_ok [OF assms(1) k] assms(5) by (simp add: sqlite3HashI64Find_def)
  obtain T' H' as' where r:
    "hashInsert i64Index (=) T H k d newElem True htOk = Some (insertResult old d (newElem \<noteq> 0) True, T', H')"
    "i64_inv T' H' as'"
    "contents (=) H' as' = (\<lambda>k'. if k = k' \<and> insertStores old d (newElem \<noteq> 0) True then d else contents (=) H as k')"
    "set as' \<subseteq> insert newElem (set as)" "\<forall>b. b \<notin> insert newElem (set as) \<longrightarrow> H' b = H b"
    by (rule i64.hashInsert_ok [OF assms(1) k assms(3,4), of d True htOk, unfolded old])
  have "sqlite3HashI64Find T' H' k' =
      (if k' = k \<and> (old \<noteq> 0 \<or> newElem \<noteq> 0) then Some d else sqlite3HashI64Find T H k')" if "0 \<le> k'" for k'
  proof -
    have "i64Key k'" using that by (simp add: i64Key_def)
    then show ?thesis
      using i64.hashFind_ok [OF r(2), of k'] i64.hashFind_ok [OF assms(1), of k'] r(3) old
      by (auto simp: sqlite3HashI64Find_def insertStores_def)
  qed
  then show ?thesis using r(1,2)
    by (intro exI [of _ T'] exI [of _ H'] exI [of _ as']) (simp add: sqlite3HashI64Insert_def insertResult_def)
qed

theorem HashI64_insert_find_witness:
  "\<exists>T' H' as'. sqlite3HashI64Insert hashInit Map.empty 5 7 3 True = Some (0, T', H') \<and> i64_inv T' H' as' \<and>
     sqlite3HashI64Find T' H' 5 = Some 7 \<and> sqlite3HashI64Find T' H' 6 = Some 0"
proof -
  have f: "sqlite3HashI64Find hashInit Map.empty k = Some 0" if "0 \<le> k" for k
    using i64.hashFind_ok [OF hash_inv_init, of k] that by (simp add: sqlite3HashI64Find_def i64Key_def)
  show ?thesis
    using HashI64_insert_find [of hashInit Map.empty "[]" 5 3 0 7 True, OF hash_inv_init] f [of 5] f [of 6] by auto
qed

text \<open>
  C31. \<open>sqlite3HashBlobInsert\<close> on a well-formed table ends, keeps it well-formed, and is an update of the map that \<open>sqlite3HashBlobFind\<close> reads, in every case of a
  found or new key, null data and failed allocations, for every comparison function that equates no two different keys among those in use; they stay the
  stored keys. When the copy of the key fails, the new data is returned in both cases: a new key is then not entered, but for a key that is already there the
  new data has been stored, unlike what the comment on the function says.
\<close>

theorem HashBlob_insert_find:
  assumes sep: "\<forall>k\<in>K. \<forall>k'\<in>K. xCompare k k' = 0 \<longleftrightarrow> k = k'" and K: "k \<in> K" "\<forall>a\<in>set as. key_of H a \<in> K"
    and i: "blob_inv blobComparator T H as" and n: "length as < 2 ^ 30" and new: "newElem \<noteq> 0 \<longrightarrow> H newElem = None"
    and old: "sqlite3HashBlobFind xCompare T H k = Some old"
  shows "\<exists>T' H' as'. sqlite3HashBlobInsert xCompare T H k d newElem keyOk htOk =
           Some (if old \<noteq> 0 then (if d \<noteq> 0 \<and> \<not> keyOk then d else old) else if d \<noteq> 0 \<and> (newElem = 0 \<or> \<not> keyOk) then d else 0, T', H') \<and>
         blob_inv blobComparator T' H' as' \<and> (\<forall>a\<in>set as'. key_of H' a \<in> K) \<and>
         (\<forall>k'\<in>K. sqlite3HashBlobFind xCompare T' H' k' =
            (if k = k' \<and> (old \<noteq> 0 \<or> d = 0 \<or> newElem \<noteq> 0 \<and> keyOk) then Some d else sqlite3HashBlobFind xCompare T H k'))"
proof -
  note find = blobs.hashFind_ok [OF _ TrueI, folded sqlite3HashBlobFind_def]
  have o: "contents (\<lambda>k k'. blobComparator k k' = 0) H as k = old" using find [OF i] old blob_agree(1) [OF sep K i] by simp
  obtain T' H' as' where r: "sqlite3HashBlobInsert blobComparator T H k d newElem keyOk htOk = Some (insertResult old d (newElem \<noteq> 0) keyOk, T', H')"
    "blob_inv blobComparator T' H' as'"
    "contents (\<lambda>k k'. blobComparator k k' = 0) H' as' = (\<lambda>k'. if blobComparator k k' = 0 \<and> insertStores old d (newElem \<noteq> 0) keyOk
       then d else contents (\<lambda>k k'. blobComparator k k' = 0) H as k')"
    by (rule blobs.hashInsert_ok [OF i TrueI n new, where k = k and d = d and keyOk = keyOk and htOk = htOk, unfolded o, folded sqlite3HashBlobInsert_def])
  have "key_of H' a \<in> K" if a: "a \<in> set as'" for a
  proof (cases "key_of H' a = k")
    case False
    have "data_of H' a \<noteq> 0" using r(2) a by (simp add: hash_inv_def)
    then have "contents (\<lambda>k k'. blobComparator k k' = 0) H as (key_of H' a) \<noteq> 0"
      using blobs.contents_key [OF r(2) a] r(3) False by (simp add: blobComparator_eq)
    then obtain b where "b \<in> set as" "key_of H b = key_of H' a"
      using contents_none [of as "\<lambda>k k'. blobComparator k k' = 0" H "key_of H' a"] by (auto simp: blobComparator_eq)
    with K show ?thesis by metis
  qed (use K in simp)
  then have K': "\<forall>a\<in>set as'. key_of H' a \<in> K" by blast
  have "sqlite3HashBlobFind xCompare T' H' k' = (if k = k' \<and> insertStores old d (newElem \<noteq> 0) keyOk then Some d else sqlite3HashBlobFind xCompare T H k')"
    if "k' \<in> K" for k'
    using blob_agree(1) [OF sep that K(2) i] blob_agree(1) [OF sep that K' r(2)] find [OF i, of k'] find [OF r(2), of k'] r(3)
    by (simp add: blobComparator_eq)
  with r(1,2) K' show ?thesis
    using blob_agree(2) [OF sep K i, of d newElem keyOk htOk]
    by (intro exI [of _ T'] exI [of _ H'] exI [of _ as']) (auto simp: insertResult_def insertStores_def)
qed

theorem HashBlob_insert_find_witness:
  "\<exists>T' H' as'. sqlite3HashBlobInsert blobComparator hashInit Map.empty [1, 2] 7 3 True True = Some (0, T', H') \<and>
     blob_inv blobComparator T' H' as' \<and> sqlite3HashBlobFind blobComparator T' H' [1, 2] = Some 7"
proof -
  have f: "sqlite3HashBlobFind blobComparator hashInit Map.empty [1, 2] = Some 0"
    using blobs.hashFind_ok [OF hash_inv_init, where k = "[1, 2]" and H = Map.empty]
    by (simp add: sqlite3HashBlobFind_def)
  show ?thesis
    using HashBlob_insert_find [of UNIV blobComparator "[1, 2]" "[]" Map.empty hashInit 3 0 7 True True, OF _ _ _ hash_inv_init _ _ f]
    by (auto simp: blobComparator_eq)
qed

text \<open>
  A negative 64-bit key makes \<open>sqlite3HashI64Find\<close> and \<open>sqlite3HashI64Insert\<close> index outside of
  the bucket array as soon as the table has one, unless the key is a multiple of its size.
\<close>

theorem HashI64_negative_key:
  assumes "ht T = Some bs" "length bs = htsize T" "0 < htsize T" "htsize T < 2 ^ 31"
    and "k < 0" "\<not> int (htsize T) dvd k"
  shows "sqlite3HashI64Find T H k = None \<and> sqlite3HashI64Insert T H k d newElem htOk = None"
proof -
  define m where "m = (- k) mod int (htsize T)"
  have "m < int (htsize T)" "0 \<le> m" "m \<noteq> 0"
    using assms(3,6) unfolding m_def by (auto simp: dvd_eq_mod_eq_0 [symmetric])
  moreover have "int (htsize T) < 2 ^ 31" using assms(4) by simp
  ultimately have "(- m) mod 2 ^ 32 = 2 ^ 32 - m" by (simp add: zmod_zminus1_eq_if)
  then have "i64Index k (htsize T) = nat (2 ^ 32 - m)" using assms(5) by (simp add: i64Index_def m_def)
  then have "\<not> i64Index k (htsize T) < length bs"
    using \<open>m < int (htsize T)\<close> \<open>int (htsize T) < 2 ^ 31\<close> assms(2) by simp
  then have "findElementWithHash i64Index (=) T H k = None"
    using assms(1) by (simp add: findElementWithHash_def Let_def)
  then show ?thesis
    by (simp add: sqlite3HashI64Find_def sqlite3HashI64Insert_def hashFind_def hashInsert_def)
qed

theorem HashI64_negative_key_witness:
  "sqlite3HashI64Find \<lparr>htsize = 20, hcount = 0, firstH = 0, ht = Some (replicate 20 \<lparr>bcount = 0, chain = 0\<rparr>)\<rparr>
     Map.empty (- 1) = None"
  using HashI64_negative_key [of "\<lparr>htsize = 20, hcount = 0, firstH = 0, ht = Some (replicate 20 \<lparr>bcount = 0, chain = 0\<rparr>)\<rparr>"
      "replicate 20 \<lparr>bcount = 0, chain = 0\<rparr>" "- 1" Map.empty] by simp

text \<open>\<open>blobComparator\<close> is the lexicographic order of byte strings: it is negative, zero or positive
  when its first argument is smaller than, equal to or greater than the second.\<close>

theorem blobComparator_order:
  "(blobComparator k1 k2 < 0 \<longleftrightarrow> ord_class.lexordp k1 k2) \<and> (blobComparator k1 k2 = 0 \<longleftrightarrow> k1 = k2) \<and>
   (blobComparator k1 k2 > 0 \<longleftrightarrow> ord_class.lexordp k2 k1)"
  by (induction k1 k2 rule: list_induct2') (auto simp: blobComparator_Cons)

end
