(* ===== verification/Psm_Lock.thy ===== *)
theory Psm_Lock
  imports Hash_Table Lock_Spec
begin

text \<open>
  The index key locks of \<open>rowlock_psm_lock.c\<close>: a hash table of index numbers in shared
  memory, whose data are hash tables of locked keys, whose data are the holders. The
  objects live in the memory of the PSM library, which is not part of the sources: a
  typed map from addresses to objects for each kind of object, and the results of
  \<open>PSMalloc\<close> as arguments (0 for a failed allocation). The comparison of keys that the operations
  pass to the hash table is the parameter \<open>xc\<close>: the code passes \<open>recordComparator\<close>, which the theory \<open>Record_Compare\<close> models with SQLite's
  functions for reading records, and where the locks with that comparison are studied. The mutex of the
  shared memory makes every operation atomic. Reading through a null or unallocated
  pointer gives \<open>None\<close>; assertions are not compiled in.
\<close>

section \<open>Shared memory\<close>

record PsmIdxElem =
  idxPid :: PID
  idxOwner :: u64

record PsmMem =
  idxList :: HashTab
  listHeap :: "int heap"
  tables :: "addr \<rightharpoonup> HashTab"
  elemHeap :: "blob heap"
  idx :: "addr \<rightharpoonup> PsmIdxElem"

text \<open>The meta data as \<open>sqlite3rowlockPsmInit\<close> creates it for the first opener.\<close>

definition psmEmpty :: PsmMem where
  "psmEmpty = \<lparr>idxList = hashInit, listHeap = Map.empty, tables = Map.empty, elemHeap = Map.empty, idx = Map.empty\<rparr>"

section \<open>Operations\<close>

definition sqlite3rowlockPsmCreateTable ::
  "PsmMem \<Rightarrow> int \<Rightarrow> addr \<Rightarrow> addr \<Rightarrow> bool \<Rightarrow> (rc \<times> PsmMem) option" where
  "sqlite3rowlockPsmCreateTable M iTable pNew newElem htOk =
     Option.bind (sqlite3HashI64Find (idxList M) (listHeap M) iTable) (\<lambda>pOld.
       if pOld = 0 then
         (if pNew = 0 then Some (SQLITE_NOMEM, M)
          else Option.bind (sqlite3HashI64Insert (idxList M) (listHeap M) iTable pNew newElem htOk) (\<lambda>(r, L, H).
            Some (SQLITE_OK, M\<lparr>tables := (tables M)(pNew \<mapsto> hashInit), idxList := L, listHeap := H\<rparr>)))
       else Some (SQLITE_OK, M))"

definition sqlite3rowlockPsmDropTable :: "PsmMem \<Rightarrow> int \<Rightarrow> PsmMem option" where
  "sqlite3rowlockPsmDropTable M iTable =
     (if hcount (idxList M) = 0 then
        Option.bind (sqlite3HashI64Insert (idxList M) (listHeap M) iTable 0 0 True) (\<lambda>(pOld, L, H).
          Some (M\<lparr>tables := (if pOld \<noteq> 0 then (tables M)(pOld := None) else tables M),
            idxList := L, listHeap := H\<rparr>))
      else Some M)"

definition heldByMe :: "PsmIdxElem \<Rightarrow> PID \<Rightarrow> u64 \<Rightarrow> bool" where
  "heldByMe e pid owner \<longleftrightarrow> idxPid e = pid \<and> idxOwner e = owner"

definition sqlite3rowlockPsmLockRecord ::
  "(blob \<Rightarrow> blob \<Rightarrow> int) \<Rightarrow> PsmMem \<Rightarrow> PID \<Rightarrow> int \<Rightarrow> blob \<Rightarrow> u64 \<Rightarrow> addr \<Rightarrow> addr \<Rightarrow> bool \<Rightarrow> bool \<Rightarrow>
   (rc \<times> PsmMem) option" where
  "sqlite3rowlockPsmLockRecord xc M pid iTable key owner pNew newElem keyOk htOk =
     Option.bind (sqlite3HashI64Find (idxList M) (listHeap M) iTable) (\<lambda>pTable.
     Option.bind (tables M pTable) (\<lambda>T.
     Option.bind (sqlite3HashBlobFind xc T (elemHeap M) key) (\<lambda>pElem.
       if pElem \<noteq> 0 then
         Option.bind (idx M pElem) (\<lambda>e.
           Some (if heldByMe e pid owner then SQLITE_DONE else SQLITE_LOCKED, M))
       else if pNew = 0 then Some (SQLITE_NOMEM, M)
       else
         Option.bind (sqlite3HashBlobInsert xc T (elemHeap M) key pNew newElem keyOk htOk) (\<lambda>(r, T', H').
           Some (SQLITE_OK, M\<lparr>tables := (tables M)(pTable \<mapsto> T'), elemHeap := H',
             idx := (idx M)(pNew \<mapsto> \<lparr>idxPid = pid, idxOwner = owner\<rparr>)\<rparr>)))))"

definition sqlite3rowlockPsmLockRecordQuery ::
  "(blob \<Rightarrow> blob \<Rightarrow> int) \<Rightarrow> PsmMem \<Rightarrow> PID \<Rightarrow> int \<Rightarrow> blob \<Rightarrow> u64 \<Rightarrow> rc option" where
  "sqlite3rowlockPsmLockRecordQuery xc M pid iTable key owner =
     Option.bind (sqlite3HashI64Find (idxList M) (listHeap M) iTable) (\<lambda>pTable.
     Option.bind (tables M pTable) (\<lambda>T.
     Option.bind (sqlite3HashBlobFind xc T (elemHeap M) key) (\<lambda>pElem.
       if pElem \<noteq> 0 then
         Option.bind (idx M pElem) (\<lambda>e.
           Some (if heldByMe e pid owner then SQLITE_DONE else SQLITE_LOCKED))
       else Some SQLITE_OK)))"

definition sqlite3rowlockPsmUnlockRecord ::
  "(blob \<Rightarrow> blob \<Rightarrow> int) \<Rightarrow> PsmMem \<Rightarrow> int \<Rightarrow> blob \<Rightarrow> PsmMem option" where
  "sqlite3rowlockPsmUnlockRecord xc M iTable key =
     Option.bind (sqlite3HashI64Find (idxList M) (listHeap M) iTable) (\<lambda>pTable.
     Option.bind (tables M pTable) (\<lambda>T.
     Option.bind (sqlite3HashBlobInsert xc T (elemHeap M) key 0 0 True True) (\<lambda>(pOld, T', H').
       Some (M\<lparr>tables := (tables M)(pTable \<mapsto> T'), elemHeap := H',
         idx := (if pOld \<noteq> 0 then (idx M)(pOld := None) else idx M)\<rparr>))))"

text \<open>The two loops of \<open>sqlite3rowlockPsmUnlockRecordProcCore\<close>: over the keys of one index, over the indexes.\<close>

definition releases :: "PID \<Rightarrow> u64 \<Rightarrow> PsmIdxElem \<Rightarrow> bool" where
  "releases pid owner e \<longleftrightarrow> (pid = 0 \<or> idxPid e = pid) \<and> (owner = 0 \<or> idxOwner e = owner)"

partial_function (option) psmUnlockKeys ::
  "PID \<Rightarrow> u64 \<Rightarrow> addr \<Rightarrow> PsmMem \<Rightarrow> addr \<Rightarrow> PsmMem option" where
  "psmUnlockKeys pid owner pTable M j =
     (if j = 0 then Some M
      else Option.bind (elemHeap M j) (\<lambda>e.
           Option.bind (idx M (dataH e)) (\<lambda>d.
             if releases pid owner d then
               Option.bind (tables M pTable) (\<lambda>T.
               Option.bind (sqlite3HashBlobRemoveElement T (elemHeap M) j) (\<lambda>(T', H').
                 psmUnlockKeys pid owner pTable
                   (M\<lparr>tables := (tables M)(pTable \<mapsto> T'), elemHeap := H', idx := (idx M)(dataH e := None)\<rparr>) (nextH e)))
             else psmUnlockKeys pid owner pTable M (nextH e))))"

partial_function (option) psmUnlockIndexes :: "PID \<Rightarrow> u64 \<Rightarrow> PsmMem \<Rightarrow> addr \<Rightarrow> PsmMem option" where
  "psmUnlockIndexes pid owner M i =
     (if i = 0 then Some M
      else Option.bind (listHeap M i) (\<lambda>e.
           Option.bind (tables M (dataH e)) (\<lambda>T.
           Option.bind (psmUnlockKeys pid owner (dataH e) M (firstH T)) (\<lambda>M'.
             psmUnlockIndexes pid owner M' (nextH e)))))"

definition sqlite3rowlockPsmUnlockRecordProcCore :: "PsmMem \<Rightarrow> PID \<Rightarrow> u64 \<Rightarrow> PsmMem option" where
  "sqlite3rowlockPsmUnlockRecordProcCore M pid owner = psmUnlockIndexes pid owner M (firstH (idxList M))"

definition sqlite3rowlockPsmUnlockRecordProc :: "PsmMem \<Rightarrow> PID \<Rightarrow> u64 \<Rightarrow> PsmMem option" where
  "sqlite3rowlockPsmUnlockRecordProc M me owner = sqlite3rowlockPsmUnlockRecordProcCore M me owner"

section \<open>Invariant and abstraction\<close>

text \<open>
  A comparison for which the hash table is a map: it is an equivalence, and equal keys have the same hash. The equality of bytes is one.
\<close>

definition compareOk :: "(blob \<Rightarrow> blob \<Rightarrow> int) \<Rightarrow> bool" where
  "compareOk xc \<longleftrightarrow> (\<forall>k. xc k k = 0) \<and> (\<forall>k k'. xc k k' = 0 \<longrightarrow> xc k' k = 0) \<and>
     (\<forall>k k' k''. xc k k' = 0 \<longrightarrow> xc k' k'' = 0 \<longrightarrow> xc k k'' = 0) \<and>
     (\<forall>k k'. xc k k' = 0 \<longrightarrow> blobHash k = blobHash k')"

lemma compareOk_keys:
  assumes "compareOk xc"
  shows "hash_keys blobIndex (\<lambda>k k'. xc k k' = 0) (\<lambda>_. True)"
  by (rule hash_keys_blobI) (use assms in \<open>unfold compareOk_def, blast+\<close>)

lemma compareOk_blobComparator: "compareOk blobComparator"
  by (simp add: compareOk_def blobComparator_eq)

text \<open>The hash table of an index and the holder pointer of a key, given the element lists.\<close>

definition tabOf :: "PsmMem \<Rightarrow> addr list \<Rightarrow> int \<Rightarrow> addr" where
  "tabOf M las i = contents (=) (listHeap M) las i"

definition ptrOf :: "(blob \<Rightarrow> blob \<Rightarrow> int) \<Rightarrow> PsmMem \<Rightarrow> addr list \<Rightarrow> (int \<Rightarrow> addr list) \<Rightarrow> int \<Rightarrow> blob \<Rightarrow> addr" where
  "ptrOf xc M las tas i k =
     (if tabOf M las i = 0 then 0 else contents (\<lambda>k k'. xc k k' = 0) (elemHeap M) (tas i) k)"

definition psm_lists :: "(blob \<Rightarrow> blob \<Rightarrow> int) \<Rightarrow> PsmMem \<Rightarrow> addr list \<Rightarrow> (int \<Rightarrow> addr list) \<Rightarrow> bool" where
  "psm_lists xc M las tas \<longleftrightarrow>
     i64_inv (idxList M) (listHeap M) las \<and> length las < 2 ^ 30 \<and> tables M 0 = None \<and>
     (\<forall>i. tabOf M las i \<noteq> 0 \<longrightarrow> length (tas i) < 2 ^ 30 \<and>
        (\<exists>T. tables M (tabOf M las i) = Some T \<and> blob_inv xc T (elemHeap M) (tas i))) \<and>
     (\<forall>i i'. tabOf M las i \<noteq> 0 \<longrightarrow> tabOf M las i = tabOf M las i' \<longrightarrow> i = i') \<and>
     (\<forall>i i'. tabOf M las i \<noteq> 0 \<longrightarrow> tabOf M las i' \<noteq> 0 \<longrightarrow> i \<noteq> i' \<longrightarrow> set (tas i) \<inter> set (tas i') = {}) \<and>
     (\<forall>i k. ptrOf xc M las tas i k \<noteq> 0 \<longrightarrow> idx M (ptrOf xc M las tas i k) \<noteq> None) \<and>
     (\<forall>i i' k k'. ptrOf xc M las tas i k \<noteq> 0 \<longrightarrow> ptrOf xc M las tas i k = ptrOf xc M las tas i' k' \<longrightarrow>
        i = i' \<and> xc k k' = 0)"

definition psm_inv :: "(blob \<Rightarrow> blob \<Rightarrow> int) \<Rightarrow> PsmMem \<Rightarrow> bool" where
  "psm_inv xc M \<longleftrightarrow> (\<exists>las tas. psm_lists xc M las tas)"

text \<open>The holder of a key, read with the program's own search functions.\<close>

definition psmHolder :: "(blob \<Rightarrow> blob \<Rightarrow> int) \<Rightarrow> PsmMem \<Rightarrow> int \<Rightarrow> blob \<Rightarrow> holder option" where
  "psmHolder xc M i k =
     Option.bind (sqlite3HashI64Find (idxList M) (listHeap M) i) (\<lambda>t.
     Option.bind (tables M t) (\<lambda>T.
     Option.bind (sqlite3HashBlobFind xc T (elemHeap M) k) (\<lambda>p.
       if p = 0 then None else map_option (\<lambda>e. (idxPid e, idxOwner e)) (idx M p))))"

definition psmHasTable :: "PsmMem \<Rightarrow> int \<Rightarrow> bool" where
  "psmHasTable M i \<longleftrightarrow> (\<exists>t. sqlite3HashI64Find (idxList M) (listHeap M) i = Some t \<and> t \<noteq> 0)"

lemma psm_listsD:
  assumes "psm_lists xc M las tas"
  shows "i64_inv (idxList M) (listHeap M) las" "length las < 2 ^ 30" "tables M 0 = None"
    and "tabOf M las i \<noteq> 0 \<Longrightarrow> length (tas i) < 2 ^ 30"
    and "tabOf M las i \<noteq> 0 \<Longrightarrow> \<exists>T. tables M (tabOf M las i) = Some T \<and> blob_inv xc T (elemHeap M) (tas i)"
    and "tabOf M las i \<noteq> 0 \<Longrightarrow> tabOf M las i = tabOf M las i' \<Longrightarrow> i = i'"
    and "tabOf M las i \<noteq> 0 \<Longrightarrow> tabOf M las i' \<noteq> 0 \<Longrightarrow> i \<noteq> i' \<Longrightarrow> set (tas i) \<inter> set (tas i') = {}"
    and "ptrOf xc M las tas i k \<noteq> 0 \<Longrightarrow> idx M (ptrOf xc M las tas i k) \<noteq> None"
    and "ptrOf xc M las tas i k \<noteq> 0 \<Longrightarrow> ptrOf xc M las tas i k = ptrOf xc M las tas i' k' \<Longrightarrow> i = i' \<and> xc k k' = 0"
  using assms unfolding psm_lists_def by blast+

lemma psm_find_table:
  assumes "psm_lists xc M las tas" "0 \<le> i"
  shows "sqlite3HashI64Find (idxList M) (listHeap M) i = Some (tabOf M las i)"
  using i64.hashFind_ok [OF psm_listsD(1) [OF assms(1)], of i] assms(2)
  unfolding sqlite3HashI64Find_def tabOf_def i64Key_def by blast

lemma psm_find_key:
  assumes "compareOk xc" "psm_lists xc M las tas" "tabOf M las i \<noteq> 0" "tables M (tabOf M las i) = Some T"
  shows "sqlite3HashBlobFind xc T (elemHeap M) k = Some (ptrOf xc M las tas i k)"
proof -
  obtain T' where "tables M (tabOf M las i) = Some T'" "blob_inv xc T' (elemHeap M) (tas i)"
    using psm_listsD(5) [OF assms(2,3)] by blast
  then have "blob_inv xc T (elemHeap M) (tas i)" using assms(4) by simp
  from hash_keys.hashFind_ok [OF compareOk_keys [OF assms(1)] this TrueI, of k] show ?thesis
    using assms(3) by (simp add: sqlite3HashBlobFind_def ptrOf_def)
qed

text \<open>The holder in terms of the lists; 0 is never the address of an object.\<close>

definition holderOf :: "(blob \<Rightarrow> blob \<Rightarrow> int) \<Rightarrow> PsmMem \<Rightarrow> addr list \<Rightarrow> (int \<Rightarrow> addr list) \<Rightarrow> int \<Rightarrow> blob \<Rightarrow> holder option" where
  "holderOf xc M las tas i k =
     (if ptrOf xc M las tas i k = 0 then None
      else map_option (\<lambda>e. (idxPid e, idxOwner e)) (idx M (ptrOf xc M las tas i k)))"

lemma psmHolder_eq:
  assumes "compareOk xc" "psm_lists xc M las tas" "0 \<le> i"
  shows "psmHolder xc M i k = holderOf xc M las tas i k"
proof (cases "tabOf M las i = 0")
  case True
  then show ?thesis using psm_find_table [OF assms(2,3)] psm_listsD(3) [OF assms(2)]
    by (simp add: psmHolder_def holderOf_def ptrOf_def)
next
  case False
  then obtain T where "tables M (tabOf M las i) = Some T" using psm_listsD(5) [OF assms(2)] by blast
  then show ?thesis using psm_find_table [OF assms(2,3)] psm_find_key [OF assms(1,2) False]
    by (simp add: psmHolder_def holderOf_def)
qed


section \<open>Changing the keys of one index\<close>

lemma psm_update:
  assumes L: "psm_lists xc M las tas" and t: "tabOf M las i \<noteq> 0"
    and B: "blob_inv xc T' H' as'" "length as' < 2 ^ 30"
    and fr: "\<forall>b. b \<notin> N \<union> set (tas i) \<longrightarrow> H' b = elemHeap M b" "set as' \<subseteq> N \<union> set (tas i)"
    and N: "\<And>i'. i' \<noteq> i \<Longrightarrow> tabOf M las i' \<noteq> 0 \<Longrightarrow> N \<inter> set (tas i') = {}"
    and C: "C = contents (\<lambda>k k'. xc k k' = 0) H' as'"
    and I: "\<And>k. C k \<noteq> 0 \<Longrightarrow> I (C k) \<noteq> None"
      "\<And>i' k. i' \<noteq> i \<Longrightarrow> ptrOf xc M las tas i' k \<noteq> 0 \<Longrightarrow> I (ptrOf xc M las tas i' k) = idx M (ptrOf xc M las tas i' k)"
      "\<And>k k'. C k \<noteq> 0 \<Longrightarrow> C k = C k' \<Longrightarrow> xc k k' = 0"
      "\<And>k i' k'. i' \<noteq> i \<Longrightarrow> C k \<noteq> 0 \<Longrightarrow> C k \<noteq> ptrOf xc M las tas i' k'"
    and M': "M' = M\<lparr>tables := (tables M)(tabOf M las i \<mapsto> T'), elemHeap := H', idx := I\<rparr>"
  shows "psm_lists xc M' las (tas(i := as')) \<and>
    (\<forall>i' k. ptrOf xc M' las (tas(i := as')) i' k = (if i' = i then C k else ptrOf xc M las tas i' k))"
proof -
  note D = psm_listsD [OF L]
  have tab: "tabOf M' las j = tabOf M las j" for j by (simp add: tabOf_def M')
  have other: "blob_inv xc T H' (tas j) = blob_inv xc T (elemHeap M) (tas j) \<and>
      contents (\<lambda>k k'. xc k k' = 0) H' (tas j) = contents (\<lambda>k k'. xc k k' = 0) (elemHeap M) (tas j)"
    if "j \<noteq> i" "tabOf M las j \<noteq> 0" for j T
  proof -
    have e: "H' a = elemHeap M a" if "a \<in> set (tas j)" for a :: addr
      using fr(1) N [OF \<open>j \<noteq> i\<close> \<open>tabOf M las j \<noteq> 0\<close>] D(7) [OF t \<open>tabOf M las j \<noteq> 0\<close>] \<open>j \<noteq> i\<close> that by blast
    obtain T0 where "blob_inv xc T0 (elemHeap M) (tas j)" using D(5) [OF \<open>tabOf M las j \<noteq> 0\<close>] by blast
    from hash_inv_frame(2) [OF this e] show ?thesis
      using hash_inv_frame(1) [of blobIndex _ "\<lambda>_. True" T "elemHeap M" "tas j" H', OF _ e]
        hash_inv_frame(1) [of blobIndex _ "\<lambda>_. True" T H' "tas j" "elemHeap M", OF _ e [symmetric]] by blast
  qed
  have ptr: "ptrOf xc M' las (tas(i := as')) i' k = (if i' = i then C k else ptrOf xc M las tas i' k)" for i' k
    using t other [of i'] by (simp add: ptrOf_def tab) (simp add: M' C)
  have newdis: "set as' \<inter> set (tas j) = {}" if "j \<noteq> i" "tabOf M las j \<noteq> 0" for j
    using fr(2) N [OF that] D(7) [OF t that(2)] that(1) by blast
  have inj: "tabOf M las j \<noteq> tabOf M las i" if "j \<noteq> i" for j using D(6) [OF t] that by metis
  have "psm_lists xc M' las (tas(i := as'))"
    unfolding psm_lists_def tab ptr
  proof (intro conjI allI impI)
    show "i64_inv (idxList M') (listHeap M') las" using D(1) by (simp add: M')
    show "length las < 2 ^ 30" by (rule D(2))
    show "tables M' 0 = None" using D(3) t by (simp add: M')
    fix j j' k k'
    show "length ((tas(i := as')) j) < 2 ^ 30" if "tabOf M las j \<noteq> 0" using D(4) [OF that] B(2) by simp
    show "\<exists>T. tables M' (tabOf M las j) = Some T \<and> blob_inv xc T (elemHeap M') ((tas(i := as')) j)"
      if "tabOf M las j \<noteq> 0"
      using D(5) [OF that] other [OF _ that] inj [of j] B(1) by (cases "j = i") (auto simp: M')
    show "j = j'" if "tabOf M las j \<noteq> 0" "tabOf M las j = tabOf M las j'" using D(6) [OF that] .
    show "set ((tas(i := as')) j) \<inter> set ((tas(i := as')) j') = {}"
      if "tabOf M las j \<noteq> 0" "tabOf M las j' \<noteq> 0" "j \<noteq> j'"
      using D(7) [OF that] newdis [of j] newdis [of j'] that by (auto simp: Int_commute)
    show "idx M' (if j = i then C k else ptrOf xc M las tas j k) \<noteq> None"
      if "(if j = i then C k else ptrOf xc M las tas j k) \<noteq> 0"
      using that I(1) [of k] I(2) [of j k] D(8) [of j k] by (simp add: M' split: if_splits)
    assume n: "(if j = i then C k else ptrOf xc M las tas j k) \<noteq> 0"
      "(if j = i then C k else ptrOf xc M las tas j k) = (if j' = i then C k' else ptrOf xc M las tas j' k')"
    have "j = j' \<and> xc k k' = 0"
      using n I(3) [of k k'] I(4) [of j' k k'] I(4) [of j k' k] D(9) [of j k j' k'] by (simp split: if_splits)
    then show "j = j'" "xc k k' = 0" by simp_all
  qed
  with ptr show ?thesis by blast
qed


section \<open>The operations on the lists\<close>

lemma psm_table:
  assumes "psm_lists xc M las tas" "tabOf M las i \<noteq> 0"
  obtains T where "tables M (tabOf M las i) = Some T" "blob_inv xc T (elemHeap M) (tas i)"
    "ptrOf xc M las tas i = contents (\<lambda>k k'. xc k k' = 0) (elemHeap M) (tas i)"
  using psm_listsD(5) [OF assms] assms(2) by (auto simp: ptrOf_def fun_eq_iff)

lemma psm_fresh:
  assumes "psm_lists xc M las tas" "tabOf M las i \<noteq> 0" "a \<noteq> 0 \<longrightarrow> elemHeap M a = None"
  shows "{a} \<inter> set (tas i) = {}"
proof -
  obtain T where "blob_inv xc T (elemHeap M) (tas i)" using psm_table [OF assms(1,2)] by metis
  from hash_inv_addr [OF this, of a] assms(3) show ?thesis by auto
qed

lemma psm_lock_new:
  assumes c: "compareOk xc" and L: "psm_lists xc M las tas" and i: "0 \<le> i" and t: "tabOf M las i \<noteq> 0"
    and room: "length (tas i) + 1 < 2 ^ 30" and new: "pNew \<noteq> 0" "idx M pNew = None"
    and fr: "newElem \<noteq> 0 \<longrightarrow> elemHeap M newElem = None" and free: "ptrOf xc M las tas i k = 0"
  shows "\<exists>M' tas'. sqlite3rowlockPsmLockRecord xc M pid i k owner pNew newElem keyOk htOk = Some (SQLITE_OK, M') \<and>
    psm_lists xc M' las tas' \<and>
    (\<forall>i' k'. ptrOf xc M' las tas' i' k' =
       (if i' = i \<and> xc k k' = 0 \<and> newElem \<noteq> 0 \<and> keyOk then pNew else ptrOf xc M las tas i' k')) \<and>
    idx M' = (idx M)(pNew \<mapsto> \<lparr>idxPid = pid, idxOwner = owner\<rparr>)"
proof -
  note hk = compareOk_keys [OF c]
  obtain T where T: "tables M (tabOf M las i) = Some T" "blob_inv xc T (elemHeap M) (tas i)"
    and p: "ptrOf xc M las tas i = contents (\<lambda>k k'. xc k k' = 0) (elemHeap M) (tas i)"
    using psm_table [OF L t] by metis
  have n: "length (tas i) < 2 ^ 30" using room by simp
  obtain T' H' as' where r:
    "hashInsert blobIndex (\<lambda>k k'. xc k k' = 0) T (elemHeap M) k pNew newElem keyOk htOk =
       Some (insertResult 0 pNew (newElem \<noteq> 0) keyOk, T', H')"
    "blob_inv xc T' H' as'"
    "contents (\<lambda>k k'. xc k k' = 0) H' as' = (\<lambda>k'. if xc k k' = 0 \<and> insertStores 0 pNew (newElem \<noteq> 0) keyOk
       then pNew else ptrOf xc M las tas i k')"
    "set as' \<subseteq> insert newElem (set (tas i))" "\<forall>b. b \<notin> insert newElem (set (tas i)) \<longrightarrow> H' b = elemHeap M b"
    by (rule hash_keys.hashInsert_ok [OF hk T(2) TrueI n fr, where k = k and d = pNew and keyOk = keyOk and htOk = htOk,
          folded p, unfolded free])
  define C where "C = contents (\<lambda>k k'. xc k k' = 0) H' as'"
  have C: "C k' = (if xc k k' = 0 \<and> newElem \<noteq> 0 \<and> keyOk then pNew else ptrOf xc M las tas i k')" for k'
    using new(1) by (simp add: C_def r(3) insertStores_def)
  define M' where "M' = M\<lparr>tables := (tables M)(tabOf M las i \<mapsto> T'), elemHeap := H',
      idx := (idx M)(pNew \<mapsto> \<lparr>idxPid = pid, idxOwner = owner\<rparr>)\<rparr>"
  have notnew: "ptrOf xc M las tas i' k' \<noteq> pNew" for i' k' using psm_listsD(8) [OF L, of i' k'] new by auto
  have "distinct as'" "distinct (tas i)" using r(2) T(2) by (simp_all add: hash_inv_def shape_inv_def)
  then have len: "length as' < 2 ^ 30"
    using card_mono [OF _ r(4)] room card_insert_le_m1 [of "Suc (length (tas i))" "set (tas i)" newElem]
    by (simp add: distinct_card card_insert_if split: if_splits)
  have fr2: "\<forall>b. b \<notin> {newElem} \<union> set (tas i) \<longrightarrow> H' b = elemHeap M b" "set as' \<subseteq> {newElem} \<union> set (tas i)"
    using r(4,5) by simp_all
  have upd: "psm_lists xc M' las (tas(i := as')) \<and>
    (\<forall>i' k'. ptrOf xc M' las (tas(i := as')) i' k' = (if i' = i then C k' else ptrOf xc M las tas i' k'))"
  proof (rule psm_update [OF L t r(2) len fr2 psm_fresh [OF L _ fr] C_def _ _ _ _ M'_def])
    fix k1 k2 j
    show "((idx M)(pNew \<mapsto> \<lparr>idxPid = pid, idxOwner = owner\<rparr>)) (C k1) \<noteq> None" if "C k1 \<noteq> 0"
      using that psm_listsD(8) [OF L, of i k1] by (auto simp: C split: if_splits)
    show "xc k1 k2 = 0" if "C k1 \<noteq> 0" "C k1 = C k2"
    proof -
      have eq: "xc k k1 = 0 \<Longrightarrow> xc k k2 = 0 \<Longrightarrow> xc k1 k2 = 0" using c unfolding compareOk_def by blast
      show ?thesis using that notnew [of i] psm_listsD(9) [OF L, of i k1 i k2] eq
        by (simp add: C split: if_splits) (metis notnew)+
    qed
    show "C k1 \<noteq> ptrOf xc M las tas j k2" if "j \<noteq> i" "C k1 \<noteq> 0"
      using that notnew [of j k2] psm_listsD(9) [OF L, of i k1 j k2] by (auto simp: C split: if_splits)
  qed (use notnew in auto)
  have "sqlite3rowlockPsmLockRecord xc M pid i k owner pNew newElem keyOk htOk = Some (SQLITE_OK, M')"
    using psm_find_table [OF L i] psm_find_key [OF c L t T(1), of k] T(1) r(1) free new(1)
    by (simp add: sqlite3rowlockPsmLockRecord_def sqlite3HashBlobInsert_def M'_def)
  moreover have "idx M' = (idx M)(pNew \<mapsto> \<lparr>idxPid = pid, idxOwner = owner\<rparr>)" by (simp add: M'_def)
  ultimately show ?thesis using upd by (intro exI [of _ M'] exI [of _ "tas(i := as')"]) (simp add: C)
qed


lemma psm_unlock_lists:
  assumes c: "compareOk xc" and L: "psm_lists xc M las tas" and i: "0 \<le> i" and t: "tabOf M las i \<noteq> 0"
  shows "\<exists>M' tas'. sqlite3rowlockPsmUnlockRecord xc M i k = Some M' \<and> psm_lists xc M' las tas' \<and>
    (\<forall>i' k'. ptrOf xc M' las tas' i' k' = (if i' = i \<and> xc k k' = 0 then 0 else ptrOf xc M las tas i' k')) \<and>
    idx M' = (if ptrOf xc M las tas i k \<noteq> 0 then (idx M)(ptrOf xc M las tas i k := None) else idx M)"
proof -
  note hk = compareOk_keys [OF c]
  let ?old = "ptrOf xc M las tas i k"
  obtain T where T: "tables M (tabOf M las i) = Some T" "blob_inv xc T (elemHeap M) (tas i)"
    and p: "ptrOf xc M las tas i = contents (\<lambda>k k'. xc k k' = 0) (elemHeap M) (tas i)"
    using psm_table [OF L t] by metis
  have n: "length (tas i) < 2 ^ 30" by (rule psm_listsD(4) [OF L t])
  have fr: "(0 :: nat) \<noteq> 0 \<longrightarrow> elemHeap M 0 = None" by simp
  obtain T' H' as' where r:
    "hashInsert blobIndex (\<lambda>k k'. xc k k' = 0) T (elemHeap M) k 0 0 True True =
       Some (insertResult ?old 0 ((0 :: nat) \<noteq> 0) True, T', H')"
    "blob_inv xc T' H' as'"
    "contents (\<lambda>k k'. xc k k' = 0) H' as' = (\<lambda>k'. if xc k k' = 0 \<and> insertStores ?old 0 ((0 :: nat) \<noteq> 0) True
       then 0 else ptrOf xc M las tas i k')"
    "set as' \<subseteq> insert 0 (set (tas i))" "\<forall>b. b \<notin> insert 0 (set (tas i)) \<longrightarrow> H' b = elemHeap M b"
    by (rule hash_keys.hashInsert_ok [OF hk T(2) TrueI n fr, where k = k and d = 0 and keyOk = True and htOk = True,
          folded p])
  define C where "C = contents (\<lambda>k k'. xc k k' = 0) H' as'"
  have C: "C k' = (if xc k k' = 0 then 0 else ptrOf xc M las tas i k')" for k'
    by (simp add: C_def r(3) insertStores_def)
  define I where "I = (if ?old \<noteq> 0 then (idx M)(?old := None) else idx M)"
  define M' where "M' = M\<lparr>tables := (tables M)(tabOf M las i \<mapsto> T'), elemHeap := H', idx := I\<rparr>"
  have notold: "ptrOf xc M las tas i' k' \<noteq> ?old \<or> ?old = 0" if "i' \<noteq> i \<or> xc k k' \<noteq> 0" for i' k'
    using psm_listsD(9) [OF L, of i k i' k'] that by metis
  have n0: "0 \<notin> set as'" "0 \<notin> set (tas i)" using hash_inv_addr(1) [OF r(2)] hash_inv_addr(1) [OF T(2)] by blast+
  then have sub: "set as' \<subseteq> set (tas i)" using r(4) by blast
  have "distinct as'" using r(2) by (simp add: hash_inv_def shape_inv_def)
  then have "length as' \<le> length (tas i)"
    using card_mono [OF _ sub] card_length [of "tas i"] by (simp add: distinct_card)
  then have len: "length as' < 2 ^ 30" using n by simp
  have fr2: "\<forall>b. b \<notin> {0} \<union> set (tas i) \<longrightarrow> H' b = elemHeap M b" "set as' \<subseteq> {0} \<union> set (tas i)"
    using r(4,5) by simp_all
  have upd: "psm_lists xc M' las (tas(i := as')) \<and>
    (\<forall>i' k'. ptrOf xc M' las (tas(i := as')) i' k' = (if i' = i then C k' else ptrOf xc M las tas i' k'))"
  proof (rule psm_update [OF L t r(2) len fr2 psm_fresh [OF L _ fr] C_def _ _ _ _ M'_def])
    fix k1 k2 j
    show "I (C k1) \<noteq> None" if "C k1 \<noteq> 0"
      using that notold [of i k1] psm_listsD(8) [OF L, of i k1] by (auto simp: C I_def split: if_splits)
    show "I (ptrOf xc M las tas j k1) = idx M (ptrOf xc M las tas j k1)" if "j \<noteq> i"
      using that notold [of j k1] by (auto simp: I_def)
    show "xc k1 k2 = 0" if "C k1 \<noteq> 0" "C k1 = C k2"
      using that psm_listsD(9) [OF L, of i k1 i k2] by (simp add: C split: if_splits)
    show "C k1 \<noteq> ptrOf xc M las tas j k2" if "j \<noteq> i" "C k1 \<noteq> 0"
      using that psm_listsD(9) [OF L, of i k1 j k2] by (auto simp: C split: if_splits)
  qed
  have "sqlite3rowlockPsmUnlockRecord xc M i k = Some M'"
    using psm_find_table [OF L i] T(1) r(1)
    by (simp add: sqlite3rowlockPsmUnlockRecord_def sqlite3HashBlobInsert_def M'_def insertResult_def I_def)
  then show ?thesis using upd by (intro exI [of _ M'] exI [of _ "tas(i := as')"]) (simp add: C M'_def I_def)
qed

section \<open>The release loops\<close>

definition relHolder :: "PID \<Rightarrow> u64 \<Rightarrow> holder option \<Rightarrow> holder option" where
  "relHolder pid owner h = (case h of None \<Rightarrow> None | Some h \<Rightarrow> if holderMatches pid owner h then None else Some h)"

text \<open>Removal of one element of the list of an index.\<close>

lemma psm_remove_elem:
  assumes c: "compareOk xc" and L: "psm_lists xc M las tas" and t: "tabOf M las i \<noteq> 0" and a: "a \<in> set (tas i)"
  obtains T T' H' where "tables M (tabOf M las i) = Some T"
    "sqlite3HashBlobRemoveElement T (elemHeap M) a = Some (T', H')"
    "psm_lists xc (M\<lparr>tables := (tables M)(tabOf M las i \<mapsto> T'), elemHeap := H', idx := (idx M)(data_of (elemHeap M) a := None)\<rparr>)
       las (tas(i := remove1 a (tas i)))"
    "\<forall>i' k. holderOf xc (M\<lparr>tables := (tables M)(tabOf M las i \<mapsto> T'), elemHeap := H', idx := (idx M)(data_of (elemHeap M) a := None)\<rparr>)
       las (tas(i := remove1 a (tas i))) i' k =
       (if i' = i \<and> xc (key_of (elemHeap M) a) k = 0 then None else holderOf xc M las tas i' k)"
    "same_elems (elemHeap M) H' (- {a})"
proof -
  note hk = compareOk_keys [OF c]
  let ?k = "key_of (elemHeap M) a" and ?d = "data_of (elemHeap M) a"
  obtain T where T: "tables M (tabOf M las i) = Some T" "blob_inv xc T (elemHeap M) (tas i)"
    and p: "ptrOf xc M las tas i = contents (\<lambda>k k'. xc k k' = 0) (elemHeap M) (tas i)"
    using psm_table [OF L t] by metis
  have n: "length (tas i) < 2 ^ 32" using psm_listsD(4) [OF L t] by simp
  obtain T' H' as' where r: "hashRemoveElement blobIndex T (elemHeap M) a = Some (T', H')" "blob_inv xc T' H' as'"
    "contents (\<lambda>k k'. xc k k' = 0) H' as' = (\<lambda>k'. if xc ?k k' = 0 then 0 else ptrOf xc M las tas i k')"
    "set as' = set (tas i) - {a}" "\<forall>b. b \<notin> set (tas i) \<longrightarrow> H' b = elemHeap M b" "same_elems (elemHeap M) H' (- {a})" "H' a = None"
    "as' = remove1 a (tas i)"
    by (rule hash_keys.hashRemoveElement_ok [OF hk T(2) a n, folded p])
  define C where "C = contents (\<lambda>k k'. xc k k' = 0) H' as'"
  have C: "C k' = (if xc ?k k' = 0 then 0 else ptrOf xc M las tas i k')" for k' by (simp add: C_def r(3))
  have refl: "xc ?k ?k = 0" using c by (simp add: compareOk_def)
  have d: "?d = ptrOf xc M las tas i ?k" unfolding p
    using hash_keys.contents_key [OF hk T(2) a refl] by simp
  have d0: "?d \<noteq> 0" using T(2) a by (simp add: hash_inv_def)
  define M' where "M' = M\<lparr>tables := (tables M)(tabOf M las i \<mapsto> T'), elemHeap := H', idx := (idx M)(?d := None)\<rparr>"
  have notd: "ptrOf xc M las tas i' k' \<noteq> ?d" if "i' \<noteq> i \<or> xc ?k k' \<noteq> 0" for i' k'
    using psm_listsD(9) [OF L, of i ?k i' k'] that d d0 by metis
  have len: "length as' < 2 ^ 30" using psm_listsD(4) [OF L t] a by (simp add: r(8) length_remove1)
  have fr2: "\<forall>b. b \<notin> {} \<union> set (tas i) \<longrightarrow> H' b = elemHeap M b" "set as' \<subseteq> {} \<union> set (tas i)"
    using r(4,5) by auto
  have upd: "psm_lists xc M' las (tas(i := as')) \<and>
    (\<forall>i' k'. ptrOf xc M' las (tas(i := as')) i' k' = (if i' = i then C k' else ptrOf xc M las tas i' k'))"
  proof (rule psm_update [OF L t r(2) len fr2 _ C_def _ _ _ _ M'_def])
    fix k1 k2 j
    show "((idx M)(?d := None)) (C k1) \<noteq> None" if "C k1 \<noteq> 0"
      using that notd [of i k1] psm_listsD(8) [OF L, of i k1] by (simp add: C split: if_splits)
    show "((idx M)(?d := None)) (ptrOf xc M las tas j k1) = idx M (ptrOf xc M las tas j k1)" if "j \<noteq> i"
      using that notd [of j k1] by simp
    show "xc k1 k2 = 0" if "C k1 \<noteq> 0" "C k1 = C k2"
      using that psm_listsD(9) [OF L, of i k1 i k2] by (simp add: C split: if_splits)
    show "C k1 \<noteq> ptrOf xc M las tas j k2" if "j \<noteq> i" "C k1 \<noteq> 0"
      using that psm_listsD(9) [OF L, of i k1 j k2] by (auto simp: C split: if_splits)
  qed simp
  have "holderOf xc M' las (tas(i := as')) i' k = (if i' = i \<and> xc ?k k = 0 then None else holderOf xc M las tas i' k)" for i' k
    using upd notd [of i' k] by (auto simp: holderOf_def C M'_def)
  then show thesis using T(1) r(1,6) upd
    by (intro that [of T T' H']) (simp_all add: sqlite3HashBlobRemoveElement_def M'_def r(8))
qed


lemma psm_elem:
  assumes c: "compareOk xc" and L: "psm_lists xc M las tas" and t: "tabOf M las i \<noteq> 0" and as: "tas i = ds @ a # rs"
  obtains e d where "a \<noteq> 0" "elemHeap M a = Some e" "nextH e = hdq rs 0" "idx M (dataH e) = Some d"
    "\<forall>k. xc (keyH e) k = 0 \<longrightarrow> holderOf xc M las tas i k = Some (idxPid d, idxOwner d)"
proof -
  obtain T where T: "blob_inv xc T (elemHeap M) (tas i)"
    and p: "ptrOf xc M las tas i = contents (\<lambda>k k'. xc k k' = 0) (elemHeap M) (tas i)"
    using psm_table [OF L t] by metis
  have "dls (elemHeap M) 0 (ds @ a # rs) 0" using T by (simp add: hash_inv_def shape_inv_def as)
  then obtain e where e: "elemHeap M a = Some e" "a \<noteq> 0" "nextH e = hdq rs 0" using dls_mid by metis
  have a: "a \<in> set (tas i)" by (simp add: as)
  have pk: "ptrOf xc M las tas i k = dataH e" if "xc (keyH e) k = 0" for k
    using hash_keys.contents_key [OF compareOk_keys [OF c] T a, of k] that e unfolding p
    by (simp add: key_of_def data_of_def)
  have d0: "dataH e \<noteq> 0" using T a e by (auto simp: hash_inv_def data_of_def)
  have "xc (keyH e) (keyH e) = 0" using c by (simp add: compareOk_def)
  then have "idx M (dataH e) \<noteq> None" using psm_listsD(8) [OF L, of i "keyH e"] pk d0 by simp
  then obtain d where "idx M (dataH e) = Some d" by blast
  with e pk d0 show thesis by (intro that [of e d]) (simp_all add: holderOf_def)
qed

lemma releases_matches: "releases pid owner d = holderMatches pid owner (idxPid d, idxOwner d)"
  by (simp add: releases_def holderMatches_def)

lemma psmUnlockKeys_ok:
  assumes c: "compareOk xc" and t: "tabOf M las i \<noteq> 0"
  shows "psm_lists xc M las tas \<Longrightarrow> tas i = ds @ rs \<Longrightarrow>
   \<exists>M' tas'. psmUnlockKeys pid owner (tabOf M las i) M (hdq rs 0) = Some M' \<and> psm_lists xc M' las tas' \<and>
     idxList M' = idxList M \<and> listHeap M' = listHeap M \<and>
     (\<forall>i' k. holderOf xc M' las tas' i' k =
        (if i' = i \<and> (\<exists>a\<in>set rs. xc (key_of (elemHeap M) a) k = 0) then relHolder pid owner (holderOf xc M las tas i k)
         else holderOf xc M las tas i' k))"
  using t
proof (induction rs arbitrary: M tas ds)
  case Nil
  then show ?case by (subst psmUnlockKeys.simps) auto
next
  case (Cons a rs)
  note L = Cons.prems(1) and as = Cons.prems(2) and t = Cons.prems(3)
  let ?t = "tabOf M las i"
  obtain e d where e: "a \<noteq> 0" "elemHeap M a = Some e" "nextH e = hdq rs 0" "idx M (dataH e) = Some d"
    and h: "\<forall>k. xc (keyH e) k = 0 \<longrightarrow> holderOf xc M las tas i k = Some (idxPid d, idxOwner d)"
    by (rule psm_elem [OF c L t as])
  have ka: "key_of (elemHeap M) a = keyH e" "data_of (elemHeap M) a = dataH e" using e by (simp_all add: key_of_def data_of_def)
  show ?case
  proof (cases "releases pid owner d")
    case False
    have step: "psmUnlockKeys pid owner ?t M a = psmUnlockKeys pid owner ?t M (hdq rs 0)"
      using e False by (subst psmUnlockKeys.simps) simp
    have as': "tas i = (ds @ [a]) @ rs" using as by simp
    obtain M' tas' where r: "psmUnlockKeys pid owner ?t M (hdq rs 0) = Some M'" "psm_lists xc M' las tas'"
      "idxList M' = idxList M" "listHeap M' = listHeap M"
      "\<forall>i' k. holderOf xc M' las tas' i' k =
        (if i' = i \<and> (\<exists>a\<in>set rs. xc (key_of (elemHeap M) a) k = 0) then relHolder pid owner (holderOf xc M las tas i k)
         else holderOf xc M las tas i' k)"
      using Cons.IH [OF L as' t] by blast
    have keep: "relHolder pid owner (holderOf xc M las tas i k) = holderOf xc M las tas i k" if "xc (keyH e) k = 0" for k
      using h that False by (simp add: relHolder_def releases_matches)
    show ?thesis
      by (rule exI [of _ M'], rule exI [of _ tas']) (use r step keep ka in auto)
  next
    case True
    have ain: "a \<in> set (tas i)" using as by simp
    define MM where "MM T' H' = M\<lparr>tables := (tables M)(?t \<mapsto> T'), elemHeap := H', idx := (idx M)(dataH e := None)\<rparr>" for T' H'
    obtain T T' H' where rm: "tables M ?t = Some T" "sqlite3HashBlobRemoveElement T (elemHeap M) a = Some (T', H')"
      "psm_lists xc (MM T' H') las (tas(i := remove1 a (tas i)))"
      "\<forall>i' k. holderOf xc (MM T' H') las (tas(i := remove1 a (tas i))) i' k =
         (if i' = i \<and> xc (keyH e) k = 0 then None else holderOf xc M las tas i' k)"
      "same_elems (elemHeap M) H' (- {a})"
      by (rule psm_remove_elem [OF c L t ain, unfolded ka, folded MM_def])
    define M1 where "M1 = MM T' H'"
    have M1: "tabOf M1 las i = ?t" "idxList M1 = idxList M" "listHeap M1 = listHeap M" "elemHeap M1 = H'"
      by (simp_all add: M1_def MM_def tabOf_def)
    obtain T0 where T0: "blob_inv xc T0 (elemHeap M) (tas i)" using psm_table [OF L t] by metis
    have alloc: "elemHeap M b \<noteq> None" if "b \<in> set rs" for b by (rule hash_inv_addr(2) [OF T0]) (simp add: as that)
    have dist: "distinct (ds @ a # rs)" using T0 by (simp add: hash_inv_def shape_inv_def as)
    then have as1: "(tas(i := remove1 a (tas i))) i = ds @ rs" by (simp add: as remove1_append)
    have key1: "key_of (elemHeap M1) b = key_of (elemHeap M) b" if "b \<in> set rs" for b
      using same_elemsD(2) [OF rm(5), of b] alloc [OF that] dist that by (auto simp: M1)
    have step: "psmUnlockKeys pid owner ?t M a = psmUnlockKeys pid owner ?t M1 (hdq rs 0)"
      using e True rm(1,2) by (subst psmUnlockKeys.simps) (simp add: M1_def MM_def)
    have t1: "tabOf M1 las i \<noteq> 0" using M1(1) t by simp
    obtain M' tas' where r: "psmUnlockKeys pid owner ?t M1 (hdq rs 0) = Some M'" "psm_lists xc M' las tas'"
      "idxList M' = idxList M" "listHeap M' = listHeap M"
      "\<forall>i' k. holderOf xc M' las tas' i' k =
        (if i' = i \<and> (\<exists>a\<in>set rs. xc (key_of (elemHeap M1) a) k = 0)
         then relHolder pid owner (holderOf xc M1 las (tas(i := remove1 a (tas i))) i k)
         else holderOf xc M1 las (tas(i := remove1 a (tas i))) i' k)"
      using Cons.IH [OF rm(3) [folded M1_def] as1 t1] unfolding M1(1,2,3) by blast
    have gone: "relHolder pid owner (holderOf xc M las tas i k) = None" if "xc (keyH e) k = 0" for k
      using h that True by (simp add: relHolder_def releases_matches)
    have rel0: "relHolder pid owner None = None" by (simp add: relHolder_def)
    have ex: "(\<exists>a\<in>set rs. xc (key_of (elemHeap M1) a) k = 0) = (\<exists>a\<in>set rs. xc (key_of (elemHeap M) a) k = 0)" for k
      using key1 by simp
    have M1h: "holderOf xc M1 las (tas(i := remove1 a (tas i))) i' k =
        (if i' = i \<and> xc (keyH e) k = 0 then None else holderOf xc M las tas i' k)" for i' k
      using rm(4) [folded M1_def] by blast
    have hol: "holderOf xc M' las tas' i' k =
        (if i' = i \<and> (\<exists>a\<in>set (a # rs). xc (key_of (elemHeap M) a) k = 0)
         then relHolder pid owner (holderOf xc M las tas i k) else holderOf xc M las tas i' k)" for i' k
      using r(5) [rule_format, of i' k] gone [of k] unfolding M1h ex by (auto simp: ka rel0)
    show ?thesis
      by (intro exI [of _ M'] exI [of _ tas'] conjI allI hol) (use r(1-4) step in simp_all)
  qed
qed

lemma psm_index:
  assumes L: "psm_lists xc M las tas" and las: "las = ls1 @ a # ls"
  obtains e T where "a \<noteq> 0" "listHeap M a = Some e" "nextH e = hdq ls 0" "dataH e = tabOf M las (keyH e)"
    "dataH e \<noteq> 0" "tables M (dataH e) = Some T" "firstH T = hdq (tas (keyH e)) 0" "0 \<le> keyH e"
proof -
  have i: "i64_inv (idxList M) (listHeap M) las" by (rule psm_listsD(1) [OF L])
  then have "dls (listHeap M) 0 (ls1 @ a # ls) 0" by (simp add: hash_inv_def shape_inv_def las)
  then obtain e where e: "listHeap M a = Some e" "a \<noteq> 0" "nextH e = hdq ls 0" using dls_mid by metis
  have a: "a \<in> set las" by (simp add: las)
  have d: "dataH e = tabOf M las (keyH e)" "dataH e \<noteq> 0"
    using i64.contents_key [OF i a refl] i a e by (auto simp: tabOf_def hash_inv_def key_of_def data_of_def)
  then obtain T where T: "tables M (dataH e) = Some T" "blob_inv xc T (elemHeap M) (tas (keyH e))"
    using psm_table [OF L, of "keyH e"] by metis
  have "i64Key (key_of (listHeap M) a)" using i a by (simp add: hash_inv_def shape_inv_def)
  then have "0 \<le> keyH e" using e by (simp add: i64Key_def key_of_def)
  moreover have "firstH T = hdq (tas (keyH e)) 0" using T(2) by (simp add: hash_inv_def shape_inv_def)
  ultimately show thesis using e d T(1) by (intro that [of e T])
qed

lemma psmUnlockIndexes_ok:
  assumes c: "compareOk xc"
  shows "psm_lists xc M las tas \<Longrightarrow> las = ls1 @ ls \<Longrightarrow>
   \<exists>M' tas'. psmUnlockIndexes pid owner M (hdq ls 0) = Some M' \<and> psm_lists xc M' las tas' \<and>
     idxList M' = idxList M \<and> listHeap M' = listHeap M \<and>
     (\<forall>i k. holderOf xc M' las tas' i k =
        (if \<exists>a\<in>set ls. key_of (listHeap M) a = i then relHolder pid owner (holderOf xc M las tas i k)
         else holderOf xc M las tas i k))"
proof (induction ls arbitrary: M tas ls1)
  case Nil
  then show ?case by (subst psmUnlockIndexes.simps) auto
next
  case (Cons a ls)
  obtain e T where e: "a \<noteq> 0" "listHeap M a = Some e" "nextH e = hdq ls 0" "dataH e = tabOf M las (keyH e)"
    "dataH e \<noteq> 0" "tables M (dataH e) = Some T" "firstH T = hdq (tas (keyH e)) 0" "0 \<le> keyH e"
    by (rule psm_index [OF Cons.prems])
  let ?i = "keyH e"
  have t: "tabOf M las ?i \<noteq> 0" using e(4,5) by simp
  have as: "tas ?i = [] @ tas ?i" by simp
  obtain M1 tas1 where k: "psmUnlockKeys pid owner (tabOf M las ?i) M (hdq (tas ?i) 0) = Some M1" "psm_lists xc M1 las tas1"
    "idxList M1 = idxList M" "listHeap M1 = listHeap M"
    "\<forall>i' k. holderOf xc M1 las tas1 i' k =
        (if i' = ?i \<and> (\<exists>a\<in>set (tas ?i). xc (key_of (elemHeap M) a) k = 0)
         then relHolder pid owner (holderOf xc M las tas ?i k) else holderOf xc M las tas i' k)"
    using psmUnlockKeys_ok [OF c t Cons.prems(1) as] by blast
  obtain T0 where T0: "blob_inv xc T0 (elemHeap M) (tas ?i)"
    and p: "ptrOf xc M las tas ?i = contents (\<lambda>k k'. xc k k' = 0) (elemHeap M) (tas ?i)"
    using psm_table [OF Cons.prems(1) t] by metis
  have none: "holderOf xc M las tas ?i k = None" if "\<not> (\<exists>a\<in>set (tas ?i). xc (key_of (elemHeap M) a) k = 0)" for k
    using contents_none [of "tas ?i" "\<lambda>k k'. xc k k' = 0" "elemHeap M" k] that by (simp add: holderOf_def p)
  have rel0: "relHolder pid owner None = None" by (simp add: relHolder_def)
  have h1: "holderOf xc M1 las tas1 i' k =
      (if i' = ?i then relHolder pid owner (holderOf xc M las tas ?i k) else holderOf xc M las tas i' k)" for i' k
    using k(5) none [of k] rel0 by auto
  have las': "las = (ls1 @ [a]) @ ls" using Cons.prems(2) by simp
  obtain M' tas' where r: "psmUnlockIndexes pid owner M1 (hdq ls 0) = Some M'" "psm_lists xc M' las tas'"
     "idxList M' = idxList M" "listHeap M' = listHeap M"
     "\<forall>i k. holderOf xc M' las tas' i k =
        (if \<exists>a\<in>set ls. key_of (listHeap M) a = i then relHolder pid owner (holderOf xc M1 las tas1 i k)
         else holderOf xc M1 las tas1 i k)"
    using Cons.IH [OF k(2) las'] unfolding k(3,4) by blast
  have "psmUnlockIndexes pid owner M a = psmUnlockIndexes pid owner M1 (hdq ls 0)"
    using e k(1) by (subst psmUnlockIndexes.simps) (simp add: e(4) [symmetric])
  moreover have "relHolder pid owner (relHolder pid owner h) = relHolder pid owner h" for h
    by (simp add: relHolder_def split: option.splits)
  moreover have "key_of (listHeap M) a = ?i" using e(2) by (simp add: key_of_def)
  ultimately show ?case
    by (intro exI [of _ M'] exI [of _ tas']) (use r h1 in auto)
qed


section \<open>Properties\<close>

lemma psm_inv_empty: "psm_inv xc psmEmpty"
proof -
  have "psm_lists xc psmEmpty [] (\<lambda>_. [])"
    by (simp add: psm_lists_def psmEmpty_def hash_inv_init tabOf_def ptrOf_def)
  then show ?thesis unfolding psm_inv_def by blast
qed

lemma holderOf_ptr:
  assumes "\<forall>i' k'. ptrOf xc M' las' tas' i' k' = (if i' = i \<and> P k' then q else ptrOf xc M las tas i' k')"
  shows "holderOf xc M' las' tas' i' k' =
    (if i' = i \<and> P k' then (if q = 0 then None else map_option (\<lambda>e. (idxPid e, idxOwner e)) (idx M' q))
     else if ptrOf xc M las tas i' k' = 0 then None
     else map_option (\<lambda>e. (idxPid e, idxOwner e)) (idx M' (ptrOf xc M las tas i' k')))"
  using assms by (simp add: holderOf_def)

lemma psm_create_lists:
  assumes L: "psm_lists xc M las tas" and i: "0 \<le> i" and free: "tabOf M las i = 0" and room: "length las + 1 < 2 ^ 30"
    and new: "pNew \<noteq> 0" "tables M pNew = None" "newElem \<noteq> 0 \<longrightarrow> listHeap M newElem = None"
  shows "\<exists>M' las' tas'. sqlite3rowlockPsmCreateTable M i pNew newElem htOk = Some (SQLITE_OK, M') \<and> psm_lists xc M' las' tas' \<and>
    (\<forall>j. tabOf M' las' j = (if j = i \<and> newElem \<noteq> 0 then pNew else tabOf M las j)) \<and>
    (\<forall>j k. ptrOf xc M' las' tas' j k = ptrOf xc M las tas j k) \<and> idx M' = idx M"
proof -
  have I: "i64_inv (idxList M) (listHeap M) las" and n: "length las < 2 ^ 30" by (rule psm_listsD [OF L])+
  have k: "i64Key i" using i by (simp add: i64Key_def)
  have old: "contents (=) (listHeap M) las i = 0" using free by (simp add: tabOf_def)
  obtain L' H' las' where r:
    "hashInsert i64Index (=) (idxList M) (listHeap M) i pNew newElem True htOk =
       Some (insertResult (contents (=) (listHeap M) las i) pNew (newElem \<noteq> 0) True, L', H')"
    "i64_inv L' H' las'"
    "contents (=) H' las' = (\<lambda>j. if i = j \<and> insertStores (contents (=) (listHeap M) las i) pNew (newElem \<noteq> 0) True
       then pNew else contents (=) (listHeap M) las j)"
    "set las' \<subseteq> insert newElem (set las)" "\<forall>b. b \<notin> insert newElem (set las) \<longrightarrow> H' b = listHeap M b"
    by (rule i64.hashInsert_ok [OF I k n new(3), where d = pNew and keyOk = True and htOk = htOk])
  define M' where "M' = M\<lparr>tables := (tables M)(pNew \<mapsto> hashInit), idxList := L', listHeap := H'\<rparr>"
  have t: "tabOf M' las' j = (if j = i \<and> newElem \<noteq> 0 then pNew else tabOf M las j)" for j
    using r(3) new(1) by (auto simp: tabOf_def M'_def old insertStores_def)
  have p: "ptrOf xc M' las' (tas(i := [])) j k = ptrOf xc M las tas j k" for j k
    using free by (cases "j = i") (simp_all add: ptrOf_def t, simp_all add: M'_def contents_def)
  have "distinct las'" "distinct las" using r(2) I by (simp_all add: hash_inv_def shape_inv_def)
  then have len: "length las' < 2 ^ 30"
    using card_mono [OF _ r(4)] room by (simp add: distinct_card card_insert_if split: if_splits)
  note D = psm_listsD [OF L]
  have notnew: "tabOf M las j \<noteq> pNew" if "tabOf M las j \<noteq> 0" for j using D(5) [OF that] new(2) by auto
  have "psm_lists xc M' las' (tas(i := []))"
    unfolding psm_lists_def p
  proof (intro conjI allI impI)
    fix j j' k k'
    show "i64_inv (idxList M') (listHeap M') las'" using r(2) by (simp add: M'_def)
    show "tables M' 0 = None" using D(3) new(1) by (simp add: M'_def)
    show "length ((tas(i := [])) j) < 2 ^ 30" if "tabOf M' las' j \<noteq> 0"
      using that D(4) [of j] by (simp add: t split: if_splits)
    show "\<exists>T. tables M' (tabOf M' las' j) = Some T \<and> blob_inv xc T (elemHeap M') ((tas(i := [])) j)" if "tabOf M' las' j \<noteq> 0"
    proof (cases "j = i")
      case True
      then have "tabOf M' las' j = pNew" using that free by (simp add: t split: if_splits)
      then show ?thesis using True by (simp add: hash_inv_init) (simp add: M'_def hash_inv_init)
    next
      case False
      then have "tabOf M las j \<noteq> 0" using that by (simp add: t)
      from D(5) [OF this] notnew [OF this] False show ?thesis unfolding t by (simp add: M'_def)
    qed
    show "j = j'" if "tabOf M' las' j \<noteq> 0" "tabOf M' las' j = tabOf M' las' j'"
      using that D(6) [of j j'] notnew [of j] notnew [of j'] new(1) by (simp add: t split: if_splits)
    show "set ((tas(i := [])) j) \<inter> set ((tas(i := [])) j') = {}" if "tabOf M' las' j \<noteq> 0" "tabOf M' las' j' \<noteq> 0" "j \<noteq> j'"
      using that D(7) [of j j'] by (simp add: t split: if_splits)
    show "idx M' (ptrOf xc M las tas j k) \<noteq> None" if "ptrOf xc M las tas j k \<noteq> 0" using D(8) [OF that] by (simp add: M'_def)
    assume a: "ptrOf xc M las tas j k \<noteq> 0" "ptrOf xc M las tas j k = ptrOf xc M las tas j' k'"
    show "j = j'" "xc k k' = 0" using D(9) [OF a] by simp_all
  qed (use len in simp)
  moreover have "sqlite3rowlockPsmCreateTable M i pNew newElem htOk = Some (SQLITE_OK, M')"
    using psm_find_table [OF L i] free new(1) r(1)
    by (simp add: sqlite3rowlockPsmCreateTable_def sqlite3HashI64Insert_def M'_def)
  ultimately show ?thesis using t p by (intro exI [of _ M'] exI [of _ las'] exI [of _ "tas(i := [])"]) (simp add: M'_def)
qed

lemma psmHasTable_eq:
  assumes "psm_lists xc M las tas" "0 \<le> i"
  shows "psmHasTable M i = (tabOf M las i \<noteq> 0)"
  using psm_find_table [OF assms] by (simp add: psmHasTable_def)

lemma psm_create_table:
  assumes c: "compareOk xc" and inv: "psm_inv xc M" and i: "0 \<le> i" and room: "hcount (idxList M) + 1 < 2 ^ 30"
    and new: "pNew \<noteq> 0 \<longrightarrow> tables M pNew = None" "newElem \<noteq> 0 \<longrightarrow> listHeap M newElem = None"
  shows "\<exists>M'. sqlite3rowlockPsmCreateTable M i pNew newElem htOk =
      Some (if psmHasTable M i \<or> pNew \<noteq> 0 then SQLITE_OK else SQLITE_NOMEM, M') \<and> psm_inv xc M' \<and>
    (\<forall>j\<ge>0. psmHasTable M' j = (psmHasTable M j \<or> j = i \<and> pNew \<noteq> 0 \<and> newElem \<noteq> 0)) \<and>
    (\<forall>j\<ge>0. psmHolder xc M' j = psmHolder xc M j)"
proof -
  obtain las tas where L: "psm_lists xc M las tas" using inv unfolding psm_inv_def by blast
  have f: "sqlite3HashI64Find (idxList M) (listHeap M) i = Some (tabOf M las i)" by (rule psm_find_table [OF L i])
  note T = psmHasTable_eq [OF L]
  show ?thesis
  proof (cases "tabOf M las i = 0 \<and> pNew \<noteq> 0")
    case True
    have len: "length las + 1 < 2 ^ 30" using room psm_listsD(1) [OF L] by (simp add: hash_inv_def)
    have p: "tabOf M las i = 0" "pNew \<noteq> 0" "tables M pNew = None" using True new(1) by simp_all
    obtain M' las' tas' where r: "sqlite3rowlockPsmCreateTable M i pNew newElem htOk = Some (SQLITE_OK, M')"
      "psm_lists xc M' las' tas'" "\<forall>j. tabOf M' las' j = (if j = i \<and> newElem \<noteq> 0 then pNew else tabOf M las j)"
      "\<forall>j k. ptrOf xc M' las' tas' j k = ptrOf xc M las tas j k" "idx M' = idx M"
      using psm_create_lists [OF L i p(1) len p(2,3) new(2), of htOk] by (elim exE conjE) (rule that)
    have "psmHasTable M' j = (psmHasTable M j \<or> j = i \<and> pNew \<noteq> 0 \<and> newElem \<noteq> 0)" if "0 \<le> j" for j
      using psmHasTable_eq [OF r(2) that] T [OF that] True r(3) by auto
    moreover have "psmHolder xc M' j = psmHolder xc M j" if "0 \<le> j" for j
      using psmHolder_eq [OF c r(2) that] psmHolder_eq [OF c L that] r(4,5) by (simp add: fun_eq_iff holderOf_def)
    moreover have "psm_inv xc M'" using r(2) unfolding psm_inv_def by blast
    ultimately show ?thesis using r(1) True by (intro exI [of _ M'] conjI allI impI) simp_all
  next
    case False
    then have "sqlite3rowlockPsmCreateTable M i pNew newElem htOk =
      Some (if psmHasTable M i \<or> pNew \<noteq> 0 then SQLITE_OK else SQLITE_NOMEM, M)"
      using f T [OF i] by (auto simp: sqlite3rowlockPsmCreateTable_def)
    then show ?thesis using inv False T [OF i] by (intro exI [of _ M] conjI allI impI) auto
  qed
qed

text \<open>
  \<open>sqlite3rowlockPsmCreateTable\<close> keeps the shared memory well-formed and every lock as it
  is, and gives the index an empty hash table unless it has one; the index has no
  table afterwards only if an allocation failed, which is reported as \<open>SQLITE_NOMEM\<close> for
  the table but not for the element of the list.
\<close>

theorem PsmCreateTable_correct:
  assumes c: "compareOk xc" and inv: "psm_inv xc M" and i: "0 \<le> i" and room: "hcount (idxList M) + 1 < 2 ^ 30"
    and new: "pNew \<noteq> 0 \<longrightarrow> tables M pNew = None" "newElem \<noteq> 0 \<longrightarrow> listHeap M newElem = None"
  shows "\<exists>M'. sqlite3rowlockPsmCreateTable M i pNew newElem htOk =
      Some (if psmHasTable M i \<or> pNew \<noteq> 0 then SQLITE_OK else SQLITE_NOMEM, M') \<and> psm_inv xc M' \<and>
    (\<forall>j\<ge>0. psmHasTable M' j = (psmHasTable M j \<or> j = i \<and> pNew \<noteq> 0 \<and> newElem \<noteq> 0)) \<and>
    (\<forall>j\<ge>0. psmHolder xc M' j = psmHolder xc M j)"
  by (rule psm_create_table [OF assms])

theorem PsmCreateTable_correct_witness:
  "\<exists>M'. sqlite3rowlockPsmCreateTable psmEmpty 3 8 9 True = Some (SQLITE_OK, M') \<and> psm_inv blobComparator M' \<and> psmHasTable M' 3"
  using PsmCreateTable_correct [OF compareOk_blobComparator psm_inv_empty, of 3 8 9 True]
  by (auto simp: psmEmpty_def hashInit_def)

text \<open>The shared memory with an empty index 3, on which the further operations are tried.\<close>

lemma psm_sample:
  obtains M where "psm_inv blobComparator M" "psmHasTable M 3" "\<forall>k. psmHolder blobComparator M 3 k = None"
    "tables M = [8 \<mapsto> hashInit]" "elemHeap M = Map.empty" "idx M = Map.empty"
proof -
  have L: "psm_lists blobComparator psmEmpty [] (\<lambda>_. [])"
    by (simp add: psm_lists_def psmEmpty_def hash_inv_init tabOf_def ptrOf_def)
  have p: "(0 :: int) \<le> 3" "tabOf psmEmpty [] 3 = 0" "length ([] :: addr list) + 1 < 2 ^ 30" "(8 :: nat) \<noteq> 0"
    "tables psmEmpty 8 = None" "(9 :: nat) \<noteq> 0 \<longrightarrow> listHeap psmEmpty 9 = None"
    by (simp_all add: tabOf_def psmEmpty_def)
  obtain M las tas where r: "sqlite3rowlockPsmCreateTable psmEmpty 3 8 9 True = Some (SQLITE_OK, M)"
      "psm_lists blobComparator M las tas" "\<forall>j. tabOf M las j = (if j = 3 \<and> (9 :: nat) \<noteq> 0 then 8 else tabOf psmEmpty [] j)"
      "\<forall>j k. ptrOf blobComparator M las tas j k = ptrOf blobComparator psmEmpty [] (\<lambda>_. []) j k" "idx M = idx psmEmpty"
    using psm_create_lists [OF L p, of True] by (elim exE conjE) (rule that)
  have "sqlite3HashI64Find (idxList psmEmpty) (listHeap psmEmpty) 3 = Some 0"
    using psm_find_table [OF L p(1)] p(2) by simp
  then have "tables M = [8 \<mapsto> hashInit] \<and> elemHeap M = Map.empty"
    using r(1) by (auto simp: sqlite3rowlockPsmCreateTable_def psmEmpty_def split: bind_splits)
  moreover have "psmHolder blobComparator M 3 k = None" for k
    using psmHolder_eq [OF compareOk_blobComparator r(2) p(1), of k] r(4) by (simp add: holderOf_def ptrOf_def tabOf_def)
  moreover have "psmHasTable M 3" using psmHasTable_eq [OF r(2) p(1)] r(3) by simp
  moreover have "psm_inv blobComparator M" using r(2) unfolding psm_inv_def by blast
  moreover have "idx M = Map.empty" using r(5) by (simp add: psmEmpty_def)
  ultimately show thesis by (intro that [of M]) auto
qed

text \<open>
  \<open>sqlite3rowlockPsmDropTable\<close> drops nothing: it acts only when the list of indexes is
  empty, and then the index it is given has no table to drop.
\<close>

theorem PsmDropTable_idle:
  assumes c: "compareOk xc" and inv: "psm_inv xc M" and i: "0 \<le> i"
  shows "\<exists>M'. sqlite3rowlockPsmDropTable M i = Some M' \<and> psm_inv xc M' \<and> tables M' = tables M \<and>
    (\<forall>j\<ge>0. psmHasTable M' j = psmHasTable M j) \<and> (\<forall>j\<ge>0. psmHolder xc M' j = psmHolder xc M j)"
proof (cases "hcount (idxList M) = 0")
  case False
  then show ?thesis using inv by (simp add: sqlite3rowlockPsmDropTable_def)
next
  case True
  obtain las tas where L: "psm_lists xc M las tas" using inv unfolding psm_inv_def by blast
  have I: "i64_inv (idxList M) (listHeap M) las" by (rule psm_listsD(1) [OF L])
  have e: "las = []" using I True by (simp add: hash_inv_def)
  then have old: "contents (=) (listHeap M) las j = 0" for j by (simp add: contents_def)
  have k: "i64Key i" using i by (simp add: i64Key_def)
  have n: "length las < 2 ^ 30" "(0 :: nat) \<noteq> 0 \<longrightarrow> listHeap M 0 = None" using e by simp_all
  obtain L' H' las' where r:
    "hashInsert i64Index (=) (idxList M) (listHeap M) i 0 0 True True =
       Some (insertResult (contents (=) (listHeap M) las i) 0 ((0 :: nat) \<noteq> 0) True, L', H')"
    "i64_inv L' H' las'"
    "contents (=) H' las' = (\<lambda>j. if i = j \<and> insertStores (contents (=) (listHeap M) las i) 0 ((0 :: nat) \<noteq> 0) True
       then 0 else contents (=) (listHeap M) las j)"
    "set las' \<subseteq> insert 0 (set las)" "\<forall>b. b \<notin> insert 0 (set las) \<longrightarrow> H' b = listHeap M b"
    by (rule i64.hashInsert_ok [OF I k n, where d = 0 and keyOk = True and htOk = True])
  define M' where "M' = M\<lparr>tables := tables M, idxList := L', listHeap := H'\<rparr>"
  have t: "tabOf M las j = 0" "tabOf M' las' j = 0" for j
    using r(3) old by (simp_all add: tabOf_def M'_def)
  have "0 \<notin> set las'" using hash_inv_addr(1) [OF r(2)] by blast
  then have e': "las' = []" using r(4) e by (cases las') auto
  have L': "psm_lists xc M' las' tas"
    using r(2) psm_listsD(3) [OF L] unfolding psm_lists_def t ptrOf_def by (simp add: M'_def e')
  have "sqlite3rowlockPsmDropTable M i = Some M'"
    using True r(1) old by (simp add: sqlite3rowlockPsmDropTable_def sqlite3HashI64Insert_def insertResult_def M'_def)
  moreover have "psm_inv xc M'" using L' unfolding psm_inv_def by blast
  moreover have "psmHolder xc M' j = psmHolder xc M j" if "0 \<le> j" for j
    using psmHolder_eq [OF c L' that] psmHolder_eq [OF c L that] by (simp add: fun_eq_iff holderOf_def ptrOf_def t)
  moreover have "psmHasTable M' j = psmHasTable M j" if "0 \<le> j" for j
    using psmHasTable_eq [OF L' that] psmHasTable_eq [OF L that] t by simp
  moreover have "tables M' = tables M" by (simp add: M'_def)
  ultimately show ?thesis by blast
qed

theorem PsmDropTable_idle_witness:
  "\<exists>M M'. psmHasTable M 3 \<and> sqlite3rowlockPsmDropTable M 3 = Some M' \<and> psmHasTable M' 3"
proof -
  obtain M where "psm_inv blobComparator M" "psmHasTable M 3" using psm_sample by metis
  then show ?thesis using PsmDropTable_idle [OF compareOk_blobComparator, of M 3] by auto
qed

text \<open>Locking a key of an existing index, with a comparison that is an equivalence.\<close>

lemma psm_lock_record:
  assumes c: "compareOk xc" and inv: "psm_inv xc M" and i: "0 \<le> i" "psmHasTable M i"
    and room: "\<forall>t T. sqlite3HashI64Find (idxList M) (listHeap M) i = Some t \<longrightarrow> tables M t = Some T \<longrightarrow> hcount T + 1 < 2 ^ 30"
    and new: "pNew \<noteq> 0 \<longrightarrow> idx M pNew = None" "newElem \<noteq> 0 \<longrightarrow> elemHeap M newElem = None"
  shows "\<exists>M'. sqlite3rowlockPsmLockRecord xc M pid i k owner pNew newElem keyOk htOk =
      Some (case psmHolder xc M i k of Some h \<Rightarrow> if h = (pid, owner) then SQLITE_DONE else SQLITE_LOCKED
            | None \<Rightarrow> if pNew = 0 then SQLITE_NOMEM else SQLITE_OK, M') \<and> psm_inv xc M' \<and>
    (\<forall>i'\<ge>0. \<forall>k'. psmHolder xc M' i' k' =
       (if i' = i \<and> xc k k' = 0 \<and> psmHolder xc M i k = None \<and> pNew \<noteq> 0 \<and> newElem \<noteq> 0 \<and> keyOk
        then Some (pid, owner) else psmHolder xc M i' k'))"
proof -
  obtain las tas where L: "psm_lists xc M las tas" using inv unfolding psm_inv_def by blast
  have f: "sqlite3HashI64Find (idxList M) (listHeap M) i = Some (tabOf M las i)" by (rule psm_find_table [OF L i(1)])
  then have t: "tabOf M las i \<noteq> 0" using i(2) by (simp add: psmHasTable_def)
  obtain T where T: "tables M (tabOf M las i) = Some T" "blob_inv xc T (elemHeap M) (tas i)"
    using psm_table [OF L t] by metis
  have len: "length (tas i) + 1 < 2 ^ 30" using room [rule_format, OF f T(1)] T(2) by (simp add: hash_inv_def)
  note H = psmHolder_eq [OF c L]
  show ?thesis
  proof (cases "ptrOf xc M las tas i k = 0 \<and> pNew \<noteq> 0")
    case True
    obtain M' tas' where r: "sqlite3rowlockPsmLockRecord xc M pid i k owner pNew newElem keyOk htOk = Some (SQLITE_OK, M')"
      "psm_lists xc M' las tas'"
      "\<forall>i' k'. ptrOf xc M' las tas' i' k' =
        (if i' = i \<and> (xc k k' = 0 \<and> newElem \<noteq> 0 \<and> keyOk) then pNew else ptrOf xc M las tas i' k')"
      "idx M' = (idx M)(pNew \<mapsto> \<lparr>idxPid = pid, idxOwner = owner\<rparr>)"
    proof -
      have p: "pNew \<noteq> 0" "idx M pNew = None" "ptrOf xc M las tas i k = 0" using True new(1) by simp_all
      show thesis if "\<And>M' tas'. \<lbrakk>sqlite3rowlockPsmLockRecord xc M pid i k owner pNew newElem keyOk htOk = Some (SQLITE_OK, M');
        psm_lists xc M' las tas';
        \<forall>i' k'. ptrOf xc M' las tas' i' k' =
          (if i' = i \<and> (xc k k' = 0 \<and> newElem \<noteq> 0 \<and> keyOk) then pNew else ptrOf xc M las tas i' k');
        idx M' = (idx M)(pNew \<mapsto> \<lparr>idxPid = pid, idxOwner = owner\<rparr>)\<rbrakk> \<Longrightarrow> thesis"
        using psm_lock_new [OF c L i(1) t len p(1,2) new(2) p(3), of pid owner keyOk htOk] by (elim exE conjE) (rule that)
    qed
    have free: "psmHolder xc M i k = None" using H [OF i(1)] True by (simp add: holderOf_def)
    have notnew: "ptrOf xc M las tas i' k' \<noteq> pNew" for i' k'
      using psm_listsD(8) [OF L, of i' k'] new(1) True by auto
    have "psmHolder xc M' i' k' =
       (if i' = i \<and> xc k k' = 0 \<and> newElem \<noteq> 0 \<and> keyOk then Some (pid, owner) else psmHolder xc M i' k')" if "0 \<le> i'" for i' k'
      using psmHolder_eq [OF c r(2) that] holderOf_ptr [OF r(3), of i' k'] H [OF that] notnew [of i' k'] True
      by (simp add: r(4) holderOf_def)
    moreover have "psm_inv xc M'" using r(2) unfolding psm_inv_def by blast
    ultimately show ?thesis using r(1) free True by (intro exI [of _ M'] conjI allI impI) simp_all
  next
    case False
    have p: "sqlite3HashBlobFind xc T (elemHeap M) k = Some (ptrOf xc M las tas i k)" by (rule psm_find_key [OF c L t T(1)])
    have "sqlite3rowlockPsmLockRecord xc M pid i k owner pNew newElem keyOk htOk =
      Some (case psmHolder xc M i k of Some h \<Rightarrow> if h = (pid, owner) then SQLITE_DONE else SQLITE_LOCKED
            | None \<Rightarrow> if pNew = 0 then SQLITE_NOMEM else SQLITE_OK, M)"
      using f T(1) p False psm_listsD(8) [OF L, of i k] H [OF i(1), of k]
      by (auto simp: sqlite3rowlockPsmLockRecord_def holderOf_def heldByMe_def)
    moreover have "psmHolder xc M i k = None \<longrightarrow> pNew = 0"
      using H [OF i(1), of k] False psm_listsD(8) [OF L, of i k] by (auto simp: holderOf_def)
    ultimately show ?thesis using inv by (intro exI [of _ M]) auto
  qed
qed

lemma psm_query:
  assumes c: "compareOk xc" and inv: "psm_inv xc M" and i: "0 \<le> i" "psmHasTable M i"
  shows "sqlite3rowlockPsmLockRecordQuery xc M pid i k owner =
      Some (case psmHolder xc M i k of Some h \<Rightarrow> if h = (pid, owner) then SQLITE_DONE else SQLITE_LOCKED | None \<Rightarrow> SQLITE_OK)"
proof -
  obtain las tas where L: "psm_lists xc M las tas" using inv unfolding psm_inv_def by blast
  have f: "sqlite3HashI64Find (idxList M) (listHeap M) i = Some (tabOf M las i)" by (rule psm_find_table [OF L i(1)])
  then have t: "tabOf M las i \<noteq> 0" using i(2) by (simp add: psmHasTable_def)
  obtain T where T: "tables M (tabOf M las i) = Some T" using psm_table [OF L t] by metis
  show ?thesis
    using f T psm_find_key [OF c L t T, of k] psm_listsD(8) [OF L, of i k] psmHolder_eq [OF c L i(1), of k]
    by (auto simp: sqlite3rowlockPsmLockRecordQuery_def holderOf_def heldByMe_def)
qed

text \<open>The keys locked in an index; a comparison that equates no two different ones of them and the key at hand is as good as the equality of bytes.\<close>

lemma psm_keys:
  assumes L: "psm_lists blobComparator M las tas" and i: "0 \<le> i" "tabOf M las i \<noteq> 0" and a: "a \<in> set (tas i)"
  shows "psmHolder blobComparator M i (key_of (elemHeap M) a) = map_option (\<lambda>e. (idxPid e, idxOwner e)) (idx M (data_of (elemHeap M) a))"
    "idx M (data_of (elemHeap M) a) \<noteq> None"
proof -
  obtain T where T: "blob_inv blobComparator T (elemHeap M) (tas i)" using psm_listsD(5) [OF L i(2)] by blast
  have "ptrOf blobComparator M las tas i (key_of (elemHeap M) a) = data_of (elemHeap M) a"
    using blobs.contents_key [OF T a] i(2) by (simp add: ptrOf_def blobComparator_eq)
  moreover have "data_of (elemHeap M) a \<noteq> 0" using T a by (simp add: hash_inv_def)
  ultimately show "psmHolder blobComparator M i (key_of (elemHeap M) a) = map_option (\<lambda>e. (idxPid e, idxOwner e)) (idx M (data_of (elemHeap M) a))"
    "idx M (data_of (elemHeap M) a) \<noteq> None"
    using psmHolder_eq [OF compareOk_blobComparator L i(1)] psm_listsD(8) [OF L, of i "key_of (elemHeap M) a"] by (simp_all add: holderOf_def)
qed

lemma psm_agree:
  assumes inv: "psm_inv blobComparator M" and i: "0 \<le> i" "psmHasTable M i" and sep: "\<forall>k\<in>K. \<forall>k'\<in>K. xc k k' = 0 \<longleftrightarrow> k = k'"
    and K: "k \<in> K" "\<And>k'. psmHolder blobComparator M i k' \<noteq> None \<Longrightarrow> k' \<in> K"
  shows "sqlite3rowlockPsmLockRecord xc M pid i k owner pNew newElem keyOk htOk = sqlite3rowlockPsmLockRecord blobComparator M pid i k owner pNew newElem keyOk htOk"
    "sqlite3rowlockPsmUnlockRecord xc M i k = sqlite3rowlockPsmUnlockRecord blobComparator M i k"
    "sqlite3rowlockPsmLockRecordQuery xc M pid i k owner = sqlite3rowlockPsmLockRecordQuery blobComparator M pid i k owner"
proof -
  obtain las tas where L: "psm_lists blobComparator M las tas" using inv unfolding psm_inv_def by blast
  have f: "sqlite3HashI64Find (idxList M) (listHeap M) i = Some (tabOf M las i)" by (rule psm_find_table [OF L i(1)])
  then have t: "tabOf M las i \<noteq> 0" using i(2) by (simp add: psmHasTable_def)
  obtain T where T: "tables M (tabOf M las i) = Some T" "blob_inv blobComparator T (elemHeap M) (tas i)" using psm_table [OF L t] by metis
  have "\<forall>a\<in>set (tas i). key_of (elemHeap M) a \<in> K" using psm_keys [OF L i(1) t] by (intro ballI K(2)) auto
  note e = blob_agree [OF sep K(1) this T(2)]
  show "sqlite3rowlockPsmLockRecord xc M pid i k owner pNew newElem keyOk htOk = sqlite3rowlockPsmLockRecord blobComparator M pid i k owner pNew newElem keyOk htOk"
    "sqlite3rowlockPsmUnlockRecord xc M i k = sqlite3rowlockPsmUnlockRecord blobComparator M i k"
    "sqlite3rowlockPsmLockRecordQuery xc M pid i k owner = sqlite3rowlockPsmLockRecordQuery blobComparator M pid i k owner"
    by (simp_all add: sqlite3rowlockPsmLockRecord_def sqlite3rowlockPsmUnlockRecord_def sqlite3rowlockPsmLockRecordQuery_def f T(1) e cong: if_cong)
qed

text \<open>
  \<open>sqlite3rowlockPsmUnlockRecord\<close> frees exactly the given key, whoever holds it, and
  \<open>sqlite3rowlockPsmLockRecordQuery\<close> reports the holder of a key.
\<close>

theorem PsmUnlockRecord_correct:
  assumes c: "compareOk xc" and inv: "psm_inv xc M" and i: "0 \<le> i" "psmHasTable M i"
  shows "\<exists>M'. sqlite3rowlockPsmUnlockRecord xc M i k = Some M' \<and> psm_inv xc M' \<and>
    (\<forall>i'\<ge>0. \<forall>k'. psmHolder xc M' i' k' = (if i' = i \<and> xc k k' = 0 then None else psmHolder xc M i' k')) \<and>
    sqlite3rowlockPsmLockRecordQuery xc M pid i k owner =
      Some (case psmHolder xc M i k of Some h \<Rightarrow> if h = (pid, owner) then SQLITE_DONE else SQLITE_LOCKED | None \<Rightarrow> SQLITE_OK)"
proof -
  obtain las tas where L: "psm_lists xc M las tas" using inv unfolding psm_inv_def by blast
  have f: "sqlite3HashI64Find (idxList M) (listHeap M) i = Some (tabOf M las i)" by (rule psm_find_table [OF L i(1)])
  then have t: "tabOf M las i \<noteq> 0" using i(2) by (simp add: psmHasTable_def)
  note H = psmHolder_eq [OF c L]
  obtain M' tas' where r: "sqlite3rowlockPsmUnlockRecord xc M i k = Some M'" "psm_lists xc M' las tas'"
    "\<forall>i' k'. ptrOf xc M' las tas' i' k' = (if i' = i \<and> xc k k' = 0 then 0 else ptrOf xc M las tas i' k')"
    "idx M' = (if ptrOf xc M las tas i k \<noteq> 0 then (idx M)(ptrOf xc M las tas i k := None) else idx M)"
    using psm_unlock_lists [OF c L i(1) t, of k] by blast
  have "psmHolder xc M' i' k' = (if i' = i \<and> xc k k' = 0 then None else psmHolder xc M i' k')" if "0 \<le> i'" for i' k'
  proof -
    have "\<not> (i' = i \<and> xc k k' = 0) \<longrightarrow> ptrOf xc M las tas i k \<noteq> 0 \<longrightarrow> ptrOf xc M las tas i' k' \<noteq> ptrOf xc M las tas i k"
      using psm_listsD(9) [OF L, of i k i' k'] by metis
    then show ?thesis
      using psmHolder_eq [OF c r(2) that, of k'] holderOf_ptr [OF r(3), of i' k'] H [OF that, of k']
      by (simp add: r(4) holderOf_def split: if_splits)
  qed
  moreover have "psm_inv xc M'" using r(2) unfolding psm_inv_def by blast
  ultimately show ?thesis using r(1) psm_query [OF c inv i, of pid k owner]
    by (intro exI [of _ M'] conjI allI impI)
qed

theorem PsmUnlockRecord_correct_witness:
  "\<exists>M M'. sqlite3rowlockPsmUnlockRecord blobComparator M 3 [1, 2] = Some M' \<and> psm_inv blobComparator M' \<and>
     psmHolder blobComparator M' 3 [1, 2] = None"
proof -
  obtain M where M: "psm_inv blobComparator M" "psmHasTable M 3" using psm_sample by metis
  show ?thesis
    using PsmUnlockRecord_correct [OF compareOk_blobComparator M(1) _ M(2), of "[1, 2]" 42 6]
    by (simp add: blobComparator_eq) (metis zero_le_numeral)
qed

lemma psm_proc_core:
  assumes c: "compareOk xc" and inv: "psm_inv xc M"
  shows "\<exists>M'. sqlite3rowlockPsmUnlockRecordProcCore M pid owner = Some M' \<and> psm_inv xc M' \<and>
    (\<forall>i\<ge>0. psmHolder xc M' i = spec_release pid owner (psmHolder xc M i))"
proof -
  obtain las tas where L: "psm_lists xc M las tas" using inv unfolding psm_inv_def by blast
  have i: "i64_inv (idxList M) (listHeap M) las" by (rule psm_listsD(1) [OF L])
  have las: "las = [] @ las" by simp
  obtain M' tas' where r: "psmUnlockIndexes pid owner M (hdq las 0) = Some M'" "psm_lists xc M' las tas'"
     "\<forall>i k. holderOf xc M' las tas' i k =
        (if \<exists>a\<in>set las. key_of (listHeap M) a = i then relHolder pid owner (holderOf xc M las tas i k)
         else holderOf xc M las tas i k)"
    using psmUnlockIndexes_ok [OF c L las, of pid owner] by blast
  have "psmHolder xc M' i k = spec_release pid owner (psmHolder xc M i) k" if "0 \<le> i" for i k
  proof -
    have "holderOf xc M las tas i k = None" if "\<not> (\<exists>a\<in>set las. key_of (listHeap M) a = i)"
      using contents_none [of las "(=)" "listHeap M" i] that by (simp add: holderOf_def ptrOf_def tabOf_def)
    then have "holderOf xc M' las tas' i k = relHolder pid owner (holderOf xc M las tas i k)"
      using r(3) by (simp add: relHolder_def)
    then show ?thesis using psmHolder_eq [OF c r(2) that] psmHolder_eq [OF c L that]
      by (simp add: spec_release_def relHolder_def)
  qed
  moreover have "firstH (idxList M) = hdq las 0" using i by (simp add: hash_inv_def shape_inv_def)
  moreover have "psm_inv xc M'" using r(2) unfolding psm_inv_def by blast
  ultimately show ?thesis using r(1)
    by (intro exI [of _ M'] conjI allI impI ext) (simp_all add: sqlite3rowlockPsmUnlockRecordProcCore_def)
qed

text \<open>
  C29. \<open>sqlite3rowlockPsmUnlockRecordProcCore\<close> ends and releases exactly the keys held by the given
  process and owner (0 standing for any), in all indexes.
\<close>

theorem PsmUnlockRecordProcCore_exact:
  assumes "compareOk xc" and "psm_inv xc M"
  shows "\<exists>M'. sqlite3rowlockPsmUnlockRecordProcCore M pid owner = Some M' \<and> psm_inv xc M' \<and>
    (\<forall>i\<ge>0. psmHolder xc M' i = spec_release pid owner (psmHolder xc M i))"
  by (rule psm_proc_core [OF assms])

theorem PsmUnlockRecordProcCore_exact_witness:
  "\<exists>M'. sqlite3rowlockPsmUnlockRecordProcCore psmEmpty 42 6 = Some M' \<and> psm_inv blobComparator M'"
  using PsmUnlockRecordProcCore_exact [OF compareOk_blobComparator psm_inv_empty, of 42 6] by blast

end
