(* ===== verification/Savepoint.thy ===== *)
theory Savepoint
  imports Ipc_Row Ipc_Table Psm_Lock
begin

text \<open>
  The savepoints of \<open>rowlock_savepoint.c\<close>: a stack of the locks taken and tables created in a
  transaction and a stack of marks in it. Rolling back to a mark undoes the entries above
  it, the latest first, on the shared memory areas and the root page mapping. Both
  stacks are arrays that are allocated on first use and doubled when full. The contents
  of a grown array beyond the old ones is the argument \<open>junk\<close>, and the results of the
  allocations are arguments.
\<close>

section \<open>Data\<close>

datatype HistoryType =
  RLH_REOCRD | RLH_INDEX | RLH_NEW_TABLE | RLH_NEW_INDEX | RLH_TABLE_LOCK | RLH_TABLE_CLEAR

record RowLockHistory =
  nRL :: i64
  pRL :: "blob option"
  iTableRL :: int
  pCollRL :: addr
  prevRL :: u8
  typeRL :: HistoryType

record RowLockSavepointEntry =
  iLockRecord :: u64
  iSavepoint :: int

record RowLockSavepoint =
  pHistory :: "RowLockHistory list option"
  nHistory :: u64
  nHistoryMax :: u64
  pSavepoints :: "RowLockSavepointEntry list option"
  nSavepoints :: u32
  nSavepointMax :: u32

text \<open>The contents of zeroed memory.\<close>

definition zeroHistory :: RowLockHistory where
  "zeroHistory = \<lparr>nRL = 0, pRL = None, iTableRL = 0, pCollRL = 0, prevRL = 0, typeRL = RLH_REOCRD\<rparr>"

definition zeroEntry :: RowLockSavepointEntry where
  "zeroEntry = \<lparr>iLockRecord = 0, iSavepoint = 0\<rparr>"

definition zeroSavepoint :: RowLockSavepoint where
  "zeroSavepoint = \<lparr>pHistory = None, nHistory = 0, nHistoryMax = 0, pSavepoints = None, nSavepoints = 0, nSavepointMax = 0\<rparr>"

record TransRootPage =
  iIns :: nat
  iDel :: nat
  deleteAll :: u8
  pKeyInfo :: addr

text \<open>
  What a rollback changes: the row lock area, the table lock area, the shared memory of the
  index keys, and the root page mapping of the connection with its hash elements and values.
\<close>

record LockWorld =
  rowArea :: RowArea
  tableArea :: TableArea
  psmArea :: PsmMem
  rootPages :: HashTab
  rootHeap :: "int heap"
  rootData :: "addr \<rightharpoonup> TransRootPage"

definition ROWLOCK_STACK_DEAULT_SIZE :: nat where "ROWLOCK_STACK_DEAULT_SIZE = 1024"
definition ROWLOCK_SAVEPOINT_DEAULT_SIZE :: nat where "ROWLOCK_SAVEPOINT_DEAULT_SIZE = 64"
definition sizeof_RowLockHistory :: nat where "sizeof_RowLockHistory = 40"
definition sizeof_RowLockSavepointEntry :: nat where "sizeof_RowLockSavepointEntry = 16"

abbreviation (input) "SAVEPOINT_RELEASE \<equiv> (1 :: nat)"
abbreviation (input) "SAVEPOINT_ROLLBACK \<equiv> (2 :: nat)"

text \<open>\<open>sqlite3Realloc\<close> refuses sizes from \<open>0x7fffff00\<close>, and may fail otherwise.\<close>

definition reallocOk :: "bool \<Rightarrow> nat \<Rightarrow> bool" where
  "reallocOk ok n \<longleftrightarrow> ok \<and> n < 0x7fffff00"

section \<open>Operations\<close>

definition rowlockSavepointInit :: "bool \<Rightarrow> bool \<Rightarrow> RowLockSavepoint \<Rightarrow> rc \<times> RowLockSavepoint" where
  "rowlockSavepointInit histOk spOk S =
     (if \<not> histOk then (SQLITE_NOMEM, S)
      else if \<not> spOk then (SQLITE_NOMEM, S)
      else (SQLITE_OK,
        \<lparr>pHistory = Some (replicate ROWLOCK_STACK_DEAULT_SIZE zeroHistory), nHistory = 0,
         nHistoryMax = ROWLOCK_STACK_DEAULT_SIZE,
         pSavepoints = Some (replicate ROWLOCK_SAVEPOINT_DEAULT_SIZE zeroEntry), nSavepoints = 0,
         nSavepointMax = ROWLOCK_SAVEPOINT_DEAULT_SIZE\<rparr>))"

definition sqlite3rowlockSavepointClose :: "RowLockSavepoint option \<Rightarrow> RowLockSavepoint option" where
  "sqlite3rowlockSavepointClose pS =
     (case pS of
        None \<Rightarrow> None
      | Some S \<Rightarrow> Some (S\<lparr>pHistory := None, nHistoryMax := 0, nHistory := 0,
                         pSavepoints := None, nSavepoints := 0, nSavepointMax := 0\<rparr>))"

text \<open>Growing the two arrays.\<close>

definition growSavepoints :: "bool \<Rightarrow> (nat \<Rightarrow> RowLockSavepointEntry) \<Rightarrow> RowLockSavepoint \<Rightarrow> RowLockSavepoint option" where
  "growSavepoints growOk junk S =
     (if nSavepointMax S \<le> nSavepoints S then
        (if \<not> reallocOk growOk (wrap64 (sizeof_RowLockSavepointEntry * nSavepointMax S * 2)) then None
         else Some (S\<lparr>nSavepointMax := (nSavepointMax S * 2) mod 2 ^ 32,
           pSavepoints := map_option (\<lambda>a. a @ map junk [nSavepointMax S..<nSavepointMax S * 2]) (pSavepoints S)\<rparr>))
      else Some S)"

definition growHistory :: "bool \<Rightarrow> (nat \<Rightarrow> RowLockHistory) \<Rightarrow> RowLockSavepoint \<Rightarrow> RowLockSavepoint option" where
  "growHistory growOk junk S =
     (if nHistoryMax S \<le> nHistory S then
        (if \<not> reallocOk growOk (wrap64 (sizeof_RowLockHistory * nHistoryMax S * 2)) then None
         else Some (S\<lparr>nHistoryMax := wrap64 (nHistoryMax S * 2),
           pHistory := map_option (\<lambda>a. a @ map junk [nHistoryMax S..<nHistoryMax S * 2]) (pHistory S)\<rparr>))
      else Some S)"

definition rowlockSavepointCreate ::
  "bool \<Rightarrow> bool \<Rightarrow> bool \<Rightarrow> (nat \<Rightarrow> RowLockSavepointEntry) \<Rightarrow> RowLockSavepoint \<Rightarrow> int \<Rightarrow> rc \<times> RowLockSavepoint" where
  "rowlockSavepointCreate histOk spOk growOk junk S iSp =
     (let (rc, S1) = (if pSavepoints S = None then rowlockSavepointInit histOk spOk S else (SQLITE_OK, S)) in
      if rc \<noteq> SQLITE_OK then (rc, S1)
      else case growSavepoints growOk junk S1 of
          None \<Rightarrow> (SQLITE_NOMEM, S1)
        | Some S2 \<Rightarrow>
            (let a = the (pSavepoints S2); n = nSavepoints S2 in
             if 0 < n \<and> iSavepoint (a ! (n - 1)) = iSp \<and> iLockRecord (a ! (n - 1)) = nHistory S2 then (SQLITE_OK, S2)
             else (SQLITE_OK, S2\<lparr>pSavepoints := Some (a[n := \<lparr>iLockRecord = nHistory S2, iSavepoint = iSp\<rparr>]),
                     nSavepoints := (n + 1) mod 2 ^ 32\<rparr>)))"

definition sqlite3rowlockHistoryAdd ::
  "bool \<Rightarrow> bool \<Rightarrow> bool \<Rightarrow> bool \<Rightarrow> (nat \<Rightarrow> RowLockHistory) \<Rightarrow> RowLockSavepoint \<Rightarrow>
   HistoryType \<Rightarrow> int \<Rightarrow> i64 \<Rightarrow> blob option \<Rightarrow> addr \<Rightarrow> u8 \<Rightarrow> rc \<times> RowLockSavepoint" where
  "sqlite3rowlockHistoryAdd histOk spOk growOk copyOk junk S type iTable n p pColl prev =
     (let (rc, S1) = (if pHistory S = None then rowlockSavepointInit histOk spOk S else (SQLITE_OK, S)) in
      if rc \<noteq> SQLITE_OK then (rc, S1)
      else case growHistory growOk junk S1 of
          None \<Rightarrow> (SQLITE_NOMEM, S1)
        | Some S2 \<Rightarrow>
            if p \<noteq> None \<and> \<not> copyOk then (SQLITE_NOMEM, S2)
            else (SQLITE_OK, S2\<lparr>pHistory := map_option (\<lambda>a. a[nHistory S2 :=
                    \<lparr>nRL = n, pRL = map_option (take (nat n)) p, iTableRL = iTable, pCollRL = pColl,
                     prevRL = prev, typeRL = type\<rparr>]) (pHistory S2),
                   nHistory := wrap64 (nHistory S2 + 1)\<rparr>))"

definition sqlite3rowlockHistoryAddRecord ::
  "bool \<Rightarrow> bool \<Rightarrow> bool \<Rightarrow> (nat \<Rightarrow> RowLockHistory) \<Rightarrow> RowLockSavepoint \<Rightarrow> int \<Rightarrow> i64 \<Rightarrow> rc \<times> RowLockSavepoint" where
  "sqlite3rowlockHistoryAddRecord histOk spOk growOk junk S iTable rowid =
     sqlite3rowlockHistoryAdd histOk spOk growOk True junk S RLH_REOCRD iTable rowid None 0 0"

definition sqlite3rowlockHistoryAddIndex ::
  "bool \<Rightarrow> bool \<Rightarrow> bool \<Rightarrow> bool \<Rightarrow> (nat \<Rightarrow> RowLockHistory) \<Rightarrow> RowLockSavepoint \<Rightarrow> int \<Rightarrow> i64 \<Rightarrow> blob \<Rightarrow> addr \<Rightarrow> rc \<times> RowLockSavepoint" where
  "sqlite3rowlockHistoryAddIndex histOk spOk growOk copyOk junk S iTable nKey pKey pColl =
     sqlite3rowlockHistoryAdd histOk spOk growOk copyOk junk S RLH_INDEX iTable nKey (Some pKey) pColl 0"

definition sqlite3rowlockHistoryAddNewTable ::
  "bool \<Rightarrow> bool \<Rightarrow> bool \<Rightarrow> (nat \<Rightarrow> RowLockHistory) \<Rightarrow> RowLockSavepoint \<Rightarrow> int \<Rightarrow> rc \<times> RowLockSavepoint" where
  "sqlite3rowlockHistoryAddNewTable histOk spOk growOk junk S iTable =
     sqlite3rowlockHistoryAdd histOk spOk growOk True junk S RLH_NEW_TABLE iTable 0 None 0 0"

definition sqlite3rowlockHistoryAddNewIndex ::
  "bool \<Rightarrow> bool \<Rightarrow> bool \<Rightarrow> (nat \<Rightarrow> RowLockHistory) \<Rightarrow> RowLockSavepoint \<Rightarrow> int \<Rightarrow> rc \<times> RowLockSavepoint" where
  "sqlite3rowlockHistoryAddNewIndex histOk spOk growOk junk S iTable =
     sqlite3rowlockHistoryAdd histOk spOk growOk True junk S RLH_NEW_INDEX iTable 0 None 0 0"

definition sqlite3rowlockHistoryAddTableLock ::
  "bool \<Rightarrow> bool \<Rightarrow> bool \<Rightarrow> (nat \<Rightarrow> RowLockHistory) \<Rightarrow> RowLockSavepoint \<Rightarrow> int \<Rightarrow> u8 \<Rightarrow> rc \<times> RowLockSavepoint" where
  "sqlite3rowlockHistoryAddTableLock histOk spOk growOk junk S iTable prevLock =
     sqlite3rowlockHistoryAdd histOk spOk growOk True junk S RLH_TABLE_LOCK iTable 0 None 0 prevLock"

definition sqlite3rowlockHistoryAddTableClear ::
  "bool \<Rightarrow> bool \<Rightarrow> bool \<Rightarrow> (nat \<Rightarrow> RowLockHistory) \<Rightarrow> RowLockSavepoint \<Rightarrow> int \<Rightarrow> u8 \<Rightarrow> rc \<times> RowLockSavepoint" where
  "sqlite3rowlockHistoryAddTableClear histOk spOk growOk junk S iTable delAll =
     sqlite3rowlockHistoryAdd histOk spOk growOk True junk S RLH_TABLE_CLEAR iTable 0 None 0 delAll"

section \<open>Rollback\<close>

text \<open>
  The caller: its process, its handle's owner, and the record comparison for a collation.
  \<open>None\<close> is a read through a null pointer or a call that does not return.
\<close>

record Caller =
  myPid :: PID
  myOwner :: u64
  collation :: "addr \<Rightarrow> blob \<Rightarrow> blob \<Rightarrow> int"

definition rowlockSavepointRollbackTableLock :: "Caller \<Rightarrow> LockWorld \<Rightarrow> int \<Rightarrow> u8 \<Rightarrow> LockWorld option" where
  "rowlockSavepointRollbackTableLock me W iTable prevLock =
     map_option (\<lambda>(rc, prev, m). W\<lparr>tableArea := m\<rparr>)
       (sqlite3rowlockIpcLockTable (tableArea W) (myPid me) (myOwner me) iTable prevLock MODE_LOCK_FORCE)"

text \<open>One case of the switch; the case of a new table falls through to that of a table lock.\<close>

definition rollbackEntry :: "Caller \<Rightarrow> RowLockHistory \<Rightarrow> LockWorld \<Rightarrow> LockWorld option" where
  "rollbackEntry me h W =
     (case typeRL h of
        RLH_REOCRD \<Rightarrow>
          map_option (\<lambda>m. W\<lparr>rowArea := m\<rparr>) (sqlite3rowlockIpcUnlockRecord (rowArea W) (iTableRL h) (nRL h))
      | RLH_INDEX \<Rightarrow>
          Option.bind (pRL h) (\<lambda>key.
            map_option (\<lambda>m. W\<lparr>psmArea := m\<rparr>)
              (sqlite3rowlockPsmUnlockRecord (collation me (pCollRL h)) (psmArea W) (iTableRL h) key))
      | RLH_NEW_INDEX \<Rightarrow>
          map_option (\<lambda>m. W\<lparr>psmArea := m\<rparr>) (sqlite3rowlockPsmDropTable (psmArea W) (iTableRL h))
      | RLH_NEW_TABLE \<Rightarrow>
          Option.bind (sqlite3HashI64Insert (rootPages W) (rootHeap W) (iTableRL h) 0 0 True) (\<lambda>(pData, T, H).
          Option.bind (rootData W pData) (\<lambda>d.
            rowlockSavepointRollbackTableLock me
              (W\<lparr>rootPages := T, rootHeap := H, rootData := (rootData W)(pData := None)\<rparr>) (iTableRL h) (prevRL h)))
      | RLH_TABLE_LOCK \<Rightarrow> rowlockSavepointRollbackTableLock me W (iTableRL h) (prevRL h)
      | RLH_TABLE_CLEAR \<Rightarrow>
          Option.bind (sqlite3HashI64Find (rootPages W) (rootHeap W) (iTableRL h)) (\<lambda>pRootPage.
            if pRootPage = 0 then Some W
            else map_option (\<lambda>d. W\<lparr>rootData := (rootData W)(pRootPage \<mapsto> d\<lparr>deleteAll := prevRL h\<rparr>)\<rparr>)
              (rootData W pRootPage)))"

fun searchSavepoint :: "RowLockSavepointEntry list \<Rightarrow> nat \<Rightarrow> int \<Rightarrow> nat option" where
  "searchSavepoint a i iSp =
     (if iSavepoint (a ! i) = iSp then Some i
      else case i of 0 \<Rightarrow> None | Suc j \<Rightarrow> searchSavepoint a j iSp)"

declare searchSavepoint.simps [simp del]

function rollbackLoop :: "Caller \<Rightarrow> RowLockHistory list \<Rightarrow> nat \<Rightarrow> nat \<Rightarrow> LockWorld \<Rightarrow> LockWorld option" where
  "rollbackLoop me a idxRowid iStack W =
     (if iStack \<ge> idxRowid then
        Option.bind (rollbackEntry me (a ! iStack) W) (\<lambda>W'.
          if iStack = idxRowid then Some W' else rollbackLoop me a idxRowid (iStack - 1) W')
      else Some W)"
  by pat_completeness auto
termination
  by (relation "measure (\<lambda>(me, a, idxRowid, iStack, W). iStack)") auto

declare rollbackLoop.simps [simp del]

definition rowlockSavepoint ::
  "Caller \<Rightarrow> RowLockSavepoint \<Rightarrow> LockWorld \<Rightarrow> nat \<Rightarrow> int \<Rightarrow> (RowLockSavepoint \<times> LockWorld) option" where
  "rowlockSavepoint me S W op iSp =
     (case (if nSavepoints S > 0 then searchSavepoint (the (pSavepoints S)) (nSavepoints S - 1) iSp else None) of
        None \<Rightarrow> Some (S, W)
      | Some i \<Rightarrow>
          (let a = the (pSavepoints S); h = the (pHistory S); idxRowid = iLockRecord (a ! i) in
           Option.bind (if op = SAVEPOINT_ROLLBACK \<and> nHistory S > 0
                        then rollbackLoop me h idxRowid (nHistory S - 1) W else Some W) (\<lambda>W'.
             let n = (if op = SAVEPOINT_ROLLBACK then i + 1 else i);
                 S1 = (if nSavepoints S > n
                       then S\<lparr>pSavepoints := Some (take n a @ replicate (nSavepoints S - n) zeroEntry @ drop (nSavepoints S) a),
                              nSavepoints := n\<rparr>
                       else S);
                 S2 = (if op = SAVEPOINT_ROLLBACK \<and> nHistory S > idxRowid
                       then S1\<lparr>pHistory := Some (take idxRowid h @ replicate (nHistory S - idxRowid) zeroHistory @ drop (nHistory S) h),
                               nHistory := idxRowid\<rparr>
                       else S1)
             in Some (S2, W'))))"

text \<open>
  The entry points of the engine. \<open>usesTrans\<close> is whether the btree has a transaction btree;
  the savepoint of SQLite's own btree is the argument \<open>xSavepoint\<close>.
\<close>

definition sqlite3TransBtreeSavepointCreate ::
  "bool \<Rightarrow> bool \<Rightarrow> bool \<Rightarrow> (nat \<Rightarrow> RowLockSavepointEntry) \<Rightarrow> bool \<Rightarrow> RowLockSavepoint \<Rightarrow> int \<Rightarrow> rc \<times> RowLockSavepoint" where
  "sqlite3TransBtreeSavepointCreate histOk spOk growOk junk usesTrans S iSp =
     (if \<not> usesTrans then (SQLITE_OK, S) else rowlockSavepointCreate histOk spOk growOk junk S iSp)"

definition sqlite3TransBtreeSavepoint ::
  "Caller \<Rightarrow> ('b \<Rightarrow> nat \<Rightarrow> int \<Rightarrow> rc \<times> 'b) \<Rightarrow> 'b \<Rightarrow> 'b option \<Rightarrow> RowLockSavepoint \<Rightarrow> LockWorld \<Rightarrow> nat \<Rightarrow> int \<Rightarrow>
   (rc \<times> 'b \<times> 'b option \<times> RowLockSavepoint \<times> LockWorld) option" where
  "sqlite3TransBtreeSavepoint me xSavepoint shared transB S W op iSp =
     (case transB of
        None \<Rightarrow> (let (rc, b) = xSavepoint shared op iSp in Some (rc, b, None, S, W))
      | Some t \<Rightarrow>
          Option.bind (rowlockSavepoint me S W op iSp) (\<lambda>(S', W').
            let (rc, b) = xSavepoint t op iSp in Some (rc, shared, Some b, S', W')))"

definition sqlite3CloseSavepointsAll :: "RowLockSavepoint option list \<Rightarrow> RowLockSavepoint option list" where
  "sqlite3CloseSavepointsAll = map sqlite3rowlockSavepointClose"

section \<open>The two stacks and the invariant\<close>

definition hist :: "RowLockSavepoint \<Rightarrow> RowLockHistory list" where
  "hist S = (case pHistory S of None \<Rightarrow> [] | Some h \<Rightarrow> take (nHistory S) h)"

definition saves :: "RowLockSavepoint \<Rightarrow> RowLockSavepointEntry list" where
  "saves S = (case pSavepoints S of None \<Rightarrow> [] | Some a \<Rightarrow> take (nSavepoints S) a)"

definition arraysOk :: "RowLockSavepoint \<Rightarrow> bool" where
  "arraysOk S \<longleftrightarrow>
     (case pHistory S of
        None \<Rightarrow> S = zeroSavepoint
      | Some h \<Rightarrow>
          (case pSavepoints S of
             None \<Rightarrow> False
           | Some a \<Rightarrow> length h = nHistoryMax S \<and> length a = nSavepointMax S \<and>
               nHistory S \<le> nHistoryMax S \<and> nSavepoints S \<le> nSavepointMax S \<and>
               0 < nHistoryMax S \<and> 0 < nSavepointMax S \<and> nHistoryMax S < 2 ^ 31 \<and> nSavepointMax S < 2 ^ 31))"

definition sp_inv :: "RowLockSavepoint \<Rightarrow> bool" where
  "sp_inv S \<longleftrightarrow> arraysOk S \<and> sorted (map iLockRecord (saves S)) \<and> (\<forall>e\<in>set (saves S). iLockRecord e \<le> nHistory S)"

lemma arraysOk_zero [simp]: "arraysOk zeroSavepoint" "hist zeroSavepoint = []" "saves zeroSavepoint = []"
  "nHistory zeroSavepoint = 0" "pHistory zeroSavepoint = None" "pSavepoints zeroSavepoint = None"
  by (simp_all add: arraysOk_def zeroSavepoint_def hist_def saves_def)

lemma sp_inv_zero: "sp_inv zeroSavepoint"
  by (simp add: sp_inv_def)

lemma arraysOk_null: "arraysOk S \<Longrightarrow> pHistory S = None \<longleftrightarrow> S = zeroSavepoint"
  "arraysOk S \<Longrightarrow> pSavepoints S = None \<longleftrightarrow> S = zeroSavepoint"
  by (auto simp: arraysOk_def zeroSavepoint_def split: option.splits)

lemma arraysOk_cases:
  assumes "arraysOk S" "S \<noteq> zeroSavepoint"
  obtains h a where "pHistory S = Some h" "pSavepoints S = Some a" "length h = nHistoryMax S" "length a = nSavepointMax S"
    "nHistory S \<le> nHistoryMax S" "nSavepoints S \<le> nSavepointMax S"
    "0 < nHistoryMax S" "0 < nSavepointMax S" "nHistoryMax S < 2 ^ 31" "nSavepointMax S < 2 ^ 31"
  using assms by (auto simp: arraysOk_def split: option.splits)

lemma length_hist: "arraysOk S \<Longrightarrow> length (hist S) = nHistory S"
  by (auto simp: arraysOk_def hist_def zeroSavepoint_def split: option.splits)

lemma length_saves: "arraysOk S \<Longrightarrow> length (saves S) = nSavepoints S"
  by (auto simp: arraysOk_def saves_def zeroSavepoint_def split: option.splits)

lemma init_ok:
  assumes "S = zeroSavepoint" "rowlockSavepointInit histOk spOk S = (rc, S')"
  shows "arraysOk S'" "hist S' = []" "saves S' = []" "nHistory S' = 0" "rc = SQLITE_OK \<longrightarrow> S' \<noteq> zeroSavepoint" "rc = SQLITE_OK \<or> rc = SQLITE_NOMEM \<and> S' = S"
  using assms
  by (auto simp: rowlockSavepointInit_def arraysOk_def hist_def saves_def zeroSavepoint_def
      ROWLOCK_STACK_DEAULT_SIZE_def ROWLOCK_SAVEPOINT_DEAULT_SIZE_def split: if_splits)

lemma growSavepoints_ok:
  assumes ok: "arraysOk S" "S \<noteq> zeroSavepoint" and g: "growSavepoints growOk junk S = Some S'"
  shows "arraysOk S'" "S' \<noteq> zeroSavepoint" "hist S' = hist S" "saves S' = saves S" "nHistory S' = nHistory S"
    "nSavepoints S' = nSavepoints S" "nSavepoints S' < nSavepointMax S'"
proof -
  obtain h a where o: "pHistory S = Some h" "pSavepoints S = Some a" "length h = nHistoryMax S" "length a = nSavepointMax S"
    "nHistory S \<le> nHistoryMax S" "nSavepoints S \<le> nSavepointMax S"
    "0 < nHistoryMax S" "0 < nSavepointMax S" "nHistoryMax S < 2 ^ 31" "nSavepointMax S < 2 ^ 31"
    by (rule arraysOk_cases [OF ok])
  have w: "wrap64 (sizeof_RowLockSavepointEntry * nSavepointMax S * 2) = 32 * nSavepointMax S"
    using o(10) by (simp add: sizeof_RowLockSavepointEntry_def)
  have lim: "nSavepointMax S * 2 < 2 ^ 31" if "reallocOk growOk (wrap64 (sizeof_RowLockSavepointEntry * nSavepointMax S * 2))"
    using that by (simp add: w reallocOk_def)
  show "arraysOk S'" "hist S' = hist S" "saves S' = saves S" "nHistory S' = nHistory S"
    "nSavepoints S' = nSavepoints S" "nSavepoints S' < nSavepointMax S'"
    using g o lim by (auto simp: growSavepoints_def arraysOk_def hist_def saves_def split: if_splits)
  have "pHistory S' \<noteq> None" using g o by (auto simp: growSavepoints_def split: if_splits)
  then show "S' \<noteq> zeroSavepoint" by auto
qed

lemma growHistory_ok:
  assumes ok: "arraysOk S" "S \<noteq> zeroSavepoint" and g: "growHistory growOk junk S = Some S'"
  shows "arraysOk S'" "S' \<noteq> zeroSavepoint" "hist S' = hist S" "saves S' = saves S" "nHistory S' = nHistory S"
    "nHistory S' < nHistoryMax S'"
proof -
  obtain h a where o: "pHistory S = Some h" "pSavepoints S = Some a" "length h = nHistoryMax S" "length a = nSavepointMax S"
    "nHistory S \<le> nHistoryMax S" "nSavepoints S \<le> nSavepointMax S"
    "0 < nHistoryMax S" "0 < nSavepointMax S" "nHistoryMax S < 2 ^ 31" "nSavepointMax S < 2 ^ 31"
    by (rule arraysOk_cases [OF ok])
  have w: "wrap64 (sizeof_RowLockHistory * nHistoryMax S * 2) = 80 * nHistoryMax S"
    using o(9) by (simp add: sizeof_RowLockHistory_def)
  have lim: "nHistoryMax S * 2 < 2 ^ 31" if "reallocOk growOk (wrap64 (sizeof_RowLockHistory * nHistoryMax S * 2))"
    using that by (simp add: w reallocOk_def)
  show "arraysOk S'" "hist S' = hist S" "saves S' = saves S" "nHistory S' = nHistory S" "nHistory S' < nHistoryMax S'"
    using g o lim by (auto simp: growHistory_def arraysOk_def hist_def saves_def split: if_splits)
  have "pHistory S' \<noteq> None" using g o by (auto simp: growHistory_def split: if_splits)
  then show "S' \<noteq> zeroSavepoint" by auto
qed

section \<open>The stacks after an operation\<close>

lemma last_save:
  assumes "arraysOk S" "pSavepoints S = Some a" "0 < nSavepoints S"
  shows "a ! (nSavepoints S - 1) = last (saves S)" "saves S \<noteq> []"
proof -
  have l: "length (saves S) = nSavepoints S" by (rule length_saves [OF assms(1)])
  then show "saves S \<noteq> []" using assms(3) by auto
  then have "last (saves S) = saves S ! (nSavepoints S - 1)" using l by (simp add: last_conv_nth)
  then show "a ! (nSavepoints S - 1) = last (saves S)" using assms by (simp add: saves_def)
qed

lemma sp_append_save:
  assumes "sp_inv S" "S \<noteq> zeroSavepoint" "nSavepoints S < nSavepointMax S"
    and S'_def: "S' = S\<lparr>pSavepoints := Some ((the (pSavepoints S))[nSavepoints S := \<lparr>iLockRecord = nHistory S, iSavepoint = k\<rparr>]),
      nSavepoints := (nSavepoints S + 1) mod 2 ^ 32\<rparr>"
  shows "sp_inv S'" "hist S' = hist S" "saves S' = saves S @ [\<lparr>iLockRecord = nHistory S, iSavepoint = k\<rparr>]"
proof -
  have ok: "arraysOk S" using assms(1) by (simp add: sp_inv_def)
  obtain h a where o: "pHistory S = Some h" "pSavepoints S = Some a" "length h = nHistoryMax S" "length a = nSavepointMax S"
    "nHistory S \<le> nHistoryMax S" "nSavepoints S \<le> nSavepointMax S"
    "0 < nHistoryMax S" "0 < nSavepointMax S" "nHistoryMax S < 2 ^ 31" "nSavepointMax S < 2 ^ 31"
    by (rule arraysOk_cases [OF ok assms(2)])
  have n: "nSavepoints S < length a" using assms(3) o(4) by simp
  have m: "(nSavepoints S + 1) mod 2 ^ 32 = nSavepoints S + 1" using assms(3) o(10) by simp
  have t: "take (nSavepoints S + 1) (a[nSavepoints S := e]) = take (nSavepoints S) a @ [e]" for e
    using n by (simp add: take_Suc_conv_app_nth)
  show hs: "hist S' = hist S" "saves S' = saves S @ [\<lparr>iLockRecord = nHistory S, iSavepoint = k\<rparr>]"
    using o n by (simp_all add: S'_def hist_def saves_def m t [simplified])
  have "arraysOk S'" using o assms(3) by (simp add: S'_def arraysOk_def m)
  then show "sp_inv S'" using assms(1) hs by (auto simp: sp_inv_def sorted_append S'_def)
qed

lemma start_ok:
  assumes inv: "sp_inv S" and z: "P \<longleftrightarrow> S = zeroSavepoint"
    and i: "(if P then rowlockSavepointInit histOk spOk S else (SQLITE_OK, S)) = (rc1, S1)"
  shows "sp_inv S1" "hist S1 = hist S" "saves S1 = saves S" "nHistory S1 = nHistory S"
    "rc1 = SQLITE_OK \<longrightarrow> S1 \<noteq> zeroSavepoint" "rc1 = SQLITE_OK \<or> rc1 = SQLITE_NOMEM"
  using i z init_ok [of S histOk spOk rc1 S1] inv by (auto simp: sp_inv_def split: if_splits)

lemma create_ok:
  assumes inv: "sp_inv S" and r: "rowlockSavepointCreate histOk spOk growOk junk S k = (rc, S')"
  shows "sp_inv S' \<and> hist S' = hist S \<and>
    (if rc = SQLITE_OK
     then (saves S' = saves S @ [\<lparr>iLockRecord = nHistory S, iSavepoint = k\<rparr>] \<or>
           saves S' = saves S \<and> saves S \<noteq> [] \<and> last (saves S) = \<lparr>iLockRecord = nHistory S, iSavepoint = k\<rparr>)
     else rc = SQLITE_NOMEM \<and> saves S' = saves S)"
proof -
  have ok: "arraysOk S" using inv by (simp add: sp_inv_def)
  obtain rc1 S1 where i: "(if pSavepoints S = None then rowlockSavepointInit histOk spOk S else (SQLITE_OK, S)) = (rc1, S1)" by fastforce
  note S1 = start_ok [OF inv arraysOk_null(2) [OF ok] i]
  show ?thesis
  proof (cases "rc1 = SQLITE_OK")
    case False
    then show ?thesis using r i S1 by (auto simp: rowlockSavepointCreate_def)
  next
    case True
    then have nz: "S1 \<noteq> zeroSavepoint" using S1(5) by simp
    have ok1: "arraysOk S1" using S1(1) by (simp add: sp_inv_def)
    show ?thesis
    proof (cases "growSavepoints growOk junk S1")
      case None
      then show ?thesis using r i S1 True by (auto simp: rowlockSavepointCreate_def)
    next
      case (Some S2)
      note g = growSavepoints_ok [OF ok1 nz Some]
      have inv2: "sp_inv S2" using S1(1) g by (simp add: sp_inv_def)
      obtain a where a: "pSavepoints S2 = Some a" using arraysOk_null(2) [OF g(1)] g(2) by blast
      note l = last_save [OF g(1) a]
      note app = sp_append_save [OF inv2 g(2) g(7) refl, of k]
      let ?E = "\<lparr>iLockRecord = nHistory S2, iSavepoint = k\<rparr>"
      show ?thesis
      proof (cases "0 < nSavepoints S2 \<and> iSavepoint (a ! (nSavepoints S2 - 1)) = k \<and> iLockRecord (a ! (nSavepoints S2 - 1)) = nHistory S2")
        case same: True
        then have "last (saves S2) = ?E" "saves S2 \<noteq> []" using l by (simp_all add: RowLockSavepointEntry.equality)
        moreover have "rc = SQLITE_OK" "S' = S2" using r i True Some same a by (auto simp: rowlockSavepointCreate_def Let_def)
        ultimately show ?thesis using inv2 g S1 by simp
      next
        case False
        then have "rc = SQLITE_OK" "S' = S2\<lparr>pSavepoints := Some ((the (pSavepoints S2))[nSavepoints S2 := ?E]),
            nSavepoints := (nSavepoints S2 + 1) mod 2 ^ 32\<rparr>"
          using r i True Some a by (auto simp: rowlockSavepointCreate_def Let_def)
        then show ?thesis using app g S1 by simp
      qed
    qed
  qed
qed

text \<open>The entry that \<open>sqlite3rowlockHistoryAdd\<close> writes.\<close>

definition historyEntry :: "HistoryType \<Rightarrow> int \<Rightarrow> i64 \<Rightarrow> blob option \<Rightarrow> addr \<Rightarrow> u8 \<Rightarrow> RowLockHistory" where
  "historyEntry type iTable n p pColl prev =
     \<lparr>nRL = n, pRL = map_option (take (nat n)) p, iTableRL = iTable, pCollRL = pColl, prevRL = prev, typeRL = type\<rparr>"

lemma add_ok:
  assumes inv: "sp_inv S"
    and r: "sqlite3rowlockHistoryAdd histOk spOk growOk copyOk junk S type iTable n p pColl prev = (rc, S')"
  shows "sp_inv S' \<and> saves S' = saves S \<and>
    (if rc = SQLITE_OK then hist S' = hist S @ [historyEntry type iTable n p pColl prev]
     else rc = SQLITE_NOMEM \<and> hist S' = hist S)"
proof -
  have ok: "arraysOk S" using inv by (simp add: sp_inv_def)
  obtain rc1 S1 where i: "(if pHistory S = None then rowlockSavepointInit histOk spOk S else (SQLITE_OK, S)) = (rc1, S1)" by fastforce
  note S1 = start_ok [OF inv arraysOk_null(1) [OF ok] i]
  show ?thesis
  proof (cases "rc1 = SQLITE_OK \<and> growHistory growOk junk S1 \<noteq> None")
    case False
    then show ?thesis using r i S1 by (auto simp: sqlite3rowlockHistoryAdd_def split: if_splits option.splits)
  next
    case True
    then obtain S2 where S2: "growHistory growOk junk S1 = Some S2" by blast
    have nz: "S1 \<noteq> zeroSavepoint" and ok1: "arraysOk S1" using S1(1,5) True by (simp_all add: sp_inv_def)
    note g = growHistory_ok [OF ok1 nz S2]
    have inv2: "sp_inv S2" using S1(1) g by (simp add: sp_inv_def)
    show ?thesis
    proof (cases "p \<noteq> None \<and> \<not> copyOk")
      case nocopy: True
      then have "rc = SQLITE_NOMEM" "S' = S2" using r i True S2 by (auto simp: sqlite3rowlockHistoryAdd_def)
      then show ?thesis using inv2 g S1 by simp
    next
      case False
      let ?e = "historyEntry type iTable n p pColl prev"
      obtain h a where o: "pHistory S2 = Some h" "pSavepoints S2 = Some a" "length h = nHistoryMax S2" "length a = nSavepointMax S2"
        "nHistory S2 \<le> nHistoryMax S2" "nSavepoints S2 \<le> nSavepointMax S2"
        "0 < nHistoryMax S2" "0 < nSavepointMax S2" "nHistoryMax S2 < 2 ^ 31" "nSavepointMax S2 < 2 ^ 31"
        by (rule arraysOk_cases [OF g(1,2)])
      have w: "wrap64 (nHistory S2 + 1) = nHistory S2 + 1" using o(5,9) by simp
      have rc: "rc = SQLITE_OK" and S': "S' = S2\<lparr>pHistory := Some (h[nHistory S2 := ?e]), nHistory := nHistory S2 + 1\<rparr>"
        using r i True S2 False o(1) by (auto simp: sqlite3rowlockHistoryAdd_def historyEntry_def w [simplified])
      have n: "nHistory S2 < length h" using g(6) o(3) by simp
      have h': "hist S' = hist S2 @ [?e]" using o(1) n by (simp add: S' hist_def take_Suc_conv_app_nth)
      have s': "saves S' = saves S2" using o(2) by (simp add: S' saves_def)
      have "arraysOk S'" using o g(6) by (simp add: S' arraysOk_def)
      moreover have "nHistory S' = nHistory S2 + 1" by (simp add: S')
      ultimately have "sp_inv S'" using inv2 s' by (auto simp: sp_inv_def)
      then show ?thesis using h' s' g S1 rc by simp
    qed
  qed
qed

lemma searchSavepoint_Some:
  "searchSavepoint a i k = Some j \<longleftrightarrow> j \<le> i \<and> iSavepoint (a ! j) = k \<and> (\<forall>j'. j < j' \<longrightarrow> j' \<le> i \<longrightarrow> iSavepoint (a ! j') \<noteq> k)"
proof (induction i)
  case 0
  then show ?case by (subst searchSavepoint.simps) auto
next
  case (Suc i)
  show ?case
  proof (cases "iSavepoint (a ! Suc i) = k")
    case True
    have "j = Suc i" if "j \<le> Suc i" "\<forall>j'. j < j' \<longrightarrow> j' \<le> Suc i \<longrightarrow> iSavepoint (a ! j') \<noteq> k"
      using that True by (metis le_neq_implies_less le_refl)
    then show ?thesis using True by (subst searchSavepoint.simps) auto
  next
    case False
    then show ?thesis using Suc by (subst searchSavepoint.simps) (auto simp: le_Suc_eq)
  qed
qed

lemma searchSavepoint_None:
  "searchSavepoint a i k = None \<longleftrightarrow> (\<forall>j\<le>i. iSavepoint (a ! j) \<noteq> k)"
proof (induction i)
  case 0
  then show ?case by (subst searchSavepoint.simps) auto
next
  case (Suc i)
  then show ?case by (subst searchSavepoint.simps) (auto simp: le_Suc_eq)
qed

text \<open>Undoing a list of entries, the first one first.\<close>

fun undoAll :: "Caller \<Rightarrow> RowLockHistory list \<Rightarrow> LockWorld \<Rightarrow> LockWorld option" where
  "undoAll me [] W = Some W"
| "undoAll me (h # hs) W = Option.bind (rollbackEntry me h W) (undoAll me hs)"

lemma rollbackLoop_undo:
  "lo \<le> i \<Longrightarrow> i < length a \<Longrightarrow> rollbackLoop me a lo i W = undoAll me (rev (drop lo (take (Suc i) a))) W"
proof (induction "i - lo" arbitrary: i W)
  case 0
  then have "i = lo" by simp
  with 0 show ?case
    by (subst rollbackLoop.simps) (simp add: take_Suc_conv_app_nth drop_append split: bind_splits)
next
  case (Suc n)
  then have gt: "lo < i" by simp
  have "drop lo (take (Suc i) a) = drop lo (take i a) @ [a ! i]"
    using Suc.prems gt by (simp add: take_Suc_conv_app_nth)
  moreover have "rollbackLoop me a lo (i - 1) W' = undoAll me (rev (drop lo (take i a))) W'" for W'
    using Suc.hyps(1) [of "i - 1" W'] Suc.hyps(2) Suc.prems gt by simp
  ultimately show ?case using gt by (subst rollbackLoop.simps) (simp split: bind_splits)
qed

text \<open>The truncated arrays.\<close>

lemma take_zeroed: "n \<le> m \<Longrightarrow> m \<le> length a \<Longrightarrow> take n (take n a @ replicate (m - n) z @ drop m a) = take n a"
  "n \<le> m \<Longrightarrow> m \<le> length a \<Longrightarrow> length (take n a @ replicate (m - n) z @ drop m a) = length a"
  by simp_all

lemma sorted_mark:
  assumes "sp_inv S" "saves S = xs @ e # ys"
  shows "iLockRecord e \<le> nHistory S" "sorted (map iLockRecord (xs @ [e]))" "\<forall>e'\<in>set xs. iLockRecord e' \<le> iLockRecord e"
  using assms by (auto simp: sp_inv_def sorted_append)

lemma search_mark:
  assumes inv: "sp_inv S" and sv: "saves S = xs @ e # ys" and e: "iSavepoint e = k" "\<forall>e'\<in>set ys. iSavepoint e' \<noteq> k"
  shows "S \<noteq> zeroSavepoint" "nSavepoints S > 0" "searchSavepoint (the (pSavepoints S)) (nSavepoints S - 1) k = Some (length xs)"
    "the (pSavepoints S) ! length xs = e" "nSavepoints S = Suc (length xs + length ys)"
    "take (nSavepoints S) (the (pSavepoints S)) = xs @ e # ys"
proof -
  have ok: "arraysOk S" using inv by (simp add: sp_inv_def)
  show nz: "S \<noteq> zeroSavepoint" using sv by auto
  obtain a where a: "pSavepoints S = Some a" using arraysOk_null(2) [OF ok] nz by blast
  show n: "nSavepoints S = Suc (length xs + length ys)" using length_saves [OF ok] sv by simp
  then show "nSavepoints S > 0" by simp
  show t: "take (nSavepoints S) (the (pSavepoints S)) = xs @ e # ys" using sv a by (simp add: saves_def)
  have nth: "the (pSavepoints S) ! j = (xs @ e # ys) ! j" if "j < nSavepoints S" for j
    using that nth_take [OF that, of "the (pSavepoints S)"] t by simp
  show "the (pSavepoints S) ! length xs = e" using nth n by simp
  have "iSavepoint ((xs @ e # ys) ! j) \<noteq> k" if "length xs < j" "j \<le> nSavepoints S - 1" for j
    using that e(2) n nth_mem [of "j - Suc (length xs)" ys] by (auto simp: nth_append nth_Cons' )
  then show "searchSavepoint (the (pSavepoints S)) (nSavepoints S - 1) k = Some (length xs)"
    unfolding searchSavepoint_Some using nth n e(1) by simp
qed

lemma savepoint_truncated:
  assumes inv: "sp_inv S" and sv: "saves S = xs @ e # ys" and nz: "S \<noteq> zeroSavepoint"
    and n: "nSavepoints S = Suc (length xs + length ys)"
    and a: "a = the (pSavepoints S)" and h: "h = the (pHistory S)"
    and S1: "S1 = S\<lparr>pSavepoints := Some (take m a @ replicate (nSavepoints S - m) zeroEntry @ drop (nSavepoints S) a), nSavepoints := m\<rparr>"
    and S2: "S2 = S1\<lparr>pHistory := Some (take lo h @ replicate (nHistory S - lo) zeroHistory @ drop (nHistory S) h), nHistory := lo\<rparr>"
    and m: "m \<le> nSavepoints S" and lo: "lo \<le> nHistory S"
  shows "arraysOk S1" "hist S1 = hist S" "saves S1 = take m (saves S)"
    "arraysOk S2" "hist S2 = take lo (hist S)" "saves S2 = take m (saves S)"
proof -
  have ok: "arraysOk S" using inv by (simp add: sp_inv_def)
  obtain h0 a0 where o: "pHistory S = Some h0" "pSavepoints S = Some a0" "length h0 = nHistoryMax S" "length a0 = nSavepointMax S"
    "nHistory S \<le> nHistoryMax S" "nSavepoints S \<le> nSavepointMax S"
    "0 < nHistoryMax S" "0 < nSavepointMax S" "nHistoryMax S < 2 ^ 31" "nSavepointMax S < 2 ^ 31"
    by (rule arraysOk_cases [OF ok nz])
  have ah: "a = a0" "h = h0" using a h o by simp_all
  show "arraysOk S1" "hist S1 = hist S" "saves S1 = take m (saves S)"
    "arraysOk S2" "hist S2 = take lo (hist S)" "saves S2 = take m (saves S)"
    using o m lo by (auto simp: S1 S2 ah arraysOk_def hist_def saves_def min_def)
qed

lemma rollback_mark:
  assumes inv: "sp_inv S" and sv: "saves S = xs @ e # ys" and e: "iSavepoint e = k" "\<forall>e'\<in>set ys. iSavepoint e' \<noteq> k"
  shows "\<exists>S'. rowlockSavepoint me S W SAVEPOINT_ROLLBACK k =
      map_option (\<lambda>W'. (S', W')) (undoAll me (rev (drop (iLockRecord e) (hist S))) W) \<and>
    sp_inv S' \<and> hist S' = take (iLockRecord e) (hist S) \<and> saves S' = xs @ [e]"
proof -
  note f = search_mark [OF assms]
  have ok: "arraysOk S" using inv by (simp add: sp_inv_def)
  note o = sorted_mark [OF inv sv]
  define a where "a = the (pSavepoints S)"
  define h where "h = the (pHistory S)"
  define lo where "lo = iLockRecord e"
  define m where "m = Suc (length xs)"
  define S1 where "S1 = S\<lparr>pSavepoints := Some (take m a @ replicate (nSavepoints S - m) zeroEntry @ drop (nSavepoints S) a), nSavepoints := m\<rparr>"
  define S2 where "S2 = S1\<lparr>pHistory := Some (take lo h @ replicate (nHistory S - lo) zeroHistory @ drop (nHistory S) h), nHistory := lo\<rparr>"
  have m: "m \<le> nSavepoints S" and lo: "lo \<le> nHistory S" using f(5) o(1) by (simp_all add: m_def lo_def)
  note t = savepoint_truncated [OF inv sv f(1,5) a_def h_def S1_def S2_def m lo]
  have tk: "take m (saves S) = xs @ [e]" by (simp add: sv m_def)
  have loop: "(if nHistory S > 0 then rollbackLoop me h lo (nHistory S - 1) W else Some W) =
      undoAll me (rev (drop lo (hist S))) W"
  proof (cases "lo < nHistory S")
    case True
    obtain h0 where h0: "pHistory S = Some h0" using arraysOk_null(1) [OF ok] f(1) by blast
    have "length (hist S) = nHistory S" by (rule length_hist [OF ok])
    then have "nHistory S - 1 < length h" using h0 True by (simp add: hist_def h_def)
    then show ?thesis using True h0 rollbackLoop_undo [of lo "nHistory S - 1" h me W] by (simp add: hist_def h_def)
  next
    case False
    then have "lo = nHistory S" using lo by simp
    then show ?thesis using length_hist [OF ok] by (cases "nHistory S") (simp_all add: rollbackLoop.simps)
  qed
  define S' where "S' = (let S1' = (if nSavepoints S > m then S1 else S) in if nHistory S > lo then
      S1'\<lparr>pHistory := Some (take lo h @ replicate (nHistory S - lo) zeroHistory @ drop (nHistory S) h), nHistory := lo\<rparr> else S1')"
  have "rowlockSavepoint me S W SAVEPOINT_ROLLBACK k =
      Option.bind (if nHistory S > 0 then rollbackLoop me h lo (nHistory S - 1) W else Some W) (\<lambda>W'. Some (S', W'))"
    using f(2) f(3,4) [folded a_def]
    by (simp add: rowlockSavepoint_def Let_def lo_def [symmetric] a_def [symmetric] h_def [symmetric] S'_def S1_def m_def)
  then have run: "rowlockSavepoint me S W SAVEPOINT_ROLLBACK k = map_option (\<lambda>W'. (S', W')) (undoAll me (rev (drop lo (hist S))) W)"
    unfolding loop by (cases "undoAll me (rev (drop lo (hist S))) W") simp_all
  obtain h0 a0 where ha: "pHistory S = Some h0" "pSavepoints S = Some a0" using arraysOk_null [OF ok] f(1) by blast
  have "S1 = S" if "\<not> nSavepoints S > m" using that m ha(2) by (cases S) (simp add: S1_def a_def)
  moreover have "S2 = S1" if "\<not> nHistory S > lo" using that lo ha(1) by (cases S) (simp add: S2_def S1_def h_def)
  ultimately have "S' = S2" by (auto simp: S'_def S2_def)
  then have "arraysOk S' \<and> hist S' = take lo (hist S) \<and> saves S' = xs @ [e] \<and> nHistory S' = lo"
    using t(4-6) tk by (simp add: S2_def)
  moreover from this have "sp_inv S'" using o by (simp add: sp_inv_def lo_def sorted_append)
  ultimately show ?thesis using run by (auto simp: lo_def)
qed

lemma release_mark:
  assumes inv: "sp_inv S" and sv: "saves S = xs @ e # ys" and e: "iSavepoint e = k" "\<forall>e'\<in>set ys. iSavepoint e' \<noteq> k"
    and op: "op \<noteq> SAVEPOINT_ROLLBACK"
  shows "\<exists>S'. rowlockSavepoint me S W op k = Some (S', W) \<and> sp_inv S' \<and> hist S' = hist S \<and> saves S' = xs"
proof -
  note f = search_mark [OF inv sv e]
  have ok: "arraysOk S" using inv by (simp add: sp_inv_def)
  define a where "a = the (pSavepoints S)"
  define S1 where "S1 = S\<lparr>pSavepoints := Some (take (length xs) a @ replicate (nSavepoints S - length xs) zeroEntry @ drop (nSavepoints S) a),
      nSavepoints := length xs\<rparr>"
  have m: "length xs \<le> nSavepoints S" using f(5) by simp
  note t = savepoint_truncated [OF inv sv f(1,5) a_def refl S1_def refl m order_refl]
  have S1: "hist S1 = hist S" "saves S1 = xs" using t sv by simp_all
  then have "sp_inv S1" using t(1) inv sv by (auto simp: sp_inv_def sorted_append S1_def)
  moreover have "rowlockSavepoint me S W op k = Some (S1, W)"
    using f(2,5) f(3,4) [folded a_def] op
    by (simp add: rowlockSavepoint_def Let_def a_def [symmetric] S1_def)
  ultimately show ?thesis using S1 by blast
qed

lemma no_mark:
  assumes inv: "sp_inv S" and none: "\<forall>e\<in>set (saves S). iSavepoint e \<noteq> k"
  shows "rowlockSavepoint me S W op k = Some (S, W)"
proof (cases "nSavepoints S > 0")
  case True
  have ok: "arraysOk S" using inv by (simp add: sp_inv_def)
  have l: "length (saves S) = nSavepoints S" by (rule length_saves [OF ok])
  then obtain a where a: "pSavepoints S = Some a" using True by (auto simp: saves_def split: option.splits)
  have "a ! j \<in> set (saves S)" if "j \<le> nSavepoints S - 1" for j
  proof -
    have "j < length (saves S)" using that True l by simp
    then have "saves S ! j \<in> set (saves S)" by (rule nth_mem)
    then show ?thesis using a that True by (simp add: saves_def)
  qed
  then have "searchSavepoint a (nSavepoints S - 1) k = None" using none by (simp add: searchSavepoint_None)
  then show ?thesis using a True by (simp add: rowlockSavepoint_def)
qed (simp add: rowlockSavepoint_def)

section \<open>Locking rows between two savepoint operations\<close>

text \<open>
  The row lock of \<open>sqlite3TransBtreeInsert\<close> and \<open>sqlite3TransBtreeDelete\<close>: lock the row
  and, when the lock is new, record it. The result is what the caller goes on with.
\<close>

definition lockRecordAndAddHistory ::
  "Caller \<Rightarrow> bool \<Rightarrow> bool \<Rightarrow> bool \<Rightarrow> (nat \<Rightarrow> RowLockHistory) \<Rightarrow> RowLockSavepoint \<Rightarrow> LockWorld \<Rightarrow> int \<Rightarrow> i64 \<Rightarrow>
   (rc \<times> RowLockSavepoint \<times> LockWorld) option" where
  "lockRecordAndAddHistory me histOk spOk growOk junk S W iTable rowid =
     Option.bind (sqlite3rowlockIpcLockRecord (rowArea W) (myPid me) (myOwner me) iTable rowid) (\<lambda>(rc, m).
       if rc = SQLITE_DONE then Some (SQLITE_OK, S, W\<lparr>rowArea := m\<rparr>)
       else if rc \<noteq> SQLITE_OK then Some (rc, S, W\<lparr>rowArea := m\<rparr>)
       else let (rc', S') = sqlite3rowlockHistoryAddRecord histOk spOk growOk junk S iTable rowid
            in Some (rc', S', W\<lparr>rowArea := m\<rparr>))"

fun lockRows ::
  "Caller \<Rightarrow> (nat \<Rightarrow> RowLockHistory) \<Rightarrow> RowLockSavepoint \<Rightarrow> LockWorld \<Rightarrow> (int \<times> i64) list \<Rightarrow>
   (rc list \<times> RowLockSavepoint \<times> LockWorld) option" where
  "lockRows me junk S W [] = Some ([], S, W)"
| "lockRows me junk S W ((iTable, rowid) # ks) =
     Option.bind (lockRecordAndAddHistory me True True True junk S W iTable rowid) (\<lambda>(rc, S', W').
     Option.bind (lockRows me junk S' W' ks) (\<lambda>(rcs, S'', W'').
       Some (rc # rcs, S'', W'')))"

definition recordEntry :: "int \<times> i64 \<Rightarrow> RowLockHistory" where
  "recordEntry k = historyEntry RLH_REOCRD (fst k) (snd k) None 0 0"

text \<open>What a sequence of row locks adds to the history and to the locks.\<close>

definition rowsAdded :: "Caller \<Rightarrow> RowLockSavepoint \<Rightarrow> LockWorld \<Rightarrow> (int \<times> i64) list \<Rightarrow> RowLockSavepoint \<Rightarrow> LockWorld \<Rightarrow> bool" where
  "rowsAdded me S W new S' W' \<longleftrightarrow> sp_inv S' \<and> saves S' = saves S \<and> hist S' = hist S @ map recordEntry new \<and>
     row_inv (rowArea W') \<and> W' = W\<lparr>rowArea := rowArea W'\<rparr> \<and> (\<forall>k\<in>set new. row_abs (rowArea W) k = None) \<and>
     (\<forall>k. row_abs (rowArea W') k = (if k \<in> set new then Some (myPid me, myOwner me) else row_abs (rowArea W) k))"

lemma lockRecord_added:
  assumes inv: "sp_inv S" "row_inv (rowArea W)" and t: "iTable \<noteq> 0"
    and r: "lockRecordAndAddHistory me histOk spOk growOk junk S W iTable rowid = Some (rc, S', W')"
    and ok: "rc = SQLITE_OK \<or> rc = SQLITE_LOCKED"
  shows "rowsAdded me S W [] S' W' \<or> rowsAdded me S W [(iTable, rowid)] S' W'"
proof -
  let ?L = "row_abs (rowArea W)" and ?k = "(iTable, rowid)" and ?h = "(myPid me, myOwner me)" and ?c = "nElementR (rowArea W) - 1"
  obtain m where m: "sqlite3rowlockIpcLockRecord (rowArea W) (myPid me) (myOwner me) iTable rowid = Some (fst (spec_lock ?c ?L ?k ?h), m)"
    "row_inv m" "row_abs m = snd (spec_lock ?c ?L ?k ?h)"
    by (rule row_lock_refines [OF inv(2) t])
  obtain rcH SH where H: "sqlite3rowlockHistoryAddRecord histOk spOk growOk junk S iTable rowid = (rcH, SH)" by fastforce
  have a: "sp_inv SH \<and> saves SH = saves S \<and> (if rcH = SQLITE_OK then hist SH = hist S @ [recordEntry ?k] else rcH = SQLITE_NOMEM \<and> hist SH = hist S)"
    using add_ok [OF inv(1) H [unfolded sqlite3rowlockHistoryAddRecord_def]] by (simp add: recordEntry_def)
  show ?thesis
  proof (cases "fst (spec_lock ?c ?L ?k ?h) = SQLITE_OK")
    case True
    then have L: "?L ?k = None" "row_abs m = ?L(?k \<mapsto> ?h)"
      using m(3) by (auto simp: spec_lock_def split: option.splits if_splits)
    have "rc = rcH" "S' = SH" "W' = W\<lparr>rowArea := m\<rparr>" using r m(1) True H by (auto simp: lockRecordAndAddHistory_def)
    then show ?thesis using a L m(2) ok by (auto simp: rowsAdded_def)
  next
    case False
    then have L: "row_abs m = ?L" using m(3) by (auto simp: spec_lock_def split: option.splits if_splits)
    have "S' = S" "W' = W\<lparr>rowArea := m\<rparr>" using r m(1) False by (auto simp: lockRecordAndAddHistory_def split: if_splits)
    then show ?thesis using inv L m(2) by (simp add: rowsAdded_def)
  qed
qed

lemma rowsAdded_trans:
  assumes "rowsAdded me S W new S1 W1" "rowsAdded me S1 W1 new' S2 W2"
  shows "rowsAdded me S W (new @ new') S2 W2"
proof -
  have "W2 = W\<lparr>rowArea := rowArea W2\<rparr>"
    using assms unfolding rowsAdded_def by (metis LockWorld.surjective LockWorld.update_convs(1))
  moreover have "row_abs (rowArea W) k = None" if "k \<in> set (new @ new')" for k
    using assms that unfolding rowsAdded_def by (metis Un_iff option.distinct(1) set_append)
  moreover have "row_abs (rowArea W2) k = (if k \<in> set (new @ new') then Some (myPid me, myOwner me) else row_abs (rowArea W) k)" for k
  proof -
    have "row_abs (rowArea W1) k = (if k \<in> set new then Some (myPid me, myOwner me) else row_abs (rowArea W) k)"
      using assms(1) unfolding rowsAdded_def by blast
    moreover have "row_abs (rowArea W2) k = (if k \<in> set new' then Some (myPid me, myOwner me) else row_abs (rowArea W1) k)"
      using assms(2) unfolding rowsAdded_def by blast
    ultimately show ?thesis by simp
  qed
  ultimately show ?thesis using assms unfolding rowsAdded_def by simp
qed

lemma lockRows_added:
  "sp_inv S \<Longrightarrow> row_inv (rowArea W) \<Longrightarrow> \<forall>(t, r)\<in>set ks. t \<noteq> 0 \<Longrightarrow> lockRows me junk S W ks = Some (rcs, S', W') \<Longrightarrow>
   set rcs \<subseteq> {SQLITE_OK, SQLITE_LOCKED} \<Longrightarrow> \<exists>new. rowsAdded me S W new S' W'"
proof (induction ks arbitrary: S W rcs)
  case Nil
  then show ?case by (intro exI [of _ "[]"]) (simp add: rowsAdded_def)
next
  case (Cons k ks)
  obtain t r where k: "k = (t, r)" by fastforce
  from Cons.prems(4) obtain rc S1 W1 rcs' where s: "lockRecordAndAddHistory me True True True junk S W t r = Some (rc, S1, W1)"
    "lockRows me junk S1 W1 ks = Some (rcs', S', W')" "rcs = rc # rcs'"
    by (auto simp: k split: bind_splits)
  have "t \<noteq> 0" "rc = SQLITE_OK \<or> rc = SQLITE_LOCKED" using Cons.prems(3,5) k s(3) by auto
  then obtain new1 where n1: "rowsAdded me S W new1 S1 W1" using lockRecord_added [OF Cons.prems(1,2) _ s(1)] by blast
  then have "sp_inv S1" "row_inv (rowArea W1)" by (simp_all add: rowsAdded_def)
  then obtain new2 where "rowsAdded me S1 W1 new2 S' W'"
    using Cons.IH [OF _ _ _ s(2)] Cons.prems(3,5) s(3) by auto
  with n1 show ?case using rowsAdded_trans by blast
qed

lemma undo_rows:
  "row_inv (rowArea W) \<Longrightarrow> \<exists>W'. undoAll me (map recordEntry ks) W = Some W' \<and> row_inv (rowArea W') \<and>
     W' = W\<lparr>rowArea := rowArea W'\<rparr> \<and> row_abs (rowArea W') = (\<lambda>k. if k \<in> set ks then None else row_abs (rowArea W) k)"
proof (induction ks arbitrary: W)
  case Nil
  then show ?case by simp
next
  case (Cons k ks)
  obtain m where m: "sqlite3rowlockIpcUnlockRecord (rowArea W) (fst k) (snd k) = Some m" "row_inv m"
    "row_abs m = (row_abs (rowArea W))((fst k, snd k) := None)"
    by (rule row_unlock_refines [OF Cons.prems])
  define W1 where "W1 = W\<lparr>rowArea := m\<rparr>"
  have W1: "rowArea W1 = m" "\<And>m'. W1\<lparr>rowArea := m'\<rparr> = W\<lparr>rowArea := m'\<rparr>" by (simp_all add: W1_def)
  have e: "rollbackEntry me (recordEntry k) W = Some W1"
    using m(1) by (simp add: rollbackEntry_def recordEntry_def historyEntry_def W1_def)
  obtain W' where "undoAll me (map recordEntry ks) W1 = Some W'" "row_inv (rowArea W')"
    "W' = W\<lparr>rowArea := rowArea W'\<rparr>" "row_abs (rowArea W') = (\<lambda>k'. if k' \<in> set ks then None else row_abs m k')"
    using Cons.IH [of W1] m(2) unfolding W1 by blast
  with e m(3) show ?case by (intro exI [of _ W']) (auto simp: fun_eq_iff)
qed

section \<open>Properties\<close>

text \<open>
  C26. Every operation on the savepoint stacks keeps their bounds: the counters stay within
  the allocated arrays (which are both null or both allocated), every mark points into
  the history, and the marks are ordered. This includes growing the arrays, every failed
  allocation, and a rollback that undoes lock entries.
\<close>

theorem savepoint_bounds:
  assumes inv: "sp_inv S"
  shows "sp_inv (snd (rowlockSavepointCreate histOk spOk growOk junk S k)) \<and>
    sp_inv (snd (sqlite3rowlockHistoryAdd histOk spOk growOk copyOk junk' S type iTable n p pColl prev)) \<and>
    (\<forall>S' W'. rowlockSavepoint me S W op k = Some (S', W') \<longrightarrow> sp_inv S') \<and>
    (\<forall>S'. sqlite3rowlockSavepointClose (Some S) = Some S' \<longrightarrow> sp_inv S')"
proof -
  have 1: "sp_inv (snd (rowlockSavepointCreate histOk spOk growOk junk S k))"
    using create_ok [OF inv, of histOk spOk growOk junk k] by (metis surjective_pairing)
  have 2: "sp_inv (snd (sqlite3rowlockHistoryAdd histOk spOk growOk copyOk junk' S type iTable n p pColl prev))"
    using add_ok [OF inv, of histOk spOk growOk copyOk junk' type iTable n p pColl prev] by (metis surjective_pairing)
  have 3: "sp_inv S'" if run: "rowlockSavepoint me S W op k = Some (S', W')" for S' W'
  proof (cases "\<exists>e\<in>set (saves S). iSavepoint e = k")
    case True
    then obtain xs e ys where sv: "saves S = xs @ e # ys" "iSavepoint e = k" "\<forall>e'\<in>set ys. iSavepoint e' \<noteq> k"
      using split_list_last_propE [OF True] by metis
    show ?thesis
    proof (cases "op = SAVEPOINT_ROLLBACK")
      case True
      then show ?thesis using rollback_mark [OF inv sv, of me W] run
        by (cases "undoAll me (rev (drop (iLockRecord e) (hist S))) W") auto
    next
      case False
      then show ?thesis using release_mark [OF inv sv False, of me W] run by auto
    qed
  next
    case False
    then show ?thesis using no_mark [OF inv] run inv by auto
  qed
  have 4: "sp_inv S'" if "sqlite3rowlockSavepointClose (Some S) = Some S'" for S'
    using that sp_inv_zero by (cases S) (auto simp: sqlite3rowlockSavepointClose_def zeroSavepoint_def)
  show ?thesis using 1 2 3 4 by blast
qed

theorem savepoint_bounds_witness:
  "sp_inv (snd (rowlockSavepointCreate True True True (\<lambda>_. zeroEntry) zeroSavepoint 3))"
  using savepoint_bounds [OF sp_inv_zero] by blast

text \<open>
  C24. \<open>rowlockSavepoint\<close>: rolling back to a savepoint undoes exactly the entries recorded since
  the latest mark with this number, the latest first, keeps that mark and drops the later
  ones; releasing drops that mark and the later ones and keeps all entries; an
  unknown number changes nothing.
\<close>

theorem rowlockSavepoint_correct:
  assumes inv: "sp_inv S" and sv: "saves S = xs @ e # ys" and e: "iSavepoint e = k" and ys: "\<forall>e'\<in>set ys. iSavepoint e' \<noteq> k"
  shows "(\<exists>S'. rowlockSavepoint me S W SAVEPOINT_ROLLBACK k =
        map_option (\<lambda>W'. (S', W')) (undoAll me (rev (drop (iLockRecord e) (hist S))) W) \<and>
      hist S' = take (iLockRecord e) (hist S) \<and> saves S' = xs @ [e]) \<and>
    (\<exists>S'. rowlockSavepoint me S W SAVEPOINT_RELEASE k = Some (S', W) \<and> hist S' = hist S \<and> saves S' = xs) \<and>
    (\<forall>k' op. (\<forall>e\<in>set (saves S). iSavepoint e \<noteq> k') \<longrightarrow> rowlockSavepoint me S W op k' = Some (S, W))"
  using rollback_mark [OF inv sv e ys, of me W] release_mark [OF inv sv e ys, of SAVEPOINT_RELEASE me W] no_mark [OF inv] by auto

text \<open>A connection and a shared memory to try the operations on.\<close>

definition demoCaller :: Caller where
  "demoCaller = \<lparr>myPid = 7, myOwner = 1, collation = (\<lambda>_. blobComparator)\<rparr>"

definition demoWorld :: LockWorld where
  "demoWorld = \<lparr>rowArea = rowClassInitArea freshRowArea 184, tableArea = tableDemo, psmArea = psmEmpty,
     rootPages = hashInit, rootHeap = Map.empty, rootData = Map.empty\<rparr>"

definition demoSavepoint :: RowLockSavepoint where
  "demoSavepoint = snd (rowlockSavepointCreate True True True (\<lambda>_. zeroEntry) zeroSavepoint 3)"

lemma demoSavepoint_create:
  "rowlockSavepointCreate True True True (\<lambda>_. zeroEntry) zeroSavepoint 3 = (SQLITE_OK, demoSavepoint)"
  "nHistory demoSavepoint = 0" "nHistoryMax demoSavepoint = 1024" "pHistory demoSavepoint \<noteq> None"
  by (simp_all add: demoSavepoint_def rowlockSavepointCreate_def rowlockSavepointInit_def growSavepoints_def Let_def
      ROWLOCK_SAVEPOINT_DEAULT_SIZE_def ROWLOCK_STACK_DEAULT_SIZE_def)

lemma demoSavepoint_ok: "sp_inv demoSavepoint" "saves demoSavepoint = [] @ \<lparr>iLockRecord = 0, iSavepoint = 3\<rparr> # []"
  using create_ok [OF sp_inv_zero demoSavepoint_create(1)] by auto

theorem rowlockSavepoint_correct_witness:
  "\<exists>S'. rowlockSavepoint demoCaller demoSavepoint demoWorld SAVEPOINT_RELEASE 3 = Some (S', demoWorld) \<and> saves S' = []"
  using rowlockSavepoint_correct [OF demoSavepoint_ok, of 3 demoCaller demoWorld] by auto

text \<open>
  C25. Round trip of a savepoint over row locks: after creating a savepoint and locking any
  rows, each attempt succeeding or being refused, rolling back to it returns and restores exactly
  the row locks, the history and the other areas of the time of its creation.
\<close>

theorem savepoint_row_roundtrip:
  assumes inv: "sp_inv S" "row_inv (rowArea W)" and ks: "\<forall>(t, r)\<in>set ks. t \<noteq> 0"
    and create: "rowlockSavepointCreate histOk spOk growOk junk S k = (SQLITE_OK, S1)"
    and run: "lockRows me junk' S1 W ks = Some (rcs, S2, W2)" and ok: "set rcs \<subseteq> {SQLITE_OK, SQLITE_LOCKED}"
  shows "\<exists>S3 W3. rowlockSavepoint me S2 W2 SAVEPOINT_ROLLBACK k = Some (S3, W3) \<and> hist S3 = hist S \<and>
    row_inv (rowArea W3) \<and> row_abs (rowArea W3) = row_abs (rowArea W) \<and> W3 = W\<lparr>rowArea := rowArea W3\<rparr>"
proof -
  let ?e = "\<lparr>iLockRecord = nHistory S, iSavepoint = k\<rparr>"
  have c: "sp_inv S1" "hist S1 = hist S" "\<exists>xs. saves S1 = xs @ [?e]"
    using create_ok [OF inv(1) create] by (metis append_butlast_last_id)+
  then obtain xs where xs: "saves S1 = xs @ ?e # []" by blast
  obtain new where n: "rowsAdded me S1 W new S2 W2" using lockRows_added [OF c(1) inv(2) ks run ok] by blast
  have len: "length (hist S) = nHistory S" using inv(1) by (simp add: length_hist sp_inv_def)
  have S2: "sp_inv S2" "saves S2 = xs @ ?e # []" "hist S2 = hist S @ map recordEntry new" "row_inv (rowArea W2)" "W2 = W\<lparr>rowArea := rowArea W2\<rparr>"
    using n c(2) xs by (simp_all add: rowsAdded_def)
  obtain S3 where S3: "rowlockSavepoint me S2 W2 SAVEPOINT_ROLLBACK k =
      map_option (\<lambda>W'. (S3, W')) (undoAll me (rev (drop (nHistory S) (hist S2))) W2)" "hist S3 = take (nHistory S) (hist S2)"
    using rollback_mark [OF S2(1,2), of k me W2] by auto
  have "rev (drop (nHistory S) (hist S2)) = map recordEntry (rev new)" using len by (simp add: S2(3) rev_map)
  then obtain W3 where W3: "undoAll me (rev (drop (nHistory S) (hist S2))) W2 = Some W3" "row_inv (rowArea W3)"
    "W3 = W2\<lparr>rowArea := rowArea W3\<rparr>" "row_abs (rowArea W3) = (\<lambda>k. if k \<in> set new then None else row_abs (rowArea W2) k)"
    using undo_rows [OF S2(4), of me "rev new"] by auto
  have "row_abs (rowArea W3) = row_abs (rowArea W)" using n W3(4) by (auto simp: rowsAdded_def fun_eq_iff)
  moreover have "W3 = W\<lparr>rowArea := rowArea W3\<rparr>" using W3(3) S2(5) by (metis LockWorld.surjective LockWorld.update_convs(1))
  ultimately show ?thesis using S3 W3(1,2) len by (intro exI [of _ S3] exI [of _ W3]) (simp add: S2(3))
qed

theorem savepoint_row_roundtrip_witness:
  "\<exists>S2 W2 S3 W3. lockRows demoCaller (\<lambda>_. zeroHistory) demoSavepoint demoWorld [(5, 42)] = Some ([SQLITE_OK], S2, W2) \<and>
     row_abs (rowArea W2) (5, 42) = Some (7, 1) \<and>
     rowlockSavepoint demoCaller S2 W2 SAVEPOINT_ROLLBACK 3 = Some (S3, W3) \<and> row_abs (rowArea W3) (5, 42) = None"
proof -
  have inv: "row_inv (rowArea demoWorld)" "row_abs (rowArea demoWorld) = Map.empty" "nElementR (rowArea demoWorld) = 3"
    by (simp_all add: demoWorld_def row_init)
      (simp add: rowClassInitArea_def Let_def sizeof_RowMetaData_def sizeof_RowElement_def sub64_id)
  obtain m where m: "sqlite3rowlockIpcLockRecord (rowArea demoWorld) 7 1 5 42 = Some (SQLITE_OK, m)" "row_abs m = [(5, 42) \<mapsto> (7, 1)]"
    by (rule row_lock_refines [OF inv(1), of 5 7 1 42]) (auto simp: inv spec_lock_def)
  obtain rc S2 where H: "sqlite3rowlockHistoryAddRecord True True True (\<lambda>_. zeroHistory) demoSavepoint 5 42 = (rc, S2)" by fastforce
  then have rc: "rc = SQLITE_OK"
    using demoSavepoint_create(2-4)
    by (auto simp: sqlite3rowlockHistoryAddRecord_def sqlite3rowlockHistoryAdd_def growHistory_def split: if_splits)
  define W2 where "W2 = demoWorld\<lparr>rowArea := m\<rparr>"
  have run: "lockRows demoCaller (\<lambda>_. zeroHistory) demoSavepoint demoWorld [(5, 42)] = Some ([SQLITE_OK], S2, W2)"
    using m(1) H rc by (simp add: lockRecordAndAddHistory_def demoCaller_def W2_def)
  have "\<exists>S3 W3. rowlockSavepoint demoCaller S2 W2 SAVEPOINT_ROLLBACK 3 = Some (S3, W3) \<and>
      row_abs (rowArea W3) = row_abs (rowArea demoWorld)"
    using savepoint_row_roundtrip [OF sp_inv_zero inv(1) _ demoSavepoint_create(1) run] by auto
  then show ?thesis using run m(2) inv(2) by (auto simp: W2_def)
qed

end
