(* ===== verification/Cached_Rowid.thy ===== *)
theory Cached_Rowid
  imports Ipc_Table
begin

text \<open>
  The cached rowids in the table area (second part of \<open>rowlock_ipc_table.c\<close>): an array that
  holds, for each table, the largest rowid any process has given out. \<open>cache_inv\<close> is its
  invariant and \<open>cache_abs\<close> its meaning, a map from tables to rowids.
\<close>

section \<open>Operations\<close>

text \<open>
  The counting loops: the first index from \<open>i\<close> below \<open>n\<close> whose entry satisfies \<open>P\<close>, or
  the index where the loop ended. The counter is an unsigned integer of \<open>w\<close> bits.
\<close>

partial_function (option) cachedLoop ::
  "nat \<Rightarrow> (CachedRowid \<Rightarrow> bool) \<Rightarrow> CachedRowid list \<Rightarrow> u64 \<Rightarrow> nat \<Rightarrow> nat option" where
  "cachedLoop w P pCachedRowid n i =
     (if i < n then
        (if P (pCachedRowid ! i) then Some i else cachedLoop w P pCachedRowid n ((i + 1) mod 2 ^ w))
      else Some i)"

definition sqlite3rowlockIpcCachedRowidSet :: "TableArea \<Rightarrow> int \<Rightarrow> i64 \<Rightarrow> (rc \<times> TableArea) option" where
  "sqlite3rowlockIpcCachedRowidSet m iTable rowid =
     (if iTable = 0 then Some (SQLITE_OK, m)
      else Option.bind
        (cachedLoop 32 (\<lambda>c. iTableC c = iTable \<or> iTableC c = 0) (cachedT m) (nElementT m) 0) (\<lambda>i.
        if i < nElementT m then
          Some (SQLITE_OK,
            m\<lparr>nCacheT := (if iTableC (cachedT m ! i) = 0 then wrap64 (nCacheT m + 1) else nCacheT m),
              cachedT := (cachedT m)[i := (cachedT m ! i)\<lparr>iTableC := iTable, rowidC := rowid\<rparr>]\<rparr>)
        else Some (SQLITE_NOMEM, m)))"

definition sqlite3rowlockIpcCachedRowidGet :: "TableArea \<Rightarrow> int \<Rightarrow> i64 option" where
  "sqlite3rowlockIpcCachedRowidGet m iTable =
     Option.bind (cachedLoop 32 (\<lambda>c. iTableC c = iTable) (cachedT m) (nCacheT m) 0) (\<lambda>i.
       Some (if i < nCacheT m then rowidC (cachedT m ! i) else 0))"

definition sqlite3rowlockIpcCachedRowidDropTable :: "TableArea \<Rightarrow> int \<Rightarrow> TableArea option" where
  "sqlite3rowlockIpcCachedRowidDropTable m iTable =
     (if nCacheT m = 0 then Some m
      else Option.bind
        (cachedLoop 64 (\<lambda>c. iTableC c = iTable \<or> iTableC c = 0) (cachedT m) (nCacheT m) 0) (\<lambda>i.
        if i < nCacheT m \<and> iTableC (cachedT m ! i) = iTable then
          (let cs = (cachedT m)[i := (cachedT m ! i)\<lparr>iTableC := 0, rowidC := 0\<rparr>];
               iMove = sub64 (nCacheT m) 1;
               cs = cs[i := (cs ! i)\<lparr>iTableC := iTableC (cs ! iMove), rowidC := rowidC (cs ! iMove)\<rparr>];
               cs = cs[iMove := (cs ! iMove)\<lparr>iTableC := 0, rowidC := 0\<rparr>]
           in Some (m\<lparr>cachedT := cs, nCacheT := sub64 (nCacheT m) 1\<rparr>))
        else Some m))"

text \<open>
  The loop of \<open>sqlite3rowlockIpcCachedRowidReset\<close>, downwards from \<open>i\<close>, on the array and
  \<open>iTail\<close>. The query of the table locks does not read the array; it runs with owner 0.
\<close>

fun cachedResetLoop :: "TableArea \<Rightarrow> nat \<Rightarrow> CachedRowid list \<Rightarrow> u64 \<Rightarrow> (CachedRowid list \<times> u64) option" where
  "cachedResetLoop m i cs iTail =
     Option.bind (sqlite3rowlockIpcLockTableQuery m 0 (iTableC (cs ! i))) (\<lambda>eLock.
       let (cs', iTail') =
         (if eLock = NOT_LOCKED
          then ((let cs1 = cs[i := (cs ! i)\<lparr>iTableC := iTableC (cs ! iTail), rowidC := rowidC (cs ! iTail)\<rparr>]
                 in cs1[iTail := (cs1 ! iTail)\<lparr>iTableC := 0, rowidC := 0\<rparr>]), sub64 iTail 1)
          else (cs, iTail))
       in if i = 0 then Some (cs', iTail') else cachedResetLoop m (i - 1) cs' iTail')"

declare cachedResetLoop.simps [simp del]

definition sqlite3rowlockIpcCachedRowidReset :: "TableArea \<Rightarrow> TableArea option" where
  "sqlite3rowlockIpcCachedRowidReset m =
     (if nCacheT m = 0 then Some m
      else Option.bind (cachedResetLoop m (nCacheT m - 1) (cachedT m) (sub64 (nCacheT m) 1)) (\<lambda>(cs, iTail).
        Some (m\<lparr>cachedT := cs, nCacheT := wrap64 (iTail + 1)\<rparr>)))"

section \<open>Invariant and meaning\<close>

definition cache_entries :: "TableArea \<Rightarrow> CachedRowid list" where
  "cache_entries m = take (nCacheT m) (cachedT m)"

definition cache_inv :: "TableArea \<Rightarrow> bool" where
  "cache_inv m \<longleftrightarrow> nElementT m < 2 ^ 32 \<and> length (cachedT m) = nElementT m \<and> nCacheT m \<le> nElementT m \<and>
     (\<forall>c\<in>set (cache_entries m). iTableC c \<noteq> 0) \<and>
     (\<forall>i<nElementT m. nCacheT m \<le> i \<longrightarrow> iTableC (cachedT m ! i) = 0) \<and>
     distinct (map iTableC (cache_entries m))"

definition cache_abs :: "TableArea \<Rightarrow> int \<rightharpoonup> i64" where
  "cache_abs m = map_of (map (\<lambda>c. (iTableC c, rowidC c)) (cache_entries m))"

lemma cache_invD:
  assumes "cache_inv m"
  shows "nElementT m < 2 ^ 32" "length (cachedT m) = nElementT m" "nCacheT m \<le> nElementT m"
    "\<And>c. c \<in> set (cache_entries m) \<Longrightarrow> iTableC c \<noteq> 0"
    "\<And>i. i < nElementT m \<Longrightarrow> nCacheT m \<le> i \<Longrightarrow> iTableC (cachedT m ! i) = 0"
    "distinct (map iTableC (cache_entries m))"
    "length (cache_entries m) = nCacheT m"
    "\<And>i. i < nCacheT m \<Longrightarrow> cache_entries m ! i = cachedT m ! i"
  using assms by (simp_all add: cache_inv_def cache_entries_def)

lemma cache_abs_iff:
  assumes "cache_inv m"
  shows "cache_abs m t = Some r \<longleftrightarrow> (\<exists>c\<in>set (cache_entries m). iTableC c = t \<and> rowidC c = r)"
proof -
  have "distinct (map fst (map (\<lambda>c. (iTableC c, rowidC c)) (cache_entries m)))"
    using cache_invD(6) [OF assms] by (simp add: comp_def)
  then show ?thesis unfolding cache_abs_def by (auto simp: map_of_eq_Some_iff)
qed

lemma cache_entry: "cache_inv m \<Longrightarrow> i < nCacheT m \<Longrightarrow> cachedT m ! i \<in> set (cache_entries m)"
  using cache_invD(7,8) by (metis nth_mem)

lemma cache_abs_None: "cache_abs m t = None \<longleftrightarrow> t \<notin> iTableC ` set (cache_entries m)"
  by (simp add: cache_abs_def map_of_eq_None_iff image_image)

text \<open>The counting loop returns: it is total when the bound fits the counter.\<close>

lemma cachedLoop_ok:
  assumes n: "n < 2 ^ w"
  shows "i \<le> n \<Longrightarrow> (\<forall>j<i. \<not> P (cs ! j)) \<Longrightarrow>
    \<exists>k\<le>n. cachedLoop w P cs n i = Some k \<and> (k < n \<longrightarrow> P (cs ! k)) \<and> (\<forall>j<k. \<not> P (cs ! j))"
proof (induction "n - i" arbitrary: i rule: less_induct)
  case less
  show ?case
  proof (cases "i < n \<and> \<not> P (cs ! i)")
    case False
    then have "cachedLoop w P cs n i = Some i" by (subst cachedLoop.simps) auto
    with False less.prems show ?thesis by (intro exI [of _ i]) auto
  next
    case True
    have "(i + 1) mod 2 ^ w = Suc i" using True n by simp
    then have "cachedLoop w P cs n i = cachedLoop w P cs n (Suc i)"
      using True by (subst cachedLoop.simps) simp
    moreover have "\<forall>j<Suc i. \<not> P (cs ! j)" using True less.prems(2) by (auto simp: less_Suc_eq)
    ultimately show ?thesis using less.hyps [of "Suc i"] True by auto
  qed
qed

section \<open>Correctness\<close>

text \<open>What the two kinds of loop find.\<close>

lemma cachedLoop_find:
  assumes inv: "cache_inv m" and w: "w = 32 \<or> w = 64"
  obtains (hit) k where "k < nCacheT m" "cachedLoop w (\<lambda>c. iTableC c = t) (cachedT m) (nCacheT m) 0 = Some k"
      "iTableC (cachedT m ! k) = t" "cache_abs m t = Some (rowidC (cachedT m ! k))"
  | (miss) "cachedLoop w (\<lambda>c. iTableC c = t) (cachedT m) (nCacheT m) 0 = Some (nCacheT m)" "cache_abs m t = None"
proof -
  note I = cache_invD [OF inv]
  have "nCacheT m < 2 ^ w" using I(1,3) w by auto
  from cachedLoop_ok [OF this, of 0 "\<lambda>c. iTableC c = t" "cachedT m"]
  obtain k where k: "k \<le> nCacheT m" "cachedLoop w (\<lambda>c. iTableC c = t) (cachedT m) (nCacheT m) 0 = Some k"
    "k < nCacheT m \<longrightarrow> iTableC (cachedT m ! k) = t" "\<forall>j<k. iTableC (cachedT m ! j) \<noteq> t" by auto
  show thesis
  proof (cases "k < nCacheT m")
    case True
    with k cache_entry [OF inv True] show thesis
      by (intro hit [of k]) (auto simp: cache_abs_iff [OF inv])
  next
    case False
    then have kn: "k = nCacheT m" using k by simp
    have "iTableC c \<noteq> t" if "c \<in> set (cache_entries m)" for c
      using that k(4) I(7,8) unfolding kn by (metis in_set_conv_nth)
    then have "cache_abs m t = None" by (auto simp: cache_abs_None)
    with k(2) kn show thesis by (intro miss) auto
  qed
qed

lemma cached_set_update:
  assumes inv: "cache_inv m" and k: "k < nCacheT m" "iTableC (cachedT m ! k) = t"
    and m': "m' = m\<lparr>cachedT := (cachedT m)[k := (cachedT m ! k)\<lparr>iTableC := t, rowidC := r\<rparr>]\<rparr>"
  shows "cache_inv m'" "cache_abs m' = (cache_abs m)(t \<mapsto> r)"
proof -
  note I = cache_invD [OF inv]
  let ?c = "(cachedT m ! k)\<lparr>iTableC := t, rowidC := r\<rparr>"
  have e: "cache_entries m' = (cache_entries m)[k := ?c]"
    by (simp add: cache_entries_def m' take_update_swap)
  have keys: "map iTableC (cache_entries m') = map iTableC (cache_entries m)"
    using k I(7,8) by (simp add: e map_update list_update_same_conv)
  have "\<forall>c\<in>set (cache_entries m'). iTableC c \<noteq> 0"
    using I(4) keys by (metis (mono_tags) imageE imageI set_map)
  moreover have "iTableC (cachedT m' ! i) = 0" if "i < nElementT m" "nCacheT m \<le> i" for i
    using that I(5) k by (simp add: m')
  ultimately show inv': "cache_inv m'"
    unfolding cache_inv_def keys using I(1,2,3,6) by (simp add: m')
  have split: "cache_entries m = take k (cache_entries m) @ cachedT m ! k # drop (Suc k) (cache_entries m)"
    using k I(7,8) by (metis id_take_nth_drop)
  have split': "cache_entries m' = take k (cache_entries m) @ ?c # drop (Suc k) (cache_entries m)"
    using k I(7) by (simp add: e upd_conv_take_nth_drop)
  have "t \<notin> fst ` set (map (\<lambda>c. (iTableC c, rowidC c)) (take k (cache_entries m)))"
    using I(6) k(2) by (subst (asm) split) auto
  from map_of_replace [OF this] show "cache_abs m' = (cache_abs m)(t \<mapsto> r)"
    unfolding cache_abs_def by (subst split, subst split') (simp add: k(2))
qed

lemma cached_set_insert:
  assumes inv: "cache_inv m" and t: "t \<noteq> 0" and room: "nCacheT m < nElementT m" and free: "cache_abs m t = None"
    and m': "m' = m\<lparr>nCacheT := Suc (nCacheT m),
      cachedT := (cachedT m)[nCacheT m := (cachedT m ! nCacheT m)\<lparr>iTableC := t, rowidC := r\<rparr>]\<rparr>"
  shows "cache_inv m'" "cache_abs m' = (cache_abs m)(t \<mapsto> r)"
proof -
  note I = cache_invD [OF inv]
  let ?c = "(cachedT m ! nCacheT m)\<lparr>iTableC := t, rowidC := r\<rparr>"
  have e: "cache_entries m' = cache_entries m @ [?c]"
    using room I(2) by (simp add: cache_entries_def m' take_Suc_conv_app_nth)
  have new: "t \<notin> iTableC ` set (cache_entries m)" using free by (simp add: cache_abs_None)
  then show inv': "cache_inv m'"
    unfolding cache_inv_def e using I room t by (auto simp: m' nth_list_update)
  let ?kv = "\<lambda>c. (iTableC c, rowidC c)"
  have "mset (map ?kv (cache_entries m')) = mset ((t, r) # map ?kv (cache_entries m))" by (simp add: e)
  moreover have "distinct (map fst (map ?kv (cache_entries m')))"
    using cache_invD(6) [OF inv'] by (simp add: comp_def)
  ultimately show "cache_abs m' = (cache_abs m)(t \<mapsto> r)"
    unfolding cache_abs_def using map_of_mset_Cons(1) by fastforce
qed

lemma cached_set:
  assumes inv: "cache_inv m"
  shows "\<exists>m'. sqlite3rowlockIpcCachedRowidSet m t r =
      Some (if t = 0 \<or> t \<in> dom (cache_abs m) \<or> nCacheT m < nElementT m then SQLITE_OK else SQLITE_NOMEM, m') \<and>
    cache_inv m' \<and>
    cache_abs m' = (if t \<noteq> 0 \<and> (t \<in> dom (cache_abs m) \<or> nCacheT m < nElementT m)
                    then (cache_abs m)(t \<mapsto> r) else cache_abs m)"
proof (cases "t = 0")
  case True
  with inv show ?thesis by (auto simp: sqlite3rowlockIpcCachedRowidSet_def)
next
  case t: False
  note I = cache_invD [OF inv]
  let ?P = "\<lambda>c. iTableC c = t \<or> iTableC c = 0"
  obtain k where k: "k \<le> nElementT m" "cachedLoop 32 ?P (cachedT m) (nElementT m) 0 = Some k"
    "k < nElementT m \<longrightarrow> ?P (cachedT m ! k)" "\<forall>j<k. \<not> ?P (cachedT m ! j)"
    using cachedLoop_ok [OF I(1), of 0 ?P "cachedT m"] by auto
  have kc: "k \<le> nCacheT m"
  proof (rule ccontr)
    assume "\<not> k \<le> nCacheT m"
    then have "nCacheT m < nElementT m" "nCacheT m < k" using k(1) by simp_all
    with k(4) I(5) [of "nCacheT m"] show False by simp
  qed
  note D = sqlite3rowlockIpcCachedRowidSet_def
  show ?thesis
  proof (cases "k < nCacheT m")
    case True
    have kn: "k < nElementT m" using True I(3) by simp
    have nz: "iTableC (cachedT m ! k) \<noteq> 0" using I(4) cache_entry [OF inv True] by blast
    with k(3) kn have kt: "iTableC (cachedT m ! k) = t" by simp
    have "t \<in> dom (cache_abs m)" using cache_entry [OF inv True] kt cache_abs_iff [OF inv] by blast
    with cached_set_update [OF inv True kt refl] k(2) kn nz t show ?thesis by (auto simp: D)
  next
    case False
    then have kn: "k = nCacheT m" using kc by simp
    have "iTableC c \<noteq> t" if "c \<in> set (cache_entries m)" for c
      using that k(4) I(7,8) unfolding kn by (metis in_set_conv_nth)
    then have free: "cache_abs m t = None" by (auto simp: cache_abs_None)
    show ?thesis
    proof (cases "nCacheT m < nElementT m")
      case True
      have "wrap64 (nCacheT m + 1) = Suc (nCacheT m)" using True I(1) by simp
      with cached_set_insert [OF inv t True free refl] k(2) kn True t I(5) [OF True] show ?thesis by (auto simp: D)
    next
      case False
      with free k(2) kn I(3) inv t show ?thesis by (auto simp: D)
    qed
  qed
qed

lemma cached_get:
  assumes inv: "cache_inv m"
  shows "sqlite3rowlockIpcCachedRowidGet m t = Some (case cache_abs m t of None \<Rightarrow> 0 | Some r \<Rightarrow> r)"
  by (cases rule: cachedLoop_find [OF inv, of 32 t]) (simp_all add: sqlite3rowlockIpcCachedRowidGet_def)

text \<open>Moving the last entry over one that goes.\<close>

lemma cached_eta [simp]: "c\<lparr>iTableC := iTableC d, rowidC := rowidC d\<rparr> = (d :: CachedRowid)"
  by (cases c; cases d) simp

lemma tail_mset:
  assumes "i < c" "c \<le> length cs"
  shows "mset (take (c - 1) (cs[i := cs ! (c - 1)])) + {#cs ! i#} = mset (take c cs)"
proof -
  obtain d where d: "c = Suc d" using assms by (cases c) auto
  have t: "take (Suc d) cs = take d cs @ [cs ! d]" using assms d by (simp add: take_Suc_conv_app_nth)
  show ?thesis
  proof (cases "i = d")
    case False
    then have i: "i < d" using assms d by simp
    have "mset ((take d cs)[i := cs ! d]) = add_mset (cs ! d) (mset (take d cs) - {#cs ! i#})"
      using i assms d by (subst mset_update) simp_all
    moreover have "cs ! i \<in># mset (take d cs)" using i assms d by (auto simp: in_set_conv_nth)
    ultimately show ?thesis by (simp add: t d take_update_swap)
  qed (simp add: t d)
qed

lemma cache_shrunk:
  assumes inv: "cache_inv m" and n: "nElementT m' = nElementT m" "length (cachedT m') = nElementT m"
    and c: "nCacheT m' \<le> nCacheT m"
    and ms: "mset (cache_entries m') = filter_mset P (mset (cache_entries m))"
    and z: "\<And>i. i < nElementT m \<Longrightarrow> nCacheT m' \<le> i \<Longrightarrow> iTableC (cachedT m' ! i) = 0"
    and P: "\<And>c. c \<in> set (cache_entries m) \<Longrightarrow> P c \<longleftrightarrow> Q (iTableC c)"
  shows "cache_inv m'" "cache_abs m' t = (if Q t then cache_abs m t else None)"
proof -
  note I = cache_invD [OF inv]
  have set: "set (cache_entries m') = {c \<in> set (cache_entries m). P c}"
    using arg_cong [OF ms, of set_mset] by simp
  have "mset (map iTableC (cache_entries m')) = mset (map iTableC (filter P (cache_entries m)))"
    using ms by (simp only: mset_map mset_filter)
  moreover have "distinct (map iTableC (filter P (cache_entries m)))" using I(6) by (rule distinct_map_filter)
  ultimately have "distinct (map iTableC (cache_entries m'))" using mset_eq_imp_distinct_iff by blast
  with I(1,3,4) n c z set show inv': "cache_inv m'" by (auto simp: cache_inv_def)
  have "cache_abs m' t = Some r \<longleftrightarrow> (if Q t then cache_abs m t else None) = Some r" for r
    unfolding cache_abs_iff [OF inv'] using P by (auto simp: cache_abs_iff [OF inv] set)
  then show "cache_abs m' t = (if Q t then cache_abs m t else None)" by (metis option.exhaust)
qed

lemma cached_drop:
  assumes inv: "cache_inv m"
  shows "\<exists>m'. sqlite3rowlockIpcCachedRowidDropTable m t = Some m' \<and> cache_inv m' \<and>
    cache_abs m' = (cache_abs m)(t := None)"
proof -
  note I = cache_invD [OF inv]
  let ?P = "\<lambda>c. iTableC c = t \<or> iTableC c = 0" and ?n = "nCacheT m"
  note D = sqlite3rowlockIpcCachedRowidDropTable_def
  have "?n < 2 ^ 64" using I(1,3) by simp
  from cachedLoop_ok [OF this, of 0 ?P "cachedT m"]
  obtain k where k: "k \<le> ?n" "cachedLoop 64 ?P (cachedT m) ?n 0 = Some k"
    "k < ?n \<longrightarrow> ?P (cachedT m ! k)" "\<forall>j<k. \<not> ?P (cachedT m ! j)" by auto
  show ?thesis
  proof (cases "k < ?n")
    case False
    then have kn: "k = ?n" using k(1) by simp
    have "iTableC c \<noteq> t" if "c \<in> set (cache_entries m)" for c
      using that k(4) I(7,8) unfolding kn by (metis in_set_conv_nth)
    then have "cache_abs m t = None" by (auto simp: cache_abs_None)
    moreover have "sqlite3rowlockIpcCachedRowidDropTable m t = Some m" using k(2) kn by (simp add: D)
    ultimately show ?thesis using inv by (auto simp: fun_upd_idem)
  next
    case True
    have kt: "iTableC (cachedT m ! k) = t" using k(3) True I(4) cache_entry [OF inv True] by blast
    let ?cs = "(cachedT m)[k := (cachedT m ! k)\<lparr>iTableC := 0, rowidC := 0\<rparr>]"
    let ?cs' = "(?cs[k := ?cs ! (?n - 1)])[?n - 1 := ((?cs[k := ?cs ! (?n - 1)]) ! (?n - 1))\<lparr>iTableC := 0, rowidC := 0\<rparr>]"
    let ?m = "m\<lparr>cachedT := ?cs', nCacheT := ?n - 1\<rparr>"
    have sub: "sub64 ?n 1 = ?n - 1" using True I(1,3) by (intro sub64_id) auto
    have r: "sqlite3rowlockIpcCachedRowidDropTable m t = Some ?m"
      using k(2) True kt sub by (simp add: D Let_def)
    have len: "?n \<le> length (cachedT m)" using I(2,3) by simp
    have "take (?n - 1) ?cs' = take (?n - 1) ((cachedT m)[k := cachedT m ! (?n - 1)])"
      using True len by (intro nth_equalityI) (auto simp: nth_list_update)
    then have ms: "mset (cache_entries ?m) + {#cachedT m ! k#} = mset (cache_entries m)"
      using tail_mset [OF True len] by (simp add: cache_entries_def)
    have others: "iTableC c \<noteq> t" if "c \<in># mset (cache_entries ?m)" for c
    proof -
      have "mset (map iTableC (cache_entries m)) = mset (t # map iTableC (cache_entries ?m))"
        using arg_cong [OF ms, of "image_mset iTableC"] kt by simp
      then have "distinct (t # map iTableC (cache_entries ?m))" using I(6) mset_eq_imp_distinct_iff by blast
      with that show ?thesis by auto
    qed
    then have "filter_mset (\<lambda>c. iTableC c \<noteq> t) (mset (cache_entries ?m)) = mset (cache_entries ?m)"
      by (auto simp: filter_mset_eq_conv)
      then have fm: "mset (cache_entries ?m) = filter_mset (\<lambda>c. iTableC c \<noteq> t) (mset (cache_entries m))"
      unfolding ms [symmetric] using kt by simp
    have z: "iTableC (cachedT ?m ! i) = 0" if "i < nElementT m" "nCacheT ?m \<le> i" for i
      using that True I(2,3,5) by (auto simp: nth_list_update)
    have "cache_inv ?m" "cache_abs ?m x = (if x \<noteq> t then cache_abs m x else None)" for x
      by (rule cache_shrunk [OF inv _ _ _ fm z, where Q = "\<lambda>x. x \<noteq> t"]; simp add: I(2))+
    then have "cache_inv ?m" "cache_abs ?m = (cache_abs m)(t := None)" by (auto simp: fun_eq_iff)
    with r show ?thesis by blast
  qed
qed

text \<open>
  The reset loop at \<open>i\<close>, with \<open>c\<close> entries left (\<open>iTail\<close> is \<open>c - 1\<close>): of the entries up to
  \<open>i\<close> those stay whose table is locked, the others are as they were.
\<close>

lemma cachedResetLoop_ok:
  assumes q: "\<And>t. sqlite3rowlockIpcLockTableQuery m 0 t = Some (lv t)"
  shows "i < c \<Longrightarrow> c \<le> length cs \<Longrightarrow> length cs < 2 ^ 32 \<Longrightarrow>
    \<exists>cs' c'. cachedResetLoop m i cs (c - 1) = Some (cs', sub64 c' 1) \<and> c' \<le> c \<and> length cs' = length cs \<and>
      mset (take c' cs') + filter_mset (\<lambda>x. lv (iTableC x) = NOT_LOCKED) (mset (take (Suc i) cs)) = mset (take c cs) \<and>
      (\<forall>j. c \<le> j \<longrightarrow> cs' ! j = cs ! j) \<and> (\<forall>j<c. c' \<le> j \<longrightarrow> iTableC (cs' ! j) = 0)"
proof (induction i arbitrary: cs c)
  case 0
  let ?cs = "cs[0 := cs ! (c - 1)]"
  let ?cs' = "?cs[c - 1 := (?cs ! (c - 1))\<lparr>iTableC := 0, rowidC := 0\<rparr>]"
  have sub: "sub64 c 1 = c - 1" using 0 by (intro sub64_id) auto
  have t1: "take (Suc 0) cs = [cs ! 0]" using 0 by (cases cs) auto
  show ?case
  proof (cases "lv (iTableC (cs ! 0)) = NOT_LOCKED")
    case False
    then have "cachedResetLoop m 0 cs (c - 1) = Some (cs, sub64 c 1)"
      using q sub by (subst cachedResetLoop.simps) simp
    with False 0 t1 show ?thesis by (intro exI [of _ cs] exI [of _ c]) simp
  next
    case True
    have "cachedResetLoop m 0 cs (c - 1) = Some (?cs', sub64 (c - 1) 1)"
      using q True by (subst cachedResetLoop.simps) (simp add: Let_def)
    moreover have "take (c - 1) ?cs' = take (c - 1) ?cs" by simp
    moreover have "mset (take (c - 1) ?cs) + {#cs ! 0#} = mset (take c cs)" by (rule tail_mset [OF 0(1,2)])
    moreover have "iTableC (?cs' ! (c - 1)) = 0" using 0 by simp
    ultimately show ?thesis using True 0 t1
      by (intro exI [of _ ?cs'] exI [of _ "c - 1"]) (auto simp: nth_list_update le_Suc_eq)
  qed
next
  case (Suc i)
  let ?cs = "cs[Suc i := cs ! (c - 1)]"
  let ?cs' = "?cs[c - 1 := (?cs ! (c - 1))\<lparr>iTableC := 0, rowidC := 0\<rparr>]"
  let ?F = "\<lambda>xs. filter_mset (\<lambda>x. lv (iTableC x) = NOT_LOCKED) (mset xs)"
  have t1: "take (Suc (Suc i)) cs = take (Suc i) cs @ [cs ! Suc i]"
    using Suc.prems by (simp add: take_Suc_conv_app_nth)
  show ?case
  proof (cases "lv (iTableC (cs ! Suc i)) = NOT_LOCKED")
    case False
    then have "cachedResetLoop m (Suc i) cs (c - 1) = cachedResetLoop m i cs (c - 1)"
      using q by (subst cachedResetLoop.simps) simp
    moreover have "?F (take (Suc (Suc i)) cs) = ?F (take (Suc i) cs)" using False by (simp add: t1)
    ultimately show ?thesis using Suc.IH [of c cs] Suc.prems by simp
  next
    case True
    have sub: "sub64 (c - 1) 1 = c - 1 - 1" using Suc.prems by (intro sub64_id) auto
    have step: "cachedResetLoop m (Suc i) cs (c - 1) = cachedResetLoop m i ?cs' (c - 1 - 1)"
      using q True sub by (subst cachedResetLoop.simps) (simp add: Let_def)
    have p: "i < c - 1" "c - 1 \<le> length ?cs'" "length ?cs' < 2 ^ 32" using Suc.prems by auto
    obtain cs'' c' where IH: "cachedResetLoop m i ?cs' (c - 1 - 1) = Some (cs'', sub64 c' 1)" "c' \<le> c - 1"
      "length cs'' = length cs" "mset (take c' cs'') + ?F (take (Suc i) ?cs') = mset (take (c - 1) ?cs')"
      "\<forall>j. c - 1 \<le> j \<longrightarrow> cs'' ! j = ?cs' ! j" "\<forall>j<c - 1. c' \<le> j \<longrightarrow> iTableC (cs'' ! j) = 0"
      using Suc.IH [OF p] unfolding length_list_update by blast
    have "take (Suc i) ?cs' = take (Suc i) cs"
      using Suc.prems by (intro nth_equalityI) (auto simp: nth_list_update)
    moreover have "take (c - 1) ?cs' = take (c - 1) ?cs" by simp
    ultimately have "mset (take c' cs'') + ?F (take (Suc (Suc i)) cs) = mset (take c cs)"
      using IH(4) tail_mset [OF Suc.prems(1,2)] True by (simp add: t1)
    moreover have "cs'' ! j = cs ! j" if "c \<le> j" for j
      using IH(5) that Suc.prems by (auto simp: nth_list_update)
    moreover have "iTableC (cs'' ! j) = 0" if "j < c" "c' \<le> j" for j
    proof (cases "j = c - 1")
      case True
      then have "cs'' ! j = ?cs' ! (c - 1)" using IH(5) by simp
      moreover have "c - 1 < length cs" using Suc.prems by simp
      ultimately show ?thesis by simp
    next
      case False
      with IH(6) that show ?thesis by simp
    qed
    ultimately show ?thesis using step IH(1,2,3) by (intro exI [of _ cs''] exI [of _ c']) auto
  qed
qed

lemma cached_reset:
  assumes inv: "cache_inv m" and tinv: "table_inv m"
  shows "\<exists>m'. sqlite3rowlockIpcCachedRowidReset m = Some m' \<and> cache_inv m' \<and> pDataT m' = pDataT m \<and>
    (\<forall>t. cache_abs m' t =
       (if sqlite3rowlockIpcLockTableQuery m 0 t = Some NOT_LOCKED then None else cache_abs m t))"
proof (cases "nCacheT m = 0")
  case True
  then have "cache_abs m = Map.empty" by (simp add: cache_abs_def cache_entries_def)
  with True inv show ?thesis by (simp add: sqlite3rowlockIpcCachedRowidReset_def)
next
  case False
  note I = cache_invD [OF inv]
  define lv where "lv t = the (sqlite3rowlockIpcLockTableQuery m 0 t)" for t
  have q: "sqlite3rowlockIpcLockTableQuery m 0 t = Some (lv t)" for t
    by (rule table_query [OF tinv, of t 0]) (simp_all add: lv_def)
  have sub: "sub64 (nCacheT m) 1 = nCacheT m - 1" using False I(1,3) by (intro sub64_id) auto
  have "nCacheT m - 1 < nCacheT m" "nCacheT m \<le> length (cachedT m)" "length (cachedT m) < 2 ^ 32"
    using False I by auto
  from cachedResetLoop_ok [OF q this] obtain cs c' where r:
    "cachedResetLoop m (nCacheT m - 1) (cachedT m) (nCacheT m - 1) = Some (cs, sub64 c' 1)"
    "c' \<le> nCacheT m" "length cs = nElementT m"
    "mset (take c' cs) + filter_mset (\<lambda>x. lv (iTableC x) = NOT_LOCKED) (mset (cache_entries m)) = mset (cache_entries m)"
    "\<forall>j. nCacheT m \<le> j \<longrightarrow> cs ! j = cachedT m ! j" "\<forall>j<nCacheT m. c' \<le> j \<longrightarrow> iTableC (cs ! j) = 0"
    using False I(2) by (auto simp: cache_entries_def)
  have c': "wrap64 (sub64 c' 1 + 1) = c'"
  proof (cases "c' = 0")
    case False
    then have "sub64 c' 1 = c' - 1" using r(2) I(1,3) by (intro sub64_id) auto
    with False r(2) I(1,3) show ?thesis by simp
  qed (simp add: sub64_def wrap64_def)
  let ?m = "m\<lparr>cachedT := cs, nCacheT := c'\<rparr>"
  have res: "sqlite3rowlockIpcCachedRowidReset m = Some ?m"
    using r(1) False sub c' by (simp add: sqlite3rowlockIpcCachedRowidReset_def)
  have "mset (cache_entries m) =
      filter_mset (\<lambda>x. lv (iTableC x) \<noteq> NOT_LOCKED) (mset (cache_entries m)) +
      filter_mset (\<lambda>x. lv (iTableC x) = NOT_LOCKED) (mset (cache_entries m))"
    using multiset_partition [of "mset (cache_entries m)" "\<lambda>x. lv (iTableC x) \<noteq> NOT_LOCKED"] by simp
  from trans [OF r(4) this] have fm: "mset (cache_entries ?m) =
      filter_mset (\<lambda>x. lv (iTableC x) \<noteq> NOT_LOCKED) (mset (cache_entries m))"
    unfolding add_right_cancel by (simp add: cache_entries_def)
  have z: "iTableC (cachedT ?m ! i) = 0" if "i < nElementT m" "nCacheT ?m \<le> i" for i
    using that r(5,6) I(5) by (cases "i < nCacheT m") auto
  have "cache_inv ?m" "cache_abs ?m t = (if lv t \<noteq> NOT_LOCKED then cache_abs m t else None)" for t
    by (rule cache_shrunk [OF inv _ _ _ fm z, where Q = "\<lambda>t. lv t \<noteq> NOT_LOCKED"]; simp add: r(2,3))+
  with res show ?thesis by (auto simp: q)
qed

section \<open>Properties\<close>

lemma cache_demo: "cache_inv (tableClassInitArea freshTableArea 168)" "table_inv (tableClassInitArea freshTableArea 168)"
  "nElementT (tableClassInitArea freshTableArea 168) = 2" "nCacheT (tableClassInitArea freshTableArea 168) = 0"
  "cache_abs (tableClassInitArea freshTableArea 168) = Map.empty"
proof -
  have a: "tableClassInitArea freshTableArea 168 = \<lparr>nElementT = 2, nLockT = 0, nCacheT = 0,
       pDataT = replicate 2 zeroTable, cachedT = replicate 2 zeroCache\<rparr>"
    by (simp add: tableClassInitArea_def Let_def sizeof_TableMetaData_def sizeof_TableElement_def
        sizeof_CachedRowid_def sub64_id)
  show "cache_inv (tableClassInitArea freshTableArea 168)"
    by (auto simp: a cache_inv_def cache_entries_def zeroCache_def)
  show "table_inv (tableClassInitArea freshTableArea 168)" by (rule table_init) simp_all
  show "nElementT (tableClassInitArea freshTableArea 168) = 2" "nCacheT (tableClassInitArea freshTableArea 168) = 0"
    "cache_abs (tableClassInitArea freshTableArea 168) = Map.empty"
    by (simp_all add: a cache_abs_def cache_entries_def)
qed

text \<open>
  C34. The cached rowids behave as a map with room for one entry per slot:
  \<open>sqlite3rowlockIpcCachedRowidSet\<close> returns \<open>SQLITE_OK\<close> and stores the rowid unless the table
  is new and the array is full (\<open>SQLITE_NOMEM\<close>, no change); table 0 is ignored; a
  following \<open>sqlite3rowlockIpcCachedRowidGet\<close> of any table returns the stored rowid, or 0.
\<close>

theorem CachedRowid_set_get:
  assumes "cache_inv m"
  shows "\<exists>m'. sqlite3rowlockIpcCachedRowidSet m iTable rowid =
      Some (if iTable = 0 \<or> iTable \<in> dom (cache_abs m) \<or> nCacheT m < nElementT m then SQLITE_OK else SQLITE_NOMEM, m') \<and>
    cache_inv m' \<and>
    (\<forall>t. sqlite3rowlockIpcCachedRowidGet m' t =
       Some (if t = iTable \<and> iTable \<noteq> 0 \<and> (iTable \<in> dom (cache_abs m) \<or> nCacheT m < nElementT m) then rowid
             else case cache_abs m t of None \<Rightarrow> 0 | Some r \<Rightarrow> r))"
proof -
  obtain m' where m': "sqlite3rowlockIpcCachedRowidSet m iTable rowid =
      Some (if iTable = 0 \<or> iTable \<in> dom (cache_abs m) \<or> nCacheT m < nElementT m then SQLITE_OK else SQLITE_NOMEM, m')"
    "cache_inv m'" "cache_abs m' = (if iTable \<noteq> 0 \<and> (iTable \<in> dom (cache_abs m) \<or> nCacheT m < nElementT m)
                    then (cache_abs m)(iTable \<mapsto> rowid) else cache_abs m)"
    using cached_set [OF assms, of iTable rowid] by blast
  have "sqlite3rowlockIpcCachedRowidGet m' t =
       Some (if t = iTable \<and> iTable \<noteq> 0 \<and> (iTable \<in> dom (cache_abs m) \<or> nCacheT m < nElementT m) then rowid
             else case cache_abs m t of None \<Rightarrow> 0 | Some r \<Rightarrow> r)" for t
    unfolding cached_get [OF m'(2)] m'(3) by auto
  with m'(1,2) show ?thesis by blast
qed

theorem CachedRowid_set_get_witness:
  "\<exists>m'. sqlite3rowlockIpcCachedRowidSet (tableClassInitArea freshTableArea 168) 5 99 = Some (SQLITE_OK, m') \<and>
     sqlite3rowlockIpcCachedRowidGet m' 5 = Some 99 \<and> sqlite3rowlockIpcCachedRowidGet m' 6 = Some 0"
  using CachedRowid_set_get [OF cache_demo(1), of 5 99] by (auto simp: cache_demo)



end
