(* ===== verification/Trans_Cursor.thy ===== *)
theory Trans_Cursor
  imports Prelude "HOL-Library.Multiset"
begin

text \<open>
  The cursors of \<open>rowlock.c\<close>: a cursor on the shared btree together with two cursors on the
  tables of inserted and deleted records of the transaction, which the \<open>...All\<close> functions
  move so that they appear as one cursor on the records the transaction sees.

  The functions of SQLite's own btree (\<open>sqlite3BtreeFirst\<close>, \<open>sqlite3BtreeNext\<close> and so on) are
  the record of operations \<open>BtOps\<close> on an unspecified type of cursors; what the merge
  relies on of them is stated by the locale \<open>merge_cursors\<close>, for one direction of travel.
  \<open>None\<close> is a loop that does not end.
\<close>

section \<open>Keys and cursors\<close>

text \<open>The key of a record: a rowid, or the bytes of an index record.\<close>

datatype BtKey = IntKey i64 | IdxKey "nat list"

datatype CurState = CURSOR_VALID | CURSOR_INVALID | CURSOR_SKIPNEXT | CURSOR_REQUIRESEEK | CURSOR_FAULT

text \<open>\<open>eState >= CURSOR_REQUIRESEEK\<close>.\<close>

definition needsSeek :: "CurState \<Rightarrow> bool" where
  "needsSeek s \<longleftrightarrow> s = CURSOR_REQUIRESEEK \<or> s = CURSOR_FAULT"

datatype Advance = Next | Previous

text \<open>
  The operations of the btree layer. The result of \<open>opLast\<close> is \<open>None\<close> where \<open>*pRes\<close> is not written.
  \<open>opCompare\<close> is the comparison of two index records with its allocations and decoding.
\<close>

record 'c BtOps =
  opFirst :: "'c \<Rightarrow> rc \<times> int \<times> 'c"
  opLast :: "'c \<Rightarrow> rc \<times> int option \<times> 'c"
  opNext :: "'c \<Rightarrow> rc \<times> 'c"
  opPrevious :: "'c \<Rightarrow> rc \<times> 'c"
  opKey :: "'c \<Rightarrow> BtKey"
  opState :: "'c \<Rightarrow> CurState"
  opSetState :: "CurState \<Rightarrow> 'c \<Rightarrow> 'c"
  opRestore :: "'c \<Rightarrow> rc \<times> 'c"
  opSavedKey :: "'c \<Rightarrow> BtKey"
  opSetSavedKey :: "BtKey \<Rightarrow> 'c \<Rightarrow> 'c"
  opTreeEmpty :: "'c \<Rightarrow> bool"
  opCompare :: "nat list \<Rightarrow> nat list \<Rightarrow> rc + int"

text \<open>\<open>BtCursorTrans\<close> with the shared cursor; \<open>state\<close> holds the flags \<open>CURSOR_USE_SHARED\<close> (1) and \<open>CURSOR_USE_TRANS\<close> (2).\<close>

record 'c BtCursorT =
  pCur :: 'c
  pCurIns :: 'c
  pCurDel :: 'c
  stateT :: nat
  typeT :: u8
  hasKeyInfo :: bool

abbreviation (input) "CURSOR_NOT_USE \<equiv> (0 :: nat)"
abbreviation (input) "CURSOR_USE_SHARED \<equiv> (1 :: nat)"
abbreviation (input) "CURSOR_USE_TRANS \<equiv> (2 :: nat)"

definition transBtreeCursorIsUsed :: "'c BtCursorT \<Rightarrow> bool" where
  "transBtreeCursorIsUsed C \<longleftrightarrow> stateT C \<noteq> CURSOR_NOT_USE"

definition cursorSharedIsUsed :: "'c BtCursorT \<Rightarrow> bool" where
  "cursorSharedIsUsed C \<longleftrightarrow> odd (stateT C)"

definition cursorTransIsUsed :: "'c BtCursorT \<Rightarrow> bool" where
  "cursorTransIsUsed C \<longleftrightarrow> odd (stateT C div 2)"

text \<open>The signed 64-bit value of an integer.\<close>

definition toI64 :: "int \<Rightarrow> i64" where
  "toI64 x = (x + 2 ^ 63) mod 2 ^ 64 - 2 ^ 63"

definition xAdvance :: "'c BtOps \<Rightarrow> Advance \<Rightarrow> 'c \<Rightarrow> rc \<times> 'c" where
  "xAdvance ops d c = (case d of Next \<Rightarrow> opNext ops c | Previous \<Rightarrow> opPrevious ops c)"

definition btreeCursorIsPointing :: "'c BtOps \<Rightarrow> 'c \<Rightarrow> bool" where
  "btreeCursorIsPointing ops c \<longleftrightarrow> opState ops c = CURSOR_VALID"

section \<open>Comparison\<close>

text \<open>For a table, the difference of the rowids as an \<open>i64\<close>; for an index, the comparison of the records.\<close>

definition btreeKeyCompareCursors :: "'c BtOps \<Rightarrow> 'c \<Rightarrow> 'c \<Rightarrow> rc + i64" where
  "btreeKeyCompareCursors ops c1 c2 =
     (case opKey ops c1 of
        IntKey k1 \<Rightarrow> (case opKey ops c2 of IntKey k2 \<Rightarrow> Inr (toI64 (k1 - k2)) | IdxKey b2 \<Rightarrow> Inl SQLITE_CORRUPT)
      | IdxKey b1 \<Rightarrow> (case opKey ops c2 of IntKey k2 \<Rightarrow> Inl SQLITE_CORRUPT | IdxKey b2 \<Rightarrow> opCompare ops b1 b2))"

text \<open>The result: return code and the new value of \<open>*prev\<close>.\<close>

definition btreeValidTableKey :: "'c BtOps \<Rightarrow> 'c \<Rightarrow> i64 \<Rightarrow> bool \<Rightarrow> rc \<times> i64" where
  "btreeValidTableKey ops c prev isNext =
     (case opKey ops c of
        IdxKey b \<Rightarrow> (SQLITE_OK, prev)
      | IntKey nKey1 \<Rightarrow>
          if prev = 0 then (SQLITE_OK, nKey1)
          else let result = toI64 (nKey1 - prev) in
            if (isNext \<and> result > 0) \<or> (\<not> isNext \<and> result < 0) then (SQLITE_OK, prev) else (SQLITE_CORRUPT, prev))"

text \<open>Whether the first key is after the second in the direction of travel.\<close>

definition cmpAfter :: "Advance \<Rightarrow> i64 \<Rightarrow> bool" where
  "cmpAfter d cmp \<longleftrightarrow> (d = Next \<and> cmp > 0) \<or> (d = Previous \<and> cmp < 0)"

definition cmpBefore :: "Advance \<Rightarrow> i64 \<Rightarrow> bool" where
  "cmpBefore d cmp \<longleftrightarrow> (d = Next \<and> cmp < 0) \<or> (d = Previous \<and> cmp > 0)"

section \<open>Skipping deleted records\<close>

partial_function (option) seekToExistLoop :: "'c BtOps \<Rightarrow> Advance \<Rightarrow> i64 \<Rightarrow> 'c \<Rightarrow> 'c \<Rightarrow> (rc \<times> 'c \<times> 'c) option" where
  "seekToExistLoop ops d nOldKey c del =
     (if \<not> (btreeCursorIsPointing ops c \<and> btreeCursorIsPointing ops del) then Some (SQLITE_OK, c, del)
      else case btreeKeyCompareCursors ops c del of
          Inl rc \<Rightarrow> Some (rc, c, del)
        | Inr cmp \<Rightarrow>
            if cmpAfter d cmp then
              (let (rc, del') = xAdvance ops d del in
               if rc \<noteq> SQLITE_OK \<and> rc \<noteq> SQLITE_DONE then Some (rc, c, del') else seekToExistLoop ops d nOldKey c del')
            else if cmp = 0 then
              (let (rc, c') = xAdvance ops d c in
               if rc = SQLITE_OK then
                 (let (rc', nOldKey') = btreeValidTableKey ops c' nOldKey (d = Next) in
                  if rc' \<noteq> SQLITE_OK then Some (rc', c', del) else seekToExistLoop ops d nOldKey' c' del)
               else if rc \<noteq> SQLITE_DONE then Some (rc, c', del)
               else seekToExistLoop ops d nOldKey c' del)
            else Some (SQLITE_OK, c, del))"

definition btreeSeekToExist :: "'c BtOps \<Rightarrow> Advance \<Rightarrow> 'c BtCursorT \<Rightarrow> (rc \<times> 'c BtCursorT) option" where
  "btreeSeekToExist ops d C =
     (let (rc1, nOldKey) = (if btreeCursorIsPointing ops (pCur C) then btreeValidTableKey ops (pCur C) 0 (d = Next) else (SQLITE_OK, 0)) in
      if rc1 \<noteq> SQLITE_OK then Some (rc1, C)
      else
        let (rc2, del) = (if needsSeek (opState ops (pCurDel C)) \<and> \<not> opTreeEmpty ops (pCurDel C)
                          then opRestore ops (pCurDel C) else (SQLITE_OK, pCurDel C))
        in if rc2 \<noteq> SQLITE_OK then Some (rc2, C\<lparr>pCurDel := del\<rparr>)
           else Option.bind (seekToExistLoop ops d nOldKey (pCur C) del) (\<lambda>(rc, c, del').
             Some (rc, C\<lparr>pCur := c, pCurDel := del'\<rparr>)))"

text \<open>The result: return code, \<open>*pRes\<close> if written, and the cursor.\<close>

definition btreeSeekToExistAll :: "'c BtOps \<Rightarrow> Advance \<Rightarrow> 'c BtCursorT \<Rightarrow> (rc \<times> int \<times> 'c BtCursorT) option" where
  "btreeSeekToExistAll ops d C =
     Option.bind (btreeSeekToExist ops d C) (\<lambda>(rc, C1).
       if rc \<noteq> SQLITE_OK then Some (rc, 0, C1)
       else if btreeCursorIsPointing ops (pCur C1) then
         (if btreeCursorIsPointing ops (pCurIns C1) then
            (case btreeKeyCompareCursors ops (pCur C1) (pCurIns C1) of
               Inl rc \<Rightarrow> Some (rc, 0, C1)
             | Inr cmp \<Rightarrow>
                 if cmp = 0 \<or> (cmp < 0 \<and> d = Next) \<or> (cmp > 0 \<and> d = Previous)
                 then Some (SQLITE_OK, 0, C1\<lparr>stateT := CURSOR_USE_SHARED\<rparr>)
                 else Some (SQLITE_OK, 0, C1\<lparr>stateT := CURSOR_USE_TRANS\<rparr>))
          else Some (SQLITE_OK, 0, C1\<lparr>stateT := CURSOR_USE_SHARED\<rparr>))
       else if btreeCursorIsPointing ops (pCurIns C1) then Some (SQLITE_OK, 0, C1\<lparr>stateT := CURSOR_USE_TRANS\<rparr>)
       else Some (SQLITE_OK, 1, C1))"

section \<open>Moving\<close>

text \<open>\<open>deleteAll\<close> is the flag of the root page of the table, which exists when the transaction cursors are used.\<close>

definition sqlite3BtreeFirstAll :: "'c BtOps \<Rightarrow> bool \<Rightarrow> 'c BtCursorT \<Rightarrow> (rc \<times> int \<times> 'c BtCursorT) option" where
  "sqlite3BtreeFirstAll ops deleteAll C =
     (let (rc, res, c) = opFirst ops (pCur C); C1 = C\<lparr>pCur := c\<rparr> in
      if rc \<noteq> SQLITE_OK then Some (rc, 0, C1)
      else if \<not> transBtreeCursorIsUsed C1 then Some (SQLITE_OK, res, C1)
      else let (rcI, resIns, ci) = opFirst ops (pCurIns C1); C2 = C1\<lparr>pCurIns := ci\<rparr> in
        if rcI \<noteq> SQLITE_OK then Some (rcI, 0, C2)
        else let (rcD, resDel, cd) = opFirst ops (pCurDel C2); C3 = C2\<lparr>pCurDel := cd\<rparr> in
          if rcD \<noteq> SQLITE_OK then Some (rcD, 0, C3)
          else btreeSeekToExistAll ops Next (if deleteAll then C3\<lparr>pCur := opSetState ops CURSOR_INVALID (pCur C3)\<rparr> else C3))"

definition sqlite3BtreeLastAll :: "'c BtOps \<Rightarrow> bool \<Rightarrow> 'c BtCursorT \<Rightarrow> (rc \<times> int \<times> 'c BtCursorT) option" where
  "sqlite3BtreeLastAll ops deleteAll C =
     (let (rc, res, c) = opLast ops (pCur C); C1 = C\<lparr>pCur := c\<rparr> in
      if rc \<noteq> SQLITE_OK then Some (rc, 0, C1)
      else if \<not> transBtreeCursorIsUsed C1 then Some (SQLITE_OK, case res of None \<Rightarrow> 0 | Some r \<Rightarrow> r, C1)
      else let (rcI, resIns, ci) = opLast ops (pCurIns C1); C2 = C1\<lparr>pCurIns := ci\<rparr> in
        if rcI \<noteq> SQLITE_OK then Some (rcI, 0, C2)
        else let (rcD, resDel, cd) = opLast ops (pCurDel C2); C3 = C2\<lparr>pCurDel := cd\<rparr> in
          if rcD \<noteq> SQLITE_OK then Some (rcD, 0, C3)
          else btreeSeekToExistAll ops Previous (if deleteAll then C3\<lparr>pCur := opSetState ops CURSOR_INVALID (pCur C3)\<rparr> else C3))"

text \<open>The loop at the start of \<open>sqlite3BtreeAdvanceAll\<close> that corrects the position of the unused cursor.\<close>

partial_function (option) advanceCorrect :: "'c BtOps \<Rightarrow> Advance \<Rightarrow> 'c BtCursorT \<Rightarrow> (rc \<times> 'c BtCursorT) option" where
  "advanceCorrect ops d C =
     (if \<not> (btreeCursorIsPointing ops (pCurIns C) \<and> btreeCursorIsPointing ops (pCur C)) then Some (SQLITE_OK, C)
      else case btreeKeyCompareCursors ops (pCur C) (pCurIns C) of
          Inl rc \<Rightarrow> Some (rc, C)
        | Inr cmp \<Rightarrow>
            if cursorSharedIsUsed C \<and> \<not> cmpAfter d cmp then Some (SQLITE_OK, C)
            else
              let (rc, ci) = (if cursorSharedIsUsed C then xAdvance ops d (pCurIns C) else (SQLITE_OK, pCurIns C));
                  C1 = C\<lparr>pCurIns := ci\<rparr>
              in if rc \<noteq> SQLITE_OK \<and> rc \<noteq> SQLITE_DONE then Some (rc, C1)
                 else if cursorTransIsUsed C1 \<and> \<not> cmpBefore d cmp then Some (SQLITE_OK, C1)
                 else
                   let (rc', c) = (if cursorTransIsUsed C1 then xAdvance ops d (pCur C1) else (SQLITE_OK, pCur C1));
                       C2 = C1\<lparr>pCur := c\<rparr>
                   in if rc' \<noteq> SQLITE_OK \<and> rc' \<noteq> SQLITE_DONE then Some (rc', C2)
                      else advanceCorrect ops d C2)"

text \<open>Moving the shared cursor, with the check of its order.\<close>

definition advanceShared :: "'c BtOps \<Rightarrow> Advance \<Rightarrow> i64 \<Rightarrow> 'c BtCursorT \<Rightarrow> rc \<times> 'c BtCursorT" where
  "advanceShared ops d nOldKey C =
     (if \<not> cursorSharedIsUsed C then (SQLITE_OK, C)
      else let (rc, c) = xAdvance ops d (pCur C); C1 = C\<lparr>pCur := c\<rparr> in
        if rc \<noteq> SQLITE_OK \<and> rc \<noteq> SQLITE_DONE then (rc, C1)
        else if btreeCursorIsPointing ops c \<and> nOldKey \<noteq> 0 then (fst (btreeValidTableKey ops c nOldKey (d = Next)), C1)
        else (SQLITE_OK, C1))"

text \<open>Moving the cursor of inserted records, or replacing it after its table was dropped by a commit or rollback.\<close>

definition advanceTrans :: "'c BtOps \<Rightarrow> Advance \<Rightarrow> 'c BtCursorT \<Rightarrow> rc \<times> 'c BtCursorT" where
  "advanceTrans ops d C =
     (if \<not> cursorTransIsUsed C then (SQLITE_OK, C)
      else if needsSeek (opState ops (pCurIns C)) \<and> opTreeEmpty ops (pCurIns C) then
        (if needsSeek (opState ops (pCur C)) then
           (let (rc, c) = opRestore ops (pCur C) in
            if rc \<noteq> SQLITE_OK then (rc, C\<lparr>pCur := c\<rparr>)
            else (SQLITE_OK, C\<lparr>pCur := c, pCurIns := opSetState ops CURSOR_INVALID (pCurIns C)\<rparr>))
         else if opState ops (pCur C) = CURSOR_INVALID \<and> opState ops (pCurIns C) = CURSOR_REQUIRESEEK then
           (let c0 = opSetState ops CURSOR_REQUIRESEEK (opSetSavedKey ops (opSavedKey ops (pCurIns C)) (pCur C));
                (rc, c) = opRestore ops c0 in
            if rc \<noteq> SQLITE_OK then (rc, C\<lparr>pCur := c\<rparr>)
            else let (rc', c') = xAdvance ops d c in
              if rc' \<noteq> SQLITE_OK \<and> rc' \<noteq> SQLITE_DONE then (rc', C\<lparr>pCur := c'\<rparr>)
              else (SQLITE_OK, C\<lparr>pCur := c', pCurIns := opSetState ops CURSOR_INVALID (pCurIns C)\<rparr>))
         else (SQLITE_OK, C\<lparr>pCurIns := opSetState ops CURSOR_INVALID (pCurIns C)\<rparr>))
      else
        let (rc, ci) = xAdvance ops d (pCurIns C) in
        if rc \<noteq> SQLITE_OK \<and> rc \<noteq> SQLITE_DONE then (rc, C\<lparr>pCurIns := ci\<rparr>) else (SQLITE_OK, C\<lparr>pCurIns := ci\<rparr>))"

definition sqlite3BtreeAdvanceAll :: "'c BtOps \<Rightarrow> Advance \<Rightarrow> 'c BtCursorT \<Rightarrow> (rc \<times> 'c BtCursorT) option" where
  "sqlite3BtreeAdvanceAll ops d C =
     (let (rc0, nOldKey) = (if btreeCursorIsPointing ops (pCur C) then btreeValidTableKey ops (pCur C) 0 (d = Next) else (SQLITE_OK, 0)) in
      if rc0 \<noteq> SQLITE_OK then Some (rc0, C)
      else if \<not> transBtreeCursorIsUsed C then (let (rc, c) = xAdvance ops d (pCur C) in Some (rc, C\<lparr>pCur := c\<rparr>))
      else Option.bind (advanceCorrect ops d C) (\<lambda>(rc1, C1).
        if rc1 \<noteq> SQLITE_OK then Some (rc1, C1)
        else let (rc2, C2) = advanceShared ops d nOldKey C1 in
          if rc2 \<noteq> SQLITE_OK then Some (rc2, C2)
          else let (rc3, C3) = advanceTrans ops d C2 in
            if rc3 \<noteq> SQLITE_OK then Some (rc3, C3)
            else Option.bind (btreeSeekToExistAll ops d C3) (\<lambda>(rc4, res, C4).
              if rc4 \<noteq> SQLITE_OK then Some (rc4, C4)
              else if res \<noteq> 0 then Some (SQLITE_DONE, C4) else Some (SQLITE_OK, C4))))"

section \<open>Reading through the cursor in use\<close>

definition usedCursor :: "'c BtCursorT \<Rightarrow> 'c" where
  "usedCursor C = (if cursorTransIsUsed C then pCurIns C else pCur C)"

definition sqlite3BtreePayloadFetchAll :: "('c \<Rightarrow> 'r) \<Rightarrow> 'c BtCursorT \<Rightarrow> 'r" where
  "sqlite3BtreePayloadFetchAll xPayloadFetch C = (if cursorTransIsUsed C then xPayloadFetch (pCurIns C) else xPayloadFetch (pCur C))"

definition sqlite3VdbeMemFromBtreeAll :: "('c \<Rightarrow> u32 \<Rightarrow> u32 \<Rightarrow> 'r) \<Rightarrow> 'c BtCursorT \<Rightarrow> u32 \<Rightarrow> u32 \<Rightarrow> 'r" where
  "sqlite3VdbeMemFromBtreeAll xMemFromBtree C offset amt =
     (if cursorTransIsUsed C then xMemFromBtree (pCurIns C) offset amt else xMemFromBtree (pCur C) offset amt)"

definition sqlite3BtreePayloadAll :: "('c \<Rightarrow> u32 \<Rightarrow> u32 \<Rightarrow> 'r) \<Rightarrow> 'c BtCursorT \<Rightarrow> u32 \<Rightarrow> u32 \<Rightarrow> 'r" where
  "sqlite3BtreePayloadAll xPayload C offset amt =
     (if cursorTransIsUsed C then xPayload (pCurIns C) offset amt else xPayload (pCur C) offset amt)"

definition sqlite3BtreePayloadSizeAll :: "('c \<Rightarrow> u32) \<Rightarrow> 'c BtCursorT \<Rightarrow> u32" where
  "sqlite3BtreePayloadSizeAll xPayloadSize C = (if cursorTransIsUsed C then xPayloadSize (pCurIns C) else xPayloadSize (pCur C))"

definition sqlite3BtreeIntegerKeyAll :: "'c BtOps \<Rightarrow> 'c BtCursorT \<Rightarrow> BtKey" where
  "sqlite3BtreeIntegerKeyAll ops C = (if cursorTransIsUsed C then opKey ops (pCurIns C) else opKey ops (pCur C))"

definition sqlite3BtreeCursorRestoreAll :: "'c BtOps \<Rightarrow> 'c BtCursorT \<Rightarrow> rc \<times> 'c BtCursorT" where
  "sqlite3BtreeCursorRestoreAll ops C =
     (if cursorTransIsUsed C then (let (rc, c) = opRestore ops (pCurIns C) in (rc, C\<lparr>pCurIns := c\<rparr>))
      else (let (rc, c) = opRestore ops (pCur C) in (rc, C\<lparr>pCur := c\<rparr>)))"

definition sqlite3BtreeCursorHasMovedAll :: "'c BtOps \<Rightarrow> 'c BtCursorT \<Rightarrow> bool" where
  "sqlite3BtreeCursorHasMovedAll ops C =
     (if cursorTransIsUsed C then opState ops (pCurIns C) \<noteq> CURSOR_VALID else opState ops (pCur C) \<noteq> CURSOR_VALID)"

definition sqlite3BtreeCursorIsValidAll :: "'c BtOps \<Rightarrow> 'c BtCursorT \<Rightarrow> bool" where
  "sqlite3BtreeCursorIsValidAll ops C =
     (if cursorTransIsUsed C then opState ops (pCurIns C) = CURSOR_VALID else opState ops (pCur C) = CURSOR_VALID)"

definition getCursorState :: "'c BtOps \<Rightarrow> 'c BtCursorT \<Rightarrow> CurState" where
  "getCursorState ops C = (if cursorTransIsUsed C then opState ops (pCurIns C) else opState ops (pCur C))"

section \<open>The reference: merging sorted key lists\<close>

text \<open>Where the heads are equal, the first list comes first.\<close>

fun mergeKeys :: "('k \<Rightarrow> 'k \<Rightarrow> bool) \<Rightarrow> 'k list \<Rightarrow> 'k list \<Rightarrow> 'k list" where
  "mergeKeys lt [] ys = ys"
| "mergeKeys lt (x # xs) [] = x # xs"
| "mergeKeys lt (x # xs) (y # ys) = (if lt y x then y # mergeKeys lt (x # xs) ys else x # mergeKeys lt xs (y # ys))"

lemma mergeKeys_Nil [simp]: "mergeKeys lt xs [] = xs"
  by (cases xs) simp_all

lemma mset_mergeKeys: "mset (mergeKeys lt xs ys) = mset xs + mset ys"
  by (induction lt xs ys rule: mergeKeys.induct) auto

lemma set_mergeKeys: "set (mergeKeys lt xs ys) = set xs \<union> set ys"
  using mset_mergeKeys [of lt xs ys] by (metis set_mset_mset set_mset_union)

lemma sorted_weak:
  assumes "sorted_wrt lt xs" "set xs \<subseteq> S" "\<And>x y. x \<in> S \<Longrightarrow> y \<in> S \<Longrightarrow> lt x y \<Longrightarrow> \<not> lt y x"
  shows "sorted_wrt (\<lambda>a b. \<not> lt b a) xs"
  by (rule sorted_wrt_mono_rel [OF _ assms(1)]) (use assms(2,3) in blast)

lemma sorted_mergeKeys:
  assumes "sorted_wrt lt xs" "sorted_wrt lt ys"
    and "\<And>x y z. x \<in> S \<Longrightarrow> y \<in> S \<Longrightarrow> z \<in> S \<Longrightarrow> lt x y \<Longrightarrow> lt y z \<Longrightarrow> lt x z"
    and "\<And>x y. x \<in> S \<Longrightarrow> y \<in> S \<Longrightarrow> lt x y \<Longrightarrow> \<not> lt y x"
    and "\<And>x y. x \<in> S \<Longrightarrow> y \<in> S \<Longrightarrow> x \<noteq> y \<Longrightarrow> lt x y \<or> lt y x"
    and "set xs \<subseteq> S" "set ys \<subseteq> S"
  shows "sorted_wrt (\<lambda>a b. \<not> lt b a) (mergeKeys lt xs ys)"
  using assms
proof (induction lt xs ys rule: mergeKeys.induct)
  case (1 lt ys)
  have "sorted_wrt (\<lambda>a b. \<not> lt b a) ys" by (rule sorted_weak [OF 1(2) 1(7) 1(4)])
  then show ?case by simp
next
  case (2 lt x xs)
  have "sorted_wrt (\<lambda>a b. \<not> lt b a) (x # xs)" by (rule sorted_weak [OF 2(1) 2(6) 2(4)])
  then show ?case by simp
next
  case (3 lt x xs y ys)
  show ?case
  proof (cases "lt y x")
    case True
    have "\<not> lt z y" if "z \<in> set (x # xs) \<union> set ys" for z
    proof -
      have z: "z \<in> S" "y \<in> S" "x \<in> S" using that 3(8,9) by auto
      have "lt y z" using that True 3(3,4) 3(5) [OF z(2,3,1)] by auto
      then show ?thesis using 3(6) z by blast
    qed
    moreover have "sorted_wrt (\<lambda>a b. \<not> lt b a) (mergeKeys lt (x # xs) ys)"
      by (rule 3(1) [OF True 3(3) _ 3(5) 3(6) 3(7) 3(8)]) (use 3(4,9) in simp_all)
    ultimately show ?thesis using True by (simp add: set_mergeKeys)
  next
    case False
    have "\<not> lt z x" if zin: "z \<in> set xs \<union> set (y # ys)" for z
    proof -
      have z: "z \<in> S" "y \<in> S" "x \<in> S" using zin 3(8,9) by auto
      consider (shared) "lt x z" | (eq) "z = y" | (later) "lt y z" using zin 3(3,4) by auto
      then show ?thesis
      proof cases
        case shared
        then show ?thesis by (rule 3(6) [OF z(3,1)])
      next
        case eq
        then show ?thesis using False by simp
      next
        case later
        then show ?thesis using False 3(5) [OF z(2,1,3)] by blast
      qed
    qed
    moreover have "sorted_wrt (\<lambda>a b. \<not> lt b a) (mergeKeys lt xs (y # ys))"
      by (rule 3(2) [OF False _ 3(4) 3(5) 3(6) 3(7) _ 3(9)]) (use 3(3,8) in simp_all)
    ultimately show ?thesis using False by (simp add: set_mergeKeys)
  qed
qed

text \<open>A full scan as the VDBE does it: read the key, advance until \<open>SQLITE_DONE\<close>.\<close>

partial_function (option) scanLoop :: "'c BtOps \<Rightarrow> Advance \<Rightarrow> 'c BtCursorT \<Rightarrow> BtKey list option" where
  "scanLoop ops d C =
     Option.bind (sqlite3BtreeAdvanceAll ops d C) (\<lambda>(rc, C').
       if rc = SQLITE_OK then Option.bind (scanLoop ops d C') (\<lambda>ks. Some (sqlite3BtreeIntegerKeyAll ops C # ks))
       else if rc = SQLITE_DONE then Some [sqlite3BtreeIntegerKeyAll ops C]
       else None)"

definition scanFrom :: "'c BtOps \<Rightarrow> Advance \<Rightarrow> (rc \<times> int \<times> 'c BtCursorT) option \<Rightarrow> BtKey list option" where
  "scanFrom ops d r =
     Option.bind r (\<lambda>(rc, res, C). if rc \<noteq> SQLITE_OK then None else if res \<noteq> 0 then Some [] else scanLoop ops d C)"

section \<open>What the merge relies on\<close>

locale merge_cursors =
  fixes ops :: "'c BtOps" and d :: Advance
    and rest :: "'c \<Rightarrow> BtKey list" and lt :: "BtKey \<Rightarrow> BtKey \<Rightarrow> bool" and ok :: "BtKey \<Rightarrow> bool" and good :: "'c \<Rightarrow> bool"
  assumes state_ok: "good c \<Longrightarrow> opState ops c = (if rest c = [] then CURSOR_INVALID else CURSOR_VALID)"
    and keys_ok: "good c \<Longrightarrow> k \<in> set (rest c) \<Longrightarrow> ok k"
    and sorted_ok: "good c \<Longrightarrow> sorted_wrt lt (rest c)"
    and adv_ok: "good c \<Longrightarrow> rest c = k # ks \<Longrightarrow>
      \<exists>c'. xAdvance ops d c = (if ks = [] then SQLITE_DONE else SQLITE_OK, c') \<and> good c' \<and> rest c' = ks"
    and cmp_ok: "good c1 \<Longrightarrow> good c2 \<Longrightarrow> rest c1 = k1 # ks1 \<Longrightarrow> rest c2 = k2 # ks2 \<Longrightarrow>
      \<exists>i. btreeKeyCompareCursors ops c1 c2 = Inr i \<and> (cmpAfter d i \<longleftrightarrow> lt k2 k1) \<and> (cmpBefore d i \<longleftrightarrow> lt k1 k2) \<and> (i = 0 \<longleftrightarrow> k1 = k2)"
    and key_ok: "good c \<Longrightarrow> rest c = k # ks \<Longrightarrow> opKey ops c = k"
    and valid_first: "good c \<Longrightarrow> rest c = k # ks \<Longrightarrow>
      \<exists>p. btreeValidTableKey ops c 0 (d = Next) = (SQLITE_OK, p) \<and> (p = 0 \<or> k = IntKey p)"
    and valid_next: "good c \<Longrightarrow> rest c = k # ks \<Longrightarrow> p \<noteq> 0 \<Longrightarrow> ok (IntKey p) \<Longrightarrow> lt (IntKey p) k \<Longrightarrow>
      btreeValidTableKey ops c p (d = Next) = (SQLITE_OK, p)"
    and lt_trans: "ok x \<Longrightarrow> ok y \<Longrightarrow> ok z \<Longrightarrow> lt x y \<Longrightarrow> lt y z \<Longrightarrow> lt x z"
    and lt_total: "ok x \<Longrightarrow> ok y \<Longrightarrow> x \<noteq> y \<Longrightarrow> lt x y \<or> lt y x"
    and lt_asym: "ok x \<Longrightarrow> ok y \<Longrightarrow> lt x y \<Longrightarrow> \<not> lt y x"
begin

lemma pointing: "good c \<Longrightarrow> btreeCursorIsPointing ops c \<longleftrightarrow> rest c \<noteq> []"
  by (simp add: btreeCursorIsPointing_def state_ok)

lemma no_seek: "good c \<Longrightarrow> \<not> needsSeek (opState ops c)"
  by (simp add: state_ok needsSeek_def)

text \<open>The last key remembered for the order check is not after the current one.\<close>

definition prevOk :: "i64 \<Rightarrow> BtKey list \<Rightarrow> bool" where
  "prevOk p ks \<longleftrightarrow> p = 0 \<or> ok (IntKey p) \<and> (\<forall>k\<in>set (tl ks). lt (IntKey p) k)"

lemma valid_start:
  assumes "good c" "rest c \<noteq> []"
  obtains p where "btreeValidTableKey ops c 0 (d = Next) = (SQLITE_OK, p)" "prevOk p (rest c)"
proof -
  obtain k ks where r: "rest c = k # ks" using assms(2) by (cases "rest c") auto
  obtain p where p: "btreeValidTableKey ops c 0 (d = Next) = (SQLITE_OK, p)" "p = 0 \<or> k = IntKey p"
    using valid_first [OF assms(1) r] by blast
  have "prevOk p (rest c)"
    using p(2) keys_ok [OF assms(1)] sorted_ok [OF assms(1)] r by (auto simp: prevOk_def)
  with p(1) show thesis by (rule that)
qed

text \<open>The key both moving functions remember first.\<close>

lemma old_key:
  assumes "good c"
  obtains p where "(if btreeCursorIsPointing ops c then btreeValidTableKey ops c 0 (d = Next) else (SQLITE_OK, 0)) = (SQLITE_OK, p)" "prevOk p (rest c)"
proof (cases "rest c = []")
  case True
  then show thesis using that [of 0] assms by (simp add: pointing prevOk_def)
next
  case False
  from valid_start [OF assms False] obtain p where "btreeValidTableKey ops c 0 (d = Next) = (SQLITE_OK, p)" "prevOk p (rest c)" .
  then show thesis using that [of p] False assms by (simp add: pointing)
qed

lemma valid_step:
  assumes "good c" "rest c = k # ks" "p = 0 \<or> ok (IntKey p) \<and> (\<forall>k\<in>set (rest c). lt (IntKey p) k)"
  obtains p' where "btreeValidTableKey ops c p (d = Next) = (SQLITE_OK, p')" "prevOk p' (rest c)"
proof (cases "p = 0")
  case True
  show thesis by (rule valid_start [OF assms(1)]) (use assms(2) True that in auto)
next
  case False
  then have "btreeValidTableKey ops c p (d = Next) = (SQLITE_OK, p)" "prevOk p (rest c)"
    using valid_next [OF assms(1,2)] assms(2,3) by (auto simp: prevOk_def)
  then show thesis by (rule that)
qed

text \<open>The deleted keys ahead of a cursor are those ahead of the cursor of deleted records.\<close>

definition delSync :: "BtKey set \<Rightarrow> 'c \<Rightarrow> 'c \<Rightarrow> bool" where
  "delSync D c del \<longleftrightarrow> (\<forall>k\<in>set (rest c). k \<in> D \<longleftrightarrow> k \<in> set (rest del))"

text \<open>The loop ends, at the first key that is not deleted.\<close>

lemma seek_loop:
  assumes "good c" "good del" "prevOk p (rest c)" "delSync D c del"
  shows "\<exists>c' del'. seekToExistLoop ops d p c del = Some (SQLITE_OK, c', del') \<and> good c' \<and> good del' \<and>
    rest c' = dropWhile (\<lambda>k. k \<in> D) (rest c) \<and> delSync D c' del'"
  using assms
proof (induction "length (rest c) + length (rest del)" arbitrary: c del p rule: less_induct)
  case less
  note g = less.prems(1,2) and p = less.prems(3) and D = less.prems(4)
  show ?case
  proof (cases "rest c = [] \<or> rest del = []")
    case True
    then have "seekToExistLoop ops d p c del = Some (SQLITE_OK, c, del)"
      by (subst seekToExistLoop.simps) (simp add: pointing g)
    moreover have "dropWhile (\<lambda>k. k \<in> D) (rest c) = rest c" using True D by (cases "rest c") (auto simp: delSync_def)
    ultimately show ?thesis using g D by (intro exI [of _ c] exI [of _ del]) simp
  next
    case False
    then obtain k ks k' ks' where r: "rest c = k # ks" "rest del = k' # ks'" by (metis neq_Nil_conv)
    obtain i where i: "btreeKeyCompareCursors ops c del = Inr i" "cmpAfter d i \<longleftrightarrow> lt k' k" "i = 0 \<longleftrightarrow> k = k'"
      using cmp_ok [OF g r] by blast
    have okk: "ok k" "ok k'" using keys_ok [OF g(1)] keys_ok [OF g(2)] r by simp_all
    have point: "btreeCursorIsPointing ops c" "btreeCursorIsPointing ops del" using r by (simp_all add: pointing g)
    consider (del) "lt k' k" | (eq) "k = k'" | (live) "lt k k'" "k \<noteq> k'" using lt_total [OF okk] by blast
    then show ?thesis
    proof cases
      case del
      obtain del1 where del1: "xAdvance ops d del = (if ks' = [] then SQLITE_DONE else SQLITE_OK, del1)" "good del1" "rest del1 = ks'"
        using adv_ok [OF g(2) r(2)] by blast
      have "k' \<notin> set (rest c)"
        using sorted_ok [OF g(1)] r(1) del lt_asym [OF okk] keys_ok [OF g(1)] by (auto dest: lt_asym)
      then have "delSync D c del1" using D r del1 by (auto simp: delSync_def)
      from less.hyps [OF _ g(1) del1(2) p this] obtain c' del' where
        "seekToExistLoop ops d p c del1 = Some (SQLITE_OK, c', del')" "good c' \<and> good del' \<and>
          rest c' = dropWhile (\<lambda>k. k \<in> D) (rest c) \<and> delSync D c' del'"
        using del1(3) r by auto
      moreover have "seekToExistLoop ops d p c del = seekToExistLoop ops d p c del1"
        using point i del del1(1) by (subst seekToExistLoop.simps) simp
      ultimately show ?thesis by (intro exI [of _ c'] exI [of _ del']) simp
    next
      case eq
      then have na: "\<not> cmpAfter d i" "i = 0" using i lt_asym [OF okk] by auto
      obtain c1 where c1: "xAdvance ops d c = (if ks = [] then SQLITE_DONE else SQLITE_OK, c1)" "good c1" "rest c1 = ks"
        using adv_ok [OF g(1) r(1)] by blast
      have kD: "k \<in> D" using D r eq by (simp add: delSync_def)
      have D1: "delSync D c1 del" using D r c1 by (simp add: delSync_def)
      obtain p' where step: "seekToExistLoop ops d p c del = seekToExistLoop ops d p' c1 del" "prevOk p' (rest c1)"
      proof (cases ks)
        case Nil
        then have "seekToExistLoop ops d p c del = seekToExistLoop ops d p c1 del"
          using point i na c1(1) by (subst seekToExistLoop.simps) simp
        moreover have "prevOk p (rest c1)" using p c1(3) Nil by (auto simp: prevOk_def)
        ultimately show thesis by (rule that)
      next
        case (Cons k2 ks2)
        have "p = 0 \<or> ok (IntKey p) \<and> (\<forall>k\<in>set (rest c1). lt (IntKey p) k)" using p r c1(3) by (simp add: prevOk_def)
        then obtain p' where p': "btreeValidTableKey ops c1 p (d = Next) = (SQLITE_OK, p')" "prevOk p' (rest c1)"
          using valid_step [OF c1(2)] c1(3) Cons by metis
        have "seekToExistLoop ops d p c del = seekToExistLoop ops d p' c1 del"
          using point i na c1(1) Cons p'(1) by (subst seekToExistLoop.simps) simp
        then show thesis using p'(2) by (rule that)
      qed
      from less.hyps [OF _ c1(2) g(2) step(2) D1] obtain c' del' where
        "seekToExistLoop ops d p' c1 del = Some (SQLITE_OK, c', del')" "good c' \<and> good del' \<and>
          rest c' = dropWhile (\<lambda>k. k \<in> D) (rest c1) \<and> delSync D c' del'"
        using c1(3) r by auto
      moreover have "dropWhile (\<lambda>k. k \<in> D) (rest c) = dropWhile (\<lambda>k. k \<in> D) (rest c1)" using r c1(3) kD by simp
      ultimately show ?thesis using step(1) by (intro exI [of _ c'] exI [of _ del']) simp
    next
      case live
      then have "\<not> cmpAfter d i" "i \<noteq> 0" using i lt_asym [OF okk] by auto
      then have run: "seekToExistLoop ops d p c del = Some (SQLITE_OK, c, del)"
        using point i by (subst seekToExistLoop.simps) simp
      have "k \<notin> set (rest del)"
        using sorted_ok [OF g(2)] r(2) live lt_asym [OF okk] lt_trans keys_ok [OF g(2)] okk lt_asym
        by (metis list.set_intros(2) set_ConsD sorted_wrt.simps(2))
      then have "dropWhile (\<lambda>k. k \<in> D) (rest c) = rest c" using D r by (simp add: delSync_def)
      then show ?thesis using run g D by (intro exI [of _ c] exI [of _ del]) simp
    qed
  qed
qed

text \<open>
  What is left to visit: the shared keys that are not deleted, merged with the inserted ones. The
  cursor in use is the one of the two whose key comes first.
\<close>

definition vis :: "BtKey set \<Rightarrow> 'c BtCursorT \<Rightarrow> BtKey list" where
  "vis D C = mergeKeys lt (filter (\<lambda>k. k \<notin> D) (rest (pCur C))) (rest (pCurIns C))"

definition cursorInv :: "BtKey set \<Rightarrow> 'c BtCursorT \<Rightarrow> bool" where
  "cursorInv D C \<longleftrightarrow> good (pCur C) \<and> good (pCurIns C) \<and> good (pCurDel C) \<and>
     delSync D (pCur C) (pCurDel C)"

definition aligned :: "BtKey set \<Rightarrow> 'c BtCursorT \<Rightarrow> bool" where
  "aligned D C \<longleftrightarrow>
     (\<exists>k ks. rest (pCur C) = k # ks \<and> k \<notin> D \<and> stateT C = CURSOR_USE_SHARED \<and> (\<forall>k' ks'. rest (pCurIns C) = k' # ks' \<longrightarrow> \<not> lt k' k)) \<or>
     (\<exists>k' ks'. rest (pCurIns C) = k' # ks' \<and> stateT C = CURSOR_USE_TRANS \<and> (\<forall>k ks. rest (pCur C) = k # ks \<longrightarrow> lt k' k))"

lemma filter_dropWhile: "filter (\<lambda>k. k \<notin> D) (dropWhile (\<lambda>k. k \<in> D) ks) = filter (\<lambda>k. k \<notin> D) ks"
  by (induction ks) auto

lemma seek_exist:
  assumes "cursorInv D C"
  shows "\<exists>C'. btreeSeekToExist ops d C = Some (SQLITE_OK, C') \<and> cursorInv D C' \<and> vis D C' = vis D C \<and>
    pCurIns C' = pCurIns C \<and> stateT C' = stateT C \<and> (\<forall>k ks. rest (pCur C') = k # ks \<longrightarrow> k \<notin> D)"
proof -
  have g: "good (pCur C)" "good (pCurIns C)" "good (pCurDel C)"
    and D: "delSync D (pCur C) (pCurDel C)" using assms by (simp_all add: cursorInv_def)
  obtain p where p: "(if btreeCursorIsPointing ops (pCur C) then btreeValidTableKey ops (pCur C) 0 (d = Next) else (SQLITE_OK, 0)) = (SQLITE_OK, p)"
      "prevOk p (rest (pCur C))"
    using old_key [OF g(1)] .
  from seek_loop [OF g(1,3) p(2) D] obtain c' del' where run: "seekToExistLoop ops d p (pCur C) (pCurDel C) = Some (SQLITE_OK, c', del')"
    and c': "good c'" "good del'" "rest c' = dropWhile (\<lambda>k. k \<in> D) (rest (pCur C))" "delSync D c' del'"
    by (elim exE conjE) (rule that)
  have "btreeSeekToExist ops d C = Some (SQLITE_OK, C\<lparr>pCur := c', pCurDel := del'\<rparr>)"
    using p(1) run no_seek [OF g(3)] by (simp add: btreeSeekToExist_def del: split_paired_All)
  moreover have "\<forall>k ks. rest c' = k # ks \<longrightarrow> k \<notin> D"
    unfolding c'(3) by (metis hd_dropWhile list.distinct(1) list.sel(1))
  moreover have "vis D (C\<lparr>pCur := c', pCurDel := del'\<rparr>) = vis D C"
    using c'(3) by (simp add: vis_def filter_dropWhile)
  moreover have "cursorInv D (C\<lparr>pCur := c', pCurDel := del'\<rparr>)" using c'(1,2,4) g by (simp add: cursorInv_def)
  ultimately show ?thesis by (intro exI [of _ "C\<lparr>pCur := c', pCurDel := del'\<rparr>"] conjI) simp_all
qed

lemma vis_cases:
  assumes "\<forall>k ks. rest (pCur C) = k # ks \<longrightarrow> k \<notin> D"
  shows "vis D C =
    (case rest (pCur C) of
       [] \<Rightarrow> rest (pCurIns C)
     | k # ks \<Rightarrow> (case rest (pCurIns C) of
          [] \<Rightarrow> k # filter (\<lambda>k. k \<notin> D) ks
        | k' # ks' \<Rightarrow> if lt k' k then k' # mergeKeys lt (k # filter (\<lambda>k. k \<notin> D) ks) ks' else k # mergeKeys lt (filter (\<lambda>k. k \<notin> D) ks) (k' # ks')))"
  using assms by (auto simp: vis_def split: list.splits)

lemma seek_exist_all:
  assumes "cursorInv D C"
  shows "\<exists>C'. btreeSeekToExistAll ops d C = Some (SQLITE_OK, if vis D C = [] then 1 else 0, C') \<and>
    cursorInv D C' \<and> vis D C' = vis D C \<and> (vis D C \<noteq> [] \<longrightarrow> aligned D C')"
proof -
  obtain C1 where run: "btreeSeekToExist ops d C = Some (SQLITE_OK, C1)"
    and C1: "cursorInv D C1" "vis D C1 = vis D C" and live: "\<forall>k ks. rest (pCur C1) = k # ks \<longrightarrow> k \<notin> D"
    using seek_exist [OF assms] by (elim exE conjE) (rule that)
  have g: "good (pCur C1)" "good (pCurIns C1)" using C1(1) by (simp_all add: cursorInv_def)
  note vis1 = vis_cases [OF live, unfolded C1(2)]
  have upd: "cursorInv D (C1\<lparr>stateT := s\<rparr>)" "vis D (C1\<lparr>stateT := s\<rparr>) = vis D C" for s
    using C1 by (simp_all add: cursorInv_def vis_def)
  show ?thesis
  proof (cases "rest (pCur C1)")
    case Nil
    show ?thesis
    proof (cases "rest (pCurIns C1)")
      case Nil
      with \<open>rest (pCur C1) = []\<close> show ?thesis using C1 vis1
        by (intro exI [of _ C1]) (simp add: btreeSeekToExistAll_def run pointing g)
    next
      case (Cons k' ks')
      then have "aligned D (C1\<lparr>stateT := CURSOR_USE_TRANS\<rparr>)" using Nil by (simp add: aligned_def)
      with Nil Cons show ?thesis using upd vis1
        by (intro exI [of _ "C1\<lparr>stateT := CURSOR_USE_TRANS\<rparr>"]) (simp add: btreeSeekToExistAll_def run pointing g)
    qed
  next
    case (Cons k ks)
    then have kD: "k \<notin> D" using live by simp
    show ?thesis
    proof (cases "rest (pCurIns C1)")
      case Nil
      then have "aligned D (C1\<lparr>stateT := CURSOR_USE_SHARED\<rparr>)" using Cons kD by (simp add: aligned_def)
      with Nil Cons show ?thesis using upd vis1
        by (intro exI [of _ "C1\<lparr>stateT := CURSOR_USE_SHARED\<rparr>"]) (simp add: btreeSeekToExistAll_def run pointing g)
    next
      case Cons': (Cons k' ks')
      obtain i where i: "btreeKeyCompareCursors ops (pCur C1) (pCurIns C1) = Inr i" "cmpAfter d i \<longleftrightarrow> lt k' k" "cmpBefore d i \<longleftrightarrow> lt k k'" "i = 0 \<longleftrightarrow> k = k'"
        using cmp_ok [OF g Cons Cons'] by (elim exE conjE) (rule that)
      have guard: "(i = 0 \<or> (i < 0 \<and> d = Next) \<or> (i > 0 \<and> d = Previous)) \<longleftrightarrow> \<not> lt k' k"
        unfolding i(2) [symmetric] by (cases d) (auto simp: cmpAfter_def)
      define s where "s = (if lt k' k then CURSOR_USE_TRANS else CURSOR_USE_SHARED)"
      have "btreeSeekToExistAll ops d C = Some (SQLITE_OK, 0, C1\<lparr>stateT := s\<rparr>)"
        using Cons Cons' guard by (simp add: btreeSeekToExistAll_def run pointing g i(1) s_def)
      moreover have "aligned D (C1\<lparr>stateT := s\<rparr>)" using Cons Cons' kD by (simp add: aligned_def s_def)
      ultimately show ?thesis using upd vis1 Cons Cons' by (intro exI [of _ "C1\<lparr>stateT := s\<rparr>"]) simp
    qed
  qed
qed

lemma correct_noop:
  assumes "cursorInv D C" "aligned D C"
  shows "advanceCorrect ops d C = Some (SQLITE_OK, C)"
proof -
  have g: "good (pCur C)" "good (pCurIns C)" using assms(1) by (simp_all add: cursorInv_def)
  show ?thesis
  proof (cases "rest (pCur C) = [] \<or> rest (pCurIns C) = []")
    case True
    then show ?thesis by (subst advanceCorrect.simps) (auto simp: pointing g)
  next
    case False
    then obtain k ks k' ks' where r: "rest (pCur C) = k # ks" "rest (pCurIns C) = k' # ks'" by (metis neq_Nil_conv)
    obtain i where i: "btreeKeyCompareCursors ops (pCur C) (pCurIns C) = Inr i" "cmpAfter d i \<longleftrightarrow> lt k' k" "cmpBefore d i \<longleftrightarrow> lt k k'"
      using cmp_ok [OF g r] by (elim exE conjE) (rule that)
    have okk: "ok k" "ok k'" using keys_ok [OF g(1)] keys_ok [OF g(2)] r by simp_all
    consider "stateT C = CURSOR_USE_SHARED" "\<not> lt k' k" | "stateT C = CURSOR_USE_TRANS" "\<not> lt k k'"
      using assms(2) r lt_asym [OF okk(2,1)] by (auto simp: aligned_def)
    then show ?thesis
      by cases (subst advanceCorrect.simps, simp add: pointing g r i cursorSharedIsUsed_def cursorTransIsUsed_def)+
  qed
qed

lemma aligned_cases:
  assumes "cursorInv D C" "aligned D C"
  obtains
    (shared) k ks where "rest (pCur C) = k # ks" "k \<notin> D" "stateT C = CURSOR_USE_SHARED"
      "vis D C = k # mergeKeys lt (filter (\<lambda>k. k \<notin> D) ks) (rest (pCurIns C))"
  | (inserted) k' ks' where "rest (pCurIns C) = k' # ks'" "stateT C = CURSOR_USE_TRANS"
      "vis D C = k' # mergeKeys lt (filter (\<lambda>k. k \<notin> D) (rest (pCur C))) ks'"
proof (cases "stateT C = CURSOR_USE_SHARED")
  case True
  then obtain k ks where k: "rest (pCur C) = k # ks" "k \<notin> D" "\<forall>k' ks'. rest (pCurIns C) = k' # ks' \<longrightarrow> \<not> lt k' k"
    using assms(2) by (auto simp: aligned_def)
  then have "vis D C = k # mergeKeys lt (filter (\<lambda>k. k \<notin> D) ks) (rest (pCurIns C))"
    by (cases "rest (pCurIns C)") (simp_all add: vis_def)
  with k True show thesis by (intro shared)
next
  case False
  then obtain k' ks' where k: "rest (pCurIns C) = k' # ks'" "stateT C = CURSOR_USE_TRANS"
      "\<forall>k ks. rest (pCur C) = k # ks \<longrightarrow> lt k' k"
    using assms(2) by (auto simp: aligned_def)
  have g: "good (pCur C)" "good (pCurIns C)" using assms(1) by (simp_all add: cursorInv_def)
  have "lt k' x" if x: "x \<in> set (rest (pCur C))" for x
  proof -
    obtain k0 ks0 where r: "rest (pCur C) = k0 # ks0" using x by (cases "rest (pCur C)") auto
    have "lt k' k0" using k(3) r by simp
    then show ?thesis
      using x r sorted_ok [OF g(1)] keys_ok [OF g(1)] keys_ok [OF g(2)] k(1) lt_trans [of k' k0 x] by auto
  qed
  then have "vis D C = k' # mergeKeys lt (filter (\<lambda>k. k \<notin> D) (rest (pCur C))) ks'"
    unfolding vis_def k(1) by (cases "filter (\<lambda>k. k \<notin> D) (rest (pCur C))") (auto simp: filter_eq_Cons_iff)
  with k(1,2) show thesis by (rule inserted)
qed

lemma key_all:
  assumes "cursorInv D C" "aligned D C"
  shows "vis D C \<noteq> [] \<and> sqlite3BtreeIntegerKeyAll ops C = hd (vis D C)"
proof -
  have g: "good (pCur C)" "good (pCurIns C)" using assms(1) by (simp_all add: cursorInv_def)
  show ?thesis
    using assms by (rule aligned_cases) (simp_all add: sqlite3BtreeIntegerKeyAll_def cursorTransIsUsed_def key_ok g)
qed

lemma advance_step:
  assumes inv: "cursorInv D C" and al: "aligned D C" and p: "prevOk p (rest (pCur C))"
  shows "\<exists>C2 C3. advanceShared ops d p C = (SQLITE_OK, C2) \<and> advanceTrans ops d C2 = (SQLITE_OK, C3) \<and>
    cursorInv D C3 \<and> vis D C3 = tl (vis D C)"
proof -
  have g: "good (pCur C)" "good (pCurIns C)" "good (pCurDel C)" using inv by (simp_all add: cursorInv_def)
  note flags = cursorSharedIsUsed_def cursorTransIsUsed_def
  from inv al show ?thesis
  proof (cases rule: aligned_cases)
    case (shared k ks)
    obtain c1 where c1: "xAdvance ops d (pCur C) = (if ks = [] then SQLITE_DONE else SQLITE_OK, c1)" "good c1" "rest c1 = ks"
      using adv_ok [OF g(1) shared(1)] by (elim exE conjE) (rule that)
    have ord: "fst (btreeValidTableKey ops c1 p (d = Next)) = SQLITE_OK" if "rest c1 \<noteq> []" "p \<noteq> 0"
    proof -
      obtain k2 ks2 where r: "rest c1 = k2 # ks2" using \<open>rest c1 \<noteq> []\<close> by (meson neq_Nil_conv)
      have "btreeValidTableKey ops c1 p (d = Next) = (SQLITE_OK, p)"
        by (rule valid_next [OF c1(2) r that(2)]) (use p that(2) shared(1) c1(3) r in \<open>auto simp: prevOk_def\<close>)
      then show ?thesis by simp
    qed
    have "advanceShared ops d p C = (SQLITE_OK, C\<lparr>pCur := c1\<rparr>)"
      using ord by (auto simp: advanceShared_def Let_def flags shared(3) c1(1) pointing [OF c1(2)])
    moreover have "advanceTrans ops d (C\<lparr>pCur := c1\<rparr>) = (SQLITE_OK, C\<lparr>pCur := c1\<rparr>)"
      by (simp add: advanceTrans_def flags shared(3))
    moreover have "cursorInv D (C\<lparr>pCur := c1\<rparr>)"
      using inv c1(2,3) shared(1) by (simp add: cursorInv_def delSync_def)
    moreover have "vis D (C\<lparr>pCur := c1\<rparr>) = tl (vis D C)" using c1(3) shared(4) by (simp add: vis_def)
    ultimately show ?thesis by blast
  next
    case (inserted k' ks')
    obtain ci where ci: "xAdvance ops d (pCurIns C) = (if ks' = [] then SQLITE_DONE else SQLITE_OK, ci)" "good ci" "rest ci = ks'"
      using adv_ok [OF g(2) inserted(1)] by (elim exE conjE) (rule that)
    have "advanceShared ops d p C = (SQLITE_OK, C)" by (simp add: advanceShared_def flags inserted(2))
    moreover have "advanceTrans ops d C = (SQLITE_OK, C\<lparr>pCurIns := ci\<rparr>)"
      using no_seek [OF g(2)] by (simp add: advanceTrans_def flags inserted(2) ci(1))
    moreover have "cursorInv D (C\<lparr>pCurIns := ci\<rparr>)" using inv ci(2) by (simp add: cursorInv_def)
    moreover have "vis D (C\<lparr>pCurIns := ci\<rparr>) = tl (vis D C)" using ci(3) inserted(3) by (simp add: vis_def)
    ultimately show ?thesis by blast
  qed
qed

lemma advance_all:
  assumes "cursorInv D C" "aligned D C"
  shows "\<exists>C'. sqlite3BtreeAdvanceAll ops d C = Some (if tl (vis D C) = [] then SQLITE_DONE else SQLITE_OK, C') \<and>
    cursorInv D C' \<and> vis D C' = tl (vis D C) \<and> (tl (vis D C) \<noteq> [] \<longrightarrow> aligned D C')"
proof -
  have g: "good (pCur C)" using assms by (simp add: cursorInv_def)
  obtain p where p: "(if btreeCursorIsPointing ops (pCur C) then btreeValidTableKey ops (pCur C) 0 (d = Next) else (SQLITE_OK, 0)) = (SQLITE_OK, p)"
      "prevOk p (rest (pCur C))"
    using old_key [OF g] .
  obtain C2 C3 where step: "advanceShared ops d p C = (SQLITE_OK, C2)" "advanceTrans ops d C2 = (SQLITE_OK, C3)"
    and C3: "cursorInv D C3" "vis D C3 = tl (vis D C)"
    using advance_step [OF assms p(2)] by (elim exE conjE) (rule that)
  obtain C4 where seek: "btreeSeekToExistAll ops d C3 = Some (SQLITE_OK, if vis D C3 = [] then 1 else 0, C4)"
    and C4: "cursorInv D C4" "vis D C4 = vis D C3" "vis D C3 \<noteq> [] \<longrightarrow> aligned D C4"
    using seek_exist_all [OF C3(1)] by (elim exE conjE) (rule that)
  have used: "transBtreeCursorIsUsed C" using assms by (rule aligned_cases) (simp_all add: transBtreeCursorIsUsed_def)
  have "sqlite3BtreeAdvanceAll ops d C = Some (if tl (vis D C) = [] then SQLITE_DONE else SQLITE_OK, C4)"
    using p(1) used step seek C3(2) by (simp add: sqlite3BtreeAdvanceAll_def correct_noop [OF assms])
  with C4 C3(2) show ?thesis by (intro exI [of _ C4]) simp
qed

lemma scan_loop:
  assumes "cursorInv D C" "aligned D C"
  shows "scanLoop ops d C = Some (vis D C)"
  using assms
proof (induction "length (vis D C)" arbitrary: C rule: less_induct)
  case less
  obtain C' where run: "sqlite3BtreeAdvanceAll ops d C = Some (if tl (vis D C) = [] then SQLITE_DONE else SQLITE_OK, C')"
    and C': "cursorInv D C'" "vis D C' = tl (vis D C)" "tl (vis D C) \<noteq> [] \<longrightarrow> aligned D C'"
    using advance_all [OF less.prems] by (elim exE conjE) (rule that)
  have key: "vis D C \<noteq> []" "sqlite3BtreeIntegerKeyAll ops C = hd (vis D C)" using key_all [OF less.prems] by simp_all
  show ?case
  proof (cases "tl (vis D C) = []")
    case True
    then show ?thesis using run key by (subst scanLoop.simps) (cases "vis D C"; simp)
  next
    case False
    then have "scanLoop ops d C' = Some (tl (vis D C))" using less.hyps [of C'] C' key(1) by simp
    then show ?thesis using run key False by (subst scanLoop.simps) simp
  qed
qed

end

text \<open>
  The whole table: positioning at the first record, or at the last one, and invalidating the
  shared cursor where all its records are deleted.
\<close>

locale merge_scan = merge_cursors +
  fixes usable :: "'a \<Rightarrow> bool" and tree :: "'a \<Rightarrow> BtKey list"
  assumes first_ok: "d = Next \<Longrightarrow> usable c \<Longrightarrow> \<exists>r c'. opFirst ops c = (SQLITE_OK, r, c') \<and> good c' \<and> rest c' = tree c"
    and last_ok: "d = Previous \<Longrightarrow> usable c \<Longrightarrow> \<exists>r c'. opLast ops c = (SQLITE_OK, r, c') \<and> good c' \<and> rest c' = rev (tree c)"
    and invalid_ok: "good c \<Longrightarrow> good (opSetState ops CURSOR_INVALID c) \<and> rest (opSetState ops CURSOR_INVALID c) = []"
begin

definition live :: "bool \<Rightarrow> 'a BtCursorT \<Rightarrow> BtKey list" where
  "live deleteAll C = (if deleteAll then [] else filter (\<lambda>k. k \<notin> set (tree (pCurDel C))) (tree (pCur C)))"

lemma scan_positioned:
  assumes "good c" "good ci" "good cd" "set (rest cd) = D"
  shows "scanFrom ops d (btreeSeekToExistAll ops d (C\<lparr>pCur := c, pCurIns := ci, pCurDel := cd\<rparr>)) =
    Some (mergeKeys lt (filter (\<lambda>k. k \<notin> D) (rest c)) (rest ci))"
proof -
  let ?C = "C\<lparr>pCur := c, pCurIns := ci, pCurDel := cd\<rparr>"
  have inv: "cursorInv D ?C" using assms by (simp add: cursorInv_def delSync_def)
  obtain C' where run: "btreeSeekToExistAll ops d ?C = Some (SQLITE_OK, if vis D ?C = [] then 1 else 0, C')"
    and C': "cursorInv D C'" "vis D C' = vis D ?C" "vis D ?C \<noteq> [] \<longrightarrow> aligned D C'"
    using seek_exist_all [OF inv] by (elim exE conjE) (rule that)
  have "scanFrom ops d (btreeSeekToExistAll ops d ?C) = Some (vis D ?C)"
    using scan_loop [OF C'(1)] C'(2,3) by (simp add: scanFrom_def run)
  then show ?thesis by (simp add: vis_def)
qed

lemma scan_sorted:
  assumes "good c" "good ci"
  shows "sorted_wrt (\<lambda>a b. \<not> lt b a) (mergeKeys lt (filter P (rest c)) (rest ci))"
proof (rule sorted_mergeKeys [where S = "{k. ok k}"])
  show "sorted_wrt lt (filter P (rest c))" "sorted_wrt lt (rest ci)"
    by (simp_all add: sorted_wrt_filter sorted_ok assms)
  show "set (filter P (rest c)) \<subseteq> {k. ok k}" "set (rest ci) \<subseteq> {k. ok k}"
    using keys_ok [OF assms(1)] keys_ok [OF assms(2)] by auto
qed (simp_all add: lt_asym lt_total, rule lt_trans)

lemma recUpd: "C\<lparr>pCurIns := ci, pCurDel := cd, pCur := c\<rparr> = C\<lparr>pCur := c, pCurIns := ci, pCurDel := cd\<rparr>" for C :: "'a BtCursorT"
  by simp

lemma scan_first:
  assumes "d = Next" "transBtreeCursorIsUsed C" "usable (pCur C)" "usable (pCurIns C)" "usable (pCurDel C)"
  shows "\<exists>ks. scanFrom ops Next (sqlite3BtreeFirstAll ops deleteAll C) = Some ks \<and>
    mset ks = mset (live deleteAll C) + mset (tree (pCurIns C)) \<and> sorted_wrt (\<lambda>a b. \<not> lt b a) ks"
proof -
  obtain r c where c: "opFirst ops (pCur C) = (SQLITE_OK, r, c)" "good c" "rest c = tree (pCur C)"
    using first_ok [OF assms(1,3)] by (elim exE conjE) (rule that)
  obtain ri ci where ci: "opFirst ops (pCurIns C) = (SQLITE_OK, ri, ci)" "good ci" "rest ci = tree (pCurIns C)"
    using first_ok [OF assms(1,4)] by (elim exE conjE) (rule that)
  obtain rd cd where cd: "opFirst ops (pCurDel C) = (SQLITE_OK, rd, cd)" "good cd" "rest cd = tree (pCurDel C)"
    using first_ok [OF assms(1,5)] by (elim exE conjE) (rule that)
  define c0 where "c0 = (if deleteAll then opSetState ops CURSOR_INVALID c else c)"
  have c0: "good c0" "filter (\<lambda>k. k \<notin> set (tree (pCurDel C))) (rest c0) = live deleteAll C"
    using c(2,3) invalid_ok [OF c(2)] by (simp_all add: c0_def live_def)
  have "sqlite3BtreeFirstAll ops deleteAll C = btreeSeekToExistAll ops Next (C\<lparr>pCur := c0, pCurIns := ci, pCurDel := cd\<rparr>)"
    using assms(2) by (simp add: sqlite3BtreeFirstAll_def c(1) ci(1) cd(1) transBtreeCursorIsUsed_def c0_def recUpd)
  then have "scanFrom ops Next (sqlite3BtreeFirstAll ops deleteAll C) = Some (mergeKeys lt (live deleteAll C) (rest ci))"
    using scan_positioned [OF c0(1) ci(2) cd(2)] cd(3) c0(2) assms(1) by simp
  then show ?thesis using scan_sorted [OF c0(1) ci(2), of "\<lambda>k. k \<notin> set (tree (pCurDel C))"] c0(2) ci(3) by (simp add: mset_mergeKeys)
qed

lemma scan_last:
  assumes "d = Previous" "transBtreeCursorIsUsed C" "usable (pCur C)" "usable (pCurIns C)" "usable (pCurDel C)"
  shows "\<exists>ks. scanFrom ops Previous (sqlite3BtreeLastAll ops deleteAll C) = Some ks \<and>
    mset ks = mset (live deleteAll C) + mset (tree (pCurIns C)) \<and> sorted_wrt (\<lambda>a b. \<not> lt b a) ks"
proof -
  obtain r c where c: "opLast ops (pCur C) = (SQLITE_OK, r, c)" "good c" "rest c = rev (tree (pCur C))"
    using last_ok [OF assms(1,3)] by (elim exE conjE) (rule that)
  obtain ri ci where ci: "opLast ops (pCurIns C) = (SQLITE_OK, ri, ci)" "good ci" "rest ci = rev (tree (pCurIns C))"
    using last_ok [OF assms(1,4)] by (elim exE conjE) (rule that)
  obtain rd cd where cd: "opLast ops (pCurDel C) = (SQLITE_OK, rd, cd)" "good cd" "rest cd = rev (tree (pCurDel C))"
    using last_ok [OF assms(1,5)] by (elim exE conjE) (rule that)
  define c0 where "c0 = (if deleteAll then opSetState ops CURSOR_INVALID c else c)"
  have c0: "good c0" "filter (\<lambda>k. k \<notin> set (tree (pCurDel C))) (rest c0) = rev (live deleteAll C)"
    using c(2,3) invalid_ok [OF c(2)] by (simp_all add: c0_def live_def rev_filter)
  have "sqlite3BtreeLastAll ops deleteAll C = btreeSeekToExistAll ops Previous (C\<lparr>pCur := c0, pCurIns := ci, pCurDel := cd\<rparr>)"
    using assms(2) by (simp add: sqlite3BtreeLastAll_def c(1) ci(1) cd(1) transBtreeCursorIsUsed_def c0_def recUpd)
  then have "scanFrom ops Previous (sqlite3BtreeLastAll ops deleteAll C) = Some (mergeKeys lt (rev (live deleteAll C)) (rest ci))"
    using scan_positioned [OF c0(1) ci(2) cd(2)] cd(3) c0(2) assms(1) by simp
  then show ?thesis using scan_sorted [OF c0(1) ci(2), of "\<lambda>k. k \<notin> set (tree (pCurDel C))"] c0(2) ci(3) by (simp add: mset_mergeKeys)
qed

end

section \<open>Cursors on sorted lists of rowids\<close>

text \<open>
  A cursor on a table as a position in the sorted list of its rowids. The rowids are less than
  \<open>2^62\<close> in absolute value, so that the difference of two of them is an \<open>i64\<close>.
\<close>

record ListCur =
  lcKeys :: "i64 list"
  lcAt :: nat
  lcState :: CurState

definition keyOrd :: "Advance \<Rightarrow> BtKey \<Rightarrow> BtKey \<Rightarrow> bool" where
  "keyOrd d a b = (case (a, b) of (IntKey x, IntKey y) \<Rightarrow> (if d = Next then x < y else y < x) | _ \<Rightarrow> False)"

definition smallKey :: "BtKey \<Rightarrow> bool" where
  "smallKey k = (case k of IntKey i \<Rightarrow> - (2 ^ 62) < i \<and> i < 2 ^ 62 | IdxKey b \<Rightarrow> False)"

definition lcFirst :: "ListCur \<Rightarrow> rc \<times> int \<times> ListCur" where
  "lcFirst c = (if lcKeys c = [] then (SQLITE_OK, 1, c\<lparr>lcState := CURSOR_INVALID\<rparr>)
     else (SQLITE_OK, 0, c\<lparr>lcAt := 0, lcState := CURSOR_VALID\<rparr>))"

definition lcLast :: "ListCur \<Rightarrow> rc \<times> int option \<times> ListCur" where
  "lcLast c = (if lcKeys c = [] then (SQLITE_OK, Some 1, c\<lparr>lcState := CURSOR_INVALID\<rparr>)
     else (SQLITE_OK, Some 0, c\<lparr>lcAt := length (lcKeys c) - 1, lcState := CURSOR_VALID\<rparr>))"

definition lcNext :: "ListCur \<Rightarrow> rc \<times> ListCur" where
  "lcNext c = (if lcState c = CURSOR_VALID \<and> lcAt c + 1 < length (lcKeys c) then (SQLITE_OK, c\<lparr>lcAt := lcAt c + 1\<rparr>)
     else (SQLITE_DONE, c\<lparr>lcState := CURSOR_INVALID\<rparr>))"

definition lcPrevious :: "ListCur \<Rightarrow> rc \<times> ListCur" where
  "lcPrevious c = (if lcState c = CURSOR_VALID \<and> lcAt c > 0 then (SQLITE_OK, c\<lparr>lcAt := lcAt c - 1\<rparr>)
     else (SQLITE_DONE, c\<lparr>lcState := CURSOR_INVALID\<rparr>))"

definition lcKey :: "ListCur \<Rightarrow> BtKey" where
  "lcKey c = (if lcAt c < length (lcKeys c) then IntKey (lcKeys c ! lcAt c) else IntKey 0)"

definition listOps :: "ListCur BtOps" where
  "listOps = \<lparr> opFirst = lcFirst, opLast = lcLast, opNext = lcNext, opPrevious = lcPrevious, opKey = lcKey,
     opState = lcState, opSetState = (\<lambda>s c. c\<lparr>lcState := s\<rparr>), opRestore = (\<lambda>c. (SQLITE_OK, c)),
     opSavedKey = lcKey, opSetSavedKey = (\<lambda>k c. c), opTreeEmpty = (\<lambda>c. lcKeys c = []),
     opCompare = (\<lambda>a b. Inl SQLITE_CORRUPT) \<rparr>"

definition lcTree :: "ListCur \<Rightarrow> BtKey list" where
  "lcTree c = map IntKey (lcKeys c)"

definition lcUsable :: "ListCur \<Rightarrow> bool" where
  "lcUsable c \<longleftrightarrow> sorted_wrt (<) (lcKeys c) \<and> (\<forall>i\<in>set (lcKeys c). - (2 ^ 62) < i \<and> i < 2 ^ 62)"

definition lcGood :: "ListCur \<Rightarrow> bool" where
  "lcGood c \<longleftrightarrow> lcUsable c \<and> (lcState c = CURSOR_INVALID \<or> lcState c = CURSOR_VALID \<and> lcAt c < length (lcKeys c))"

definition lcRest :: "Advance \<Rightarrow> ListCur \<Rightarrow> BtKey list" where
  "lcRest d c = (if lcState c = CURSOR_VALID
     then map IntKey (if d = Next then drop (lcAt c) (lcKeys c) else rev (take (Suc (lcAt c)) (lcKeys c))) else [])"

lemma toI64_small: "- (2 ^ 63) \<le> x \<Longrightarrow> x < 2 ^ 63 \<Longrightarrow> toI64 x = x"
  by (simp add: toI64_def)

lemma lcRest_Nil: "lcGood c \<Longrightarrow> lcRest d c = [] \<longleftrightarrow> lcState c = CURSOR_INVALID"
  by (auto simp: lcGood_def lcRest_def)

lemma lcRest_Cons:
  assumes "lcGood c" "lcRest d c = k # ks"
  shows "lcState c = CURSOR_VALID \<and> lcAt c < length (lcKeys c) \<and> k = IntKey (lcKeys c ! lcAt c) \<and>
    ks = map IntKey (if d = Next then drop (Suc (lcAt c)) (lcKeys c) else rev (take (lcAt c) (lcKeys c)))"
proof -
  have v: "lcState c = CURSOR_VALID" "lcAt c < length (lcKeys c)"
    using assms lcRest_Nil [OF assms(1), of d] by (auto simp: lcGood_def)
  show ?thesis
    using assms(2) v by (auto simp: lcRest_def Cons_nth_drop_Suc [symmetric] take_Suc_conv_app_nth split: if_splits)
qed

lemma lcRest_sorted: "lcGood c \<Longrightarrow> sorted_wrt (keyOrd d) (lcRest d c)"
  by (cases d) (auto simp: lcGood_def lcUsable_def lcRest_def sorted_wrt_map keyOrd_def sorted_wrt_rev
      simp flip: take_Suc_conv_app_nth intro: sorted_wrt_drop sorted_wrt_take)

lemma lcRest_small: "lcGood c \<Longrightarrow> k \<in> set (lcRest d c) \<Longrightarrow> smallKey k"
  by (auto simp: lcGood_def lcUsable_def lcRest_def smallKey_def split: if_splits dest: in_set_dropD in_set_takeD)

lemma lcAdvance:
  assumes "lcGood c" "lcRest d c = k # ks"
  shows "\<exists>c'. xAdvance listOps d c = (if ks = [] then SQLITE_DONE else SQLITE_OK, c') \<and> lcGood c' \<and> lcRest d c' = ks"
proof -
  note v = lcRest_Cons [OF assms]
  show ?thesis
  proof (cases d)
    case Next
    then show ?thesis using v assms(1)
      by (auto simp: xAdvance_def listOps_def lcNext_def lcGood_def lcUsable_def lcRest_def)
  next
    case Previous
    then show ?thesis using v assms(1)
      by (auto simp: xAdvance_def listOps_def lcPrevious_def lcGood_def lcUsable_def lcRest_def Suc_diff_1)
  qed
qed

lemma lcCompare:
  assumes "lcGood c1" "lcGood c2" "lcRest d c1 = k1 # ks1" "lcRest d c2 = k2 # ks2"
  shows "\<exists>i. btreeKeyCompareCursors listOps c1 c2 = Inr i \<and> (cmpAfter d i \<longleftrightarrow> keyOrd d k2 k1) \<and> (cmpBefore d i \<longleftrightarrow> keyOrd d k1 k2) \<and> (i = 0 \<longleftrightarrow> k1 = k2)"
proof -
  obtain a where a: "k1 = IntKey a" "lcKey c1 = IntKey a" using lcRest_Cons [OF assms(1,3)] by (simp add: lcKey_def)
  obtain b where b: "k2 = IntKey b" "lcKey c2 = IntKey b" using lcRest_Cons [OF assms(2,4)] by (simp add: lcKey_def)
  have "smallKey k1" "smallKey k2" using lcRest_small [OF assms(1), of k1 d] lcRest_small [OF assms(2), of k2 d] assms(3,4) by simp_all
  then have "toI64 (a - b) = a - b" by (intro toI64_small) (simp_all add: smallKey_def a(1) b(1))
  then have "btreeKeyCompareCursors listOps c1 c2 = Inr (a - b)" by (simp add: btreeKeyCompareCursors_def listOps_def a(2) b(2))
  then show ?thesis by (cases d) (simp_all add: a(1) b(1) keyOrd_def cmpAfter_def cmpBefore_def)
qed

lemma lcValid_next:
  assumes "lcGood c" "lcRest d c = k # ks" "p \<noteq> 0" "smallKey (IntKey p)" "keyOrd d (IntKey p) k"
  shows "btreeValidTableKey listOps c p (d = Next) = (SQLITE_OK, p)"
proof -
  obtain a where a: "k = IntKey a" "lcKey c = IntKey a" using lcRest_Cons [OF assms(1,2)] by (simp add: lcKey_def)
  have "smallKey k" using lcRest_small [OF assms(1), of k d] assms(2) by simp
  then have "toI64 (a - p) = a - p" using assms(4) by (intro toI64_small) (simp_all add: smallKey_def a(1))
  then show ?thesis using assms(3,5) a by (cases d) (simp_all add: btreeValidTableKey_def listOps_def keyOrd_def Let_def)
qed

interpretation lc: merge_scan listOps d "lcRest d" "keyOrd d" smallKey lcGood lcUsable lcTree for d
proof
  fix c k ks
  assume c: "lcGood c" "lcRest d c = k # ks"
  show "opKey listOps c = k" using lcRest_Cons [OF c] by (simp add: listOps_def lcKey_def)
  show "\<exists>p. btreeValidTableKey listOps c 0 (d = Next) = (SQLITE_OK, p) \<and> (p = 0 \<or> k = IntKey p)"
    using lcRest_Cons [OF c] by (simp add: btreeValidTableKey_def listOps_def lcKey_def)
next
  fix x y z
  assume "keyOrd d x y" "keyOrd d y z"
  then show "keyOrd d x z" by (auto simp: keyOrd_def split: BtKey.splits if_splits)
next
  fix x y
  assume "smallKey x" "smallKey y" "x \<noteq> y"
  then show "keyOrd d x y \<or> keyOrd d y x" by (auto simp: keyOrd_def smallKey_def split: BtKey.splits)
next
  fix x y
  assume "keyOrd d x y"
  then show "\<not> keyOrd d y x" by (auto simp: keyOrd_def split: BtKey.splits if_splits)
next
  fix c
  assume "lcGood c"
  then show "opState listOps c = (if lcRest d c = [] then CURSOR_INVALID else CURSOR_VALID)"
    using lcRest_Nil [of c d] by (auto simp: listOps_def lcGood_def)
next
  fix c
  assume "d = Next" "lcUsable c"
  then show "\<exists>r c'. opFirst listOps c = (SQLITE_OK, r, c') \<and> lcGood c' \<and> lcRest d c' = lcTree c"
    by (simp add: listOps_def lcFirst_def lcGood_def lcUsable_def lcRest_def lcTree_def)
next
  fix c
  assume "d = Previous" "lcUsable c"
  then show "\<exists>r c'. opLast listOps c = (SQLITE_OK, r, c') \<and> lcGood c' \<and> lcRest d c' = rev (lcTree c)"
    by (simp add: listOps_def lcLast_def lcGood_def lcUsable_def lcRest_def lcTree_def rev_map)
next
  fix c
  assume "lcGood c"
  then show "lcGood (opSetState listOps CURSOR_INVALID c) \<and> lcRest d (opSetState listOps CURSOR_INVALID c) = []"
    by (simp add: listOps_def lcGood_def lcUsable_def lcRest_def)
qed (fact lcRest_small lcRest_sorted lcAdvance lcCompare lcValid_next)+

section \<open>The scan\<close>

text \<open>
  C8. A forward scan, \<open>sqlite3BtreeFirstAll\<close> followed by \<open>sqlite3BtreeAdvanceAll\<close> until \<open>SQLITE_DONE\<close>,
  ends and visits, in key order, exactly the keys the transaction sees: those of the shared table that
  are not among the deleted records (none where the root page has \<open>deleteAll\<close>) and the inserted ones,
  each as often as the tables hold it. The btree below is any that has the laws of \<open>merge_scan\<close>.
\<close>

theorem FirstAll_scan:
  assumes "merge_scan ops Next rest lt ok good usable tree" "transBtreeCursorIsUsed C"
    and "usable (pCur C)" "usable (pCurIns C)" "usable (pCurDel C)"
  shows "\<exists>ks. scanFrom ops Next (sqlite3BtreeFirstAll ops deleteAll C) = Some ks \<and>
    mset ks = mset (if deleteAll then [] else filter (\<lambda>k. k \<notin> set (tree (pCurDel C))) (tree (pCur C))) + mset (tree (pCurIns C)) \<and>
    sorted_wrt (\<lambda>a b. \<not> lt b a) ks"
  using merge_scan.scan_first [OF assms(1) refl assms(2-5), of deleteAll]
  by (simp add: merge_scan.live_def [OF assms(1)])

text \<open>
  C9. A backward scan, \<open>sqlite3BtreeLastAll\<close> followed by \<open>sqlite3BtreeAdvanceAll\<close> with \<open>sqlite3BtreePrevious\<close>,
  visits the same keys in the opposite order.
\<close>

theorem LastAll_scan:
  assumes "merge_scan ops Previous rest lt ok good usable tree" "transBtreeCursorIsUsed C"
    and "usable (pCur C)" "usable (pCurIns C)" "usable (pCurDel C)"
  shows "\<exists>ks. scanFrom ops Previous (sqlite3BtreeLastAll ops deleteAll C) = Some ks \<and>
    mset ks = mset (if deleteAll then [] else filter (\<lambda>k. k \<notin> set (tree (pCurDel C))) (tree (pCur C))) + mset (tree (pCurIns C)) \<and>
    sorted_wrt (\<lambda>a b. \<not> lt b a) ks"
  using merge_scan.scan_last [OF assms(1) refl assms(2-5), of deleteAll]
  by (simp add: merge_scan.live_def [OF assms(1)])

definition exampleCursor :: "ListCur BtCursorT" where
  "exampleCursor = \<lparr> pCur = \<lparr> lcKeys = [1, 3, 5, 9], lcAt = 0, lcState = CURSOR_INVALID \<rparr>,
     pCurIns = \<lparr> lcKeys = [3, 4, 12], lcAt = 0, lcState = CURSOR_INVALID \<rparr>,
     pCurDel = \<lparr> lcKeys = [3, 5], lcAt = 0, lcState = CURSOR_INVALID \<rparr>,
     stateT = CURSOR_USE_SHARED, typeT = 0, hasKeyInfo = False \<rparr>"

theorem FirstAll_scan_witness:
  "\<exists>ks. scanFrom listOps Next (sqlite3BtreeFirstAll listOps False exampleCursor) = Some ks \<and>
    mset ks = {#IntKey 3, IntKey 4, IntKey 12, IntKey 1, IntKey 9#} \<and> sorted_wrt (\<lambda>a b. \<not> keyOrd Next b a) ks"
proof -
  have "transBtreeCursorIsUsed exampleCursor" "lcUsable (pCur exampleCursor)" "lcUsable (pCurIns exampleCursor)" "lcUsable (pCurDel exampleCursor)"
    by (simp_all add: exampleCursor_def transBtreeCursorIsUsed_def lcUsable_def)
  from FirstAll_scan [OF lc.merge_scan_axioms this, of False] show ?thesis
    by (simp add: exampleCursor_def lcTree_def)
qed

theorem LastAll_scan_witness:
  "\<exists>ks. scanFrom listOps Previous (sqlite3BtreeLastAll listOps True exampleCursor) = Some ks \<and>
    mset ks = {#IntKey 3, IntKey 4, IntKey 12#} \<and> sorted_wrt (\<lambda>a b. \<not> keyOrd Previous b a) ks"
proof -
  have "transBtreeCursorIsUsed exampleCursor" "lcUsable (pCur exampleCursor)" "lcUsable (pCurIns exampleCursor)" "lcUsable (pCurDel exampleCursor)"
    by (simp_all add: exampleCursor_def transBtreeCursorIsUsed_def lcUsable_def)
  from LastAll_scan [OF lc.merge_scan_axioms this, of True] show ?thesis
    by (simp add: exampleCursor_def lcTree_def)
qed

declare seekToExistLoop.simps [code] advanceCorrect.simps [code] scanLoop.simps [code]

definition wideCursor :: "ListCur BtCursorT" where
  "wideCursor = exampleCursor\<lparr>pCur := \<lparr> lcKeys = [2 ^ 63 - 1], lcAt = 0, lcState = CURSOR_INVALID \<rparr>,
     pCurIns := \<lparr> lcKeys = [- 1], lcAt = 0, lcState = CURSOR_INVALID \<rparr>,
     pCurDel := \<lparr> lcKeys = [], lcAt = 0, lcState = CURSOR_INVALID \<rparr>\<rparr>"

text \<open>
  The bound on the rowids is needed: the difference of the rowids \<open>2^63 - 1\<close> of the shared table and
  \<open>-1\<close> of the inserted records wraps to a negative number, and the forward scan returns the largest
  rowid before \<open>-1\<close>.
\<close>

lemma scan_overflow:
  "scanFrom listOps Next (sqlite3BtreeFirstAll listOps False wideCursor) = Some [IntKey (2 ^ 63 - 1), IntKey (- 1)]"
  by code_simp

end
