(* ===== verification/Trans_Btree.thy ===== *)
theory Trans_Btree
  imports Savepoint Cached_Rowid Trans_Cursor "HOL-Library.AList"
begin

text \<open>
  The transaction btree of \<open>rowlock.c\<close>: a transaction collects the records it inserts and deletes in two
  tables of its own, under locks on the rows and index keys, and its commit writes them
  into the shared table.

  A cursor value stands for the table it is open on together with its position; every table is
  accessed through one cursor here. The functions of SQLite's own btree are the record
  \<open>EditOps\<close>, and the locale \<open>table_edit\<close> states what is relied on of them.
\<close>

section \<open>Data\<close>

record BtreePayload =
  pKeyX :: "blob option"
  nKeyX :: i64
  pDataX :: blob

record 'c EditOps =
  eFirst :: "'c \<Rightarrow> rc \<times> int \<times> 'c"
  eNext :: "'c \<Rightarrow> rc \<times> 'c"
  eIntegerKey :: "'c \<Rightarrow> i64"
  eReallocOk :: "'c \<Rightarrow> bool"
  ePayload :: "'c \<Rightarrow> rc + blob"
  eMoveto :: "blob option \<Rightarrow> i64 \<Rightarrow> 'c \<Rightarrow> rc \<times> int \<times> 'c"
  eMovetoUnpacked :: "blob option \<Rightarrow> i64 \<Rightarrow> 'c \<Rightarrow> rc \<times> int \<times> 'c"
  eUnpackOk :: "blob \<Rightarrow> bool"
  eNField :: "blob \<Rightarrow> nat"
  eInsert :: "BtreePayload \<Rightarrow> nat \<Rightarrow> int \<Rightarrow> 'c \<Rightarrow> rc \<times> 'c"
  eDelete :: "nat \<Rightarrow> 'c \<Rightarrow> rc \<times> 'c"
  eClear :: "'c \<Rightarrow> rc \<times> 'c"
  eCount :: "'c \<Rightarrow> rc + i64"
  eMultiple :: "'c \<Rightarrow> bool"
  eSaveAll :: "'c \<Rightarrow> rc \<times> 'c"

text \<open>The results of the allocations of one call: of the history, and of a new index key.\<close>

record Alloc =
  aHistOk :: bool
  aSpOk :: bool
  aGrowOk :: bool
  aCopyOk :: bool
  aJunk :: "nat \<Rightarrow> RowLockHistory"
  aPsmNew :: addr
  aPsmElem :: addr
  aPsmKeyOk :: bool
  aPsmHtOk :: bool

text \<open>The fields of the shared cursor besides its position: root page, first collation, \<open>autoRowid\<close>.\<close>

record CurInfo =
  pgnoRoot :: int
  aColl0 :: addr
  autoRowid :: u8

abbreviation (input) "TABLE_NORMAL \<equiv> (0 :: u8)"
abbreviation (input) "TABLE_SEQUENCE \<equiv> (1 :: u8)"
abbreviation (input) "INDEX_NORMAL \<equiv> (2 :: u8)"
abbreviation (input) "INDEX_UNIQUE \<equiv> (3 :: u8)"
abbreviation (input) "OPFLAG_SAVEPOSITION \<equiv> (2 :: nat)"
abbreviation (input) "BTREE_AUXDELETE \<equiv> (4 :: nat)"
abbreviation (input) "OPFLAG_APPEND \<equiv> (8 :: nat)"

definition rowlockIsSequenceTable :: "'c BtCursorT \<Rightarrow> bool" where
  "rowlockIsSequenceTable C \<longleftrightarrow> typeT C = TABLE_SEQUENCE"

definition rowlockIsUniqueIndex :: "'c BtCursorT \<Rightarrow> bool" where
  "rowlockIsUniqueIndex C \<longleftrightarrow> typeT C = INDEX_UNIQUE"

definition cachedRowidFlagGet :: "CurInfo \<Rightarrow> u8" where
  "cachedRowidFlagGet I = autoRowid I"

section \<open>Reading and seeking\<close>

definition btreePayloadWithMalloc :: "'c EditOps \<Rightarrow> 'c \<Rightarrow> rc + blob" where
  "btreePayloadWithMalloc ops c = (if \<not> eReallocOk ops c then Inl SQLITE_NOMEM else ePayload ops c)"

text \<open>Only the key columns of an index record are compared.\<close>

definition btreeCursorMovetoKey :: "'c EditOps \<Rightarrow> bool \<Rightarrow> blob option \<Rightarrow> i64 \<Rightarrow> 'c \<Rightarrow> rc \<times> int \<times> 'c" where
  "btreeCursorMovetoKey ops isIdx pKey nKey c =
     (case (if isIdx then pKey else None) of
        None \<Rightarrow> eMovetoUnpacked ops None nKey c
      | Some b \<Rightarrow>
          if \<not> eUnpackOk ops b then (SQLITE_NOMEM, 0, c)
          else if eNField ops b = 0 then (SQLITE_CORRUPT, 0, c)
          else eMovetoUnpacked ops (Some b) nKey c)"

section \<open>Insert\<close>

text \<open>Whether the record exists in the shared table or in the table of inserted records: \<open>isUpdate\<close>, \<open>isTransUpdate\<close>, \<open>btFlags\<close>.\<close>

definition insertDetect ::
  "'c EditOps \<Rightarrow> BtreePayload \<Rightarrow> nat \<Rightarrow> int \<Rightarrow> 'c BtCursorT \<Rightarrow> rc \<times> bool \<times> bool \<times> nat \<times> 'c BtCursorT" where
  "insertDetect ops X flags seekResult C =
     (if odd (flags div OPFLAG_APPEND) \<or> seekResult \<noteq> 0 then (SQLITE_OK, False, False, flags, C)
      else
        let (rc1, res1, c) = (if cursorSharedIsUsed C then btreeCursorMovetoKey ops (hasKeyInfo C) (pKeyX X) (nKeyX X) (pCur C)
                              else (SQLITE_OK, 1, pCur C));
            C1 = C\<lparr>pCur := c\<rparr>
        in if rc1 \<noteq> SQLITE_OK then (rc1, False, False, flags, C1)
           else let isUpdate = (cursorSharedIsUsed C \<and> res1 = 0);
                    (rc2, res2, ci) = (if cursorTransIsUsed C then btreeCursorMovetoKey ops (hasKeyInfo C) (pKeyX X) (nKeyX X) (pCurIns C)
                                       else (SQLITE_OK, 1, pCurIns C));
                    C2 = C1\<lparr>pCurIns := ci\<rparr>
                in if rc2 \<noteq> SQLITE_OK then (rc2, isUpdate, False, flags, C2)
                   else (SQLITE_OK, isUpdate, cursorTransIsUsed C \<and> res2 = 0,
                         if cursorSharedIsUsed C \<or> cursorTransIsUsed C then OPFLAG_APPEND else flags, C2))"

text \<open>The lock of a unique index key, and its entry in the history.\<close>

definition lockIndexAndAddHistory ::
  "Caller \<Rightarrow> Alloc \<Rightarrow> CurInfo \<Rightarrow> RowLockSavepoint \<Rightarrow> LockWorld \<Rightarrow> blob \<Rightarrow> (rc \<times> RowLockSavepoint \<times> LockWorld) option" where
  "lockIndexAndAddHistory me A I S W key =
     Option.bind (sqlite3rowlockPsmLockRecord (collation me (aColl0 I)) (psmArea W) (myPid me) (pgnoRoot I) key (myOwner me)
         (aPsmNew A) (aPsmElem A) (aPsmKeyOk A) (aPsmHtOk A)) (\<lambda>(rc, M).
       let W' = W\<lparr>psmArea := M\<rparr> in
       if rc = SQLITE_LOCKED then Some (SQLITE_CONSTRAINT, S, W')
       else if rc = SQLITE_OK then
         (let (rc', S') = sqlite3rowlockHistoryAddIndex (aHistOk A) (aSpOk A) (aGrowOk A) (aCopyOk A) (aJunk A) S
                            (pgnoRoot I) (int (length key)) key (aColl0 I)
          in Some (rc', S', W'))
       else if rc = SQLITE_DONE then Some (SQLITE_OK, S, W')
       else Some (rc, S, W'))"

definition insertLock ::
  "Caller \<Rightarrow> Alloc \<Rightarrow> CurInfo \<Rightarrow> BtreePayload \<Rightarrow> 'c BtCursorT \<Rightarrow> RowLockSavepoint \<Rightarrow> LockWorld \<Rightarrow>
   (rc \<times> RowLockSavepoint \<times> LockWorld) option" where
  "insertLock me A I X C S W =
     (if hasKeyInfo C then
        (if rowlockIsUniqueIndex C then lockIndexAndAddHistory me A I S W (case pKeyX X of None \<Rightarrow> [] | Some b \<Rightarrow> b)
         else Some (SQLITE_OK, S, W))
      else if \<not> rowlockIsSequenceTable C then
        map_option (\<lambda>(rc, S', W').
            (if rc = SQLITE_LOCKED \<and> cachedRowidFlagGet I = 1 then SQLITE_CORRUPT_ROWID else rc, S', W'))
          (lockRecordAndAddHistory me (aHistOk A) (aSpOk A) (aGrowOk A) (aJunk A) S W (pgnoRoot I) (nKeyX X))
      else Some (SQLITE_OK, S, W))"

text \<open>The writes into the two tables of the transaction.\<close>

definition insertStore ::
  "'c EditOps \<Rightarrow> BtreePayload \<Rightarrow> bool \<Rightarrow> bool \<Rightarrow> nat \<Rightarrow> 'c BtCursorT \<Rightarrow> rc \<times> 'c BtCursorT" where
  "insertStore ops X isUpdate isTransUpdate btFlags C =
     (let (rc1, cd1) = (if isUpdate then eInsert ops X 0 0 (pCurDel C) else (SQLITE_OK, pCurDel C)); C1 = C\<lparr>pCurDel := cd1\<rparr> in
      if rc1 \<noteq> SQLITE_OK then (rc1, C1)
      else let (rc2, r2, cd2) = (if isUpdate then eMoveto ops (pKeyX X) (nKeyX X) cd1 else (SQLITE_OK, 0, cd1)); C2 = C1\<lparr>pCurDel := cd2\<rparr> in
      if rc2 \<noteq> SQLITE_OK then (rc2, C2)
      else let (rc3, ci3) = eInsert ops X btFlags 0 (pCurIns C2); C3 = C2\<lparr>pCurIns := ci3\<rparr> in
      if rc3 \<noteq> SQLITE_OK then (rc3, C3)
      else let (rc4, r4, ci4) = eMoveto ops (pKeyX X) (nKeyX X) ci3; C4 = C3\<lparr>pCurIns := ci4\<rparr> in
      if rc4 \<noteq> SQLITE_OK then (rc4, C4)
      else let (rc5, r5, c5) = (if \<not> isUpdate \<and> \<not> isTransUpdate then eMoveto ops (pKeyX X) (nKeyX X) (pCur C4) else (SQLITE_OK, 0, pCur C4));
               C5 = C4\<lparr>pCur := c5\<rparr> in
      if rc5 \<noteq> SQLITE_OK then (rc5, C5)
      else (SQLITE_OK, C5\<lparr>stateT := (if isTransUpdate then CURSOR_USE_TRANS else 3)\<rparr>))"

text \<open>A cursor without transaction cursors writes into its table directly.\<close>

definition sqlite3TransBtreeInsert ::
  "Caller \<Rightarrow> Alloc \<Rightarrow> 'c EditOps \<Rightarrow> CurInfo \<Rightarrow> BtreePayload \<Rightarrow> nat \<Rightarrow> int \<Rightarrow> 'c BtCursorT \<Rightarrow> RowLockSavepoint \<Rightarrow> LockWorld \<Rightarrow>
   (rc \<times> 'c BtCursorT \<times> RowLockSavepoint \<times> LockWorld) option" where
  "sqlite3TransBtreeInsert me A ops I X flags seekResult C S W =
     (if \<not> transBtreeCursorIsUsed C then (let (rc, c) = eInsert ops X flags seekResult (pCur C) in Some (rc, C\<lparr>pCur := c\<rparr>, S, W))
      else
        let (rc0, c0) = (if eMultiple ops (pCur C) then eSaveAll ops (pCur C) else (SQLITE_OK, pCur C)); C0 = C\<lparr>pCur := c0\<rparr> in
        if rc0 \<noteq> SQLITE_OK then Some (rc0, C0, S, W)
        else let (rc1, isUpdate, isTransUpdate, btFlags, C1) = insertDetect ops X flags seekResult C0 in
          if rc1 \<noteq> SQLITE_OK then Some (rc1, C1, S, W)
          else Option.bind (insertLock me A I X C1 S W) (\<lambda>(rc2, S', W').
            if rc2 \<noteq> SQLITE_OK then Some (rc2, C1, S', W')
            else let (rc3, C3) = insertStore ops X isUpdate isTransUpdate btFlags C1 in Some (rc3, C3, S', W')))"

section \<open>Delete\<close>

text \<open>The record of the transaction itself: it is removed, and its lock with it unless it replaces a shared record.\<close>

definition deleteTrans ::
  "Caller \<Rightarrow> 'c EditOps \<Rightarrow> CurInfo \<Rightarrow> nat \<Rightarrow> 'c BtCursorT \<Rightarrow> RowLockSavepoint \<Rightarrow> LockWorld \<Rightarrow>
   (rc \<times> 'c BtCursorT \<times> RowLockSavepoint \<times> LockWorld) option" where
  "deleteTrans me ops I flags C S W =
     (if hasKeyInfo C \<and> rowlockIsUniqueIndex C then
        (case btreePayloadWithMalloc ops (pCurIns C) of
           Inl rc \<Rightarrow> Some (rc, C, S, W)
         | Inr key \<Rightarrow>
             Option.bind (sqlite3rowlockPsmUnlockRecord (collation me (aColl0 I)) (psmArea W) (pgnoRoot I) key) (\<lambda>M.
               let (rc, ci) = eDelete ops flags (pCurIns C) in Some (rc, C\<lparr>pCurIns := ci\<rparr>, S, W\<lparr>psmArea := M\<rparr>)))
      else
        let nKey = eIntegerKey ops (pCurIns C);
            (rc1, resDel, cd) = eMovetoUnpacked ops None nKey (pCurDel C);
            C1 = C\<lparr>pCurDel := cd\<rparr>
        in if rc1 \<noteq> SQLITE_OK then Some (rc1, C1, S, W)
           else Option.bind (if resDel \<noteq> 0 then map_option (\<lambda>m. W\<lparr>rowArea := m\<rparr>) (sqlite3rowlockIpcUnlockRecord (rowArea W) (pgnoRoot I) nKey)
                             else Some W) (\<lambda>W'.
             let (rc, ci) = eDelete ops flags (pCurIns C1) in Some (rc, C1\<lparr>pCurIns := ci\<rparr>, S, W')))"

text \<open>The lock of the shared record that is deleted: result, key.\<close>

definition deleteLock ::
  "Caller \<Rightarrow> Alloc \<Rightarrow> 'c EditOps \<Rightarrow> CurInfo \<Rightarrow> 'c BtCursorT \<Rightarrow> RowLockSavepoint \<Rightarrow> LockWorld \<Rightarrow>
   (rc \<times> blob option \<times> i64 \<times> RowLockSavepoint \<times> LockWorld) option" where
  "deleteLock me A ops I C S W =
     (if hasKeyInfo C then
        (case btreePayloadWithMalloc ops (pCur C) of
           Inl rc \<Rightarrow> Some (rc, None, 0, S, W)
         | Inr key \<Rightarrow>
             map_option (\<lambda>(rc, S', W'). (rc, Some key, int (length key), S', W'))
               (if rowlockIsUniqueIndex C then lockIndexAndAddHistory me A I S W key else Some (SQLITE_OK, S, W)))
      else
        let nKey = eIntegerKey ops (pCur C) in
        map_option (\<lambda>(rc, S', W'). (rc, None, nKey, S', W'))
          (lockRecordAndAddHistory me (aHistOk A) (aSpOk A) (aGrowOk A) (aJunk A) S W (pgnoRoot I) nKey))"

definition sqlite3TransBtreeDelete ::
  "Caller \<Rightarrow> Alloc \<Rightarrow> 'c EditOps \<Rightarrow> CurInfo \<Rightarrow> nat \<Rightarrow> 'c BtCursorT \<Rightarrow> RowLockSavepoint \<Rightarrow> LockWorld \<Rightarrow>
   (rc \<times> 'c BtCursorT \<times> RowLockSavepoint \<times> LockWorld) option" where
  "sqlite3TransBtreeDelete me A ops I flags C S W =
     (if \<not> transBtreeCursorIsUsed C then (let (rc, c) = eDelete ops flags (pCur C) in Some (rc, C\<lparr>pCur := c\<rparr>, S, W))
      else
        let (rc0, c0) = (if eMultiple ops (pCur C) then eSaveAll ops (pCur C) else (SQLITE_OK, pCur C)); C0 = C\<lparr>pCur := c0\<rparr> in
        if rc0 \<noteq> SQLITE_OK then Some (rc0, C0, S, W)
        else if cursorTransIsUsed C0 then deleteTrans me ops I flags C0 S W
        else Option.bind (deleteLock me A ops I C0 S W) (\<lambda>(rc1, pKey, nKey, S', W').
          if rc1 \<noteq> SQLITE_OK then Some (rc1, C0, S', W')
          else let (rc2, cd) = eInsert ops \<lparr>pKeyX = pKey, nKeyX = nKey, pDataX = []\<rparr> OPFLAG_APPEND 0 (pCurDel C0)
               in Some (rc2, C0\<lparr>pCurDel := cd\<rparr>, S', W')))"

section \<open>Commit of one table\<close>

text \<open>The record a cursor is at, as the commit writes it.\<close>

definition recordAt :: "'c EditOps \<Rightarrow> bool \<Rightarrow> 'c \<Rightarrow> rc + BtreePayload" where
  "recordAt ops isIdx c =
     (case btreePayloadWithMalloc ops c of
        Inl rc \<Rightarrow> Inl rc
      | Inr buff \<Rightarrow> Inr (if isIdx then \<lparr>pKeyX = Some buff, nKeyX = int (length buff), pDataX = []\<rparr>
                       else \<lparr>pKeyX = None, nKeyX = eIntegerKey ops c, pDataX = buff\<rparr>))"

partial_function (option) commitInsertLoop :: "'c EditOps \<Rightarrow> bool \<Rightarrow> 'c \<Rightarrow> 'c \<Rightarrow> (rc \<times> 'c \<times> 'c) option" where
  "commitInsertLoop ops isIdx c ci =
     (case recordAt ops isIdx ci of
        Inl rc \<Rightarrow> Some (rc, c, ci)
      | Inr X \<Rightarrow>
          (let (rc1, res, c1) = eMoveto ops (pKeyX X) (nKeyX X) c in
           if rc1 \<noteq> SQLITE_OK then Some (rc1, c1, ci)
           else let (rc2, c2) = eInsert ops X (if res = 0 then OPFLAG_SAVEPOSITION else OPFLAG_APPEND) 0 c1 in
           if rc2 \<noteq> SQLITE_OK then Some (rc2, c2, ci)
           else let (rc3, ci') = eNext ops ci in
           if rc3 = SQLITE_OK then commitInsertLoop ops isIdx c2 ci'
           else if rc3 = SQLITE_DONE then Some (SQLITE_OK, c2, ci')
           else Some (rc3, c2, ci')))"

definition transBtreeCommitTableInsert :: "'c EditOps \<Rightarrow> bool \<Rightarrow> 'c \<Rightarrow> 'c \<Rightarrow> (rc \<times> 'c \<times> 'c) option" where
  "transBtreeCommitTableInsert ops isIdx c ci =
     (let (rc, res, ci1) = eFirst ops ci in
      if rc \<noteq> SQLITE_OK then Some (rc, c, ci1)
      else if res = 0 then commitInsertLoop ops isIdx c ci1
      else Some (SQLITE_OK, c, ci1))"

text \<open>The key of the record a cursor is at.\<close>

definition keyAt :: "'c EditOps \<Rightarrow> bool \<Rightarrow> 'c \<Rightarrow> rc + blob option \<times> i64" where
  "keyAt ops isIdx c =
     (if isIdx then (case btreePayloadWithMalloc ops c of Inl rc \<Rightarrow> Inl rc | Inr b \<Rightarrow> Inr (Some b, int (length b)))
      else Inr (None, eIntegerKey ops c))"

partial_function (option) commitDeleteLoop :: "'c EditOps \<Rightarrow> bool \<Rightarrow> 'c \<Rightarrow> 'c \<Rightarrow> (rc \<times> 'c \<times> 'c) option" where
  "commitDeleteLoop ops isIdx c cd =
     (case keyAt ops isIdx cd of
        Inl rc \<Rightarrow> Some (rc, c, cd)
      | Inr (pKey, nKey) \<Rightarrow>
          (let (rc1, res, c1) = btreeCursorMovetoKey ops isIdx pKey nKey c in
           if rc1 \<noteq> SQLITE_OK then Some (rc1, c1, cd)
           else let (rc2, c2) = eDelete ops BTREE_AUXDELETE c1 in
           if rc2 \<noteq> SQLITE_OK then Some (rc2, c2, cd)
           else let (rc3, cd') = eNext ops cd in
           if rc3 = SQLITE_OK then commitDeleteLoop ops isIdx c2 cd'
           else if rc3 = SQLITE_DONE then Some (SQLITE_OK, c2, cd')
           else Some (rc3, c2, cd')))"

definition transBtreeCommitTableDelete :: "'c EditOps \<Rightarrow> bool \<Rightarrow> TransRootPage \<Rightarrow> 'c \<Rightarrow> 'c \<Rightarrow> (rc \<times> 'c \<times> 'c) option" where
  "transBtreeCommitTableDelete ops isIdx root c cd =
     (if deleteAll root \<noteq> 0 then (let (rc, c') = eClear ops c in Some (rc, c', cd))
      else if iDel root = 0 then Some (SQLITE_OK, c, cd)
      else let (rc, res, cd1) = eFirst ops cd in
        if rc \<noteq> SQLITE_OK then Some (rc, c, cd1)
        else if res = 0 then commitDeleteLoop ops isIdx c cd1
        else Some (SQLITE_OK, c, cd1))"

text \<open>The body of the loop of \<open>sqlite3TransBtreeCommit\<close>: deletions first, then insertions.\<close>

definition commitTable :: "'c EditOps \<Rightarrow> bool \<Rightarrow> TransRootPage \<Rightarrow> 'c BtCursorT \<Rightarrow> (rc \<times> 'c BtCursorT) option" where
  "commitTable ops isIdx root C =
     Option.bind (transBtreeCommitTableDelete ops isIdx root (pCur C) (pCurDel C)) (\<lambda>(rc, c, cd).
       let C1 = C\<lparr>pCur := c, pCurDel := cd\<rparr> in
       if rc \<noteq> SQLITE_OK then Some (rc, C1)
       else Option.bind (transBtreeCommitTableInsert ops isIdx (pCur C1) (pCurIns C1)) (\<lambda>(rc', c', ci).
         Some (rc', C1\<lparr>pCur := c', pCurIns := ci\<rparr>)))"

section \<open>What the transaction relies on\<close>

text \<open>
  A table is a map from key columns to records; \<open>at\<close> is the key a cursor is positioned at, \<open>todo\<close> the
  records from its position to the end of the table. \<open>eMoveto\<close> (\<open>btreeMoveto\<close>) compares a whole index record where
  \<open>btreeCursorMovetoKey\<close> compares its key columns, so it may miss a record with the same key columns but finds none without.
  The law of \<open>eInsert\<close> is for the call with \<open>seekResult\<close> 0, the only one made on a cursor of a transaction. On a table with rowids
  it looks for the rowid itself. On an index \<open>BTREE_SAVEPOSITION\<close> means that the cursor is already on the record to be
  replaced, and is not checked; without it a record with the same key columns is not promised to be replaced.
\<close>

locale table_edit =
  fixes ops :: "'c EditOps" and isIdx :: bool and good :: "'c \<Rightarrow> bool" and tab :: "'c \<Rightarrow> 'k \<rightharpoonup> 'v"
    and at :: "'c \<Rightarrow> 'k" and todo :: "'c \<Rightarrow> BtreePayload list"
    and kcol :: "blob option \<Rightarrow> i64 \<Rightarrow> 'k" and recv :: "BtreePayload \<Rightarrow> 'v"
  assumes first_ok: "good c \<Longrightarrow> \<exists>c'. eFirst ops c = (SQLITE_OK, if todo c' = [] then 1 else 0, c') \<and> good c' \<and> tab c' = tab c \<and>
      map_of (map (\<lambda>X. (kcol (pKeyX X) (nKeyX X), recv X)) (todo c')) = tab c \<and> distinct (map (\<lambda>X. kcol (pKeyX X) (nKeyX X)) (todo c'))"
    and next_ok: "good c \<Longrightarrow> todo c = X # Xs \<Longrightarrow>
      \<exists>c'. eNext ops c = (if Xs = [] then SQLITE_DONE else SQLITE_OK, c') \<and> good c' \<and> tab c' = tab c \<and> todo c' = Xs"
    and record_ok: "good c \<Longrightarrow> todo c = X # Xs \<Longrightarrow> recordAt ops isIdx c = Inr X"
    and moveto_ok: "good c \<Longrightarrow> \<exists>r c'. eMoveto ops p n c = (SQLITE_OK, r, c') \<and> good c' \<and> tab c' = tab c \<and>
      (r = 0 \<longrightarrow> kcol p n \<in> dom (tab c) \<and> at c' = kcol p n)"
    and movetoKey_ok: "good c \<Longrightarrow> \<exists>r c'. btreeCursorMovetoKey ops isIdx p n c = (SQLITE_OK, r, c') \<and> good c' \<and> tab c' = tab c \<and>
      (r = 0 \<longleftrightarrow> kcol p n \<in> dom (tab c)) \<and> (r = 0 \<longrightarrow> at c' = kcol p n)"
    and insert_ok: "good c \<Longrightarrow>
      (isIdx \<Longrightarrow> if odd (f div OPFLAG_SAVEPOSITION) then at c = kcol (pKeyX X) (nKeyX X) \<and> at c \<in> dom (tab c) else kcol (pKeyX X) (nKeyX X) \<notin> dom (tab c)) \<Longrightarrow>
      \<exists>c'. eInsert ops X f 0 c = (SQLITE_OK, c') \<and> good c' \<and> tab c' = (tab c)(kcol (pKeyX X) (nKeyX X) \<mapsto> recv X)"
    and delete_ok: "good c \<Longrightarrow> at c \<in> dom (tab c) \<Longrightarrow> \<exists>c'. eDelete ops f c = (SQLITE_OK, c') \<and> good c' \<and> tab c' = (tab c)(at c := None)"
    and clear_ok: "good c \<Longrightarrow> \<exists>c'. eClear ops c = (SQLITE_OK, c') \<and> good c' \<and> tab c' = Map.empty"
begin

abbreviation kx :: "BtreePayload \<Rightarrow> 'k" where
  "kx X \<equiv> kcol (pKeyX X) (nKeyX X)"

lemma key_ok: "good c \<Longrightarrow> todo c = X # Xs \<Longrightarrow> keyAt ops isIdx c = Inr (pKeyX X, nKeyX X)"
  using record_ok [of c X Xs] by (auto simp: recordAt_def keyAt_def split: sum.splits if_splits)

text \<open>One iteration of the two loops.\<close>

lemma insert_step:
  assumes "good c" "good ci" "todo ci = X # Xs" "isIdx \<longrightarrow> kx X \<notin> dom (tab c)"
  obtains c2 ci1 where "good c2" "tab c2 = (tab c)(kx X \<mapsto> recv X)" "good ci1" "tab ci1 = tab ci" "todo ci1 = Xs"
    "commitInsertLoop ops isIdx c ci = (if Xs = [] then Some (SQLITE_OK, c2, ci1) else commitInsertLoop ops isIdx c2 ci1)"
proof -
  obtain r c1 where c1: "eMoveto ops (pKeyX X) (nKeyX X) c = (SQLITE_OK, r, c1)" "good c1" "tab c1 = tab c"
      "r = 0 \<longrightarrow> kx X \<in> dom (tab c) \<and> at c1 = kx X"
    using moveto_ok [OF assms(1)] by blast
  define f where "f = (if r = 0 then OPFLAG_SAVEPOSITION else OPFLAG_APPEND)"
  have pos: "if odd (f div OPFLAG_SAVEPOSITION) then at c1 = kx X \<and> at c1 \<in> dom (tab c1) else kx X \<notin> dom (tab c1)" if isIdx
    using that c1(3,4) assms(4) by (auto simp: f_def)
  obtain c2 where c2: "eInsert ops X f 0 c1 = (SQLITE_OK, c2)" "good c2" "tab c2 = (tab c1)(kx X \<mapsto> recv X)"
    using insert_ok [OF c1(2) pos] by blast
  obtain ci1 where ci1: "eNext ops ci = (if Xs = [] then SQLITE_DONE else SQLITE_OK, ci1)" "good ci1" "tab ci1 = tab ci" "todo ci1 = Xs"
    using next_ok [OF assms(2,3)] by blast
  have "commitInsertLoop ops isIdx c ci = (if Xs = [] then Some (SQLITE_OK, c2, ci1) else commitInsertLoop ops isIdx c2 ci1)"
    using c1(1) c2(1) [unfolded f_def] ci1(1) record_ok [OF assms(2,3)] by (subst commitInsertLoop.simps) simp
  with c1(3) c2(2,3) ci1(2-4) show thesis by (intro that) simp_all
qed

lemma delete_step:
  assumes "good c" "good cd" "todo cd = X # Xs" "kx X \<in> dom (tab c)"
  obtains c2 cd1 where "good c2" "tab c2 = (tab c)(kx X := None)" "good cd1" "tab cd1 = tab cd" "todo cd1 = Xs"
    "commitDeleteLoop ops isIdx c cd = (if Xs = [] then Some (SQLITE_OK, c2, cd1) else commitDeleteLoop ops isIdx c2 cd1)"
proof -
  obtain r c1 where c1: "btreeCursorMovetoKey ops isIdx (pKeyX X) (nKeyX X) c = (SQLITE_OK, r, c1)" "good c1" "tab c1 = tab c" "at c1 = kx X"
    using movetoKey_ok [OF assms(1)] assms(4) by metis
  obtain c2 where c2: "eDelete ops BTREE_AUXDELETE c1 = (SQLITE_OK, c2)" "good c2" "tab c2 = (tab c1)(kx X := None)"
    using delete_ok [OF c1(2)] assms(4) c1(3,4) by metis
  obtain cd1 where cd1: "eNext ops cd = (if Xs = [] then SQLITE_DONE else SQLITE_OK, cd1)" "good cd1" "tab cd1 = tab cd" "todo cd1 = Xs"
    using next_ok [OF assms(2,3)] by blast
  have "commitDeleteLoop ops isIdx c cd = (if Xs = [] then Some (SQLITE_OK, c2, cd1) else commitDeleteLoop ops isIdx c2 cd1)"
    using c1(1) c2(1) cd1(1) key_ok [OF assms(2,3)] by (subst commitDeleteLoop.simps) simp
  with c1(3) c2(2,3) cd1(2-4) show thesis by (intro that) simp_all
qed

lemma map_add_first:
  assumes "k \<notin> fst ` set xs"
  shows "m(k \<mapsto> v) ++ map_of xs = m ++ map_of ((k, v) # xs)"
  using assms by (auto simp: map_add_def fun_eq_iff map_of_eq_None_iff [symmetric] split: option.splits)

abbreviation entries :: "BtreePayload list \<Rightarrow> 'k \<rightharpoonup> 'v" where
  "entries Xs \<equiv> map_of (map (\<lambda>X. (kx X, recv X)) Xs)"

lemma insert_loop:
  assumes "good c" "good ci" "todo ci = X # Xs" "distinct (map kx (X # Xs))" "isIdx \<longrightarrow> kx ` set (X # Xs) \<inter> dom (tab c) = {}"
  shows "\<exists>c' ci'. commitInsertLoop ops isIdx c ci = Some (SQLITE_OK, c', ci') \<and> good c' \<and> good ci' \<and> tab ci' = tab ci \<and>
    tab c' = tab c ++ entries (X # Xs)"
  using assms
proof (induction Xs arbitrary: X c ci)
  case Nil
  obtain c2 ci1 where s: "good c2" "tab c2 = (tab c)(kx X \<mapsto> recv X)" "good ci1" "tab ci1 = tab ci" "commitInsertLoop ops isIdx c ci = Some (SQLITE_OK, c2, ci1)"
    by (rule insert_step [OF Nil.prems(1-3)]) (use Nil.prems(5) in auto)
  have "tab c2 = tab c ++ entries [X]" using s(2) by (auto simp: map_add_def fun_eq_iff)
  with s(1,3-5) show ?case by blast
next
  case (Cons X' Xs)
  have d: "distinct (map kx (X' # Xs))" using Cons.prems(4) by simp
  obtain c2 ci1 where s: "good c2" "tab c2 = (tab c)(kx X \<mapsto> recv X)" "good ci1" "tab ci1 = tab ci" "todo ci1 = X' # Xs"
      "commitInsertLoop ops isIdx c ci = commitInsertLoop ops isIdx c2 ci1"
    by (rule insert_step [OF Cons.prems(1-3)]) (use Cons.prems(5) in auto)
  have new: "isIdx \<longrightarrow> kx ` set (X' # Xs) \<inter> dom (tab c2) = {}" using Cons.prems(4,5) unfolding s(2) by auto
  obtain c' ci' where r: "commitInsertLoop ops isIdx c2 ci1 = Some (SQLITE_OK, c', ci')" "good c'" "good ci'" "tab ci' = tab ci1"
      "tab c' = tab c2 ++ entries (X' # Xs)"
    using Cons.IH [OF s(1,3,5) d new] by (elim exE conjE) (rule that)
  have "tab c' = tab c ++ entries (X # X' # Xs)"
    unfolding r(5) s(2) using Cons.prems(4) map_add_first [of "kx X" "map (\<lambda>X. (kx X, recv X)) (X' # Xs)" "tab c" "recv X"]
    by (simp add: image_image)
  with r(1-4) s(4,6) show ?case by metis
qed

lemma delete_loop:
  assumes "good c" "good cd" "todo cd = X # Xs" "distinct (map kx (X # Xs))" "kx ` set (X # Xs) \<subseteq> dom (tab c)"
  shows "\<exists>c' cd'. commitDeleteLoop ops isIdx c cd = Some (SQLITE_OK, c', cd') \<and> good c' \<and> good cd' \<and> tab cd' = tab cd \<and>
    tab c' = tab c |` (- kx ` set (X # Xs))"
  using assms
proof (induction Xs arbitrary: X c cd)
  case Nil
  have dom: "kx X \<in> dom (tab c)" using Nil.prems(5) by simp
  obtain c2 cd1 where s: "good c2" "tab c2 = (tab c)(kx X := None)" "good cd1" "tab cd1 = tab cd" "commitDeleteLoop ops isIdx c cd = Some (SQLITE_OK, c2, cd1)"
    by (rule delete_step [OF Nil.prems(1-3) dom]) simp
  have "tab c2 = tab c |` (- kx ` set [X])" using s(2) by (auto simp: restrict_map_def fun_eq_iff)
  with s(1,3-5) show ?case by blast
next
  case (Cons X' Xs)
  have dom: "kx X \<in> dom (tab c)" using Cons.prems(5) by simp
  obtain c2 cd1 where s: "good c2" "tab c2 = (tab c)(kx X := None)" "good cd1" "tab cd1 = tab cd" "todo cd1 = X' # Xs"
      "commitDeleteLoop ops isIdx c cd = commitDeleteLoop ops isIdx c2 cd1"
    by (rule delete_step [OF Cons.prems(1-3) dom]) simp
  have d: "kx X \<notin> kx ` set (X' # Xs)" "distinct (map kx (X' # Xs))" using Cons.prems(4) by simp_all
  have "kx ` set (X' # Xs) \<subseteq> dom (tab c)" using Cons.prems(5) by auto
  then have "kx ` set (X' # Xs) \<subseteq> dom (tab c) - {kx X}" using d(1) by (simp only: subset_Diff_insert Diff_empty simp_thms)
  then have sub: "kx ` set (X' # Xs) \<subseteq> dom (tab c2)" using s(2) by simp
  obtain c' cd' where r: "commitDeleteLoop ops isIdx c2 cd1 = Some (SQLITE_OK, c', cd')" "good c'" "good cd'" "tab cd' = tab cd1"
      "tab c' = tab c2 |` (- kx ` set (X' # Xs))"
    using Cons.IH [OF s(1,3,5) d(2) sub] by (elim exE conjE) (rule that)
  have "tab c' = tab c |` (- kx ` set (X # X' # Xs))"
    unfolding r(5) s(2) by (auto simp: restrict_map_def fun_eq_iff)
  with r(1-4) s(4,6) show ?case by metis
qed

lemma commit_insert:
  assumes "good c" "good ci" "isIdx \<longrightarrow> dom (tab ci) \<inter> dom (tab c) = {}"
  shows "\<exists>c' ci'. transBtreeCommitTableInsert ops isIdx c ci = Some (SQLITE_OK, c', ci') \<and> good c' \<and> good ci' \<and> tab ci' = tab ci \<and>
    tab c' = tab c ++ tab ci"
proof -
  obtain ci1 where f: "eFirst ops ci = (SQLITE_OK, if todo ci1 = [] then 1 else 0, ci1)" "good ci1" "tab ci1 = tab ci"
    and e: "entries (todo ci1) = tab ci" "distinct (map kx (todo ci1))"
    using first_ok [OF assms(2)] by (elim exE conjE) (rule that)
  show ?thesis
  proof (cases "todo ci1")
    case Nil
    then show ?thesis using f e(1) [symmetric] assms(1) by (simp add: transBtreeCommitTableInsert_def)
  next
    case (Cons X Xs)
    have "dom (tab ci) = kx ` set (X # Xs)" using e(1) [symmetric] Cons by (simp add: dom_map_of_conv_image_fst image_image)
    then have new: "isIdx \<longrightarrow> kx ` set (X # Xs) \<inter> dom (tab c) = {}" using assms(3) by simp
    from insert_loop [OF assms(1) f(2) Cons e(2) [unfolded Cons] new] show ?thesis
      unfolding e(1) [unfolded Cons] using f(1,3) Cons by (simp add: transBtreeCommitTableInsert_def)
  qed
qed

lemma commit_delete:
  assumes "good c" "good cd" "dom (tab cd) \<subseteq> dom (tab c)" "iDel root = 0 \<longrightarrow> tab cd = Map.empty"
  shows "\<exists>c' cd'. transBtreeCommitTableDelete ops isIdx root c cd = Some (SQLITE_OK, c', cd') \<and> good c' \<and> good cd' \<and> tab cd' = tab cd \<and>
    tab c' = (if deleteAll root \<noteq> 0 then Map.empty else tab c |` (- dom (tab cd)))"
proof -
  obtain cd1 where f: "eFirst ops cd = (SQLITE_OK, if todo cd1 = [] then 1 else 0, cd1)" "good cd1" "tab cd1 = tab cd"
    and e: "entries (todo cd1) = tab cd" "distinct (map kx (todo cd1))"
    using first_ok [OF assms(2)] by (elim exE conjE) (rule that)
  obtain c0 where c0: "eClear ops c = (SQLITE_OK, c0)" "good c0" "tab c0 = Map.empty" using clear_ok [OF assms(1)] by blast
  have dm: "dom (tab cd) = kx ` set (todo cd1)" using e(1) [symmetric] by (simp add: dom_map_of_conv_image_fst image_image)
  consider (all) "deleteAll root \<noteq> 0" | (none) "deleteAll root = 0" "iDel root = 0" | (empty) "deleteAll root = 0" "iDel root \<noteq> 0" "todo cd1 = []"
    | (some) X Xs where "deleteAll root = 0" "iDel root \<noteq> 0" "todo cd1 = X # Xs" by (cases "todo cd1") auto
  then show ?thesis
  proof cases
    case some
    from delete_loop [OF assms(1) f(2) some(3) e(2) [unfolded some(3)]] show ?thesis
      unfolding dm [unfolded some(3), symmetric] using f(1,3) some assms(3) by (simp add: transBtreeCommitTableDelete_def)
  qed (use assms c0 f dm in \<open>simp_all add: transBtreeCommitTableDelete_def restrict_map_def\<close>)
qed

text \<open>What the transaction sees of the table.\<close>

definition view :: "bool \<Rightarrow> 'c BtCursorT \<Rightarrow> 'k \<rightharpoonup> 'v" where
  "view delAll C = (if delAll then Map.empty else tab (pCur C) |` (- dom (tab (pCurDel C)))) ++ tab (pCurIns C)"

definition goodT :: "'c BtCursorT \<Rightarrow> bool" where
  "goodT C \<longleftrightarrow> good (pCur C) \<and> good (pCurIns C) \<and> good (pCurDel C)"

lemma commit_table:
  assumes "goodT C" "dom (tab (pCurDel C)) \<subseteq> dom (tab (pCur C))" "iDel root = 0 \<longrightarrow> tab (pCurDel C) = Map.empty"
    "isIdx \<longrightarrow> deleteAll root = 0 \<longrightarrow> dom (tab (pCurIns C)) \<inter> dom (tab (pCur C)) \<subseteq> dom (tab (pCurDel C))"
  shows "\<exists>C'. commitTable ops isIdx root C = Some (SQLITE_OK, C') \<and> goodT C' \<and> tab (pCur C') = view (deleteAll root \<noteq> 0) C \<and>
    tab (pCurIns C') = tab (pCurIns C) \<and> tab (pCurDel C') = tab (pCurDel C)"
proof -
  have g: "good (pCur C)" "good (pCurIns C)" "good (pCurDel C)" using assms(1) by (simp_all add: goodT_def)
  obtain c cd where d: "transBtreeCommitTableDelete ops isIdx root (pCur C) (pCurDel C) = Some (SQLITE_OK, c, cd)" "good c" "good cd" "tab cd = tab (pCurDel C)"
      "tab c = (if deleteAll root \<noteq> 0 then Map.empty else tab (pCur C) |` (- dom (tab (pCurDel C))))"
    using commit_delete [OF g(1,3) assms(2,3)] by blast
  have new: "isIdx \<longrightarrow> dom (tab (pCurIns C)) \<inter> dom (tab c) = {}" using assms(4) unfolding d(5) by (auto split: if_splits)
  obtain c' ci where i: "transBtreeCommitTableInsert ops isIdx c (pCurIns C) = Some (SQLITE_OK, c', ci)" "good c'" "good ci" "tab ci = tab (pCurIns C)"
      "tab c' = tab c ++ tab (pCurIns C)"
    using commit_insert [OF d(2) g(2) new] by blast
  show ?thesis
    using d i by (intro exI [of _ "C\<lparr>pCur := c', pCurDel := cd, pCurIns := ci\<rparr>"]) (simp add: commitTable_def goodT_def view_def)
qed

end

section \<open>The lock of a row\<close>

text \<open>
  What locking a row can do: a row held by the caller is granted again and one held by another refused; a
  free row is locked, unless the area is full, and stays locked when its entry in the history
  cannot be allocated.
\<close>

definition rowLockOutcome :: "('k \<rightharpoonup> holder) \<Rightarrow> 'k \<Rightarrow> holder \<Rightarrow> rc \<Rightarrow> ('k \<rightharpoonup> holder) \<Rightarrow> bool" where
  "rowLockOutcome L k h rc L' \<longleftrightarrow>
     (case L k of
        Some h' \<Rightarrow> L' = L \<and> rc = (if h' = h then SQLITE_OK else SQLITE_LOCKED)
      | None \<Rightarrow> (L' = L(k \<mapsto> h) \<and> (rc = SQLITE_OK \<or> rc = SQLITE_NOMEM)) \<or> (L' = L \<and> rc = SQLITE_NOMEM))"

lemma rowLockOutcome_OK: "rowLockOutcome L k h SQLITE_OK L' \<Longrightarrow> L' k = Some h \<and> (\<forall>k'. k' \<noteq> k \<longrightarrow> L' k' = L k')"
  by (auto simp: rowLockOutcome_def split: option.splits if_splits)

lemma lockRecord_spec:
  assumes "sp_inv S" "row_inv (rowArea W)" "t \<noteq> 0"
  obtains rc S' m where "lockRecordAndAddHistory me histOk spOk growOk junk S W t r = Some (rc, S', W\<lparr>rowArea := m\<rparr>)"
    "sp_inv S'" "row_inv m" "rowLockOutcome (row_abs (rowArea W)) (t, r) (myPid me, myOwner me) rc (row_abs m)"
proof -
  let ?L = "row_abs (rowArea W)" and ?k = "(t, r)" and ?h = "(myPid me, myOwner me)" and ?c = "nElementR (rowArea W) - 1"
  obtain m where m: "sqlite3rowlockIpcLockRecord (rowArea W) (myPid me) (myOwner me) t r = Some (fst (spec_lock ?c ?L ?k ?h), m)"
    "row_abs m = snd (spec_lock ?c ?L ?k ?h)" "row_inv m" by (rule row_lock_refines [OF assms(2,3)])
  obtain rcH SH where H: "sqlite3rowlockHistoryAddRecord histOk spOk growOk junk S t r = (rcH, SH)" by fastforce
  have a: "sp_inv SH" "rcH = SQLITE_OK \<or> rcH = SQLITE_NOMEM"
    using add_ok [OF assms(1) H [unfolded sqlite3rowlockHistoryAddRecord_def]] by (auto split: if_splits)
  show thesis
  proof (cases "fst (spec_lock ?c ?L ?k ?h) = SQLITE_OK")
    case True
    then show thesis using m a H by (intro that [of rcH SH m])
        (auto simp: lockRecordAndAddHistory_def rowLockOutcome_def spec_lock_def split: option.splits if_splits)
  next
    case False
    define rc where "rc = (if fst (spec_lock ?c ?L ?k ?h) = SQLITE_DONE then SQLITE_OK else fst (spec_lock ?c ?L ?k ?h))"
    show thesis using m assms(1) False by (intro that [of rc S m])
        (auto simp: lockRecordAndAddHistory_def rowLockOutcome_def spec_lock_def rc_def split: option.splits if_splits)
  qed
qed

lemma lockRecord_held:
  assumes "sp_inv S" "row_inv (rowArea W)" "t \<noteq> 0"
    and "lockRecordAndAddHistory me histOk spOk growOk junk S W t r = Some (SQLITE_OK, S', W')"
  shows "row_abs (rowArea W') (t, r) = Some (myPid me, myOwner me)"
  by (rule lockRecord_spec [OF assms(1-3), of me histOk spOk growOk junk r]) (use assms(4) in \<open>auto dest: rowLockOutcome_OK\<close>)

section \<open>Insert and delete on the tables of the transaction\<close>

locale trans_edit = table_edit +
  assumes save_ok: "good c \<Longrightarrow> \<exists>c'. eSaveAll ops c = (SQLITE_OK, c') \<and> good c' \<and> tab c' = tab c \<and> at c' = at c"
    and rowid_ok: "\<not> isIdx \<Longrightarrow> good c \<Longrightarrow> at c \<in> dom (tab c) \<Longrightarrow> kcol None (eIntegerKey ops c) = at c"
begin

text \<open>The same tables, under cursors that may be elsewhere.\<close>

definition sameTabs :: "'a BtCursorT \<Rightarrow> 'a BtCursorT \<Rightarrow> bool" where
  "sameTabs C C' \<longleftrightarrow> goodT C' \<and> tab (pCur C') = tab (pCur C) \<and> tab (pCurIns C') = tab (pCurIns C) \<and> tab (pCurDel C') = tab (pCurDel C) \<and>
     stateT C' = stateT C \<and> typeT C' = typeT C \<and> hasKeyInfo C' = hasKeyInfo C"

lemma sameTabs_view: "sameTabs C C' \<Longrightarrow> view d C' = view d C"
  by (simp add: sameTabs_def view_def)

text \<open>A record of the transaction that replaces a shared one is among the deleted, and only shared ones are.\<close>

definition syncT :: "'a BtCursorT \<Rightarrow> bool" where
  "syncT C \<longleftrightarrow> dom (tab (pCurIns C)) \<inter> dom (tab (pCur C)) \<subseteq> dom (tab (pCurDel C)) \<and> dom (tab (pCurDel C)) \<subseteq> dom (tab (pCur C))"

text \<open>Where the cursors stand after an insertion.\<close>

definition movedTo :: "BtreePayload \<Rightarrow> 'a \<Rightarrow> bool" where
  "movedTo X c' \<longleftrightarrow> (\<exists>c r. good c \<and> kx X \<in> dom (tab c) \<and> eMoveto ops (pKeyX X) (nKeyX X) c = (SQLITE_OK, r, c'))"

definition soughtTo :: "BtreePayload \<Rightarrow> 'a \<Rightarrow> bool" where
  "soughtTo X c' \<longleftrightarrow> (\<exists>c. good c \<and> btreeCursorMovetoKey ops isIdx (pKeyX X) (nKeyX X) c = (SQLITE_OK, 0, c'))"

lemma save_step:
  assumes "goodT C"
  obtains c0 where "(if eMultiple ops (pCur C) then eSaveAll ops (pCur C) else (SQLITE_OK, pCur C)) = (SQLITE_OK, c0)"
    "sameTabs C (C\<lparr>pCur := c0\<rparr>)" "at c0 = at (pCur C)"
proof -
  have g: "good (pCur C)" using assms by (simp add: goodT_def)
  obtain c1 where c1: "eSaveAll ops (pCur C) = (SQLITE_OK, c1)" "good c1" "tab c1 = tab (pCur C)" "at c1 = at (pCur C)"
    using save_ok [OF g] by blast
  show thesis
  proof (cases "eMultiple ops (pCur C)")
    case True
    show thesis by (rule that [of c1]) (use assms c1 True in \<open>simp_all add: sameTabs_def goodT_def\<close>)
  next
    case False
    show thesis by (rule that [of "pCur C"]) (use assms False in \<open>simp_all add: sameTabs_def goodT_def\<close>)
  qed
qed

lemma maybe_moveto:
  assumes "good c"
  obtains r c' where "(if b then btreeCursorMovetoKey ops isIdx p n c else (SQLITE_OK, 1, c)) = (SQLITE_OK, r, c')" "good c'" "tab c' = tab c"
    "b \<longrightarrow> (r = 0 \<longleftrightarrow> kcol p n \<in> dom (tab c))"
proof (cases b)
  case True
  then show thesis using movetoKey_ok [OF assms, of p n] that by auto
next
  case False
  then show thesis using assms by (intro that [of 1 c]) simp_all
qed

lemma detect_ok:
  assumes "goodT C" "hasKeyInfo C = isIdx"
  obtains u tu fl C1 where "insertDetect ops X flags seekResult C = (SQLITE_OK, u, tu, fl, C1)" "sameTabs C C1"
    "u \<longrightarrow> kx X \<in> dom (tab (pCur C)) \<and> soughtTo X (pCur C1)"
    "\<not> odd (flags div OPFLAG_APPEND) \<and> seekResult = 0 \<and> cursorSharedIsUsed C \<longrightarrow> (u \<longleftrightarrow> kx X \<in> dom (tab (pCur C)))"
proof (cases "odd (flags div OPFLAG_APPEND) \<or> seekResult \<noteq> 0")
  case True
  then show thesis using assms by (intro that [of False False flags C]) (auto simp: insertDetect_def sameTabs_def)
next
  case False
  have g: "good (pCur C)" "good (pCurIns C)" "good (pCurDel C)" using assms by (simp_all add: goodT_def)
  define m where "m = (if cursorSharedIsUsed C then btreeCursorMovetoKey ops isIdx (pKeyX X) (nKeyX X) (pCur C) else (SQLITE_OK, 1, pCur C))"
  define mi where "mi = (if cursorTransIsUsed C then btreeCursorMovetoKey ops isIdx (pKeyX X) (nKeyX X) (pCurIns C) else (SQLITE_OK, 1, pCurIns C))"
  obtain r c where m: "m = (SQLITE_OK, r, c)" "good c" "tab c = tab (pCur C)" "cursorSharedIsUsed C \<longrightarrow> (r = 0 \<longleftrightarrow> kx X \<in> dom (tab (pCur C)))"
    unfolding m_def by (rule maybe_moveto [OF g(1)])
  obtain ri ci where mi: "mi = (SQLITE_OK, ri, ci)" "good ci" "tab ci = tab (pCurIns C)"
    unfolding mi_def by (rule maybe_moveto [OF g(2)])
  let ?u = "cursorSharedIsUsed C \<and> r = 0"
  have "insertDetect ops X flags seekResult C = (SQLITE_OK, ?u, cursorTransIsUsed C \<and> ri = 0,
      if cursorSharedIsUsed C \<or> cursorTransIsUsed C then OPFLAG_APPEND else flags, C\<lparr>pCur := c, pCurIns := ci\<rparr>)"
    unfolding insertDetect_def assms(2) m_def [symmetric] using False
    by (simp only: if_False m(1) Let_def prod.case BtCursorT.simps mi_def [symmetric] mi(1) simp_thms rc.simps if_True)
  moreover have "sameTabs C (C\<lparr>pCur := c, pCurIns := ci\<rparr>)" using m mi g by (simp add: sameTabs_def goodT_def)
  moreover have "?u \<longrightarrow> soughtTo X c" using m(1) g(1) by (auto simp: m_def soughtTo_def)
  ultimately show thesis using m(4) by (intro that) auto
qed

lemma store_ok:
  assumes "goodT C" "\<not> isIdx"
  obtains C' where "insertStore ops X u tu fl C = (SQLITE_OK, C')" "goodT C'" "tab (pCur C') = tab (pCur C)"
    "tab (pCurDel C') = (if u then (tab (pCurDel C))(kx X \<mapsto> recv X) else tab (pCurDel C))"
    "tab (pCurIns C') = (tab (pCurIns C))(kx X \<mapsto> recv X)" "movedTo X (pCurIns C')" "u \<longrightarrow> pCur C' = pCur C"
proof -
  have g: "good (pCur C)" "good (pCurIns C)" "good (pCurDel C)" using assms by (simp_all add: goodT_def)
  obtain d1 where d1: "eInsert ops X 0 0 (pCurDel C) = (SQLITE_OK, d1)" "good d1" "tab d1 = (tab (pCurDel C))(kx X \<mapsto> recv X)"
    using insert_ok [OF g(3), of 0 X] assms(2) by auto
  obtain r d2 where d2: "eMoveto ops (pKeyX X) (nKeyX X) d1 = (SQLITE_OK, r, d2)" "good d2" "tab d2 = tab d1" using moveto_ok [OF d1(2)] by blast
  obtain i1 where i1: "eInsert ops X fl 0 (pCurIns C) = (SQLITE_OK, i1)" "good i1" "tab i1 = (tab (pCurIns C))(kx X \<mapsto> recv X)"
    using insert_ok [OF g(2), of fl X] assms(2) by auto
  obtain r' i2 where i2: "eMoveto ops (pKeyX X) (nKeyX X) i1 = (SQLITE_OK, r', i2)" "good i2" "tab i2 = tab i1" using moveto_ok [OF i1(2)] by blast
  obtain r'' c1 where c1: "eMoveto ops (pKeyX X) (nKeyX X) (pCur C) = (SQLITE_OK, r'', c1)" "good c1" "tab c1 = tab (pCur C)" using moveto_ok [OF g(1)] by blast
  have "movedTo X i2" unfolding movedTo_def using i1(2,3) i2(1) by auto
  then show thesis
    by (intro that [of "C\<lparr>pCurDel := if u then d2 else pCurDel C, pCurIns := i2, pCur := if \<not> u \<and> \<not> tu then c1 else pCur C,
          stateT := if tu then CURSOR_USE_TRANS else 3\<rparr>"])
      (use d1 d2 i1 i2 c1 g in \<open>simp_all add: insertStore_def goodT_def\<close>)
qed

text \<open>Inserting a row of a table with rowids.\<close>

lemma insert_row:
  assumes g: "goodT C" and C: "transBtreeCursorIsUsed C" "\<not> hasKeyInfo C" "\<not> rowlockIsSequenceTable C" "\<not> isIdx"
    and inv: "syncT C" "sp_inv S" "row_inv (rowArea W)" "pgnoRoot I \<noteq> 0"
    and app: "odd (flags div OPFLAG_APPEND) \<or> seekResult \<noteq> 0 \<or> \<not> cursorSharedIsUsed C \<Longrightarrow>
      kx X \<in> dom (tab (pCur C)) \<Longrightarrow> kx X \<in> dom (tab (pCurDel C))"
  shows "\<exists>rc rcL C' S' m. sqlite3TransBtreeInsert me A ops I X flags seekResult C S W = Some (rc, C', S', W\<lparr>rowArea := m\<rparr>) \<and>
    goodT C' \<and> syncT C' \<and> sp_inv S' \<and> row_inv m \<and>
    rowLockOutcome (row_abs (rowArea W)) (pgnoRoot I, nKeyX X) (myPid me, myOwner me) rcL (row_abs m) \<and>
    rc = (if rcL = SQLITE_LOCKED \<and> autoRowid I = 1 then SQLITE_CORRUPT_ROWID else rcL) \<and>
    (\<forall>d. view d C' = (if rc = SQLITE_OK then (view d C)(kx X \<mapsto> recv X) else view d C)) \<and>
    (rc = SQLITE_OK \<longrightarrow> movedTo X (pCurIns C') \<and>
       (flags = 0 \<and> seekResult = 0 \<and> cursorSharedIsUsed C \<and> kx X \<in> dom (tab (pCur C)) \<longrightarrow> soughtTo X (pCur C')))"
proof -
  obtain c0 where c0: "(if eMultiple ops (pCur C) then eSaveAll ops (pCur C) else (SQLITE_OK, pCur C)) = (SQLITE_OK, c0)"
      "sameTabs C (C\<lparr>pCur := c0\<rparr>)" by (rule save_step [OF g])
  define C0 where "C0 = C\<lparr>pCur := c0\<rparr>"
  have s0: "sameTabs C C0" using c0(2) by (simp add: C0_def)
  have g0: "goodT C0" "hasKeyInfo C0 = isIdx" using s0 C(2,4) by (simp_all add: sameTabs_def)
  obtain u tu fl C1 where d: "insertDetect ops X flags seekResult C0 = (SQLITE_OK, u, tu, fl, C1)" "sameTabs C0 C1"
    "u \<longrightarrow> kx X \<in> dom (tab (pCur C0)) \<and> soughtTo X (pCur C1)"
    "\<not> odd (flags div OPFLAG_APPEND) \<and> seekResult = 0 \<and> cursorSharedIsUsed C0 \<longrightarrow> (u \<longleftrightarrow> kx X \<in> dom (tab (pCur C0)))"
    by (rule detect_ok [OF g0])
  have s1: "sameTabs C C1" using s0 d(2) by (simp add: sameTabs_def)
  obtain rcL S' m where l: "lockRecordAndAddHistory me (aHistOk A) (aSpOk A) (aGrowOk A) (aJunk A) S W (pgnoRoot I) (nKeyX X) = Some (rcL, S', W\<lparr>rowArea := m\<rparr>)"
    "sp_inv S'" "row_inv m" "rowLockOutcome (row_abs (rowArea W)) (pgnoRoot I, nKeyX X) (myPid me, myOwner me) rcL (row_abs m)"
    by (rule lockRecord_spec [OF inv(2,3,4)])
  define rc where "rc = (if rcL = SQLITE_LOCKED \<and> autoRowid I = 1 then SQLITE_CORRUPT_ROWID else rcL)"
  have lock: "insertLock me A I X C1 S W = Some (rc, S', W\<lparr>rowArea := m\<rparr>)"
    using s1 C(2,3) l(1) by (simp add: insertLock_def sameTabs_def rowlockIsSequenceTable_def cachedRowidFlagGet_def rc_def)
  have run: "sqlite3TransBtreeInsert me A ops I X flags seekResult C S W =
      (if rc \<noteq> SQLITE_OK then Some (rc, C1, S', W\<lparr>rowArea := m\<rparr>)
       else let (rc3, C3) = insertStore ops X u tu fl C1 in Some (rc3, C3, S', W\<lparr>rowArea := m\<rparr>))"
    using C(1) c0(1) d(1) lock by (simp add: sqlite3TransBtreeInsert_def C0_def)
  show ?thesis
  proof (cases "rc = SQLITE_OK")
    case False
    have "syncT C1" "goodT C1" using inv(1) s1 by (simp_all add: syncT_def sameTabs_def)
    then show ?thesis using run False l(2-4) sameTabs_view [OF s1] rc_def
      by (intro exI [of _ rc] exI [of _ rcL] exI [of _ C1] exI [of _ S'] exI [of _ m]) simp
  next
    case True
    have g1: "goodT C1" using s1 by (simp add: sameTabs_def)
    obtain C3 where st: "insertStore ops X u tu fl C1 = (SQLITE_OK, C3)" "goodT C3" "tab (pCur C3) = tab (pCur C1)"
      "tab (pCurDel C3) = (if u then (tab (pCurDel C1))(kx X \<mapsto> recv X) else tab (pCurDel C1))"
      "tab (pCurIns C3) = (tab (pCurIns C1))(kx X \<mapsto> recv X)" "movedTo X (pCurIns C3)" "u \<longrightarrow> pCur C3 = pCur C1" by (rule store_ok [OF g1 C(4)])
    have t1: "tab (pCur C1) = tab (pCur C)" "tab (pCurIns C1) = tab (pCurIns C)" "tab (pCurDel C1) = tab (pCurDel C)"
      "tab (pCur C0) = tab (pCur C)" "cursorSharedIsUsed C0 = cursorSharedIsUsed C"
      using s1 s0 by (simp_all add: sameTabs_def cursorSharedIsUsed_def)
    have "syncT C3"
      using inv(1) d(3,4) app unfolding syncT_def st(3-5) t1 by (cases u) auto
    moreover have "view dd C3 = (view dd C)(kx X \<mapsto> recv X)" for dd
      unfolding view_def st(3-5) t1 by (auto simp: fun_eq_iff map_add_def restrict_map_def split: option.splits)
    moreover have "soughtTo X (pCur C3)" if "flags = 0 \<and> seekResult = 0 \<and> cursorSharedIsUsed C \<and> kx X \<in> dom (tab (pCur C))"
      using d(3,4) st(7) that t1 by simp
    ultimately show ?thesis using run True l(2-4) st(1,2,6) rc_def
      by (intro exI [of _ rc] exI [of _ rcL] exI [of _ C3] exI [of _ S'] exI [of _ m]) simp
  qed
qed

text \<open>Deleting a row of the shared table.\<close>

lemma delete_shared_row:
  assumes g: "goodT C" and C: "transBtreeCursorIsUsed C" "\<not> cursorTransIsUsed C" "\<not> hasKeyInfo C" "\<not> isIdx"
    and inv: "syncT C" "sp_inv S" "row_inv (rowArea W)" "pgnoRoot I \<noteq> 0"
    and k: "at (pCur C) = k" "k \<in> dom (tab (pCur C))" "k \<notin> dom (tab (pCurDel C))"
  shows "\<exists>n rc C' S' m. kcol None n = k \<and> sqlite3TransBtreeDelete me A ops I flags C S W = Some (rc, C', S', W\<lparr>rowArea := m\<rparr>) \<and>
    goodT C' \<and> syncT C' \<and> sp_inv S' \<and> row_inv m \<and>
    rowLockOutcome (row_abs (rowArea W)) (pgnoRoot I, n) (myPid me, myOwner me) rc (row_abs m) \<and>
    (\<forall>d. view d C' = (if rc = SQLITE_OK then (view d C)(k := None) else view d C))"
proof -
  obtain c0 where c0: "(if eMultiple ops (pCur C) then eSaveAll ops (pCur C) else (SQLITE_OK, pCur C)) = (SQLITE_OK, c0)"
      "sameTabs C (C\<lparr>pCur := c0\<rparr>)" "at c0 = at (pCur C)" by (rule save_step [OF g])
  define C0 where "C0 = C\<lparr>pCur := c0\<rparr>"
  have s0: "sameTabs C C0" using c0(2) by (simp add: C0_def)
  have t0: "tab (pCur C0) = tab (pCur C)" "tab (pCurIns C0) = tab (pCurIns C)" "tab (pCurDel C0) = tab (pCurDel C)"
    and g0: "goodT C0" "good c0" "good (pCurDel C0)" using s0 by (simp_all add: sameTabs_def goodT_def C0_def)
  define n where "n = eIntegerKey ops c0"
  have n: "kcol None n = k" unfolding n_def using rowid_ok [OF C(4) g0(2)] c0(3) k(1,2) t0(1) by (simp add: C0_def)
  obtain rc S' m where l: "lockRecordAndAddHistory me (aHistOk A) (aSpOk A) (aGrowOk A) (aJunk A) S W (pgnoRoot I) n = Some (rc, S', W\<lparr>rowArea := m\<rparr>)"
    "sp_inv S'" "row_inv m" "rowLockOutcome (row_abs (rowArea W)) (pgnoRoot I, n) (myPid me, myOwner me) rc (row_abs m)"
    by (rule lockRecord_spec [OF inv(2,3,4)])
  let ?X = "\<lparr>pKeyX = None, nKeyX = n, pDataX = []\<rparr>"
  obtain cd where cd: "eInsert ops ?X OPFLAG_APPEND 0 (pCurDel C0) = (SQLITE_OK, cd)" "good cd" "tab cd = (tab (pCurDel C0))(k \<mapsto> recv ?X)"
    using insert_ok [OF g0(3), of OPFLAG_APPEND ?X] n C(4) by auto
  have lock: "deleteLock me A ops I C0 S W = Some (rc, None, n, S', W\<lparr>rowArea := m\<rparr>)"
    using C(3) l(1) by (simp add: deleteLock_def C0_def n_def Let_def)
  have unused: "\<not> cursorTransIsUsed C0" using C(2) by (simp add: C0_def cursorTransIsUsed_def)
  have run: "sqlite3TransBtreeDelete me A ops I flags C S W =
      Some (rc, if rc = SQLITE_OK then C0\<lparr>pCurDel := cd\<rparr> else C0, S', W\<lparr>rowArea := m\<rparr>)"
    using C(1) c0(1) lock cd(1) unused by (simp add: sqlite3TransBtreeDelete_def C0_def)
  define C' where "C' = (if rc = SQLITE_OK then C0\<lparr>pCurDel := cd\<rparr> else C0)"
  have "goodT C'" using g0 cd(2) by (simp add: C'_def goodT_def)
  moreover have "syncT C'" using inv(1) k(2) cd(3) t0 by (auto simp: C'_def syncT_def)
  moreover have "view d C' = (if rc = SQLITE_OK then (view d C)(k := None) else view d C)" for d
  proof -
    have "k \<notin> dom (tab (pCurIns C))" using inv(1) k(2,3) by (auto simp: syncT_def)
    then show ?thesis using cd(3) t0
      by (auto simp: C'_def view_def fun_eq_iff map_add_def restrict_map_def domIff split: option.splits)
  qed
  ultimately show ?thesis using run n l(2-4) unfolding C'_def [symmetric]
    by (intro exI [of _ n] exI [of _ rc] exI [of _ C'] exI [of _ S'] exI [of _ m]) simp
qed

text \<open>Deleting a row the transaction has inserted or updated.\<close>

lemma delete_trans_row:
  assumes g: "goodT C" and C: "cursorTransIsUsed C" "\<not> hasKeyInfo C" "\<not> isIdx"
    and inv: "syncT C" "row_inv (rowArea W)" and k: "at (pCurIns C) = k" "k \<in> dom (tab (pCurIns C))"
  shows "\<exists>n C' m. kcol None n = k \<and> sqlite3TransBtreeDelete me A ops I flags C S W = Some (SQLITE_OK, C', S, W\<lparr>rowArea := m\<rparr>) \<and>
    goodT C' \<and> syncT C' \<and> row_inv m \<and> (\<forall>d. view d C' = (view d C)(k := None)) \<and>
    row_abs m = (if k \<in> dom (tab (pCurDel C)) then row_abs (rowArea W) else (row_abs (rowArea W))((pgnoRoot I, n) := None))"
proof -
  obtain c0 where c0: "(if eMultiple ops (pCur C) then eSaveAll ops (pCur C) else (SQLITE_OK, pCur C)) = (SQLITE_OK, c0)"
      "sameTabs C (C\<lparr>pCur := c0\<rparr>)" by (rule save_step [OF g])
  have g0: "good c0" "tab c0 = tab (pCur C)" "good (pCurIns C)" "good (pCurDel C)"
    using c0(2) g by (simp_all add: sameTabs_def goodT_def)
  define n where "n = eIntegerKey ops (pCurIns C)"
  have n: "kcol None n = k" unfolding n_def using rowid_ok [OF C(3) g0(3)] k by simp
  obtain r cd where cd: "eMovetoUnpacked ops None n (pCurDel C) = (SQLITE_OK, r, cd)" "good cd" "tab cd = tab (pCurDel C)"
      "r = 0 \<longleftrightarrow> k \<in> dom (tab (pCurDel C))"
    using movetoKey_ok [OF g0(4), of None n] n by (auto simp: btreeCursorMovetoKey_def)
  obtain ci where ci: "eDelete ops flags (pCurIns C) = (SQLITE_OK, ci)" "good ci" "tab ci = (tab (pCurIns C))(k := None)"
    using delete_ok [OF g0(3), of flags] k by auto
  obtain m where m: "(if r \<noteq> 0 then map_option (\<lambda>m. W\<lparr>rowArea := m\<rparr>) (sqlite3rowlockIpcUnlockRecord (rowArea W) (pgnoRoot I) n) else Some W) = Some (W\<lparr>rowArea := m\<rparr>)"
      "row_inv m" "row_abs m = (if r = 0 then row_abs (rowArea W) else (row_abs (rowArea W))((pgnoRoot I, n) := None))"
  proof (cases "r = 0")
    case True
    then show thesis using inv(2) by (intro that [of "rowArea W"]) simp_all
  next
    case False
    show thesis by (rule row_unlock_refines [OF inv(2), of "pgnoRoot I" n]) (use False in \<open>intro that; simp\<close>)
  qed
  define C' where "C' = C\<lparr>pCur := c0, pCurDel := cd, pCurIns := ci\<rparr>"
  have used: "transBtreeCursorIsUsed C" "cursorTransIsUsed (C\<lparr>pCur := c0\<rparr>)"
    using C(1) by (cases "stateT C = 0"; simp add: transBtreeCursorIsUsed_def cursorTransIsUsed_def)+
  have "deleteTrans me ops I flags (C\<lparr>pCur := c0\<rparr>) S W = Some (SQLITE_OK, C', S, W\<lparr>rowArea := m\<rparr>)"
    using C(2) cd(1) ci(1) m(1) by (cases "r = 0") (auto simp: deleteTrans_def n_def [symmetric] C'_def Let_def)
  then have "sqlite3TransBtreeDelete me A ops I flags C S W = Some (SQLITE_OK, C', S, W\<lparr>rowArea := m\<rparr>)"
    using c0(1) used by (simp add: sqlite3TransBtreeDelete_def)
  moreover have "goodT C'" "syncT C'" using g0 cd ci inv(1) by (auto simp: C'_def goodT_def syncT_def)
  moreover have "view d C' = (view d C)(k := None)" for d
  proof -
    have "k \<in> dom (tab (pCur C)) \<longrightarrow> k \<in> dom (tab (pCurDel C))" using inv(1) k(2) by (auto simp: syncT_def)
    then show ?thesis using cd(3) ci(3) g0(2)
      by (auto simp: C'_def view_def fun_eq_iff map_add_def restrict_map_def domIff split: option.splits)
  qed
  ultimately show ?thesis using n m(2,3) cd(4) by (intro exI [of _ n] exI [of _ C'] exI [of _ m]) simp
qed

end

section \<open>Tables as lists of rows\<close>

text \<open>
  A table as a list of rows with distinct keys, and a cursor as a position in it. In a table with rowids the key is the rowid.
  In an index a row is a record of bytes: the first byte is its key column, the others hold the rowid; \<open>eMoveto\<close>
  compares whole records, and an insertion with \<open>OPFLAG_SAVEPOSITION\<close> replaces the record at the position of the cursor, whatever it is.
\<close>

record TabCur =
  tcIdx :: bool
  tcRows :: "(i64 \<times> blob) list"
  tcAt :: nat

definition tcKey :: "TabCur \<Rightarrow> i64" where
  "tcKey c = (if tcAt c < length (tcRows c) then fst (tcRows c ! tcAt c) else - 1)"

definition keyColumn :: "blob \<Rightarrow> i64" where
  "keyColumn b = (case b of [] \<Rightarrow> 0 | x # _ \<Rightarrow> int x)"

definition packed :: "blob option \<Rightarrow> blob" where
  "packed p = (case p of None \<Rightarrow> [] | Some b \<Rightarrow> b)"

definition tcGood :: "TabCur \<Rightarrow> bool" where
  "tcGood c \<longleftrightarrow> \<not> tcIdx c \<and> distinct (map fst (tcRows c))"

definition tcGoodIdx :: "TabCur \<Rightarrow> bool" where
  "tcGoodIdx c \<longleftrightarrow> tcIdx c \<and> distinct (map fst (tcRows c)) \<and> (\<forall>(k, b) \<in> set (tcRows c). k = keyColumn b)"

definition tcTab :: "TabCur \<Rightarrow> i64 \<rightharpoonup> blob" where
  "tcTab c = map_of (tcRows c)"

definition tcTodo :: "TabCur \<Rightarrow> BtreePayload list" where
  "tcTodo c = map (\<lambda>(k, b). if tcIdx c then \<lparr>pKeyX = Some b, nKeyX = int (length b), pDataX = []\<rparr> else \<lparr>pKeyX = None, nKeyX = k, pDataX = b\<rparr>)
     (drop (tcAt c) (tcRows c))"

definition tcSeek :: "(i64 \<times> blob \<Rightarrow> bool) \<Rightarrow> TabCur \<Rightarrow> rc \<times> int \<times> TabCur" where
  "tcSeek P c =
     (let i = length (takeWhile (\<lambda>r. \<not> P r) (tcRows c))
      in (SQLITE_OK, if i < length (tcRows c) then 0 else 1, c\<lparr>tcAt := i\<rparr>))"

definition tcMoveto :: "blob option \<Rightarrow> i64 \<Rightarrow> TabCur \<Rightarrow> rc \<times> int \<times> TabCur" where
  "tcMoveto p n c = tcSeek (\<lambda>r. if tcIdx c then snd r = packed p else fst r = n) c"

definition tcMovetoKey :: "blob option \<Rightarrow> i64 \<Rightarrow> TabCur \<Rightarrow> rc \<times> int \<times> TabCur" where
  "tcMovetoKey p n c = tcSeek (\<lambda>r. fst r = (if tcIdx c then keyColumn (packed p) else n)) c"

definition tcInsert :: "BtreePayload \<Rightarrow> nat \<Rightarrow> int \<Rightarrow> TabCur \<Rightarrow> rc \<times> TabCur" where
  "tcInsert X f s c =
     (let b = packed (pKeyX X) in
      (SQLITE_OK, c\<lparr>tcRows :=
        (if \<not> tcIdx c then AList.update (nKeyX X) (pDataX X) (tcRows c)
         else if odd (f div OPFLAG_SAVEPOSITION) then (tcRows c)[tcAt c := (keyColumn b, b)]
         else if b \<in> snd ` set (tcRows c) then tcRows c else tcRows c @ [(keyColumn b, b)])\<rparr>))"

definition tabOps :: "TabCur EditOps" where
  "tabOps = \<lparr>
     eFirst = (\<lambda>c. (SQLITE_OK, if tcRows c = [] then 1 else 0, c\<lparr>tcAt := 0\<rparr>)),
     eNext = (\<lambda>c. (if tcAt c + 1 < length (tcRows c) then SQLITE_OK else SQLITE_DONE, c\<lparr>tcAt := tcAt c + 1\<rparr>)),
     eIntegerKey = tcKey, eReallocOk = (\<lambda>c. True),
     ePayload = (\<lambda>c. if tcAt c < length (tcRows c) then Inr (snd (tcRows c ! tcAt c)) else Inl SQLITE_ERROR),
     eMoveto = tcMoveto, eMovetoUnpacked = tcMovetoKey, eUnpackOk = (\<lambda>b. True), eNField = (\<lambda>b. length b + 1),
     eInsert = tcInsert,
     eDelete = (\<lambda>f c. (SQLITE_OK, c\<lparr>tcRows := AList.delete (tcKey c) (tcRows c)\<rparr>)),
     eClear = (\<lambda>c. (SQLITE_OK, c\<lparr>tcRows := []\<rparr>)), eCount = (\<lambda>c. Inr (int (length (tcRows c)))),
     eMultiple = (\<lambda>c. False), eSaveAll = (\<lambda>c. (SQLITE_OK, c)) \<rparr>"

lemma tcSeek_ok:
  obtains r c' where "tcSeek P c = (SQLITE_OK, r, c')" "tcRows c' = tcRows c" "tcIdx c' = tcIdx c" "r = 0 \<longleftrightarrow> (\<exists>x\<in>set (tcRows c). P x)"
    "r = 0 \<Longrightarrow> tcAt c' < length (tcRows c) \<and> P (tcRows c ! tcAt c')"
proof -
  let ?i = "length (takeWhile (\<lambda>r. \<not> P r) (tcRows c))"
  have hit: "P (tcRows c ! ?i)" if "?i < length (tcRows c)" using nth_length_takeWhile [OF that] by simp
  have "?i < length (tcRows c) \<longleftrightarrow> (\<exists>r\<in>set (tcRows c). P r)"
  proof
    assume "?i < length (tcRows c)"
    then show "\<exists>r\<in>set (tcRows c). P r" using hit nth_mem by blast
  next
    assume "\<exists>r\<in>set (tcRows c). P r"
    then have "takeWhile (\<lambda>r. \<not> P r) (tcRows c) \<noteq> tcRows c" by (metis (mono_tags, lifting) takeWhile_eq_all_conv)
    then show "?i < length (tcRows c)" by (metis length_takeWhile_le nless_le takeWhile_eq_take take_all)
  qed
  then show thesis using hit
    by (intro that [of "if ?i < length (tcRows c) then 0 else 1" "c\<lparr>tcAt := ?i\<rparr>"]) (auto simp: tcSeek_def Let_def split: if_splits)
qed

lemma tcMoveto_ok:
  assumes "\<not> tcIdx c"
  obtains r c' where "tcMoveto p n c = (SQLITE_OK, r, c')" "tcMovetoKey p n c = (SQLITE_OK, r, c')" "tcRows c' = tcRows c" "\<not> tcIdx c'"
    "r = 0 \<longleftrightarrow> n \<in> dom (map_of (tcRows c))" "r = 0 \<longrightarrow> tcKey c' = n \<and> tcAt c' < length (tcRows c)"
proof -
  obtain r c' where s: "tcSeek (\<lambda>r. fst r = n) c = (SQLITE_OK, r, c')" "tcRows c' = tcRows c" "tcIdx c' = tcIdx c" "r = 0 \<longleftrightarrow> (\<exists>x\<in>set (tcRows c). fst x = n)"
    "r = 0 \<Longrightarrow> tcAt c' < length (tcRows c) \<and> fst (tcRows c ! tcAt c') = n" by (rule tcSeek_ok) (rule that)
  have m: "tcMoveto p n c = tcSeek (\<lambda>r. fst r = n) c" "tcMovetoKey p n c = tcSeek (\<lambda>r. fst r = n) c"
    using assms by (simp_all add: tcMoveto_def tcMovetoKey_def)
  have d: "(\<exists>x\<in>set (tcRows c). fst x = n) \<longleftrightarrow> n \<in> dom (map_of (tcRows c))" by (force simp: dom_map_of_conv_image_fst)
  show thesis by (rule that [of r c']) (use s m d assms in \<open>simp_all add: tcKey_def\<close>)
qed

lemma tcTodo_step:
  assumes "tcTodo c = X # Xs"
  obtains "tcAt c < length (tcRows c)" "tcTodo (c\<lparr>tcAt := tcAt c + 1\<rparr>) = Xs"
    "X = (let (k, b) = tcRows c ! tcAt c in if tcIdx c then \<lparr>pKeyX = Some b, nKeyX = int (length b), pDataX = []\<rparr> else \<lparr>pKeyX = None, nKeyX = k, pDataX = b\<rparr>)"
    "tcAt c + 1 < length (tcRows c) \<longleftrightarrow> Xs \<noteq> []"
proof -
  have at: "tcAt c < length (tcRows c)" using assms by (cases "tcAt c < length (tcRows c)") (simp_all add: tcTodo_def)
  then have d: "drop (tcAt c) (tcRows c) = tcRows c ! tcAt c # drop (Suc (tcAt c)) (tcRows c)" by (simp add: Cons_nth_drop_Suc)
  show thesis by (rule that) (use assms at in \<open>auto simp: tcTodo_def d\<close>)
qed

interpretation tc: trans_edit tabOps False tcGood tcTab tcKey tcTodo "\<lambda>p n. n" pDataX
proof
  fix c p n
  assume "tcGood c"
  then have x: "\<not> tcIdx c" by (simp add: tcGood_def)
  obtain r c' where m: "tcMoveto p n c = (SQLITE_OK, r, c')" "tcRows c' = tcRows c" "\<not> tcIdx c'" "r = 0 \<longleftrightarrow> n \<in> dom (map_of (tcRows c))" "r = 0 \<longrightarrow> tcKey c' = n \<and> tcAt c' < length (tcRows c)"
    by (rule tcMoveto_ok [OF x, of p n])
  have g: "tcGood c'" "tcTab c' = tcTab c" using \<open>tcGood c\<close> m(2,3) by (simp_all add: tcGood_def tcTab_def)
  show "\<exists>r c'. eMoveto tabOps p n c = (SQLITE_OK, r, c') \<and> tcGood c' \<and> tcTab c' = tcTab c \<and> (r = 0 \<longrightarrow> n \<in> dom (tcTab c) \<and> tcKey c' = n)"
    using m g by (simp add: tabOps_def tcTab_def)
  obtain r c' where m: "tcMovetoKey None n c = (SQLITE_OK, r, c')" "tcRows c' = tcRows c" "\<not> tcIdx c'" "r = 0 \<longleftrightarrow> n \<in> dom (map_of (tcRows c))" "r = 0 \<longrightarrow> tcKey c' = n \<and> tcAt c' < length (tcRows c)"
    by (rule tcMoveto_ok [OF x, of None n])
  have g: "tcGood c'" "tcTab c' = tcTab c" using \<open>tcGood c\<close> m(2,3) by (simp_all add: tcGood_def tcTab_def)
  show "\<exists>r c'. btreeCursorMovetoKey tabOps False p n c = (SQLITE_OK, r, c') \<and> tcGood c' \<and> tcTab c' = tcTab c \<and>
      (r = 0 \<longleftrightarrow> n \<in> dom (tcTab c)) \<and> (r = 0 \<longrightarrow> tcKey c' = n)"
    using m g by (simp add: tabOps_def btreeCursorMovetoKey_def tcTab_def)
next
  fix c X Xs
  assume c: "tcGood c" "tcTodo c = X # Xs"
  show "recordAt tabOps False c = Inr X"
    by (rule tcTodo_step [OF c(2)]) (use c(1) in \<open>simp add: tcGood_def recordAt_def btreePayloadWithMalloc_def tabOps_def tcKey_def split_beta\<close>)
  show "\<exists>c'. eNext tabOps c = (if Xs = [] then SQLITE_DONE else SQLITE_OK, c') \<and> tcGood c' \<and> tcTab c' = tcTab c \<and> tcTodo c' = Xs"
    by (rule tcTodo_step [OF c(2)]) (use c(1) in \<open>auto simp: tabOps_def tcGood_def tcTab_def\<close>)
next
  fix c
  assume "tcGood c"
  then show "\<exists>c'. eFirst tabOps c = (SQLITE_OK, if tcTodo c' = [] then 1 else 0, c') \<and> tcGood c' \<and> tcTab c' = tcTab c \<and>
      map_of (map (\<lambda>X. (nKeyX X, pDataX X)) (tcTodo c')) = tcTab c \<and> distinct (map nKeyX (tcTodo c'))"
    by (simp add: tabOps_def tcTodo_def tcGood_def tcTab_def comp_def case_prod_unfold)
qed (simp_all add: tabOps_def tcInsert_def tcGood_def tcTab_def distinct_update distinct_delete update_conv' delete_conv' fun_eq_iff)

text \<open>An index: the record at the cursor, and the records by their key column.\<close>

lemma tcIdx_row: "tcGoodIdx c \<Longrightarrow> i < length (tcRows c) \<Longrightarrow> fst (tcRows c ! i) = keyColumn (snd (tcRows c ! i))"
  unfolding tcGoodIdx_def using nth_mem by fastforce

lemma tcIdx_at:
  assumes "tcGoodIdx c" "tcKey c \<in> dom (tcTab c)"
  shows "tcAt c < length (tcRows c)"
proof (rule ccontr)
  assume "\<not> tcAt c < length (tcRows c)"
  then obtain b where "(- 1, b) \<in> set (tcRows c)" using assms(2) by (auto simp: tcKey_def tcTab_def dest: map_of_SomeD)
  then have "- 1 = keyColumn b" using assms(1) by (auto simp: tcGoodIdx_def)
  then show False by (auto simp: keyColumn_def split: list.splits)
qed

lemma distinct_upd_same: "i < length xs \<Longrightarrow> fst (xs ! i) = k \<Longrightarrow> map fst (xs[i := (k, v)]) = map fst xs"
  by (simp add: map_update list_update_same_conv)

lemma map_of_upd:
  assumes "distinct (map fst xs)" "i < length xs" "fst (xs ! i) = k"
  shows "map_of (xs[i := (k, v)]) = (map_of xs)(k \<mapsto> v)"
  using assms
proof (induction xs arbitrary: i)
  case (Cons x xs)
  then show ?case
  proof (cases i)
    case (Suc j)
    then have "fst x \<noteq> k" using Cons.prems by (metis distinct.simps(2) image_eqI length_Cons list.set_map list.simps(9) nth_Cons_Suc nth_mem Suc_less_eq)
    with Suc Cons show ?thesis by (auto simp: fun_eq_iff)
  qed (cases x; auto simp: fun_eq_iff)
qed simp

lemma tcIdx_insert:
  assumes g: "tcGoodIdx c"
    and f: "if odd (f div OPFLAG_SAVEPOSITION) then tcKey c = keyColumn (packed (pKeyX X)) \<and> tcKey c \<in> dom (tcTab c) else keyColumn (packed (pKeyX X)) \<notin> dom (tcTab c)"
  shows "\<exists>c'. tcInsert X f s c = (SQLITE_OK, c') \<and> tcGoodIdx c' \<and> tcTab c' = (tcTab c)(keyColumn (packed (pKeyX X)) \<mapsto> packed (pKeyX X))"
proof (cases "odd (f div OPFLAG_SAVEPOSITION)")
  case True
  let ?b = "packed (pKeyX X)"
  have f': "tcKey c = keyColumn ?b \<and> tcKey c \<in> dom (tcTab c)" using f unfolding if_P [OF True] .
  note i = tcIdx_at [OF g conjunct2 [OF f']]
  have k: "fst (tcRows c ! tcAt c) = keyColumn ?b" using f' i by (simp add: tcKey_def)
  have d: "distinct (map fst (tcRows c))" "tcIdx c" "\<forall>(k, b) \<in> set (tcRows c). k = keyColumn b" using g by (auto simp: tcGoodIdx_def)
  have "\<forall>(k, b) \<in> set ((tcRows c)[tcAt c := (keyColumn ?b, ?b)]). k = keyColumn b"
    using d(3) set_update_subset_insert [of "tcRows c" "tcAt c"] by blast
  then show ?thesis
    using True d(1,2) map_of_upd [OF d(1) i k, of ?b] by (simp add: tcInsert_def tcGoodIdx_def tcTab_def distinct_upd_same [OF i k] Let_def)
next
  case False
  let ?b = "packed (pKeyX X)"
  have d: "distinct (map fst (tcRows c))" "tcIdx c" "\<forall>(k, b) \<in> set (tcRows c). k = keyColumn b" using g by (auto simp: tcGoodIdx_def)
  have n: "keyColumn ?b \<notin> fst ` set (tcRows c)" using False f by (simp add: tcTab_def dom_map_of_conv_image_fst)
  then have "?b \<notin> snd ` set (tcRows c)" using d(3) by force
  then have i: "tcInsert X f s c = (SQLITE_OK, c\<lparr>tcRows := tcRows c @ [(keyColumn ?b, ?b)]\<rparr>)" using False d(2) by (simp add: tcInsert_def Let_def)
  have "map_of (tcRows c @ [(keyColumn ?b, ?b)]) = (map_of (tcRows c))(keyColumn ?b \<mapsto> ?b)"
    using n by (auto simp: fun_eq_iff map_add_def map_of_eq_None_iff [symmetric] split: option.splits)
  then show ?thesis using i d n by (simp add: tcGoodIdx_def tcTab_def)
qed

interpretation ti: table_edit tabOps True tcGoodIdx tcTab tcKey tcTodo "\<lambda>p n. keyColumn (packed p)" "\<lambda>X. packed (pKeyX X)"
proof
  fix c p n
  assume g: "tcGoodIdx c"
  then have x: "tcIdx c" by (simp add: tcGoodIdx_def)
  have same: "tcGoodIdx c'" "tcTab c' = tcTab c" if "tcRows c' = tcRows c" "tcIdx c' = tcIdx c" for c'
    using g that by (simp_all add: tcGoodIdx_def tcTab_def)
  obtain r c' where m: "tcSeek (\<lambda>r. snd r = packed p) c = (SQLITE_OK, r, c')" "tcRows c' = tcRows c" "tcIdx c' = tcIdx c"
    "r = 0 \<longleftrightarrow> (\<exists>x\<in>set (tcRows c). snd x = packed p)" "r = 0 \<Longrightarrow> tcAt c' < length (tcRows c) \<and> snd (tcRows c ! tcAt c') = packed p"
    by (rule tcSeek_ok) (rule that)
  have "keyColumn (packed p) \<in> dom (tcTab c) \<and> tcKey c' = keyColumn (packed p)" if "r = 0"
  proof -
    have i: "tcAt c' < length (tcRows c)" "fst (tcRows c ! tcAt c') = keyColumn (packed p)"
      using m(5) [OF that] tcIdx_row [OF g] by simp_all
    then have "keyColumn (packed p) \<in> fst ` set (tcRows c)" using nth_mem [OF i(1)] by (metis imageI)
    with i show ?thesis by (simp add: tcTab_def tcKey_def dom_map_of_conv_image_fst m(2))
  qed
  then show "\<exists>r c'. eMoveto tabOps p n c = (SQLITE_OK, r, c') \<and> tcGoodIdx c' \<and> tcTab c' = tcTab c \<and>
      (r = 0 \<longrightarrow> keyColumn (packed p) \<in> dom (tcTab c) \<and> tcKey c' = keyColumn (packed p))"
    using m(1) same [OF m(2,3)] x by (simp add: tabOps_def tcMoveto_def)
  let ?k = "keyColumn (packed p)"
  obtain r c' where m: "tcSeek (\<lambda>r. fst r = ?k) c = (SQLITE_OK, r, c')" "tcRows c' = tcRows c" "tcIdx c' = tcIdx c"
    "r = 0 \<longleftrightarrow> (\<exists>x\<in>set (tcRows c). fst x = ?k)" "r = 0 \<Longrightarrow> tcAt c' < length (tcRows c) \<and> fst (tcRows c ! tcAt c') = ?k"
    by (rule tcSeek_ok) (rule that)
  have d: "(\<exists>x\<in>set (tcRows c). fst x = ?k) \<longleftrightarrow> ?k \<in> dom (tcTab c)" by (force simp: tcTab_def dom_map_of_conv_image_fst)
  have "btreeCursorMovetoKey tabOps True p n c = (SQLITE_OK, r, c')"
    using m(1) x by (cases p) (simp_all add: btreeCursorMovetoKey_def tabOps_def tcMovetoKey_def packed_def)
  then show "\<exists>r c'. btreeCursorMovetoKey tabOps True p n c = (SQLITE_OK, r, c') \<and> tcGoodIdx c' \<and> tcTab c' = tcTab c \<and>
      (r = 0 \<longleftrightarrow> ?k \<in> dom (tcTab c)) \<and> (r = 0 \<longrightarrow> tcKey c' = ?k)"
    using m(2,4,5) same [OF m(2,3)] d by (simp add: tcKey_def)
next
  fix c X Xs
  assume c: "tcGoodIdx c" "tcTodo c = X # Xs"
  show "recordAt tabOps True c = Inr X"
    by (rule tcTodo_step [OF c(2)]) (use c(1) in \<open>simp add: tcGoodIdx_def recordAt_def btreePayloadWithMalloc_def tabOps_def split_beta\<close>)
  show "\<exists>c'. eNext tabOps c = (if Xs = [] then SQLITE_DONE else SQLITE_OK, c') \<and> tcGoodIdx c' \<and> tcTab c' = tcTab c \<and> tcTodo c' = Xs"
    by (rule tcTodo_step [OF c(2)]) (use c(1) in \<open>auto simp: tabOps_def tcGoodIdx_def tcTab_def\<close>)
next
  fix c
  assume g: "tcGoodIdx c"
  have r: "map (\<lambda>r. (keyColumn (snd r), snd r)) (tcRows c) = tcRows c" using g by (auto simp: tcGoodIdx_def intro!: map_idI)
  have k: "map (\<lambda>r. keyColumn (snd r)) (tcRows c) = map fst (tcRows c)" using g by (auto simp: tcGoodIdx_def)
  have d: "distinct (map fst (tcRows c))" using g by (simp add: tcGoodIdx_def)
  from g r d show "\<exists>c'. eFirst tabOps c = (SQLITE_OK, if tcTodo c' = [] then 1 else 0, c') \<and> tcGoodIdx c' \<and> tcTab c' = tcTab c \<and>
      map_of (map (\<lambda>X. (keyColumn (packed (pKeyX X)), packed (pKeyX X))) (tcTodo c')) = tcTab c \<and> distinct (map (\<lambda>X. keyColumn (packed (pKeyX X))) (tcTodo c'))"
    by (simp add: tabOps_def tcTodo_def tcGoodIdx_def tcTab_def comp_def case_prod_unfold packed_def k)
next
  fix c f and X :: BtreePayload assume "tcGoodIdx c"
    "True \<Longrightarrow> if odd (f div OPFLAG_SAVEPOSITION) then tcKey c = keyColumn (packed (pKeyX X)) \<and> tcKey c \<in> dom (tcTab c) else keyColumn (packed (pKeyX X)) \<notin> dom (tcTab c)"
  then show "\<exists>c'. eInsert tabOps X f 0 c = (SQLITE_OK, c') \<and> tcGoodIdx c' \<and> tcTab c' = (tcTab c)(keyColumn (packed (pKeyX X)) \<mapsto> packed (pKeyX X))"
    using tcIdx_insert [of c f X 0] by (simp add: tabOps_def)
next
  fix c f assume g: "tcGoodIdx c"
  have "set (AList.delete (tcKey c) (tcRows c)) \<subseteq> set (tcRows c)" by (auto simp: AList.delete_eq)
  with g show "\<exists>c'. eDelete tabOps f c = (SQLITE_OK, c') \<and> tcGoodIdx c' \<and> tcTab c' = (tcTab c)(tcKey c := None)"
    by (auto simp: tabOps_def tcGoodIdx_def tcTab_def distinct_delete delete_conv' fun_eq_iff)
qed (simp_all add: tabOps_def tcGoodIdx_def tcTab_def)

section \<open>Properties\<close>

text \<open>
  C4. \<open>sqlite3TransBtreeInsert\<close> on a table with rowids. It returns with the row lock granted, refused
  or not obtained for lack of memory; a refused lock is reported as \<open>SQLITE_CORRUPT_ROWID\<close> where
  the rowid was chosen automatically. On success the transaction sees the table with the
  record stored under its rowid, on every other result the table as before; a record that
  replaces a shared one is entered among the deleted.
\<close>

theorem TransBtreeInsert_row:
  assumes laws: "trans_edit ops False good tab at todo kcol recv"
    and C: "transBtreeCursorIsUsed C" "\<not> hasKeyInfo C" "\<not> rowlockIsSequenceTable C" "table_edit.goodT good C"
    and inv: "trans_edit.syncT tab C" "sp_inv S" "row_inv (rowArea W)" "pgnoRoot I \<noteq> 0"
    and append: "odd (flags div OPFLAG_APPEND) \<or> seekResult \<noteq> 0 \<or> \<not> cursorSharedIsUsed C \<longrightarrow>
      kcol (pKeyX X) (nKeyX X) \<in> dom (tab (pCur C)) \<longrightarrow> kcol (pKeyX X) (nKeyX X) \<in> dom (tab (pCurDel C))"
  shows "\<exists>rc rcL C' S' m. sqlite3TransBtreeInsert me A ops I X flags seekResult C S W = Some (rc, C', S', W\<lparr>rowArea := m\<rparr>) \<and>
    table_edit.goodT good C' \<and> trans_edit.syncT tab C' \<and> sp_inv S' \<and> row_inv m \<and>
    rowLockOutcome (row_abs (rowArea W)) (pgnoRoot I, nKeyX X) (myPid me, myOwner me) rcL (row_abs m) \<and>
    rc = (if rcL = SQLITE_LOCKED \<and> autoRowid I = 1 then SQLITE_CORRUPT_ROWID else rcL) \<and>
    (\<forall>d. table_edit.view tab d C' =
       (if rc = SQLITE_OK then (table_edit.view tab d C)(kcol (pKeyX X) (nKeyX X) \<mapsto> recv X) else table_edit.view tab d C))"
  using trans_edit.insert_row [OF laws C(4,1-3) _ inv, of flags seekResult X me A] append by blast

definition demoTables :: "TabCur BtCursorT" where
  "demoTables = \<lparr>pCur = \<lparr>tcIdx = False, tcRows = [(1, [10]), (2, [20])], tcAt = 0\<rparr>, pCurIns = \<lparr>tcIdx = False, tcRows = [(3, [30])], tcAt = 0\<rparr>,
     pCurDel = \<lparr>tcIdx = False, tcRows = [(2, [])], tcAt = 0\<rparr>, stateT = CURSOR_USE_SHARED, typeT = 0, hasKeyInfo = False\<rparr>"

definition demoAlloc :: Alloc where
  "demoAlloc = \<lparr>aHistOk = True, aSpOk = True, aGrowOk = True, aCopyOk = True, aJunk = (\<lambda>_. zeroHistory),
     aPsmNew = 1, aPsmElem = 2, aPsmKeyOk = True, aPsmHtOk = True\<rparr>"

lemma demoTables_ok:
  "transBtreeCursorIsUsed demoTables" "\<not> hasKeyInfo demoTables" "\<not> rowlockIsSequenceTable demoTables" "tc.goodT demoTables"
  "tc.syncT demoTables" "cursorSharedIsUsed demoTables" "\<not> cursorTransIsUsed demoTables"
  by (auto simp: demoTables_def transBtreeCursorIsUsed_def rowlockIsSequenceTable_def tc.goodT_def tc.syncT_def tcGood_def tcTab_def
      cursorSharedIsUsed_def cursorTransIsUsed_def)

lemma demoWorld_rows: "row_inv (rowArea demoWorld)" "row_abs (rowArea demoWorld) = Map.empty" "nElementR (rowArea demoWorld) = 3"
  by (simp_all add: demoWorld_def row_init)
    (simp add: rowClassInitArea_def Let_def sizeof_RowMetaData_def sizeof_RowElement_def sub64_id)

theorem TransBtreeInsert_row_witness:
  "\<exists>rc C' S' m. sqlite3TransBtreeInsert demoCaller demoAlloc tabOps \<lparr>pgnoRoot = 5, aColl0 = 0, autoRowid = 0\<rparr>
      \<lparr>pKeyX = None, nKeyX = 1, pDataX = [11]\<rparr> 0 0 demoTables demoSavepoint demoWorld = Some (rc, C', S', demoWorld\<lparr>rowArea := m\<rparr>) \<and>
     (if rc = SQLITE_OK then tc.view False C' 1 = Some [11] \<and> row_abs m (5, 1) = Some (7, 1) else tc.view False C' 1 = Some [10])"
proof -
  let ?I = "\<lparr>pgnoRoot = 5, aColl0 = 0, autoRowid = 0\<rparr>" and ?X = "\<lparr>pKeyX = None, nKeyX = 1, pDataX = [11]\<rparr>"
  have v: "tc.view False demoTables 1 = Some [10]" by (simp add: tc.view_def demoTables_def tcTab_def)
  have h: "pgnoRoot ?I \<noteq> 0" "odd (0 div OPFLAG_APPEND) \<or> 0 \<noteq> 0 \<or> \<not> cursorSharedIsUsed demoTables \<longrightarrow>
      nKeyX ?X \<in> dom (tcTab (pCur demoTables)) \<longrightarrow> nKeyX ?X \<in> dom (tcTab (pCurDel demoTables))"
    using demoTables_ok(6) by simp_all
  obtain rc rcL C' S' m where r: "sqlite3TransBtreeInsert demoCaller demoAlloc tabOps ?I ?X 0 0 demoTables demoSavepoint demoWorld =
      Some (rc, C', S', demoWorld\<lparr>rowArea := m\<rparr>)" "tc.goodT C'" "tc.syncT C'" "sp_inv S'" "row_inv m"
    "rowLockOutcome (row_abs (rowArea demoWorld)) (pgnoRoot ?I, nKeyX ?X) (myPid demoCaller, myOwner demoCaller) rcL (row_abs m)"
    "rc = (if rcL = SQLITE_LOCKED \<and> autoRowid ?I = 1 then SQLITE_CORRUPT_ROWID else rcL)"
    "\<forall>d. tc.view d C' = (if rc = SQLITE_OK then (tc.view d demoTables)(nKeyX ?X \<mapsto> pDataX ?X) else tc.view d demoTables)"
    using TransBtreeInsert_row [OF tc.trans_edit_axioms demoTables_ok(1-5) demoSavepoint_ok(1) demoWorld_rows(1) h, of demoCaller demoAlloc]
    by (elim exE conjE) (rule that)
  have "row_abs m (5, 1) = Some (7, 1)" if "rc = SQLITE_OK"
    using rowLockOutcome_OK [of _ _ _ "row_abs m"] r(6,7) that by (auto simp: demoCaller_def)
  with r(1,8) v show ?thesis by (intro exI [of _ rc] exI [of _ C'] exI [of _ S'] exI [of _ m]) simp
qed

text \<open>
  C5. \<open>sqlite3TransBtreeDelete\<close> on a table with rowids. On a record of the shared table the row is
  locked first and on success disappears from what the transaction sees; on a
  record of the transaction itself it disappears, and the lock is given up exactly where the record
  does not replace a shared one.
\<close>

theorem TransBtreeDelete_row:
  assumes laws: "trans_edit ops False good tab at todo kcol recv"
    and C: "transBtreeCursorIsUsed C" "\<not> hasKeyInfo C" "table_edit.goodT good C"
    and inv: "trans_edit.syncT tab C" "sp_inv S" "row_inv (rowArea W)" "pgnoRoot I \<noteq> 0"
    and k: "k = (if cursorTransIsUsed C then at (pCurIns C) else at (pCur C))"
      "if cursorTransIsUsed C then k \<in> dom (tab (pCurIns C)) else k \<in> dom (tab (pCur C)) - dom (tab (pCurDel C))"
  shows "\<exists>n rc C' S' m. kcol None n = k \<and> sqlite3TransBtreeDelete me A ops I flags C S W = Some (rc, C', S', W\<lparr>rowArea := m\<rparr>) \<and>
    table_edit.goodT good C' \<and> trans_edit.syncT tab C' \<and> sp_inv S' \<and> row_inv m \<and>
    (\<forall>d. table_edit.view tab d C' = (if rc = SQLITE_OK then (table_edit.view tab d C)(k := None) else table_edit.view tab d C)) \<and>
    (if cursorTransIsUsed C
     then rc = SQLITE_OK \<and> S' = S \<and>
       row_abs m = (if k \<in> dom (tab (pCurDel C)) then row_abs (rowArea W) else (row_abs (rowArea W))((pgnoRoot I, n) := None))
     else rowLockOutcome (row_abs (rowArea W)) (pgnoRoot I, n) (myPid me, myOwner me) rc (row_abs m))"
proof (cases "cursorTransIsUsed C")
  case True
  then show ?thesis
    using trans_edit.delete_trans_row [OF laws C(3) True C(2) _ inv(1,3), of k me A I flags S] k inv(2) by fastforce
next
  case False
  then show ?thesis
    using trans_edit.delete_shared_row [OF laws C(3,1) False C(2) _ inv, of k me A flags] k by fastforce
qed

theorem TransBtreeDelete_row_witness:
  "\<exists>rc C' S' m. sqlite3TransBtreeDelete demoCaller demoAlloc tabOps \<lparr>pgnoRoot = 5, aColl0 = 0, autoRowid = 0\<rparr> 0
      demoTables demoSavepoint demoWorld = Some (rc, C', S', demoWorld\<lparr>rowArea := m\<rparr>) \<and>
     tc.view False C' 1 = (if rc = SQLITE_OK then None else Some [10])"
proof -
  let ?I = "\<lparr>pgnoRoot = 5, aColl0 = 0, autoRowid = 0\<rparr>"
  have k: "1 = (if cursorTransIsUsed demoTables then tcKey (pCurIns demoTables) else tcKey (pCur demoTables))"
    "if cursorTransIsUsed demoTables then 1 \<in> dom (tcTab (pCurIns demoTables))
     else 1 \<in> dom (tcTab (pCur demoTables)) - dom (tcTab (pCurDel demoTables))"
    by (simp_all add: demoTables_def cursorTransIsUsed_def tcKey_def tcTab_def)
  have v: "tc.view False demoTables 1 = Some [10]" by (simp add: tc.view_def demoTables_def tcTab_def)
  obtain n rc C' S' m where "sqlite3TransBtreeDelete demoCaller demoAlloc tabOps ?I 0 demoTables demoSavepoint demoWorld = Some (rc, C', S', demoWorld\<lparr>rowArea := m\<rparr>)"
    "\<forall>d. tc.view d C' = (if rc = SQLITE_OK then (tc.view d demoTables)(1 := None) else tc.view d demoTables)"
    using TransBtreeDelete_row [OF tc.trans_edit_axioms demoTables_ok(1,2,4,5) demoSavepoint_ok(1) demoWorld_rows(1) _ k, of ?I demoCaller demoAlloc 0]
    by auto
  with v show ?thesis by (intro exI [of _ rc] exI [of _ C'] exI [of _ S'] exI [of _ m]) simp
qed

text \<open>
  The commit of one table, \<open>transBtreeCommitTableDelete\<close> followed by \<open>transBtreeCommitTableInsert\<close>, ends
  and leaves in the shared table exactly what the transaction saw: the shared records it has not
  deleted, none of them after a deletion of all records, overridden by the inserted ones. It holds for
  tables with rowids and for indexes.
\<close>

theorem commitTable_installs_view:
  assumes laws: "table_edit ops isIdx good tab at todo kcol recv" and g: "table_edit.goodT good C"
    and del: "dom (tab (pCurDel C)) \<subseteq> dom (tab (pCur C))" "iDel root = 0 \<longrightarrow> tab (pCurDel C) = Map.empty"
      "isIdx \<longrightarrow> deleteAll root = 0 \<longrightarrow> dom (tab (pCurIns C)) \<inter> dom (tab (pCur C)) \<subseteq> dom (tab (pCurDel C))"
  shows "\<exists>C'. commitTable ops isIdx root C = Some (SQLITE_OK, C') \<and>
    tab (pCur C') = (if deleteAll root \<noteq> 0 then Map.empty else tab (pCur C) |` (- dom (tab (pCurDel C)))) ++ tab (pCurIns C)"
  using table_edit.commit_table [OF laws g del] by (auto simp: table_edit.view_def [OF laws])

theorem commitTable_installs_view_witness:
  "\<exists>C'. commitTable tabOps False \<lparr>iIns = 3, iDel = 4, deleteAll = 0, pKeyInfo = 0\<rparr> demoTables = Some (SQLITE_OK, C') \<and>
     tcTab (pCur C') = [1 \<mapsto> [10], 3 \<mapsto> [30]]"
proof -
  have "dom (tcTab (pCurDel demoTables)) \<subseteq> dom (tcTab (pCur demoTables))" by (simp add: demoTables_def tcTab_def)
  from commitTable_installs_view [OF tc.table_edit_axioms demoTables_ok(4) this, of "\<lparr>iIns = 3, iDel = 4, deleteAll = 0, pKeyInfo = 0\<rparr>"]
  obtain C' where "commitTable tabOps False \<lparr>iIns = 3, iDel = 4, deleteAll = 0, pKeyInfo = 0\<rparr> demoTables = Some (SQLITE_OK, C')"
    "tcTab (pCur C') = tcTab (pCur demoTables) |` (- dom (tcTab (pCurDel demoTables))) ++ tcTab (pCurIns demoTables)" by auto
  moreover have "tcTab (pCur demoTables) |` (- dom (tcTab (pCurDel demoTables))) ++ tcTab (pCurIns demoTables) = [1 \<mapsto> [10], 3 \<mapsto> [30]]"
    by (auto simp: demoTables_def tcTab_def fun_eq_iff restrict_map_def map_add_def split: option.splits)
  ultimately show ?thesis by auto
qed

text \<open>
  C40. A rollback can release the row lock of another connection: the row is inserted and deleted again in a
  transaction, which gives up its lock but leaves its entry in the history; another connection
  locks the row; rolling back to a savepoint taken before then unlocks the row, although
  the other connection holds it.
\<close>

theorem rollback_frees_foreign_lock:
  assumes inv: "sp_inv S" "row_inv (rowArea W)" "t \<noteq> 0" "row_abs (rowArea W) (t, r) = None"
    and create: "rowlockSavepointCreate histOk spOk growOk junk S k = (SQLITE_OK, S1)"
    and lock: "lockRecordAndAddHistory me histOk spOk growOk junk' S1 W t r = Some (SQLITE_OK, S2, W2)"
    and unlock: "sqlite3rowlockIpcUnlockRecord (rowArea W2) t r = Some m3"
    and other: "sqlite3rowlockIpcLockRecord m3 p ow t r = Some (SQLITE_OK, m4)"
  shows "row_abs m4 (t, r) = Some (p, ow) \<and>
    (\<exists>S5 W5. rowlockSavepoint me S2 (W2\<lparr>rowArea := m4\<rparr>) SAVEPOINT_ROLLBACK k = Some (S5, W5) \<and> row_abs (rowArea W5) (t, r) = None)"
proof -
  let ?e = "\<lparr>iLockRecord = nHistory S, iSavepoint = k\<rparr>"
  have c: "sp_inv S1" "hist S1 = hist S" "\<exists>xs. saves S1 = xs @ [?e]"
    using create_ok [OF inv(1) create] by (metis append_butlast_last_id)+
  then obtain xs where xs: "saves S1 = xs @ ?e # []" by blast
  have a: "rowsAdded me S1 W [(t, r)] S2 W2"
    using lockRecord_added [OF c(1) inv(2,3) lock] lockRecord_held [OF c(1) inv(2,3) lock] inv(4) by (auto simp: rowsAdded_def)
  have S2: "sp_inv S2" "saves S2 = xs @ ?e # []" "hist S2 = hist S @ [recordEntry (t, r)]" "row_inv (rowArea W2)"
    using a c(2) xs by (simp_all add: rowsAdded_def)
  obtain m3' where m3: "sqlite3rowlockIpcUnlockRecord (rowArea W2) t r = Some m3'" "row_inv m3'" by (rule row_unlock_refines [OF S2(4), of t r])
  obtain m4' where m4: "sqlite3rowlockIpcLockRecord m3 p ow t r = Some (fst (spec_lock (nElementR m3 - 1) (row_abs m3) (t, r) (p, ow)), m4')"
    "row_abs m4' = snd (spec_lock (nElementR m3 - 1) (row_abs m3) (t, r) (p, ow))" "row_inv m4'"
    using row_lock_refines [OF _ inv(3), of m3 p ow r] m3 unlock by auto
  have m4r: "row_abs m4 (t, r) = Some (p, ow)" "row_inv m4"
    using m4 other by (auto simp: spec_lock_def split: option.splits if_splits)
  obtain S5 where S5: "rowlockSavepoint me S2 (W2\<lparr>rowArea := m4\<rparr>) SAVEPOINT_ROLLBACK k =
      map_option (\<lambda>W'. (S5, W')) (undoAll me (rev (drop (nHistory S) (hist S2))) (W2\<lparr>rowArea := m4\<rparr>))"
    using rollback_mark [OF S2(1,2), of k me "W2\<lparr>rowArea := m4\<rparr>"] by auto
  have "length (hist S) = nHistory S" using inv(1) by (simp add: length_hist sp_inv_def)
  then have h: "rev (drop (nHistory S) (hist S2)) = map recordEntry [(t, r)]" by (simp add: S2(3))
  obtain W5 where "undoAll me (map recordEntry [(t, r)]) (W2\<lparr>rowArea := m4\<rparr>) = Some W5" "row_abs (rowArea W5) (t, r) = None"
    using undo_rows [of "W2\<lparr>rowArea := m4\<rparr>" me "[(t, r)]"] m4r(2) by auto
  with S5 h m4r(1) show ?thesis by simp
qed

theorem rollback_frees_foreign_lock_witness:
  "\<exists>S2 W2 m3 m4 S5 W5. lockRecordAndAddHistory demoCaller True True True (\<lambda>_. zeroHistory) demoSavepoint demoWorld 5 42 = Some (SQLITE_OK, S2, W2) \<and>
     sqlite3rowlockIpcUnlockRecord (rowArea W2) 5 42 = Some m3 \<and> sqlite3rowlockIpcLockRecord m3 8 1 5 42 = Some (SQLITE_OK, m4) \<and>
     row_abs m4 (5, 42) = Some (8, 1) \<and>
     rowlockSavepoint demoCaller S2 (W2\<lparr>rowArea := m4\<rparr>) SAVEPOINT_ROLLBACK 3 = Some (S5, W5) \<and> row_abs (rowArea W5) (5, 42) = None"
proof -
  obtain m where m: "sqlite3rowlockIpcLockRecord (rowArea demoWorld) 7 1 5 42 = Some (SQLITE_OK, m)" "row_inv m" "row_abs m = [(5, 42) \<mapsto> (7, 1)]" "nElementR m = 3"
    by (rule row_lock_refines [OF demoWorld_rows(1), of 5 7 1 42]) (auto simp: demoWorld_rows spec_lock_def)
  obtain S2 where H: "sqlite3rowlockHistoryAddRecord True True True (\<lambda>_. zeroHistory) demoSavepoint 5 42 = (SQLITE_OK, S2)"
    using demoSavepoint_create(2-4) by (auto simp: sqlite3rowlockHistoryAddRecord_def sqlite3rowlockHistoryAdd_def growHistory_def)
  obtain m3 where m3: "sqlite3rowlockIpcUnlockRecord m 5 42 = Some m3" "row_inv m3" "row_abs m3 = Map.empty" "nElementR m3 = 3"
    by (rule row_unlock_refines [OF m(2), of 5 42]) (auto simp: m fun_eq_iff)
  obtain m4 where m4: "sqlite3rowlockIpcLockRecord m3 8 1 5 42 = Some (SQLITE_OK, m4)"
    by (rule row_lock_refines [OF m3(2), of 5 8 1 42]) (auto simp: m3 spec_lock_def)
  have l: "lockRecordAndAddHistory demoCaller True True True (\<lambda>_. zeroHistory) demoSavepoint demoWorld 5 42 = Some (SQLITE_OK, S2, demoWorld\<lparr>rowArea := m\<rparr>)"
    using m(1) H by (simp add: lockRecordAndAddHistory_def demoCaller_def)
  show ?thesis
    using rollback_frees_foreign_lock [OF sp_inv_zero demoWorld_rows(1) _ _ demoSavepoint_create(1) l, of m3 8 1 m4] m3(1) m4 l
    by (auto simp: demoWorld_rows(2))
qed

end
