(* ===== verification/Trans_Seek.thy ===== *)
theory Trans_Seek
  imports Trans_Btree
begin

text \<open>
  Seeking by key through the merged cursors of \<open>rowlock.c\<close>, \<open>sqlite3BtreeMovetoUnpackedAll\<close> and its helpers. A search
  key is a rowid or an unpacked index record; the functions of SQLite's own btree and record
  comparison are the record \<open>SeekOps\<close>. The hint \<open>biasRight\<close> is 0 in every call and left out.
  \<open>None\<close> is a loop that does not end.
\<close>

section \<open>Search keys and operations\<close>

record 'r UnpackedRecord =
  aMem :: 'r
  nFieldU :: nat
  nKeyField :: nat
  default_rc :: int
  eqSeen :: u8

datatype OpCode = OP_None | OP_SeekLT | OP_SeekLE | OP_SeekGE | OP_SeekGT | OP_NoConflict | OP_Other

text \<open>
  \<open>sMovetoIdx\<close> is \<open>sqlite3BtreeMovetoUnpacked\<close> with an index record (for a rowid it is \<open>eMovetoUnpacked\<close> of \<open>sEd\<close>), and
  \<open>xRecordCompare\<close> the comparison that \<open>sqlite3VdbeFindCompare\<close> selects; both may set \<open>eqSeen\<close>.
\<close>

record ('c, 'r) SeekOps =
  sBt :: "'c BtOps"
  sEd :: "'c EditOps"
  sMovetoIdx :: "'r UnpackedRecord \<Rightarrow> 'c \<Rightarrow> rc \<times> int \<times> 'r UnpackedRecord \<times> 'c"
  xRecordCompare :: "blob \<Rightarrow> 'r UnpackedRecord \<Rightarrow> int \<times> 'r UnpackedRecord"

definition movetoUnpacked ::
  "('c, 'r) SeekOps \<Rightarrow> 'r UnpackedRecord option \<Rightarrow> i64 \<Rightarrow> 'c \<Rightarrow> rc \<times> int \<times> 'r UnpackedRecord option \<times> 'c" where
  "movetoUnpacked ops pIdxKey intKey c =
     (case pIdxKey of
        None \<Rightarrow> (let (rc, res, c') = eMovetoUnpacked (sEd ops) None intKey c in (rc, res, None, c'))
      | Some r \<Rightarrow> (let (rc, res, r', c') = sMovetoIdx ops r c in (rc, res, Some r', c')))"

definition sqlite3BtreeSkipNextAll :: "('c \<Rightarrow> 'c) \<Rightarrow> 'c BtCursorT \<Rightarrow> 'c BtCursorT" where
  "sqlite3BtreeSkipNextAll xSkipNext C =
     (let C1 = C\<lparr>pCur := xSkipNext (pCur C)\<rparr> in
      if transBtreeCursorIsUsed C1 then C1\<lparr>pCurIns := xSkipNext (pCurIns C1)\<rparr> else C1)"

section \<open>Comparing with a search key\<close>

text \<open>Only the key columns are compared in a table without rowid.\<close>

definition btreeKeyCompare :: "('c, 'r) SeekOps \<Rightarrow> blob \<Rightarrow> 'r UnpackedRecord \<Rightarrow> int \<times> 'r UnpackedRecord" where
  "btreeKeyCompare ops pKey r =
     (if nFieldU r > nKeyField r
      then (let (ret, r') = xRecordCompare ops pKey (r\<lparr>nFieldU := nKeyField r\<rparr>) in (ret, r'\<lparr>nFieldU := nFieldU r\<rparr>))
      else xRecordCompare ops pKey r)"

definition idxKeyCompareOfCursor :: "('c, 'r) SeekOps \<Rightarrow> 'r UnpackedRecord \<Rightarrow> 'c \<Rightarrow> rc + i64 \<times> 'r UnpackedRecord" where
  "idxKeyCompareOfCursor ops r c =
     (case btreePayloadWithMalloc (sEd ops) c of Inl rc \<Rightarrow> Inl rc | Inr pKey \<Rightarrow> Inr (btreeKeyCompare ops pKey r))"

definition btreeKeyCompareOfCursor ::
  "('c, 'r) SeekOps \<Rightarrow> 'r UnpackedRecord option \<Rightarrow> i64 \<Rightarrow> 'c \<Rightarrow> rc + i64 \<times> 'r UnpackedRecord option" where
  "btreeKeyCompareOfCursor ops pIdxKey intKey c =
     (case pIdxKey of
        None \<Rightarrow> Inr (toI64 (intKey - eIntegerKey (sEd ops) c), None)
      | Some r \<Rightarrow> (case idxKeyCompareOfCursor ops r c of Inl rc \<Rightarrow> Inl rc | Inr (cmp, r') \<Rightarrow> Inr (cmp, Some r')))"

section \<open>Gathering the cursors on one side of the key\<close>

definition isForward :: "OpCode \<Rightarrow> bool" where
  "isForward opcode \<longleftrightarrow> opcode = OP_SeekGE \<or> opcode = OP_SeekGT"

definition isBackward :: "OpCode \<Rightarrow> bool" where
  "isBackward opcode \<longleftrightarrow> opcode = OP_SeekLE \<or> opcode = OP_SeekLT"

text \<open>The choice of the cursor after both have been placed: state and \<open>*pRes\<close>.\<close>

definition sameSideChoice :: "int \<Rightarrow> int \<Rightarrow> int \<Rightarrow> i64 \<Rightarrow> nat \<times> int" where
  "sameSideChoice direction res resIns resCmp =
     (let before = (toI64 (direction * resCmp) < 0) in
      if res * resIns < 0 then (if before then CURSOR_USE_TRANS else CURSOR_USE_SHARED, direction)
      else if res < 0 then (if before then CURSOR_USE_TRANS else CURSOR_USE_SHARED, res)
      else (if before then CURSOR_USE_SHARED else CURSOR_USE_TRANS, res))"

definition sameSideChoose ::
  "('c, 'r) SeekOps \<Rightarrow> int \<Rightarrow> int \<Rightarrow> int \<Rightarrow> 'c BtCursorT \<Rightarrow> rc \<times> int \<times> 'c BtCursorT" where
  "sameSideChoose ops direction res resIns C =
     (case btreeKeyCompareCursors (sBt ops) (pCur C) (pCurIns C) of
        Inl rc \<Rightarrow> (rc, 0, C)
      | Inr resCmp \<Rightarrow> (let (s, r) = sameSideChoice direction res resIns resCmp in (SQLITE_OK, r, C\<lparr>stateT := s\<rparr>)))"

definition sqlite3BtreeMovetoSameSide ::
  "('c, 'r) SeekOps \<Rightarrow> OpCode \<Rightarrow> int \<Rightarrow> int \<Rightarrow> 'c BtCursorT \<Rightarrow> (rc \<times> int \<times> 'c BtCursorT) option" where
  "sqlite3BtreeMovetoSameSide ops opcode res resIns C =
     (let d = (if isForward opcode then Next else Previous);
          direction = (if isForward opcode then 1 else - 1)
      in if res * resIns < 0 then
           (if direction * res < 0 then
              (let (rc, c) = xAdvance (sBt ops) d (pCur C) in
               if rc \<noteq> SQLITE_OK \<and> rc \<noteq> SQLITE_DONE then Some (rc, 0, C\<lparr>pCur := c\<rparr>)
               else Option.bind (btreeSeekToExist (sBt ops) d (C\<lparr>pCur := c\<rparr>)) (\<lambda>(rc', C2).
                 if rc' \<noteq> SQLITE_OK then Some (rc', 0, C2)
                 else if \<not> btreeCursorIsPointing (sBt ops) (pCur C2) then Some (SQLITE_OK, direction, C2\<lparr>stateT := CURSOR_USE_TRANS\<rparr>)
                 else Some (sameSideChoose ops direction res resIns C2)))
            else
              (let (rc, ci) = xAdvance (sBt ops) d (pCurIns C); C2 = C\<lparr>pCurIns := ci\<rparr> in
               if rc \<noteq> SQLITE_OK \<and> rc \<noteq> SQLITE_DONE then Some (rc, 0, C2)
               else if \<not> btreeCursorIsPointing (sBt ops) ci then Some (SQLITE_OK, direction, C2\<lparr>stateT := CURSOR_USE_SHARED\<rparr>)
               else Some (sameSideChoose ops direction res resIns C2)))
         else Some (sameSideChoose ops direction res resIns C))"

section \<open>Deleted records\<close>

text \<open>The result: return code, \<open>*pRet\<close>, and the cursor of deleted records moved to the key.\<close>

definition btreeIsDeleted :: "('c, 'r) SeekOps \<Rightarrow> 'c BtCursorT \<Rightarrow> rc \<times> int \<times> 'c BtCursorT" where
  "btreeIsDeleted ops C =
     (if \<not> btreeCursorIsPointing (sBt ops) (pCur C) then (SQLITE_OK, - 1, C)
      else case (if \<not> hasKeyInfo C then Inr (None, eIntegerKey (sEd ops) (pCur C))
                 else case btreePayloadWithMalloc (sEd ops) (pCur C) of Inl rc \<Rightarrow> Inl rc | Inr b \<Rightarrow> Inr (Some b, int (length b))) of
          Inl rc \<Rightarrow> (rc, 0, C)
        | Inr (pKey, nKey) \<Rightarrow>
            let (rc, del) = (if needsSeek (opState (sBt ops) (pCurDel C)) \<and> \<not> opTreeEmpty (sBt ops) (pCurDel C)
                             then opRestore (sBt ops) (pCurDel C) else (SQLITE_OK, pCurDel C))
            in if rc \<noteq> SQLITE_OK then (rc, 0, C\<lparr>pCurDel := del\<rparr>)
               else let (rc', res, del') = btreeCursorMovetoKey (sEd ops) (hasKeyInfo C) pKey nKey del
                    in (rc', res, C\<lparr>pCurDel := del'\<rparr>))"

text \<open>An error of the movement ends the loop without being reported; an error of the comparison leaves \<open>default_rc\<close> 0.\<close>

partial_function (option) countSameKeyLoop ::
  "('c, 'r) SeekOps \<Rightarrow> Advance \<Rightarrow> 'r UnpackedRecord \<Rightarrow> u64 \<Rightarrow> 'c \<Rightarrow> (rc \<times> u64 \<times> 'r UnpackedRecord \<times> 'c) option" where
  "countSameKeyLoop ops d r n c =
     (case idxKeyCompareOfCursor ops r c of
        Inl rc \<Rightarrow> Some (rc, n, r, c)
      | Inr (cmp, r') \<Rightarrow>
          if cmp \<noteq> 0 then Some (SQLITE_OK, n, r', c)
          else let (rc, c') = xAdvance (sBt ops) d c in
            if rc = SQLITE_OK then countSameKeyLoop ops d r' ((n + 1) mod 2 ^ 64) c'
            else Some (SQLITE_OK, (n + 1) mod 2 ^ 64, r', c'))"

definition btreeCursorCountSameKey ::
  "('c, 'r) SeekOps \<Rightarrow> Advance \<Rightarrow> 'r UnpackedRecord \<Rightarrow> 'c \<Rightarrow> (rc \<times> u64 \<times> 'r UnpackedRecord \<times> 'c) option" where
  "btreeCursorCountSameKey ops d r c =
     Option.bind (countSameKeyLoop ops d (r\<lparr>default_rc := 0\<rparr>) 0 c) (\<lambda>(rc, n, r', c').
       if rc \<noteq> SQLITE_OK then Some (rc, 0, r', c') else Some (SQLITE_OK, n, r'\<lparr>default_rc := default_rc r\<rparr>, c'))"

section \<open>The seek\<close>

text \<open>
  Whether an index key found in the shared table is not deleted: the records with this key are
  counted in the shared table and in the deleted ones. The result: return code, \<open>res\<close>, \<open>eqSeen\<close>, the search key and the cursor.
\<close>

definition seekCountDel ::
  "('c, 'r) SeekOps \<Rightarrow> Advance \<Rightarrow> 'r UnpackedRecord \<Rightarrow> 'c \<Rightarrow> (rc \<times> u64 \<times> 'r UnpackedRecord \<times> 'c) option" where
  "seekCountDel ops d r del =
     (let (rc, resDel, r1, del1) = sMovetoIdx ops (r\<lparr>eqSeen := 0\<rparr>) del in
      if rc \<noteq> SQLITE_OK then Some (rc, 0, r1, del1)
      else if eqSeen r1 = 0 then Some (SQLITE_OK, 0, r1, del1)
      else let (rc2, del2) = (if resDel \<noteq> default_rc r1 then xAdvance (sBt ops) d del1 else (SQLITE_OK, del1)) in
        if rc2 \<noteq> SQLITE_OK \<and> rc2 \<noteq> SQLITE_DONE then Some (rc2, 0, r1, del2)
        else if rc2 = SQLITE_OK then btreeCursorCountSameKey ops d r1 del2
        else Some (SQLITE_OK, 0, r1, del2))"

definition seekCountKeys ::
  "('c, 'r) SeekOps \<Rightarrow> Advance \<Rightarrow> int \<Rightarrow> 'r UnpackedRecord \<Rightarrow> 'c BtCursorT \<Rightarrow>
   (rc \<times> int \<times> u8 \<times> 'r UnpackedRecord option \<times> 'c BtCursorT) option" where
  "seekCountKeys ops d res r C =
     (case idxKeyCompareOfCursor ops (r\<lparr>default_rc := 0\<rparr>) (pCur C) of
        Inl rc \<Rightarrow> Some (rc, res, 0, Some r, C)
      | Inr (resCmp, r0) \<Rightarrow>
          let r1 = r0\<lparr>default_rc := default_rc r\<rparr>;
              (rc, c1) = (if resCmp \<noteq> 0 \<and> res \<noteq> default_rc r1 then xAdvance (sBt ops) d (pCur C) else (SQLITE_OK, pCur C))
          in if rc \<noteq> SQLITE_OK \<and> rc \<noteq> SQLITE_DONE then Some (rc, res, 0, Some r1, C\<lparr>pCur := c1\<rparr>)
             else Option.bind (if rc = SQLITE_OK then btreeCursorCountSameKey ops d r1 c1 else Some (SQLITE_OK, 0, r1, c1))
               (\<lambda>(rc2, n, r2, c2).
                  if rc2 \<noteq> SQLITE_OK then Some (rc2, res, 0, Some r2, C\<lparr>pCur := c2\<rparr>)
                  else Option.bind (seekCountDel ops d r2 (pCurDel C)) (\<lambda>(rc3, nDel, r3, del).
                    let C3 = C\<lparr>pCur := c2, pCurDel := del\<rparr> in
                    if rc3 \<noteq> SQLITE_OK then Some (rc3, res, 0, Some r3, C3)
                    else let (rc4, res', r4, c4) = sMovetoIdx ops r3 c2 in
                      Some (rc4, res', if n > nDel then 1 else 0, Some r4, C3\<lparr>pCur := c4\<rparr>))))"

definition seekEqSeen ::
  "('c, 'r) SeekOps \<Rightarrow> OpCode \<Rightarrow> int \<Rightarrow> 'r UnpackedRecord option \<Rightarrow> 'c BtCursorT \<Rightarrow>
   (rc \<times> int \<times> u8 \<times> 'r UnpackedRecord option \<times> 'c BtCursorT) option" where
  "seekEqSeen ops opcode res pIdxKey C =
     (case pIdxKey of
        None \<Rightarrow> Some (SQLITE_OK, res, 0, None, C)
      | Some r \<Rightarrow>
          if eqSeen r \<noteq> 0 \<and> default_rc r \<noteq> 0 then seekCountKeys ops (if isForward opcode then Next else Previous) res r C
          else Some (SQLITE_OK, res, eqSeen r, Some r, C))"

text \<open>Moving the shared cursor away from a deleted record: forward, and backward where no record follows.\<close>

definition seekAround ::
  "('c, 'r) SeekOps \<Rightarrow> 'r UnpackedRecord option \<Rightarrow> i64 \<Rightarrow> 'c BtCursorT \<Rightarrow>
   (rc \<times> int \<times> 'r UnpackedRecord option \<times> 'c BtCursorT) option" where
  "seekAround ops pIdxKey intKey C =
     (let (rc1, c1) = xAdvance (sBt ops) Next (pCur C) in
      if rc1 \<noteq> SQLITE_OK \<and> rc1 \<noteq> SQLITE_DONE then Some (rc1, 0, pIdxKey, C\<lparr>pCur := c1\<rparr>)
      else Option.bind (btreeSeekToExist (sBt ops) Next (C\<lparr>pCur := c1\<rparr>)) (\<lambda>(rc2, C2).
        if rc2 \<noteq> SQLITE_OK then Some (rc2, 0, pIdxKey, C2)
        else if btreeCursorIsPointing (sBt ops) (pCur C2) then Some (SQLITE_OK, 1, pIdxKey, C2)
        else let (rc3, res, r3, c3) = movetoUnpacked ops pIdxKey intKey (pCur C2) in
          if rc3 \<noteq> SQLITE_OK then Some (rc3, 0, r3, C2\<lparr>pCur := c3\<rparr>)
          else let (rc4, c4) = xAdvance (sBt ops) Previous c3 in
            if rc4 \<noteq> SQLITE_OK \<and> rc4 \<noteq> SQLITE_DONE then Some (rc4, 0, r3, C2\<lparr>pCur := c4\<rparr>)
            else Option.bind (btreeSeekToExist (sBt ops) Previous (C2\<lparr>pCur := c4\<rparr>)) (\<lambda>(rc5, C5).
              if rc5 \<noteq> SQLITE_OK then Some (rc5, 0, r3, C5) else Some (SQLITE_OK, - 1, r3, C5))))"

definition seekSkipDeleted ::
  "('c, 'r) SeekOps \<Rightarrow> OpCode \<Rightarrow> bool \<Rightarrow> i64 \<Rightarrow> int \<Rightarrow> u8 \<Rightarrow> 'r UnpackedRecord option \<Rightarrow> 'c BtCursorT \<Rightarrow>
   (rc \<times> int \<times> u8 \<times> 'r UnpackedRecord option \<times> 'c BtCursorT) option" where
  "seekSkipDeleted ops opcode delAll intKey res eqS pIdxKey C =
     (if delAll then Some (SQLITE_OK, - 1, 0, pIdxKey, C\<lparr>pCur := opSetState (sBt ops) CURSOR_INVALID (pCur C)\<rparr>)
      else let (rc, resDel, C1) = btreeIsDeleted ops C in
        if rc \<noteq> SQLITE_OK then Some (rc, res, eqS, pIdxKey, C1)
        else if \<not> (resDel = 0 \<and> opcode \<noteq> OP_None) then Some (SQLITE_OK, res, eqS, pIdxKey, C1)
        else Option.bind (seekAround ops pIdxKey intKey C1) (\<lambda>(rc2, res2, r2, C2).
          Some (rc2, res2, (case r2 of Some r \<Rightarrow> if eqSeen r \<noteq> 0 \<and> default_rc r \<noteq> 0 then eqS else 0 | None \<Rightarrow> 0), r2, C2)))"

text \<open>Placing the cursor that is not used where the key is found in the other table.\<close>

definition moveOther :: "'c BtOps \<Rightarrow> OpCode \<Rightarrow> int \<Rightarrow> 'c \<Rightarrow> rc \<times> 'c" where
  "moveOther bt opcode res c =
     (if btreeCursorIsPointing bt c \<and> res < 0 \<and> isForward opcode then xAdvance bt Next c
      else if btreeCursorIsPointing bt c \<and> res > 0 \<and> isBackward opcode then xAdvance bt Previous c
      else (SQLITE_OK, c))"

definition seekFound ::
  "('c, 'r) SeekOps \<Rightarrow> OpCode \<Rightarrow> int \<Rightarrow> int \<Rightarrow> bool \<Rightarrow> 'c BtCursorT \<Rightarrow> rc \<times> int \<times> 'c BtCursorT" where
  "seekFound ops opcode res resIns inTrans C =
     (if inTrans then
        (let (rc, c) = moveOther (sBt ops) opcode res (pCur C); C1 = C\<lparr>stateT := CURSOR_USE_TRANS, pCur := c\<rparr> in
         if rc \<noteq> SQLITE_OK \<and> rc \<noteq> SQLITE_DONE then (rc, resIns, C1) else (SQLITE_OK, resIns, C1))
      else
        (let (rc, ci) = moveOther (sBt ops) opcode resIns (pCurIns C); C1 = C\<lparr>stateT := CURSOR_USE_SHARED, pCurIns := ci\<rparr> in
         if rc \<noteq> SQLITE_OK \<and> rc \<noteq> SQLITE_DONE then (rc, res, C1) else (SQLITE_OK, res, C1)))"

definition seekNotFound ::
  "('c, 'r) SeekOps \<Rightarrow> OpCode \<Rightarrow> int \<Rightarrow> int \<Rightarrow> 'c BtCursorT \<Rightarrow> (rc \<times> int \<times> 'c BtCursorT) option" where
  "seekNotFound ops opcode res resIns C =
     (if btreeCursorIsPointing (sBt ops) (pCur C) then
        (if btreeCursorIsPointing (sBt ops) (pCurIns C) then
           (if isForward opcode \<or> isBackward opcode then
              (let (rc, resDel, C1) = btreeIsDeleted ops C in
               if rc \<noteq> SQLITE_OK then Some (rc, 0, C1) else sqlite3BtreeMovetoSameSide ops opcode res resIns C1)
            else Some (SQLITE_OK, res, C\<lparr>stateT := CURSOR_USE_SHARED\<rparr>))
         else Some (SQLITE_OK, res, C\<lparr>stateT := CURSOR_USE_SHARED\<rparr>))
      else Some (SQLITE_OK, resIns, C\<lparr>stateT := CURSOR_USE_TRANS\<rparr>))"

text \<open>The last step for \<open>OP_SeekGE\<close>: a cursor of deleted records that has run off its table is placed again.\<close>

definition seekRestoreDel :: "('c, 'r) SeekOps \<Rightarrow> OpCode \<Rightarrow> 'r UnpackedRecord option \<Rightarrow> i64 \<Rightarrow> 'c BtCursorT \<Rightarrow> 'c BtCursorT" where
  "seekRestoreDel ops opcode pIdxKey intKey C =
     (if opState (sBt ops) (pCurDel C) = CURSOR_INVALID \<and> opcode = OP_SeekGE
      then (let (rc, res, r, del) = movetoUnpacked ops pIdxKey intKey (pCurDel C) in C\<lparr>pCurDel := del\<rparr>) else C)"

text \<open>
  The root page of the table is \<open>pRootPage\<close>, \<open>None\<close> where the mapping has no entry. The result: return
  code, \<open>*pRes\<close>, the search key with its new \<open>eqSeen\<close>, and the cursor.
\<close>

definition sqlite3BtreeMovetoUnpackedAll ::
  "('c, 'r) SeekOps \<Rightarrow> TransRootPage option \<Rightarrow> 'r UnpackedRecord option \<Rightarrow> i64 \<Rightarrow> OpCode \<Rightarrow> 'c BtCursorT \<Rightarrow>
   (rc \<times> int \<times> 'r UnpackedRecord option \<times> 'c BtCursorT) option" where
  "sqlite3BtreeMovetoUnpackedAll ops pRootPage pIdxKey intKey opcode C =
     (let (rc0, res0, r0, c0) = movetoUnpacked ops (map_option (\<lambda>r. r\<lparr>eqSeen := 0\<rparr>) pIdxKey) intKey (pCur C); C0 = C\<lparr>pCur := c0\<rparr> in
      if rc0 \<noteq> SQLITE_OK then Some (rc0, 0, r0, C0)
      else if \<not> transBtreeCursorIsUsed C0 then Some (SQLITE_OK, res0, r0, C0)
      else Option.bind (seekEqSeen ops opcode res0 r0 C0) (\<lambda>(rc1, res1, eqS1, r1, C1).
        if rc1 \<noteq> SQLITE_OK then Some (rc1, 0, r1, C1)
        else case pRootPage of
            None \<Rightarrow> Some (SQLITE_OK, res1, r1, C1)
          | Some root \<Rightarrow>
              Option.bind (seekSkipDeleted ops opcode (deleteAll root \<noteq> 0) intKey res1 eqS1 r1 C1) (\<lambda>(rc2, res, eqS, r2, C2).
                if rc2 \<noteq> SQLITE_OK then Some (rc2, 0, r2, C2)
                else let (rc3, resIns, r3, ci) = movetoUnpacked ops (map_option (\<lambda>r. r\<lparr>eqSeen := 0\<rparr>) r2) intKey (pCurIns C2);
                         C3 = C2\<lparr>pCurIns := ci\<rparr>; eqSIns = (case r3 of None \<Rightarrow> 0 | Some r \<Rightarrow> eqSeen r)
                in if rc3 \<noteq> SQLITE_OK then Some (rc3, 0, r3, C3)
                   else Option.bind
                     (if eqS \<noteq> 0 \<or> eqSIns \<noteq> 0 \<or> resIns = 0 \<or> res = 0
                      then Some (seekFound ops opcode res resIns (eqSIns \<noteq> 0 \<or> resIns = 0) C3)
                      else seekNotFound ops opcode res resIns C3)
                     (\<lambda>(rc4, pRes, C4).
                        if rc4 \<noteq> SQLITE_OK then Some (rc4, pRes, r3, C4)
                        else Some (SQLITE_OK, pRes, map_option (\<lambda>r. r\<lparr>eqSeen := (eqS + eqSIns) mod 256\<rparr>) r3,
                                   seekRestoreDel ops opcode r3 intKey C4)))))"

section \<open>A range scan\<close>

text \<open>
  What the opcodes \<open>OP_SeekGE\<close>, \<open>OP_SeekGT\<close>, \<open>OP_SeekLE\<close> and \<open>OP_SeekLT\<close> of the VDBE do after the seek on a table with rowids: one
  more step where the cursor is on the wrong side of the key or on the key itself, and, for the
  backward ones, the test \<open>sqlite3BtreeEof\<close> of the shared cursor. Then the records are read one by one.
\<close>

definition seekScan :: "('c, 'r) SeekOps \<Rightarrow> TransRootPage option \<Rightarrow> i64 \<Rightarrow> OpCode \<Rightarrow> 'c BtCursorT \<Rightarrow> BtKey list option" where
  "seekScan ops root k opcode C =
     Option.bind (sqlite3BtreeMovetoUnpackedAll ops root None k opcode C) (\<lambda>(rc, res, r, C1).
       if rc \<noteq> SQLITE_OK then None
       else if isForward opcode then
         (if res < 0 \<or> res = 0 \<and> opcode = OP_SeekGT then
            Option.bind (sqlite3BtreeAdvanceAll (sBt ops) Next C1) (\<lambda>(rc, C2).
              if rc = SQLITE_OK then scanLoop (sBt ops) Next C2 else if rc = SQLITE_DONE then Some [] else None)
          else scanLoop (sBt ops) Next C1)
       else
         (if res > 0 \<or> res = 0 \<and> opcode = OP_SeekLT then
            Option.bind (sqlite3BtreeAdvanceAll (sBt ops) Previous C1) (\<lambda>(rc, C2).
              if rc = SQLITE_OK then scanLoop (sBt ops) Previous C2 else if rc = SQLITE_DONE then Some [] else None)
          else if opState (sBt ops) (pCur C1) \<noteq> CURSOR_VALID then Some []
          else scanLoop (sBt ops) Previous C1))"

section \<open>Advancing from a position that is not aligned\<close>

context merge_cursors
begin

lemma advance_from:
  assumes c: "advanceCorrect ops d C = Some (SQLITE_OK, C1)" "good (pCur C)" "transBtreeCursorIsUsed C"
    and C1: "cursorInv D C1" "aligned D C1" and prev: "\<And>p. prevOk p (rest (pCur C)) \<Longrightarrow> prevOk p (rest (pCur C1))"
  shows "\<exists>C'. sqlite3BtreeAdvanceAll ops d C = Some (if tl (vis D C1) = [] then SQLITE_DONE else SQLITE_OK, C') \<and>
    cursorInv D C' \<and> vis D C' = tl (vis D C1) \<and> (tl (vis D C1) \<noteq> [] \<longrightarrow> aligned D C')"
proof -
  obtain p where p: "(if btreeCursorIsPointing ops (pCur C) then btreeValidTableKey ops (pCur C) 0 (d = Next) else (SQLITE_OK, 0)) = (SQLITE_OK, p)"
      "prevOk p (rest (pCur C))"
    using old_key [OF c(2)] .
  obtain C2 C3 where step: "advanceShared ops d p C1 = (SQLITE_OK, C2)" "advanceTrans ops d C2 = (SQLITE_OK, C3)"
    and C3: "cursorInv D C3" "vis D C3 = tl (vis D C1)"
    using advance_step [OF C1 prev [OF p(2)]] by (elim exE conjE) (rule that)
  obtain C4 where seek: "btreeSeekToExistAll ops d C3 = Some (SQLITE_OK, if vis D C3 = [] then 1 else 0, C4)"
    and C4: "cursorInv D C4" "vis D C4 = vis D C3" "vis D C3 \<noteq> [] \<longrightarrow> aligned D C4"
    using seek_exist_all [OF C3(1)] by (elim exE conjE) (rule that)
  have "sqlite3BtreeAdvanceAll ops d C = Some (if tl (vis D C1) = [] then SQLITE_DONE else SQLITE_OK, C4)"
    using p(1) c(3) step seek C3(2) by (simp add: sqlite3BtreeAdvanceAll_def c(1))
  with C4 C3(2) show ?thesis by (intro exI [of _ C4]) simp
qed

text \<open>The unused cursor is one record behind the one in use.\<close>

lemma correct_shared_behind:
  assumes inv: "cursorInv D C" and st: "stateT C = CURSOR_USE_TRANS"
    and r: "rest (pCur C) = x # xs" "rest (pCurIns C) = y # ys" "lt x y" "\<forall>x' xs'. xs = x' # xs' \<longrightarrow> lt y x'"
  shows "\<exists>C1. advanceCorrect ops d C = Some (SQLITE_OK, C1) \<and> cursorInv D C1 \<and> aligned D C1 \<and>
    vis D C1 = y # mergeKeys lt (filter (\<lambda>k. k \<notin> D) xs) ys \<and> rest (pCur C1) = xs"
proof -
  have g: "good (pCur C)" "good (pCurIns C)" using inv by (simp_all add: cursorInv_def)
  obtain i where i: "btreeKeyCompareCursors ops (pCur C) (pCurIns C) = Inr i" "cmpBefore d i \<longleftrightarrow> lt x y"
    using cmp_ok [OF g r(1,2)] by (elim exE conjE) (rule that)
  obtain c' where c': "xAdvance ops d (pCur C) = (if xs = [] then SQLITE_DONE else SQLITE_OK, c')" "good c'" "rest c' = xs"
    using adv_ok [OF g(1) r(1)] by (elim exE conjE) (rule that)
  define C1 where "C1 = C\<lparr>pCur := c'\<rparr>"
  have C1: "cursorInv D C1" "aligned D C1" "stateT C1 = CURSOR_USE_TRANS" "rest (pCur C1) = xs"
    using inv c'(2,3) r st by (auto simp: C1_def cursorInv_def delSync_def aligned_def)
  have "advanceCorrect ops d C = advanceCorrect ops d C1"
    using r(1,2,3) i st c'(1)
    by (subst advanceCorrect.simps) (simp add: pointing g cursorSharedIsUsed_def cursorTransIsUsed_def C1_def)
  then have "advanceCorrect ops d C = Some (SQLITE_OK, C1)" using correct_noop [OF C1(1,2)] by simp
  moreover have "vis D C1 = y # mergeKeys lt (filter (\<lambda>k. k \<notin> D) xs) ys"
    using C1 r(2) by (cases rule: aligned_cases [OF C1(1,2)]) (auto simp: C1_def)
  ultimately show ?thesis using C1 by blast
qed

lemma correct_inserted_behind:
  assumes inv: "cursorInv D C" and st: "stateT C = CURSOR_USE_SHARED" and x: "x \<notin> D"
    and r: "rest (pCur C) = x # xs" "rest (pCurIns C) = y # ys" "lt y x" "\<forall>y' ys'. ys = y' # ys' \<longrightarrow> \<not> lt y' x"
  shows "\<exists>C1. advanceCorrect ops d C = Some (SQLITE_OK, C1) \<and> cursorInv D C1 \<and> aligned D C1 \<and>
    vis D C1 = x # mergeKeys lt (filter (\<lambda>k. k \<notin> D) xs) ys \<and> rest (pCur C1) = x # xs"
proof -
  have g: "good (pCur C)" "good (pCurIns C)" using inv by (simp_all add: cursorInv_def)
  obtain i where i: "btreeKeyCompareCursors ops (pCur C) (pCurIns C) = Inr i" "cmpAfter d i \<longleftrightarrow> lt y x"
    using cmp_ok [OF g r(1,2)] by (elim exE conjE) (rule that)
  obtain c' where c': "xAdvance ops d (pCurIns C) = (if ys = [] then SQLITE_DONE else SQLITE_OK, c')" "good c'" "rest c' = ys"
    using adv_ok [OF g(2) r(2)] by (elim exE conjE) (rule that)
  define C1 where "C1 = C\<lparr>pCurIns := c'\<rparr>"
  have C1: "cursorInv D C1" "aligned D C1" "stateT C1 = CURSOR_USE_SHARED" "rest (pCur C1) = x # xs" "rest (pCurIns C1) = ys"
    using inv c'(2,3) r st x by (auto simp: C1_def cursorInv_def delSync_def aligned_def)
  have "advanceCorrect ops d C = advanceCorrect ops d C1"
    using r(1,2,3) i st c'(1)
    by (subst advanceCorrect.simps) (simp add: pointing g cursorSharedIsUsed_def cursorTransIsUsed_def C1_def)
  then have "advanceCorrect ops d C = Some (SQLITE_OK, C1)" using correct_noop [OF C1(1,2)] by simp
  moreover have "vis D C1 = x # mergeKeys lt (filter (\<lambda>k. k \<notin> D) xs) ys"
    using C1 by (cases rule: aligned_cases [OF C1(1,2)]) auto
  ultimately show ?thesis using C1 by blast
qed

end

section \<open>What the seek relies on\<close>

text \<open>
  A cursor on a table with rowids can be travelled in both directions (\<open>restN\<close>, \<open>restP\<close>); \<open>tree\<close> is the list of its keys. The
  seek of SQLite's own btree ends on the key, or on a neighbour of it on either side.
\<close>

locale seek_cursors =
  fwd: merge_cursors "sBt ops" Next restN ltN ok good + bwd: merge_cursors "sBt ops" Previous restP ltP ok good
  for ops :: "('c, 'r) SeekOps" and restN :: "'c \<Rightarrow> BtKey list" and restP :: "'c \<Rightarrow> BtKey list" and ltN ltP ok good +
  fixes tree :: "'c \<Rightarrow> BtKey list"
  assumes rest_tree: "good c \<Longrightarrow> set (restN c) \<subseteq> set (tree c)"
    and tree_ok: "good c \<Longrightarrow> x \<in> set (tree c) \<Longrightarrow> ok x"
    and tree_sorted: "good c \<Longrightarrow> sorted_wrt ltN (tree c)"
    and adv_invalid: "good c \<Longrightarrow> restN c = [] \<Longrightarrow> \<exists>c'. xAdvance (sBt ops) dir c = (SQLITE_DONE, c') \<and> good c' \<and> restN c' = []"
    and invalid_ok: "good c \<Longrightarrow> good (opSetState (sBt ops) CURSOR_INVALID c) \<and> restN (opSetState (sBt ops) CURSOR_INVALID c) = []"
    and cmp_i64: "btreeKeyCompareCursors (sBt ops) c1 c2 = Inr i \<Longrightarrow> - (2 ^ 63) \<le> i \<and> i < 2 ^ 63"
    and rowid_ok: "good c \<Longrightarrow> restN c = x # xs \<Longrightarrow> x = IntKey (eIntegerKey (sEd ops) c)"
    and moveto_ok: "good c \<Longrightarrow> ok (IntKey k) \<Longrightarrow>
      \<exists>r c'. eMovetoUnpacked (sEd ops) None k c = (SQLITE_OK, r, c') \<and> good c' \<and> tree c' = tree c \<and>
        (restN c' = [] \<longleftrightarrow> tree c = []) \<and> (r = 0 \<longleftrightarrow> IntKey k \<in> set (tree c)) \<and> (tree c = [] \<longrightarrow> r < 0) \<and>
        (r = 0 \<longrightarrow> restN c' = IntKey k # filter (ltN (IntKey k)) (tree c)) \<and>
        (0 < r \<longrightarrow> restN c' = filter (ltN (IntKey k)) (tree c)) \<and>
        (r < 0 \<longrightarrow> tree c \<noteq> [] \<longrightarrow> (\<exists>x. restN c' = x # filter (ltN (IntKey k)) (tree c) \<and> ltN x (IntKey k)))"
begin

lemma restP_Nil: "good c \<Longrightarrow> restP c = [] \<longleftrightarrow> restN c = []"
  using fwd.state_ok [of c] bwd.state_ok [of c] by (auto split: if_splits)

lemma pointing: "good c \<Longrightarrow> btreeCursorIsPointing (sBt ops) c \<longleftrightarrow> restN c \<noteq> []"
  by (rule fwd.pointing)

lemma advance:
  assumes "good c"
  obtains rc c' where "xAdvance (sBt ops) dir c = (rc, c')" "rc = SQLITE_OK \<or> rc = SQLITE_DONE" "good c'"
    "dir = Next \<longrightarrow> restN c' = tl (restN c)"
proof (cases "restN c")
  case Nil
  then show thesis using adv_invalid [OF assms Nil, of dir] that by auto
next
  case (Cons x xs)
  show thesis
  proof (cases dir)
    case Next
    obtain c' where "xAdvance (sBt ops) Next c = (if xs = [] then SQLITE_DONE else SQLITE_OK, c')" "good c'" "restN c' = xs"
      using fwd.adv_ok [OF assms Cons] by blast
    then show thesis using Next Cons by (intro that) (auto split: if_splits)
  next
    case Previous
    obtain y ys where r: "restP c = y # ys" using restP_Nil [OF assms] Cons by (cases "restP c") auto
    obtain c' where "xAdvance (sBt ops) Previous c = (if ys = [] then SQLITE_DONE else SQLITE_OK, c')" "good c'"
      using bwd.adv_ok [OF assms r] by blast
    then show thesis using Previous by (intro that) (auto split: if_splits)
  qed
qed

text \<open>The three cursors of a table with rowids.\<close>

definition goodS :: "'c BtCursorT \<Rightarrow> bool" where
  "goodS C \<longleftrightarrow> good (pCur C) \<and> good (pCurIns C) \<and> good (pCurDel C) \<and> \<not> hasKeyInfo C"

lemma skip_existing:
  assumes "goodS C"
  shows "\<exists>C'. btreeSeekToExist (sBt ops) dir C = Some (SQLITE_OK, C') \<and> goodS C' \<and> pCurIns C' = pCurIns C \<and> stateT C' = stateT C"
proof -
  have frame: "hasKeyInfo C' = hasKeyInfo C" if "btreeSeekToExist (sBt ops) dir C = Some (rc, C')" for rc C'
    using that by (auto simp: btreeSeekToExist_def Let_def bind_eq_Some_conv split: if_splits prod.splits)
  show ?thesis
  proof (cases dir)
    case Next
    have "fwd.cursorInv (set (restN (pCurDel C))) C" using assms by (simp add: goodS_def fwd.cursorInv_def fwd.delSync_def)
    from fwd.seek_exist [OF this] obtain C' where "btreeSeekToExist (sBt ops) Next C = Some (SQLITE_OK, C')"
      "fwd.cursorInv (set (restN (pCurDel C))) C'" "pCurIns C' = pCurIns C" "stateT C' = stateT C" by blast
    then show ?thesis using Next frame assms by (auto simp: goodS_def fwd.cursorInv_def)
  next
    case Previous
    have "bwd.cursorInv (set (restP (pCurDel C))) C" using assms by (simp add: goodS_def bwd.cursorInv_def bwd.delSync_def)
    from bwd.seek_exist [OF this] obtain C' where "btreeSeekToExist (sBt ops) Previous C = Some (SQLITE_OK, C')"
      "bwd.cursorInv (set (restP (pCurDel C))) C'" "pCurIns C' = pCurIns C" "stateT C' = stateT C" by blast
    then show ?thesis using Previous frame assms by (auto simp: goodS_def bwd.cursorInv_def)
  qed
qed

lemma is_deleted:
  assumes "goodS C"
  obtains r del where "btreeIsDeleted ops C = (SQLITE_OK, r, C\<lparr>pCurDel := del\<rparr>)" "good del" "tree del = tree (pCurDel C)"
    "\<And>x xs. restN (pCur C) = x # xs \<Longrightarrow> r = 0 \<longleftrightarrow> x \<in> set (tree (pCurDel C))"
    "restN (pCur C) = [] \<Longrightarrow> r = - 1 \<and> del = pCurDel C"
    "\<And>x xs. restN (pCur C) = x # xs \<Longrightarrow> set (filter (\<lambda>y. y = x \<or> ltN x y) (tree (pCurDel C))) \<subseteq> set (restN del)"
proof (cases "restN (pCur C)")
  case Nil
  then have "btreeIsDeleted ops C = (SQLITE_OK, - 1, C)" using assms by (simp add: btreeIsDeleted_def goodS_def pointing)
  then show thesis using Nil assms by (intro that [of "- 1" "pCurDel C"]) (simp_all add: goodS_def)
next
  case (Cons x xs)
  have g: "good (pCur C)" "good (pCurDel C)" "\<not> hasKeyInfo C" using assms by (simp_all add: goodS_def)
  define k where "k = eIntegerKey (sEd ops) (pCur C)"
  have x: "x = IntKey k" unfolding k_def by (rule rowid_ok [OF g(1) Cons])
  have okx: "ok (IntKey k)" using fwd.keys_ok [OF g(1), of x] Cons x by simp
  obtain r del where m: "eMovetoUnpacked (sEd ops) None k (pCurDel C) = (SQLITE_OK, r, del)" "good del" "tree del = tree (pCurDel C)"
    "r = 0 \<longleftrightarrow> IntKey k \<in> set (tree (pCurDel C))" "restN del = [] \<longleftrightarrow> tree (pCurDel C) = []"
    "r = 0 \<longrightarrow> restN del = IntKey k # filter (ltN (IntKey k)) (tree (pCurDel C))"
    "0 < r \<longrightarrow> restN del = filter (ltN (IntKey k)) (tree (pCurDel C))"
    "r < 0 \<longrightarrow> tree (pCurDel C) \<noteq> [] \<longrightarrow> (\<exists>x. restN del = x # filter (ltN (IntKey k)) (tree (pCurDel C)) \<and> ltN x (IntKey k))"
    using moveto_ok [OF g(2) okx] by blast
  have "btreeIsDeleted ops C = (SQLITE_OK, r, C\<lparr>pCurDel := del\<rparr>)"
    using g Cons m(1) fwd.no_seek [OF g(2)]
    by (simp add: btreeIsDeleted_def pointing btreeCursorMovetoKey_def k_def [symmetric])
  moreover have "set (filter (\<lambda>y. y = x \<or> ltN x y) (tree (pCurDel C))) \<subseteq> set (restN del)"
  proof (cases "tree (pCurDel C) = []")
    case False
    consider "r = 0" | "0 < r" | "r < 0" by linarith
    then show ?thesis using m(4,6-8) False x by cases auto
  qed simp
  ultimately show thesis using m(2-4) Cons x by (intro that [of r del]) simp_all
qed

lemma around:
  assumes "goodS C" "ok (IntKey k)"
  shows "\<exists>res C'. seekAround ops None k C = Some (SQLITE_OK, res, None, C') \<and> goodS C' \<and> res \<noteq> 0 \<and> pCurIns C' = pCurIns C \<and> stateT C' = stateT C"
proof -
  have g: "good (pCur C)" using assms by (simp add: goodS_def)
  obtain rc1 c1 where c1: "xAdvance (sBt ops) Next (pCur C) = (rc1, c1)" "rc1 = SQLITE_OK \<or> rc1 = SQLITE_DONE" "good c1"
    using advance [OF g] by blast
  have "goodS (C\<lparr>pCur := c1\<rparr>)" using assms c1(3) by (simp add: goodS_def)
  from skip_existing [OF this, of Next] obtain C2 where C2: "btreeSeekToExist (sBt ops) Next (C\<lparr>pCur := c1\<rparr>) = Some (SQLITE_OK, C2)"
    "goodS C2" "pCurIns C2 = pCurIns C" "stateT C2 = stateT C" by auto
  have g2: "good (pCur C2)" using C2(2) by (simp add: goodS_def)
  obtain r c3 where c3: "eMovetoUnpacked (sEd ops) None k (pCur C2) = (SQLITE_OK, r, c3)" "good c3" using moveto_ok [OF g2 assms(2)] by blast
  obtain rc4 c4 where c4: "xAdvance (sBt ops) Previous c3 = (rc4, c4)" "rc4 = SQLITE_OK \<or> rc4 = SQLITE_DONE" "good c4"
    using advance [OF c3(2)] by blast
  have "goodS (C2\<lparr>pCur := c4\<rparr>)" using C2(2) c4(3) by (simp add: goodS_def)
  from skip_existing [OF this, of Previous] obtain C5 where C5: "btreeSeekToExist (sBt ops) Previous (C2\<lparr>pCur := c4\<rparr>) = Some (SQLITE_OK, C5)"
    "goodS C5" "pCurIns C5 = pCurIns C2" "stateT C5 = stateT C2" by auto
  have s: "\<not> (rc1 \<noteq> SQLITE_OK \<and> rc1 \<noteq> SQLITE_DONE)" "\<not> (rc4 \<noteq> SQLITE_OK \<and> rc4 \<noteq> SQLITE_DONE)" using c1(2) c4(2) by simp_all
  have "seekAround ops None k C = (if btreeCursorIsPointing (sBt ops) (pCur C2) then Some (SQLITE_OK, 1, None, C2) else Some (SQLITE_OK, - 1, None, C5))"
    using s by (simp add: seekAround_def c1(1) C2(1) movetoUnpacked_def c3(1) c4(1) C5(1) del: de_Morgan_conj)
  then show ?thesis using C2 C5 by (cases "btreeCursorIsPointing (sBt ops) (pCur C2)") auto
qed

end

context seek_cursors
begin

lemma choose:
  assumes "good (pCur C)" "good (pCurIns C)" "restN (pCur C) \<noteq> []" "restN (pCurIns C) \<noteq> []"
  obtains i where "btreeKeyCompareCursors (sBt ops) (pCur C) (pCurIns C) = Inr i"
    "i < 0 \<longleftrightarrow> ltN (hd (restN (pCur C))) (hd (restN (pCurIns C)))" "i = 0 \<longleftrightarrow> hd (restN (pCur C)) = hd (restN (pCurIns C))"
    "sameSideChoose ops direction res resIns C =
      (SQLITE_OK, snd (sameSideChoice direction res resIns i), C\<lparr>stateT := fst (sameSideChoice direction res resIns i)\<rparr>)"
proof -
  obtain x xs y ys where r: "restN (pCur C) = x # xs" "restN (pCurIns C) = y # ys" using assms(3,4) by (meson neq_Nil_conv)
  obtain i where i: "btreeKeyCompareCursors (sBt ops) (pCur C) (pCurIns C) = Inr i" "cmpBefore Next i \<longleftrightarrow> ltN x y" "i = 0 \<longleftrightarrow> x = y"
    using fwd.cmp_ok [OF assms(1,2) r] by blast
  then show thesis using r by (intro that) (auto simp: cmpBefore_def sameSideChoose_def Let_def split: prod.splits)
qed

lemma same_side_nonzero:
  assumes "goodS C" "restN (pCur C) \<noteq> []" "restN (pCurIns C) \<noteq> []" "res \<noteq> 0"
  shows "\<exists>pRes C'. sqlite3BtreeMovetoSameSide ops opcode res resIns C = Some (SQLITE_OK, pRes, C') \<and> pRes \<noteq> 0"
proof -
  define d where "d = (if isForward opcode then Next else Previous)"
  define dir :: int where "dir = (if isForward opcode then 1 else - 1)"
  have nz: "snd (sameSideChoice dir res resIns i) \<noteq> 0" for i using assms(4) by (simp add: sameSideChoice_def Let_def dir_def)
  have ch: "\<exists>p C'. sameSideChoose ops dir res resIns X = (SQLITE_OK, p, C') \<and> p \<noteq> 0"
    if "good (pCur X)" "good (pCurIns X)" "restN (pCur X) \<noteq> []" "restN (pCurIns X) \<noteq> []" for X
    by (rule choose [OF that, of dir res resIns]) (use nz in auto)
  have g: "good (pCur C)" "good (pCurIns C)" using assms(1) by (simp_all add: goodS_def)
  obtain rc c where c: "xAdvance (sBt ops) d (pCur C) = (rc, c)" "rc = SQLITE_OK \<or> rc = SQLITE_DONE" "good c" using advance [OF g(1)] by blast
  obtain rci ci where ci: "xAdvance (sBt ops) d (pCurIns C) = (rci, ci)" "rci = SQLITE_OK \<or> rci = SQLITE_DONE" "good ci" using advance [OF g(2)] by blast
  have "goodS (C\<lparr>pCur := c\<rparr>)" using assms(1) c(3) by (simp add: goodS_def)
  from skip_existing [OF this, of d] obtain C2 where C2: "btreeSeekToExist (sBt ops) d (C\<lparr>pCur := c\<rparr>) = Some (SQLITE_OK, C2)"
    "goodS C2" "pCurIns C2 = pCurIns C" by auto
  have ok: "\<not> (rc \<noteq> SQLITE_OK \<and> rc \<noteq> SQLITE_DONE)" "\<not> (rci \<noteq> SQLITE_OK \<and> rci \<noteq> SQLITE_DONE)" using c(2) ci(2) by simp_all
  have run: "sqlite3BtreeMovetoSameSide ops opcode res resIns C =
     (if res * resIns < 0 then
        (if dir * res < 0 then
           (if restN (pCur C2) = [] then Some (SQLITE_OK, dir, C2\<lparr>stateT := CURSOR_USE_TRANS\<rparr>) else Some (sameSideChoose ops dir res resIns C2))
         else (if restN ci = [] then Some (SQLITE_OK, dir, C\<lparr>pCurIns := ci, stateT := CURSOR_USE_SHARED\<rparr>)
               else Some (sameSideChoose ops dir res resIns (C\<lparr>pCurIns := ci\<rparr>))))
      else Some (sameSideChoose ops dir res resIns C))"
    unfolding sqlite3BtreeMovetoSameSide_def d_def [symmetric] dir_def [symmetric] Let_def
    using ok C2(2) by (simp add: c(1) ci(1) C2(1) pointing ci(3) goodS_def del: de_Morgan_conj)
  have "dir \<noteq> 0" by (simp add: dir_def)
  then show ?thesis
    using ch [of C2] ch [of C] ch [of "C\<lparr>pCurIns := ci\<rparr>"] C2(2,3) g ci(3) assms(2,3) unfolding run goodS_def
    by (auto split: if_splits)
qed

text \<open>The keys the transaction sees.\<close>

definition visible :: "bool \<Rightarrow> 'c BtCursorT \<Rightarrow> BtKey set" where
  "visible delAll C = (if delAll then {} else set (tree (pCur C)) - set (tree (pCurDel C))) \<union> set (tree (pCurIns C))"

text \<open>The keys a seek finds: with opcode 0 the deleted records of the shared table too.\<close>

definition sought :: "OpCode \<Rightarrow> bool \<Rightarrow> 'c BtCursorT \<Rightarrow> BtKey set" where
  "sought opcode delAll C =
     (if delAll then {} else if opcode = OP_None then set (tree (pCur C)) else set (tree (pCur C)) - set (tree (pCurDel C))) \<union> set (tree (pCurIns C))"

lemma sought_visible: "opcode \<noteq> OP_None \<Longrightarrow> sought opcode d C = visible d C"
  by (simp add: sought_def visible_def)

lemma skip_deleted:
  assumes "goodS C" "ok (IntKey k)" "r = 0 \<longleftrightarrow> IntKey k \<in> set (tree c)"
    and m: "good c" "restN c = [] \<longleftrightarrow> tree c = []" "r = 0 \<longrightarrow> hd (restN c) = IntKey k"
  shows "\<exists>res C'. seekSkipDeleted ops opcode delAll k r 0 None (C\<lparr>pCur := c\<rparr>) = Some (SQLITE_OK, res, 0, None, C') \<and> goodS C' \<and>
    pCurIns C' = pCurIns C \<and> stateT C' = stateT C \<and>
    (res = 0 \<longleftrightarrow> \<not> delAll \<and> IntKey k \<in> set (tree c) \<and> (IntKey k \<notin> set (tree (pCurDel C)) \<or> opcode = OP_None)) \<and> (res = 0 \<longrightarrow> pCur C' = c)"
proof (cases delAll)
  case True
  then show ?thesis using assms(1) invalid_ok [OF m(1)] by (auto simp: seekSkipDeleted_def goodS_def)
next
  case False
  let ?C = "C\<lparr>pCur := c\<rparr>"
  have g: "goodS ?C" using assms(1) m(1) by (simp add: goodS_def)
  obtain rd del where d: "btreeIsDeleted ops ?C = (SQLITE_OK, rd, ?C\<lparr>pCurDel := del\<rparr>)" "good del"
    "\<And>x xs. restN c = x # xs \<Longrightarrow> rd = 0 \<longleftrightarrow> x \<in> set (tree (pCurDel C))" "restN c = [] \<Longrightarrow> rd = - 1"
    by (rule is_deleted [OF g]) (erule that, simp_all)
  have g1: "goodS (?C\<lparr>pCurDel := del\<rparr>)" using g d(2) by (simp add: goodS_def)
  have key: "rd = 0 \<longleftrightarrow> IntKey k \<in> set (tree (pCurDel C))" if r0: "r = 0"
  proof -
    obtain x xs where "restN c = x # xs" using assms(3) m(2) r0 by (cases "restN c") auto
    with m(3) r0 show ?thesis using d(3) by simp
  qed
  obtain res C' where a: "seekAround ops None k (?C\<lparr>pCurDel := del\<rparr>) = Some (SQLITE_OK, res, None, C')" "goodS C'" "res \<noteq> 0"
    "pCurIns C' = pCurIns C" "stateT C' = stateT C" using around [OF g1 assms(2)] by auto
  show ?thesis
  proof (cases "rd = 0 \<and> opcode \<noteq> OP_None")
    case True
    then show ?thesis using a False assms(3) key by (simp add: seekSkipDeleted_def d(1))
  next
    case rd: False
    then show ?thesis using g1 False assms(3) key by (auto simp: seekSkipDeleted_def d(1))
  qed
qed

lemma found_ok:
  assumes "goodS C"
  shows "\<exists>C'. seekFound ops opcode res resIns inTrans C = (SQLITE_OK, if inTrans then resIns else res, C') \<and>
    stateT C' = (if inTrans then CURSOR_USE_TRANS else CURSOR_USE_SHARED) \<and> usedCursor C' = (if inTrans then pCurIns C else pCur C)"
proof -
  have mo: "\<exists>rc c'. moveOther (sBt ops) opcode n c = (rc, c') \<and> (rc = SQLITE_OK \<or> rc = SQLITE_DONE)" if "good c" for n c
  proof -
    obtain rc1 c1 where "xAdvance (sBt ops) Next c = (rc1, c1)" "rc1 = SQLITE_OK \<or> rc1 = SQLITE_DONE" using advance [OF \<open>good c\<close>] by metis
    moreover obtain rc2 c2 where "xAdvance (sBt ops) Previous c = (rc2, c2)" "rc2 = SQLITE_OK \<or> rc2 = SQLITE_DONE" using advance [OF \<open>good c\<close>] by metis
    ultimately show ?thesis by (simp add: moveOther_def)
  qed
  obtain rc c where c: "moveOther (sBt ops) opcode res (pCur C) = (rc, c)" "rc = SQLITE_OK \<or> rc = SQLITE_DONE"
    using mo [of "pCur C" res] assms unfolding goodS_def by blast
  obtain rci ci where ci: "moveOther (sBt ops) opcode resIns (pCurIns C) = (rci, ci)" "rci = SQLITE_OK \<or> rci = SQLITE_DONE"
    using mo [of "pCurIns C" resIns] assms unfolding goodS_def by blast
  show ?thesis using c ci by (auto simp: seekFound_def usedCursor_def cursorTransIsUsed_def)
qed

lemma not_found_ok:
  assumes "goodS C" "res \<noteq> 0" "resIns \<noteq> 0"
  shows "\<exists>pRes C'. seekNotFound ops opcode res resIns C = Some (SQLITE_OK, pRes, C') \<and> pRes \<noteq> 0"
proof -
  obtain rd del where d: "btreeIsDeleted ops C = (SQLITE_OK, rd, C\<lparr>pCurDel := del\<rparr>)" "good del" using is_deleted [OF assms(1)] by metis
  have "goodS (C\<lparr>pCurDel := del\<rparr>)" using assms(1) d(2) by (simp add: goodS_def)
  from same_side_nonzero [OF this _ _ assms(2)] show ?thesis
    using assms by (auto simp: seekNotFound_def d(1) pointing goodS_def)
qed

lemma integerKey_used: "sqlite3BtreeIntegerKeyAll bt C = opKey bt (usedCursor C)"
  by (simp add: sqlite3BtreeIntegerKeyAll_def usedCursor_def)

lemma usedCursor_del [simp]: "usedCursor (C\<lparr>pCurDel := x\<rparr>) = usedCursor C"
  by (simp add: usedCursor_def cursorTransIsUsed_def)

lemma lookup:
  assumes C: "goodS C" "transBtreeCursorIsUsed C" and k: "ok (IntKey k)"
  shows "\<exists>res C'. sqlite3BtreeMovetoUnpackedAll ops (Some root) None k opcode C = Some (SQLITE_OK, res, None, C') \<and>
    (res = 0 \<longleftrightarrow> IntKey k \<in> sought opcode (deleteAll root \<noteq> 0) C) \<and> (res = 0 \<longrightarrow> sqlite3BtreeIntegerKeyAll (sBt ops) C' = IntKey k)"
proof -
  have g: "good (pCur C)" "good (pCurIns C)" using C(1) by (simp_all add: goodS_def)
  obtain r c where c: "eMovetoUnpacked (sEd ops) None k (pCur C) = (SQLITE_OK, r, c)" "good c" "tree c = tree (pCur C)"
    "restN c = [] \<longleftrightarrow> tree c = []" "r = 0 \<longleftrightarrow> IntKey k \<in> set (tree c)" "r = 0 \<longrightarrow> hd (restN c) = IntKey k"
    using moveto_ok [OF g(1) k] by fastforce
  obtain res C2 where s: "seekSkipDeleted ops opcode (deleteAll root \<noteq> 0) k r 0 None (C\<lparr>pCur := c\<rparr>) = Some (SQLITE_OK, res, 0, None, C2)" "goodS C2"
    "pCurIns C2 = pCurIns C" "res = 0 \<longleftrightarrow> deleteAll root = 0 \<and> IntKey k \<in> set (tree c) \<and> (IntKey k \<notin> set (tree (pCurDel C)) \<or> opcode = OP_None)" "res = 0 \<longrightarrow> pCur C2 = c"
    using skip_deleted [OF C(1) k c(5,2,4,6), of opcode "deleteAll root \<noteq> 0"] by auto
  obtain ri ci where ci: "eMovetoUnpacked (sEd ops) None k (pCurIns C) = (SQLITE_OK, ri, ci)" "good ci"
    "restN ci = [] \<longleftrightarrow> tree (pCurIns C) = []" "ri = 0 \<longleftrightarrow> IntKey k \<in> set (tree (pCurIns C))" "ri = 0 \<longrightarrow> hd (restN ci) = IntKey k"
    using moveto_ok [OF g(2) k] by fastforce
  have s1: "seekSkipDeleted ops opcode (0 < deleteAll root) k r 0 None (C\<lparr>pCur := c\<rparr>) = Some (SQLITE_OK, res, 0, None, C2)" using s(1) by simp
  define C3 where "C3 = C2\<lparr>pCurIns := ci\<rparr>"
  have g3: "goodS C3" using s(2) ci(2) by (simp add: C3_def goodS_def)
  define fin where "fin = (if ri = 0 \<or> res = 0 then Some (seekFound ops opcode res ri (ri = 0) C3) else seekNotFound ops opcode res ri C3)"
  have run: "sqlite3BtreeMovetoUnpackedAll ops (Some root) None k opcode C =
      Option.bind fin (\<lambda>(rc4, pRes, C4). if rc4 \<noteq> SQLITE_OK then Some (rc4, pRes, None, C4) else Some (SQLITE_OK, pRes, None, seekRestoreDel ops opcode None k C4))"
    using C(2) by (simp add: sqlite3BtreeMovetoUnpackedAll_def movetoUnpacked_def c(1) transBtreeCursorIsUsed_def seekEqSeen_def s1 s(3) ci(1)
        C3_def [symmetric] fin_def cong: if_cong)
  have rd: "\<exists>X. seekRestoreDel ops opcode None k C4 = C4\<lparr>pCurDel := X\<rparr>" for C4
  proof (cases "opState (sBt ops) (pCurDel C4) = CURSOR_INVALID \<and> opcode = OP_SeekGE")
    case True
    then show ?thesis by (auto simp: seekRestoreDel_def split: prod.splits)
  next
    case False
    then have "seekRestoreDel ops opcode None k C4 = C4\<lparr>pCurDel := pCurDel C4\<rparr>" unfolding seekRestoreDel_def by auto
    then show ?thesis by blast
  qed
  have vis: "IntKey k \<in> sought opcode (deleteAll root \<noteq> 0) C \<longleftrightarrow> ri = 0 \<or> res = 0"
    using s(4) c(3) ci(4) by (auto simp: sought_def)
  have key: "opKey (sBt ops) X = IntKey k" if "good X" "restN X \<noteq> []" "hd (restN X) = IntKey k" for X
    using fwd.key_ok [OF that(1), of "hd (restN X)" "tl (restN X)"] that by (metis list.exhaust_sel)
  show ?thesis
  proof (cases "ri = 0 \<or> res = 0")
    case True
    obtain C4 where C4: "seekFound ops opcode res ri (ri = 0) C3 = (SQLITE_OK, if ri = 0 then ri else res, C4)"
      "usedCursor C4 = (if ri = 0 then pCurIns C3 else pCur C3)" using found_ok [OF g3, of opcode res ri "ri = 0"] by auto
    obtain X where X: "seekRestoreDel ops opcode None k C4 = C4\<lparr>pCurDel := X\<rparr>" using rd by blast
    have "opKey (sBt ops) (usedCursor C4) = IntKey k"
    proof (cases "ri = 0")
      case True
      then show ?thesis using key [OF ci(2)] ci(3-5) C4(2) by (auto simp: C3_def)
    next
      case ri: False
      then have "res = 0" "pCur C2 = c" using True s(5) by auto
      then show ?thesis using key [OF c(2)] c(4-6) C4(2) ri s(4) by (auto simp: C3_def)
    qed
    then show ?thesis using run True C4(1) X vis by (auto simp: fin_def integerKey_used)
  next
    case False
    obtain pRes C4 where C4: "seekNotFound ops opcode res ri C3 = Some (SQLITE_OK, pRes, C4)" "pRes \<noteq> 0"
      using not_found_ok [OF g3, of res ri opcode] False by auto
    then show ?thesis using run False vis by (simp add: fin_def)
  qed
qed

end

section \<open>Forward range scans\<close>

context seek_cursors
begin

text \<open>A cursor placed by a seek in a table with the keys \<open>T\<close>: on the key, on the first key after it, or on the last one before it.\<close>

definition placed :: "i64 \<Rightarrow> BtKey list \<Rightarrow> int \<Rightarrow> 'c \<Rightarrow> bool" where
  "placed k T r c \<longleftrightarrow> good c \<and> (r = 0 \<longrightarrow> restN c = IntKey k # filter (ltN (IntKey k)) T) \<and>
     (0 < r \<longrightarrow> restN c \<noteq> [] \<and> restN c = filter (ltN (IntKey k)) T) \<and>
     (r < 0 \<longrightarrow> restN c = [] \<and> T = [] \<or> (\<exists>x. restN c = x # filter (ltN (IntKey k)) T \<and> ltN x (IntKey k)))"

lemma placed_good: "placed k T r c \<Longrightarrow> good c"
  by (simp add: placed_def)

lemma moveto_placed:
  assumes "good c" "ok (IntKey k)"
  obtains r c' where "eMovetoUnpacked (sEd ops) None k c = (SQLITE_OK, r, c')" "placed k (tree c) r c'" "good c'"
    "r = 0 \<longleftrightarrow> IntKey k \<in> set (tree c)" "tree c' = tree c"
proof -
  obtain r c' where m: "eMovetoUnpacked (sEd ops) None k c = (SQLITE_OK, r, c')" "good c'" "tree c' = tree c"
      "restN c' = [] \<longleftrightarrow> tree c = []" "r = 0 \<longleftrightarrow> IntKey k \<in> set (tree c)" "tree c = [] \<longrightarrow> r < 0"
      "r = 0 \<longrightarrow> restN c' = IntKey k # filter (ltN (IntKey k)) (tree c)" "0 < r \<longrightarrow> restN c' = filter (ltN (IntKey k)) (tree c)"
      "r < 0 \<longrightarrow> tree c \<noteq> [] \<longrightarrow> (\<exists>x. restN c' = x # filter (ltN (IntKey k)) (tree c) \<and> ltN x (IntKey k))"
    using moveto_ok [OF assms] by (elim exE conjE) (rule that)
  have "placed k (tree c) r c'" unfolding placed_def using m(2,4,6-9) by auto
  with m(1-3,5) show thesis by (intro that)
qed

text \<open>Behind the key and moved once, or on the first key after it: in both cases the keys after \<open>k\<close> are left.\<close>

lemma placed_ahead:
  assumes "placed k T r c" "r \<noteq> 0" "isForward opcode"
  obtains rc c' where "moveOther (sBt ops) opcode r c = (rc, c')" "rc = SQLITE_OK \<or> rc = SQLITE_DONE" "good c'" "restN c' = filter (ltN (IntKey k)) T"
proof -
  have g: "good c" using assms(1) by (simp add: placed_def)
  have b: "\<not> isBackward opcode" using assms(3) by (auto simp: isForward_def isBackward_def)
  show thesis
  proof (cases "r < 0 \<and> restN c \<noteq> []")
    case True
    obtain rc c' where c': "xAdvance (sBt ops) Next c = (rc, c')" "rc = SQLITE_OK \<or> rc = SQLITE_DONE" "good c'" "restN c' = tl (restN c)"
      using advance [OF g, of Next] by auto
    have "restN c' = filter (ltN (IntKey k)) T" using assms(1) True c'(4) by (auto simp: placed_def)
    with c'(1-3) show thesis by (intro that) (use True assms(3) g in \<open>simp_all add: moveOther_def pointing\<close>)
  next
    case False
    then have "restN c = filter (ltN (IntKey k)) T" using assms(1,2) by (auto simp: placed_def)
    moreover have "moveOther (sBt ops) opcode r c = (SQLITE_OK, c)" using False b g by (auto simp: moveOther_def pointing)
    ultimately show thesis using g by (intro that) auto
  qed
qed

text \<open>What is to be read of the keys after \<open>k\<close>, and the positions the seek ends in.\<close>

definition after :: "BtKey set \<Rightarrow> i64 \<Rightarrow> BtKey list \<Rightarrow> BtKey list \<Rightarrow> BtKey list" where
  "after D k S I = mergeKeys ltN (filter (\<lambda>x. x \<notin> D) (filter (ltN (IntKey k)) S)) (filter (ltN (IntKey k)) I)"

definition seekShape :: "BtKey set \<Rightarrow> i64 \<Rightarrow> BtKey list \<Rightarrow> int \<Rightarrow> 'c BtCursorT \<Rightarrow> bool" where
  "seekShape D k V res C \<longleftrightarrow> transBtreeCursorIsUsed C \<and>
     (if res = 0 then fwd.aligned D C \<and> fwd.vis D C = IntKey k # V
      else if 0 < res then fwd.aligned D C \<and> fwd.vis D C = V
      else (fwd.aligned D C \<and> tl (fwd.vis D C) = V) \<or>
        (stateT C = CURSOR_USE_TRANS \<and> restN (pCur C) = [] \<and> restN (pCurIns C) = [] \<and> V = []) \<or>
        (\<exists>x xs y ys. restN (pCur C) = x # xs \<and> restN (pCurIns C) = y # ys \<and> V = mergeKeys ltN (filter (\<lambda>k. k \<notin> D) xs) ys \<and>
          (stateT C = CURSOR_USE_TRANS \<and> ltN x y \<and> (\<forall>x' xs'. xs = x' # xs' \<longrightarrow> ltN y x') \<or>
           stateT C = CURSOR_USE_SHARED \<and> ltN y x \<and> x \<notin> D \<and> (\<forall>y' ys'. ys = y' # ys' \<longrightarrow> \<not> ltN y' x))))"

lemma seekShape_del [simp]: "seekShape D k V res (C\<lparr>pCurDel := X\<rparr>) = seekShape D k V res C"
  by (simp add: seekShape_def fwd.aligned_def fwd.vis_def transBtreeCursorIsUsed_def)

lemma advance_nothing:
  assumes "fwd.cursorInv D C" "stateT C = CURSOR_USE_TRANS" "restN (pCur C) = []" "restN (pCurIns C) = []"
  shows "\<exists>C'. sqlite3BtreeAdvanceAll (sBt ops) Next C = Some (SQLITE_DONE, C')"
proof -
  have g: "good (pCur C)" "good (pCurIns C)" using assms(1) by (simp_all add: fwd.cursorInv_def)
  obtain ci where ci: "xAdvance (sBt ops) Next (pCurIns C) = (SQLITE_DONE, ci)" "good ci" "restN ci = []" using adv_invalid [OF g(2) assms(4)] by blast
  let ?C = "C\<lparr>pCurIns := ci\<rparr>"
  have "fwd.cursorInv D ?C" "fwd.vis D ?C = []" using assms(1,3) ci by (simp_all add: fwd.cursorInv_def fwd.vis_def)
  from fwd.seek_exist_all [OF this(1)] this(2) obtain C' where C': "btreeSeekToExistAll (sBt ops) Next ?C = Some (SQLITE_OK, 1, C')" by auto
  have "advanceCorrect (sBt ops) Next C = Some (SQLITE_OK, C)"
    by (subst advanceCorrect.simps) (simp add: pointing g assms(3))
  then show ?thesis
    using C' ci(1) assms g fwd.no_seek [OF g(2)]
    by (simp add: sqlite3BtreeAdvanceAll_def pointing transBtreeCursorIsUsed_def advanceShared_def advanceTrans_def cursorSharedIsUsed_def
        cursorTransIsUsed_def)
qed

lemma shape_step:
  assumes inv: "fwd.cursorInv D C" and sh: "seekShape D k V res C" and r: "res \<le> 0"
  shows "\<exists>C'. sqlite3BtreeAdvanceAll (sBt ops) Next C = Some (if V = [] then SQLITE_DONE else SQLITE_OK, C') \<and>
    (V \<noteq> [] \<longrightarrow> fwd.cursorInv D C' \<and> fwd.aligned D C' \<and> fwd.vis D C' = V)"
proof -
  have g: "good (pCur C)" and u: "transBtreeCursorIsUsed C" using inv sh by (simp_all add: fwd.cursorInv_def seekShape_def)
  have prev: "fwd.prevOk p xs" if "fwd.prevOk p (x # xs)" for p x xs using that by (cases xs) (auto simp: fwd.prevOk_def)
  have al: ?thesis if "fwd.aligned D C" "tl (fwd.vis D C) = V"
    using fwd.advance_all [OF inv that(1)] that(2) by auto
  consider (aligned) "fwd.aligned D C" "tl (fwd.vis D C) = V"
    | (empty) "stateT C = CURSOR_USE_TRANS" "restN (pCur C) = []" "restN (pCurIns C) = []" "V = []"
    | (shared) x xs y ys where "restN (pCur C) = x # xs" "restN (pCurIns C) = y # ys" "V = mergeKeys ltN (filter (\<lambda>k. k \<notin> D) xs) ys"
        "stateT C = CURSOR_USE_TRANS" "ltN x y" "\<forall>x' xs'. xs = x' # xs' \<longrightarrow> ltN y x'"
    | (ins) x xs y ys where "restN (pCur C) = x # xs" "restN (pCurIns C) = y # ys" "V = mergeKeys ltN (filter (\<lambda>k. k \<notin> D) xs) ys"
        "stateT C = CURSOR_USE_SHARED" "ltN y x" "x \<notin> D" "\<forall>y' ys'. ys = y' # ys' \<longrightarrow> \<not> ltN y' x"
    using sh r unfolding seekShape_def by (cases "res = 0") auto
  then show ?thesis
  proof cases
    case aligned
    then show ?thesis by (rule al)
  next
    case empty
    then show ?thesis using advance_nothing [OF inv] by simp
  next
    case shared
    obtain C1 where C1: "advanceCorrect (sBt ops) Next C = Some (SQLITE_OK, C1)" "fwd.cursorInv D C1" "fwd.aligned D C1" "fwd.vis D C1 = y # V" "restN (pCur C1) = xs"
      using fwd.correct_shared_behind [OF inv shared(4,1,2,5,6)] shared(3) by auto
    show ?thesis using fwd.advance_from [OF C1(1) g u C1(2,3)] prev C1(4,5) shared(1) by auto
  next
    case ins
    obtain C1 where C1: "advanceCorrect (sBt ops) Next C = Some (SQLITE_OK, C1)" "fwd.cursorInv D C1" "fwd.aligned D C1" "fwd.vis D C1 = x # V" "restN (pCur C1) = x # xs"
      using fwd.correct_inserted_behind [OF inv ins(4,6,1,2,5,7)] ins(3) by auto
    show ?thesis using fwd.advance_from [OF C1(1) g u C1(2,3)] C1(4,5) ins(1) by auto
  qed
qed

lemma delSync_suffix:
  assumes "fwd.delSync D c del" "set (restN c') \<subseteq> set (restN c)"
  shows "fwd.delSync D c' del"
  using assms by (auto simp: fwd.delSync_def)

lemma vis_trans:
  assumes "fwd.cursorInv D C" "fwd.aligned D C" "stateT C = CURSOR_USE_TRANS" "restN (pCurIns C) = y # ys"
  shows "fwd.vis D C = y # mergeKeys ltN (filter (\<lambda>k. k \<notin> D) (restN (pCur C))) ys"
  using assms(3,4) by (cases rule: fwd.aligned_cases [OF assms(1,2)]) auto

lemma vis_shared:
  assumes "fwd.cursorInv D C" "fwd.aligned D C" "stateT C = CURSOR_USE_SHARED" "restN (pCur C) = x # xs"
  shows "fwd.vis D C = x # mergeKeys ltN (filter (\<lambda>k. k \<notin> D) xs) (restN (pCurIns C))"
  using assms(3,4) by (cases rule: fwd.aligned_cases [OF assms(1,2)]) auto

text \<open>The key found among the inserted records, and in the shared table.\<close>

lemma found_inserted:
  assumes oc: "isForward opcode" and C: "fwd.cursorInv D C" and p: "placed k S res (pCur C)" "placed k I 0 (pCurIns C)" and r: "res \<noteq> 0"
  shows "\<exists>C'. seekFound ops opcode res 0 True C = (SQLITE_OK, 0, C') \<and> fwd.cursorInv D C' \<and> pCurDel C' = pCurDel C \<and> seekShape D k (after D k S I) 0 C'"
proof -
  obtain rc c where c: "moveOther (sBt ops) opcode res (pCur C) = (rc, c)" "rc = SQLITE_OK \<or> rc = SQLITE_DONE" "good c" "restN c = filter (ltN (IntKey k)) S"
    by (rule placed_ahead [OF p(1) r oc])
  define C' where "C' = C\<lparr>stateT := CURSOR_USE_TRANS, pCur := c\<rparr>"
  have sub: "set (restN c) \<subseteq> set (restN (pCur C))" using p(1) r c(4) by (auto simp: placed_def neq_iff)
  have i: "restN (pCurIns C') = IntKey k # filter (ltN (IntKey k)) I" using p(2) by (simp add: placed_def C'_def)
  have inv: "fwd.cursorInv D C'"
    using C c(3) delSync_suffix [OF _ sub] by (simp add: fwd.cursorInv_def C'_def)
  have al: "fwd.aligned D C'"
    using i c(4) by (auto simp: fwd.aligned_def C'_def filter_eq_Cons_iff)
  have "fwd.vis D C' = IntKey k # after D k S I"
    using vis_trans [OF inv al _ i] c(4) by (simp add: C'_def after_def)
  with al have "seekShape D k (after D k S I) 0 C'" by (simp add: seekShape_def transBtreeCursorIsUsed_def C'_def)
  moreover have "seekFound ops opcode res 0 True C = (SQLITE_OK, 0, C')" using c(1,2) by (auto simp: seekFound_def C'_def)
  ultimately show ?thesis using inv by (intro exI [of _ C']) (simp add: C'_def)
qed

lemma found_shared:
  assumes oc: "isForward opcode" and C: "fwd.cursorInv D C" and p: "placed k S 0 (pCur C)" "placed k I ri (pCurIns C)" and r: "ri \<noteq> 0"
    and k: "IntKey k \<notin> D" "ok (IntKey k)"
  shows "\<exists>C'. seekFound ops opcode 0 ri False C = (SQLITE_OK, 0, C') \<and> fwd.cursorInv D C' \<and> pCurDel C' = pCurDel C \<and> seekShape D k (after D k S I) 0 C'"
proof -
  obtain rc c where c: "moveOther (sBt ops) opcode ri (pCurIns C) = (rc, c)" "rc = SQLITE_OK \<or> rc = SQLITE_DONE" "good c" "restN c = filter (ltN (IntKey k)) I"
    by (rule placed_ahead [OF p(2) r oc])
  define C' where "C' = C\<lparr>stateT := CURSOR_USE_SHARED, pCurIns := c\<rparr>"
  have s: "restN (pCur C') = IntKey k # filter (ltN (IntKey k)) S" using p(1) by (simp add: placed_def C'_def)
  have inv: "fwd.cursorInv D C'" using C c(3) by (simp add: fwd.cursorInv_def C'_def)
  have "\<not> ltN y (IntKey k)" if "restN c = y # ys" for y ys
  proof -
    have "y \<in> set (restN c)" using that by simp
    then have "ltN (IntKey k) y" "ok y" using c(4) fwd.keys_ok [OF c(3)] by auto
    then show ?thesis using fwd.lt_asym k(2) by blast
  qed
  then have al: "fwd.aligned D C'" using s k(1) by (auto simp: fwd.aligned_def C'_def)
  have "fwd.vis D C' = IntKey k # after D k S I"
    using vis_shared [OF inv al _ s] c(4) by (simp add: C'_def after_def)
  with al have "seekShape D k (after D k S I) 0 C'" by (simp add: seekShape_def transBtreeCursorIsUsed_def C'_def)
  moreover have "seekFound ops opcode 0 ri False C = (SQLITE_OK, 0, C')" using c(1,2) by (auto simp: seekFound_def C'_def)
  ultimately show ?thesis using inv by (intro exI [of _ C']) (simp add: C'_def)
qed

text \<open>The key not found and one of the cursors off its table.\<close>

lemma not_found_one:
  assumes C: "fwd.cursorInv D C" and p: "placed k S res (pCur C)" "placed k I ri (pCurIns C)" and r: "res \<noteq> 0" "ri \<noteq> 0"
    and live: "\<forall>x xs. restN (pCur C) = x # xs \<longrightarrow> x \<notin> D" and one: "restN (pCur C) = [] \<or> restN (pCurIns C) = []"
  shows "\<exists>pRes C'. seekNotFound ops opcode res ri C = Some (SQLITE_OK, pRes, C') \<and> pRes \<noteq> 0 \<and> fwd.cursorInv D C' \<and> pCurDel C' = pCurDel C \<and>
    seekShape D k (after D k S I) pRes C'"
proof (cases "restN (pCur C) = []")
  case True
  define C' where "C' = C\<lparr>stateT := CURSOR_USE_TRANS\<rparr>"
  have g: "good (pCur C)" "good (pCurIns C)" using C by (simp_all add: fwd.cursorInv_def)
  have S: "filter (ltN (IntKey k)) S = []" using p(1) r(1) True by (auto simp: placed_def neq_iff)
  have inv: "fwd.cursorInv D C'" using C by (simp add: fwd.cursorInv_def C'_def)
  have v: "fwd.vis D C' = restN (pCurIns C)" using True by (simp add: fwd.vis_def C'_def)
  have aft: "after D k S I = filter (ltN (IntKey k)) I" by (simp add: after_def S)
  have al: "fwd.aligned D C'" if "restN (pCurIns C) \<noteq> []" using True that by (cases "restN (pCurIns C)") (simp_all add: fwd.aligned_def C'_def)
  have "seekShape D k (after D k S I) ri C'"
    using p(2) r(2) al True v aft unfolding seekShape_def placed_def by (auto simp: C'_def transBtreeCursorIsUsed_def)
  then show ?thesis using True g inv r(2) by (intro exI [of _ ri] exI [of _ C']) (simp add: seekNotFound_def pointing C'_def)
next
  case False
  then have i: "restN (pCurIns C) = []" using one by simp
  obtain x xs where x: "restN (pCur C) = x # xs" using False by (cases "restN (pCur C)") auto
  define C' where "C' = C\<lparr>stateT := CURSOR_USE_SHARED\<rparr>"
  have g: "good (pCur C)" "good (pCurIns C)" using C by (simp_all add: fwd.cursorInv_def)
  have I: "filter (ltN (IntKey k)) I = []" using p(2) r(2) i by (auto simp: placed_def neq_iff)
  have inv: "fwd.cursorInv D C'" using C by (simp add: fwd.cursorInv_def C'_def)
  have al: "fwd.aligned D C'" using x i live by (simp add: fwd.aligned_def C'_def)
  have v: "fwd.vis D C' = x # filter (\<lambda>k. k \<notin> D) xs" using vis_shared [OF inv al, of x xs] x i by (simp add: C'_def)
  define T where "T = filter (ltN (IntKey k)) S"
  have aft: "after D k S I = filter (\<lambda>x. x \<notin> D) T" by (simp add: after_def I T_def)
  have "seekShape D k (after D k S I) res C'"
    using p(1) r(1) al x v live unfolding seekShape_def placed_def aft T_def [symmetric] by (auto simp: C'_def transBtreeCursorIsUsed_def)
  then show ?thesis using False i g inv r(1) by (intro exI [of _ res] exI [of _ C']) (simp add: seekNotFound_def pointing C'_def)
qed

text \<open>The key not found and both cursors on the same side of it.\<close>

lemma not_found_both:
  assumes oc: "isForward opcode" and C: "fwd.cursorInv D C" "\<not> hasKeyInfo C" "D = set (tree (pCurDel C))"
    and p: "placed k S res (pCur C)" "placed k I ri (pCurIns C)" and r: "res \<noteq> 0" "ri \<noteq> 0" "\<not> res * ri < 0" and okk: "ok (IntKey k)"
    and x: "restN (pCur C) = x # xs" "x \<notin> D" and y: "restN (pCurIns C) = y # ys" and ne: "x \<noteq> y"
  shows "\<exists>pRes C'. seekNotFound ops opcode res ri C = Some (SQLITE_OK, pRes, C') \<and> pRes \<noteq> 0 \<and> fwd.cursorInv D C' \<and> D = set (tree (pCurDel C')) \<and>
    seekShape D k (after D k S I) pRes C'"
proof -
  have g: "good (pCur C)" "good (pCurIns C)" "good (pCurDel C)" "goodS C" using C by (simp_all add: fwd.cursorInv_def goodS_def)
  obtain rd del where d: "btreeIsDeleted ops C = (SQLITE_OK, rd, C\<lparr>pCurDel := del\<rparr>)" "good del" "tree del = tree (pCurDel C)"
    "set (filter (\<lambda>z. z = x \<or> ltN x z) (tree (pCurDel C))) \<subseteq> set (restN del)"
    by (rule is_deleted [OF g(4)]) (erule that, simp_all add: x(1))
  define C1 where "C1 = C\<lparr>pCurDel := del\<rparr>"
  have "fwd.delSync D (pCur C) del"
    using d(2-4) rest_tree [OF d(2)] C(3) x(1) fwd.sorted_ok [OF g(1)] by (auto simp: fwd.delSync_def)
  then have inv1: "fwd.cursorInv D C1" using C(1) d(2) by (simp add: fwd.cursorInv_def C1_def)
  have r1: "restN (pCur C1) = x # xs" "restN (pCurIns C1) = y # ys" using x y by (simp_all add: C1_def)
  obtain i where i: "i < 0 \<longleftrightarrow> ltN x y" "i = 0 \<longleftrightarrow> x = y" "- (2 ^ 63) \<le> i" "i < 2 ^ 63"
    "sameSideChoose ops 1 res ri C1 = (SQLITE_OK, snd (sameSideChoice 1 res ri i), C1\<lparr>stateT := fst (sameSideChoice 1 res ri i)\<rparr>)"
  proof (rule choose [of C1 1 res ri])
    fix i assume "btreeKeyCompareCursors (sBt ops) (pCur C1) (pCurIns C1) = Inr i" "i < 0 \<longleftrightarrow> ltN (hd (restN (pCur C1))) (hd (restN (pCurIns C1)))"
      "i = 0 \<longleftrightarrow> hd (restN (pCur C1)) = hd (restN (pCurIns C1))"
      "sameSideChoose ops 1 res ri C1 = (SQLITE_OK, snd (sameSideChoice 1 res ri i), C1\<lparr>stateT := fst (sameSideChoice 1 res ri i)\<rparr>)"
    then show thesis using cmp_i64 [of "pCur C1" "pCurIns C1" i] r1 by (intro that [of i]) simp_all
  qed (use g r1 in \<open>simp_all add: C1_def\<close>)
  have i64: "toI64 (1 * i) = i" using i(3,4) by (simp add: toI64_small)
  have okx: "ok x" "ok y" using fwd.keys_ok [OF g(1), of x] fwd.keys_ok [OF g(2), of y] x y by simp_all
  have yx: "ltN y x \<longleftrightarrow> \<not> ltN x y" using fwd.lt_total [OF okx ne] fwd.lt_asym okx by blast
  define s where "s = fst (sameSideChoice 1 res ri i)"
  define C' where "C' = C1\<lparr>stateT := s\<rparr>"
  have run: "seekNotFound ops opcode res ri C = Some (SQLITE_OK, res, C')"
    using oc g x y r(3) d(1) i(5) i64
    by (simp add: seekNotFound_def pointing sqlite3BtreeMovetoSameSide_def C1_def C'_def s_def sameSideChoice_def Let_def)
  have inv: "fwd.cursorInv D C'" using inv1 by (simp add: fwd.cursorInv_def C'_def)
  have r': "restN (pCur C') = x # xs" "restN (pCurIns C') = y # ys" "stateT C' = s" using r1 by (simp_all add: C'_def)
  have used: "transBtreeCursorIsUsed C'" by (simp add: transBtreeCursorIsUsed_def r'(3) s_def sameSideChoice_def Let_def)
  define S1 I1 where S1I1: "S1 = filter (ltN (IntKey k)) S" "I1 = filter (ltN (IntKey k)) I"
  have aft: "after D k S I = mergeKeys ltN (filter (\<lambda>x. x \<notin> D) S1) I1" by (simp add: after_def S1I1)
  have "seekShape D k (after D k S I) res C'"
  proof (cases "0 < res")
    case True
    then have "0 < ri" using r by (auto simp: mult_less_0_iff)
    then have T: "S1 = x # xs" "I1 = y # ys" using True p x y by (auto simp: placed_def S1I1)
    have s: "s = (if ltN x y then CURSOR_USE_SHARED else CURSOR_USE_TRANS)" using True r(3) i(1) i64 by (simp add: s_def sameSideChoice_def Let_def)
    have al: "fwd.aligned D C'" using r' s x(2) yx by (auto simp: fwd.aligned_def)
    have "fwd.vis D C' = after D k S I" unfolding aft fwd.vis_def r'(1,2) T by simp
    with al used True show ?thesis by (simp add: seekShape_def)
  next
    case False
    then have neg: "res < 0" "ri < 0" using r by (auto simp: mult_less_0_iff not_less)
    have T: "xs = S1" "ys = I1" "ltN x (IntKey k)" "ltN y (IntKey k)" using neg p x y by (auto simp: placed_def S1I1)
    have s: "s = (if ltN x y then CURSOR_USE_TRANS else CURSOR_USE_SHARED)" using neg r(3) i(1) i64 by (simp add: s_def sameSideChoice_def Let_def)
    have behind: "ltN z z'" if "ltN z (IntKey k)" "ok z" "z' \<in> set S1 \<union> set I1" for z z'
    proof -
      have "z' \<in> set xs \<union> set ys" "ltN (IntKey k) z'" using that(3) T(1,2) by (auto simp: S1I1)
      then have "ok z'" using fwd.keys_ok [OF g(1), of z'] fwd.keys_ok [OF g(2), of z'] x y by auto
      then show ?thesis using fwd.lt_trans [OF that(2) okk] that(1) \<open>ltN (IntKey k) z'\<close> by blast
    qed
    have hx: "\<forall>x' xs'. S1 = x' # xs' \<longrightarrow> ltN y x'" using behind [OF T(4) okx(2)] by auto
    have hy: "\<forall>y' ys'. I1 = y' # ys' \<longrightarrow> \<not> ltN y' x"
      using behind [OF T(3) okx(1)] fwd.lt_asym okx(1) fwd.keys_ok [OF g(2)] y T(2) by (metis UnI2 list.set_intros(1,2))
    have "\<exists>x xs y ys. restN (pCur C') = x # xs \<and> restN (pCurIns C') = y # ys \<and> after D k S I = mergeKeys ltN (filter (\<lambda>k. k \<notin> D) xs) ys \<and>
          (stateT C' = CURSOR_USE_TRANS \<and> ltN x y \<and> (\<forall>x' xs'. xs = x' # xs' \<longrightarrow> ltN y x') \<or>
           stateT C' = CURSOR_USE_SHARED \<and> ltN y x \<and> x \<notin> D \<and> (\<forall>y' ys'. ys = y' # ys' \<longrightarrow> \<not> ltN y' x))"
      using r' T(1,2) aft s yx x(2) hx hy
      by (intro exI [of _ x] exI [of _ xs] exI [of _ y] exI [of _ ys]) (simp split: if_splits)
    with used neg show ?thesis by (simp add: seekShape_def)
  qed
  then show ?thesis using run inv r(1) d(3) C(3) by (intro exI [of _ res] exI [of _ C']) (simp add: C'_def C1_def)
qed

text \<open>The steps before the choice: the shared cursor stays where it is on a record that is not deleted.\<close>

lemma skip_live:
  assumes C: "goodS C" "good c" and p: "placed k (tree (pCur C)) r c" and live: "\<forall>x xs. restN c = x # xs \<longrightarrow> x \<notin> set (tree (pCurDel C))"
  obtains res c2 del where
    "seekSkipDeleted ops opcode delAll k r 0 None (C\<lparr>pCur := c\<rparr>) = Some (SQLITE_OK, res, 0, None, C\<lparr>pCur := c2, pCurDel := del\<rparr>)"
    "placed k (if delAll then [] else tree (pCur C)) res c2" "res = (if delAll then - 1 else r)" "delAll \<longrightarrow> restN c2 = []" "\<not> delAll \<longrightarrow> c2 = c"
    "good del" "tree del = tree (pCurDel C)" "fwd.delSync (set (tree (pCurDel C))) c2 del"
proof (cases delAll)
  case True
  let ?c = "opSetState (sBt ops) CURSOR_INVALID c"
  have "good ?c" "restN ?c = []" using invalid_ok [OF C(2)] by simp_all
  then show thesis using True C(1)
    by (intro that [of "- 1" "pCurDel C" ?c]) (simp_all add: seekSkipDeleted_def placed_def goodS_def fwd.delSync_def)
next
  case False
  let ?C = "C\<lparr>pCur := c\<rparr>" and ?D = "set (tree (pCurDel C))"
  have gs: "goodS ?C" using C by (simp add: goodS_def)
  obtain rd del where d: "btreeIsDeleted ops ?C = (SQLITE_OK, rd, ?C\<lparr>pCurDel := del\<rparr>)" "good del" "tree del = tree (pCurDel C)"
    "\<And>x xs. restN c = x # xs \<Longrightarrow> rd = 0 \<longleftrightarrow> x \<in> ?D" "restN c = [] \<Longrightarrow> rd = - 1"
    "\<And>x xs. restN c = x # xs \<Longrightarrow> set (filter (\<lambda>z. z = x \<or> ltN x z) (tree (pCurDel C))) \<subseteq> set (restN del)"
    by (rule is_deleted [OF gs]) (erule that, simp_all)
  have "rd \<noteq> 0" using d(4,5) live by (cases "restN c") auto
  moreover have "fwd.delSync ?D c del"
  proof (cases "restN c")
    case (Cons x xs)
    then show ?thesis using d(6) [OF Cons] d(3) rest_tree [OF d(2)] fwd.sorted_ok [OF C(2)] by (auto simp: fwd.delSync_def)
  qed (simp add: fwd.delSync_def)
  ultimately show thesis using False p d(1-3)
    by (intro that [of r del c]) (simp_all add: seekSkipDeleted_def)
qed

lemma restore_del:
  assumes "fwd.cursorInv D C" "D = set (tree (pCurDel C))" "ok (IntKey k)"
  obtains X where "seekRestoreDel ops opcode None k C = C\<lparr>pCurDel := X\<rparr>" "fwd.cursorInv D (C\<lparr>pCurDel := X\<rparr>)"
proof (cases "opState (sBt ops) (pCurDel C) = CURSOR_INVALID \<and> opcode = OP_SeekGE")
  case True
  have g: "good (pCurDel C)" using assms(1) by (simp add: fwd.cursorInv_def)
  then have none: "restN (pCurDel C) = []" using True fwd.state_ok [OF g] by (simp split: if_splits)
  obtain r del where m: "eMovetoUnpacked (sEd ops) None k (pCurDel C) = (SQLITE_OK, r, del)" "good del" "tree del = tree (pCurDel C)"
    using moveto_placed [OF g assms(3)] by metis
  have "fwd.delSync D (pCur C) (pCurDel C)" using assms(1) by (simp add: fwd.cursorInv_def)
  then have "fwd.delSync D (pCur C) del" using none rest_tree [OF m(2)] m(3) assms(2) by (auto simp: fwd.delSync_def)
  then show thesis using assms(1) m True
    by (intro that [of del]) (simp_all add: seekRestoreDel_def movetoUnpacked_def fwd.cursorInv_def)
next
  case False
  then have "seekRestoreDel ops opcode None k C = C\<lparr>pCurDel := pCurDel C\<rparr>" by (auto simp: seekRestoreDel_def)
  then show thesis using assms(1) by (intro that [of "pCurDel C"]) simp_all
qed

lemma judged:
  assumes oc: "isForward opcode" and C: "fwd.cursorInv D C" "\<not> hasKeyInfo C" "D = set (tree (pCurDel C))"
    and p: "placed k S res (pCur C)" "placed k I ri (pCurIns C)" and okk: "ok (IntKey k)"
    and live: "\<forall>x xs. restN (pCur C) = x # xs \<longrightarrow> x \<notin> D"
    and ne: "\<forall>x xs y ys. restN (pCur C) = x # xs \<longrightarrow> restN (pCurIns C) = y # ys \<longrightarrow> x \<noteq> y"
    and side: "restN (pCur C) = [] \<or> restN (pCurIns C) = [] \<or> \<not> res * ri < 0"
  shows "\<exists>pRes C'. (if ri = 0 \<or> res = 0 then Some (seekFound ops opcode res ri (ri = 0) C) else seekNotFound ops opcode res ri C) = Some (SQLITE_OK, pRes, C') \<and>
    fwd.cursorInv D C' \<and> D = set (tree (pCurDel C')) \<and> seekShape D k (after D k S I) pRes C' \<and> (pRes = 0 \<longleftrightarrow> ri = 0 \<or> res = 0)"
proof -
  have z: "\<not> (res = 0 \<and> ri = 0)" using p ne by (auto simp: placed_def)
  consider (ins) "ri = 0" "res \<noteq> 0" | (shared) "res = 0" "ri \<noteq> 0" | (none) "ri \<noteq> 0" "res \<noteq> 0" using z by blast
  then show ?thesis
  proof cases
    case ins
    then show ?thesis using found_inserted [OF oc C(1) p(1), of I] p(2) C(3) by (intro exI [of _ 0]) auto
  next
    case shared
    have "IntKey k \<notin> D" using p(1) live shared by (simp add: placed_def)
    then show ?thesis using found_shared [OF oc C(1), of k S I ri] p shared okk C(3) by (intro exI [of _ 0]) auto
  next
    case none
    show ?thesis
    proof (cases "restN (pCur C) = [] \<or> restN (pCurIns C) = []")
      case True
      obtain pRes C' where "seekNotFound ops opcode res ri C = Some (SQLITE_OK, pRes, C')" "pRes \<noteq> 0" "fwd.cursorInv D C'" "pCurDel C' = pCurDel C"
          "seekShape D k (after D k S I) pRes C'"
        using not_found_one [OF C(1) p none(2,1) live True, of opcode] by blast
      with none C(3) show ?thesis by auto
    next
      case False
      then obtain x xs y ys where xy: "restN (pCur C) = x # xs" "restN (pCurIns C) = y # ys" by (meson neq_Nil_conv)
      have "\<not> res * ri < 0" "x \<notin> D" "x \<noteq> y" using side False live ne xy by blast+
      then obtain pRes C' where "seekNotFound ops opcode res ri C = Some (SQLITE_OK, pRes, C')" "pRes \<noteq> 0" "fwd.cursorInv D C'" "D = set (tree (pCurDel C'))"
          "seekShape D k (after D k S I) pRes C'"
        using not_found_both [OF oc C p none(2,1) _ okk xy(1) _ xy(2)] by blast
      with none show ?thesis by auto
    qed
  qed
qed

lemma range_seek:
  assumes oc: "isForward opcode" and C: "goodS C" "transBtreeCursorIsUsed C" and okk: "ok (IntKey k)"
    and sync: "set (tree (pCur C)) \<inter> set (tree (pCurIns C)) \<subseteq> set (tree (pCurDel C))"
    and m: "eMovetoUnpacked (sEd ops) None k (pCur C) = (rc1, r, c)" "eMovetoUnpacked (sEd ops) None k (pCurIns C) = (rc2, ri, ci)"
    and live: "\<forall>x xs. restN c = x # xs \<longrightarrow> x \<notin> set (tree (pCurDel C))"
    and side: "deleteAll root \<noteq> 0 \<or> restN c = [] \<or> restN ci = [] \<or> \<not> r * ri < 0"
  shows "\<exists>pRes C'. sqlite3BtreeMovetoUnpackedAll ops (Some root) None k opcode C = Some (SQLITE_OK, pRes, None, C') \<and>
    fwd.cursorInv (set (tree (pCurDel C))) C' \<and>
    seekShape (set (tree (pCurDel C))) k
      (after (set (tree (pCurDel C))) k (if deleteAll root \<noteq> 0 then [] else tree (pCur C)) (tree (pCurIns C))) pRes C'"
proof -
  define delAll where "delAll \<longleftrightarrow> 0 < deleteAll root"
  let ?D = "set (tree (pCurDel C))" and ?S = "if delAll then [] else tree (pCur C)"
  have g: "good (pCur C)" "good (pCurIns C)" using C(1) by (simp_all add: goodS_def)
  have c: "rc1 = SQLITE_OK" "placed k (tree (pCur C)) r c" "good c" "tree c = tree (pCur C)" using moveto_placed [OF g(1) okk] m(1) by auto
  have ci: "rc2 = SQLITE_OK" "placed k (tree (pCurIns C)) ri ci" "good ci" "tree ci = tree (pCurIns C)" using moveto_placed [OF g(2) okk] m(2) by auto
  obtain res c2 del where s: "seekSkipDeleted ops opcode delAll k r 0 None (C\<lparr>pCur := c\<rparr>) = Some (SQLITE_OK, res, 0, None, C\<lparr>pCur := c2, pCurDel := del\<rparr>)"
    "placed k ?S res c2" "res = (if delAll then - 1 else r)" "delAll \<longrightarrow> restN c2 = []" "\<not> delAll \<longrightarrow> c2 = c"
    "good del" "tree del = tree (pCurDel C)" "fwd.delSync ?D c2 del"
    by (rule skip_live [OF C(1) c(3,2) live])
  define C3 where "C3 = C\<lparr>pCur := c2, pCurDel := del, pCurIns := ci\<rparr>"
  have C3: "fwd.cursorInv ?D C3" "\<not> hasKeyInfo C3" "?D = set (tree (pCurDel C3))" "placed k ?S res (pCur C3)" "placed k (tree (pCurIns C)) ri (pCurIns C3)"
    using s(2,6-8) ci(2,3) C(1) placed_good [OF s(2)] by (simp_all add: C3_def fwd.cursorInv_def goodS_def)
  have live3: "\<forall>x xs. restN (pCur C3) = x # xs \<longrightarrow> x \<notin> ?D" using live s(4,5) by (auto simp: C3_def)
  have ne: "\<forall>x xs y ys. restN (pCur C3) = x # xs \<longrightarrow> restN (pCurIns C3) = y # ys \<longrightarrow> x \<noteq> y"
    using live s(4,5) sync rest_tree [OF c(3)] rest_tree [OF ci(3)] c(4) ci(4) by (cases delAll) (auto simp: C3_def)
  have side3: "restN (pCur C3) = [] \<or> restN (pCurIns C3) = [] \<or> \<not> res * ri < 0" using side s(3-5) by (auto simp: C3_def delAll_def)
  obtain pRes C4 where j: "(if ri = 0 \<or> res = 0 then Some (seekFound ops opcode res ri (ri = 0) C3) else seekNotFound ops opcode res ri C3) = Some (SQLITE_OK, pRes, C4)"
    "fwd.cursorInv ?D C4" "?D = set (tree (pCurDel C4))" "seekShape ?D k (after ?D k ?S (tree (pCurIns C))) pRes C4"
    using judged [OF oc C3 okk live3 ne side3] by blast
  obtain X where X: "seekRestoreDel ops opcode None k C4 = C4\<lparr>pCurDel := X\<rparr>" "fwd.cursorInv ?D (C4\<lparr>pCurDel := X\<rparr>)"
    by (rule restore_del [OF j(2,3) okk])
  have j1: "Option.bind (if ri = 0 \<or> res = 0 then Some (seekFound ops opcode res ri (ri = 0) C3) else seekNotFound ops opcode res ri C3)
      (\<lambda>(rc4, pRes, C4). if rc4 \<noteq> SQLITE_OK then Some (rc4, pRes, None, C4) else Some (SQLITE_OK, pRes, None, seekRestoreDel ops opcode None k C4)) =
      Some (SQLITE_OK, pRes, None, C4\<lparr>pCurDel := X\<rparr>)" using j(1) X(1) by simp
  have "sqlite3BtreeMovetoUnpackedAll ops (Some root) None k opcode C = Some (SQLITE_OK, pRes, None, C4\<lparr>pCurDel := X\<rparr>)"
    using C(2) s(1) j1
    by (simp add: sqlite3BtreeMovetoUnpackedAll_def movetoUnpacked_def m c(1) ci(1) transBtreeCursorIsUsed_def seekEqSeen_def C3_def
        delAll_def Let_def cong: if_cong)
  then show ?thesis using X(2) j(4) by (simp add: delAll_def)
qed

lemma range_scan:
  assumes oc: "isForward opcode" and run: "sqlite3BtreeMovetoUnpackedAll ops root None k opcode C = Some (SQLITE_OK, res, r, C')"
    and C': "fwd.cursorInv D C'" "seekShape D k V res C'"
  shows "seekScan ops root k opcode C = Some (if res = 0 \<and> opcode = OP_SeekGE then IntKey k # V else V)"
proof -
  have gt: "opcode \<noteq> OP_SeekGE \<longleftrightarrow> opcode = OP_SeekGT" using oc by (auto simp: isForward_def)
  show ?thesis
  proof (cases "res < 0 \<or> res = 0 \<and> opcode = OP_SeekGT")
    case True
    then obtain C2 where C2: "sqlite3BtreeAdvanceAll (sBt ops) Next C' = Some (if V = [] then SQLITE_DONE else SQLITE_OK, C2)"
      "V \<noteq> [] \<longrightarrow> fwd.cursorInv D C2 \<and> fwd.aligned D C2 \<and> fwd.vis D C2 = V" using shape_step [OF C'] by auto
    then show ?thesis using oc True run fwd.scan_loop [of D C2] gt by (cases "V = []") (auto simp: seekScan_def)
  next
    case False
    then have "fwd.aligned D C'" "fwd.vis D C' = (if res = 0 then IntKey k # V else V)" using C'(2) by (auto simp: seekShape_def split: if_splits)
    then show ?thesis using oc False run fwd.scan_loop [OF C'(1)] gt by (auto simp: seekScan_def)
  qed
qed

lemma range_complete:
  assumes oc: "isForward opcode" and C: "goodS C" "transBtreeCursorIsUsed C" and okk: "ok (IntKey k)"
    and sync: "set (tree (pCur C)) \<inter> set (tree (pCurIns C)) \<subseteq> set (tree (pCurDel C))"
    and m: "eMovetoUnpacked (sEd ops) None k (pCur C) = (rc1, r, c)" "eMovetoUnpacked (sEd ops) None k (pCurIns C) = (rc2, ri, ci)"
    and live: "\<forall>x xs. restN c = x # xs \<longrightarrow> x \<notin> set (tree (pCurDel C))"
    and side: "deleteAll root \<noteq> 0 \<or> restN c = [] \<or> restN ci = [] \<or> \<not> r * ri < 0"
  shows "\<exists>ks. seekScan ops (Some root) k opcode C = Some ks \<and> sorted_wrt (\<lambda>a b. \<not> ltN b a) ks \<and>
    set ks = {x \<in> visible (deleteAll root \<noteq> 0) C. ltN (IntKey k) x \<or> opcode = OP_SeekGE \<and> x = IntKey k}"
proof -
  let ?D = "set (tree (pCurDel C))" and ?S = "if deleteAll root \<noteq> 0 then [] else tree (pCur C)"
  define V U where V: "V = after ?D k ?S (tree (pCurIns C))" and U: "U = visible (deleteAll root \<noteq> 0) C"
  obtain res C' where r: "sqlite3BtreeMovetoUnpackedAll ops (Some root) None k opcode C = Some (SQLITE_OK, res, None, C')"
    "fwd.cursorInv ?D C'" "seekShape ?D k V res C'" using range_seek [OF oc C okk sync m live side] unfolding V by blast
  have oc0: "opcode \<noteq> OP_None" using oc by (auto simp: isForward_def)
  from lookup [OF C okk, of root opcode] r(1) have zero: "res = 0 \<longleftrightarrow> IntKey k \<in> U" by (auto simp: U sought_visible [OF oc0])
  have irr: "\<not> ltN (IntKey k) (IntKey k)" using fwd.lt_asym okk by blast
  have set: "set V = {x \<in> U. ltN (IntKey k) x}"
    by (auto simp: U V after_def set_mergeKeys visible_def)
  have ok: "ok x" if "x \<in> U" for x
    using that C(1) tree_ok by (auto simp: U visible_def goodS_def split: if_splits)
  have "sorted_wrt (\<lambda>a b. \<not> ltN b a) V" unfolding V after_def
  proof (rule sorted_mergeKeys [where S = "{x. ok x}"])
    show "sorted_wrt ltN (filter (\<lambda>x. x \<notin> ?D) (filter (ltN (IntKey k)) ?S))" "sorted_wrt ltN (filter (ltN (IntKey k)) (tree (pCurIns C)))"
      using C(1) tree_sorted by (auto simp: goodS_def intro!: sorted_wrt_filter)
    show "set (filter (\<lambda>x. x \<notin> ?D) (filter (ltN (IntKey k)) ?S)) \<subseteq> {x. ok x}" "set (filter (ltN (IntKey k)) (tree (pCurIns C))) \<subseteq> {x. ok x}"
      using C(1) tree_ok by (auto simp: goodS_def)
  qed (simp_all add: fwd.lt_asym fwd.lt_total, rule fwd.lt_trans)
  moreover have "\<not> ltN x (IntKey k)" if "x \<in> set V" for x
    using that ok okk fwd.lt_asym unfolding set by blast
  ultimately show ?thesis
    using range_scan [OF oc r] zero irr unfolding U [symmetric] by (cases "res = 0 \<and> opcode = OP_SeekGE") (auto simp: set)
qed

end

section \<open>Cursors on sorted lists of rowids\<close>

text \<open>The binary search of \<open>sqlite3BtreeMovetoUnpacked\<close> on a leaf page with rowids: the cell it ends at and \<open>*pRes\<close>.\<close>

function leafSearch :: "i64 list \<Rightarrow> i64 \<Rightarrow> int \<Rightarrow> int \<Rightarrow> nat \<times> int" where
  "leafSearch ks intKey lwr upr =
     (let idx = (lwr + upr) div 2; nCellKey = ks ! nat idx in
      if lwr > upr then (nat idx, - 1)
      else if nCellKey < intKey then (if idx + 1 > upr then (nat idx, - 1) else leafSearch ks intKey (idx + 1) upr)
      else if nCellKey > intKey then (if lwr > idx - 1 then (nat idx, 1) else leafSearch ks intKey lwr (idx - 1))
      else (nat idx, 0))"
  by pat_completeness auto
termination
  by (relation "measure (\<lambda>(ks, k, lwr, upr). nat (upr + 1 - lwr))") (auto simp: Let_def)

declare leafSearch.simps [simp del]

definition lcMoveto :: "blob option \<Rightarrow> i64 \<Rightarrow> ListCur \<Rightarrow> rc \<times> int \<times> ListCur" where
  "lcMoveto p k c =
     (if lcKeys c = [] then (SQLITE_OK, - 1, c\<lparr>lcState := CURSOR_INVALID\<rparr>)
      else let (i, r) = leafSearch (lcKeys c) k 0 (int (length (lcKeys c)) - 1)
           in (SQLITE_OK, r, c\<lparr>lcAt := i, lcState := CURSOR_VALID\<rparr>))"

definition lcRowid :: "ListCur \<Rightarrow> i64" where
  "lcRowid c = (case lcKey c of IntKey i \<Rightarrow> i | IdxKey b \<Rightarrow> 0)"

text \<open>The table has no index records; the fields for them and for writing are not used.\<close>

definition listEdit :: "ListCur EditOps" where
  "listEdit = \<lparr>eFirst = lcFirst, eNext = lcNext, eIntegerKey = lcRowid, eReallocOk = (\<lambda>c. True), ePayload = (\<lambda>c. Inr []),
     eMoveto = lcMoveto, eMovetoUnpacked = lcMoveto, eUnpackOk = (\<lambda>b. True), eNField = (\<lambda>b. 0),
     eInsert = (\<lambda>X f s c. (SQLITE_READONLY, c)), eDelete = (\<lambda>f c. (SQLITE_READONLY, c)), eClear = (\<lambda>c. (SQLITE_READONLY, c)),
     eCount = (\<lambda>c. Inr (int (length (lcKeys c)))), eMultiple = (\<lambda>c. False), eSaveAll = (\<lambda>c. (SQLITE_OK, c))\<rparr>"

definition listSeek :: "(ListCur, unit) SeekOps" where
  "listSeek = \<lparr>sBt = listOps, sEd = listEdit, sMovetoIdx = (\<lambda>r c. (SQLITE_CORRUPT, 0, r, c)), xRecordCompare = (\<lambda>b r. (0, r))\<rparr>"

definition listCursors :: "i64 list \<Rightarrow> i64 list \<Rightarrow> i64 list \<Rightarrow> ListCur BtCursorT" where
  "listCursors shared ins del =
     \<lparr>pCur = \<lparr>lcKeys = shared, lcAt = 0, lcState = CURSOR_INVALID\<rparr>, pCurIns = \<lparr>lcKeys = ins, lcAt = 0, lcState = CURSOR_INVALID\<rparr>,
      pCurDel = \<lparr>lcKeys = del, lcAt = 0, lcState = CURSOR_INVALID\<rparr>, stateT = CURSOR_USE_SHARED, typeT = 0, hasKeyInfo = False\<rparr>"

declare countSameKeyLoop.simps [code]


subsection \<open>The binary search\<close>

lemma leafSearch_correct:
  assumes "sorted_wrt (<) ks" "0 \<le> lwr" "lwr \<le> upr" "upr < int (length ks)"
    and "\<And>j. int j < lwr \<Longrightarrow> ks ! j < k" "\<And>j. upr < int j \<Longrightarrow> j < length ks \<Longrightarrow> k < ks ! j"
    and "leafSearch ks k lwr upr = (i, r)"
  shows "i < length ks \<and> r \<in> {- 1, 0, 1} \<and> (r = 0 \<longrightarrow> ks ! i = k) \<and>
    (r = 1 \<longrightarrow> k < ks ! i \<and> (\<forall>j<i. ks ! j < k)) \<and> (r = - 1 \<longrightarrow> ks ! i < k \<and> (\<forall>j. i < j \<longrightarrow> j < length ks \<longrightarrow> k < ks ! j))"
  using assms
proof (induction ks k lwr upr rule: leafSearch.induct)
  case (1 ks k lwr upr)
  define idx where "idx = (lwr + upr) div 2"
  have b: "lwr \<le> idx" "idx \<le> upr" "nat idx < length ks" using 1(4,5,6) by (auto simp: idx_def)
  have mono: "ks ! a < ks ! c" if "a < c" "c < length ks" for a c using sorted_wrt_nth_less [OF 1(3) that] .
  have e: "leafSearch ks k lwr upr =
      (if ks ! nat idx < k then (if idx + 1 > upr then (nat idx, - 1) else leafSearch ks k (idx + 1) upr)
       else if ks ! nat idx > k then (if lwr > idx - 1 then (nat idx, 1) else leafSearch ks k lwr (idx - 1)) else (nat idx, 0))"
    using 1(5) by (subst leafSearch.simps) (simp add: Let_def idx_def)
  have low: "ks ! j < k" if "ks ! nat idx < k" "int j < idx + 1" for j
  proof (cases "j = nat idx")
    case False
    then have "j < nat idx" using that(2) by linarith
    then show ?thesis using mono [of j "nat idx"] b(3) that(1) by simp
  qed (use that in simp)
  have high: "k < ks ! j" if "k < ks ! nat idx" "idx - 1 < int j" "j < length ks" for j
  proof (cases "j = nat idx")
    case False
    then have "nat idx < j" using that(2) by linarith
    then show ?thesis using mono [of "nat idx" j] that by simp
  qed (use that in simp)
  consider (lt) "ks ! nat idx < k" | (gt) "k < ks ! nat idx" | (eq) "ks ! nat idx = k" by linarith
  then show ?case
  proof cases
    case lt
    show ?thesis
    proof (cases "idx + 1 > upr")
      case True
      then show ?thesis using lt e 1(8,9) b by auto
    next
      case False
      then have "leafSearch ks k (idx + 1) upr = (i, r)" using e lt 1(9) by simp
      with 1(1) [OF refl refl, folded idx_def, of] show ?thesis using False lt 1(3,4,5,6,8) low b by (simp add: idx_def [symmetric])
    qed
  next
    case gt
    show ?thesis
    proof (cases "lwr > idx - 1")
      case True
      then show ?thesis using gt e 1(7,9) b by auto
    next
      case False
      then have "leafSearch ks k lwr (idx - 1) = (i, r)" using e gt 1(9) by simp
      with 1(2) [OF refl refl, folded idx_def, of] show ?thesis using False gt 1(3,4,5,6,7) high b by (simp add: idx_def [symmetric])
    qed
  next
    case eq
    then show ?thesis using e 1(9) b by auto
  qed
qed


lemma filter_drop:
  assumes "\<And>a. a < j \<Longrightarrow> a < length xs \<Longrightarrow> \<not> P (xs ! a)" "\<And>a. j \<le> a \<Longrightarrow> a < length xs \<Longrightarrow> P (xs ! a)"
  shows "filter P xs = drop j xs"
proof -
  have "filter P (take j xs) = []" using assms(1) by (auto simp: filter_empty_conv in_set_conv_nth)
  moreover have "filter P (drop j xs) = drop j xs" using assms(2) by (auto simp: filter_id_conv in_set_conv_nth)
  ultimately show ?thesis using filter_append [of P "take j xs" "drop j xs"] by simp
qed

lemma lc_filter: "filter (keyOrd Next (IntKey k)) (lcTree c) = map IntKey (filter (\<lambda>x. k < x) (lcKeys c))"
  by (simp add: lcTree_def filter_map comp_def keyOrd_def)

lemma lcMoveto_ok:
  assumes "lcGood c"
  shows "\<exists>r c'. lcMoveto None k c = (SQLITE_OK, r, c') \<and> lcGood c' \<and> lcTree c' = lcTree c \<and>
    (lcRest Next c' = [] \<longleftrightarrow> lcTree c = []) \<and> (r = 0 \<longleftrightarrow> IntKey k \<in> set (lcTree c)) \<and> (lcTree c = [] \<longrightarrow> r < 0) \<and>
    (r = 0 \<longrightarrow> lcRest Next c' = IntKey k # filter (keyOrd Next (IntKey k)) (lcTree c)) \<and>
    (0 < r \<longrightarrow> lcRest Next c' = filter (keyOrd Next (IntKey k)) (lcTree c)) \<and>
    (r < 0 \<longrightarrow> lcTree c \<noteq> [] \<longrightarrow> (\<exists>x. lcRest Next c' = x # filter (keyOrd Next (IntKey k)) (lcTree c) \<and> keyOrd Next x (IntKey k)))"
proof (cases "lcKeys c = []")
  case True
  then show ?thesis using assms by (simp add: lcMoveto_def lcGood_def lcUsable_def lcTree_def lcRest_def)
next
  case False
  let ?ks = "lcKeys c"
  have u: "lcUsable c" "sorted_wrt (<) ?ks" using assms by (simp_all add: lcGood_def lcUsable_def)
  obtain i r where s: "leafSearch ?ks k 0 (int (length ?ks) - 1) = (i, r)" by fastforce
  have f: "i < length ?ks" "r \<in> {- 1, 0, 1}" "r = 0 \<longrightarrow> ?ks ! i = k" "r = 1 \<longrightarrow> k < ?ks ! i \<and> (\<forall>j<i. ?ks ! j < k)"
    "r = - 1 \<longrightarrow> ?ks ! i < k \<and> (\<forall>j. i < j \<longrightarrow> j < length ?ks \<longrightarrow> k < ?ks ! j)"
    using leafSearch_correct [OF u(2) _ _ _ _ _ s] False by (auto simp: Suc_le_eq)
  define c' where "c' = c\<lparr>lcAt := i, lcState := CURSOR_VALID\<rparr>"
  have run: "lcMoveto None k c = (SQLITE_OK, r, c')" using False s by (simp add: lcMoveto_def c'_def)
  have g: "lcGood c'" "lcTree c' = lcTree c" "lcRest Next c' = map IntKey (drop i ?ks)"
    using u f(1) by (simp_all add: c'_def lcGood_def lcUsable_def lcTree_def lcRest_def)
  have mono: "?ks ! a < ?ks ! b" if "a < b" "b < length ?ks" for a b using sorted_wrt_nth_less [OF u(2) that] .
  have dropi: "drop i ?ks = ?ks ! i # drop (Suc i) ?ks" using f(1) by (simp add: Cons_nth_drop_Suc)
  have mem: "IntKey k \<in> set (lcTree c) \<longleftrightarrow> k \<in> set ?ks" by (auto simp: lcTree_def)
  have ne: "lcTree c \<noteq> []" using False by (simp add: lcTree_def)
  consider (eq) "r = 0" | (gt) "r = 1" | (lt) "r = - 1" using f(2) by auto
  then show ?thesis
  proof cases
    case eq
    have "filter (\<lambda>x. k < x) ?ks = drop (Suc i) ?ks"
    proof (rule filter_drop)
      show "\<not> k < ?ks ! a" if "a < Suc i" for a using that f(1,3) eq mono [of a i] by (cases "a = i") auto
      show "k < ?ks ! a" if "Suc i \<le> a" "a < length ?ks" for a using that f(3) eq mono [of i a] by auto
    qed
    moreover have "k \<in> set ?ks" using f(1,3) eq by force
    ultimately show ?thesis using run g dropi f(3) eq mem ne by (auto simp: lc_filter)
  next
    case gt
    have "filter (\<lambda>x. k < x) ?ks = drop i ?ks"
    proof (rule filter_drop)
      show "\<not> k < ?ks ! a" if "a < i" for a using that f(4) gt by (meson less_asym)
      show "k < ?ks ! a" if "i \<le> a" "a < length ?ks" for a using that f(4) gt mono [of i a] by (cases "a = i") auto
    qed
    moreover have "k \<notin> set ?ks"
    proof
      assume "k \<in> set ?ks"
      then obtain j where "j < length ?ks" "?ks ! j = k" by (meson in_set_conv_nth)
      then show False using f(4) gt mono [of i j] by (cases "j < i"; cases "j = i") auto
    qed
    ultimately show ?thesis using run g dropi gt mem ne by (auto simp: lc_filter)
  next
    case lt
    have "filter (\<lambda>x. k < x) ?ks = drop (Suc i) ?ks"
    proof (rule filter_drop)
      show "\<not> k < ?ks ! a" if "a < Suc i" for a using that f(1,5) lt mono [of a i] by (cases "a = i") auto
      show "k < ?ks ! a" if "Suc i \<le> a" "a < length ?ks" for a using that f(5) lt by simp
    qed
    moreover have "k \<notin> set ?ks"
    proof
      assume "k \<in> set ?ks"
      then obtain j where "j < length ?ks" "?ks ! j = k" by (meson in_set_conv_nth)
      then show False using f(1,5) lt mono [of j i] by (cases "i < j"; cases "j = i") auto
    qed
    ultimately show ?thesis using run g dropi f(5) lt mem ne by (auto simp: lc_filter keyOrd_def)
  qed
qed

lemma listSeek_simps [simp]: "sBt listSeek = listOps" "eMovetoUnpacked (sEd listSeek) = lcMoveto" "eIntegerKey (sEd listSeek) = lcRowid"
  by (simp_all add: listSeek_def listEdit_def)

interpretation ls: seek_cursors listSeek "lcRest Next" "lcRest Previous" "keyOrd Next" "keyOrd Previous" smallKey lcGood lcTree
proof (intro seek_cursors.intro seek_cursors_axioms.intro, unfold listSeek_simps)
  show "merge_cursors listOps Next (lcRest Next) (keyOrd Next) smallKey lcGood"
    "merge_cursors listOps Previous (lcRest Previous) (keyOrd Previous) smallKey lcGood" by (rule lc.merge_cursors_axioms)+
next
  fix c assume "lcGood c"
  then show "set (lcRest Next c) \<subseteq> set (lcTree c)"
    by (auto simp: lcRest_def lcTree_def dest: in_set_dropD)
next
  fix c x assume "lcGood c" "x \<in> set (lcTree c)"
  then show "smallKey x" by (auto simp: lcGood_def lcUsable_def lcTree_def smallKey_def)
next
  fix c assume "lcGood c"
  then show "sorted_wrt (keyOrd Next) (lcTree c)" by (simp add: lcGood_def lcUsable_def lcTree_def sorted_wrt_map keyOrd_def)
next
  fix c dir assume "lcGood c" "lcRest Next c = []"
  then show "\<exists>c'. xAdvance listOps dir c = (SQLITE_DONE, c') \<and> lcGood c' \<and> lcRest Next c' = []"
    using lcRest_Nil [of c Next] by (cases dir) (auto simp: xAdvance_def listOps_def lcNext_def lcPrevious_def lcGood_def lcUsable_def lcRest_def)
next
  fix c assume "lcGood c"
  then show "lcGood (opSetState listOps CURSOR_INVALID c) \<and> lcRest Next (opSetState listOps CURSOR_INVALID c) = []"
    by (simp add: listOps_def lcGood_def lcUsable_def lcRest_def)
next
  fix c1 c2 i assume "btreeKeyCompareCursors listOps c1 c2 = Inr i"
  then show "- (2 ^ 63) \<le> i \<and> i < 2 ^ 63"
    by (auto simp: btreeKeyCompareCursors_def listOps_def toI64_def split: BtKey.splits)
next
  fix c x xs assume "lcGood c" "lcRest Next c = x # xs"
  then show "x = IntKey (lcRowid c)" using lcRest_Cons [of c Next x xs] by (simp add: lcRowid_def lcKey_def)
qed (rule lcMoveto_ok)


section \<open>Properties\<close>

text \<open>
  C10. The seek for a rowid returns. With every opcode but 0, \<open>*pRes\<close> is 0 exactly where the transaction sees a
  record with this rowid: an inserted one, or a shared one that is not deleted. With opcode 0, which the blob interface passes, it is 0 also for a shared record that the
  transaction has deleted, unless it has deleted all. The cursor in use is
  then at this record. The btree below is any that has the laws of \<open>seek_cursors\<close>.
\<close>

theorem MovetoUnpackedAll_lookup:
  assumes laws: "seek_cursors ops restN restP ltN ltP ok good tree"
    and C: "good (pCur C)" "good (pCurIns C)" "good (pCurDel C)" "\<not> hasKeyInfo C" "transBtreeCursorIsUsed C"
    and k: "ok (IntKey k)"
  shows "\<exists>res C'. sqlite3BtreeMovetoUnpackedAll ops (Some root) None k opcode C = Some (SQLITE_OK, res, None, C') \<and>
    (res = 0 \<longleftrightarrow> IntKey k \<in> (if deleteAll root \<noteq> 0 then {} else if opcode = OP_None then set (tree (pCur C)) else set (tree (pCur C)) - set (tree (pCurDel C)))
       \<union> set (tree (pCurIns C))) \<and>
    (res = 0 \<longrightarrow> sqlite3BtreeIntegerKeyAll (sBt ops) C' = IntKey k)"
  using seek_cursors.lookup [OF laws _ C(5) k, of root opcode] C(1-4)
  by (simp add: seek_cursors.goodS_def [OF laws] seek_cursors.sought_def [OF laws])

definition demoRoot :: TransRootPage where
  "demoRoot = \<lparr>iIns = 1, iDel = 2, deleteAll = 0, pKeyInfo = 0\<rparr>"

lemma listCursors_good:
  assumes "sorted_wrt (<) s" "sorted_wrt (<) i" "sorted_wrt (<) d" "\<forall>x\<in>set (s @ i @ d). - (2 ^ 62) < x \<and> x < 2 ^ 62"
  shows "lcGood (pCur (listCursors s i d))" "lcGood (pCurIns (listCursors s i d))" "lcGood (pCurDel (listCursors s i d))"
    "\<not> hasKeyInfo (listCursors s i d)" "transBtreeCursorIsUsed (listCursors s i d)"
  using assms by (auto simp: listCursors_def lcGood_def lcUsable_def transBtreeCursorIsUsed_def)

lemma listCursors_simps [simp]:
  "lcTree (pCur (listCursors s i d)) = map IntKey s" "lcTree (pCurIns (listCursors s i d)) = map IntKey i" "lcTree (pCurDel (listCursors s i d)) = map IntKey d"
  by (simp_all add: listCursors_def lcTree_def)

theorem MovetoUnpackedAll_lookup_witness:
  "(\<exists>res C'. sqlite3BtreeMovetoUnpackedAll listSeek (Some demoRoot) None 5 OP_Other (listCursors [3, 5, 9] [4, 7] [5]) = Some (SQLITE_OK, res, None, C') \<and>
     res \<noteq> 0) \<and>
   (\<exists>C'. sqlite3BtreeMovetoUnpackedAll listSeek (Some demoRoot) None 5 OP_None (listCursors [3, 5, 9] [4, 7] [5]) = Some (SQLITE_OK, 0, None, C'))"
proof -
  note g = listCursors_good [of "[3, 5, 9]" "[4, 7]" "[5]"]
  have small: "smallKey (IntKey 5)" by (simp add: smallKey_def)
  show ?thesis
    using MovetoUnpackedAll_lookup [OF ls.seek_cursors_axioms g small, of demoRoot OP_Other]
      MovetoUnpackedAll_lookup [OF ls.seek_cursors_axioms g small, of demoRoot OP_None] by (auto simp: demoRoot_def)
qed


text \<open>
  C11. A forward range scan of the rowids from \<open>k\<close> (\<open>OP_SeekGE\<close>) or after \<open>k\<close> (\<open>OP_SeekGT\<close>), followed to its end, returns and
  reads exactly the keys of the range that the transaction sees, in order, provided that the
  cursor of the shared table does not stop at a deleted record and the two cursors do not stop on opposite
  sides of \<open>k\<close>. \<open>seek_forward_errors\<close> shows that both provisos are needed.
\<close>

theorem seek_forward_scan:
  assumes laws: "seek_cursors ops restN restP ltN ltP ok good tree"
    and C: "good (pCur C)" "good (pCurIns C)" "good (pCurDel C)" "\<not> hasKeyInfo C" "transBtreeCursorIsUsed C"
    and k: "ok (IntKey k)" and opcode: "opcode = OP_SeekGE \<or> opcode = OP_SeekGT"
    and sync: "set (tree (pCur C)) \<inter> set (tree (pCurIns C)) \<subseteq> set (tree (pCurDel C))"
    and move: "eMovetoUnpacked (sEd ops) None k (pCur C) = (rc1, r, c)" "eMovetoUnpacked (sEd ops) None k (pCurIns C) = (rc2, ri, ci)"
    and live: "restN c \<noteq> [] \<longrightarrow> hd (restN c) \<notin> set (tree (pCurDel C))"
    and side: "deleteAll root \<noteq> 0 \<or> restN c = [] \<or> restN ci = [] \<or> \<not> r * ri < 0"
  shows "\<exists>ks. seekScan ops (Some root) k opcode C = Some ks \<and> sorted_wrt (\<lambda>a b. \<not> ltN b a) ks \<and>
    set ks = {x \<in> (if deleteAll root \<noteq> 0 then {} else set (tree (pCur C)) - set (tree (pCurDel C))) \<union> set (tree (pCurIns C)).
      ltN (IntKey k) x \<or> opcode = OP_SeekGE \<and> x = IntKey k}"
proof -
  have fw: "isForward opcode" using opcode by (simp add: isForward_def)
  have live': "\<forall>x xs. restN c = x # xs \<longrightarrow> x \<notin> set (tree (pCurDel C))" using live by auto
  show ?thesis
    using seek_cursors.range_complete [OF laws fw _ C(5) k sync move live' side] C(1-4)
    by (simp add: seek_cursors.goodS_def [OF laws] seek_cursors.visible_def [OF laws])
qed


lemma demo_moveto:
  "lcMoveto None 2 (pCur (listCursors [3, 6] [4, 8] [6])) = (SQLITE_OK, 1, \<lparr>lcKeys = [3, 6], lcAt = 0, lcState = CURSOR_VALID\<rparr>)"
  "lcMoveto None 2 (pCurIns (listCursors [3, 6] [4, 8] [6])) = (SQLITE_OK, 1, \<lparr>lcKeys = [4, 8], lcAt = 0, lcState = CURSOR_VALID\<rparr>)"
  by code_simp+

theorem seek_forward_scan_witness:
  "\<exists>ks. seekScan listSeek (Some demoRoot) 2 OP_SeekGE (listCursors [3, 6] [4, 8] [6]) = Some ks \<and> sorted_wrt (\<lambda>a b. \<not> keyOrd Next b a) ks \<and>
     set ks = {IntKey 3, IntKey 4, IntKey 8}"
proof -
  let ?C = "listCursors [3, 6] [4, 8] [6]"
  have g: "lcGood (pCur ?C)" "lcGood (pCurIns ?C)" "lcGood (pCurDel ?C)" "\<not> hasKeyInfo ?C" "transBtreeCursorIsUsed ?C"
    by (rule listCursors_good; simp)+
  have k: "smallKey (IntKey 2)" by (simp add: smallKey_def)
  have m: "eMovetoUnpacked (sEd listSeek) None 2 (pCur ?C) = (SQLITE_OK, 1, \<lparr>lcKeys = [3, 6], lcAt = 0, lcState = CURSOR_VALID\<rparr>)"
    "eMovetoUnpacked (sEd listSeek) None 2 (pCurIns ?C) = (SQLITE_OK, 1, \<lparr>lcKeys = [4, 8], lcAt = 0, lcState = CURSOR_VALID\<rparr>)"
    by (simp_all add: demo_moveto)
  have set: "{x \<in> {IntKey 3, IntKey 6} - {IntKey 6} \<union> {IntKey 4, IntKey 8}. keyOrd Next (IntKey 2) x \<or> OP_SeekGE = OP_SeekGE \<and> x = IntKey 2} =
      {IntKey 3, IntKey 4, IntKey 8}" by (auto simp: keyOrd_def)
  show ?thesis
    using seek_forward_scan [OF ls.seek_cursors_axioms g k _ _ m, of OP_SeekGE demoRoot] set by (simp add: demoRoot_def lcRest_def)
qed

text \<open>
  The provisos of the forward range scan are needed. With the records 3, 6, 9 shared and 8 inserted the
  cursors stop at 3 and 8 for the key 5, on opposite sides of it; the cursor of the larger
  key is used and a scan from 5 loses the record 6. With 1, 5, 6, 7 shared and 5, 6, 7 deleted a
  scan from 7 returns the deleted records 5 and 6. With 1 and 5 shared, 5 deleted and 4 inserted a scan
  after 4 returns the deleted record 5.
\<close>

lemma seek_forward_errors:
  "seekScan listSeek (Some demoRoot) 5 OP_SeekGE (listCursors [3, 6, 9] [8] []) = Some [IntKey 8, IntKey 9] \<and>
   seekScan listSeek (Some demoRoot) 7 OP_SeekGE (listCursors [1, 5, 6, 7] [] [5, 6, 7]) = Some [IntKey 5, IntKey 6] \<and>
   seekScan listSeek (Some demoRoot) 4 OP_SeekGT (listCursors [1, 5] [4] [5]) = Some [IntKey 5]"
  by code_simp

text \<open>
  Backward range scans are wrong as soon as both tables hold records. With 4 shared and 2 inserted a
  scan from 5 downwards reads 2 and loses 4; with 3 and 9 shared and 7 inserted it reads 7
  although it starts at 5; and with 3 inserted into an empty table it reads nothing, the test for
  the end of the table being made on the shared cursor only.
\<close>

lemma seek_backward_errors:
  "seekScan listSeek (Some demoRoot) 5 OP_SeekLE (listCursors [4] [2] []) = Some [IntKey 2] \<and>
   seekScan listSeek (Some demoRoot) 5 OP_SeekLE (listCursors [3, 9] [7] []) = Some [IntKey 7, IntKey 3] \<and>
   seekScan listSeek (Some demoRoot) 5 OP_SeekLE (listCursors [] [3] []) = Some []"
  by code_simp


end
