(* ===== verification/Index_Record.thy ===== *)
theory Index_Record
  imports Trans_Seek
begin

text \<open>
  The record of an index key and the check for a conflicting key (\<open>vdbeMakeRecord\<close>, \<open>btreeLockIndexKeyQuery\<close> and
  \<open>sqlite3BtreeNoConflict\<close> of \<open>rowlock.c\<close>), with the functions of SQLite they serialise with: variable-length integers
  (\<open>util.c\<close>) and serial types (\<open>vdbeaux.c\<close>). A byte is a natural number below 256. The comparison of records \<open>xc\<close> of the lock query is the
  function of the theory \<open>Record_Compare\<close>.
\<close>

section \<open>Variable-length integers\<close>

fun sqlite3VarintLen :: "u64 \<Rightarrow> nat" where
  "sqlite3VarintLen v = (if v div 128 = 0 then 1 else 1 + sqlite3VarintLen (v div 128))"

declare sqlite3VarintLen.simps [simp del]

text \<open>The two loops of \<open>putVarint64\<close>: eight bytes filled from the back, and the buffer that is reversed.\<close>

fun varintFill :: "nat \<Rightarrow> u64 \<Rightarrow> blob" where
  "varintFill 0 v = []"
| "varintFill (Suc i) v = varintFill i (v div 128) @ [v mod 128 + 128]"

fun varintBuf :: "u64 \<Rightarrow> blob" where
  "varintBuf v = (v mod 128 + 128) # (if v div 128 = 0 then [] else varintBuf (v div 128))"

declare varintBuf.simps [simp del]

definition putVarint64 :: "u64 \<Rightarrow> blob" where
  "putVarint64 v =
     (if v div 2 ^ 56 \<noteq> 0 then varintFill 8 (v div 256) @ [v mod 256]
      else let buf = varintBuf v in rev (buf[0 := buf ! 0 mod 128]))"

definition sqlite3PutVarint :: "u64 \<Rightarrow> blob" where
  "sqlite3PutVarint v =
     (if v \<le> 127 then [v mod 128]
      else if v \<le> 16383 then [(v div 128) mod 128 + 128, v mod 128]
      else putVarint64 v)"

definition putVarint32 :: "u32 \<Rightarrow> blob" where
  "putVarint32 v = (if v < 128 then [v] else sqlite3PutVarint v)"

section \<open>Serial types\<close>

text \<open>
  A value: the constructors are the flags \<open>MEM_Null\<close> (with \<open>MEM_Zero\<close> for a column that is not changed), \<open>MEM_Int\<close>,
  \<open>MEM_IntReal\<close>, \<open>MEM_Real\<close> (its 64 bits), \<open>MEM_Str\<close>, \<open>MEM_Blob\<close> with \<open>nZero\<close> zero bytes that are not stored.
\<close>

datatype Mem =
    MNull bool
  | MInt i64
  | MIntReal i64
  | MReal u64
  | MStr blob
  | MBlob blob u32

text \<open>The serial type and the length of an integer; \<open>toReal\<close> is the conversion to \<open>double\<close>.\<close>

definition intSerialType :: "nat \<Rightarrow> i64 \<Rightarrow> u32 \<times> u32" where
  "intSerialType file_format i =
     (let u = nat (if i < 0 then - i - 1 else i) in
      if u \<le> 127 then (if (i = 0 \<or> i = 1) \<and> file_format \<ge> 4 then (8 + u, 0) else (1, 1))
      else if u \<le> 32767 then (2, 2)
      else if u \<le> 8388607 then (3, 3)
      else if u \<le> 2147483647 then (4, 4)
      else if u \<le> 2 ^ 47 - 1 then (5, 6)
      else (6, 8))"

definition sqlite3VdbeSerialType :: "(i64 \<Rightarrow> u64) \<Rightarrow> nat \<Rightarrow> Mem \<Rightarrow> u32 \<times> u32 \<times> Mem" where
  "sqlite3VdbeSerialType toReal file_format pMem =
     (case pMem of
        MNull z \<Rightarrow> (0, 0, pMem)
      | MInt i \<Rightarrow> (let (t, len) = intSerialType file_format i in (t, len, pMem))
      | MIntReal i \<Rightarrow> (let (t, len) = intSerialType file_format i in if t = 6 then (7, len, MReal (toReal i)) else (t, len, pMem))
      | MReal r \<Rightarrow> (7, 8, pMem)
      | MStr z \<Rightarrow> (wrap32 (length z * 2 + 13), length z, pMem)
      | MBlob z nZero \<Rightarrow> (let n = wrap32 (length z + nZero) in (wrap32 (n * 2 + 12), n, pMem)))"

definition sqlite3SmallTypeSizes :: "nat list" where
  "sqlite3SmallTypeSizes = [0, 1, 2, 3, 4, 6, 8, 8, 0, 0, 0, 0] @ map (\<lambda>t. (t - 12) div 2) [12..<128]"

definition sqlite3VdbeSerialTypeLen :: "u32 \<Rightarrow> u32" where
  "sqlite3VdbeSerialTypeLen serial_type = (if serial_type \<ge> 128 then (serial_type - 12) div 2 else sqlite3SmallTypeSizes ! serial_type)"

text \<open>The bytes of a 64-bit value, the most significant first; the bits of a negative integer are those of its two's complement.\<close>

fun putBytes :: "nat \<Rightarrow> u64 \<Rightarrow> blob" where
  "putBytes 0 v = []"
| "putBytes (Suc i) v = putBytes i (v div 256) @ [v mod 256]"

definition bits64 :: "i64 \<Rightarrow> u64" where
  "bits64 i = nat (i mod 2 ^ 64)"

definition sqlite3VdbeSerialPut :: "Mem \<Rightarrow> u32 \<Rightarrow> blob" where
  "sqlite3VdbeSerialPut pMem serial_type =
     (if serial_type \<le> 7 \<and> serial_type > 0 then
        putBytes (sqlite3SmallTypeSizes ! serial_type) (case pMem of MReal r \<Rightarrow> r | MInt i \<Rightarrow> bits64 i | MIntReal i \<Rightarrow> bits64 i | _ \<Rightarrow> 0)
      else if serial_type \<ge> 12 then (case pMem of MStr z \<Rightarrow> z | MBlob z n \<Rightarrow> z | _ \<Rightarrow> [])
      else [])"

section \<open>The record\<close>

text \<open>The sizes, from the last field to the first: \<open>nData\<close>, \<open>nHdr\<close> and the fields with their types (\<open>uTemp\<close>).\<close>

fun recordSize :: "(i64 \<Rightarrow> u64) \<Rightarrow> nat \<Rightarrow> Mem list \<Rightarrow> u32 \<Rightarrow> u32 \<Rightarrow> (u32 \<times> Mem) list \<Rightarrow> u32 \<times> u32 \<times> (u32 \<times> Mem) list" where
  "recordSize toReal file_format [] nData nHdr fs = (nData, nHdr, fs)"
| "recordSize toReal file_format (pRec # rs) nData nHdr fs =
     (let (t0, len0, m) = sqlite3VdbeSerialType toReal file_format pRec;
          (t, len) = (case pRec of
              MNull True \<Rightarrow> (10, len0)
            | MBlob z nZero \<Rightarrow> if nData \<noteq> 0 then (t0, len0) else (t0, wrap32 (len0 + 2 ^ 32 - nZero))
            | _ \<Rightarrow> (t0, len0))
      in recordSize toReal file_format rs (wrap32 (nData + len)) (wrap32 (nHdr + (if t \<le> 127 then 1 else sqlite3VarintLen t))) ((t, m) # fs))"

definition recordHeader :: "u32 \<Rightarrow> u32" where
  "recordHeader nHdr =
     (if nHdr \<le> 126 then nHdr + 1
      else let nVarint = sqlite3VarintLen nHdr; nHdr' = wrap32 (nHdr + nVarint)
           in if nVarint < sqlite3VarintLen nHdr' then wrap32 (nHdr' + 1) else nHdr')"

text \<open>Writing into the buffer; \<open>None\<close> is a write beyond its end.\<close>

definition writeAt :: "blob \<Rightarrow> nat \<Rightarrow> blob \<Rightarrow> blob option" where
  "writeAt buf i bs = (if i + length bs \<le> length buf then Some (take i buf @ bs @ drop (i + length bs) buf) else None)"

fun recordPut :: "(u32 \<times> Mem) list \<Rightarrow> blob \<Rightarrow> nat \<Rightarrow> nat \<Rightarrow> (blob \<times> nat \<times> nat) option" where
  "recordPut [] buf i j = Some (buf, i, j)"
| "recordPut ((t, m) # fs) buf i j =
     Option.bind (writeAt buf i (putVarint32 t)) (\<lambda>buf1.
     Option.bind (writeAt buf1 j (sqlite3VdbeSerialPut m t)) (\<lambda>buf2.
       recordPut fs buf2 (i + length (putVarint32 t)) (j + length (sqlite3VdbeSerialPut m t))))"

text \<open>The record and the final positions \<open>i\<close> and \<open>j\<close> in it, which the code asserts to be \<open>nHdr\<close> and \<open>nByte\<close>.\<close>

definition vdbeMakeRecord :: "(i64 \<Rightarrow> u64) \<Rightarrow> bool \<Rightarrow> nat \<Rightarrow> Mem list \<Rightarrow> (rc \<times> blob \<times> nat \<times> nat) option" where
  "vdbeMakeRecord toReal mallocOk file_format ms =
     (let (nData, nHdr0, fs) = recordSize toReal file_format (rev ms) 0 0 [];
          nHdr = recordHeader nHdr0; nByte = wrap32 (nHdr + nData)
      in if \<not> mallocOk then Some (SQLITE_NOMEM, [], 0, 0)
         else Option.bind (writeAt (replicate nByte 0) 0 (putVarint32 nHdr)) (\<lambda>buf.
           Option.bind (recordPut fs buf (length (putVarint32 nHdr)) nHdr) (\<lambda>(buf', i, j). Some (SQLITE_OK, buf', i, j))))"

section \<open>The check for a conflict\<close>

definition btreeLockIndexKeyQuery ::
  "(i64 \<Rightarrow> u64) \<Rightarrow> bool \<Rightarrow> (blob \<Rightarrow> blob \<Rightarrow> int) \<Rightarrow> PsmMem \<Rightarrow> PID \<Rightarrow> u64 \<Rightarrow> int \<Rightarrow> Mem list UnpackedRecord \<Rightarrow> nat \<Rightarrow> rc option" where
  "btreeLockIndexKeyQuery toReal mallocOk xc M pid owner iTable pIdxKey file_format =
     Option.bind (vdbeMakeRecord toReal mallocOk file_format (take (nFieldU pIdxKey) (aMem pIdxKey))) (\<lambda>(rc, pKey, i, j).
       if rc \<noteq> SQLITE_OK then Some rc else sqlite3rowlockPsmLockRecordQuery xc M pid iTable pKey owner)"

text \<open>
  \<open>used\<close> is \<open>transBtreeIsUsed\<close>. The result: return code, \<open>*pRes\<close> where it is set, the search key and the cursor.
\<close>

definition sqlite3BtreeNoConflict ::
  "(i64 \<Rightarrow> u64) \<Rightarrow> bool \<Rightarrow> (blob \<Rightarrow> blob \<Rightarrow> int) \<Rightarrow> ('c, Mem list) SeekOps \<Rightarrow> bool \<Rightarrow> PsmMem \<Rightarrow> PID \<Rightarrow> u64 \<Rightarrow> int \<Rightarrow> nat \<Rightarrow>
   TransRootPage option \<Rightarrow> Mem list UnpackedRecord \<Rightarrow> 'c BtCursorT \<Rightarrow> (rc \<times> int option \<times> Mem list UnpackedRecord option \<times> 'c BtCursorT) option" where
  "sqlite3BtreeNoConflict toReal mallocOk xc ops used M pid owner iTable file_format pRootPage pIdxKey C =
     Option.bind (if used then btreeLockIndexKeyQuery toReal mallocOk xc M pid owner iTable pIdxKey file_format else Some SQLITE_OK) (\<lambda>rc.
       if rc = SQLITE_OK \<or> rc = SQLITE_DONE then
         map_option (\<lambda>(rc', res, r, C'). (rc', Some res, r, C')) (sqlite3BtreeMovetoUnpackedAll ops pRootPage (Some pIdxKey) 0 OP_NoConflict C)
       else if rc = SQLITE_LOCKED then Some (SQLITE_OK, Some 0, Some pIdxKey, C)
       else Some (rc, None, Some pIdxKey, C))"

section \<open>Reading back\<close>

text \<open>
  How the file format defines the reading of a variable-length integer and of a record: \<open>k\<close> bytes have been read,
  the ninth has eight bits.
\<close>

fun readVarint :: "nat \<Rightarrow> u64 \<Rightarrow> blob \<Rightarrow> (u64 \<times> blob) option" where
  "readVarint k a [] = None"
| "readVarint k a (b # bs) =
     (if k = 8 then Some (a * 256 + b, bs)
      else if b < 128 then Some (a * 128 + b, bs)
      else readVarint (k + 1) (a * 128 + (b - 128)) bs)"

text \<open>The bytes before the last one, all with the eighth bit set.\<close>

lemma readVarint_fill:
  "k + i \<le> 8 \<Longrightarrow> v < 128 ^ i \<Longrightarrow> readVarint k a (varintFill i v @ r) = readVarint (k + i) (a * 128 ^ i + v) r"
proof (induction i arbitrary: k a v r)
  case (Suc i)
  have "v div 128 < 128 ^ i" using Suc.prems(2) by (simp add: less_mult_imp_div_less mult.commute)
  then have "readVarint k a (varintFill (Suc i) v @ r) = readVarint (k + i) (a * 128 ^ i + v div 128) ((v mod 128 + 128) # r)"
    using Suc.IH [of k "v div 128" a "(v mod 128 + 128) # r"] Suc.prems(1) by simp
  also have "\<dots> = readVarint (k + Suc i) ((a * 128 ^ i + v div 128) * 128 + v mod 128) r" using Suc.prems(1) by simp
  also have "(a * 128 ^ i + v div 128) * 128 + v mod 128 = a * 128 ^ Suc i + v" by (simp add: algebra_simps)
  finally show ?case .
qed simp

lemma length_fill [simp]: "length (varintFill i v) = i"
  by (induction i v rule: varintFill.induct) simp_all

text \<open>The reversed buffer is the same filling, of the length the code computes.\<close>

lemma rev_varintBuf: "rev (varintBuf v) = varintFill (sqlite3VarintLen v) v"
  by (induction v rule: varintBuf.induct) (simp add: varintBuf.simps sqlite3VarintLen.simps)

lemma varintLen_bound: "v < 128 ^ sqlite3VarintLen v"
proof (induction v rule: sqlite3VarintLen.induct)
  case (1 v)
  show ?case
  proof (cases "v div 128 = 0")
    case True
    then show ?thesis by (simp add: sqlite3VarintLen.simps [of v] div_eq_0_iff)
  next
    case False
    then have "v div 128 < 128 ^ sqlite3VarintLen (v div 128)" by (rule 1)
    then have "v < 128 ^ sqlite3VarintLen (v div 128) * 128" by (rule div_less_iff_less_mult [THEN iffD1, rotated]) simp
    with False show ?thesis by (simp add: sqlite3VarintLen.simps [of v] mult.commute)
  qed
qed

lemma varintLen_le: "v < 128 ^ n \<Longrightarrow> 0 < n \<Longrightarrow> sqlite3VarintLen v \<le> n"
proof (induction n arbitrary: v)
  case (Suc n)
  show ?case
  proof (cases "v div 128 = 0")
    case False
    have d: "v div 128 < 128 ^ n" using Suc.prems(1) by (simp add: less_mult_imp_div_less mult.commute)
    with False have "0 < n" by (cases n) auto
    with Suc.IH [OF d] False show ?thesis by (simp add: sqlite3VarintLen.simps [of v])
  qed (simp add: sqlite3VarintLen.simps [of v])
qed simp

lemma varintLen_pos: "0 < sqlite3VarintLen v"
  by (subst sqlite3VarintLen.simps) simp

lemma varintLen_mono: "v \<le> w \<Longrightarrow> sqlite3VarintLen v \<le> sqlite3VarintLen w"
  using varintLen_le [of v "sqlite3VarintLen w"] varintLen_bound [of w] by (simp add: sqlite3VarintLen.simps [of w])


lemma putVarint_short:
  assumes "128 \<le> v" "v < 2 ^ 56"
  shows "sqlite3PutVarint v = varintFill (sqlite3VarintLen (v div 128)) (v div 128) @ [v mod 128]"
proof -
  have nz: "v div 128 \<noteq> 0" using assms(1) by (simp add: div_eq_0_iff)
  have b: "varintBuf v = (v mod 128 + 128) # varintBuf (v div 128)" using nz by (subst varintBuf.simps) simp
  have "rev ((varintBuf v)[0 := varintBuf v ! 0 mod 128]) = varintFill (sqlite3VarintLen (v div 128)) (v div 128) @ [v mod 128]"
    by (simp add: b rev_varintBuf)
  moreover have "varintFill (sqlite3VarintLen (v div 128)) (v div 128) = [(v div 128) mod 128 + 128]" if "v \<le> 16383"
  proof -
    have "v div 128 div 128 = 0" using that by (simp add: div_mult2_eq [symmetric])
    then show ?thesis by (simp add: sqlite3VarintLen.simps [of "v div 128"])
  qed
  ultimately show ?thesis using assms by (simp add: sqlite3PutVarint_def putVarint64_def Let_def div_eq_0_iff)
qed

lemma putVarint_read:
  assumes "v < 2 ^ 64"
  shows "readVarint 0 0 (sqlite3PutVarint v @ r) = Some (v, r)"
proof -
  consider "v < 128" | "128 \<le> v" "v < 2 ^ 56" | "2 ^ 56 \<le> v" by linarith
  then show ?thesis
  proof cases
    case 2
    let ?n = "sqlite3VarintLen (v div 128)"
    have "v div 128 < 128 ^ 7" using 2 by (simp add: less_mult_imp_div_less)
    then have n: "?n \<le> 7" by (rule varintLen_le) simp
    have "v mod 128 < 128" by simp
    then have "readVarint 0 0 (sqlite3PutVarint v @ r) = Some (v div 128 * 128 + v mod 128, r)"
      using n readVarint_fill [OF _ varintLen_bound [of "v div 128"], of 0 0 "v mod 128 # r"] by (simp add: putVarint_short [OF 2])
    then show ?thesis by simp
  next
    case 3
    then have p: "sqlite3PutVarint v = varintFill 8 (v div 256) @ [v mod 256]"
      by (simp add: sqlite3PutVarint_def putVarint64_def div_eq_0_iff)
    have "v div 256 < 128 ^ 8" using assms by (simp add: less_mult_imp_div_less)
    then have "readVarint 0 0 (sqlite3PutVarint v @ r) = Some (v div 256 * 256 + v mod 256, r)"
      using readVarint_fill [of 0 8 "v div 256" 0 "v mod 256 # r"] by (simp add: p)
    then show ?thesis by simp
  qed (simp add: sqlite3PutVarint_def)
qed

lemma putVarint32_simps:
  assumes "v < 2 ^ 56"
  shows "readVarint 0 0 (putVarint32 v @ r) = Some (v, r)" "length (putVarint32 v) = sqlite3VarintLen v"
proof -
  have p: "putVarint32 v = sqlite3PutVarint v" by (simp add: putVarint32_def sqlite3PutVarint_def)
  show "readVarint 0 0 (putVarint32 v @ r) = Some (v, r)" using putVarint_read [of v r] assms by (simp add: p)
  show "length (putVarint32 v) = sqlite3VarintLen v"
  proof (cases "v < 128")
    case True
    then show ?thesis by (simp add: p sqlite3PutVarint_def sqlite3VarintLen.simps [of v])
  next
    case False
    then show ?thesis using assms putVarint_short [of v] by (simp add: p sqlite3VarintLen.simps [of v] div_eq_0_iff)
  qed
qed


text \<open>The values of a record.\<close>

datatype Val = VNull | VInt i64 | VReal u64 | VText blob | VBlob blob

definition beVal :: "blob \<Rightarrow> u64" where
  "beVal bs = foldl (\<lambda>a b. a * 256 + b) 0 bs"

definition signVal :: "blob \<Rightarrow> int" where
  "signVal bs = (if beVal bs < 2 ^ (8 * length bs - 1) then int (beVal bs) else int (beVal bs) - 2 ^ (8 * length bs))"

definition readValue :: "u32 \<Rightarrow> blob \<Rightarrow> Val" where
  "readValue t bs =
     (if t = 0 then VNull else if t \<le> 6 then VInt (signVal bs) else if t = 7 then VReal (beVal bs)
      else if t = 8 then VInt 0 else if t = 9 then VInt 1 else if even t then VBlob bs else VText bs)"

function readFields :: "blob \<Rightarrow> blob \<Rightarrow> Val list option" where
  "readFields hdr body =
     (if hdr = [] then Some []
      else case readVarint 0 0 hdr of
          None \<Rightarrow> None
        | Some (t, hdr') \<Rightarrow>
            if length hdr' < length hdr
            then map_option ((#) (readValue t (take (sqlite3VdbeSerialTypeLen t) body))) (readFields hdr' (drop (sqlite3VdbeSerialTypeLen t) body))
            else None)"
  by pat_completeness auto
termination by (relation "measure (length \<circ> fst)") auto

declare readFields.simps [simp del]

definition readRecord :: "blob \<Rightarrow> Val list option" where
  "readRecord rec =
     (case readVarint 0 0 rec of
        None \<Rightarrow> None
      | Some (nHdr, r) \<Rightarrow> let n = nHdr - (length rec - length r) in readFields (take n r) (drop n r))"

text \<open>The value of a field, and the fields whose record is well-formed: 64-bit values and no bytes that are not stored.\<close>

definition memValue :: "(i64 \<Rightarrow> u64) \<Rightarrow> Mem \<Rightarrow> Val" where
  "memValue toReal m =
     (case m of MNull z \<Rightarrow> VNull | MInt i \<Rightarrow> VInt i | MIntReal i \<Rightarrow> if - (2 ^ 47) \<le> i \<and> i < 2 ^ 47 then VInt i else VReal (toReal i)
      | MReal r \<Rightarrow> VReal r | MStr z \<Rightarrow> VText z | MBlob z n \<Rightarrow> VBlob z)"

definition memOk :: "(i64 \<Rightarrow> u64) \<Rightarrow> Mem \<Rightarrow> bool" where
  "memOk toReal m =
     (case m of MNull z \<Rightarrow> \<not> z | MInt i \<Rightarrow> - (2 ^ 63) \<le> i \<and> i < 2 ^ 63 | MIntReal i \<Rightarrow> - (2 ^ 63) \<le> i \<and> i < 2 ^ 63 \<and> toReal i < 2 ^ 64
      | MReal r \<Rightarrow> r < 2 ^ 64 | MStr z \<Rightarrow> length z < 2 ^ 30 | MBlob z n \<Rightarrow> n = 0 \<and> length z < 2 ^ 30)"

lemma length_putBytes [simp]: "length (putBytes n v) = n"
  by (induction n v rule: putBytes.induct) simp_all

lemma beVal_putBytes: "beVal (putBytes n v) = v mod 256 ^ n"
proof (induction n v rule: putBytes.induct)
  case (2 i v)
  have "beVal (putBytes (Suc i) v) = v div 256 mod 256 ^ i * 256 + v mod 256" using 2 by (simp add: beVal_def)
  also have "\<dots> = v mod (256 * 256 ^ i)" using mod_mult2_eq [of v 256 "256 ^ i"] by (simp add: mult.commute)
  finally show ?case by simp
qed (simp add: beVal_def)

text \<open>Reading an integer back from its lowest \<open>n\<close> bytes.\<close>

lemma signVal_putBytes:
  assumes n: "0 < n" "n \<le> 8" and i: "- (2 ^ (8 * n - 1)) \<le> i" "i < 2 ^ (8 * n - 1)"
  shows "signVal (putBytes n (bits64 i)) = i"
proof -
  have pw: "(2 :: int) ^ (8 * n) = 2 * 2 ^ (8 * n - 1)" using n(1) by (simp flip: power_Suc)
  have p256: "(256 :: nat) ^ n = 2 ^ (8 * n)" by (simp add: power_mult)
  have "(2 :: int) ^ (8 * n) dvd 2 ^ 64" using n(2) by (intro le_imp_power_dvd) simp
  then have m: "int (bits64 i mod 256 ^ n) = i mod 2 ^ (8 * n)" by (simp add: bits64_def p256 zmod_int mod_mod_cancel)
  show ?thesis
  proof (cases "0 \<le> i")
    case True
    then have "i mod 2 ^ (8 * n) = i" using i(2) pw by (intro mod_pos_pos_trivial) simp_all
    with m i(2) have "bits64 i mod 256 ^ n < 2 ^ (8 * n - 1)" by (metis of_nat_less_iff of_nat_numeral of_nat_power)
    then show ?thesis using m \<open>i mod 2 ^ (8 * n) = i\<close> by (simp add: signVal_def beVal_putBytes)
  next
    case False
    have "(i + 2 ^ (8 * n)) mod 2 ^ (8 * n) = i + 2 ^ (8 * n)" by (rule mod_pos_pos_trivial) (use False i(1) pw in simp_all)
    then have e: "i mod 2 ^ (8 * n) = i + 2 ^ (8 * n)" by simp
    then have "2 ^ (8 * n - 1) \<le> int (bits64 i mod 256 ^ n)" using m pw i(1) by simp
    then have "\<not> bits64 i mod 256 ^ n < 2 ^ (8 * n - 1)" by (metis not_less of_nat_le_iff of_nat_numeral of_nat_power)
    then show ?thesis using m e by (simp add: signVal_def beVal_putBytes)
  qed
qed


lemma largeSizes:
  assumes "12 \<le> t" "t < 128"
  shows "sqlite3SmallTypeSizes ! t = (t - 12) div 2"
proof -
  let ?s = "[0, 1, 2, 3, 4, 6, 8, 8, 0, 0, 0, 0 :: nat]"
  have "\<not> t < length ?s" using assms(1) by simp
  then have "sqlite3SmallTypeSizes ! t = map (\<lambda>t. (t - 12) div 2) [12..<128] ! (t - length ?s)"
    unfolding sqlite3SmallTypeSizes_def nth_append by (simp only: if_False)
  also have "\<dots> = (12 + (t - length ?s) - 12) div 2" by (rule nth_map_upt) (use assms in simp)
  finally show ?thesis by simp
qed

lemma typeLen_simps:
  "sqlite3VdbeSerialTypeLen 0 = 0" "sqlite3VdbeSerialTypeLen 8 = 0" "sqlite3VdbeSerialTypeLen 9 = 0"
  "12 \<le> t \<Longrightarrow> sqlite3VdbeSerialTypeLen t = (t - 12) div 2"
  "t \<le> 7 \<Longrightarrow> sqlite3VdbeSerialTypeLen t = sqlite3SmallTypeSizes ! t"
  using largeSizes [of t] by (simp_all add: sqlite3VdbeSerialTypeLen_def) (simp_all add: sqlite3SmallTypeSizes_def nth_append)

lemma smallSizes:
  "sqlite3SmallTypeSizes ! 1 = 1" "sqlite3SmallTypeSizes ! 2 = 2" "sqlite3SmallTypeSizes ! 3 = 3" "sqlite3SmallTypeSizes ! 4 = 4"
  "sqlite3SmallTypeSizes ! 5 = 6" "sqlite3SmallTypeSizes ! 6 = 8" "sqlite3SmallTypeSizes ! 7 = 8"
  "sqlite3SmallTypeSizes ! Suc 0 = Suc 0"
  by (simp_all add: sqlite3SmallTypeSizes_def nth_append)

text \<open>An integer: its type, the length of its bytes and what they are read back as.\<close>

definition fieldOk :: "u32 \<Rightarrow> u32 \<Rightarrow> Mem \<Rightarrow> Val \<Rightarrow> bool" where
  "fieldOk t len m v \<longleftrightarrow> t < 2 ^ 32 \<and> length (sqlite3VdbeSerialPut m t) = len \<and> sqlite3VdbeSerialTypeLen t = len \<and> readValue t (sqlite3VdbeSerialPut m t) = v"

lemma int_field:
  assumes t: "1 \<le> t" "t \<le> 6" "sqlite3SmallTypeSizes ! t = len" "0 < len" "len \<le> 8"
    and i: "- (2 ^ (8 * len - 1)) \<le> i" "i < 2 ^ (8 * len - 1)" and m: "m = MInt i \<or> m = MIntReal i"
  shows "fieldOk t len m (VInt i)"
proof -
  have p: "sqlite3VdbeSerialPut m t = putBytes len (bits64 i)" using t m by (auto simp: sqlite3VdbeSerialPut_def)
  show ?thesis using t typeLen_simps(5) [of t] signVal_putBytes [OF t(4,5) i] by (auto simp: fieldOk_def p readValue_def)
qed

lemma const_field: "i = 0 \<or> i = 1 \<Longrightarrow> fieldOk (8 + nat i) 0 m (VInt i)"
  by (auto simp: fieldOk_def sqlite3VdbeSerialPut_def typeLen_simps readValue_def)

lemma real_field: "r < 2 ^ 64 \<Longrightarrow> fieldOk 7 8 (MReal r) (VReal r)"
  by (simp add: fieldOk_def sqlite3VdbeSerialPut_def typeLen_simps smallSizes readValue_def beVal_putBytes)

lemma intSerialType_ok:
  assumes i: "- (2 ^ 63) \<le> i" "i < 2 ^ 63" and m: "m = MInt i \<or> m = MIntReal i"
  obtains t len where "intSerialType fmt i = (t, len)" "t = 6 \<longleftrightarrow> \<not> (- (2 ^ 47) \<le> i \<and> i < 2 ^ 47)" "len \<le> 8" "fieldOk t len m (VInt i)"
proof -
  define u where "u = nat (if i < 0 then - i - 1 else i)"
  have u: "u \<le> n \<longleftrightarrow> - (int n + 1) \<le> i \<and> i \<le> int n" for n by (auto simp: u_def)
  have D: "intSerialType fmt i = (if u \<le> 127 then (if (i = 0 \<or> i = 1) \<and> fmt \<ge> 4 then (8 + u, 0) else (1, 1)) else if u \<le> 32767 then (2, 2)
      else if u \<le> 8388607 then (3, 3) else if u \<le> 2147483647 then (4, 4) else if u \<le> 2 ^ 47 - 1 then (5, 6) else (6, 8))"
    unfolding intSerialType_def u_def [symmetric] Let_def by (rule refl)
  note f = int_field [OF _ _ _ _ _ _ _ m]
  consider "u \<le> 127" "(i = 0 \<or> i = 1) \<and> fmt \<ge> 4" | "u \<le> 127" "\<not> ((i = 0 \<or> i = 1) \<and> fmt \<ge> 4)" | "\<not> u \<le> 127" "u \<le> 32767" | "\<not> u \<le> 32767" "u \<le> 8388607"
    | "\<not> u \<le> 8388607" "u \<le> 2147483647" | "\<not> u \<le> 2147483647" "u \<le> 2 ^ 47 - 1" | "\<not> u \<le> 2 ^ 47 - 1" by linarith
  then show thesis
  proof cases
    case 1
    then have "8 + u = 8 + nat i" by (auto simp: u_def)
    with 1 show thesis by (intro that [of "8 + nat i" 0] const_field) (auto simp: D)
  next
    case 2
    with u [of 127] show thesis by (intro that [of 1 1] f) (auto simp: D smallSizes)
  next
    case 3
    with u [of 32767] show thesis by (intro that [of 2 2] f) (auto simp: D smallSizes)
  next
    case 4
    with u [of 8388607] show thesis by (intro that [of 3 3] f) (auto simp: D smallSizes)
  next
    case 5
    with u [of 2147483647] show thesis by (intro that [of 4 4] f) (auto simp: D smallSizes)
  next
    case 6
    with u [of "2 ^ 47 - 1"] show thesis by (intro that [of 5 6] f) (auto simp: D smallSizes)
  next
    case 7
    with u [of "2 ^ 47 - 1"] i show thesis by (intro that [of 6 8] f) (auto simp: D smallSizes)
  qed
qed


lemma mem_field:
  assumes "memOk toReal m"
  obtains t len m' where "sqlite3VdbeSerialType toReal fmt m = (t, len, m')" "fieldOk t len m' (memValue toReal m)"
proof (cases m)
  case (MNull z)
  then show thesis
    by (intro that [of 0 0 m]) (simp_all add: sqlite3VdbeSerialType_def fieldOk_def sqlite3VdbeSerialPut_def typeLen_simps readValue_def memValue_def)
next
  case (MInt i)
  then have i: "- (2 ^ 63) \<le> i" "i < 2 ^ 63" using assms by (simp_all add: memOk_def)
  obtain t len where r: "intSerialType fmt i = (t, len)" "fieldOk t len m (VInt i)"
    by (rule intSerialType_ok [OF i disjI1 [OF MInt]])
  then show thesis by (intro that [of t len m]) (simp_all add: sqlite3VdbeSerialType_def memValue_def MInt)
next
  case (MIntReal i)
  then have i: "- (2 ^ 63) \<le> i" "i < 2 ^ 63" "toReal i < 2 ^ 64" using assms by (simp_all add: memOk_def)
  obtain t len where r: "intSerialType fmt i = (t, len)" "t = 6 \<longleftrightarrow> \<not> (- (2 ^ 47) \<le> i \<and> i < 2 ^ 47)" "fieldOk t len m (VInt i)"
    by (rule intSerialType_ok [OF i(1,2) disjI2 [OF MIntReal]])
  have "len = 8" if "t = 6" using r(3) that by (simp add: fieldOk_def typeLen_simps smallSizes)
  then show thesis using r real_field [OF i(3)]
    by (intro that [of "if t = 6 then 7 else t" len "if t = 6 then MReal (toReal i) else m"]) (auto simp: sqlite3VdbeSerialType_def memValue_def MIntReal)
next
  case (MReal r)
  then show thesis using real_field [of r] assms by (intro that [of 7 8 m]) (simp_all add: sqlite3VdbeSerialType_def memValue_def memOk_def)
next
  case (MStr z)
  then have "length z < 2 ^ 30" using assms by (simp add: memOk_def)
  then show thesis
    by (intro that [of "length z * 2 + 13" "length z" m])
      (simp_all add: MStr sqlite3VdbeSerialType_def fieldOk_def sqlite3VdbeSerialPut_def typeLen_simps readValue_def memValue_def wrap32_def)
next
  case (MBlob z n)
  then have "length z < 2 ^ 30" "n = 0" using assms by (simp_all add: memOk_def)
  then show thesis
    by (intro that [of "length z * 2 + 12" "length z" m])
      (simp_all add: Let_def MBlob sqlite3VdbeSerialType_def fieldOk_def sqlite3VdbeSerialPut_def typeLen_simps readValue_def memValue_def wrap32_def)
qed

text \<open>The fields with their types, and the bytes they take in the header and in the body.\<close>

definition typed :: "(i64 \<Rightarrow> u64) \<Rightarrow> nat \<Rightarrow> Mem \<Rightarrow> u32 \<times> Mem" where
  "typed toReal fmt m = (let (t, len, m') = sqlite3VdbeSerialType toReal fmt m in (t, m'))"

definition hdrBytes :: "(u32 \<times> Mem) list \<Rightarrow> blob" where
  "hdrBytes fs = concat (map (\<lambda>(t, m). putVarint32 t) fs)"

definition bodyBytes :: "(u32 \<times> Mem) list \<Rightarrow> blob" where
  "bodyBytes fs = concat (map (\<lambda>(t, m). sqlite3VdbeSerialPut m t) fs)"

lemma bytes_simps [simp]:
  "hdrBytes [] = []" "hdrBytes ((t, m) # fs) = putVarint32 t @ hdrBytes fs" "hdrBytes (fs @ gs) = hdrBytes fs @ hdrBytes gs"
  "bodyBytes [] = []" "bodyBytes ((t, m) # fs) = sqlite3VdbeSerialPut m t @ bodyBytes fs" "bodyBytes (fs @ gs) = bodyBytes fs @ bodyBytes gs"
  by (simp_all add: hdrBytes_def bodyBytes_def)

lemma typed_field:
  assumes "memOk toReal m"
  obtains t m' where "typed toReal fmt m = (t, m')" "sqlite3VdbeSerialType toReal fmt m = (t, length (sqlite3VdbeSerialPut m' t), m')"
    "fieldOk t (length (sqlite3VdbeSerialPut m' t)) m' (memValue toReal m)"
proof -
  obtain t len m' where f: "sqlite3VdbeSerialType toReal fmt m = (t, len, m')" "fieldOk t len m' (memValue toReal m)" by (rule mem_field [OF assms])
  moreover from f(2) have "length (sqlite3VdbeSerialPut m' t) = len" by (simp add: fieldOk_def)
  ultimately show thesis by (intro that [of t m']) (simp_all add: typed_def)
qed

lemma recordSize_ok:
  assumes "\<forall>m \<in> set rs. memOk toReal m" "nData + length (bodyBytes (map (typed toReal fmt) rs)) < 2 ^ 32"
    "nHdr + length (hdrBytes (map (typed toReal fmt) rs)) < 2 ^ 32"
  shows "recordSize toReal fmt rs nData nHdr fs =
    (nData + length (bodyBytes (map (typed toReal fmt) rs)), nHdr + length (hdrBytes (map (typed toReal fmt) rs)), rev (map (typed toReal fmt) rs) @ fs)"
  using assms
proof (induction rs arbitrary: nData nHdr fs)
  case (Cons m rs)
  have ok: "memOk toReal m" using Cons.prems(1) by simp
  obtain t m' where f: "typed toReal fmt m = (t, m')" "sqlite3VdbeSerialType toReal fmt m = (t, length (sqlite3VdbeSerialPut m' t), m')"
    "fieldOk t (length (sqlite3VdbeSerialPut m' t)) m' (memValue toReal m)" by (rule typed_field [OF ok])
  let ?len = "length (sqlite3VdbeSerialPut m' t)"
  have t: "t < 2 ^ 56" "length (putVarint32 t) = (if t \<le> 127 then 1 else sqlite3VarintLen t)"
    using f(3) putVarint32_simps(2) [of t] by (simp_all add: fieldOk_def sqlite3VarintLen.simps [of t] div_eq_0_iff)
  have b: "nData + ?len < 2 ^ 32" "nHdr + (if t \<le> 127 then 1 else sqlite3VarintLen t) < 2 ^ 32"
    using Cons.prems(2,3) t(2) by (simp_all add: f(1) split: if_splits)
  have z: "(case m of MNull True \<Rightarrow> (10, ?len) | MBlob z nZero \<Rightarrow> if nData \<noteq> 0 then (t, ?len) else (t, wrap32 (?len + 2 ^ 32 - nZero)) | _ \<Rightarrow> (t, ?len)) = (t, ?len)"
    using ok b(1) by (auto simp: memOk_def wrap32_def split: Mem.splits bool.splits)
  have "recordSize toReal fmt (m # rs) nData nHdr fs = recordSize toReal fmt rs (nData + ?len) (nHdr + (if t \<le> 127 then 1 else sqlite3VarintLen t)) ((t, m') # fs)"
    using b by (simp add: f(2) z wrap32_def cong: if_cong)
  also have "\<dots> = (nData + ?len + length (bodyBytes (map (typed toReal fmt) rs)),
      nHdr + (if t \<le> 127 then 1 else sqlite3VarintLen t) + length (hdrBytes (map (typed toReal fmt) rs)), rev (map (typed toReal fmt) rs) @ (t, m') # fs)"
    by (rule Cons.IH) (use Cons.prems t(2) in \<open>simp_all add: f(1) split: if_splits\<close>)
  finally show ?case using t(2) by (simp add: f(1))
qed simp


text \<open>The length of the header counts the bytes of its own encoding.\<close>

lemma varintLen_Suc:
  assumes "v \<le> h + sqlite3VarintLen h"
  shows "sqlite3VarintLen v \<le> sqlite3VarintLen h + 1"
proof (rule varintLen_le)
  let ?n = "sqlite3VarintLen h"
  have "?n < 128 ^ ?n" by (rule less_exp [THEN order_less_le_trans]) (simp add: power_mono)
  then have "v < 128 ^ ?n + 128 ^ ?n" using assms varintLen_bound [of h] by linarith
  also have "\<dots> \<le> 128 ^ (?n + 1)" by simp
  finally show "v < 128 ^ (?n + 1)" .
qed simp

lemma recordHeader_ok:
  assumes "h < 2 ^ 31"
  shows "recordHeader h = h + sqlite3VarintLen (recordHeader h)"
proof (cases "h \<le> 126")
  case True
  then show ?thesis by (simp add: recordHeader_def sqlite3VarintLen.simps [of "Suc h"] div_eq_0_iff)
next
  case False
  let ?n = "sqlite3VarintLen h"
  have n: "?n \<le> 5" using assms by (intro varintLen_le) simp_all
  then have w: "wrap32 (h + ?n) = h + ?n" "wrap32 (h + ?n + 1) = h + ?n + 1" using assms by (simp_all add: wrap32_def)
  have m: "?n \<le> sqlite3VarintLen (h + ?n)" "sqlite3VarintLen (h + ?n) \<le> sqlite3VarintLen (h + ?n + 1)" by (simp_all add: varintLen_mono)
  have s: "sqlite3VarintLen (h + ?n) \<le> ?n + 1" by (rule varintLen_Suc) simp
  show ?thesis
  proof (cases "?n < sqlite3VarintLen (h + ?n)")
    case True
    then have l: "sqlite3VarintLen (h + ?n) = ?n + 1" using s by simp
    have "h + ?n + 1 < 128 ^ (?n + 1)"
    proof -
      have "Suc ?n < 128 ^ ?n" using power_increasing [of 1 ?n "128 :: nat"] varintLen_pos [of h] n by simp
      then have "h + ?n + 1 < 128 ^ ?n + 128 ^ ?n" using varintLen_bound [of h] by linarith
      then show ?thesis by (rule less_le_trans) simp
    qed
    then have "sqlite3VarintLen (h + ?n + 1) \<le> ?n + 1" by (rule varintLen_le) simp
    with l m have "sqlite3VarintLen (h + ?n + 1) = ?n + 1" by linarith
    then show ?thesis using False True w by (simp add: recordHeader_def Let_def)
  next
    case no: False
    with m(1) have "sqlite3VarintLen (h + ?n) = ?n" by simp
    then show ?thesis using False w by (simp add: recordHeader_def Let_def)
  qed
qed

text \<open>Writing the two parts of the buffer, field by field.\<close>

lemma writeAt_mid: "length bs \<le> length Z \<Longrightarrow> i = length A \<Longrightarrow> writeAt (A @ Z @ C) i bs = Some (A @ bs @ drop (length bs) Z @ C)"
  by (simp add: writeAt_def)

lemma recordPut_ok:
  "length Z = length (hdrBytes fs) \<Longrightarrow> length Y = length (bodyBytes fs) \<Longrightarrow> i = length A \<Longrightarrow> j = length A + length Z + length B \<Longrightarrow>
   recordPut fs (A @ Z @ B @ Y) i j =
     Some (A @ hdrBytes fs @ B @ bodyBytes fs, i + length (hdrBytes fs), j + length (bodyBytes fs))"
proof (induction fs arbitrary: A Z B Y i j)
  case (Cons f fs)
  obtain t m where f: "f = (t, m)" by (cases f)
  let ?h = "putVarint32 t" and ?b = "sqlite3VdbeSerialPut m t"
  have 1: "writeAt (A @ Z @ B @ Y) i ?h = Some (A @ ?h @ drop (length ?h) Z @ B @ Y)" using Cons.prems by (intro writeAt_mid) (simp_all add: f)
  have 2: "writeAt (A @ ?h @ drop (length ?h) Z @ B @ Y) j ?b = Some ((A @ ?h) @ drop (length ?h) Z @ (B @ ?b) @ drop (length ?b) Y)"
    using Cons.prems writeAt_mid [of ?b Y j "A @ ?h @ drop (length ?h) Z @ B" "[]"] by (simp add: f)
  have "recordPut fs ((A @ ?h) @ drop (length ?h) Z @ (B @ ?b) @ drop (length ?b) Y) (i + length ?h) (j + length ?b) =
      Some ((A @ ?h) @ hdrBytes fs @ (B @ ?b) @ bodyBytes fs, i + length ?h + length (hdrBytes fs), j + length ?b + length (bodyBytes fs))"
    by (rule Cons.IH) (use Cons.prems in \<open>simp_all add: f\<close>)
  then show ?case using 1 2 by (simp add: f)
qed simp

lemma readFields_ok:
  "\<forall>m \<in> set ms. memOk toReal m \<Longrightarrow>
   readFields (hdrBytes (map (typed toReal fmt) ms)) (bodyBytes (map (typed toReal fmt) ms)) = Some (map (memValue toReal) ms)"
proof (induction ms)
  case (Cons m ms)
  have ok: "memOk toReal m" using Cons.prems by simp
  obtain t m' where f: "typed toReal fmt m = (t, m')" "fieldOk t (length (sqlite3VdbeSerialPut m' t)) m' (memValue toReal m)"
    by (rule typed_field [OF ok])
  then have t: "t < 2 ^ 56" "sqlite3VdbeSerialTypeLen t = length (sqlite3VdbeSerialPut m' t)" "readValue t (sqlite3VdbeSerialPut m' t) = memValue toReal m"
    by (simp_all add: fieldOk_def)
  have "putVarint32 t \<noteq> []" using putVarint32_simps(2) [OF t(1)] varintLen_pos [of t] by auto
  then show ?case
    using Cons t putVarint32_simps(1) [OF t(1)] by (subst readFields.simps) (simp add: f(1))
qed (simp add: readFields.simps)


text \<open>An upper bound of the bytes of a field in the body.\<close>

definition memBytes :: "Mem \<Rightarrow> nat" where
  "memBytes m = (case m of MStr z \<Rightarrow> length z | MBlob z n \<Rightarrow> length z | _ \<Rightarrow> 8)"

lemma typed_bounds:
  assumes "memOk toReal m" "typed toReal fmt m = (t, m')"
  shows "length (sqlite3VdbeSerialPut m' t) \<le> memBytes m" "length (putVarint32 t) \<le> 5"
proof -
  obtain t0 m0 where f: "typed toReal fmt m = (t0, m0)" "sqlite3VdbeSerialType toReal fmt m = (t0, length (sqlite3VdbeSerialPut m0 t0), m0)"
    "fieldOk t0 (length (sqlite3VdbeSerialPut m0 t0)) m0 (memValue toReal m)" by (rule typed_field [OF assms(1)])
  then have t: "t < 2 ^ 32" using assms(2) by (simp add: fieldOk_def)
  then have "sqlite3VarintLen t \<le> 5" by (intro varintLen_le) simp_all
  then show "length (putVarint32 t) \<le> 5" using putVarint32_simps(2) [of t] t by simp
  have "snd (intSerialType fmt i) \<le> 8" for i by (simp add: intSerialType_def Let_def)
  then show "length (sqlite3VdbeSerialPut m' t) \<le> memBytes m"
    using f(1,2) assms by (auto simp: sqlite3VdbeSerialType_def memBytes_def memOk_def wrap32_def Let_def split: Mem.splits prod.splits if_splits) (metis snd_conv)+
qed

lemma record_bounds:
  "\<forall>m \<in> set ms. memOk toReal m \<Longrightarrow> length (bodyBytes (map (typed toReal fmt) ms)) \<le> sum_list (map memBytes ms) \<and>
   length (hdrBytes (map (typed toReal fmt) ms)) \<le> 5 * length ms"
proof (induction ms)
  case (Cons m ms)
  obtain t m' where f: "typed toReal fmt m = (t, m')" by (cases "typed toReal fmt m")
  show ?case using Cons typed_bounds [OF _ f] by (auto simp: f)
qed simp

text \<open>The bytes of a record: the length of its header, the types, the values.\<close>

definition headerLen :: "(u32 \<times> Mem) list \<Rightarrow> nat" where
  "headerLen fs = recordHeader (length (hdrBytes fs))"

definition recBytes :: "(u32 \<times> Mem) list \<Rightarrow> blob" where
  "recBytes fs = putVarint32 (headerLen fs) @ hdrBytes fs @ bodyBytes fs"

lemma make_record_bytes:
  assumes ok: "\<forall>m \<in> set ms. memOk toReal m" and size: "sum_list (map memBytes ms) + 5 * length ms < 2 ^ 30"
    and fs_def: "fs = map (typed toReal fmt) ms"
  shows "vdbeMakeRecord toReal True fmt ms = Some (SQLITE_OK, recBytes fs, headerLen fs, length (recBytes fs))"
    "headerLen fs = length (putVarint32 (headerLen fs)) + length (hdrBytes fs)" "headerLen fs < 2 ^ 31" "length (recBytes fs) < 2 ^ 31"
proof -
  let ?fs = fs
  let ?h = "length (hdrBytes ?fs)" and ?b = "length (bodyBytes ?fs)"
  have bd: "?b + ?h < 2 ^ 30" using record_bounds [OF ok, of fmt] size unfolding fs_def by linarith
  have rv: "length (bodyBytes (map (typed toReal fmt) (rev ms))) = ?b" "length (hdrBytes (map (typed toReal fmt) (rev ms))) = ?h"
    by (simp_all add: fs_def bodyBytes_def hdrBytes_def length_concat rev_map [symmetric] sum_list_rev comp_def)
  have sz: "recordSize toReal fmt (rev ms) 0 0 [] = (?b, ?h, ?fs)"
    using recordSize_ok [of "rev ms" toReal 0 fmt 0 "[]"] ok bd unfolding rv by (simp add: rev_map fs_def)
  define H where "H = headerLen ?fs"
  have Hd: "H = recordHeader ?h" by (simp only: H_def headerLen_def)
  have H: "H = ?h + sqlite3VarintLen H" unfolding Hd by (rule recordHeader_ok) (use bd in simp)
  have "sqlite3VarintLen ?h \<le> 5" using bd by (intro varintLen_le) simp_all
  then have Hb: "H \<le> ?h + 6" using bd unfolding Hd by (auto simp: recordHeader_def Let_def wrap32_def)
  then have Hs: "H < 2 ^ 31" using bd by simp
  let ?v = "putVarint32 H"
  have v: "length ?v = sqlite3VarintLen H" using putVarint32_simps(2) [of H] Hs by simp
  have nb: "wrap32 (H + ?b) = length ?v + ?h + ?b" using H Hb bd v by (simp add: wrap32_def)
  have w: "writeAt (replicate (length ?v + ?h + ?b) 0) 0 ?v = Some (?v @ replicate ?h 0 @ [] @ replicate ?b 0)"
    by (simp add: writeAt_def replicate_add)
  have p: "recordPut ?fs (?v @ replicate ?h 0 @ [] @ replicate ?b 0) (length ?v) H = Some (?v @ hdrBytes ?fs @ [] @ bodyBytes ?fs, length ?v + ?h, H + ?b)"
    by (rule recordPut_ok) (use H v in simp_all)
  show "vdbeMakeRecord toReal True fmt ms = Some (SQLITE_OK, recBytes ?fs, headerLen ?fs, length (recBytes ?fs))"
    using w p H v unfolding vdbeMakeRecord_def sz by (simp add: Hd [symmetric] nb recBytes_def H_def [symmetric])
  show "headerLen ?fs = length (putVarint32 (headerLen ?fs)) + length (hdrBytes ?fs)" "headerLen ?fs < 2 ^ 31"
    using H v Hs unfolding H_def by simp_all
  show "length (recBytes ?fs) < 2 ^ 31" using H v Hb bd by (simp add: recBytes_def H_def [symmetric])
qed

lemma make_record:
  assumes ok: "\<forall>m \<in> set ms. memOk toReal m" and size: "sum_list (map memBytes ms) + 5 * length ms < 2 ^ 30"
  obtains rec i j where "vdbeMakeRecord toReal True fmt ms = Some (SQLITE_OK, rec, i, j)" "readRecord rec = Some (map (memValue toReal) ms)"
    "j = length rec" "\<exists>r. readVarint 0 0 rec = Some (i, r)" "i \<le> j"
proof -
  let ?fs = "map (typed toReal fmt) ms"
  note m = make_record_bytes [OF ok size refl, of fmt]
  have rd: "readVarint 0 0 (recBytes ?fs) = Some (headerLen ?fs, hdrBytes ?fs @ bodyBytes ?fs)"
    using putVarint32_simps(1) [of "headerLen ?fs"] m(3) by (simp add: recBytes_def)
  have n: "headerLen ?fs - (length (recBytes ?fs) - length (hdrBytes ?fs @ bodyBytes ?fs)) = length (hdrBytes ?fs)"
    using m(2) by (simp add: recBytes_def)
  have "readRecord (recBytes ?fs) = Some (map (memValue toReal) ms)"
    using readFields_ok [OF ok, of fmt] unfolding readRecord_def rd option.case prod.case Let_def n by simp
  moreover have "headerLen ?fs \<le> length (recBytes ?fs)" using m(2) by (simp add: recBytes_def)
  ultimately show thesis using m(1) rd by (intro that [of "recBytes ?fs" "headerLen ?fs" "length (recBytes ?fs)"]) simp_all
qed

section \<open>Properties\<close>

text \<open>
  C15. The record of an index key: \<open>vdbeMakeRecord\<close> succeeds where memory suffices, writes nothing beyond its buffer, ends at the positions
  it asserts (the length in the header, the end of the buffer), and reading the record as the file format defines it gives back the
  values of the key. So two keys have the same record exactly if they have the same values. The fields
  have no bytes that are not stored, and the record has less than \<open>2 ^ 30\<close> bytes.
\<close>

theorem MakeRecord_roundtrip:
  assumes "\<forall>m \<in> set ms. memOk toReal m" "sum_list (map memBytes ms) + 5 * length ms < 2 ^ 30"
  shows "\<exists>rec i r. vdbeMakeRecord toReal True fmt ms = Some (SQLITE_OK, rec, i, length rec) \<and> readVarint 0 0 rec = Some (i, r) \<and>
    i \<le> length rec \<and> readRecord rec = Some (map (memValue toReal) ms)"
  by (rule make_record [OF assms, of fmt]) blast

theorem MakeRecord_roundtrip_witness:
  "\<exists>rec i. vdbeMakeRecord (\<lambda>i. 0) True 4 [MStr [97, 98], MInt (- 300), MNull False, MInt 1] = Some (SQLITE_OK, rec, i, length rec) \<and>
     readRecord rec = Some [VText [97, 98], VInt (- 300), VNull, VInt 1]"
  using MakeRecord_roundtrip [of "[MStr [97, 98], MInt (- 300), MNull False, MInt 1]" "\<lambda>i. 0" 4] by (auto simp: memOk_def memBytes_def memValue_def)

text \<open>
  A blob with zero bytes that are not stored, before another field, is not expanded: its bytes are missing
  in the record, the fields after it stand too far ahead, and the position asserted to be the end of the buffer is not reached. The
  record is not that of the same key with the bytes stored, so the lock of that key is not found.
\<close>

lemma MakeRecord_zeroblob:
  "vdbeMakeRecord toReal True 4 [MBlob [] 2, MInt 300] = Some (SQLITE_OK, [3, 16, 2, 1, 44, 0, 0], 3, 5) \<and>
   vdbeMakeRecord toReal True 4 [MBlob [0, 0] 0, MInt 300] = Some (SQLITE_OK, [3, 16, 2, 0, 0, 1, 44], 3, 7)"
proof -
  have p: "putVarint32 3 = [3]" "putVarint32 16 = [16]" "putVarint32 2 = [2]" "recordHeader 2 = 3" "wrap32 7 = 7"
    by (simp_all add: putVarint32_def recordHeader_def wrap32_def)
  have z: "replicate 7 (0 :: u8) = [0, 0, 0, 0, 0, 0, 0]" by (simp add: numeral_eq_Suc)
  have "putBytes (Suc (Suc 0)) 300 = [1, 44]" by simp
  then have b: "sqlite3VdbeSerialPut (MInt 300) 2 = [1, 44]" "sqlite3VdbeSerialPut (MBlob z n) 16 = z" for z n
    by (simp_all add: sqlite3VdbeSerialPut_def smallSizes bits64_def del: putBytes.simps flip: numeral_2_eq_2)
  have s: "recordSize toReal 4 (rev [MBlob [] 2, MInt 300]) 0 0 [] = (4, 2, [(16, MBlob [] 2), (2, MInt 300)])"
    "recordSize toReal 4 (rev [MBlob [0, 0] 0, MInt 300]) 0 0 [] = (4, 2, [(16, MBlob [0, 0] 0), (2, MInt 300)])"
    by (simp_all add: sqlite3VdbeSerialType_def intSerialType_def wrap32_def Let_def)
  show ?thesis unfolding vdbeMakeRecord_def s by (simp add: p z b writeAt_def Let_def)
qed

end
