(* ===== verification/Trans_Control.thy ===== *)
theory Trans_Control
  imports Trans_Btree
begin

text \<open>
  The rest of \<open>rowlock.c\<close> around the transaction btree: the root page mapping, table locks with their history,
  deleting all records, counting, the end of a transaction and the locks taken at its start.
  The functions of SQLite's own btree, pager and schema are arguments.
\<close>

section \<open>The root page mapping\<close>

definition zeroRootPage :: TransRootPage where
  "zeroRootPage = \<lparr>iIns = 0, iDel = 0, deleteAll = 0, pKeyInfo = 0\<rparr>"

definition transRootPagesInit :: HashTab where
  "transRootPagesInit = hashInit"

text \<open>The result is the entry, 0 where memory is short; \<open>pNew\<close>, \<open>newElem\<close> and \<open>htOk\<close> are the results of the allocations.\<close>

definition addTransRootPage ::
  "addr \<Rightarrow> addr \<Rightarrow> bool \<Rightarrow> LockWorld \<Rightarrow> int \<Rightarrow> nat \<Rightarrow> nat \<Rightarrow> addr \<Rightarrow> (addr \<times> LockWorld) option" where
  "addTransRootPage pNew newElem htOk W iTable iInsTable iDelTable keyInfo =
     Option.bind (sqlite3HashI64Find (rootPages W) (rootHeap W) iTable) (\<lambda>pOld.
     Option.bind
       (if pOld \<noteq> 0 then Some (pOld, W)
        else if pNew = 0 then Some (0, W)
        else Option.bind (sqlite3HashI64Insert (rootPages W) (rootHeap W) iTable pNew newElem htOk) (\<lambda>(r, T, H).
          if r = pNew then Some (0, W\<lparr>rootPages := T, rootHeap := H\<rparr>)
          else Some (pNew, W\<lparr>rootPages := T, rootHeap := H, rootData := (rootData W)(pNew \<mapsto> zeroRootPage)\<rparr>)))
       (\<lambda>(p, W').
         if p = 0 then Some (0, W')
         else Option.bind (rootData W' p) (\<lambda>d.
           Some (p, W'\<lparr>rootData := (rootData W')(p \<mapsto> d\<lparr>iIns := iInsTable, iDel := iDelTable, pKeyInfo := keyInfo\<rparr>)\<rparr>))))"

partial_function (option) rootPagesFinishLoop :: "LockWorld \<Rightarrow> LockWorld option" where
  "rootPagesFinishLoop W =
     (if firstH (rootPages W) = 0 then Some W
      else Option.bind (rootHeap W (firstH (rootPages W))) (\<lambda>e.
           Option.bind (rootData W (dataH e)) (\<lambda>d.
           Option.bind (sqlite3HashI64Insert (rootPages W) (rootHeap W) (keyH e) 0 0 True) (\<lambda>(r, T, H).
             rootPagesFinishLoop (W\<lparr>rootPages := T, rootHeap := H, rootData := (rootData W)(dataH e := None)\<rparr>)))))"

definition transRootPagesFinish :: "LockWorld \<Rightarrow> LockWorld option" where
  "transRootPagesFinish W =
     Option.bind (rootPagesFinishLoop W) (\<lambda>W'.
     Option.bind (hashClear (rootPages W') (rootHeap W')) (\<lambda>(T, H). Some (W'\<lparr>rootPages := T, rootHeap := H\<rparr>)))"

section \<open>Kinds of tables\<close>

text \<open>\<open>None\<close> where no database has the btree, the loop then reads beyond the array.\<close>

fun rowlockBtreeToIndex :: "addr list \<Rightarrow> addr \<Rightarrow> nat option" where
  "rowlockBtreeToIndex [] p = None"
| "rowlockBtreeToIndex (pBt # aDb) p =
     (if pBt = p then Some 0 else Option.bind (rowlockBtreeToIndex aDb p) (\<lambda>i. Some (i + 1)))"

record SchemaIndex =
  tnumX :: int
  isPrimaryKeyX :: bool
  isUniqueX :: bool

record SchemaT =
  idxHash :: "SchemaIndex list"
  seqTab :: "int option"
  tblHash :: "int list"

definition rowlockJudgeTableType :: "SchemaT \<Rightarrow> int \<Rightarrow> u8" where
  "rowlockJudgeTableType pSchema rootPage =
     (case find (\<lambda>x. tnumX x = rootPage) (idxHash pSchema) of
        Some pIndex \<Rightarrow> if isPrimaryKeyX pIndex \<or> isUniqueX pIndex then INDEX_UNIQUE else INDEX_NORMAL
      | None \<Rightarrow> if seqTab pSchema = Some rootPage then TABLE_SEQUENCE else TABLE_NORMAL)"

definition rowlockIsIndex :: "SchemaT \<Rightarrow> int \<Rightarrow> bool" where
  "rowlockIsIndex pSchema rootPage \<longleftrightarrow>
     (let type = rowlockJudgeTableType pSchema rootPage in type = INDEX_UNIQUE \<or> type = INDEX_NORMAL)"

section \<open>Table locks with history\<close>

definition sqlite3rowlockIpcLockTableAndAddHistory ::
  "Caller \<Rightarrow> Alloc \<Rightarrow> bool \<Rightarrow> RowLockSavepoint \<Rightarrow> LockWorld \<Rightarrow> int \<Rightarrow> u8 \<Rightarrow> (rc \<times> RowLockSavepoint \<times> LockWorld) option" where
  "sqlite3rowlockIpcLockTableAndAddHistory me A usesTrans S W iTable eLock =
     (if \<not> usesTrans then Some (SQLITE_OK, S, W)
      else Option.bind (sqlite3rowlockIpcLockTable (tableArea W) (myPid me) (myOwner me) iTable eLock MODE_LOCK_NORMAL) (\<lambda>(rc, prev, m).
        let W' = W\<lparr>tableArea := m\<rparr>; prevLock = (case prev of None \<Rightarrow> eLock | Some l \<Rightarrow> l) in
        if rc \<noteq> SQLITE_OK then Some (rc, S, W')
        else if eLock > prevLock then
          (let (rc', S') = sqlite3rowlockHistoryAddTableLock (aHistOk A) (aSpOk A) (aGrowOk A) (aJunk A) S iTable prevLock
           in Some (rc', S', W'))
        else Some (SQLITE_OK, S, W')))"

definition sqlite3BtreeLockTableForRowLock ::
  "Caller \<Rightarrow> Alloc \<Rightarrow> bool \<Rightarrow> RowLockSavepoint \<Rightarrow> LockWorld \<Rightarrow> int \<Rightarrow> u8 \<Rightarrow> (rc \<times> RowLockSavepoint \<times> LockWorld) option" where
  "sqlite3BtreeLockTableForRowLock me A usesTrans S W iTab isWriteLock =
     sqlite3rowlockIpcLockTableAndAddHistory me A usesTrans S W iTab
       (if isWriteLock = 0 \<or> isWriteLock = 1 then READ_LOCK + isWriteLock
        else if isWriteLock = 2 then EXCLSV_LOCK else READ_LOCK)"

section \<open>Deleting all records\<close>

text \<open>Whether anyone else has a row of the table locked, by a walk over the shared table.\<close>

partial_function (option) lockRecordsLoop :: "Caller \<Rightarrow> 'c EditOps \<Rightarrow> RowArea \<Rightarrow> int \<Rightarrow> 'c \<Rightarrow> rc option" where
  "lockRecordsLoop me ops m iTable c =
     Option.bind (sqlite3rowlockIpcLockRecordQuery m (myPid me) (myOwner me) iTable (eIntegerKey ops c)) (\<lambda>rc.
       if rc \<noteq> SQLITE_OK then Some rc
       else let (rc', c') = eNext ops c in
         if rc' = SQLITE_OK then lockRecordsLoop me ops m iTable c'
         else if rc' \<noteq> SQLITE_DONE then Some rc' else Some SQLITE_OK)"

definition rowlockLockRecordsQuery ::
  "Caller \<Rightarrow> 'c EditOps \<Rightarrow> bool \<Rightarrow> SchemaT \<Rightarrow> RowArea \<Rightarrow> int \<Rightarrow> rc + 'c \<Rightarrow> rc option" where
  "rowlockLockRecordsQuery me ops memOk sch m iTable open =
     (if rowlockIsIndex sch iTable then Some SQLITE_OK
      else if \<not> memOk then Some SQLITE_NOMEM
      else case open of
          Inl rc \<Rightarrow> Some rc
        | Inr c \<Rightarrow>
            (let (rc, res, c1) = eFirst ops c in
             if rc \<noteq> SQLITE_OK then Some rc
             else if res = 0 then lockRecordsLoop me ops m iTable c1 else Some SQLITE_OK))"

text \<open>Results of SQLite's own functions that \<open>sqlite3TransBtreeClearTable\<close> calls: clearing the table of inserted
  records with the number of them, opening and counting the shared table.\<close>

record 'c ClearCalls =
  clearIns :: "nat \<Rightarrow> rc \<times> i64"
  openShared :: "rc + 'c"
  cursorMemOk :: bool
  countMemOk :: bool

definition btreeCountEntry :: "'c EditOps \<Rightarrow> 'c ClearCalls \<Rightarrow> rc + i64" where
  "btreeCountEntry ops K =
     (if \<not> countMemOk K then Inl SQLITE_NOMEM
      else case openShared K of Inl rc \<Rightarrow> Inl rc | Inr c \<Rightarrow> eCount ops c)"

text \<open>The value of an \<open>int\<close>.\<close>

definition toInt32 :: "int \<Rightarrow> int" where
  "toInt32 x = (x + 2 ^ 31) mod 2 ^ 32 - 2 ^ 31"

text \<open>The result: return code, \<open>*pnChange\<close> where it is asked for and written, history and locks.\<close>

definition sqlite3TransBtreeClearTable ::
  "Caller \<Rightarrow> Alloc \<Rightarrow> 'c EditOps \<Rightarrow> 'c ClearCalls \<Rightarrow> SchemaT \<Rightarrow> addr \<Rightarrow> addr \<Rightarrow> bool \<Rightarrow> bool \<Rightarrow> RowLockSavepoint \<Rightarrow> LockWorld \<Rightarrow> int \<Rightarrow>
   (rc \<times> i64 option \<times> RowLockSavepoint \<times> LockWorld) option" where
  "sqlite3TransBtreeClearTable me A ops K sch pNew newElem htOk wantCount S W iTable =
     Option.bind (sqlite3rowlockIpcLockTableAndAddHistory me A True S W iTable WRITEEX_LOCK) (\<lambda>(rc1, S1, W1).
     if rc1 \<noteq> SQLITE_OK then Some (rc1, None, S1, W1)
     else Option.bind (rowlockLockRecordsQuery me ops (cursorMemOk K) sch (rowArea W1) iTable (openShared K)) (\<lambda>rc2.
     if rc2 \<noteq> SQLITE_OK then Some (rc2, None, S1, W1)
     else Option.bind (sqlite3HashI64Find (rootPages W1) (rootHeap W1) iTable) (\<lambda>pRootPage.
     Option.bind
       (if pRootPage \<noteq> 0 then
          Option.bind (rootData W1 pRootPage) (\<lambda>d.
            let (rc3, n) = (if iIns d > 0 then clearIns K (iIns d) else (SQLITE_OK, 0)) in Some (rc3, pRootPage, if wantCount then n else 0, W1))
        else Option.bind (addTransRootPage pNew newElem htOk W1 iTable 0 0 0) (\<lambda>(p, W2).
          Some (if p = 0 then SQLITE_NOMEM else SQLITE_OK, p, 0, W2)))
       (\<lambda>(rc3, p, nChangeIns, W2).
         if rc3 \<noteq> SQLITE_OK then Some (rc3, None, S1, W2)
         else let cnt = (if wantCount then btreeCountEntry ops K else Inr 0) in
           case cnt of
             Inl rc4 \<Rightarrow> Some (rc4, None, S1, W2)
           | Inr nChange \<Rightarrow>
               Option.bind (rootData W2 p) (\<lambda>d.
                 let (rc5, S2) = sqlite3rowlockHistoryAddTableClear (aHistOk A) (aSpOk A) (aGrowOk A) (aJunk A) S1 iTable (deleteAll d);
                     nc = (if wantCount then Some (toInt32 (nChange + nChangeIns)) else None) in
                 if rc5 \<noteq> SQLITE_OK then Some (rc5, nc, S2, W2)
                 else Some (SQLITE_OK, nc, S2, W2\<lparr>rootData := (rootData W2)(p \<mapsto> d\<lparr>deleteAll := 1\<rparr>)\<rparr>))))))"

section \<open>Counting\<close>

definition sqlite3BtreeCountAll :: "'c EditOps \<Rightarrow> bool \<Rightarrow> 'c BtCursorT \<Rightarrow> rc + i64" where
  "sqlite3BtreeCountAll ops delAll C =
     (if \<not> transBtreeCursorIsUsed C then eCount ops (pCur C)
      else case eCount ops (pCurIns C) of
          Inl rc \<Rightarrow> Inl rc
        | Inr nEntryIns \<Rightarrow>
            if delAll then Inr nEntryIns
            else case eCount ops (pCur C) of
                Inl rc \<Rightarrow> Inl rc
              | Inr nEntry \<Rightarrow>
                  (case eCount ops (pCurDel C) of
                     Inl rc \<Rightarrow> Inl rc
                   | Inr nEntryDel \<Rightarrow> Inr (toI64 (toI64 (nEntry + nEntryIns) - nEntryDel))))"

section \<open>The end of a transaction\<close>

text \<open>The rollback of SQLite's own btree is \<open>xRollback\<close>.\<close>

definition sqlite3TransBtreeRollback ::
  "Caller \<Rightarrow> ('b \<Rightarrow> 'b) \<Rightarrow> 'b option \<Rightarrow> RowLockSavepoint \<Rightarrow> LockWorld \<Rightarrow> ('b option \<times> RowLockSavepoint \<times> LockWorld) option" where
  "sqlite3TransBtreeRollback me xRollback transB S W =
     (case transB of
        None \<Rightarrow> Some (None, S, W)
      | Some b \<Rightarrow>
          Option.bind (sqlite3rowlockSavepointClose (Some S)) (\<lambda>S'.
          Option.bind (transRootPagesFinish W) (\<lambda>W1.
          Option.bind (sqlite3rowlockIpcUnlockRecordProcCore (rowArea W1) (myPid me) (myOwner me)) (\<lambda>r.
          Option.bind (sqlite3rowlockIpcUnlockTablesProcCore (tableArea W1) (myPid me) (myPid me) (myOwner me) MODE_UNLOCK_TRANS) (\<lambda>t.
          Option.bind (sqlite3rowlockPsmUnlockRecordProc (psmArea W1) (myPid me) (myOwner me)) (\<lambda>p.
          Option.bind (sqlite3rowlockIpcCachedRowidReset t) (\<lambda>t'.
            Some (Some (xRollback b), S', W1\<lparr>rowArea := r, tableArea := t', psmArea := p\<rparr>))))))))"

section \<open>The start of a transaction\<close>

text \<open>\<open>nSp\<close> is the number of statements and savepoints open; the transaction of SQLite's own btree begins with \<open>xBegin\<close>.\<close>

definition sqlite3TransBtreeBeginTrans ::
  "(nat \<Rightarrow> 'b \<Rightarrow> rc \<times> 'b) \<Rightarrow> Alloc \<Rightarrow> (nat \<Rightarrow> RowLockSavepointEntry) \<Rightarrow> int \<Rightarrow> 'b option \<Rightarrow> RowLockSavepoint \<Rightarrow> nat \<Rightarrow>
   rc \<times> 'b option \<times> RowLockSavepoint" where
  "sqlite3TransBtreeBeginTrans xBegin A junk nSp transB S wrflag =
     (case transB of
        None \<Rightarrow> (SQLITE_OK, None, S)
      | Some t \<Rightarrow>
          (let (rc, t') = xBegin wrflag t in
           if rc \<noteq> SQLITE_OK then (rc, Some t', S)
           else let (rc', S') = sqlite3TransBtreeSavepointCreate (aHistOk A) (aSpOk A) (aGrowOk A) junk True S nSp
                in (rc', Some t', S')))"

definition sqlite3BtreeIsInTransAll :: "('b \<Rightarrow> bool) \<Rightarrow> 'b \<Rightarrow> 'b option \<Rightarrow> bool" where
  "sqlite3BtreeIsInTransAll isInTrans p transB = (case transB of None \<Rightarrow> isInTrans p | Some t \<Rightarrow> isInTrans t)"

text \<open>One btree of the loop of \<open>sqlite3BtreeBeginTransForCommit\<close>, and the loop.\<close>

fun sqlite3BtreeBeginTransForCommit ::
  "(nat \<Rightarrow> 'b \<Rightarrow> rc \<times> 'b) \<Rightarrow> ('b \<Rightarrow> bool) \<Rightarrow> ('b \<Rightarrow> bool) \<Rightarrow> ('b \<times> 'b option) option list \<Rightarrow> rc \<times> ('b \<times> 'b option) option list" where
  "sqlite3BtreeBeginTransForCommit xBegin isInTrans readOnly [] = (SQLITE_OK, [])"
| "sqlite3BtreeBeginTransForCommit xBegin isInTrans readOnly (d # aDb) =
     (let (rc, d') =
        (case d of
           Some (p, Some t) \<Rightarrow>
             if isInTrans t \<and> \<not> isInTrans p
             then (let (rc, p') = xBegin (if readOnly p then 0 else 1) p in (rc, Some (p', Some t)))
             else (SQLITE_OK, d)
         | _ \<Rightarrow> (SQLITE_OK, d))
      in if rc \<noteq> SQLITE_OK then (rc, d' # aDb)
         else let (rc', aDb') = sqlite3BtreeBeginTransForCommit xBegin isInTrans readOnly aDb in (rc', d' # aDb'))"

text \<open>
  What \<open>sqlite3BtreeBeginTransAll\<close> asks of its surroundings: whether a schema is being loaded, the
  check of the page cache, and whether the btree is sharable, read only before and after the
  transaction has begun, and the result of trying to lock the file exclusively.
\<close>

record BeginEnv =
  initBusy :: bool
  cacheReset :: rc
  sharable :: bool
  readOnlyBefore :: bool
  readOnlyAfter :: bool
  pagerCheck :: rc

abbreviation (input) "BEGIN_IMMEDIATE_FLAG \<equiv> (3 :: nat)"

text \<open>The check of the page cache runs under a lock of \<open>sqlite_master\<close>, which is given back if it was not held before.\<close>

definition beginCacheCheck ::
  "Caller \<Rightarrow> Alloc \<Rightarrow> BeginEnv \<Rightarrow> RowLockSavepoint \<Rightarrow> LockWorld \<Rightarrow> (rc \<times> RowLockSavepoint \<times> LockWorld) option" where
  "beginCacheCheck me A E S W =
     Option.bind (sqlite3rowlockIpcLockTableQuery (tableArea W) (myOwner me) SCHEMA_ROOT) (\<lambda>eLock.
     Option.bind (if eLock = NOT_LOCKED then sqlite3BtreeLockTableForRowLock me A True S W SCHEMA_ROOT 0 else Some (SQLITE_OK, S, W)) (\<lambda>(rc, S1, W1).
       if rc \<noteq> SQLITE_OK then Some (rc, S1, W1)
       else if eLock = NOT_LOCKED then
         Option.bind (sqlite3rowlockIpcUnlockTable (tableArea W1) (myPid me) (myOwner me) SCHEMA_ROOT) (\<lambda>m.
           Some (cacheReset E, S1, W1\<lparr>tableArea := m\<rparr>))
       else Some (cacheReset E, S1, W1)))"

definition sqlite3BtreeBeginTransAll ::
  "Caller \<Rightarrow> Alloc \<Rightarrow> BeginEnv \<Rightarrow> (nat \<Rightarrow> 'b \<Rightarrow> rc \<times> 'b) \<Rightarrow> (nat \<Rightarrow> RowLockSavepointEntry) \<Rightarrow> int \<Rightarrow> 'b \<Rightarrow> 'b option \<Rightarrow>
   RowLockSavepoint \<Rightarrow> LockWorld \<Rightarrow> nat \<Rightarrow> (rc \<times> 'b \<times> 'b option \<times> RowLockSavepoint \<times> LockWorld) option" where
  "sqlite3BtreeBeginTransAll me A E xBegin junk nSp p transB S W wrflag =
     Option.bind (if \<not> initBusy E \<and> transB \<noteq> None then beginCacheCheck me A E S W else Some (SQLITE_OK, S, W)) (\<lambda>(rc, S1, W1).
       if rc \<noteq> SQLITE_OK then Some (rc, p, transB, S1, W1)
       else if sharable E \<and> readOnlyBefore E \<and> wrflag \<noteq> 0 then Some (SQLITE_READONLY, p, transB, S1, W1)
       else if sharable E \<and> wrflag > 1 \<and> wrflag = BEGIN_IMMEDIATE_FLAG \<and> pagerCheck E = SQLITE_OK \<and>
               sqlite3rowlockIpcCheckTableLockExisted (tableArea W1) \<noteq> SQLITE_OK
         then Some (SQLITE_BUSY, p, transB, S1, W1)
       else
         let wrflagNew = (if sharable E then (if wrflag \<le> 1 then 0 else if wrflag = BEGIN_IMMEDIATE_FLAG then 1 else wrflag) else wrflag);
             (rc2, p') = xBegin wrflagNew p
         in if rc2 \<noteq> SQLITE_OK then Some (rc2, p', transB, S1, W1)
            else if sharable E \<and> readOnlyAfter E \<and> wrflag \<noteq> 0 then Some (SQLITE_READONLY, p', transB, S1, W1)
            else let (rc3, t', S2) = sqlite3TransBtreeBeginTrans xBegin A junk nSp transB S1 wrflag
                 in Some (rc3, p', t', S2, W1))"

section \<open>Locks for commit and vacuum\<close>

text \<open>Whether a table is modified: return code and \<open>*isModified\<close>. \<open>delAllC\<close> is the flag of the cursor.\<close>

definition isTableModified :: "'c EditOps \<Rightarrow> bool \<Rightarrow> 'c BtCursorT \<Rightarrow> rc \<times> bool" where
  "isTableModified ops delAllC C =
     (if delAllC then (SQLITE_OK, True)
      else let (rc, res, ci) = eFirst ops (pCurIns C) in
        if rc \<noteq> SQLITE_OK then (rc, False)
        else if res = 0 then (SQLITE_OK, True)
        else let (rc', res', cd) = eFirst ops (pCurDel C) in
          if rc' \<noteq> SQLITE_OK then (rc', False) else (SQLITE_OK, res' = 0))"

text \<open>Locking the tables of the schema one after the other: the number of tables locked, and the result.\<close>

fun lockAllLoop :: "Caller \<Rightarrow> int list \<Rightarrow> nat \<Rightarrow> LockWorld \<Rightarrow> (rc \<times> nat \<times> LockWorld) option" where
  "lockAllLoop me [] n W = Some (SQLITE_OK, n, W)"
| "lockAllLoop me (tnum # ts) n W =
     (if tnum = SCHEMA_ROOT \<or> tnum = 0 then lockAllLoop me ts n W
      else Option.bind (sqlite3rowlockIpcLockTable (tableArea W) (myPid me) (myOwner me) tnum EXCLSV_LOCK MODE_LOCK_COMMIT) (\<lambda>(rc, prev, m).
        let W' = W\<lparr>tableArea := m\<rparr> in
        if rc \<noteq> SQLITE_OK then Some (rc, n, W') else lockAllLoop me ts (n + 1) W'))"

fun unlockAllLoop :: "Caller \<Rightarrow> int list \<Rightarrow> nat \<Rightarrow> LockWorld \<Rightarrow> LockWorld option" where
  "unlockAllLoop me [] n W = Some W"
| "unlockAllLoop me (tnum # ts) n W =
     (if n = 0 then Some W
      else if tnum = SCHEMA_ROOT \<or> tnum = 0 then unlockAllLoop me ts n W
      else Option.bind (sqlite3rowlockIpcUnlockTable (tableArea W) (myPid me) (myOwner me) tnum) (\<lambda>m.
        unlockAllLoop me ts (n - 1) (W\<lparr>tableArea := m\<rparr>)))"

definition sqlite3rowlockExclusiveLockAllTables :: "Caller \<Rightarrow> bool \<Rightarrow> SchemaT \<Rightarrow> LockWorld \<Rightarrow> (rc \<times> LockWorld) option" where
  "sqlite3rowlockExclusiveLockAllTables me usesTrans sch W =
     (if \<not> usesTrans then Some (SQLITE_OK, W)
      else Option.bind (sqlite3rowlockIpcLockTable (tableArea W) (myPid me) (myOwner me) SCHEMA_ROOT WRITE_LOCK MODE_LOCK_COMMIT) (\<lambda>(rc, prev, m).
        let W1 = W\<lparr>tableArea := m\<rparr> in
        if rc \<noteq> SQLITE_OK then Some (rc, W1)
        else Option.bind (lockAllLoop me (tblHash sch) 0 W1) (\<lambda>(rc2, nTables, W2).
          if rc2 = SQLITE_OK then Some (SQLITE_OK, W2)
          else Option.bind (unlockAllLoop me (tblHash sch) nTables W2) (\<lambda>W3.
            Option.bind (sqlite3rowlockIpcUnlockTable (tableArea W3) (myPid me) (myOwner me) SCHEMA_ROOT) (\<lambda>m'.
              Some (rc2, W3\<lparr>tableArea := m'\<rparr>))))))"

text \<open>Whether a DDL statement is to be committed at its end: over the databases that use a transaction btree.\<close>

fun sqlite3SetForceCommit :: "bool \<Rightarrow> (TableArea \<times> u64) option list \<Rightarrow> bool option" where
  "sqlite3SetForceCommit autoCommit [] = Some False"
| "sqlite3SetForceCommit autoCommit (d # aDb) =
     (if autoCommit then Some False
      else case d of
          None \<Rightarrow> sqlite3SetForceCommit autoCommit aDb
        | Some (m, owner) \<Rightarrow>
            Option.bind (sqlite3rowlockIpcLockTableQuery m owner SCHEMA_ROOT) (\<lambda>eLock.
              if eLock = WRITE_LOCK then Some True else sqlite3SetForceCommit autoCommit aDb))"

section \<open>Cached rowids of a cursor\<close>

definition sqlite3BtreeCachedRowidSet :: "bool \<Rightarrow> int \<Rightarrow> TableArea \<Rightarrow> i64 \<Rightarrow> i64 \<Rightarrow> (i64 \<times> TableArea) option" where
  "sqlite3BtreeCachedRowidSet usesTrans root m cachedRowid iRowid =
     (if usesTrans then Option.bind (sqlite3rowlockIpcCachedRowidSet m root iRowid) (\<lambda>(rc, m'). Some (cachedRowid, m'))
      else Some (iRowid, m))"

definition sqlite3BtreeCachedRowidGet :: "bool \<Rightarrow> int \<Rightarrow> TableArea \<Rightarrow> i64 option" where
  "sqlite3BtreeCachedRowidGet usesTrans root m = (if usesTrans then sqlite3rowlockIpcCachedRowidGet m root else Some 0)"

definition sqlite3BtreeCachedRowidSetByOpenCursor ::
  "'c BtOps \<Rightarrow> bool \<Rightarrow> bool \<Rightarrow> int \<Rightarrow> 'c BtCursorT \<Rightarrow> TableArea \<Rightarrow> i64 \<Rightarrow> (rc \<times> 'c BtCursorT \<times> i64 \<times> TableArea) option" where
  "sqlite3BtreeCachedRowidSetByOpenCursor ops usesTrans delAll root C m cachedRowid =
     (if hasKeyInfo C then Some (SQLITE_OK, C, cachedRowid, m)
      else Option.bind (sqlite3BtreeCachedRowidGet usesTrans root m) (\<lambda>r.
        if r \<noteq> 0 then Some (SQLITE_OK, C, cachedRowid, m)
        else Option.bind (sqlite3BtreeLastAll ops delAll C) (\<lambda>(rc, res, C').
          if rc \<noteq> SQLITE_OK then Some (rc, C', cachedRowid, m)
          else Option.bind (sqlite3BtreeCachedRowidSet usesTrans root m cachedRowid
                 (if res \<noteq> 0 then 0 else case sqlite3BtreeIntegerKeyAll ops C' of IntKey i \<Rightarrow> i | IdxKey b \<Rightarrow> 0)) (\<lambda>(cr, m').
            Some (SQLITE_OK, C', cr, m')))))"

section \<open>Clearing the mapping\<close>

lemma contents_keys:
  assumes "i64_inv T H as"
  shows "{k. contents (=) H as k \<noteq> 0} = key_of H ` set as"
proof -
  have d: "\<forall>a\<in>set as. data_of H a \<noteq> 0" using assms by (simp add: hash_inv_def)
  have "contents (=) H as k \<noteq> 0 \<longleftrightarrow> k \<in> key_of H ` set as" for k
  proof
    assume "contents (=) H as k \<noteq> 0"
    then show "k \<in> key_of H ` set as" using contents_none [of as "(=)" H k] by fastforce
  next
    assume "k \<in> key_of H ` set as"
    then show "contents (=) H as k \<noteq> 0" using d i64.contents_key [OF assms, of _ k] by fastforce
  qed
  then show ?thesis by blast
qed

text \<open>Every entry of the mapping is allocated, and no two tables share one.\<close>

definition rootsOk :: "LockWorld \<Rightarrow> addr list \<Rightarrow> bool" where
  "rootsOk W as \<longleftrightarrow> i64_inv (rootPages W) (rootHeap W) as \<and> length as < 2 ^ 30 \<and>
     (\<forall>k. contents (=) (rootHeap W) as k \<noteq> 0 \<longrightarrow> rootData W (contents (=) (rootHeap W) as k) \<noteq> None) \<and>
     (\<forall>k k'. contents (=) (rootHeap W) as k = contents (=) (rootHeap W) as k' \<longrightarrow> contents (=) (rootHeap W) as k \<noteq> 0 \<longrightarrow> k = k')"

lemma finish_step:
  assumes ok: "rootsOk W as" and ne: "as \<noteq> []"
  obtains W1 as1 where "rootPagesFinishLoop W = rootPagesFinishLoop W1" "rootsOk W1 as1"
    "card (key_of (rootHeap W1) ` set as1) < card (key_of (rootHeap W) ` set as)"
    "rowArea W1 = rowArea W" "tableArea W1 = tableArea W" "psmArea W1 = psmArea W"
proof -
  let ?H = "rootHeap W" and ?T = "rootPages W"
  have i: "i64_inv ?T ?H as" and n: "length as < 2 ^ 30" using ok by (simp_all add: rootsOk_def)
  have l: "dls ?H 0 as 0" "firstH ?T = hdq as 0" "distinct as" and okk: "\<forall>a\<in>set as. i64Key (key_of ?H a)" and dz: "\<forall>a\<in>set as. data_of ?H a \<noteq> 0"
    using i by (simp_all add: hash_inv_def shape_inv_def)
  obtain a as' where as: "as = a # as'" using ne by (cases as) auto
  obtain e where e: "a \<noteq> 0" "?H a = Some e" using l(1) as by auto
  define k where "k = key_of ?H a"
  have ke: "keyH e = k" "data_of ?H a = dataH e" using e by (simp_all add: k_def key_of_def data_of_def)
  have c: "contents (=) ?H as k = dataH e" using i64.contents_key [OF i, of a k] ke as by (simp add: k_def)
  have dnz: "dataH e \<noteq> 0" using dz as ke by auto
  then obtain d where d: "rootData W (dataH e) = Some d" using ok c unfolding rootsOk_def by (metis not_None_eq)
  have kk: "i64Key k" using okk as by (simp add: k_def)
  obtain T' H' as1 where r: "hashInsert i64Index (=) ?T ?H k 0 0 True True = Some (insertResult (contents (=) ?H as k) 0 False True, T', H')"
    "i64_inv T' H' as1"
    "contents (=) H' as1 = (\<lambda>k'. if k = k' \<and> insertStores (contents (=) ?H as k) 0 False True then 0 else contents (=) ?H as k')"
    "set as1 \<subseteq> insert 0 (set as)"
    by (rule i64.hashInsert_ok [OF i kk n, of 0 0 True True]) simp_all
  have c1: "contents (=) H' as1 = (\<lambda>k'. if k = k' then 0 else contents (=) ?H as k')"
    using r(3) c dnz by (simp add: insertStores_def)
  have "dls H' 0 as1 0" "distinct as1" using r(2) by (simp_all add: hash_inv_def shape_inv_def)
  then have "length as1 \<le> length as"
    using r(4) dls_nonzero [of H' 0 as1 0] l(3) by (metis card_mono distinct_card finite_set subset_insert)
  define W1 where "W1 = W\<lparr>rootPages := T', rootHeap := H', rootData := (rootData W)(dataH e := None)\<rparr>"
  have inj: "contents (=) ?H as k' \<noteq> dataH e" if "k' \<noteq> k" for k'
    using ok c dnz that unfolding rootsOk_def by metis
  have "rootsOk W1 as1"
    using ok r(2) \<open>length as1 \<le> length as\<close> n inj unfolding rootsOk_def W1_def by (auto simp: c1)
  moreover have "rootPagesFinishLoop W = rootPagesFinishLoop W1"
    using e l(2) as d ke r(1) c dnz
    by (subst rootPagesFinishLoop.simps) (simp add: sqlite3HashI64Insert_def W1_def)
  moreover have "card (key_of H' ` set as1) < card (key_of ?H ` set as)"
  proof -
    have "key_of H' ` set as1 = key_of ?H ` set as - {k}"
      unfolding contents_keys [OF r(2), symmetric] contents_keys [OF i, symmetric] by (auto simp: c1)
    moreover have "k \<in> key_of ?H ` set as" using as by (simp add: k_def)
    ultimately show ?thesis by (metis card_Diff1_less finite_imageI finite_set)
  qed
  ultimately show thesis by (intro that [of W1 as1]) (simp_all add: W1_def)
qed

lemma finish_loop:
  assumes "rootsOk W as"
  shows "\<exists>W'. rootPagesFinishLoop W = Some W' \<and> rootsOk W' [] \<and> rowArea W' = rowArea W \<and> tableArea W' = tableArea W \<and> psmArea W' = psmArea W"
  using assms
proof (induction "card (key_of (rootHeap W) ` set as)" arbitrary: W as rule: less_induct)
  case less
  show ?case
  proof (cases "as = []")
    case True
    then have "firstH (rootPages W) = 0" using less.prems by (simp add: rootsOk_def hash_inv_def shape_inv_def)
    then have "rootPagesFinishLoop W = Some W" by (subst rootPagesFinishLoop.simps) simp
    then show ?thesis using less.prems True by blast
  next
    case False
    obtain W1 as1 where s: "rootPagesFinishLoop W = rootPagesFinishLoop W1" "rootsOk W1 as1"
      "card (key_of (rootHeap W1) ` set as1) < card (key_of (rootHeap W) ` set as)"
      "rowArea W1 = rowArea W" "tableArea W1 = tableArea W" "psmArea W1 = psmArea W" by (rule finish_step [OF less.prems False])
    show ?thesis using less.hyps [OF s(3,2)] s(1,4-6) by simp
  qed
qed

lemma roots_finish:
  assumes "rootsOk W as"
  obtains W' where "transRootPagesFinish W = Some W'" "rootPages W' = hashInit" "rowArea W' = rowArea W" "tableArea W' = tableArea W" "psmArea W' = psmArea W"
proof -
  obtain W1 where W1: "rootPagesFinishLoop W = Some W1" "rootsOk W1 []" "rowArea W1 = rowArea W" "tableArea W1 = tableArea W" "psmArea W1 = psmArea W"
    using finish_loop [OF assms] by blast
  have "hashClear (rootPages W1) (rootHeap W1) = Some (hashInit, \<lambda>a. if a \<in> set [] then None else rootHeap W1 a)"
    by (rule hashClear_ok) (use W1(2) in \<open>simp_all add: rootsOk_def hash_inv_def shape_inv_def\<close>)
  then show thesis using W1 by (intro that [of "W1\<lparr>rootPages := hashInit, rootHeap := \<lambda>a. if a \<in> set [] then None else rootHeap W1 a\<rparr>"])
      (simp_all add: transRootPagesFinish_def)
qed

text \<open>The end of a transaction.\<close>

lemma rollback_releases:
  assumes roots: "rootsOk W as" and inv: "row_inv (rowArea W)" "table_inv (tableArea W)" "cache_inv (tableArea W)"
    and psm: "compareOk xc" "psm_inv xc (psmArea W)" and me: "myPid me \<noteq> 0"
  shows "\<exists>S' W'. sqlite3TransBtreeRollback me xRollback (Some b) S W = Some (Some (xRollback b), S', W') \<and>
    hist S' = [] \<and> saves S' = [] \<and> rootPages W' = hashInit \<and>
    row_inv (rowArea W') \<and> cache_inv (tableArea W') \<and> psm_inv xc (psmArea W') \<and>
    row_abs (rowArea W') = spec_release (myPid me) (myOwner me) (row_abs (rowArea W)) \<and>
    (\<forall>t q ow l. table_abs (tableArea W') (t, q, ow) = Some l \<longleftrightarrow>
       table_abs (tableArea W) (t, q, ow) = Some l \<and> \<not> (q = myPid me \<and> (myOwner me = 0 \<or> ow = myOwner me))) \<and>
    (\<forall>i\<ge>0. psmHolder xc (psmArea W') i = spec_release (myPid me) (myOwner me) (psmHolder xc (psmArea W) i))"
proof -
  obtain W1 where W1: "transRootPagesFinish W = Some W1" "rootPages W1 = hashInit" "rowArea W1 = rowArea W" "tableArea W1 = tableArea W" "psmArea W1 = psmArea W"
    by (rule roots_finish [OF roots])
  obtain r where r: "sqlite3rowlockIpcUnlockRecordProcCore (rowArea W) (myPid me) (myOwner me) = Some r" "row_inv r"
    "row_abs r = spec_release (myPid me) (myOwner me) (row_abs (rowArea W))" by (rule row_proc_refines [OF inv(1)])
  obtain t where t: "sqlite3rowlockIpcUnlockTablesProcCore (tableArea W) (myPid me) (myPid me) (myOwner me) MODE_UNLOCK_TRANS = Some t" "table_inv t"
    "nElementT t = nElementT (tableArea W)" "nCacheT t = nCacheT (tableArea W)" "cachedT t = cachedT (tableArea W)"
    "mset (map flagless (table_locks t)) = filter_mset (\<lambda>e. \<not> tableReleased (myPid me) (myOwner me) MODE_UNLOCK_TRANS e) (mset (map flagless (table_locks (tableArea W))))"
    by (rule table_proc_core [OF inv(2) me, of MODE_UNLOCK_TRANS "myOwner me"]) simp_all
  have ci: "cache_inv t" using inv(3) t(3-5) by (simp add: cache_inv_def cache_entries_def)
  obtain t' where t': "sqlite3rowlockIpcCachedRowidReset t = Some t'" "cache_inv t'" "pDataT t' = pDataT t" using cached_reset [OF ci t(2)] by blast
  obtain M where M: "sqlite3rowlockPsmUnlockRecordProcCore (psmArea W) (myPid me) (myOwner me) = Some M" "psm_inv xc M"
    "\<forall>i\<ge>0. psmHolder xc M i = spec_release (myPid me) (myOwner me) (psmHolder xc (psmArea W) i)"
    using psm_proc_core [OF psm] by blast
  have ta: "table_abs t' (tt, q, ow) = Some l \<longleftrightarrow> table_abs (tableArea W) (tt, q, ow) = Some l \<and> \<not> (q = myPid me \<and> (myOwner me = 0 \<or> ow = myOwner me))"
    for tt q ow l
    using table_proc_abs [OF inv(2) t(2,6), of tt q ow l] me t'(3) by (simp add: table_abs_def table_locks_def)
  show ?thesis
    using W1 r t(1) t'(1,2) M ta
    by (simp add: sqlite3TransBtreeRollback_def sqlite3rowlockSavepointClose_def sqlite3rowlockPsmUnlockRecordProc_def hist_def saves_def)
qed

section \<open>Properties\<close>

text \<open>
  C12. \<open>sqlite3TransBtreeRollback\<close>, which also ends a commit, returns, empties the history, the savepoints and
  the root page mapping, and releases exactly the locks of the connection: on rows, on
  tables and on index keys; every lock of another process or connection is kept.
\<close>

theorem TransBtreeRollback_releases:
  assumes roots: "rootsOk W as" and inv: "row_inv (rowArea W)" "table_inv (tableArea W)" "cache_inv (tableArea W)"
    and psm: "compareOk xc" "psm_inv xc (psmArea W)" and me: "myPid me \<noteq> 0"
  shows "\<exists>S' W'. sqlite3TransBtreeRollback me xRollback (Some b) S W = Some (Some (xRollback b), S', W') \<and>
    hist S' = [] \<and> saves S' = [] \<and> rootPages W' = hashInit \<and>
    row_inv (rowArea W') \<and> cache_inv (tableArea W') \<and> psm_inv xc (psmArea W') \<and>
    row_abs (rowArea W') = spec_release (myPid me) (myOwner me) (row_abs (rowArea W)) \<and>
    (\<forall>t q ow l. table_abs (tableArea W') (t, q, ow) = Some l \<longleftrightarrow>
       table_abs (tableArea W) (t, q, ow) = Some l \<and> \<not> (q = myPid me \<and> (myOwner me = 0 \<or> ow = myOwner me))) \<and>
    (\<forall>i\<ge>0. psmHolder xc (psmArea W') i = spec_release (myPid me) (myOwner me) (psmHolder xc (psmArea W) i))"
  by (rule rollback_releases [OF assms])

lemma demoWorld_inv:
  "table_inv (tableArea demoWorld)" "cache_inv (tableArea demoWorld)" "psm_inv blobComparator (psmArea demoWorld)" "myPid demoCaller \<noteq> 0"
  by (simp_all add: demoWorld_def tableDemo_inv psm_inv_empty demoCaller_def cache_inv_def cache_entries_def)
    (simp_all add: tableDemo_def zeroCache_def all_less_4)

theorem TransBtreeRollback_releases_witness:
  "\<exists>S' W'. sqlite3TransBtreeRollback demoCaller (\<lambda>b. b) (Some ()) demoSavepoint demoWorld = Some (Some (), S', W') \<and>
     hist S' = [] \<and> row_abs (rowArea W') = Map.empty"
proof -
  have roots: "rootsOk demoWorld []" by (simp add: rootsOk_def demoWorld_def hash_inv_init)
  show ?thesis
    using TransBtreeRollback_releases [OF roots demoWorld_rows(1) demoWorld_inv(1,2) compareOk_blobComparator demoWorld_inv(3,4), of "\<lambda>b. b" "()" demoSavepoint]
    by (auto simp: demoWorld_rows(2) spec_release_def)
qed

text \<open>
  C33. \<open>sqlite3BtreeCountAll\<close> returns the number of records the transaction sees, for tables below
  \<open>2^62\<close> records.
\<close>

theorem CountAll_correct:
  assumes laws: "trans_edit ops isIdx good tab at todo kcol recv" and C: "table_edit.goodT good C" "trans_edit.syncT tab C" "transBtreeCursorIsUsed C"
    and count: "\<And>c. good c \<Longrightarrow> eCount ops c = Inr (int (card (dom (tab c))))"
    and small: "card (dom (tab (pCur C))) < 2 ^ 62" "card (dom (tab (pCurIns C))) < 2 ^ 62"
  shows "sqlite3BtreeCountAll ops delAll C = Inr (int (card (dom (table_edit.view tab delAll C))))"
proof -
  have te: "table_edit ops isIdx good tab at todo kcol recv" using laws by (simp add: trans_edit_def)
  have g: "good (pCur C)" "good (pCurIns C)" "good (pCurDel C)" using C(1) by (simp_all add: table_edit.goodT_def [OF te])
  have fin: "finite (dom (tab c))" if "good c" for c
    using table_edit.first_ok [OF te that] by (metis (no_types, lifting) finite_dom_map_of)
  let ?c = "dom (tab (pCur C))" and ?i = "dom (tab (pCurIns C))" and ?d = "dom (tab (pCurDel C))"
  have sync: "?i \<inter> ?c \<subseteq> ?d" "?d \<subseteq> ?c" using C(2) by (simp_all add: trans_edit.syncT_def [OF laws])
  have "dom (table_edit.view tab delAll C) = (if delAll then {} else ?c - ?d) \<union> ?i"
    by (auto simp: table_edit.view_def [OF te] restrict_map_def dom_def split: if_splits)
  moreover have "card ((?c - ?d) \<union> ?i) = card ?c - card ?d + card ?i"
    using sync fin g by (subst card_Un_disjoint) (auto simp: card_Diff_subset finite_subset)
  moreover have "card ?d \<le> card ?c" using sync(2) fin g(1) by (simp add: card_mono)
  moreover have "toI64 (int (card ?c) + int (card ?i)) = int (card ?c) + int (card ?i)" using small by (intro toI64_small) simp_all
  moreover have "toI64 (int (card ?c) + int (card ?i) - int (card ?d)) = int (card ?c) + int (card ?i) - int (card ?d)"
    using small \<open>card ?d \<le> card ?c\<close> by (intro toI64_small) simp_all
  ultimately show ?thesis
    using C(3) count g by (simp add: sqlite3BtreeCountAll_def of_nat_diff)
qed

theorem CountAll_correct_witness: "sqlite3BtreeCountAll tabOps False demoTables = Inr 2"
proof -
  have c: "eCount tabOps c = Inr (int (card (dom (tcTab c))))" if "tcGood c" for c
  proof -
    have "card (dom (tcTab c)) = card (set (map fst (tcRows c)))" by (simp add: tcTab_def dom_map_of_conv_image_fst)
    also have "\<dots> = length (tcRows c)" using that distinct_card [of "map fst (tcRows c)"] by (simp add: tcGood_def)
    finally show ?thesis by (simp add: tabOps_def)
  qed
  have "dom (tc.view False demoTables) = {1, 3}"
    by (auto simp: tc.view_def demoTables_def tcTab_def restrict_map_def dom_def split: if_splits)
  moreover have "card (dom (tcTab (pCur demoTables))) < 2 ^ 62" "card (dom (tcTab (pCurIns demoTables))) < 2 ^ 62"
    by (simp_all add: demoTables_def tcTab_def)
  note CountAll_correct [OF tc.trans_edit_axioms demoTables_ok(4,5,1) c this, of False]
  ultimately show ?thesis by simp
qed

text \<open>A mapping with one entry, at address 7, for the table 5.\<close>

lemma one_root:
  obtains T H as where "i64_inv T H as" "contents (=) H as = (\<lambda>k'. if 5 = k' then 7 else 0)" "length as = 1"
proof -
  have k: "i64Key 5" by (simp add: i64Key_def)
  obtain T H as where r: "hashInsert i64Index (=) hashInit Map.empty 5 7 3 True True = Some (0, T, H)" "i64_inv T H as"
    "contents (=) H as = (\<lambda>k'. if 5 = k' then 7 else 0)" "set as \<subseteq> {3}"
    by (rule i64.hashInsert_ok [OF hash_inv_init [of _ _ _ Map.empty] k, where newElem = 3 and d = 7 and keyOk = True and htOk = True]) (auto simp: insertResult_def insertStores_def cong: if_cong)
  have "distinct as" using r(2) by (simp add: hash_inv_def shape_inv_def)
  then have "length as \<le> 1" using r(4) distinct_card [of as] card_mono [of "{3}" "set as"] by simp
  moreover have "as \<noteq> []" using fun_cong [OF r(3), of 5] by (auto simp: contents_Nil)
  ultimately have "length as = 1" by (cases as) auto
  with r(2,3) show thesis by (rule that)
qed

text \<open>
  Undoing the creation of the tables of a transaction removes the whole entry of the mapping, whatever it holds, so also a deletion of all records that
  was entered in it (\<open>deleteAll\<close>) before the tables were created.
\<close>

lemma new_table_undone:
  assumes roots: "rootsOk W as" and inv: "table_inv (tableArea W)" "myPid me \<noteq> 0" "myOwner me \<noteq> 0" "iTable > 0"
    and entry: "sqlite3HashI64Find (rootPages W) (rootHeap W) iTable = Some p" "p \<noteq> 0" "rootData W p = Some d"
    and h: "typeRL h = RLH_NEW_TABLE" "iTableRL h = iTable"
  shows "\<exists>W'. rollbackEntry me h W = Some W' \<and> sqlite3HashI64Find (rootPages W') (rootHeap W') iTable = Some 0"
proof -
  let ?H = "rootHeap W" and ?T = "rootPages W"
  have i: "i64_inv ?T ?H as" and n: "length as < 2 ^ 30" using roots by (simp_all add: rootsOk_def)
  have k: "i64Key iTable" using inv(4) by (simp add: i64Key_def)
  have c: "contents (=) ?H as iTable = p" using i64.hashFind_ok [OF i k] entry(1) by (simp add: sqlite3HashI64Find_def)
  obtain T' H' as1 where r: "hashInsert i64Index (=) ?T ?H iTable 0 0 True True = Some (insertResult (contents (=) ?H as iTable) 0 False True, T', H')"
    "i64_inv T' H' as1"
    "contents (=) H' as1 = (\<lambda>k'. if iTable = k' \<and> insertStores (contents (=) ?H as iTable) 0 False True then 0 else contents (=) ?H as k')"
    by (rule i64.hashInsert_ok [OF i k n, of 0 0 True True]) simp_all
  have "sqlite3HashI64Find T' H' iTable = Some 0"
    using i64.hashFind_ok [OF r(2) k] r(3) by (simp add: sqlite3HashI64Find_def insertStores_def)
  moreover obtain rc prev m where "sqlite3rowlockIpcLockTable (tableArea W) (myPid me) (myOwner me) iTable (prevRL h) MODE_LOCK_FORCE = Some (rc, prev, m)"
    using table_lock_refines [OF inv(1), of iTable "myPid me" "myOwner me" "prevRL h" MODE_LOCK_FORCE] inv(2-4) by auto
  ultimately show ?thesis
    using r(1) entry(2,3) c by (simp add: rollbackEntry_def h sqlite3HashI64Insert_def insertResult_def rowlockSavepointRollbackTableLock_def)
qed

lemma new_table_undone_example:
  "\<exists>W W'. sqlite3HashI64Find (rootPages W) (rootHeap W) 5 = Some 7 \<and> rootData W 7 = Some (zeroRootPage\<lparr>deleteAll := 1\<rparr>) \<and>
     rollbackEntry demoCaller (zeroHistory\<lparr>typeRL := RLH_NEW_TABLE, iTableRL := 5\<rparr>) W = Some W' \<and>
     sqlite3HashI64Find (rootPages W') (rootHeap W') 5 = Some 0"
proof -
  obtain T H as where r: "i64_inv T H as" "contents (=) H as = (\<lambda>k'. if 5 = k' then 7 else 0)" "length as = 1" by (rule one_root)
  define W where "W = demoWorld\<lparr>rootPages := T, rootHeap := H, rootData := [7 \<mapsto> zeroRootPage\<lparr>deleteAll := 1\<rparr>]\<rparr>"
  have k: "i64Key 5" by (simp add: i64Key_def)
  have roots: "rootsOk W as" using r by (auto simp: rootsOk_def W_def split: if_splits)
  have f: "sqlite3HashI64Find (rootPages W) (rootHeap W) 5 = Some 7"
    using i64.hashFind_ok [OF r(1) k] by (simp add: sqlite3HashI64Find_def W_def r(2))
  have inv: "table_inv (tableArea W)" "myPid demoCaller \<noteq> 0" "myOwner demoCaller \<noteq> 0" "(0::int) < 5"
    by (simp_all add: W_def demoWorld_def tableDemo_inv demoCaller_def)
  have d: "rootData W 7 = Some (zeroRootPage\<lparr>deleteAll := 1\<rparr>)" by (simp add: W_def)
  obtain W' where "rollbackEntry demoCaller (zeroHistory\<lparr>typeRL := RLH_NEW_TABLE, iTableRL := 5\<rparr>) W = Some W'"
    "sqlite3HashI64Find (rootPages W') (rootHeap W') 5 = Some 0"
    using new_table_undone [OF roots inv f _ d, of "zeroHistory\<lparr>typeRL := RLH_NEW_TABLE, iTableRL := 5\<rparr>"] by auto
  with f d show ?thesis by blast
qed

end
