(* ===== verification/Trans_Tables.thy ===== *)
theory Trans_Tables
  imports Trans_Control
begin

text \<open>
  The tables of a transaction and the cursors on them (\<open>rowlock.c\<close>): creating and dropping the pair of tables that holds the
  inserted and the deleted records of a shared table, opening and closing merged
  cursors, and the entry points that open a write transaction first.
\<close>

section \<open>A connection and its btrees\<close>

text \<open>
  A btree of SQLite is a value of type \<open>'b\<close>, a cursor one of type \<open>'c\<close> that carries the table it is on: its
  edits reach the btree when it is closed. The functions of SQLite's own btree are the record
  \<open>DbOps\<close>. \<open>dWriting\<close> is \<open>pBt->inTransaction==TRANS_WRITE\<close>, \<open>dInTrans\<close> is \<open>sqlite3BtreeIsInTransOriginal\<close>,
  \<open>dReadOnly\<close> the flag \<open>BTS_READ_ONLY\<close>, \<open>dCacheReset\<close> the check of the page cache (\<open>rowlockBtreeCacheReset\<close>).
\<close>

record ('b, 'c) DbOps =
  dBegin :: "nat \<Rightarrow> 'b \<Rightarrow> rc \<times> 'b"
  dInTrans :: "'b \<Rightarrow> bool"
  dWriting :: "'b \<Rightarrow> bool"
  dReadOnly :: "'b \<Rightarrow> bool"
  dSharable :: "'b \<Rightarrow> bool"
  dCreateTable :: "nat \<Rightarrow> 'b \<Rightarrow> rc \<times> nat \<times> 'b"
  dDropTable :: "int \<Rightarrow> 'b \<Rightarrow> rc \<times> 'b"
  dCursor :: "int \<Rightarrow> nat \<Rightarrow> addr \<Rightarrow> 'b \<Rightarrow> rc + 'c"
  dCloseCursor :: "int \<Rightarrow> 'c \<Rightarrow> 'b \<Rightarrow> 'b"
  dLockTable :: "int \<Rightarrow> 'b \<Rightarrow> rc"
  dRollback :: "'b \<Rightarrow> 'b"
  dCacheReset :: "'b \<Rightarrow> rc \<times> 'b"

text \<open>A connection to a database: \<open>cTrans\<close> is \<open>btTrans.pBtree\<close>, \<open>None\<close> where it is not used.\<close>

record 'b Conn =
  cShared :: 'b
  cTrans :: "'b option"
  cSave :: RowLockSavepoint
  cWorld :: LockWorld
  cSchema :: SchemaT
  nOpenSp :: int

text \<open>The results of the allocations of one call.\<close>

record TabAlloc =
  tHist :: Alloc
  tSpJunk :: "nat \<Rightarrow> RowLockSavepointEntry"
  tRoot :: addr
  tRootElem :: addr
  tRootHt :: bool
  tPsmNew :: addr
  tPsmElem :: addr
  tPsmHt :: bool
  tInsOk :: bool
  tDelOk :: bool

definition transBtreeIsUsed :: "'b Conn \<Rightarrow> bool" where
  "transBtreeIsUsed K \<longleftrightarrow> cTrans K \<noteq> None"

abbreviation (input) "BTREE_INTKEY \<equiv> (1 :: nat)"
abbreviation (input) "BTREE_BLOBKEY \<equiv> (2 :: nat)"
abbreviation (input) "BTREE_WRCSR \<equiv> (4 :: nat)"
abbreviation (input) "ROW_LOCK_CURSOR_IN_TRANS \<equiv> (0 :: nat)"

section \<open>Creating and dropping the tables of a transaction\<close>

text \<open>The error path: both tables are dropped again, whatever that returns.\<close>

definition createTableFailed :: "('b, 'c) DbOps \<Rightarrow> nat \<Rightarrow> nat \<Rightarrow> 'b \<Rightarrow> 'b" where
  "createTableFailed db iInsTable iDelTable t =
     (let t1 = snd (dDropTable db (int iInsTable) t) in if iDelTable > 0 then snd (dDropTable db (int iDelTable) t1) else t1)"

text \<open>The index space in the shared memory, for a unique index.\<close>

definition createIndexSpace ::
  "TabAlloc \<Rightarrow> SchemaT \<Rightarrow> RowLockSavepoint \<Rightarrow> LockWorld \<Rightarrow> int \<Rightarrow> addr \<Rightarrow> (rc \<times> RowLockSavepoint \<times> LockWorld) option" where
  "createIndexSpace A sch S W iTable keyInfo =
     (if keyInfo \<noteq> 0 \<and> rowlockJudgeTableType sch iTable = INDEX_UNIQUE then
        Option.bind (sqlite3rowlockPsmCreateTable (psmArea W) iTable (tPsmNew A) (tPsmElem A) (tPsmHt A)) (\<lambda>(rc, M).
          if rc \<noteq> SQLITE_OK then Some (rc, S, W\<lparr>psmArea := M\<rparr>)
          else let (rc', S') = sqlite3rowlockHistoryAddNewIndex (aHistOk (tHist A)) (aSpOk (tHist A)) (aGrowOk (tHist A)) (aJunk (tHist A)) S iTable
               in Some (rc', S', W\<lparr>psmArea := M\<rparr>))
      else Some (SQLITE_OK, S, W))"

text \<open>Entering the new tables in the mapping and in the history: return code, entry, history and locks.\<close>

definition registerTable ::
  "TabAlloc \<Rightarrow> SchemaT \<Rightarrow> RowLockSavepoint \<Rightarrow> LockWorld \<Rightarrow> int \<Rightarrow> nat \<Rightarrow> nat \<Rightarrow> addr \<Rightarrow> (rc \<times> addr \<times> RowLockSavepoint \<times> LockWorld) option" where
  "registerTable A sch S W iTable iInsTable iDelTable keyInfo =
     Option.bind (createIndexSpace A sch S W iTable keyInfo) (\<lambda>(rc1, S1, W1).
       if rc1 \<noteq> SQLITE_OK then Some (rc1, 0, S1, W1)
       else Option.bind (addTransRootPage (tRoot A) (tRootElem A) (tRootHt A) W1 iTable iInsTable iDelTable keyInfo) (\<lambda>(pNew, W2).
         if pNew = 0 then Some (SQLITE_NOMEM, 0, S1, W2)
         else let (rc2, S2) = sqlite3rowlockHistoryAddNewTable (aHistOk (tHist A)) (aSpOk (tHist A)) (aGrowOk (tHist A)) (aJunk (tHist A)) S1 iTable
              in Some (rc2, pNew, S2, W2)))"

text \<open>\<open>None\<close> where the connection has no transaction btree, which the code then reads through a null pointer.\<close>

definition sqlite3TransBtreeCreateTable ::
  "('b, 'c) DbOps \<Rightarrow> TabAlloc \<Rightarrow> 'b Conn \<Rightarrow> int \<Rightarrow> addr \<Rightarrow> (rc \<times> addr \<times> 'b Conn) option" where
  "sqlite3TransBtreeCreateTable db A K iTable keyInfo =
     Option.bind (cTrans K) (\<lambda>t0.
       let flags = (if keyInfo \<noteq> 0 then BTREE_BLOBKEY else BTREE_INTKEY);
           (rc0, tB, S0) = (if \<not> dWriting db t0 then sqlite3TransBtreeBeginTrans (dBegin db) (tHist A) (tSpJunk A) (nOpenSp K) (Some t0) (cSave K) 2
                            else (SQLITE_OK, Some t0, cSave K));
           K0 = K\<lparr>cTrans := tB, cSave := S0\<rparr>
       in if rc0 \<noteq> SQLITE_OK then Some (rc0, 0, K0)
          else Option.bind tB (\<lambda>t1.
            let (rc1, iInsTable, t2) = dCreateTable db flags t1 in
            if rc1 \<noteq> SQLITE_OK then Some (rc1, 0, K0\<lparr>cTrans := Some t2\<rparr>)
            else let (rc2, iDelTable, t3) = dCreateTable db flags t2 in
              if rc2 \<noteq> SQLITE_OK then Some (rc2, 0, K0\<lparr>cTrans := Some (createTableFailed db iInsTable 0 t3)\<rparr>)
              else Option.bind (registerTable A (cSchema K) S0 (cWorld K) iTable iInsTable iDelTable keyInfo) (\<lambda>(rc3, pNew, S3, W3).
                let K3 = K0\<lparr>cSave := S3, cWorld := W3\<rparr> in
                if rc3 \<noteq> SQLITE_OK then Some (rc3, 0, K3\<lparr>cTrans := Some (createTableFailed db iInsTable iDelTable t3)\<rparr>)
                else Some (SQLITE_OK, pNew, K3\<lparr>cTrans := Some t3\<rparr>))))"

text \<open>The entry is removed from the mapping and freed also where dropping the second table fails.\<close>

definition transBtreeDropTable :: "('b, 'c) DbOps \<Rightarrow> 'b Conn \<Rightarrow> int \<Rightarrow> (rc \<times> 'b Conn) option" where
  "transBtreeDropTable db K iTable =
     (case cTrans K of
        None \<Rightarrow> Some (SQLITE_OK, K)
      | Some t \<Rightarrow>
          (let W = cWorld K in
           Option.bind (sqlite3HashI64Find (rootPages W) (rootHeap W) iTable) (\<lambda>p.
             if p = 0 then Some (SQLITE_OK, K)
             else Option.bind (rootData W p) (\<lambda>d.
               let (rc1, t1) = (if iIns d > 0 then dDropTable db (int (iIns d)) t else (SQLITE_OK, t)) in
               if rc1 \<noteq> SQLITE_OK then Some (rc1, K\<lparr>cTrans := Some t1\<rparr>)
               else let (rc2, t2) = (if iIns d > 0 then dDropTable db (int (iDel d)) t1 else (SQLITE_OK, t1)) in
                 Option.bind (sqlite3HashI64Insert (rootPages W) (rootHeap W) iTable 0 0 True) (\<lambda>(pData, T, H).
                 Option.bind (rootData W pData) (\<lambda>d'.
                 Option.bind (if pKeyInfo d' \<noteq> 0 \<and> rowlockJudgeTableType (cSchema K) iTable = INDEX_UNIQUE
                              then sqlite3rowlockPsmDropTable (psmArea W) iTable else Some (psmArea W)) (\<lambda>M.
                   Some (rc2, K\<lparr>cTrans := Some t2,
                     cWorld := W\<lparr>rootPages := T, rootHeap := H, rootData := (rootData W)(pData := None), psmArea := M\<rparr>\<rparr>))))))))"

definition sqlite3BtreeDropTableAll :: "('b, 'c) DbOps \<Rightarrow> 'b Conn \<Rightarrow> int \<Rightarrow> (rc \<times> 'b Conn) option" where
  "sqlite3BtreeDropTableAll db K iTable =
     Option.bind (if transBtreeIsUsed K then transBtreeDropTable db K iTable else Some (SQLITE_OK, K)) (\<lambda>(rc1, K1).
       if rc1 \<noteq> SQLITE_OK then Some (rc1, K1)
       else let (rc2, b) = dDropTable db iTable (cShared K1); K2 = K1\<lparr>cShared := b\<rparr> in
         if rc2 \<noteq> SQLITE_OK then Some (rc2, K2)
         else if transBtreeIsUsed K2 \<and> \<not> rowlockIsIndex (cSchema K2) iTable then
           Option.bind (sqlite3rowlockIpcCachedRowidDropTable (tableArea (cWorld K2)) iTable) (\<lambda>m.
             Some (SQLITE_OK, K2\<lparr>cWorld := (cWorld K2)\<lparr>tableArea := m\<rparr>\<rparr>))
         else Some (SQLITE_OK, K2))"

section \<open>Cursors\<close>

text \<open>
  An open cursor: \<open>ocTrans\<close> is \<open>pCurIns\<close> and \<open>pCurDel\<close>, \<open>None\<close> where they are null. The root pages of the three
  cursors stand beside them.
\<close>

record 'c OpenCursor =
  ocRoot :: int
  ocInsRoot :: nat
  ocDelRoot :: nat
  ocCur :: 'c
  ocTrans :: "('c \<times> 'c) option"
  ocState :: nat
  ocType :: u8
  ocKeyInfo :: addr

definition sharedOnly :: "int \<Rightarrow> 'c \<Rightarrow> addr \<Rightarrow> 'c OpenCursor" where
  "sharedOnly iTable c keyInfo = \<lparr>ocRoot = iTable, ocInsRoot = 0, ocDelRoot = 0, ocCur = c, ocTrans = None, ocState = CURSOR_NOT_USE, ocType = 0, ocKeyInfo = keyInfo\<rparr>"

text \<open>The merged cursor of \<open>Trans_Cursor\<close>, where the two cursors of the transaction exist.\<close>

definition mergedCursor :: "'c OpenCursor \<Rightarrow> 'c BtCursorT option" where
  "mergedCursor X =
     map_option (\<lambda>(ci, cd). \<lparr>pCur = ocCur X, pCurIns = ci, pCurDel = cd, stateT = ocState X, typeT = ocType X, hasKeyInfo = (ocKeyInfo X \<noteq> 0)\<rparr>) (ocTrans X)"

text \<open>Opening the two cursors on tables that exist; \<open>rowlockJudgeCursorType\<close> sets \<open>type\<close>.\<close>

definition rowlockJudgeCursorType :: "SchemaT \<Rightarrow> 'c OpenCursor \<Rightarrow> 'c OpenCursor" where
  "rowlockJudgeCursorType sch X = X\<lparr>ocType := rowlockJudgeTableType sch (ocRoot X)\<rparr>"

definition openTransCursors ::
  "('b, 'c) DbOps \<Rightarrow> TabAlloc \<Rightarrow> 'b Conn \<Rightarrow> nat \<Rightarrow> addr \<Rightarrow> nat \<Rightarrow> nat \<Rightarrow> 'c OpenCursor \<Rightarrow> (rc \<times> 'c OpenCursor \<times> 'b Conn) option" where
  "openTransCursors db A K wrFlag keyInfo iInsTable iDelTable X =
     Option.bind (cTrans K) (\<lambda>t.
       if \<not> tInsOk A \<or> \<not> tDelOk A then Some (SQLITE_NOMEM, X, K)
       else case dCursor db (int iInsTable) wrFlag keyInfo t of
           Inl rc \<Rightarrow> Some (rc, X, K)
         | Inr ci \<Rightarrow>
             (case dCursor db (int iDelTable) wrFlag keyInfo t of
                Inl rc \<Rightarrow> Some (rc, X, K\<lparr>cTrans := Some (dCloseCursor db (int iInsTable) ci t)\<rparr>)
              | Inr cd \<Rightarrow> Some (SQLITE_OK, 
                    rowlockJudgeCursorType (cSchema K) (X\<lparr>ocTrans := Some (ci, cd), ocInsRoot := iInsTable, ocDelRoot := iDelTable, ocState := CURSOR_USE_SHARED\<rparr>), K)))"

definition transBtreeCursor ::
  "('b, 'c) DbOps \<Rightarrow> TabAlloc \<Rightarrow> 'b Conn \<Rightarrow> int \<Rightarrow> nat \<Rightarrow> addr \<Rightarrow> 'c OpenCursor \<Rightarrow> (rc \<times> 'c OpenCursor \<times> 'b Conn) option" where
  "transBtreeCursor db A K iTable wrFlag keyInfo X =
     (case cTrans K of
        None \<Rightarrow> Some (SQLITE_OK, X\<lparr>ocTrans := None, ocState := CURSOR_NOT_USE\<rparr>, K)
      | Some t \<Rightarrow>
          if iTable = 1 then Some (SQLITE_OK, X\<lparr>ocTrans := None, ocState := CURSOR_NOT_USE\<rparr>, K)
          else Option.bind (sqlite3HashI64Find (rootPages (cWorld K)) (rootHeap (cWorld K)) iTable) (\<lambda>p.
            Option.bind (if p = 0 then Some zeroRootPage else rootData (cWorld K) p) (\<lambda>d.
              if p \<noteq> 0 \<and> iIns d \<noteq> 0 then openTransCursors db A K wrFlag keyInfo (iIns d) (iDel d) X
              else if \<not> dInTrans db t \<and> wrFlag = 0 then Some (SQLITE_OK, X\<lparr>ocTrans := None, ocState := CURSOR_NOT_USE\<rparr>, K)
              else Option.bind (sqlite3TransBtreeCreateTable db A K iTable keyInfo) (\<lambda>(rc, pNew, K1).
                if rc \<noteq> SQLITE_OK then Some (rc, X, K1)
                else Option.bind (rootData (cWorld K1) pNew) (\<lambda>d'.
                  openTransCursors db A K1 wrFlag keyInfo (iIns d') (iDel d') X)))))"

definition sqlite3BtreeCursorAll ::
  "('b, 'c) DbOps \<Rightarrow> TabAlloc \<Rightarrow> 'b Conn \<Rightarrow> int \<Rightarrow> nat \<Rightarrow> addr \<Rightarrow> nat \<Rightarrow> (rc \<times> 'c OpenCursor option \<times> 'b Conn) option" where
  "sqlite3BtreeCursorAll db A K iTable wrFlag keyInfo flag =
     (let (rc0, b) = (if dSharable db (cShared K) \<and> iTable = SCHEMA_ROOT \<and> wrFlag > 0 \<and> \<not> dInTrans db (cShared K)
                      then dBegin db 1 (cShared K) else (SQLITE_OK, cShared K));
          K0 = K\<lparr>cShared := b\<rparr>
      in if rc0 \<noteq> SQLITE_OK then Some (rc0, None, K0)
         else case dCursor db iTable (if dSharable db b \<and> iTable \<noteq> SCHEMA_ROOT \<and> flag = ROW_LOCK_CURSOR_IN_TRANS then 0 else wrFlag) keyInfo b of
             Inl rc \<Rightarrow> Some (rc, None, K0)
           | Inr c \<Rightarrow>
               Option.bind (transBtreeCursor db A K0 iTable wrFlag keyInfo (sharedOnly iTable c keyInfo)) (\<lambda>(rc, X, K1).
                 if rc \<noteq> SQLITE_OK then Some (rc, None, K1\<lparr>cShared := dCloseCursor db iTable c (cShared K1)\<rparr>)
                 else Some (SQLITE_OK, Some X, K1)))"

definition sqlite3TransBtreeCloseCursor :: "('b, 'c) DbOps \<Rightarrow> 'c OpenCursor \<Rightarrow> 'b Conn \<Rightarrow> 'c OpenCursor \<times> 'b Conn" where
  "sqlite3TransBtreeCloseCursor db X K =
     (case ocTrans X of
        None \<Rightarrow> (X, K)
      | Some (ci, cd) \<Rightarrow>
          (X\<lparr>ocTrans := None, ocState := CURSOR_NOT_USE\<rparr>,
           K\<lparr>cTrans := map_option (\<lambda>t. dCloseCursor db (int (ocDelRoot X)) cd (dCloseCursor db (int (ocInsRoot X)) ci t)) (cTrans K)\<rparr>))"

definition sqlite3BtreeCloseCursorAll :: "('b, 'c) DbOps \<Rightarrow> 'c OpenCursor \<Rightarrow> 'b Conn \<Rightarrow> 'b Conn" where
  "sqlite3BtreeCloseCursorAll db X K =
     (let (X', K') = sqlite3TransBtreeCloseCursor db X K in K'\<lparr>cShared := dCloseCursor db (ocRoot X') (ocCur X') (cShared K')\<rparr>)"

text \<open>Clearing an ephemeral table, which has no transaction btree: return code, cursor and the rowid cached in it.\<close>

definition sqlite3BtreeClearTableOfCursorAll ::
  "('c \<Rightarrow> rc \<times> 'c) \<Rightarrow> int \<Rightarrow> TableArea \<Rightarrow> 'c \<Rightarrow> i64 \<Rightarrow> (rc \<times> 'c \<times> i64) option" where
  "sqlite3BtreeClearTableOfCursorAll xClear root m c cachedRowid =
     (let (rc, c') = xClear c in
      if rc = SQLITE_OK then Option.bind (sqlite3BtreeCachedRowidSet False root m cachedRowid 0) (\<lambda>(r, m'). Some (rc, c', r))
      else Some (rc, c', cachedRowid))"

section \<open>Entry points that begin a write transaction\<close>

definition withTransOpen :: "('b, 'c) DbOps \<Rightarrow> ('b \<Rightarrow> rc \<times> 'b) \<Rightarrow> 'b \<Rightarrow> rc \<times> 'b" where
  "withTransOpen db f b =
     (let (rc, b') = (if dInTrans db b then (SQLITE_OK, b) else dBegin db 1 b) in if rc \<noteq> SQLITE_OK then (rc, b') else f b')"

definition sqlite3BtreeUpdateMetaWithTransOpen :: "('b, 'c) DbOps \<Rightarrow> (nat \<Rightarrow> u32 \<Rightarrow> 'b \<Rightarrow> rc \<times> 'b) \<Rightarrow> nat \<Rightarrow> u32 \<Rightarrow> 'b \<Rightarrow> rc \<times> 'b" where
  "sqlite3BtreeUpdateMetaWithTransOpen db xUpdateMeta iField iMeta = withTransOpen db (xUpdateMeta iField iMeta)"

definition sqlite3BtreeCreateTableWithTransOpen :: "('b, 'c) DbOps \<Rightarrow> nat \<Rightarrow> 'b \<Rightarrow> rc \<times> nat option \<times> 'b" where
  "sqlite3BtreeCreateTableWithTransOpen db flags b =
     (let (rc, b') = (if dInTrans db b then (SQLITE_OK, b) else dBegin db 1 b) in
      if rc \<noteq> SQLITE_OK then (rc, None, b')
      else let (rc', i, b'') = dCreateTable db flags b' in (rc', if rc' = SQLITE_OK then Some i else None, b''))"

definition sqlite3BtreeBeginStmtAll ::
  "(int \<Rightarrow> 'b \<Rightarrow> rc \<times> 'b) \<Rightarrow> TabAlloc \<Rightarrow> int \<Rightarrow> 'b Conn \<Rightarrow> int \<Rightarrow> rc \<times> 'b Conn" where
  "sqlite3BtreeBeginStmtAll xBeginStmt A nSavepoint K iStatement =
     (case cTrans K of
        None \<Rightarrow> (let (rc, b) = xBeginStmt iStatement (cShared K) in (rc, K\<lparr>cShared := b\<rparr>))
      | Some t \<Rightarrow>
          (let (rc, t') = xBeginStmt iStatement t; K1 = K\<lparr>cTrans := Some t'\<rparr> in
           if rc \<noteq> SQLITE_OK then (rc, K1)
           else let (rc', S) = sqlite3TransBtreeSavepointCreate (aHistOk (tHist A)) (aSpOk (tHist A)) (aGrowOk (tHist A)) (tSpJunk A) True (cSave K) nSavepoint
                in (rc', K1\<lparr>cSave := S\<rparr>)))"

definition sqlite3BtreeIncrVacuumForRowLock ::
  "('b, 'c) DbOps \<Rightarrow> ('b \<Rightarrow> rc \<times> 'b) \<Rightarrow> Caller \<Rightarrow> TabAlloc \<Rightarrow> 'b Conn \<Rightarrow> (rc \<times> 'b Conn) option" where
  "sqlite3BtreeIncrVacuumForRowLock db xIncrVacuum me A K =
     Option.bind (sqlite3rowlockIpcLockTableAndAddHistory me (tHist A) (transBtreeIsUsed K) (cSave K) (cWorld K) SCHEMA_ROOT WRITE_LOCK) (\<lambda>(rc1, S1, W1).
       let K1 = K\<lparr>cSave := S1, cWorld := W1\<rparr> in
       if rc1 \<noteq> SQLITE_OK then Some (rc1, K1)
       else let (rc2, b2) = (if transBtreeIsUsed K then dBegin db 1 (cShared K1) else (SQLITE_OK, cShared K1)) in
         if rc2 \<noteq> SQLITE_OK then Some (rc2, K1\<lparr>cShared := b2\<rparr>)
         else let (rc3, b3) = xIncrVacuum b2 in Some (rc3, K1\<lparr>cShared := b3\<rparr>))"

text \<open>Unlocking the tables of a statement in every database of the connection.\<close>

fun sqlite3BtreeUnlockStmtTableLock :: "Caller \<Rightarrow> 'b Conn option list \<Rightarrow> 'b Conn option list option" where
  "sqlite3BtreeUnlockStmtTableLock me [] = Some []"
| "sqlite3BtreeUnlockStmtTableLock me (d # aDb) =
     Option.bind
       (case d of
          Some K \<Rightarrow> if transBtreeIsUsed K
            then map_option (\<lambda>m. Some (K\<lparr>cWorld := (cWorld K)\<lparr>tableArea := m\<rparr>\<rparr>))
              (sqlite3rowlockIpcUnlockTablesProcCore (tableArea (cWorld K)) (myPid me) (myPid me) (myOwner me) MODE_UNLOCK_STMT)
            else Some d
        | None \<Rightarrow> Some d)
       (\<lambda>d'. map_option ((#) d') (sqlite3BtreeUnlockStmtTableLock me aDb))"

section \<open>Walking the mapping\<close>

text \<open>The entry of the mapping for a table.\<close>

definition pageOf :: "LockWorld \<Rightarrow> addr list \<Rightarrow> int \<Rightarrow> TransRootPage option" where
  "pageOf W as i = (let p = contents (=) (rootHeap W) as i in if p = 0 then None else rootData W p)"

lemma pageOf_cong: "rootHeap W' = rootHeap W \<Longrightarrow> rootData W' = rootData W \<Longrightarrow> pageOf W' = pageOf W"
  by (rule ext)+ (simp add: pageOf_def cong: if_cong)

lemma roots_elem:
  assumes ok: "rootsOk W as" and as: "as = xs @ a # ys"
  obtains e d where "a \<noteq> 0" "rootHeap W a = Some e" "nextH e = hdq ys 0" "dataH e \<noteq> 0" "rootData W (dataH e) = Some d"
    "sqlite3HashI64Find (rootPages W) (rootHeap W) (keyH e) = Some (dataH e)" "pageOf W as (keyH e) = Some d"
    "keyH e = key_of (rootHeap W) a"
proof -
  let ?H = "rootHeap W"
  have i: "i64_inv (rootPages W) ?H as" using ok by (simp add: rootsOk_def)
  have l: "dls ?H 0 (xs @ a # ys) 0" using i as by (simp add: hash_inv_def shape_inv_def)
  obtain e where e: "?H a = Some e" "a \<noteq> 0" "nextH e = hdq ys 0" by (rule dls_mid [OF l])
  have ke: "keyH e = key_of ?H a" "dataH e = data_of ?H a" using e by (simp_all add: key_of_def data_of_def)
  have c: "contents (=) ?H as (keyH e) = dataH e" using i64.contents_key [OF i, of a "keyH e"] as ke by simp
  have nz: "dataH e \<noteq> 0" and k: "i64Key (keyH e)" using i as ke by (simp_all add: hash_inv_def shape_inv_def)
  obtain d where d: "rootData W (dataH e) = Some d" using ok c nz unfolding rootsOk_def by (metis not_None_eq)
  have f: "sqlite3HashI64Find (rootPages W) ?H (keyH e) = Some (dataH e)"
    using i64.hashFind_ok [OF i k] c by (simp add: sqlite3HashI64Find_def)
  have "pageOf W as (keyH e) = Some d" using c nz d by (simp add: pageOf_def)
  with e ke nz d f show thesis by (intro that)
qed

text \<open>The keys of the mapping.\<close>

lemma pageOf_keys:
  assumes "rootsOk W as"
  shows "pageOf W as i \<noteq> None \<longleftrightarrow> i \<in> key_of (rootHeap W) ` set as"
proof -
  have "i64_inv (rootPages W) (rootHeap W) as" using assms by (simp add: rootsOk_def)
  from contents_keys [OF this] have "contents (=) (rootHeap W) as i \<noteq> 0 \<longleftrightarrow> i \<in> key_of (rootHeap W) ` set as" by blast
  then show ?thesis using assms by (auto simp: pageOf_def Let_def rootsOk_def)
qed

section \<open>Adding an entry to the mapping\<close>

text \<open>The allocator returns unused addresses or fails.\<close>

definition freshRoot :: "LockWorld \<Rightarrow> TabAlloc \<Rightarrow> bool" where
  "freshRoot W A \<longleftrightarrow> rootData W (tRoot A) = None \<and> (tRootElem A \<noteq> 0 \<longrightarrow> rootHeap W (tRootElem A) = None)"

text \<open>The table has no entry yet: a new one is allocated and entered, unless memory is short.\<close>

lemma roots_new:
  assumes ok: "rootsOk W as" "length as + 1 < 2 ^ 30" and i: "0 \<le> i" "contents (=) (rootHeap W) as i = 0"
    and fresh: "rootData W pNew = None" "newElem \<noteq> 0 \<longrightarrow> rootHeap W newElem = None" and pNew: "pNew \<noteq> 0"
  obtains T' H' as' where
    "sqlite3HashI64Insert (rootPages W) (rootHeap W) i pNew newElem htOk = Some (if newElem = 0 then pNew else 0, T', H')"
    "i64_inv T' H' as'" "length as' < 2 ^ 30" "\<forall>k. contents (=) (rootHeap W) as k \<noteq> pNew"
    "contents (=) H' as' = (if newElem = 0 then contents (=) (rootHeap W) as else (contents (=) (rootHeap W) as)(i := pNew))"
proof -
  let ?c = "contents (=) (rootHeap W) as"
  have inv: "i64_inv (rootPages W) (rootHeap W) as" and n: "length as < 2 ^ 30" using ok by (simp_all add: rootsOk_def)
  have k: "i64Key i" using i(1) by (simp add: i64Key_def)
  obtain T' H' as' where r: "hashInsert i64Index (=) (rootPages W) (rootHeap W) i pNew newElem True htOk = Some (insertResult (?c i) pNew (newElem \<noteq> 0) True, T', H')"
    "i64_inv T' H' as'" "contents (=) H' as' = (\<lambda>k'. if i = k' \<and> insertStores (?c i) pNew (newElem \<noteq> 0) True then pNew else ?c k')"
    "set as' \<subseteq> insert newElem (set as)"
    by (rule i64.hashInsert_ok [OF inv k n fresh(2), where d = pNew and keyOk = True and htOk = htOk])
  have "distinct as'" "distinct as" using r(2) inv by (simp_all add: hash_inv_def shape_inv_def)
  then have "length as' \<le> length as + 1"
    using card_mono [OF _ r(4)] card_insert_le_m1 [of "Suc (length as)" "set as" newElem] distinct_card [of as'] distinct_card [of as] by simp
  then have len: "length as' < 2 ^ 30" using ok(2) by simp
  have new: "?c k' \<noteq> pNew" for k' using ok(1) fresh(1) pNew unfolding rootsOk_def by metis
  have "contents (=) H' as' = (if newElem = 0 then ?c else ?c(i := pNew))" using r(3) i(2) pNew by (auto simp: insertStores_def fun_eq_iff)
  with r(1,2) len new show thesis
    by (intro that) (simp_all add: sqlite3HashI64Insert_def insertResult_def i(2) pNew)
qed

lemma roots_add:
  assumes ok: "rootsOk W as" "length as + 1 < 2 ^ 30" and i: "0 \<le> i" and fresh: "rootData W pNew = None" "newElem \<noteq> 0 \<longrightarrow> rootHeap W newElem = None"
  obtains p W' as' where "addTransRootPage pNew newElem htOk W i ii dd ki = Some (p, W')" "rootsOk W' as'"
    "pageOf W' as' = (if p = 0 then pageOf W as
       else (pageOf W as)(i \<mapsto> (case pageOf W as i of None \<Rightarrow> zeroRootPage | Some d \<Rightarrow> d)\<lparr>iIns := ii, iDel := dd, pKeyInfo := ki\<rparr>))"
    "p = 0 \<or> rootData W' p = pageOf W' as' i" "rowArea W' = rowArea W" "tableArea W' = tableArea W" "psmArea W' = psmArea W"
proof -
  let ?c = "contents (=) (rootHeap W) as"
  have inv: "i64_inv (rootPages W) (rootHeap W) as" using ok by (simp add: rootsOk_def)
  have dat: "rootData W (?c k) \<noteq> None" if "?c k \<noteq> 0" for k using ok(1) that by (simp add: rootsOk_def)
  have inj: "k = k'" if "?c k = ?c k'" "?c k \<noteq> 0" for k k' using ok(1) that unfolding rootsOk_def by blast
  have f: "sqlite3HashI64Find (rootPages W) (rootHeap W) i = Some (?c i)"
    using i64.hashFind_ok [OF inv, of i] i by (simp add: sqlite3HashI64Find_def i64Key_def)
  consider (old) "?c i \<noteq> 0" | (none) "?c i = 0" "pNew = 0" | (new) "?c i = 0" "pNew \<noteq> 0" by blast
  then show thesis
  proof cases
    case old
    then obtain d where d: "rootData W (?c i) = Some d" using dat by blast
    define W' where "W' = W\<lparr>rootData := (rootData W)(?c i \<mapsto> d\<lparr>iIns := ii, iDel := dd, pKeyInfo := ki\<rparr>)\<rparr>"
    have pg: "pageOf W' as = (pageOf W as)(i \<mapsto> d\<lparr>iIns := ii, iDel := dd, pKeyInfo := ki\<rparr>)" "pageOf W as i = Some d"
      using old d inj [of _ i] by (auto simp: pageOf_def W'_def Let_def fun_eq_iff)
    have "rootsOk W' as" using ok(1) by (auto simp: rootsOk_def W'_def)
    with pg old f d show thesis by (intro that [of "?c i" W' as]) (simp_all add: addTransRootPage_def W'_def)
  next
    case none
    with ok(1) f show thesis by (intro that [of 0 W as]) (simp_all add: addTransRootPage_def)
  next
    case new
    obtain T' H' as' where r: "sqlite3HashI64Insert (rootPages W) (rootHeap W) i pNew newElem htOk = Some (if newElem = 0 then pNew else 0, T', H')"
      "i64_inv T' H' as'" "length as' < 2 ^ 30" "\<forall>k. ?c k \<noteq> pNew" "contents (=) H' as' = (if newElem = 0 then ?c else ?c(i := pNew))"
      by (rule roots_new [OF ok i new(1) fresh new(2), where htOk = htOk])
    let ?d = "zeroRootPage\<lparr>iIns := ii, iDel := dd, pKeyInfo := ki\<rparr>"
    define W0 where "W0 = W\<lparr>rootPages := T', rootHeap := H'\<rparr>"
    define W' where "W' = (if newElem = 0 then W0 else W0\<lparr>rootData := (rootData W)(pNew \<mapsto> ?d)\<rparr>)"
    have ro: "rootsOk W' as'" using ok(1) r(2-5) new dat inj by (auto simp: rootsOk_def W'_def W0_def split: if_splits)
    have pg: "pageOf W' as' = (if newElem = 0 then pageOf W as else (pageOf W as)(i \<mapsto> ?d))" "pageOf W as i = None"
      using r(4) new by (auto simp: W'_def W0_def r(5) pageOf_def Let_def fun_eq_iff)
    show thesis
      using r(1) f new ro pg
      by (intro that [of "if newElem = 0 then 0 else pNew" W' as']) (simp_all add: addTransRootPage_def W'_def W0_def)
  qed
qed

definition newPage :: "TransRootPage option \<Rightarrow> nat \<Rightarrow> nat \<Rightarrow> addr \<Rightarrow> TransRootPage" where
  "newPage old ii dd ki = (case old of None \<Rightarrow> zeroRootPage | Some d \<Rightarrow> d)\<lparr>iIns := ii, iDel := dd, pKeyInfo := ki\<rparr>"

definition freshTab :: "LockWorld \<Rightarrow> TabAlloc \<Rightarrow> bool" where
  "freshTab W A \<longleftrightarrow> freshRoot W A \<and> (tPsmNew A \<noteq> 0 \<longrightarrow> tables (psmArea W) (tPsmNew A) = None) \<and>
     (tPsmElem A \<noteq> 0 \<longrightarrow> listHeap (psmArea W) (tPsmElem A) = None)"

text \<open>The shared memory with room for one more index.\<close>

definition psmRoom :: "(blob \<Rightarrow> blob \<Rightarrow> int) \<Rightarrow> PsmMem \<Rightarrow> bool" where
  "psmRoom xc M \<longleftrightarrow> compareOk xc \<and> psm_inv xc M \<and> hcount (idxList M) + 1 < 2 ^ 30"

lemma index_space:
  assumes p: "psmRoom xc (psmArea W)" and i: "0 \<le> i" and fresh: "freshTab W A"
  obtains rc S' M where "createIndexSpace A sch S W i ki = Some (rc, S', W\<lparr>psmArea := M\<rparr>)" "psm_inv xc M"
    "\<And>j. 0 \<le> j \<Longrightarrow> psmHolder xc M j = psmHolder xc (psmArea W) j"
proof (cases "ki \<noteq> 0 \<and> rowlockJudgeTableType sch i = INDEX_UNIQUE")
  case True
  have p': "compareOk xc" "psm_inv xc (psmArea W)" "hcount (idxList (psmArea W)) + 1 < 2 ^ 30" using p by (simp_all add: psmRoom_def)
  have fr: "tPsmNew A \<noteq> 0 \<longrightarrow> tables (psmArea W) (tPsmNew A) = None" "tPsmElem A \<noteq> 0 \<longrightarrow> listHeap (psmArea W) (tPsmElem A) = None"
    using fresh by (simp_all add: freshTab_def)
  obtain M rc where M: "sqlite3rowlockPsmCreateTable (psmArea W) i (tPsmNew A) (tPsmElem A) (tPsmHt A) = Some (rc, M)" "psm_inv xc M"
    "\<forall>j\<ge>0. psmHolder xc M j = psmHolder xc (psmArea W) j"
    using psm_create_table [OF p'(1,2) i p'(3) fr, of "tPsmHt A"] by (elim exE conjE) (rule that)
  let ?h = "sqlite3rowlockHistoryAddNewIndex (aHistOk (tHist A)) (aSpOk (tHist A)) (aGrowOk (tHist A)) (aJunk (tHist A)) S i"
  show thesis
    by (rule that [of "if rc \<noteq> SQLITE_OK then rc else fst ?h" "if rc \<noteq> SQLITE_OK then S else snd ?h" M])
      (use True M in \<open>simp_all add: createIndexSpace_def split_beta\<close>)
next
  case False
  show thesis by (rule that [of SQLITE_OK S "psmArea W"]) (use False p in \<open>auto simp: createIndexSpace_def psmRoom_def\<close>)
qed

lemma register_ok:
  assumes ok: "rootsOk W as" "length as + 1 < 2 ^ 30" and i: "0 \<le> i" and fresh: "freshTab W A" and p: "psmRoom xc (psmArea W)"
  obtains rc q S' W' as' where "registerTable A sch S W i ii dd ki = Some (rc, q, S', W')" "rootsOk W' as'" "psm_inv xc (psmArea W')"
    "rowArea W' = rowArea W" "tableArea W' = tableArea W" "\<And>j. 0 \<le> j \<Longrightarrow> psmHolder xc (psmArea W') j = psmHolder xc (psmArea W) j"
    "rc = SQLITE_OK \<Longrightarrow> q \<noteq> 0" "q \<noteq> 0 \<Longrightarrow> rootData W' q = pageOf W' as' i"
    "pageOf W' as' = (if q = 0 then pageOf W as else (pageOf W as)(i \<mapsto> newPage (pageOf W as i) ii dd ki))"
proof -
  obtain rc1 S1 M where s: "createIndexSpace A sch S W i ki = Some (rc1, S1, W\<lparr>psmArea := M\<rparr>)" "psm_inv xc M"
    "\<And>j. 0 \<le> j \<Longrightarrow> psmHolder xc M j = psmHolder xc (psmArea W) j"
    by (rule index_space [OF p i fresh, where sch = sch and S = S and ki = ki]) blast
  define W1 where "W1 = W\<lparr>psmArea := M\<rparr>"
  have W1: "rootsOk W1 as" "rootData W1 (tRoot A) = None" "tRootElem A \<noteq> 0 \<longrightarrow> rootHeap W1 (tRootElem A) = None" "pageOf W1 = pageOf W"
    using ok(1) fresh pageOf_cong [of W1 W] by (simp_all add: W1_def rootsOk_def freshTab_def freshRoot_def)
  show thesis
  proof (cases "rc1 = SQLITE_OK")
    case False
    show thesis
      by (rule that [of rc1 0 S1 W1 as]) (use False s W1 in \<open>simp_all add: registerTable_def W1_def\<close>)
  next
    case True
    obtain q W2 as' where r: "addTransRootPage (tRoot A) (tRootElem A) (tRootHt A) W1 i ii dd ki = Some (q, W2)" "rootsOk W2 as'"
      "pageOf W2 as' = (if q = 0 then pageOf W1 as
         else (pageOf W1 as)(i \<mapsto> (case pageOf W1 as i of None \<Rightarrow> zeroRootPage | Some d \<Rightarrow> d)\<lparr>iIns := ii, iDel := dd, pKeyInfo := ki\<rparr>))"
      "q = 0 \<or> rootData W2 q = pageOf W2 as' i" "rowArea W2 = rowArea W1" "tableArea W2 = tableArea W1" "psmArea W2 = psmArea W1"
      by (rule roots_add [OF W1(1) ok(2) i W1(2,3), where htOk = "tRootHt A" and ii = ii and dd = dd and ki = ki])
    let ?h = "sqlite3rowlockHistoryAddNewTable (aHistOk (tHist A)) (aSpOk (tHist A)) (aGrowOk (tHist A)) (aJunk (tHist A)) S1 i"
    show thesis
      by (rule that [of "if q = 0 then SQLITE_NOMEM else fst ?h" q "if q = 0 then S1 else snd ?h" W2 as'])
        (use True s r W1(4) in \<open>auto simp: registerTable_def W1_def newPage_def split_beta split: if_splits\<close>)
  qed
qed

text \<open>An entry for a table whose records are all deleted and that has no tables yet.\<close>

definition clearedOnly :: "TransRootPage \<Rightarrow> bool" where
  "clearedOnly d \<longleftrightarrow> iIns d = 0 \<and> iDel d = 0 \<and> deleteAll d \<noteq> 0"

definition lacksTables :: "TransRootPage option \<Rightarrow> bool" where
  "lacksTables e \<longleftrightarrow> (case e of None \<Rightarrow> True | Some d \<Rightarrow> iIns d = 0)"

text \<open>The mapping of \<open>W\<close>, or that with the entry of the table \<open>i\<close> renewed.\<close>

definition mappingKept :: "LockWorld \<Rightarrow> addr list \<Rightarrow> int \<Rightarrow> addr \<Rightarrow> LockWorld \<Rightarrow> bool" where
  "mappingKept W as i ki W' \<longleftrightarrow> (\<exists>as'. rootsOk W' as' \<and>
     (pageOf W' as' = pageOf W as \<or> lacksTables (pageOf W as i) \<and> (\<exists>ii dd. pageOf W' as' = (pageOf W as)(i \<mapsto> newPage (pageOf W as i) ii dd ki))))"

lemma mappingKept_refl: "rootsOk W as \<Longrightarrow> mappingKept W as i ki W"
  by (auto simp: mappingKept_def)

section \<open>What is relied on of the btrees\<close>

text \<open>
  \<open>tabs b i\<close> is the table with root page \<open>i\<close>: whether it is an index, and its records. The laws are those of SQLite's
  btree: a cursor on an existing table sees its records, needs a write transaction to write, and
  what it holds when closed is the table's new content; a new table is empty and has an unused root page.
\<close>

locale trans_db =
  fixes db :: "('b, 'c) DbOps" and ops :: "'c EditOps" and good :: "bool \<Rightarrow> 'c \<Rightarrow> bool" and tab :: "'c \<Rightarrow> 'k \<rightharpoonup> 'v"
    and at :: "'c \<Rightarrow> 'k" and todo :: "'c \<Rightarrow> BtreePayload list" and kcol :: "bool \<Rightarrow> blob option \<Rightarrow> i64 \<Rightarrow> 'k" and recv :: "bool \<Rightarrow> BtreePayload \<Rightarrow> 'v"
    and tabs :: "'b \<Rightarrow> int \<Rightarrow> (bool \<times> ('k \<rightharpoonup> 'v)) option"
  assumes edit: "table_edit ops isIdx (good isIdx) tab at todo (kcol isIdx) (recv isIdx)"
    and cursor_ok: "tabs b i = Some (keyInfo \<noteq> 0, R) \<Longrightarrow> wr = 0 \<or> dInTrans db b \<Longrightarrow>
      \<exists>c. dCursor db i wr keyInfo b = Inr c \<and> good (keyInfo \<noteq> 0) c \<and> tab c = R"
    and close_ok: "good isIdx c \<Longrightarrow> tabs (dCloseCursor db i c b) = (tabs b)(i \<mapsto> (isIdx, tab c)) \<and>
      dInTrans db (dCloseCursor db i c b) = dInTrans db b \<and> dWriting db (dCloseCursor db i c b) = dWriting db b"
    and begin_ok: "dBegin db w b = (SQLITE_OK, b') \<Longrightarrow> w \<noteq> 0 \<Longrightarrow> tabs b' = tabs b \<and> dInTrans db b' \<and> dWriting db b'"
    and create_ok: "dCreateTable db flags b = (SQLITE_OK, n, b') \<Longrightarrow> dInTrans db b \<Longrightarrow>
      0 < n \<and> tabs b (int n) = None \<and> tabs b' = (tabs b)(int n \<mapsto> (flags = BTREE_BLOBKEY, Map.empty)) \<and> dInTrans db b' \<and> dWriting db b'"
    and writing: "dWriting db b \<Longrightarrow> dInTrans db b"
begin

text \<open>The tables of a connection and the entry \<open>d\<close> of the mapping for the shared table \<open>i\<close>: its two tables exist and are of its kind.\<close>

definition entryOk :: "'b Conn \<Rightarrow> 'b \<Rightarrow> int \<Rightarrow> TransRootPage \<Rightarrow> bool" where
  "entryOk K t i d \<longleftrightarrow> 1 < i \<and> iIns d \<noteq> 0 \<and> iDel d \<noteq> 0 \<and> iIns d \<noteq> iDel d \<and>
     (\<exists>R I D. tabs (cShared K) i = Some (pKeyInfo d \<noteq> 0, R) \<and> tabs t (int (iIns d)) = Some (pKeyInfo d \<noteq> 0, I) \<and>
        tabs t (int (iDel d)) = Some (pKeyInfo d \<noteq> 0, D))"

text \<open>The tables of every entry exist and no two entries share one.\<close>

definition connOk :: "'b Conn \<Rightarrow> 'b \<Rightarrow> addr list \<Rightarrow> bool" where
  "connOk K t as \<longleftrightarrow> cTrans K = Some t \<and> rootsOk (cWorld K) as \<and>
     (\<forall>i d. pageOf (cWorld K) as i = Some d \<longrightarrow> entryOk K t i d) \<and>
     (\<forall>i j d d'. pageOf (cWorld K) as i = Some d \<longrightarrow> pageOf (cWorld K) as j = Some d' \<longrightarrow> i \<noteq> j \<longrightarrow> {iIns d, iDel d} \<inter> {iIns d', iDel d'} = {})"

text \<open>
  An entry may also have no tables (\<open>rowlock.h\<close>, case 3): all records of the shared table are deleted and nothing has been
  written since. The mapping with entries of both kinds.
\<close>

definition mappingOk :: "'b Conn \<Rightarrow> 'b \<Rightarrow> addr list \<Rightarrow> bool" where
  "mappingOk K t as \<longleftrightarrow> cTrans K = Some t \<and> rootsOk (cWorld K) as \<and>
     (\<forall>i d. pageOf (cWorld K) as i = Some d \<longrightarrow> entryOk K t i d \<or> clearedOnly d) \<and>
     (\<forall>i j d d'. pageOf (cWorld K) as i = Some d \<longrightarrow> pageOf (cWorld K) as j = Some d' \<longrightarrow> i \<noteq> j \<longrightarrow> iIns d \<noteq> 0 \<longrightarrow> iIns d' \<noteq> 0 \<longrightarrow>
        {iIns d, iDel d} \<inter> {iIns d', iDel d'} = {})"

lemma connOk_iff: "connOk K t as \<longleftrightarrow> mappingOk K t as \<and> (\<forall>i d. pageOf (cWorld K) as i = Some d \<longrightarrow> iIns d \<noteq> 0)"
  unfolding connOk_def mappingOk_def entryOk_def clearedOnly_def by blast

definition recs :: "'b \<Rightarrow> int \<Rightarrow> 'k \<rightharpoonup> 'v" where
  "recs b i = (case tabs b i of Some (x, R) \<Rightarrow> R | None \<Rightarrow> Map.empty)"

text \<open>Opening a cursor on a table with its tables in the mapping gives the merged cursor on the three.\<close>

lemma open_trans:
  assumes t: "cTrans K = Some t" and w: "wr = 0 \<or> dInTrans db t"
    and tb: "tabs t (int ii) = Some (keyInfo \<noteq> 0, I)" "tabs t (int dd) = Some (keyInfo \<noteq> 0, D)" and mem: "tInsOk A" "tDelOk A"
  obtains ci cd where "openTransCursors db A K wr keyInfo ii dd X =
      Some (SQLITE_OK, rowlockJudgeCursorType (cSchema K) (X\<lparr>ocTrans := Some (ci, cd), ocInsRoot := ii, ocDelRoot := dd, ocState := CURSOR_USE_SHARED\<rparr>), K)"
    "good (keyInfo \<noteq> 0) ci" "tab ci = I" "good (keyInfo \<noteq> 0) cd" "tab cd = D"
proof -
  obtain ci where ci: "dCursor db (int ii) wr keyInfo t = Inr ci" "good (keyInfo \<noteq> 0) ci" "tab ci = I" using cursor_ok [OF tb(1) w] by blast
  obtain cd where cd: "dCursor db (int dd) wr keyInfo t = Inr cd" "good (keyInfo \<noteq> 0) cd" "tab cd = D" using cursor_ok [OF tb(2) w] by blast
  show thesis by (rule that [of ci cd]) (use t mem ci cd in \<open>simp_all add: openTransCursors_def\<close>)
qed

end

context trans_db
begin

text \<open>The cursor on an entry of the mapping: nothing changes in the connection.\<close>

definition opened :: "'b \<Rightarrow> 'b \<Rightarrow> int \<Rightarrow> TransRootPage \<Rightarrow> 'c OpenCursor \<Rightarrow> 'c BtCursorT \<Rightarrow> bool" where
  "opened b t i d X C \<longleftrightarrow> mergedCursor X = Some C \<and> ocRoot X = i \<and> ocInsRoot X = iIns d \<and> ocDelRoot X = iDel d \<and>
     table_edit.goodT (good (pKeyInfo d \<noteq> 0)) C \<and> transBtreeCursorIsUsed C \<and>
     tab (pCur C) = recs b i \<and> tab (pCurIns C) = recs t (int (iIns d)) \<and> tab (pCurDel C) = recs t (int (iDel d))"

lemma open_any:
  assumes t: "cTrans K = Some t" and w: "wr = 0 \<or> dInTrans db t"
    and tb: "tabs t (int (iIns d)) = Some (pKeyInfo d \<noteq> 0, I)" "tabs t (int (iDel d)) = Some (pKeyInfo d \<noteq> 0, D)"
    and c: "good (pKeyInfo d \<noteq> 0) c" "tab c = recs b i"
  obtains rc X where "openTransCursors db A K wr (pKeyInfo d) (iIns d) (iDel d) (sharedOnly i c (pKeyInfo d)) = Some (rc, X, K)"
    "rc = SQLITE_OK \<Longrightarrow> \<exists>C. opened b t i d X C" "tInsOk A \<Longrightarrow> tDelOk A \<Longrightarrow> rc = SQLITE_OK"
proof (cases "tInsOk A \<and> tDelOk A")
  case False
  then show thesis by (intro that [of SQLITE_NOMEM "sharedOnly i c (pKeyInfo d)"]) (auto simp: openTransCursors_def t)
next
  case True
  then have mem: "tInsOk A" "tDelOk A" by simp_all
  let ?Y = "sharedOnly i c (pKeyInfo d)"
  obtain ci cd where o: "openTransCursors db A K wr (pKeyInfo d) (iIns d) (iDel d) ?Y =
      Some (SQLITE_OK, rowlockJudgeCursorType (cSchema K) (?Y\<lparr>ocTrans := Some (ci, cd), ocInsRoot := iIns d, ocDelRoot := iDel d, ocState := CURSOR_USE_SHARED\<rparr>), K)"
    "good (pKeyInfo d \<noteq> 0) ci" "tab ci = I" "good (pKeyInfo d \<noteq> 0) cd" "tab cd = D"
    by (rule open_trans [OF t w tb mem])
  let ?X = "rowlockJudgeCursorType (cSchema K) (?Y\<lparr>ocTrans := Some (ci, cd), ocInsRoot := iIns d, ocDelRoot := iDel d, ocState := CURSOR_USE_SHARED\<rparr>)"
  obtain C where C: "mergedCursor ?X = Some C" "pCur C = c" "pCurIns C = ci" "pCurDel C = cd" "stateT C = CURSOR_USE_SHARED"
    by (simp add: mergedCursor_def rowlockJudgeCursorType_def sharedOnly_def)
  have "ocRoot ?X = i" "ocInsRoot ?X = iIns d" "ocDelRoot ?X = iDel d" by (simp_all add: rowlockJudgeCursorType_def sharedOnly_def)
  then have "opened b t i d ?X C"
    using C c o(2-5) tb by (simp add: opened_def transBtreeCursorIsUsed_def table_edit.goodT_def [OF edit] recs_def)
  with o(1) show thesis by (intro that [of SQLITE_OK ?X]) blast+
qed

lemma cursor_all:
  assumes t: "cTrans K = Some t" and e: "entryOk K t i d" and mem: "tInsOk A" "tDelOk A"
    and root: "sqlite3HashI64Find (rootPages (cWorld K)) (rootHeap (cWorld K)) i = Some p" "p \<noteq> 0" "rootData (cWorld K) p = Some d"
    and w: "wr = 0 \<or> dInTrans db t \<and> dInTrans db (cShared K)"
  obtains X C where "sqlite3BtreeCursorAll db A K i wr (pKeyInfo d) 1 = Some (SQLITE_OK, Some X, K)" "opened (cShared K) t i d X C"
proof -
  obtain R I D where tb: "tabs (cShared K) i = Some (pKeyInfo d \<noteq> 0, R)" "tabs t (int (iIns d)) = Some (pKeyInfo d \<noteq> 0, I)"
    "tabs t (int (iDel d)) = Some (pKeyInfo d \<noteq> 0, D)" using e unfolding entryOk_def by blast
  have i: "i \<noteq> 1" "iIns d \<noteq> 0" using e by (simp_all add: entryOk_def)
  have w': "wr = 0 \<or> dInTrans db (cShared K)" "wr = 0 \<or> dInTrans db t" using w by blast+
  obtain c where c: "dCursor db i wr (pKeyInfo d) (cShared K) = Inr c" "good (pKeyInfo d \<noteq> 0) c" "tab c = recs (cShared K) i"
    using cursor_ok [OF tb(1) w'(1)] by (auto simp: recs_def tb)
  obtain rc X where o: "openTransCursors db A K wr (pKeyInfo d) (iIns d) (iDel d) (sharedOnly i c (pKeyInfo d)) = Some (rc, X, K)"
    "rc = SQLITE_OK \<Longrightarrow> \<exists>C. opened (cShared K) t i d X C" "tInsOk A \<Longrightarrow> tDelOk A \<Longrightarrow> rc = SQLITE_OK"
    by (rule open_any [where A = A, OF t w'(2) tb(2,3) c(2,3)]) (rule that)
  have "sqlite3BtreeCursorAll db A K i wr (pKeyInfo d) 1 = Some (SQLITE_OK, Some X, K)"
    using t i c(1) o(1) o(3) [OF mem] root by (simp add: sqlite3BtreeCursorAll_def transBtreeCursor_def)
  with o(2) [OF o(3) [OF mem]] show thesis using that by blast
qed

text \<open>Closing it after edits that keep the tables well-formed.\<close>

definition closeWith :: "'c OpenCursor \<Rightarrow> 'c BtCursorT \<Rightarrow> 'b Conn \<Rightarrow> 'b Conn" where
  "closeWith X C K = sqlite3BtreeCloseCursorAll db (X\<lparr>ocCur := pCur C, ocTrans := Some (pCurIns C, pCurDel C)\<rparr>) K"

lemma close_all:
  assumes t: "cTrans K = Some t" and g: "table_edit.goodT (good x) C" and r: "ocRoot X = i" "ocInsRoot X = ii" "ocDelRoot X = dd"
  obtains b t' where "closeWith X C K = K\<lparr>cShared := b, cTrans := Some t'\<rparr>"
    "tabs b = (tabs (cShared K))(i \<mapsto> (x, tab (pCur C)))" "dInTrans db b = dInTrans db (cShared K)"
    "tabs t' = (tabs t)(int ii \<mapsto> (x, tab (pCurIns C)), int dd \<mapsto> (x, tab (pCurDel C)))" "dInTrans db t' = dInTrans db t"
proof -
  have gs: "good x (pCur C)" "good x (pCurIns C)" "good x (pCurDel C)" using g by (simp_all add: table_edit.goodT_def [OF edit])
  show thesis
    by (rule that [of "dCloseCursor db (int dd) (pCurDel C) (dCloseCursor db (int ii) (pCurIns C) t)" "dCloseCursor db i (pCur C) (cShared K)"])
      (use t r close_ok [OF gs(1)] close_ok [OF gs(2)] close_ok [OF gs(3)] in
        \<open>simp_all add: closeWith_def sqlite3BtreeCloseCursorAll_def sqlite3TransBtreeCloseCursor_def\<close>)
qed

end

text \<open>Creating the two tables of a table that has none: on success they are empty, and all other tables are as before.\<close>

context trans_db
begin

lemma begin_for_create:
  assumes "(if \<not> dWriting db t then sqlite3TransBtreeBeginTrans (dBegin db) H junk n (Some t) S 2 else (SQLITE_OK, Some t, S)) = (SQLITE_OK, tB, S0)"
  obtains t1 where "tB = Some t1" "tabs t1 = tabs t" "dInTrans db t1"
proof (cases "dWriting db t")
  case True
  with assms writing [OF True] that show thesis by auto
next
  case False
  obtain rc t' where b: "dBegin db 2 t = (rc, t')" by fastforce
  have "rc = SQLITE_OK" "tB = Some t'" using assms False b by (auto simp: sqlite3TransBtreeBeginTrans_def split: if_splits prod.splits)
  with begin_ok [of 2 t t'] b that show thesis by simp
qed

lemma create_two:
  assumes c: "dCreateTable db flags t1 = (SQLITE_OK, ii, t2)" "dCreateTable db flags t2 = (SQLITE_OK, dd, t3)" and w: "dInTrans db t1"
  shows "0 < ii" "0 < dd" "ii \<noteq> dd" "tabs t1 (int ii) = None" "tabs t1 (int dd) = None" "dInTrans db t3"
    "tabs t3 = (tabs t1)(int ii \<mapsto> (flags = BTREE_BLOBKEY, Map.empty), int dd \<mapsto> (flags = BTREE_BLOBKEY, Map.empty))"
proof -
  have i: "0 < ii" "tabs t1 (int ii) = None" "tabs t2 = (tabs t1)(int ii \<mapsto> (flags = BTREE_BLOBKEY, Map.empty))" "dInTrans db t2"
    using create_ok [OF c(1) w] by blast+
  have d: "0 < dd" "tabs t2 (int dd) = None" "tabs t3 = (tabs t2)(int dd \<mapsto> (flags = BTREE_BLOBKEY, Map.empty))" "dInTrans db t3"
    using create_ok [OF c(2) i(4)] by blast+
  show "0 < ii" "0 < dd" "tabs t1 (int ii) = None" "dInTrans db t3" by (rule i d)+
  show "ii \<noteq> dd" "tabs t1 (int dd) = None" using d(2) unfolding i(3) by (auto split: if_splits)
  show "tabs t3 = (tabs t1)(int ii \<mapsto> (flags = BTREE_BLOBKEY, Map.empty), int dd \<mapsto> (flags = BTREE_BLOBKEY, Map.empty))"
    unfolding d(3) i(3) by (rule refl)
qed

text \<open>What a successful creation leaves: the entry \<open>d\<close> with two empty tables, new in the transaction btree.\<close>

definition created :: "'b Conn \<Rightarrow> 'b \<Rightarrow> addr list \<Rightarrow> int \<Rightarrow> addr \<Rightarrow> TransRootPage \<Rightarrow> 'b Conn \<Rightarrow> 'b \<Rightarrow> addr list \<Rightarrow> bool" where
  "created K t as i keyInfo d K' t' as' \<longleftrightarrow> mappingOk K' t' as' \<and> entryOk K' t' i d \<and> dInTrans db t' \<and> cShared K' = cShared K \<and> cSchema K' = cSchema K \<and>
     d = newPage (pageOf (cWorld K) as i) (iIns d) (iDel d) keyInfo \<and>
     tabs t (int (iIns d)) = None \<and> tabs t (int (iDel d)) = None \<and>
     tabs t' = (tabs t)(int (iIns d) \<mapsto> (keyInfo \<noteq> 0, Map.empty), int (iDel d) \<mapsto> (keyInfo \<noteq> 0, Map.empty)) \<and>
     pageOf (cWorld K') as' = (pageOf (cWorld K) as)(i \<mapsto> d)"

lemma created_conn:
  assumes ok: "mappingOk K t as" and i: "1 < i" "tabs (cShared K) i = Some (keyInfo \<noteq> 0, R)"
    and K': "cTrans K' = Some t'" "cShared K' = cShared K" "cSchema K' = cSchema K" "rootsOk (cWorld K') as'" "pageOf (cWorld K') as' = (pageOf (cWorld K) as)(i \<mapsto> d)"
    and d: "iIns d \<noteq> 0" "iDel d \<noteq> 0" "iIns d \<noteq> iDel d" "d = newPage (pageOf (cWorld K) as i) (iIns d) (iDel d) keyInfo" "tabs t (int (iIns d)) = None" "tabs t (int (iDel d)) = None"
    and t': "tabs t' = (tabs t)(int (iIns d) \<mapsto> (keyInfo \<noteq> 0, Map.empty), int (iDel d) \<mapsto> (keyInfo \<noteq> 0, Map.empty))" "dInTrans db t'"
  shows "created K t as i keyInfo d K' t' as'"
proof -
  have ki: "pKeyInfo d = keyInfo" using d(4) unfolding newPage_def by (metis TransRootPage.select_convs(4) TransRootPage.surjective TransRootPage.update_convs(4))
  have old: "entryOk K t j e \<or> clearedOnly e" if "pageOf (cWorld K) as j = Some e" for j e using ok that unfolding mappingOk_def by blast
  have dis: "{iIns e, iDel e} \<inter> {iIns e', iDel e'} = {}"
    if "pageOf (cWorld K) as j = Some e" "pageOf (cWorld K) as k = Some e'" "j \<noteq> k" "iIns e \<noteq> 0" "iIns e' \<noteq> 0" for j k e e'
    using ok that unfolding mappingOk_def by blast
  have new: "iIns e \<noteq> iIns d" "iIns e \<noteq> iDel d" "iDel e \<noteq> iIns d" "iDel e \<noteq> iDel d" if "pageOf (cWorld K) as j = Some e" for j e
    using old [OF that] d unfolding entryOk_def clearedOnly_def by auto
  have here: "entryOk K' t' i d" using d(1-3) i t'(1) by (simp add: K' entryOk_def ki)
  have "entryOk K' t' j e \<or> clearedOnly e" if "pageOf (cWorld K') as' j = Some e" for j e
  proof (cases "j = i")
    case True
    then show ?thesis using that here by (simp add: K'(5))
  next
    case False
    then have e: "pageOf (cWorld K) as j = Some e" using that by (simp add: K'(5))
    show ?thesis using old [OF e] new [OF e] unfolding entryOk_def K'(2) t'(1) by auto
  qed
  moreover have "{iIns e, iDel e} \<inter> {iIns e', iDel e'} = {}"
    if "pageOf (cWorld K') as' j = Some e" "pageOf (cWorld K') as' k = Some e'" "j \<noteq> k" "iIns e \<noteq> 0" "iIns e' \<noteq> 0" for j k e e'
    using that dis [of j e k e'] new [of j e] new [of k e'] unfolding K'(5) by (auto split: if_splits)
  ultimately have "mappingOk K' t' as'" using K' unfolding mappingOk_def by blast
  then show ?thesis using K' d t' here by (simp add: created_def)
qed

end


context trans_db
begin

lemma create_table:
  assumes ok: "mappingOk K t as" "length as + 1 < 2 ^ 30" and i: "1 < i" "tabs (cShared K) i = Some (keyInfo \<noteq> 0, R)" and none: "lacksTables (pageOf (cWorld K) as i)"
    and fresh: "freshTab (cWorld K) A" and room: "psmRoom xc (psmArea (cWorld K))"
  obtains rc q K' where "sqlite3TransBtreeCreateTable db A K i keyInfo = Some (rc, q, K')" "cShared K' = cShared K"
    "mappingKept (cWorld K) as i keyInfo (cWorld K')"
    "rc = SQLITE_OK \<Longrightarrow> \<exists>d t' as'. created K t as i keyInfo d K' t' as' \<and> rootData (cWorld K') q = Some d"
proof -
  define flags where "flags = (if keyInfo \<noteq> 0 then BTREE_BLOBKEY else BTREE_INTKEY)"
  have fl: "(flags = BTREE_BLOBKEY) = (keyInfo \<noteq> 0)" by (simp add: flags_def)
  have t: "cTrans K = Some t" and ro: "rootsOk (cWorld K) as" using ok(1) by (simp_all add: mappingOk_def)
  note kept = mappingKept_refl [OF ro]
  obtain rc0 tB S0 where b: "(if \<not> dWriting db t then sqlite3TransBtreeBeginTrans (dBegin db) (tHist A) (tSpJunk A) (nOpenSp K) (Some t) (cSave K) 2
      else (SQLITE_OK, Some t, cSave K)) = (rc0, tB, S0)" by (rule prod_cases3)
  note D = sqlite3TransBtreeCreateTable_def [of db A K i keyInfo, folded flags_def] t b
  show thesis
  proof (cases "rc0 = SQLITE_OK")
    case False
    then show thesis by (intro that [of rc0 0 "K\<lparr>cTrans := tB, cSave := S0\<rparr>"]) (simp_all add: D kept)
  next
    case True
    obtain t1 where t1: "tB = Some t1" "tabs t1 = tabs t" "dInTrans db t1" by (rule begin_for_create [OF b [unfolded True]])
    obtain rc1 ii t2 where c1: "dCreateTable db flags t1 = (rc1, ii, t2)" by (rule prod_cases3)
    obtain rc2 dd t3 where c2: "dCreateTable db flags t2 = (rc2, dd, t3)" by (rule prod_cases3)
    have i0: "0 \<le> i" using i(1) by simp
    obtain rc3 q S' W' as' where r: "registerTable A (cSchema K) S0 (cWorld K) i ii dd keyInfo = Some (rc3, q, S', W')" "rootsOk W' as'"
      "rc3 = SQLITE_OK \<Longrightarrow> q \<noteq> 0" "q \<noteq> 0 \<Longrightarrow> rootData W' q = pageOf W' as' i"
      "pageOf W' as' = (if q = 0 then pageOf (cWorld K) as else (pageOf (cWorld K) as)(i \<mapsto> newPage (pageOf (cWorld K) as i) ii dd keyInfo))"
      by (rule register_ok [OF ro ok(2) i0 fresh room, where sch = "cSchema K" and S = S0 and ii = ii and dd = dd and ki = keyInfo]) (rule that)
    have kept': "mappingKept (cWorld K) as i keyInfo W'" unfolding mappingKept_def using r(2,5) none by (intro exI [of _ as']) (auto split: if_splits)
    let ?K = "K\<lparr>cTrans := Some t1, cSave := S0\<rparr>" and ?K3 = "K\<lparr>cTrans := Some t3, cSave := S', cWorld := W'\<rparr>"
    consider "rc1 \<noteq> SQLITE_OK" | "rc1 = SQLITE_OK" "rc2 \<noteq> SQLITE_OK" | "rc1 = SQLITE_OK" "rc2 = SQLITE_OK" "rc3 \<noteq> SQLITE_OK"
      | "rc1 = SQLITE_OK" "rc2 = SQLITE_OK" "rc3 = SQLITE_OK" by blast
    then show thesis
    proof cases
      case 1
      then show thesis by (intro that [of rc1 0 "?K\<lparr>cTrans := Some t2\<rparr>"]) (simp_all add: D True t1(1) c1 kept)
    next
      case 2
      then show thesis by (intro that [of rc2 0 "?K\<lparr>cTrans := Some (createTableFailed db ii 0 t3)\<rparr>"]) (simp_all add: D True t1(1) c1 c2 kept)
    next
      case 3
      then show thesis
        by (intro that [of rc3 0 "?K3\<lparr>cTrans := Some (createTableFailed db ii dd t3)\<rparr>"]) (simp_all add: D True t1(1) c1 c2 r(1) kept')
    next
      case 4
      let ?d = "newPage (pageOf (cWorld K) as i) ii dd keyInfo"
      have d: "iIns ?d = ii" "iDel ?d = dd" "pKeyInfo ?d = keyInfo" by (simp_all add: newPage_def)
      note two = create_two [OF c1 [unfolded 4(1)] c2 [unfolded 4(2)] t1(3)]
      have pg: "pageOf W' as' = (pageOf (cWorld K) as)(i \<mapsto> ?d)" using r(3,5) 4(3) by simp
      have "created K t as i keyInfo ?d ?K3 t3 as'"
        by (rule created_conn [OF ok(1) i]) (use two fl r(2) pg d t1(2) in simp_all)
      moreover have "rootData W' q = Some ?d" using r(3,4) 4(3) pg by simp
      ultimately show thesis by (intro that [of SQLITE_OK q ?K3]) (use 4 in \<open>simp_all add: D True t1(1) c1 c2 r(1) kept'\<close>, blast)
    qed
  qed
qed

end


text \<open>Opening a cursor of the transaction on any table but the schema of a shared database: the table's entry, which is created if needed.\<close>

context trans_db
begin

definition cursorDone :: "'b Conn \<Rightarrow> 'b \<Rightarrow> addr list \<Rightarrow> int \<Rightarrow> nat \<Rightarrow> addr \<Rightarrow> ('k \<rightharpoonup> 'v) \<Rightarrow> 'c OpenCursor \<Rightarrow> 'b Conn \<Rightarrow> bool" where
  "cursorDone K t as i wr keyInfo R X K' \<longleftrightarrow>
     lacksTables (pageOf (cWorld K) as i) \<and> wr = 0 \<and> \<not> dInTrans db t \<and> K' = K \<and> mergedCursor X = None \<and> tab (ocCur X) = R \<or>
     (\<exists>d C t' as'. mergedCursor X = Some C \<and> transBtreeCursorIsUsed C \<and> mappingOk K' t' as' \<and> entryOk K' t' i d \<and>
        pageOf (cWorld K') as' = (pageOf (cWorld K) as)(i \<mapsto> d) \<and>
        (if lacksTables (pageOf (cWorld K) as i)
         then d = newPage (pageOf (cWorld K) as i) (iIns d) (iDel d) keyInfo \<and> tabs t (int (iIns d)) = None \<and> tabs t (int (iDel d)) = None \<and>
           tabs t' = (tabs t)(int (iIns d) \<mapsto> (keyInfo \<noteq> 0, Map.empty), int (iDel d) \<mapsto> (keyInfo \<noteq> 0, Map.empty))
         else pageOf (cWorld K) as i = Some d \<and> tabs t' = tabs t) \<and>
        tab (pCur C) = R \<and> tab (pCurIns C) = recs t' (int (iIns d)) \<and> tab (pCurDel C) = recs t' (int (iDel d)))"

lemma cursorDone_old:
  "mappingOk K t as \<Longrightarrow> entryOk K t i d \<Longrightarrow> pageOf (cWorld K) as i = Some d \<Longrightarrow> opened (cShared K) t i d X C \<Longrightarrow> cursorDone K t as i wr keyInfo (recs (cShared K) i) X K"
  unfolding opened_def cursorDone_def by (intro disjI2 exI [of _ d] exI [of _ C] exI [of _ t] exI [of _ as]) (auto simp: map_upd_triv lacksTables_def entryOk_def)

lemma cursorDone_new:
  "lacksTables (pageOf (cWorld K) as i) \<Longrightarrow> created K t as i keyInfo d K' t' as' \<Longrightarrow> opened (cShared K) t' i d X C \<Longrightarrow>
   cursorDone K t as i wr keyInfo (recs (cShared K) i) X K'"
  unfolding opened_def created_def cursorDone_def by (intro disjI2 exI [of _ d] exI [of _ C] exI [of _ t'] exI [of _ as']) auto

lemma trans_cursor:
  assumes ok: "mappingOk K t as" "length as + 1 < 2 ^ 30" and i: "1 < i" "tabs (cShared K) i = Some (keyInfo \<noteq> 0, R)"
    and entry: "\<And>d. pageOf (cWorld K) as i = Some d \<Longrightarrow> iIns d \<noteq> 0 \<Longrightarrow> pKeyInfo d = keyInfo \<and> dInTrans db t"
    and fresh: "freshTab (cWorld K) A" and room: "psmRoom xc (psmArea (cWorld K))"
    and c: "good (keyInfo \<noteq> 0) c" "tab c = R"
  obtains rc X K' where "transBtreeCursor db A K i wr keyInfo (sharedOnly i c keyInfo) = Some (rc, X, K')" "cShared K' = cShared K" "mappingKept (cWorld K) as i keyInfo (cWorld K')"
    "rc = SQLITE_OK \<Longrightarrow> cursorDone K t as i wr keyInfo R X K'"
proof -
  let ?W = "cWorld K" and ?Y = "sharedOnly i c keyInfo"
  have t: "cTrans K = Some t" and ro: "rootsOk ?W as" using ok(1) by (simp_all add: mappingOk_def)
  have R: "tab c = recs (cShared K) i" using c(2) i(2) by (simp add: recs_def)
  have inv: "i64_inv (rootPages ?W) (rootHeap ?W) as" using ro by (simp add: rootsOk_def)
  let ?p = "contents (=) (rootHeap ?W) as i"
  have f: "sqlite3HashI64Find (rootPages ?W) (rootHeap ?W) i = Some ?p"
    using i64.hashFind_ok [OF inv, of i] i(1) by (simp add: sqlite3HashI64Find_def i64Key_def)
  have dat: "?p \<noteq> 0 \<Longrightarrow> rootData ?W ?p \<noteq> None" using ro unfolding rootsOk_def by blast
  obtain p d where p: "sqlite3HashI64Find (rootPages ?W) (rootHeap ?W) i = Some p" "(if p = 0 then Some zeroRootPage else rootData ?W p) = Some d"
    "pageOf ?W as i = (if p = 0 then None else Some d)"
    using f dat by (cases "?p = 0") (auto simp: pageOf_def)
  show thesis
  proof (cases "p \<noteq> 0 \<and> iIns d \<noteq> 0")
    case True
    then have Some: "pageOf ?W as i = Some d" "iIns d \<noteq> 0" using p(3) by simp_all
    have "entryOk K t i d \<or> clearedOnly d" using ok(1) Some(1) unfolding mappingOk_def by blast
    then have e: "entryOk K t i d" using Some(2) by (simp add: clearedOnly_def)
    have ki: "pKeyInfo d = keyInfo" "dInTrans db t" using entry [OF Some] by blast+
    obtain I D where tb: "tabs t (int (iIns d)) = Some (pKeyInfo d \<noteq> 0, I)" "tabs t (int (iDel d)) = Some (pKeyInfo d \<noteq> 0, D)"
      using e unfolding entryOk_def by blast
    obtain rc X where o: "openTransCursors db A K wr (pKeyInfo d) (iIns d) (iDel d) (sharedOnly i c (pKeyInfo d)) = Some (rc, X, K)"
      "rc = SQLITE_OK \<Longrightarrow> \<exists>C. opened (cShared K) t i d X C"
      by (rule open_any [OF t disjI2 [OF ki(2)] tb(1,2) c(1) [folded ki(1)] R, where A = A and wr = wr]) (rule that)
    have "transBtreeCursor db A K i wr keyInfo ?Y = Some (rc, X, K)"
      using o(1) i(1) t p True ki(1) by (simp add: transBtreeCursor_def split: if_splits)
    then show thesis
      using o(2) cursorDone_old [OF ok(1) e Some(1), folded R, unfolded c(2)] mappingKept_refl [OF ro] by (intro that [of rc X K]) auto
  next
    case None': False
    then have None: "lacksTables (pageOf ?W as i)" using p(3) by (auto simp: lacksTables_def)
    show thesis
    proof (cases "\<not> dInTrans db t \<and> wr = 0")
      case True
      then show thesis
        by (intro that [of SQLITE_OK "?Y\<lparr>ocTrans := None, ocState := CURSOR_NOT_USE\<rparr>" K])
          (use i(1) t p(1,2) None None' c(2) mappingKept_refl [OF ro] in \<open>auto simp: transBtreeCursor_def mergedCursor_def sharedOnly_def cursorDone_def\<close>)
    next
      case False
      obtain rc q K' where cr: "sqlite3TransBtreeCreateTable db A K i keyInfo = Some (rc, q, K')" "cShared K' = cShared K" "mappingKept ?W as i keyInfo (cWorld K')"
        "rc = SQLITE_OK \<Longrightarrow> \<exists>d t' as'. created K t as i keyInfo d K' t' as' \<and> rootData (cWorld K') q = Some d"
        by (rule create_table [OF ok i None fresh room]) (rule that)
      have D: "transBtreeCursor db A K i wr keyInfo ?Y = (if rc \<noteq> SQLITE_OK then Some (rc, ?Y, K')
          else Option.bind (rootData (cWorld K') q) (\<lambda>d'. openTransCursors db A K' wr keyInfo (iIns d') (iDel d') ?Y))"
        using i(1) t p(1,2) None' False cr(1) by (auto simp: transBtreeCursor_def)
      show thesis
      proof (cases "rc = SQLITE_OK")
        case False
        then show thesis by (intro that [of rc ?Y K']) (use cr(2,3) in \<open>simp_all add: D\<close>)
      next
        case True
        then obtain d t' as' where d: "created K t as i keyInfo d K' t' as'" "rootData (cWorld K') q = Some d" using cr(4) by blast
        have d': "cTrans K' = Some t'" "dInTrans db t'" "pKeyInfo d = keyInfo" "entryOk K' t' i d"
          using d(1) unfolding created_def mappingOk_def newPage_def by (auto simp: entryOk_def) (metis TransRootPage.select_convs(4) TransRootPage.surjective TransRootPage.update_convs(4))
        obtain I D where tb: "tabs t' (int (iIns d)) = Some (pKeyInfo d \<noteq> 0, I)" "tabs t' (int (iDel d)) = Some (pKeyInfo d \<noteq> 0, D)"
          using d'(4) unfolding entryOk_def by blast
        obtain rc' X where o: "openTransCursors db A K' wr (pKeyInfo d) (iIns d) (iDel d) (sharedOnly i c (pKeyInfo d)) = Some (rc', X, K')"
          "rc' = SQLITE_OK \<Longrightarrow> \<exists>C. opened (cShared K) t' i d X C"
          by (rule open_any [OF d'(1) disjI2 [OF d'(2)] tb c(1) [folded d'(3)] R, where A = A and wr = wr]) (rule that)
        have "transBtreeCursor db A K i wr keyInfo ?Y = Some (rc', X, K')" using o(1) True d(2) d'(3) by (simp add: D)
        then show thesis using cr(2,3) o(2) cursorDone_new [OF None d(1), folded R, unfolded c(2)] by (intro that) blast+
      qed
    qed
  qed
qed

end

text \<open>The whole entry point: the cursor on the shared table is read-only, and closed again where the others cannot be opened.\<close>

context trans_db
begin

lemma cursor_any:
  assumes ok: "mappingOk K t as" "length as + 1 < 2 ^ 30" and i: "1 < i" "tabs (cShared K) i = Some (keyInfo \<noteq> 0, R)" and sh: "dSharable db (cShared K)"
    and entry: "\<And>d. pageOf (cWorld K) as i = Some d \<Longrightarrow> iIns d \<noteq> 0 \<Longrightarrow> pKeyInfo d = keyInfo \<and> dInTrans db t"
    and fresh: "freshTab (cWorld K) A" and room: "psmRoom xc (psmArea (cWorld K))"
  shows "\<exists>rc X' K'. sqlite3BtreeCursorAll db A K i wr keyInfo ROW_LOCK_CURSOR_IN_TRANS = Some (rc, X', K') \<and> tabs (cShared K') = tabs (cShared K) \<and>
    (rc \<noteq> SQLITE_OK \<longrightarrow> X' = None \<and> mappingKept (cWorld K) as i keyInfo (cWorld K')) \<and>
    (rc = SQLITE_OK \<longrightarrow> (\<exists>X. X' = Some X \<and> cursorDone K t as i wr keyInfo R X K'))"
proof -
  obtain c where c: "dCursor db i 0 keyInfo (cShared K) = Inr c" "good (keyInfo \<noteq> 0) c" "tab c = R" using cursor_ok [OF i(2), of 0] by blast
  obtain rc X K' where r: "transBtreeCursor db A K i wr keyInfo (sharedOnly i c keyInfo) = Some (rc, X, K')" "cShared K' = cShared K" "mappingKept (cWorld K) as i keyInfo (cWorld K')"
    "rc = SQLITE_OK \<Longrightarrow> cursorDone K t as i wr keyInfo R X K'"
    by (rule trans_cursor [OF ok i entry fresh room c(2,3), where wr = wr]) (assumption, assumption, rule that)
  have D: "sqlite3BtreeCursorAll db A K i wr keyInfo ROW_LOCK_CURSOR_IN_TRANS =
      (if rc \<noteq> SQLITE_OK then Some (rc, None, K'\<lparr>cShared := dCloseCursor db i c (cShared K)\<rparr>) else Some (SQLITE_OK, Some X, K'))"
    using i(1) sh c(1) r(1,2) by (simp add: sqlite3BtreeCursorAll_def)
  have "tabs (dCloseCursor db i c (cShared K)) = tabs (cShared K)" using close_ok [OF c(2)] c(3) i(2) by (simp add: map_upd_triv)
  then show ?thesis using r(2-4) unfolding D by auto
qed

end

section \<open>An instance\<close>

text \<open>
  A database as a list of tables, with rowids or of indexes, and cursors on them as in \<open>Trans_Btree\<close>.
\<close>

record MapDb =
  mdTabs :: "(int \<times> bool \<times> (i64 \<times> blob) list) list"
  mdWrite :: bool

definition mdFresh :: "MapDb \<Rightarrow> nat" where
  "mdFresh b = nat (fold max (map fst (mdTabs b)) 1) + 1"

definition mdCursor :: "bool \<times> (i64 \<times> blob) list \<Rightarrow> TabCur" where
  "mdCursor x = \<lparr>tcIdx = fst x, tcRows = snd x, tcAt = 0\<rparr>"

definition mdGood :: "bool \<Rightarrow> TabCur \<Rightarrow> bool" where
  "mdGood x c \<longleftrightarrow> (if x then tcGoodIdx c else tcGood c)"

definition mapTabs :: "MapDb \<Rightarrow> int \<Rightarrow> (bool \<times> (i64 \<rightharpoonup> blob)) option" where
  "mapTabs b i = (case map_of (mdTabs b) i of None \<Rightarrow> None | Some x \<Rightarrow> if mdGood (fst x) (mdCursor x) then Some (fst x, map_of (snd x)) else None)"

definition mapDb :: "(MapDb, TabCur) DbOps" where
  "mapDb = \<lparr>dBegin = (\<lambda>w b. (SQLITE_OK, if w \<noteq> 0 then b\<lparr>mdWrite := True\<rparr> else b)), dInTrans = mdWrite, dWriting = mdWrite,
     dReadOnly = (\<lambda>b. False), dSharable = (\<lambda>b. True),
     dCreateTable = (\<lambda>flags b. (SQLITE_OK, mdFresh b, b\<lparr>mdTabs := (int (mdFresh b), flags = BTREE_BLOBKEY, []) # mdTabs b, mdWrite := True\<rparr>)),
     dDropTable = (\<lambda>i b. (SQLITE_OK, b\<lparr>mdTabs := AList.delete i (mdTabs b)\<rparr>)),
     dCursor = (\<lambda>i wr k b. case map_of (mdTabs b) i of
         Some x \<Rightarrow> if fst x = (k \<noteq> 0) \<and> mdGood (fst x) (mdCursor x) \<and> (wr = 0 \<or> mdWrite b) then Inr (mdCursor x) else Inl SQLITE_CORRUPT
       | None \<Rightarrow> Inl SQLITE_CORRUPT),
     dCloseCursor = (\<lambda>i c b. b\<lparr>mdTabs := AList.update i (tcIdx c, tcRows c) (mdTabs b)\<rparr>),
     dLockTable = (\<lambda>i b. SQLITE_OK), dRollback = (\<lambda>b. \<lparr>mdTabs = [], mdWrite = False\<rparr>), dCacheReset = (\<lambda>b. (SQLITE_OK, b))\<rparr>"

lemma fold_max_ge: "x \<in> set xs \<or> x \<le> a \<Longrightarrow> x \<le> fold max xs (a :: int)"
  by (induction xs arbitrary: a) (auto simp: max_def split: if_splits)

lemma mdFresh_new: "map_of (mdTabs b) (int (mdFresh b)) = None"
proof -
  let ?m = "fold max (map fst (mdTabs b)) 1"
  have "1 \<le> ?m" by (rule fold_max_ge) simp
  then have m: "int (mdFresh b) = ?m + 1" by (simp add: mdFresh_def)
  have "?m + 1 \<notin> set (map fst (mdTabs b))" using fold_max_ge [of "?m + 1" "map fst (mdTabs b)" 1] by linarith
  then show ?thesis by (simp add: m map_of_eq_None_iff)
qed

lemma mdGood_rows: "mdGood x c \<Longrightarrow> tcIdx c = x \<and> mdGood x (mdCursor (x, tcRows c))"
  by (auto simp: mdGood_def mdCursor_def tcGood_def tcGoodIdx_def split: if_splits)

lemma mdGood_empty: "mdGood x (mdCursor (x, []))"
  by (simp add: mdGood_def mdCursor_def tcGood_def tcGoodIdx_def)

interpretation md: trans_db mapDb tabOps mdGood tcTab tcKey tcTodo
  "\<lambda>x p n. if x then keyColumn (packed p) else n" "\<lambda>x X. if x then packed (pKeyX X) else pDataX X" mapTabs
proof (rule trans_db.intro)
  fix isIdx
  show "table_edit tabOps isIdx (mdGood isIdx) tcTab tcKey tcTodo (\<lambda>p n. if isIdx then keyColumn (packed p) else n)
      (\<lambda>X. if isIdx then packed (pKeyX X) else pDataX X)"
    using tc.table_edit_axioms ti.table_edit_axioms by (cases isIdx) (simp_all add: mdGood_def [abs_def])
next
  fix b i and keyInfo :: addr and R and wr :: nat assume "mapTabs b i = Some (keyInfo \<noteq> 0, R)" "wr = 0 \<or> dInTrans mapDb b"
  then show "\<exists>c. dCursor mapDb i wr keyInfo b = Inr c \<and> mdGood (keyInfo \<noteq> 0) c \<and> tcTab c = R"
    by (auto simp: mapDb_def mapTabs_def mdCursor_def tcTab_def split: option.splits if_splits)
next
  fix isIdx :: bool and c i b assume "mdGood isIdx c"
  from mdGood_rows [OF this] show "mapTabs (dCloseCursor mapDb i c b) = (mapTabs b)(i \<mapsto> (isIdx, tcTab c)) \<and>
      dInTrans mapDb (dCloseCursor mapDb i c b) = dInTrans mapDb b \<and> dWriting mapDb (dCloseCursor mapDb i c b) = dWriting mapDb b"
    by (auto simp: mapDb_def mapTabs_def tcTab_def update_conv fun_eq_iff)
next
  fix flags :: nat and b n b' assume "dCreateTable mapDb flags b = (SQLITE_OK, n, b')"
  then show "0 < n \<and> mapTabs b (int n) = None \<and> mapTabs b' = (mapTabs b)(int n \<mapsto> (flags = BTREE_BLOBKEY, Map.empty)) \<and> dInTrans mapDb b' \<and> dWriting mapDb b'"
    using mdFresh_new [of b] mdGood_empty by (auto simp: mapDb_def mapTabs_def fun_eq_iff mdFresh_def)
qed (auto simp: mapDb_def mapTabs_def fun_eq_iff split: if_splits)

definition demoTabAlloc :: TabAlloc where
  "demoTabAlloc = \<lparr>tHist = demoAlloc, tSpJunk = (\<lambda>n. zeroEntry), tRoot = 0, tRootElem = 0, tRootHt = True, tPsmNew = 0, tPsmElem = 0, tPsmHt = True,
     tInsOk = True, tDelOk = True\<rparr>"


section \<open>Properties\<close>

text \<open>
  C7. \<open>sqlite3BtreeCursorAll\<close> on a table of a shared database, other than the schema, returns, and leaves the shared tables as they
  are. With \<open>SQLITE_OK\<close> either the table has no tables in the transaction, the transaction has not begun and the cursor is read-only: then it is on the shared
  table alone and nothing is changed; or the cursor is the merged one on the shared table and on the two
  tables of its entry. Where it had an entry with tables these are the entry's, and no table changes; where it had no entry, or one that only
  says that all records are deleted, the two tables are new and empty, the mark for the deletion stays, and all other entries and tables of the transaction are as
  before. On success the mapping is well-formed again. On an error there is no cursor, and the mapping has at most the entry of this table renewed;
  the tables it names may be gone (see the findings).
\<close>

theorem CursorAll_opens:
  assumes laws: "trans_db db ops good tab at todo kcol recv tabs" and ok: "trans_db.mappingOk tabs K t as" "length as + 1 < 2 ^ 30"
    and i: "1 < i" "tabs (cShared K) i = Some (keyInfo \<noteq> 0, R)" and sh: "dSharable db (cShared K)"
    and entry: "\<forall>d. pageOf (cWorld K) as i = Some d \<longrightarrow> iIns d \<noteq> 0 \<longrightarrow> pKeyInfo d = keyInfo \<and> dInTrans db t"
    and fresh: "freshTab (cWorld K) A" and room: "psmRoom xc (psmArea (cWorld K))"
  shows "\<exists>rc X' K'. sqlite3BtreeCursorAll db A K i wr keyInfo ROW_LOCK_CURSOR_IN_TRANS = Some (rc, X', K') \<and> tabs (cShared K') = tabs (cShared K) \<and>
    (rc \<noteq> SQLITE_OK \<longrightarrow> X' = None \<and> (\<exists>as'. rootsOk (cWorld K') as' \<and>
      (pageOf (cWorld K') as' = pageOf (cWorld K) as \<or>
       lacksTables (pageOf (cWorld K) as i) \<and> (\<exists>ii dd. pageOf (cWorld K') as' = (pageOf (cWorld K) as)(i \<mapsto> newPage (pageOf (cWorld K) as i) ii dd keyInfo))))) \<and>
    (rc = SQLITE_OK \<longrightarrow> (\<exists>X. X' = Some X \<and>
      (lacksTables (pageOf (cWorld K) as i) \<and> wr = 0 \<and> \<not> dInTrans db t \<and> K' = K \<and> mergedCursor X = None \<and> tab (ocCur X) = R \<or>
       (\<exists>d C t' as'. mergedCursor X = Some C \<and> transBtreeCursorIsUsed C \<and> trans_db.mappingOk tabs K' t' as' \<and> trans_db.entryOk tabs K' t' i d \<and>
          pageOf (cWorld K') as' = (pageOf (cWorld K) as)(i \<mapsto> d) \<and>
          (if lacksTables (pageOf (cWorld K) as i)
           then d = newPage (pageOf (cWorld K) as i) (iIns d) (iDel d) keyInfo \<and> tabs t (int (iIns d)) = None \<and> tabs t (int (iDel d)) = None \<and>
             tabs t' = (tabs t)(int (iIns d) \<mapsto> (keyInfo \<noteq> 0, Map.empty), int (iDel d) \<mapsto> (keyInfo \<noteq> 0, Map.empty))
           else pageOf (cWorld K) as i = Some d \<and> tabs t' = tabs t) \<and>
          tab (pCur C) = R \<and> tab (pCurIns C) = trans_db.recs tabs t' (int (iIns d)) \<and> tab (pCurDel C) = trans_db.recs tabs t' (int (iDel d))))))"
  using trans_db.cursor_any [OF laws ok i sh entry [rule_format] fresh room, of wr] unfolding trans_db.cursorDone_def [OF laws] mappingKept_def by blast

text \<open>A write cursor on table 5, all of whose records the transaction has deleted.\<close>

definition clearedConn :: "HashTab \<Rightarrow> int heap \<Rightarrow> MapDb Conn" where
  "clearedConn T H = \<lparr>cShared = \<lparr>mdTabs = [(5, False, [(1, [10])])], mdWrite = False\<rparr>, cTrans = Some \<lparr>mdTabs = [], mdWrite = True\<rparr>,
     cSave = zeroSavepoint, cWorld = demoWorld\<lparr>rootPages := T, rootHeap := H, rootData := [7 \<mapsto> \<lparr>iIns = 0, iDel = 0, deleteAll = 1, pKeyInfo = 0\<rparr>]\<rparr>,
     cSchema = \<lparr>idxHash = [], seqTab = None, tblHash = []\<rparr>, nOpenSp = 0\<rparr>"

theorem CursorAll_opens_witness:
  "\<exists>T H rc X' K'. sqlite3BtreeCursorAll mapDb demoTabAlloc (clearedConn T H) 5 1 0 ROW_LOCK_CURSOR_IN_TRANS = Some (rc, X', K') \<and>
     (rc = SQLITE_OK \<longrightarrow> (\<exists>X C as' d. X' = Some X \<and> mergedCursor X = Some C \<and> tcTab (pCur C) = [1 \<mapsto> [10]] \<and>
        tcTab (pCurIns C) = Map.empty \<and> tcTab (pCurDel C) = Map.empty \<and> pageOf (cWorld K') as' 5 = Some d \<and> deleteAll d = 1 \<and> iIns d \<noteq> 0))"
proof -
  obtain T H as where r: "i64_inv T H as" "contents (=) H as = (\<lambda>k'. if 5 = k' then 7 else 0)" "length as = 1" by (rule one_root)
  let ?K = "clearedConn T H" and ?t = "\<lparr>mdTabs = [], mdWrite = True\<rparr>" and ?d = "\<lparr>iIns = 0, iDel = 0, deleteAll = 1, pKeyInfo = 0\<rparr>"
  have pg: "pageOf (cWorld ?K) as = [5 \<mapsto> ?d]" using r(2) by (auto simp: pageOf_def clearedConn_def fun_eq_iff)
  have ro: "rootsOk (cWorld ?K) as" using r by (auto simp: rootsOk_def clearedConn_def split: if_splits)
  have ok: "md.mappingOk ?K ?t as" using ro by (simp add: md.mappingOk_def pg clearedOnly_def) (simp add: clearedConn_def)
  define R :: "i64 \<rightharpoonup> blob" where "R = [1 \<mapsto> [10]]"
  have tb: "mapTabs (cShared ?K) 5 = Some (0 \<noteq> (0 :: addr), R)" by (simp add: mapTabs_def clearedConn_def R_def mdGood_def mdCursor_def tcGood_def)
  have fresh: "freshTab (cWorld ?K) demoTabAlloc" by (simp add: freshTab_def freshRoot_def clearedConn_def demoWorld_def demoTabAlloc_def)
  have room: "psmRoom blobComparator (psmArea (cWorld ?K))"
    using demoWorld_inv compareOk_blobComparator by (simp add: psmRoom_def clearedConn_def demoWorld_def psmEmpty_def hashInit_def)
  have sh: "dSharable mapDb (cShared ?K)" by (simp add: mapDb_def)
  have p: "length as + 1 < 2 ^ 30" "(1 :: int) < 5" using r(3) by simp_all
  have entry: "\<forall>d. pageOf (cWorld ?K) as 5 = Some d \<longrightarrow> iIns d \<noteq> 0 \<longrightarrow> pKeyInfo d = 0 \<and> dInTrans mapDb ?t" by (simp add: pg)
  have none: "lacksTables (pageOf (cWorld ?K) as 5)" "dInTrans mapDb ?t" by (simp_all add: pg lacksTables_def mapDb_def)
  from CursorAll_opens [where wr = 1, OF md.trans_db_axioms ok p tb sh entry fresh room] none
  obtain rc X' K' where c: "sqlite3BtreeCursorAll mapDb demoTabAlloc ?K 5 1 0 ROW_LOCK_CURSOR_IN_TRANS = Some (rc, X', K')"
    and s: "rc = SQLITE_OK \<Longrightarrow> \<exists>X d C t' as'. X' = Some X \<and> mergedCursor X = Some C \<and> md.entryOk K' t' 5 d \<and>
      pageOf (cWorld K') as' = (pageOf (cWorld ?K) as)(5 \<mapsto> d) \<and> d = newPage (pageOf (cWorld ?K) as 5) (iIns d) (iDel d) 0 \<and>
      mapTabs t' = (mapTabs ?t)(int (iIns d) \<mapsto> (0 \<noteq> (0 :: addr), Map.empty), int (iDel d) \<mapsto> (0 \<noteq> (0 :: addr), Map.empty)) \<and>
      tcTab (pCur C) = R \<and> tcTab (pCurIns C) = md.recs t' (int (iIns d)) \<and> tcTab (pCurDel C) = md.recs t' (int (iDel d))"
    by (elim exE conjE) (simp only: if_True simp_thms, blast)
  have "\<exists>X C as' d. X' = Some X \<and> mergedCursor X = Some C \<and> tcTab (pCur C) = R \<and>
      tcTab (pCurIns C) = Map.empty \<and> tcTab (pCurDel C) = Map.empty \<and> pageOf (cWorld K') as' 5 = Some d \<and> deleteAll d = 1 \<and> iIns d \<noteq> 0" if "rc = SQLITE_OK"
  proof -
    from s [OF that] obtain X d C t' as' where f: "X' = Some X" "mergedCursor X = Some C" "md.entryOk K' t' 5 d"
      "pageOf (cWorld K') as' = (pageOf (cWorld ?K) as)(5 \<mapsto> d)" "d = newPage (pageOf (cWorld ?K) as 5) (iIns d) (iDel d) 0"
      "mapTabs t' = (mapTabs ?t)(int (iIns d) \<mapsto> (0 \<noteq> (0 :: addr), Map.empty), int (iDel d) \<mapsto> (0 \<noteq> (0 :: addr), Map.empty))"
      "tcTab (pCur C) = R" "tcTab (pCurIns C) = md.recs t' (int (iIns d))" "tcTab (pCurDel C) = md.recs t' (int (iDel d))" by (elim exE conjE) (rule that)
    have "deleteAll d = 1" by (subst f(5)) (simp add: newPage_def pg)
    moreover have "md.recs t' (int (iIns d)) = Map.empty" "md.recs t' (int (iDel d)) = Map.empty" "iIns d \<noteq> 0" using f(3,6) by (auto simp: md.recs_def md.entryOk_def)
    ultimately show ?thesis using f(1,2,4,7-9) by (intro exI [of _ X] exI [of _ C] exI [of _ as'] exI [of _ d]) simp
  qed
  with c show ?thesis unfolding R_def by blast
qed

end
