(* ===== verification/Page_Cache.thy ===== *)
theory Page_Cache
  imports Index_Record Trans_Tables
begin

text \<open>
  The checks of the page cache against the database file, which another connection may have written in the meantime
  (\<open>rowlock_pager.c\<close>, \<open>rowlockPagecount\<close> and \<open>rowlockBtreeCacheReset\<close> of \<open>rowlock.c\<close>), with the functions of SQLite's pager they call
  (\<open>pager.c\<close>, \<open>pcache.c\<close>).
\<close>

section \<open>The pager\<close>

text \<open>
  The fields of \<open>Pager\<close> that are used here. \<open>pcache\<close> are the pages in the cache, \<open>nRefSum\<close> the number of references to them;
  \<open>isOpen\<close> is \<open>fd->pMethods!=0\<close>, \<open>changeDone\<close> is \<open>changeCountDone\<close>.
\<close>

record Pager =
  memDb :: bool
  isOpen :: bool
  tempFile :: bool
  noLock :: bool
  useWal :: bool
  eLockP :: u8
  eStateP :: u8
  changeDone :: bool
  dbFileVers :: blob
  dbSize :: u32
  mxPgno :: u32
  pageSize :: u32
  iDataVersion :: u32
  nRefSum :: nat
  pcache :: "nat \<rightharpoonup> blob"

text \<open>
  The results of the operating system and of the write-ahead log: \<open>oRead\<close> is \<open>sqlite3OsRead\<close> with its amount and offset, \<open>oWal\<close> the frame
  of a page (\<open>sqlite3WalFindFrame\<close>, \<open>sqlite3WalReadFrame\<close>), where the log has one.
\<close>

record PagerOs =
  oRead :: "nat \<Rightarrow> nat \<Rightarrow> rc \<times> blob"
  oSize :: "rc \<times> nat"
  oWalSize :: u32
  oWal :: "nat \<Rightarrow> rc \<times> blob option"
  oBeginRead :: rc
  oLock :: "u8 \<Rightarrow> rc"
  oUnlock :: "u8 \<Rightarrow> rc"

abbreviation (input) "NO_LOCK \<equiv> (0 :: u8)"
abbreviation (input) "RESERVED_LOCK \<equiv> (2 :: u8)"
abbreviation (input) "EXCLUSIVE_LOCK \<equiv> (4 :: u8)"
abbreviation (input) "UNKNOWN_LOCK \<equiv> (5 :: u8)"
abbreviation (input) "PAGER_OPEN \<equiv> (0 :: u8)"
abbreviation (input) "BTREE_SCHEMA_VERSION \<equiv> (1 :: nat)"

definition sqlite3Get4byte :: "blob \<Rightarrow> u32" where
  "sqlite3Get4byte p = p ! 0 * 2 ^ 24 + p ! 1 * 2 ^ 16 + p ! 2 * 2 ^ 8 + p ! 3"

text \<open>The conversion of an unsigned value to \<open>int\<close>.\<close>

definition toInt32 :: "u32 \<Rightarrow> int" where
  "toInt32 x = (if x < 2 ^ 31 then int x else int x - 2 ^ 32)"

section \<open>Checking the versions\<close>

text \<open>For a database in memory the pointer is set to null instead of the flag: the flag stays as it was.\<close>

definition rowlockPagerCheckSchemaVers :: "PagerOs \<Rightarrow> Pager \<Rightarrow> int \<Rightarrow> bool \<Rightarrow> rc \<times> bool" where
  "rowlockPagerCheckSchemaVers os P version needReset =
     (if memDb P then (SQLITE_OK, needReset)
      else let (rc, scVers) = oRead os 4 (36 + BTREE_SCHEMA_VERSION * 4) in
        if rc \<noteq> SQLITE_OK \<and> rc \<noteq> SQLITE_IOERR_SHORT_READ then (rc, needReset)
        else let schemaVersion = (if rc = SQLITE_OK then toInt32 (sqlite3Get4byte scVers) else 0)
             in (SQLITE_OK, schemaVersion > version \<and> schemaVersion \<noteq> 0 \<and> version \<noteq> 0))"

definition rowlockPagerCheckDbFileVers :: "PagerOs \<Rightarrow> Pager \<Rightarrow> bool \<Rightarrow> rc \<times> bool" where
  "rowlockPagerCheckDbFileVers os P needReset =
     (if \<not> isOpen P then (SQLITE_OK, False)
      else let (rc, vers) = oRead os 16 24 in
        if rc \<noteq> SQLITE_OK \<and> rc \<noteq> SQLITE_IOERR_SHORT_READ then (rc, needReset)
        else let vers' = (if rc = SQLITE_OK then vers else replicate 16 0) in (SQLITE_OK, memcmp 16 (dbFileVers P) vers' < 0))"

section \<open>Discarding the cache\<close>

text \<open>A page 1 that is referenced stays in the cache, with its bytes cleared.\<close>

definition sqlite3PcacheTruncate :: "nat \<Rightarrow> Pager \<Rightarrow> Pager" where
  "sqlite3PcacheTruncate pgno P =
     (let (pgno', c) = (if pgno = 0 \<and> nRefSum P \<noteq> 0 then (1, (pcache P)(1 \<mapsto> replicate (pageSize P) 0)) else (pgno, pcache P))
      in P\<lparr>pcache := c |` {p. p \<le> pgno'}\<rparr>)"

definition pager_reset :: "Pager \<Rightarrow> Pager" where
  "pager_reset P = sqlite3PcacheTruncate 0 (P\<lparr>iDataVersion := wrap32 (iDataVersion P + 1)\<rparr>)"

definition pagerPagecount :: "PagerOs \<Rightarrow> Pager \<Rightarrow> rc \<times> Pager" where
  "pagerPagecount os P =
     (let (rc, nPage) = (if oWalSize os = 0 \<and> isOpen P
                         then (fst (oSize os), wrap32 ((snd (oSize os) + pageSize P - 1) div pageSize P)) else (SQLITE_OK, oWalSize os))
      in if rc \<noteq> SQLITE_OK then (rc, P)
         else (SQLITE_OK, P\<lparr>mxPgno := max nPage (mxPgno P), dbSize := nPage\<rparr>))"

text \<open>Unmapping the file (\<open>sqlite3OsUnfetch\<close>) has no effect on this state.\<close>

definition rowlockPagerCacheReset :: "PagerOs \<Rightarrow> Pager \<Rightarrow> rc \<times> Pager" where
  "rowlockPagerCacheReset os P =
     (let P1 = pager_reset P in
      if \<not> tempFile P1 \<and> eLockP P1 \<noteq> NO_LOCK then
        (if useWal P1 \<and> oBeginRead os \<noteq> SQLITE_OK then (oBeginRead os, P1)
         else let (rc, P2) = pagerPagecount os (P1\<lparr>eStateP := PAGER_OPEN\<rparr>) in (rc, P2\<lparr>eStateP := eStateP P1\<rparr>))
      else (SQLITE_OK, P1))"

definition readDbPage :: "PagerOs \<Rightarrow> nat \<Rightarrow> Pager \<Rightarrow> rc \<times> Pager" where
  "readDbPage os pgno P =
     (let (rc0, frame) = (if useWal P then oWal os pgno else (SQLITE_OK, None)) in
      if rc0 \<noteq> SQLITE_OK \<and> frame = None then (rc0, P)
      else let (rc, pData) = (case frame of Some d \<Rightarrow> (rc0, d)
                              | None \<Rightarrow> (let (r, d) = oRead os (pageSize P) ((pgno - 1) * pageSize P)
                                         in (if r = SQLITE_IOERR_SHORT_READ then SQLITE_OK else r, d)));
               P1 = P\<lparr>pcache := (pcache P)(pgno \<mapsto> pData)\<rparr>
           in (rc, if pgno = 1 then P1\<lparr>dbFileVers := (if rc \<noteq> SQLITE_OK then replicate 16 255 else take 16 (drop 24 pData))\<rparr> else P1))"

text \<open>\<open>xReiniter\<close> is the callback that parses the page again.\<close>

definition rowlockPagerReloadDbPage :: "PagerOs \<Rightarrow> (nat \<Rightarrow> Pager \<Rightarrow> Pager) \<Rightarrow> nat \<Rightarrow> Pager \<Rightarrow> rc \<times> Pager" where
  "rowlockPagerReloadDbPage os xReiniter pgno P =
     (let (rc, P1) = readDbPage os pgno P in if rc = SQLITE_OK then (rc, xReiniter pgno P1) else (rc, P1))"

section \<open>The check before a transaction\<close>

text \<open>The number of pages of the database as its page 1 says, if that is valid, otherwise as the size of the file says.\<close>

definition rowlockPagecount :: "bool \<Rightarrow> blob \<Rightarrow> Pager \<Rightarrow> int" where
  "rowlockPagecount resetDatabase aData P =
     (let nPage = toInt32 (sqlite3Get4byte (drop 28 aData));
          nPage' = (if nPage = 0 \<or> memcmp 4 (drop 24 aData) (drop 92 aData) \<noteq> 0 then toInt32 (dbSize P) else nPage)
      in if resetDatabase then 0 else nPage')"

text \<open>The connection and its \<open>BtShared\<close>: \<open>bPage1\<close> is \<open>pPage1!=0\<close>, \<open>bPages\<close> is \<open>nPage\<close>, \<open>bCookie\<close> the cookie of the schema in memory.\<close>

record Shared =
  bPager :: Pager
  bPage1 :: bool
  bPages :: int
  bInitBusy :: bool
  bExec :: int
  bUsed :: bool
  bReset :: bool
  bCookie :: int

text \<open>\<open>None\<close> where page 1 is referenced and not in the cache. The result of \<open>rowlockPagerCacheReset\<close> is not looked at.\<close>

definition rowlockBtreeCacheReset :: "PagerOs \<Rightarrow> (nat \<Rightarrow> Pager \<Rightarrow> Pager) \<Rightarrow> Shared \<Rightarrow> (rc \<times> Shared) option" where
  "rowlockBtreeCacheReset os xReiniter p =
     (if bInitBusy p \<or> bExec p > 1 \<or> \<not> bUsed p then Some (SQLITE_OK, p)
      else let (rc1, need1) = rowlockPagerCheckSchemaVers os (bPager p) (bCookie p) False in
        if rc1 \<noteq> SQLITE_OK then Some (rc1, p)
        else let (rc2, need2) = (if \<not> need1 then rowlockPagerCheckDbFileVers os (bPager p) need1 else (SQLITE_OK, need1)) in
          if rc2 \<noteq> SQLITE_OK then Some (rc2, p)
          else if \<not> need2 then Some (SQLITE_OK, p)
          else let P1 = snd (rowlockPagerCacheReset os (bPager p)) in
            if \<not> bPage1 p then Some (SQLITE_OK, p\<lparr>bPager := P1\<rparr>)
            else let (rc3, P2) = rowlockPagerReloadDbPage os xReiniter 1 P1; p2 = p\<lparr>bPager := P2\<rparr> in
              if rc3 \<noteq> SQLITE_OK then Some (rc3, p2)
              else Option.bind (pcache P2 1) (\<lambda>aData. Some (SQLITE_OK, p2\<lparr>bPages := rowlockPagecount (bReset p) aData P2\<rparr>)))"

section \<open>Locks of the file\<close>

definition pagerLockDb :: "PagerOs \<Rightarrow> u8 \<Rightarrow> Pager \<Rightarrow> rc \<times> Pager" where
  "pagerLockDb os eLock P =
     (if eLockP P < eLock \<or> eLockP P = UNKNOWN_LOCK then
        let rc = (if noLock P then SQLITE_OK else oLock os eLock) in
        (rc, if rc = SQLITE_OK \<and> (eLockP P \<noteq> UNKNOWN_LOCK \<or> eLock = EXCLUSIVE_LOCK) then P\<lparr>eLockP := eLock\<rparr> else P)
      else (SQLITE_OK, P))"

definition pagerUnlockDb :: "PagerOs \<Rightarrow> u8 \<Rightarrow> Pager \<Rightarrow> rc \<times> Pager" where
  "pagerUnlockDb os eLock P =
     (let (rc, P1) = (if isOpen P then (if noLock P then SQLITE_OK else oUnlock os eLock, if eLockP P \<noteq> UNKNOWN_LOCK then P\<lparr>eLockP := eLock\<rparr> else P)
                      else (SQLITE_OK, P))
      in (rc, P1\<lparr>changeDone := tempFile P\<rparr>))"

text \<open>The attempts are numbered: \<open>os n\<close> are the results of the system at attempt \<open>n\<close>, \<open>xBusyHandler n\<close> what the busy handler answers after it.\<close>

partial_function (option) rowlockPagerExclusiveLock :: "(nat \<Rightarrow> PagerOs) \<Rightarrow> (nat \<Rightarrow> bool) \<Rightarrow> nat \<Rightarrow> Pager \<Rightarrow> (rc \<times> Pager) option" where
  "rowlockPagerExclusiveLock os xBusyHandler n P =
     (let (rc, P1) = pagerLockDb (os n) EXCLUSIVE_LOCK P in
      if rc = SQLITE_BUSY \<and> xBusyHandler n then rowlockPagerExclusiveLock os xBusyHandler (n + 1) P1 else Some (rc, P1))"

definition rowlockPagerCheckLockAvailable :: "PagerOs \<Rightarrow> u8 \<Rightarrow> Pager \<Rightarrow> rc \<times> Pager" where
  "rowlockPagerCheckLockAvailable os lockType P =
     (let (rc, P1) = pagerLockDb os lockType P in if rc = SQLITE_OK then pagerUnlockDb os (eLockP P) P1 else (rc, P1))"

text \<open>
  Writing pages with the lock level raised to the exclusive one, which is not set back, and the assertion on the state of the pager,
  with the level raised while it is evaluated.
\<close>

definition pager_write_pagelist :: "(Pager \<Rightarrow> rc \<times> Pager) \<Rightarrow> Pager \<Rightarrow> rc \<times> Pager" where
  "pager_write_pagelist pager_write_pagelist_original P = pager_write_pagelist_original (P\<lparr>eLockP := EXCLUSIVE_LOCK\<rparr>)"

definition assert_pager_state :: "(Pager \<Rightarrow> bool) \<Rightarrow> Pager \<Rightarrow> bool \<times> Pager" where
  "assert_pager_state assert_pager_state_original P =
     (let P1 = (if \<not> (\<not> changeDone P \<or> eLockP P \<ge> RESERVED_LOCK) then P\<lparr>eLockP := RESERVED_LOCK\<rparr> else P);
          P2 = (if (eStateP P = 2 \<or> eStateP P = 3) \<and> eLockP P1 < RESERVED_LOCK then P1\<lparr>eLockP := RESERVED_LOCK\<rparr>
                else if (eStateP P = 4 \<or> eStateP P = 5) \<and> eLockP P1 \<noteq> EXCLUSIVE_LOCK then P1\<lparr>eLockP := EXCLUSIVE_LOCK\<rparr>
                else P1)
      in (assert_pager_state_original P2, P2\<lparr>eLockP := eLockP P\<rparr>))"

section \<open>What the comparison of versions means\<close>

lemma beVal_acc: "foldl (\<lambda>a b. a * 256 + b) x bs = x * 256 ^ length bs + beVal bs"
proof (induction bs arbitrary: x)
  case (Cons b bs)
  have "beVal (b # bs) = b * 256 ^ length bs + beVal bs" using Cons [of b] by (simp add: beVal_def)
  then show ?case using Cons [of "x * 256 + b"] by (simp add: add_mult_distrib)
qed (simp add: beVal_def)

lemma beVal_Cons: "beVal (b # bs) = b * 256 ^ length bs + beVal bs"
  using beVal_acc [of b bs] by (simp add: beVal_def)

lemma beVal_zero: "beVal (replicate n 0) = 0"
  by (induction n) (simp_all add: beVal_Cons, simp add: beVal_def)

lemma beVal_less: "\<forall>b \<in> set bs. b < 256 \<Longrightarrow> beVal bs < 256 ^ length bs"
proof (induction bs)
  case (Cons b bs)
  then have "beVal bs < 256 ^ length bs" "b + 1 \<le> 256" by auto
  then have "b * 256 ^ length bs + beVal bs < (b + 1) * 256 ^ length bs" "(b + 1) * 256 ^ length bs \<le> 256 * 256 ^ length bs"
    by (simp, intro mult_le_mono1)
  then have "b * 256 ^ length bs + beVal bs < 256 * 256 ^ length bs" by (rule less_le_trans)
  then show ?case by (simp add: beVal_Cons)
qed (simp add: beVal_def)

text \<open>Comparing the bytes is comparing the numbers they stand for.\<close>

lemma memcmp_beVal:
  "length as = n \<Longrightarrow> length bs = n \<Longrightarrow> \<forall>b \<in> set as \<union> set bs. b < 256 \<Longrightarrow> memcmp n as bs < 0 \<longleftrightarrow> beVal as < beVal bs"
proof (induction n as bs rule: memcmp.induct)
  case (1 n a as b bs)
  have l: "beVal as < 256 ^ n" "beVal bs < 256 ^ n" using 1(2-4) beVal_less [of as] beVal_less [of bs] by auto
  have lt: "x * 256 ^ n + u < y * 256 ^ n + v" if "x < y" "u < 256 ^ n" for x y u v :: nat
  proof -
    have "x * 256 ^ n + u < (x + 1) * 256 ^ n" using that(2) by simp
    also have "\<dots> \<le> y * 256 ^ n" using that(1) by (intro mult_le_mono1) simp
    finally show ?thesis by simp
  qed
  consider "a = b" | "a < b" | "b < a" by linarith
  then show ?case
  proof cases
    case 1
    with "1.IH" "1.prems" show ?thesis by (simp add: beVal_Cons)
  next
    case 2
    with lt [OF 2 l(1)] "1.prems" show ?thesis by (simp add: beVal_Cons)
  next
    case 3
    with lt [OF 3 l(2), of "beVal as"] "1.prems" show ?thesis by (simp add: beVal_Cons not_less)
  qed
qed (auto simp: beVal_def)

text \<open>A database file: reading beyond its end fills up with zeros.\<close>

definition fileRead :: "blob \<Rightarrow> nat \<Rightarrow> nat \<Rightarrow> rc \<times> blob" where
  "fileRead f amt off =
     (if off + amt \<le> length f then (SQLITE_OK, take amt (drop off f))
      else (SQLITE_IOERR_SHORT_READ, take amt (drop off f @ replicate amt 0)))"

text \<open>The page cache is out of date: the schema in the file is newer, or the version of the file is.\<close>

definition stale :: "blob \<Rightarrow> Shared \<Rightarrow> bool" where
  "stale f p \<longleftrightarrow> (let v = toInt32 (sqlite3Get4byte (take 4 (drop 40 f))) in v > bCookie p \<and> v \<noteq> 0 \<and> bCookie p \<noteq> 0) \<or>
     beVal (dbFileVers (bPager p)) < beVal (take 16 (drop 24 f))"

definition onFile :: "PagerOs \<Rightarrow> blob \<Rightarrow> Shared \<Rightarrow> bool" where
  "onFile os f p \<longleftrightarrow> oRead os = fileRead f \<and> oSize os = (SQLITE_OK, length f) \<and> oWalSize os = 0 \<and> (\<forall>b \<in> set f. b < 256) \<and>
     (let P = bPager p in \<not> memDb P \<and> isOpen P \<and> \<not> tempFile P \<and> \<not> useWal P \<and> eLockP P \<noteq> NO_LOCK \<and> nRefSum P \<noteq> 0 \<and> pcache P 0 = None \<and>
        100 \<le> pageSize P \<and> pageSize P \<le> length f \<and> length f < 2 ^ 31 \<and> length (dbFileVers P) = 16 \<and> (\<forall>b \<in> set (dbFileVers P). b < 256)) \<and>
     \<not> bInitBusy p \<and> bExec p \<le> 1 \<and> bUsed p \<and> bPage1 p"

lemma check_versions:
  assumes f: "onFile os f p"
  shows "rowlockPagerCheckSchemaVers os (bPager p) (bCookie p) False =
      (SQLITE_OK, let v = toInt32 (sqlite3Get4byte (take 4 (drop 40 f))) in v > bCookie p \<and> v \<noteq> 0 \<and> bCookie p \<noteq> 0)"
    "rowlockPagerCheckDbFileVers os (bPager p) x = (SQLITE_OK, beVal (dbFileVers (bPager p)) < beVal (take 16 (drop 24 f)))"
proof -
  have l: "100 \<le> length f" using f by (simp add: onFile_def Let_def)
  then show "rowlockPagerCheckSchemaVers os (bPager p) (bCookie p) False =
      (SQLITE_OK, let v = toInt32 (sqlite3Get4byte (take 4 (drop 40 f))) in v > bCookie p \<and> v \<noteq> 0 \<and> bCookie p \<noteq> 0)"
    using f by (simp add: onFile_def Let_def rowlockPagerCheckSchemaVers_def fileRead_def)
  have "\<forall>b \<in> set (take 16 (drop 24 f)). b < 256" using f by (auto simp: onFile_def dest!: in_set_takeD in_set_dropD)
  then have "memcmp 16 (dbFileVers (bPager p)) (take 16 (drop 24 f)) < 0 \<longleftrightarrow> beVal (dbFileVers (bPager p)) < beVal (take 16 (drop 24 f))"
    using f l by (intro memcmp_beVal) (auto simp: onFile_def Let_def)
  then show "rowlockPagerCheckDbFileVers os (bPager p) x = (SQLITE_OK, beVal (dbFileVers (bPager p)) < beVal (take 16 (drop 24 f)))"
    using f l by (simp add: onFile_def Let_def rowlockPagerCheckDbFileVers_def fileRead_def)
qed

text \<open>Resetting the cache of such a pager and reading page 1 again.\<close>

definition refreshed :: "blob \<Rightarrow> Pager \<Rightarrow> Pager" where
  "refreshed f P = (let n = (length f + pageSize P - 1) div pageSize P in
     P\<lparr>iDataVersion := wrap32 (iDataVersion P + 1), pcache := [1 \<mapsto> take (pageSize P) f], dbFileVers := take 16 (drop 24 f),
       mxPgno := max n (mxPgno P), dbSize := n\<rparr>)"

lemma reset_reload:
  assumes f: "onFile os f p"
  shows "readDbPage os 1 (snd (rowlockPagerCacheReset os (bPager p))) = (SQLITE_OK, refreshed f (bPager p))"
proof -
  let ?P = "bPager p"
  have ps: "100 \<le> pageSize ?P" "pageSize ?P \<le> length f" "length f < 2 ^ 31" "pcache ?P 0 = None" "\<not> useWal ?P" "isOpen ?P" "\<not> tempFile ?P" "eLockP ?P \<noteq> 0" "nRefSum ?P \<noteq> 0"
    using f by (simp_all add: onFile_def Let_def)
  have os: "oRead os = fileRead f" "oSize os = (SQLITE_OK, length f)" "oWalSize os = 0" using f by (simp_all add: onFile_def)
  let ?n = "(length f + pageSize ?P - 1) div pageSize ?P"
  have "?n < 2 ^ 32" by (rule le_less_trans [OF div_le_dividend]) (use ps(2,3) in simp)
  then have n: "wrap32 ?n = ?n" unfolding wrap32_def by (rule mod_less)
  have c: "((pcache ?P)(1 \<mapsto> x) |` {q. q \<le> 1})(1 \<mapsto> y) = [1 \<mapsto> y]" for x y using ps(4) by (auto simp: fun_eq_iff restrict_map_def le_Suc_eq)
  have t: "take 16 (drop 24 (take (pageSize ?P) f)) = take 16 (drop 24 f)" using ps(1) by (simp add: drop_take min_def)
  show ?thesis
    using ps os n c t
    by (simp add: readDbPage_def rowlockPagerCacheReset_def pager_reset_def sqlite3PcacheTruncate_def pagerPagecount_def refreshed_def fileRead_def Let_def)
qed


text \<open>
  The lock of the file for a backup: if the busy handler gives up after some attempt, the loop ends, and its result is not \<open>SQLITE_BUSY\<close>
  unless the handler has given up.
\<close>

lemma PagerExclusiveLock_ends:
  assumes "\<not> xBusyHandler n"
  shows "\<exists>rc P' k. rowlockPagerExclusiveLock os xBusyHandler 0 P = Some (rc, P') \<and> k \<le> n \<and> (rc = SQLITE_BUSY \<longrightarrow> \<not> xBusyHandler k)"
proof -
  have "\<exists>rc P' k. rowlockPagerExclusiveLock os xBusyHandler i P = Some (rc, P') \<and> k \<le> n \<and> (rc = SQLITE_BUSY \<longrightarrow> \<not> xBusyHandler k)" if "i \<le> n" for i P
    using that
  proof (induction "n - i" arbitrary: i P)
    case 0
    then have "i = n" by simp
    obtain rc P1 where "pagerLockDb (os n) EXCLUSIVE_LOCK P = (rc, P1)" by fastforce
    with assms \<open>i = n\<close> show ?case by (subst rowlockPagerExclusiveLock.simps) auto
  next
    case (Suc d)
    obtain rc P1 where l: "pagerLockDb (os i) EXCLUSIVE_LOCK P = (rc, P1)" by fastforce
    show ?case
    proof (cases "rc = SQLITE_BUSY \<and> xBusyHandler i")
      case True
      have "d = n - (i + 1)" "i + 1 \<le> n" using Suc.hyps(2) by simp_all
      with Suc.hyps(1) [of "i + 1" P1] True l show ?thesis by (subst rowlockPagerExclusiveLock.simps) simp
    next
      case False
      with Suc.prems l show ?thesis by (subst rowlockPagerExclusiveLock.simps) auto
    qed
  qed
  then show ?thesis by simp
qed

text \<open>Trying the lock: it can be had exactly if the system grants it, and the level is as before.\<close>

lemma CheckLockAvailable_tries:
  assumes "isOpen P" "\<not> noLock P" "eLockP P < lockType" "eLockP P \<noteq> UNKNOWN_LOCK" "lockType \<noteq> UNKNOWN_LOCK"
  shows "rowlockPagerCheckLockAvailable os lockType P =
    (if oLock os lockType = SQLITE_OK then (oUnlock os (eLockP P), P\<lparr>changeDone := tempFile P\<rparr>) else (oLock os lockType, P))"
  using assms by (simp add: rowlockPagerCheckLockAvailable_def pagerLockDb_def pagerUnlockDb_def)

section \<open>Properties\<close>

text \<open>
  C16. The check of the page cache before a transaction and before a commit: it succeeds, and changes nothing unless the cookie of the schema
  in the file is larger than that in memory or the version of the file (its change counter, followed by the size and the free list) is larger than the one read
  last, as a number. Then nothing of the old cache is left, page 1, the version and the size are
  those of the file, and the number of pages is that in page 1 if it is valid, and otherwise that of the file. In
  particular the cache is kept where the change counter of the file is smaller, for instance after it has wrapped round. The
  database is an ordinary file of at least one page and less than \<open>2 ^ 31\<close> bytes, without a write-ahead log.
\<close>

theorem CacheReset_correct:
  assumes f: "onFile os f p" and re: "\<And>P. xReiniter 1 P = P"
  shows "rowlockBtreeCacheReset os xReiniter p =
    Some (SQLITE_OK, if stale f p then p\<lparr>bPager := refreshed f (bPager p), bPages := rowlockPagecount (bReset p) (take (pageSize (bPager p)) f) (refreshed f (bPager p))\<rparr>
      else p)"
proof -
  have u: "\<not> bInitBusy p" "\<not> bExec p > 1" "bUsed p" "bPage1 p" using f by (simp_all add: onFile_def)
  have pc: "pcache (refreshed f (bPager p)) 1 = Some (take (pageSize (bPager p)) f)" by (simp add: refreshed_def Let_def)
  show ?thesis
    using u check_versions [OF f] reset_reload [OF f] re pc
    by (auto simp: rowlockBtreeCacheReset_def rowlockPagerReloadDbPage_def stale_def Let_def)
qed

text \<open>A file of one page of 100 bytes, whose change counter is 5, and a connection that has read it when it was 0.\<close>

definition demoFile :: blob where
  "demoFile = replicate 27 0 @ [5] @ replicate 72 0"

definition demoOs :: PagerOs where
  "demoOs = \<lparr>oRead = fileRead demoFile, oSize = (SQLITE_OK, 100), oWalSize = 0, oWal = (\<lambda>n. (SQLITE_OK, None)), oBeginRead = SQLITE_OK,
     oLock = (\<lambda>l. SQLITE_OK), oUnlock = (\<lambda>l. SQLITE_OK)\<rparr>"

definition demoShared :: Shared where
  "demoShared = \<lparr>bPager = \<lparr>memDb = False, isOpen = True, tempFile = False, noLock = False, useWal = False, eLockP = 1, eStateP = 1, changeDone = False,
     dbFileVers = replicate 16 0, dbSize = 1, mxPgno = 1000, pageSize = 100, iDataVersion = 7, nRefSum = 1, pcache = [1 \<mapsto> replicate 100 0, 2 \<mapsto> replicate 100 1]\<rparr>,
     bPage1 = True, bPages = 1, bInitBusy = False, bExec = 0, bUsed = True, bReset = False, bCookie = 0\<rparr>"

theorem CacheReset_correct_witness:
  "\<exists>p'. rowlockBtreeCacheReset demoOs (\<lambda>n P. P) demoShared = Some (SQLITE_OK, p') \<and> pcache (bPager p') = [1 \<mapsto> demoFile]"
proof -
  have f: "onFile demoOs demoFile demoShared" by (auto simp: onFile_def demoOs_def demoShared_def demoFile_def Let_def)
  have "take 16 (drop 24 demoFile) = [0, 0, 0, 5, 0, 0, 0, 0, 0, 0, 0, 0, 0, 0, 0, 0]" by (simp add: demoFile_def numeral_eq_Suc)
  then have "beVal (take 16 (drop 24 demoFile)) \<noteq> 0" by (simp add: beVal_def)
  then have "stale demoFile demoShared" by (simp add: stale_def demoShared_def beVal_zero)
  then show ?thesis using CacheReset_correct [OF f, of "\<lambda>n P. P"] by (simp add: refreshed_def Let_def demoShared_def) (simp add: demoFile_def)
qed

end
