(* ===== verification/Record_Compare.thy ===== *)
theory Record_Compare
  imports Index_Record
begin

text \<open>
  The comparison of index records under which the locks of index keys are stored and searched (\<open>recordComparator\<close> of \<open>rowlock_psm_lock.c\<close>), with
  the functions of SQLite it reads and compares the fields with (\<open>util.c\<close>, \<open>vdbeaux.c\<close>), and the locks of index keys under that comparison. The comparison
  stops at the end of the shorter record, equates an integer with the same floating-point number, and uses the collating sequence of the first column for
  every text; so it is not an equivalence, and the hash of the bytes does not follow it. The theorems say for which keys it is the equality of records, and
  what a search with only the leading fields of the keys finds.
\<close>

section \<open>Reading a record\<close>

text \<open>
  The value of a variable-length integer and the bytes read; \<open>None\<close> is a read beyond the key. Of a byte with the eighth bit set the lower seven are its value less 128.
\<close>

definition sqlite3GetVarint :: "blob \<Rightarrow> (u64 \<times> nat) option" where
  "sqlite3GetVarint p = map_option (\<lambda>(v, r). (v, length p - length r)) (readVarint 0 0 p)"

definition sqlite3GetVarint32 :: "blob \<Rightarrow> (u32 \<times> nat) option" where
  "sqlite3GetVarint32 p =
     (if length p < 2 then None
      else if p ! 1 < 128 then Some ((p ! 0 - 128) * 2 ^ 7 + p ! 1, 2)
      else if length p < 3 then None
      else if p ! 2 < 128 then Some ((p ! 0 - 128) * 2 ^ 14 + (p ! 1 - 128) * 2 ^ 7 + p ! 2, 3)
      else map_option (\<lambda>(v64, n). (if v64 mod 2 ^ 32 \<noteq> v64 then 0xffffffff else v64, n)) (sqlite3GetVarint p))"

definition getVarint32 :: "blob \<Rightarrow> (u32 \<times> nat) option" where
  "getVarint32 p = (if p = [] then None else if p ! 0 < 128 then Some (p ! 0, 1) else sqlite3GetVarint32 p)"

text \<open>A floating-point number is its 64 bits.\<close>

definition IsNaN :: "u64 \<Rightarrow> bool" where
  "IsNaN x \<longleftrightarrow> x div 2 ^ 52 mod 2 ^ 11 = 0x7ff \<and> x mod 2 ^ 52 \<noteq> 0"

text \<open>A field of the record: its value and the bytes read.\<close>

definition sqlite3VdbeSerialGet :: "blob \<Rightarrow> u32 \<Rightarrow> (Mem \<times> u32) option" where
  "sqlite3VdbeSerialGet buf serial_type =
     (let n = sqlite3VdbeSerialTypeLen serial_type; b = take n buf in
      if length buf < n then None
      else Some
        (if serial_type = 10 then MNull True
         else if serial_type = 11 \<or> serial_type = 0 then MNull False
         else if serial_type \<le> 6 then MInt (signVal b)
         else if serial_type = 7 then (if IsNaN (beVal b) then MNull False else MReal (beVal b))
         else if serial_type = 8 \<or> serial_type = 9 then MInt (int serial_type - 8)
         else if even serial_type then MBlob b 0 else MStr b, n))"

section \<open>Comparing two values\<close>

definition isAllZero :: "blob \<Rightarrow> bool" where
  "isAllZero z = list_all (\<lambda>b. b = 0) z"

text \<open>The bytes \<open>z\<close>, and \<open>u.nZero\<close> where the flag \<open>MEM_Zero\<close> is set.\<close>

definition memZ :: "Mem \<Rightarrow> blob" where
  "memZ m = (case m of MStr z \<Rightarrow> z | MBlob z n \<Rightarrow> z | _ \<Rightarrow> [])"

definition memZero :: "Mem \<Rightarrow> nat option" where
  "memZero m = (case m of MBlob z n \<Rightarrow> if n \<noteq> 0 then Some n else None | _ \<Rightarrow> None)"

definition sqlite3BlobCompare :: "Mem \<Rightarrow> Mem \<Rightarrow> int" where
  "sqlite3BlobCompare pB1 pB2 =
     (let n1 = int (length (memZ pB1)); n2 = int (length (memZ pB2)) in
      case (memZero pB1, memZero pB2) of
        (Some z1, Some z2) \<Rightarrow> int z1 - int z2
      | (Some z1, None) \<Rightarrow> if \<not> isAllZero (memZ pB2) then - 1 else int z1 - n2
      | (None, Some z2) \<Rightarrow> if \<not> isAllZero (memZ pB1) then 1 else n1 - int z2
      | (None, None) \<Rightarrow>
          let c = memcmp (min (length (memZ pB1)) (length (memZ pB2))) (memZ pB1) (memZ pB2) in if c \<noteq> 0 then c else n1 - n2)"

definition compareInt :: "int \<Rightarrow> int \<Rightarrow> int" where
  "compareInt a b = (if a < b then - 1 else if a > b then 1 else 0)"

text \<open>
  A number as \<open>m * 2 ^ e\<close>, an infinity being beyond every integer. The comparison of two numbers that are no NaN is that of sign and magnitude. An integer is
  compared with a floating-point number without rounding, \<open>long double\<close> having the precision of 64 bits.
\<close>

definition doubleParts :: "u64 \<Rightarrow> int \<times> int" where
  "doubleParts r =
     (let ex = int (r div 2 ^ 52 mod 2 ^ 11); frac = int (r mod 2 ^ 52); sgn = (if r div 2 ^ 63 = 0 then 1 else - 1)
      in if ex = 0 then (sgn * frac, - 1074) else (sgn * (frac + 2 ^ 52), ex - 1075))"

definition compareDouble :: "u64 \<Rightarrow> u64 \<Rightarrow> int" where
  "compareDouble r1 r2 =
     (let key = (\<lambda>r. if r div 2 ^ 63 = 0 then int r else - int (r mod 2 ^ 63)) in compareInt (key r1) (key r2))"

definition sqlite3IntFloatCompare :: "i64 \<Rightarrow> u64 \<Rightarrow> int" where
  "sqlite3IntFloatCompare i r =
     (let (m, e) = doubleParts r in if e \<ge> 0 then compareInt i (m * 2 ^ nat e) else compareInt (i * 2 ^ nat (- e)) m)"

text \<open>The number of a value: \<open>Inl\<close> an integer, \<open>Inr\<close> a floating-point number.\<close>

definition memNum :: "Mem \<Rightarrow> (i64 + u64) option" where
  "memNum m = (case m of MInt i \<Rightarrow> Some (Inl i) | MIntReal i \<Rightarrow> Some (Inl i) | MReal r \<Rightarrow> Some (Inr r) | _ \<Rightarrow> None)"

definition memNull :: "Mem \<Rightarrow> bool" where
  "memNull m = (case m of MNull z \<Rightarrow> True | _ \<Rightarrow> False)"

definition memStr :: "Mem \<Rightarrow> bool" where
  "memStr m = (case m of MStr z \<Rightarrow> True | _ \<Rightarrow> False)"

text \<open>\<open>pColl\<close> is \<open>None\<close> for the sequence \<open>BINARY\<close>, otherwise the function \<open>xCmp\<close> of the sequence, whose encoding the values have.\<close>

definition sqlite3MemCompare :: "(blob \<Rightarrow> blob \<Rightarrow> int) option \<Rightarrow> Mem \<Rightarrow> Mem \<Rightarrow> int" where
  "sqlite3MemCompare pColl pMem1 pMem2 =
     (if memNull pMem1 \<or> memNull pMem2 then of_bool (memNull pMem2) - of_bool (memNull pMem1)
      else case (memNum pMem1, memNum pMem2) of
        (Some (Inl i), Some (Inl j)) \<Rightarrow> compareInt i j
      | (Some (Inr r), Some (Inr s)) \<Rightarrow> compareDouble r s
      | (Some (Inl i), Some (Inr s)) \<Rightarrow> sqlite3IntFloatCompare i s
      | (Some (Inl i), None) \<Rightarrow> - 1
      | (Some (Inr r), Some (Inl j)) \<Rightarrow> - sqlite3IntFloatCompare j r
      | (Some (Inr r), None) \<Rightarrow> - 1
      | (None, Some x) \<Rightarrow> 1
      | (None, None) \<Rightarrow>
          if memStr pMem1 \<or> memStr pMem2 then
            (if \<not> memStr pMem1 then 1 else if \<not> memStr pMem2 then - 1
             else case pColl of Some xCmp \<Rightarrow> xCmp (memZ pMem1) (memZ pMem2) | None \<Rightarrow> sqlite3BlobCompare pMem1 pMem2)
          else sqlite3BlobCompare pMem1 pMem2)"

text \<open>The integer 5 and the number 5.0 are equal; the integer \<open>2 ^ 53 + 1\<close> is greater than \<open>2.0 ^ 53\<close>, and \<open>- 0.0\<close> equals \<open>0.0\<close>.\<close>

lemma MemCompare_numbers:
  "sqlite3MemCompare pColl (MInt 5) (MReal 0x4014000000000000) = 0" "sqlite3MemCompare pColl (MInt (2 ^ 53 + 1)) (MReal 0x4340000000000000) = 1"
  "sqlite3MemCompare pColl (MReal 0x8000000000000000) (MReal 0) = 0"
  by (simp_all add: sqlite3MemCompare_def memNull_def memNum_def sqlite3IntFloatCompare_def doubleParts_def compareInt_def compareDouble_def)

section \<open>Comparing two records\<close>

partial_function (option) recordComparatorLoop ::
  "(blob \<Rightarrow> blob \<Rightarrow> int) option \<Rightarrow> blob \<Rightarrow> blob \<Rightarrow> u32 \<Rightarrow> u32 \<Rightarrow> u32 \<Rightarrow> u32 \<Rightarrow> u32 \<Rightarrow> u32 \<Rightarrow> int option" where
  "recordComparatorLoop pColl aKey1 aKey2 szHdr1 szHdr2 idx1 idx2 d1 d2 =
     (if idx1 < szHdr1 \<and> d1 \<le> wrap32 (length aKey1) \<and> idx2 < szHdr2 \<and> d2 \<le> wrap32 (length aKey2) then
        Option.bind (getVarint32 (drop idx1 aKey1)) (\<lambda>(serial_type1, n1).
        Option.bind (getVarint32 (drop idx2 aKey2)) (\<lambda>(serial_type2, n2).
        Option.bind (sqlite3VdbeSerialGet (drop d1 aKey1) serial_type1) (\<lambda>(mem1, l1).
        Option.bind (sqlite3VdbeSerialGet (drop d2 aKey2) serial_type2) (\<lambda>(mem2, l2).
          if sqlite3MemCompare pColl mem1 mem2 \<noteq> 0 then Some (sqlite3MemCompare pColl mem1 mem2)
          else recordComparatorLoop pColl aKey1 aKey2 szHdr1 szHdr2 (wrap32 (idx1 + n1)) (wrap32 (idx2 + n2)) (wrap32 (d1 + l1)) (wrap32 (d2 + l2))))))
      else Some 0)"

text \<open>A read beyond one of the keys, which no record made by the program leads to, counts as a difference.\<close>

definition recordComparator :: "(blob \<Rightarrow> blob \<Rightarrow> int) option \<Rightarrow> blob \<Rightarrow> blob \<Rightarrow> int" where
  "recordComparator pColl pKey1 pKey2 =
     (case
        Option.bind (getVarint32 pKey1) (\<lambda>(szHdr1, idx1).
        Option.bind (getVarint32 pKey2) (\<lambda>(szHdr2, idx2).
          recordComparatorLoop pColl pKey1 pKey2 szHdr1 szHdr2 idx1 idx2 szHdr1 szHdr2)) of
        Some rc \<Rightarrow> rc | None \<Rightarrow> 1)"

section \<open>Records of the program\<close>

lemma getVarint32_read:
  assumes "readVarint 0 0 p = Some (v, r)" "v < 2 ^ 32"
  shows "getVarint32 p = Some (v, length p - length r)"
proof -
  consider a where "p = [a]" | a b where "p = [a, b]" | a b c q where "p = a # b # c # q"
    using assms(1) by (cases p; cases "tl p"; cases "tl (tl p)") auto
  then show ?thesis
  proof cases
    case 1
    then show ?thesis using assms by (auto simp: getVarint32_def sqlite3GetVarint32_def split: if_splits)
  next
    case 2
    then show ?thesis using assms by (auto simp: getVarint32_def sqlite3GetVarint32_def split: if_splits)
  next
    case 3
    then show ?thesis using assms
      by (cases "a < 128"; cases "b < 128"; cases "c < 128") (auto simp: getVarint32_def sqlite3GetVarint32_def sqlite3GetVarint_def split: if_splits)
  qed
qed

text \<open>The value that is read back, and the comparison of two lists of values, as far as both reach.\<close>

definition valMem :: "Val \<Rightarrow> Mem" where
  "valMem v = (case v of VNull \<Rightarrow> MNull False | VInt i \<Rightarrow> MInt i | VReal r \<Rightarrow> if IsNaN r then MNull False else MReal r | VText z \<Rightarrow> MStr z | VBlob z \<Rightarrow> MBlob z 0)"

fun compareFields :: "(blob \<Rightarrow> blob \<Rightarrow> int) option \<Rightarrow> Val list \<Rightarrow> Val list \<Rightarrow> int" where
  "compareFields pColl (v # vs) (w # ws) =
     (let c = sqlite3MemCompare pColl (valMem v) (valMem w) in if c \<noteq> 0 then c else compareFields pColl vs ws)"
| "compareFields pColl _ _ = 0"

lemma serialGet_read:
  assumes "length b = sqlite3VdbeSerialTypeLen t" "t \<noteq> 10" "t \<noteq> 11"
  shows "sqlite3VdbeSerialGet (b @ r) t = Some (valMem (readValue t b), length b)"
  using assms by (auto simp: sqlite3VdbeSerialGet_def valMem_def readValue_def Let_def)

lemma typed_type:
  assumes "memOk toReal m" "typed toReal fmt m = (t, m')"
  shows "t \<noteq> 10" "t \<noteq> 11"
proof -
  have "fst (intSerialType fmt i) \<notin> {10, 11}" for i by (auto simp: intSerialType_def Let_def)
  then show "t \<noteq> 10" "t \<noteq> 11"
    using assms by (auto simp: typed_def sqlite3VdbeSerialType_def memOk_def wrap32_def Let_def split: Mem.splits prod.splits if_splits) (metis fst_conv insertI1 insertI2)+
qed

text \<open>Reading the first of the remaining fields.\<close>

lemma read_field:
  assumes "memOk toReal m" "typed toReal fmt m = (t, m')"
  shows "getVarint32 (putVarint32 t @ r) = Some (t, length (putVarint32 t))"
    "sqlite3VdbeSerialGet (sqlite3VdbeSerialPut m' t @ r') t = Some (valMem (memValue toReal m), length (sqlite3VdbeSerialPut m' t))"
    "0 < length (putVarint32 t)"
proof -
  have f: "fieldOk t (length (sqlite3VdbeSerialPut m' t)) m' (memValue toReal m)"
    using typed_field [OF assms(1), of fmt] assms(2) by (metis prod.inject)
  then have t: "t < 2 ^ 32" "sqlite3VdbeSerialTypeLen t = length (sqlite3VdbeSerialPut m' t)" "readValue t (sqlite3VdbeSerialPut m' t) = memValue toReal m"
    by (simp_all add: fieldOk_def)
  have "t < 2 ^ 56" using t(1) by simp
  from putVarint32_simps [OF this] show "getVarint32 (putVarint32 t @ r) = Some (t, length (putVarint32 t))" "0 < length (putVarint32 t)"
    using getVarint32_read [of "putVarint32 t @ r" t r] t(1) varintLen_pos [of t] by simp_all
  show "sqlite3VdbeSerialGet (sqlite3VdbeSerialPut m' t @ r') t = Some (valMem (memValue toReal m), length (sqlite3VdbeSerialPut m' t))"
    using serialGet_read [of "sqlite3VdbeSerialPut m' t" t r'] t typed_type [OF assms] by simp
qed

lemma compare_loop:
  assumes "\<forall>m \<in> set ms1 \<union> set ms2. memOk toReal m"
    and "fs1 = map (typed toReal fmt1) ms1" "fs2 = map (typed toReal fmt2) ms2"
    and "k1 = A1 @ hdrBytes fs1 @ B1 @ bodyBytes fs1" "k2 = A2 @ hdrBytes fs2 @ B2 @ bodyBytes fs2" "length k1 < 2 ^ 32" "length k2 < 2 ^ 32"
    and "sz1 = length A1 + length (hdrBytes fs1)" "sz2 = length A2 + length (hdrBytes fs2)"
  shows "recordComparatorLoop pColl k1 k2 sz1 sz2 (length A1) (length A2) (sz1 + length B1) (sz2 + length B2) =
    Some (compareFields pColl (map (memValue toReal) ms1) (map (memValue toReal) ms2))"
  using assms
proof (induction ms1 arbitrary: fs1 fs2 A1 B1 ms2 A2 B2)
  case Nil
  then show ?case by (subst recordComparatorLoop.simps) simp
next
  case (Cons m1 ms1)
  show ?case
  proof (cases ms2)
    case Nil
    then show ?thesis using Cons.prems by (subst recordComparatorLoop.simps) simp
  next
    case m: (Cons m2 ms2')
    obtain t1 n1 where f1: "typed toReal fmt1 m1 = (t1, n1)" by fastforce
    obtain t2 n2 where f2: "typed toReal fmt2 m2 = (t2, n2)" by fastforce
    define gs1 gs2 where "gs1 = map (typed toReal fmt1) ms1" "gs2 = map (typed toReal fmt2) ms2'"
    have fs: "fs1 = (t1, n1) # gs1" "fs2 = (t2, n2) # gs2" using Cons.prems m f1 f2 by (simp_all add: gs1_gs2_def)
    have ok: "memOk toReal m1" "memOk toReal m2" using Cons.prems m by simp_all
    note r = read_field [OF ok(1) f1] read_field [OF ok(2) f2]
    let ?h1 = "putVarint32 t1" and ?b1 = "sqlite3VdbeSerialPut n1 t1" and ?h2 = "putVarint32 t2" and ?b2 = "sqlite3VdbeSerialPut n2 t2"
    have k: "k1 = (A1 @ ?h1) @ hdrBytes gs1 @ (B1 @ ?b1) @ bodyBytes gs1" "k2 = (A2 @ ?h2) @ hdrBytes gs2 @ (B2 @ ?b2) @ bodyBytes gs2"
      and sz: "sz1 = length (A1 @ ?h1) + length (hdrBytes gs1)" "sz2 = length (A2 @ ?h2) + length (hdrBytes gs2)"
      using Cons.prems(4,5,8,9) unfolding fs by simp_all
    have len: "length k1 < 2 ^ 32" "length k2 < 2 ^ 32" using Cons.prems by simp_all
    have d: "drop (length A1) k1 = ?h1 @ hdrBytes gs1 @ B1 @ ?b1 @ bodyBytes gs1" "drop (length A2) k2 = ?h2 @ hdrBytes gs2 @ B2 @ ?b2 @ bodyBytes gs2"
      "drop (sz1 + length B1) k1 = ?b1 @ bodyBytes gs1" "drop (sz2 + length B2) k2 = ?b2 @ bodyBytes gs2"
      by (simp_all add: k sz)
    have w: "wrap32 (length k1) = length k1" "wrap32 (length k2) = length k2"
      "wrap32 (length A1 + length ?h1) = length (A1 @ ?h1)" "wrap32 (length A2 + length ?h2) = length (A2 @ ?h2)"
      "wrap32 (sz1 + length B1 + length ?b1) = sz1 + length (B1 @ ?b1)" "wrap32 (sz2 + length B2 + length ?b2) = sz2 + length (B2 @ ?b2)"
      using len by (simp_all add: wrap32_def k sz)
    have g: "length A1 < sz1" "sz1 + length B1 \<le> length k1" "length A2 < sz2" "sz2 + length B2 \<le> length k2" using r(3,6) by (simp_all add: k sz)
    have IH: "recordComparatorLoop pColl k1 k2 sz1 sz2 (length (A1 @ ?h1)) (length (A2 @ ?h2)) (sz1 + length (B1 @ ?b1)) (sz2 + length (B2 @ ?b2)) =
        Some (compareFields pColl (map (memValue toReal) ms1) (map (memValue toReal) ms2'))"
      by (rule Cons.IH [OF _ gs1_gs2_def k len sz]) (use Cons.prems m in simp)
    show ?thesis
      by (subst recordComparatorLoop.simps) (use g w r IH in \<open>simp add: d m Let_def\<close>)
  qed
qed

text \<open>A key with its record.\<close>

definition keyRecord :: "(i64 \<Rightarrow> u64) \<Rightarrow> nat \<Rightarrow> Mem list \<Rightarrow> blob \<Rightarrow> bool" where
  "keyRecord toReal fmt ms rec \<longleftrightarrow> (\<forall>m \<in> set ms. memOk toReal m) \<and> sum_list (map memBytes ms) + 5 * length ms < 2 ^ 30 \<and>
     (\<exists>i j. vdbeMakeRecord toReal True fmt ms = Some (SQLITE_OK, rec, i, j))"

lemma keyRecordD:
  assumes "keyRecord toReal fmt ms rec"
  shows "rec = recBytes (map (typed toReal fmt) ms)" "readRecord rec = Some (map (memValue toReal) ms)" "\<forall>m \<in> set ms. memOk toReal m"
    "length rec < 2 ^ 31" "getVarint32 rec = Some (headerLen (map (typed toReal fmt) ms), length (putVarint32 (headerLen (map (typed toReal fmt) ms))))"
    "headerLen (map (typed toReal fmt) ms) = length (putVarint32 (headerLen (map (typed toReal fmt) ms))) + length (hdrBytes (map (typed toReal fmt) ms))"
proof -
  let ?fs = "map (typed toReal fmt) ms"
  have ok: "\<forall>m \<in> set ms. memOk toReal m" and size: "sum_list (map memBytes ms) + 5 * length ms < 2 ^ 30"
    and v: "\<exists>i j. vdbeMakeRecord toReal True fmt ms = Some (SQLITE_OK, rec, i, j)" using assms by (simp_all add: keyRecord_def)
  note m = make_record_bytes [OF ok size refl, of fmt]
  show "\<forall>m \<in> set ms. memOk toReal m" by (rule ok)
  show rec: "rec = recBytes ?fs" using v m(1) by auto
  show "length rec < 2 ^ 31" using m(4) by (simp add: rec)
  show "headerLen ?fs = length (putVarint32 (headerLen ?fs)) + length (hdrBytes ?fs)" by (rule m(2))
  show "readRecord rec = Some (map (memValue toReal) ms)" by (rule make_record [OF ok size, of fmt]) (use v in auto)
  have "readVarint 0 0 rec = Some (headerLen ?fs, hdrBytes ?fs @ bodyBytes ?fs)"
    using putVarint32_simps(1) [of "headerLen ?fs"] m(3) by (simp add: rec recBytes_def)
  from getVarint32_read [OF this] show "getVarint32 rec = Some (headerLen ?fs, length (putVarint32 (headerLen ?fs)))"
    using m(3) by (simp add: rec recBytes_def)
qed

lemma recordComparator_fields:
  assumes "keyRecord toReal fmt1 ms1 rec1" "keyRecord toReal fmt2 ms2 rec2"
  shows "recordComparator pColl rec1 rec2 = compareFields pColl (map (memValue toReal) ms1) (map (memValue toReal) ms2)"
proof -
  let ?fs1 = "map (typed toReal fmt1) ms1" and ?fs2 = "map (typed toReal fmt2) ms2"
  note k1 = keyRecordD [OF assms(1)] and k2 = keyRecordD [OF assms(2)]
  let ?A1 = "putVarint32 (headerLen ?fs1)" and ?A2 = "putVarint32 (headerLen ?fs2)"
  have "recordComparatorLoop pColl rec1 rec2 (headerLen ?fs1) (headerLen ?fs2) (length ?A1) (length ?A2) (headerLen ?fs1 + length ([] :: blob)) (headerLen ?fs2 + length ([] :: blob)) =
      Some (compareFields pColl (map (memValue toReal) ms1) (map (memValue toReal) ms2))"
    by (rule compare_loop [OF _ refl refl _ _ _ _ k1(6) k2(6)]) (use k1(1,3,4) k2(1,3,4) in \<open>auto simp: recBytes_def\<close>)
  then show ?thesis using k1(5) k2(5) by (simp add: recordComparator_def)
qed

section \<open>Keys without floating-point numbers\<close>

text \<open>For values without floating-point numbers and the sequence \<open>BINARY\<close> the comparison of two values is their equality.\<close>

definition exactVal :: "Val \<Rightarrow> bool" where
  "exactVal v = (case v of VReal r \<Rightarrow> False | _ \<Rightarrow> True)"

lemma blobCompare_eq:
  assumes "memZero m1 = None" "memZero m2 = None"
  shows "sqlite3BlobCompare m1 m2 = 0 \<longleftrightarrow> memZ m1 = memZ m2"
proof -
  have "sqlite3BlobCompare m1 m2 = 0 \<longleftrightarrow> blobComparator (memZ m1) (memZ m2) = 0"
    by (simp add: sqlite3BlobCompare_def assms blobComparator_def Let_def)
  then show ?thesis by (simp add: blobComparator_eq)
qed

lemma memCompare_exact:
  assumes "exactVal v" "exactVal w"
  shows "sqlite3MemCompare None (valMem v) (valMem w) = 0 \<longleftrightarrow> v = w"
  using assms blobCompare_eq
  by (cases v; cases w) (auto simp: sqlite3MemCompare_def exactVal_def valMem_def memNull_def memNum_def memStr_def memZ_def memZero_def compareInt_def)

lemma compareFields_exact:
  "\<forall>v \<in> set vs \<union> set ws. exactVal v \<Longrightarrow>
   compareFields None vs ws = 0 \<longleftrightarrow> take (min (length vs) (length ws)) vs = take (min (length vs) (length ws)) ws"
  by (induction "None :: (blob \<Rightarrow> blob \<Rightarrow> int) option" vs ws rule: compareFields.induct) (auto simp: memCompare_exact Let_def)

text \<open>The bytes of a field are those of its value.\<close>

lemma typed_bytes:
  assumes "memOk toReal m1" "memOk toReal m2" "memValue toReal m1 = memValue toReal m2" "exactVal (memValue toReal m1)"
  shows "hdrBytes [typed toReal fmt m1] = hdrBytes [typed toReal fmt m2]" "bodyBytes [typed toReal fmt m1] = bodyBytes [typed toReal fmt m2]"
proof -
  have small: "fst (intSerialType fmt i) \<noteq> 6" if "- (2 ^ 47) \<le> i" "i < 2 ^ 47" for i
    using that by (auto simp: intSerialType_def Let_def nat_le_iff)
  have t: "typed toReal fmt (MIntReal i) = (fst (intSerialType fmt i), MIntReal i)" if "- (2 ^ 47) \<le> i" "i < 2 ^ 47" for i
    using small [OF that] by (auto simp: typed_def sqlite3VdbeSerialType_def split: prod.splits)
  have p: "sqlite3VdbeSerialPut (MIntReal i) t = sqlite3VdbeSerialPut (MInt i) t" for i t by (simp add: sqlite3VdbeSerialPut_def)
  have e: "typed toReal fmt (MInt i) = (fst (intSerialType fmt i), MInt i)" for i by (simp add: typed_def sqlite3VdbeSerialType_def split: prod.splits)
  show "hdrBytes [typed toReal fmt m1] = hdrBytes [typed toReal fmt m2]" "bodyBytes [typed toReal fmt m1] = bodyBytes [typed toReal fmt m2]"
    using assms t p e by (auto simp: memValue_def memOk_def exactVal_def split: Mem.splits if_splits)
qed

lemma bytes_Cons: "hdrBytes (f # fs) = hdrBytes [f] @ hdrBytes fs" "bodyBytes (f # fs) = bodyBytes [f] @ bodyBytes fs"
  by (cases f, simp)+

lemma bytes_values:
  "map (memValue toReal) ms1 = map (memValue toReal) ms2 \<Longrightarrow> \<forall>m \<in> set ms1 \<union> set ms2. memOk toReal m \<and> exactVal (memValue toReal m) \<Longrightarrow>
   hdrBytes (map (typed toReal fmt) ms1) = hdrBytes (map (typed toReal fmt) ms2) \<and> bodyBytes (map (typed toReal fmt) ms1) = bodyBytes (map (typed toReal fmt) ms2)"
proof (induction ms1 arbitrary: ms2)
  case (Cons m ms1)
  then obtain m' ms2' where m: "ms2 = m' # ms2'" by (cases ms2) auto
  have f: "hdrBytes [typed toReal fmt m] = hdrBytes [typed toReal fmt m']" "bodyBytes [typed toReal fmt m] = bodyBytes [typed toReal fmt m']"
    by (rule typed_bytes; use Cons.prems m in simp)+
  have "hdrBytes (map (typed toReal fmt) ms1) = hdrBytes (map (typed toReal fmt) ms2') \<and> bodyBytes (map (typed toReal fmt) ms1) = bodyBytes (map (typed toReal fmt) ms2')"
    by (rule Cons.IH) (use Cons.prems m in simp_all)
  with f show ?case
    using bytes_Cons [of "typed toReal fmt m" "map (typed toReal fmt) ms1"] bytes_Cons [of "typed toReal fmt m'" "map (typed toReal fmt) ms2'"]
    unfolding m list.map by metis
qed simp

text \<open>
  The records of an index: \<open>n\<close> fields, the columns and the row number, without floating-point numbers.
\<close>

definition indexKeys :: "(i64 \<Rightarrow> u64) \<Rightarrow> nat \<Rightarrow> nat \<Rightarrow> blob set" where
  "indexKeys toReal fmt n = {rec. \<exists>ms. length ms = n \<and> (\<forall>m \<in> set ms. exactVal (memValue toReal m)) \<and> keyRecord toReal fmt ms rec}"

lemma record_values:
  assumes "keyRecord toReal fmt ms1 rec1" "keyRecord toReal fmt ms2 rec2" "\<forall>m \<in> set ms1 \<union> set ms2. exactVal (memValue toReal m)"
  shows "rec1 = rec2 \<longleftrightarrow> map (memValue toReal) ms1 = map (memValue toReal) ms2"
proof
  show "map (memValue toReal) ms1 = map (memValue toReal) ms2" if "rec1 = rec2" using keyRecordD(2) [OF assms(1)] keyRecordD(2) [OF assms(2)] that by simp
  assume e: "map (memValue toReal) ms1 = map (memValue toReal) ms2"
  have "\<forall>m \<in> set ms1 \<union> set ms2. memOk toReal m \<and> exactVal (memValue toReal m)" using assms(3) keyRecordD(3) [OF assms(1)] keyRecordD(3) [OF assms(2)] by blast
  from bytes_values [OF e this, of fmt] show "rec1 = rec2"
    using keyRecordD(1) [OF assms(1)] keyRecordD(1) [OF assms(2)] by (simp add: recBytes_def headerLen_def)
qed

lemma comparator_exact:
  "\<forall>k \<in> indexKeys toReal fmt n. \<forall>k' \<in> indexKeys toReal fmt n. recordComparator None k k' = 0 \<longleftrightarrow> k = k'"
proof (intro ballI)
  fix k k' assume "k \<in> indexKeys toReal fmt n" "k' \<in> indexKeys toReal fmt n"
  then obtain ms ms' where m: "length ms = n" "length ms' = n" "\<forall>m \<in> set ms \<union> set ms'. exactVal (memValue toReal m)"
    "keyRecord toReal fmt ms k" "keyRecord toReal fmt ms' k'" by (auto simp: indexKeys_def)
  have "recordComparator None k k' = 0 \<longleftrightarrow> map (memValue toReal) ms = map (memValue toReal) ms'"
    using recordComparator_fields [OF m(4,5), of None] compareFields_exact [of "map (memValue toReal) ms" "map (memValue toReal) ms'"] m(1-3) by auto
  then show "recordComparator None k k' = 0 \<longleftrightarrow> k = k'" using record_values [OF m(4,5,3)] by simp
qed

section \<open>A query with the leading fields\<close>

text \<open>The record \<open>k\<close> begins with the fields of the record \<open>q\<close>.\<close>

definition leadsTo :: "blob \<Rightarrow> blob \<Rightarrow> bool" where
  "leadsTo q k = (case (readRecord q, readRecord k) of (Some vs, Some ws) \<Rightarrow> take (length vs) ws = vs | _ \<Rightarrow> False)"

lemma comparator_leads:
  assumes "k \<in> indexKeys toReal fmt n" "q \<in> indexKeys toReal fmt j" "j \<le> n"
  shows "recordComparator None k q = 0 \<longleftrightarrow> leadsTo q k"
proof -
  obtain ms ms' where m: "length ms = n" "length ms' = j" "\<forall>m \<in> set ms \<union> set ms'. exactVal (memValue toReal m)"
    "keyRecord toReal fmt ms k" "keyRecord toReal fmt ms' q" using assms(1,2) by (auto simp: indexKeys_def)
  have "leadsTo q k \<longleftrightarrow> take j (map (memValue toReal) ms) = map (memValue toReal) ms'"
    using keyRecordD(2) [OF m(4)] keyRecordD(2) [OF m(5)] m(2) by (simp add: leadsTo_def)
  then show ?thesis
    using recordComparator_fields [OF m(4,5), of None] compareFields_exact [of "map (memValue toReal) ms" "map (memValue toReal) ms'"] m(1-3) assms(3)
    by (auto simp: min_absorb2)
qed

text \<open>
  The holders of the locks that a query for the record \<open>q\<close> can find in the index: of the keys that begin with its fields, and that, once the table has a bucket
  array, happen to be in the bucket of the hash of \<open>q\<close>.
\<close>

definition seenLocks :: "HashTab \<Rightarrow> PsmMem \<Rightarrow> int \<Rightarrow> blob \<Rightarrow> holder set" where
  "seenLocks T M i q = {h. \<exists>k. psmHolder blobComparator M i k = Some h \<and> leadsTo q k \<and> (ht T = None \<or> blobIndex k (htsize T) = blobIndex q (htsize T))}"

lemma query_seen:
  assumes inv: "psm_inv blobComparator M" and i: "0 \<le> i" "sqlite3HashI64Find (idxList M) (listHeap M) i = Some t" "tables M t = Some T"
    and keys: "\<And>k. psmHolder blobComparator M i k \<noteq> None \<Longrightarrow> k \<in> indexKeys toReal fmt n" and q: "q \<in> indexKeys toReal fmt j" "j \<le> n"
  obtains "seenLocks T M i q = {}" "sqlite3rowlockPsmLockRecordQuery (recordComparator None) M pid i q owner = Some SQLITE_OK"
  | h where "h \<in> seenLocks T M i q" "sqlite3rowlockPsmLockRecordQuery (recordComparator None) M pid i q owner = Some (if h = (pid, owner) then SQLITE_DONE else SQLITE_LOCKED)"
proof -
  obtain las tas where L: "psm_lists blobComparator M las tas" using inv unfolding psm_inv_def by blast
  have f: "t = tabOf M las i" using psm_find_table [OF L i(1)] i(2) by simp
  have t: "tabOf M las i \<noteq> 0" using i(3) psm_listsD(3) [OF L] f by (metis option.distinct(1))
  have T: "blob_inv blobComparator T (elemHeap M) (tas i)" using psm_table [OF L t] i(3) f by (metis option.inject)
  let ?H = "elemHeap M" let ?s = "scanned blobIndex T ?H (tas i) q"
  have sub: "a \<in> set (tas i) \<and> (ht T = None \<or> blobIndex (key_of ?H a) (htsize T) = blobIndex q (htsize T))" if "a \<in> set ?s" for a
    using that by (auto simp: scanned_def inBucket_def split: option.splits)
  have e: "findElementWithHash blobIndex (\<lambda>k k'. recordComparator None k k' = 0) T ?H q =
      Some (case ht T of None \<Rightarrow> 0 | Some _ \<Rightarrow> blobIndex q (htsize T), case find (\<lambda>a. recordComparator None (key_of ?H a) q = 0) ?s of None \<Rightarrow> 0 | Some a \<Rightarrow> a)"
    by (rule findElement_scan [where okkey = "\<lambda>_. True"]) (use T in \<open>simp_all add: hash_inv_def blobIndex_def\<close>)
  have lead: "recordComparator None (key_of ?H a) q = 0 \<longleftrightarrow> leadsTo q (key_of ?H a)" if "a \<in> set (tas i)" for a
    using psm_keys [OF L i(1) t that] by (intro comparator_leads [OF keys q]) auto
  show thesis
  proof (cases "find (\<lambda>a. recordComparator None (key_of ?H a) q = 0) ?s")
    case None
    have "seenLocks T M i q = {}"
    proof (rule ccontr)
      assume "seenLocks T M i q \<noteq> {}"
      then obtain h k where k: "psmHolder blobComparator M i k = Some h" "leadsTo q k" "ht T = None \<or> blobIndex k (htsize T) = blobIndex q (htsize T)"
        by (auto simp: seenLocks_def)
      have "contents (\<lambda>k k'. blobComparator k k' = 0) ?H (tas i) k \<noteq> 0"
        using k(1) psmHolder_eq [OF compareOk_blobComparator L i(1), of k] t by (auto simp: holderOf_def ptrOf_def split: if_splits)
      then obtain a where a: "a \<in> set (tas i)" "key_of ?H a = k"
        using contents_none [of "tas i" "\<lambda>k k'. blobComparator k k' = 0" ?H k] by (auto simp: blobComparator_eq)
      then have "a \<in> set ?s" using k(3) by (auto simp: scanned_def inBucket_def split: option.splits)
      then show False using None lead [OF a(1)] a k(2) by (auto simp: find_None_iff)
    qed
    moreover have "sqlite3rowlockPsmLockRecordQuery (recordComparator None) M pid i q owner = Some SQLITE_OK"
      using e None i by (simp add: sqlite3rowlockPsmLockRecordQuery_def sqlite3HashBlobFind_def hashFind_def)
    ultimately show thesis by (rule that(1))
  next
    case (Some a)
    then have a: "a \<in> set ?s" "recordComparator None (key_of ?H a) q = 0" by (auto simp: find_Some_iff)
    note s = sub [OF a(1)]
    obtain d where d: "idx M (data_of ?H a) = Some d" using psm_keys(2) [OF L i(1) t] s by blast
    have "psmHolder blobComparator M i (key_of ?H a) = Some (idxPid d, idxOwner d)" using psm_keys(1) [OF L i(1) t] s d by simp
    then have "(idxPid d, idxOwner d) \<in> seenLocks T M i q" using s lead a(2) by (auto simp: seenLocks_def)
    moreover obtain x where "?H a = Some x" "a \<noteq> 0" using hash_inv_addr [OF T, of a] s by auto
    then have "sqlite3HashBlobFind (recordComparator None) T ?H q = Some (data_of ?H a)"
      using e Some by (simp add: sqlite3HashBlobFind_def hashFind_def data_of_def)
    moreover have "data_of ?H a \<noteq> 0" using T s by (simp add: hash_inv_def)
    ultimately show thesis using i d by (intro that(2) [of "(idxPid d, idxOwner d)"]) (auto simp: sqlite3rowlockPsmLockRecordQuery_def heldByMe_def)
  qed
qed

text \<open>A shared memory in which one key of the index 3 is locked.\<close>

lemma sample_locked:
  obtains M t T where "psm_inv blobComparator M" "sqlite3HashI64Find (idxList M) (listHeap M) 3 = Some t" "tables M t = Some T" "ht T = None" "hcount T = 1"
    "\<forall>k'. psmHolder blobComparator M 3 k' = (if k' = k then Some (pid, owner) else None)" "idx M 15 = None" "elemHeap M 17 = None"
proof -
  obtain M where M: "psm_inv blobComparator M" "psmHasTable M 3" "\<forall>k. psmHolder blobComparator M 3 k = None"
    "tables M = [8 \<mapsto> hashInit]" "elemHeap M = Map.empty" "idx M = Map.empty" by (rule psm_sample)
  have room: "\<forall>t T. sqlite3HashI64Find (idxList M) (listHeap M) 3 = Some t \<longrightarrow> tables M t = Some T \<longrightarrow> hcount T + 1 < 2 ^ 30"
    using M(4) by (auto simp: hashInit_def split: if_splits)
  obtain M' where r: "sqlite3rowlockPsmLockRecord blobComparator M pid 3 k owner 5 7 True True = Some (SQLITE_OK, M')" "psm_inv blobComparator M'"
    and h: "\<forall>k'. psmHolder blobComparator M' 3 k' = (if k' = k then Some (pid, owner) else None)"
    using psm_lock_record [where pid = pid and k = k and owner = owner and keyOk = True and htOk = True and pNew = 5 and newElem = 7,
        OF compareOk_blobComparator M(1) _ M(2) room] M(3,5,6) by (auto simp: blobComparator_eq)
  obtain las tas where L: "psm_lists blobComparator M las tas" using M(1) unfolding psm_inv_def by blast
  have f: "sqlite3HashI64Find (idxList M) (listHeap M) 3 = Some (tabOf M las 3)" by (rule psm_find_table [OF L]) simp
  then have "tabOf M las 3 \<noteq> 0" using M(2) by (simp add: psmHasTable_def)
  then have "tabOf M las 3 = 8" using psm_listsD(5) [OF L, of 3] M(4) by (auto split: if_splits)
  then have f: "sqlite3HashI64Find (idxList M) (listHeap M) 3 = Some 8" using f by simp
  obtain T where "idxList M' = idxList M" "listHeap M' = listHeap M" "tables M' 8 = Some T" "ht T = None" "hcount T = 1" "idx M' 15 = None" "elemHeap M' 17 = None"
    using r(1) f M(4-6)
    by (auto simp: sqlite3rowlockPsmLockRecord_def sqlite3HashBlobFind_def hashFind_def findElementWithHash_def findElementLoop.simps hashInit_def
        sqlite3HashBlobInsert_def hashInsert_def insertElement_def bucketHead_def bucketPush_def wrap32_def Let_def)
  with r f h show thesis by (intro that [of M' 8 T]) simp_all
qed

section \<open>Properties\<close>

text \<open>
  C27. Locking an index key with the comparison the program uses, in an index whose locked keys are records with the same number of fields and no floating-point
  numbers, and the sequence \<open>BINARY\<close>: a key that someone has locked is refused (\<open>SQLITE_LOCKED\<close>) or, for its holder, reported
  (\<open>SQLITE_DONE\<close>), and nothing changes; a free key is then locked by the caller and by no one else, every other key keeps its holder, and the shared memory
  stays well-formed, with keys of the same form. When an allocation fails nothing is locked; for the holder object the result is \<open>SQLITE_NOMEM\<close>, but for
  the hash element it is \<open>SQLITE_OK\<close>. Two keys are the same exactly if their records have the same bytes.
\<close>

theorem PsmLockRecord_correct:
  assumes inv: "psm_inv blobComparator M" and i: "0 \<le> i" "psmHasTable M i"
    and keys: "\<forall>k'. psmHolder blobComparator M i k' \<noteq> None \<longrightarrow> k' \<in> indexKeys toReal fmt n" "k \<in> indexKeys toReal fmt n"
    and room: "\<forall>t T. sqlite3HashI64Find (idxList M) (listHeap M) i = Some t \<longrightarrow> tables M t = Some T \<longrightarrow> hcount T + 1 < 2 ^ 30"
    and new: "pNew \<noteq> 0 \<longrightarrow> idx M pNew = None" "newElem \<noteq> 0 \<longrightarrow> elemHeap M newElem = None"
  shows "\<exists>M'. sqlite3rowlockPsmLockRecord (recordComparator None) M pid i k owner pNew newElem keyOk htOk =
      Some (case psmHolder blobComparator M i k of Some h \<Rightarrow> if h = (pid, owner) then SQLITE_DONE else SQLITE_LOCKED
            | None \<Rightarrow> if pNew = 0 then SQLITE_NOMEM else SQLITE_OK, M') \<and> psm_inv blobComparator M' \<and>
    (\<forall>i'\<ge>0. \<forall>k'. psmHolder blobComparator M' i' k' =
       (if i' = i \<and> k' = k \<and> psmHolder blobComparator M i k = None \<and> pNew \<noteq> 0 \<and> newElem \<noteq> 0 \<and> keyOk
        then Some (pid, owner) else psmHolder blobComparator M i' k')) \<and>
    (\<forall>k'. psmHolder blobComparator M' i k' \<noteq> None \<longrightarrow> k' \<in> indexKeys toReal fmt n)"
proof -
  have e: "sqlite3rowlockPsmLockRecord (recordComparator None) M pid i k owner pNew newElem keyOk htOk =
      sqlite3rowlockPsmLockRecord blobComparator M pid i k owner pNew newElem keyOk htOk"
    by (rule psm_agree(1) [OF inv i comparator_exact keys(2)]) (use keys(1) in blast)
  obtain M' where r: "sqlite3rowlockPsmLockRecord blobComparator M pid i k owner pNew newElem keyOk htOk =
      Some (case psmHolder blobComparator M i k of Some h \<Rightarrow> if h = (pid, owner) then SQLITE_DONE else SQLITE_LOCKED
            | None \<Rightarrow> if pNew = 0 then SQLITE_NOMEM else SQLITE_OK, M')" "psm_inv blobComparator M'"
    and h: "\<forall>i'\<ge>0. \<forall>k'. psmHolder blobComparator M' i' k' =
       (if i' = i \<and> blobComparator k k' = 0 \<and> psmHolder blobComparator M i k = None \<and> pNew \<noteq> 0 \<and> newElem \<noteq> 0 \<and> keyOk
        then Some (pid, owner) else psmHolder blobComparator M i' k')"
    using psm_lock_record [where pid = pid and k = k and owner = owner and keyOk = keyOk and htOk = htOk, OF compareOk_blobComparator inv i room new] by blast
  have "k' \<in> indexKeys toReal fmt n" if "psmHolder blobComparator M' i k' \<noteq> None" for k'
    using h i(1) keys that by (auto simp: blobComparator_eq split: if_splits)
  with r h show ?thesis unfolding e by (intro exI [of _ M']) (auto simp: blobComparator_eq)
qed

text \<open>Two records with two fields, of which the second has the other's first column but another row number.\<close>

lemma sample_key:
  assumes "memOk (\<lambda>i. 0) a" "memOk (\<lambda>i. 0) b" "exactVal (memValue (\<lambda>i. 0) a)" "exactVal (memValue (\<lambda>i. 0) b)" "memBytes a \<le> 8" "memBytes b \<le> 8"
  obtains k where "k \<in> indexKeys (\<lambda>i. 0) 4 2" "readRecord k = Some [memValue (\<lambda>i. 0) a, memValue (\<lambda>i. 0) b]"
proof -
  have ok: "\<forall>m \<in> set [a, b]. memOk (\<lambda>i. 0) m" "sum_list (map memBytes [a, b]) + 5 * length [a, b] < 2 ^ 30" using assms by simp_all
  obtain k i j where k: "vdbeMakeRecord (\<lambda>i. 0) True 4 [a, b] = Some (SQLITE_OK, k, i, j)" "readRecord k = Some (map (memValue (\<lambda>i. 0)) [a, b])"
    by (rule make_record [OF ok, of 4]) (rule that)
  show thesis
    by (rule that [of k]) (use k ok assms(3,4) in \<open>auto simp: indexKeys_def keyRecord_def intro!: exI [of _ "[a, b]"]\<close>)
qed

theorem PsmLockRecord_correct_witness:
  "\<exists>M k k' M' M''. readRecord k = Some [VText [97], VInt 1] \<and> readRecord k' = Some [VText [97], VInt 2] \<and> psmHolder blobComparator M 3 k = Some (42, 6) \<and>
     sqlite3rowlockPsmLockRecord (recordComparator None) M 43 3 k 8 15 17 True True = Some (SQLITE_LOCKED, M') \<and>
     sqlite3rowlockPsmLockRecord (recordComparator None) M 43 3 k' 8 15 17 True True = Some (SQLITE_OK, M'') \<and> psmHolder blobComparator M'' 3 k' = Some (43, 8)"
proof -
  obtain k where k: "k \<in> indexKeys (\<lambda>i. 0) 4 2" "readRecord k = Some [VText [97], VInt 1]"
    by (rule sample_key [of "MStr [97]" "MInt 1"]) (simp_all add: memOk_def memValue_def exactVal_def memBytes_def)
  obtain k' where k': "k' \<in> indexKeys (\<lambda>i. 0) 4 2" "readRecord k' = Some [VText [97], VInt 2]"
    by (rule sample_key [of "MStr [97]" "MInt 2"]) (simp_all add: memOk_def memValue_def exactVal_def memBytes_def)
  have ne: "k' \<noteq> k" using k(2) k'(2) by auto
  obtain M t T where M: "psm_inv blobComparator M" "sqlite3HashI64Find (idxList M) (listHeap M) 3 = Some t" "tables M t = Some T" "hcount T = 1"
    "\<forall>k'. psmHolder blobComparator M 3 k' = (if k' = k then Some (42, 6) else None)" "idx M 15 = None" "elemHeap M 17 = None" by (rule sample_locked [of k 42 6])
  have t: "psmHasTable M 3" using M(1-3) unfolding psmHasTable_def psm_inv_def by (metis option.distinct(1) psm_listsD(3))
  have room: "\<forall>t T. sqlite3HashI64Find (idxList M) (listHeap M) 3 = Some t \<longrightarrow> tables M t = Some T \<longrightarrow> hcount T + 1 < 2 ^ 30" using M(2-4) by auto
  have keys: "\<forall>j. psmHolder blobComparator M 3 j \<noteq> None \<longrightarrow> j \<in> indexKeys (\<lambda>i. 0) 4 2" using M(5) k(1) by auto
  note lock = PsmLockRecord_correct [where pNew = 15 and newElem = 17 and pid = 43 and owner = 8 and keyOk = True and htOk = True, OF M(1) _ t keys _ room]
  obtain M' where "sqlite3rowlockPsmLockRecord (recordComparator None) M 43 3 k 8 15 17 True True = Some (SQLITE_LOCKED, M')"
    using lock [OF _ k(1)] M(5-7) by auto
  moreover obtain M'' where "sqlite3rowlockPsmLockRecord (recordComparator None) M 43 3 k' 8 15 17 True True = Some (SQLITE_OK, M'')" "psmHolder blobComparator M'' 3 k' = Some (43, 8)"
    using lock [OF _ k'(1)] M(5-7) ne by auto
  ultimately show ?thesis using k(2) k'(2) M(5) by (intro exI [of _ M] exI [of _ k] exI [of _ k'] exI [of _ M'] exI [of _ M'']) simp
qed

text \<open>
  C28. Releasing an index key with the comparison the program uses, under the same conditions: \<open>sqlite3rowlockPsmUnlockRecord\<close> frees exactly the given key, whoever
  holds it, in this index and no other, and the shared memory stays well-formed; \<open>sqlite3rowlockPsmLockRecordQuery\<close> for a whole key reports its holder.
\<close>

theorem PsmUnlockRecord_records:
  assumes inv: "psm_inv blobComparator M" and i: "0 \<le> i" "psmHasTable M i"
    and keys: "\<forall>k'. psmHolder blobComparator M i k' \<noteq> None \<longrightarrow> k' \<in> indexKeys toReal fmt n" "k \<in> indexKeys toReal fmt n"
  shows "\<exists>M'. sqlite3rowlockPsmUnlockRecord (recordComparator None) M i k = Some M' \<and> psm_inv blobComparator M' \<and>
    (\<forall>i'\<ge>0. \<forall>k'. psmHolder blobComparator M' i' k' = (if i' = i \<and> k' = k then None else psmHolder blobComparator M i' k')) \<and>
    sqlite3rowlockPsmLockRecordQuery (recordComparator None) M pid i k owner =
      Some (case psmHolder blobComparator M i k of Some h \<Rightarrow> if h = (pid, owner) then SQLITE_DONE else SQLITE_LOCKED | None \<Rightarrow> SQLITE_OK)"
proof -
  have e: "sqlite3rowlockPsmUnlockRecord (recordComparator None) M i k = sqlite3rowlockPsmUnlockRecord blobComparator M i k"
    "sqlite3rowlockPsmLockRecordQuery (recordComparator None) M pid i k owner = sqlite3rowlockPsmLockRecordQuery blobComparator M pid i k owner"
    by (rule psm_agree(2,3) [OF inv i comparator_exact keys(2)]; use keys(1) in blast)+
  show ?thesis using PsmUnlockRecord_correct [OF compareOk_blobComparator inv i, of k pid owner] unfolding e by (auto simp: blobComparator_eq eq_commute [of k])
qed

theorem PsmUnlockRecord_records_witness:
  "\<exists>M k M'. readRecord k = Some [VText [97], VInt 1] \<and> psmHolder blobComparator M 3 k = Some (42, 6) \<and>
     sqlite3rowlockPsmLockRecordQuery (recordComparator None) M 43 3 k 8 = Some SQLITE_LOCKED \<and>
     sqlite3rowlockPsmUnlockRecord (recordComparator None) M 3 k = Some M' \<and> psmHolder blobComparator M' 3 k = None"
proof -
  obtain k where k: "k \<in> indexKeys (\<lambda>i. 0) 4 2" "readRecord k = Some [VText [97], VInt 1]"
    by (rule sample_key [of "MStr [97]" "MInt 1"]) (simp_all add: memOk_def memValue_def exactVal_def memBytes_def)
  obtain M t T where M: "psm_inv blobComparator M" "sqlite3HashI64Find (idxList M) (listHeap M) 3 = Some t" "tables M t = Some T"
    "\<forall>k'. psmHolder blobComparator M 3 k' = (if k' = k then Some (42, 6) else None)" by (rule sample_locked [of k 42 6])
  have t: "psmHasTable M 3" using M(1-3) unfolding psmHasTable_def psm_inv_def by (metis option.distinct(1) psm_listsD(3))
  have keys: "\<forall>j. psmHolder blobComparator M 3 j \<noteq> None \<longrightarrow> j \<in> indexKeys (\<lambda>i. 0) 4 2" using M(4) k(1) by auto
  obtain M' where "sqlite3rowlockPsmUnlockRecord (recordComparator None) M 3 k = Some M'" "psmHolder blobComparator M' 3 k = None"
    "sqlite3rowlockPsmLockRecordQuery (recordComparator None) M 43 3 k 8 = Some SQLITE_LOCKED"
    using PsmUnlockRecord_records [where pid = 43 and owner = 8, OF M(1) _ t keys k(1)] M(4) by auto
  with k(2) M(4) show ?thesis by (intro exI [of _ M] exI [of _ k] exI [of _ M']) simp
qed

text \<open>
  C38. The check for a conflicting key with the comparison the program uses. The locked keys are the records of the index, with the row number; the query has the
  columns of the key only. \<open>sqlite3BtreeNoConflict\<close> reports that the key exists, without moving the cursor, where the locks of keys with these columns are held by
  other connections, and gives the result of the seek for the key where there are none or only the connection's own; where both occur it does one of the two. But as
  soon as the table of the index has a bucket array, from ten locks on, only locks count that happen to be in the bucket of the hash of the query, so
  the lock of another connection is in general not seen.
\<close>

theorem NoConflict_sees_locks:
  assumes inv: "psm_inv blobComparator M" and i: "0 \<le> iTable" "sqlite3HashI64Find (idxList M) (listHeap M) iTable = Some t" "tables M t = Some T"
    and keys: "\<forall>k. psmHolder blobComparator M iTable k \<noteq> None \<longrightarrow> k \<in> indexKeys toReal fmt n"
    and q: "keyRecord toReal fmt (take (nFieldU pIdxKey) (aMem pIdxKey)) q" "\<forall>m \<in> set (take (nFieldU pIdxKey) (aMem pIdxKey)). exactVal (memValue toReal m)"
      "nFieldU pIdxKey \<le> n"
    and r: "r = sqlite3BtreeNoConflict toReal True (recordComparator None) ops True M pid owner iTable fmt pRootPage pIdxKey C"
      "seek = map_option (\<lambda>(rc, res, r, C'). (rc, Some res, r, C')) (sqlite3BtreeMovetoUnpackedAll ops pRootPage (Some pIdxKey) 0 OP_NoConflict C)"
      "conflict = Some (SQLITE_OK, Some 0, Some pIdxKey, C)"
  shows "(seenLocks T M iTable q \<subseteq> {(pid, owner)} \<longrightarrow> r = seek) \<and>
    (seenLocks T M iTable q \<noteq> {} \<and> (pid, owner) \<notin> seenLocks T M iTable q \<longrightarrow> r = conflict) \<and> r \<in> {seek, conflict}"
proof -
  let ?ms = "take (nFieldU pIdxKey) (aMem pIdxKey)"
  obtain a b where v: "vdbeMakeRecord toReal True fmt ?ms = Some (SQLITE_OK, q, a, b)" using q(1) by (auto simp: keyRecord_def)
  have qi: "q \<in> indexKeys toReal fmt (length ?ms)" "length ?ms \<le> n" using q by (auto simp: indexKeys_def intro!: exI [of _ ?ms])
  have e: "r = Option.bind (sqlite3rowlockPsmLockRecordQuery (recordComparator None) M pid iTable q owner)
      (\<lambda>rc. if rc = SQLITE_OK \<or> rc = SQLITE_DONE then seek else if rc = SQLITE_LOCKED then conflict else Some (rc, None, Some pIdxKey, C))"
    unfolding r by (simp add: sqlite3BtreeNoConflict_def btreeLockIndexKeyQuery_def v)
  show ?thesis
  proof (rule query_seen [OF inv i keys [rule_format] qi, of pid owner])
    assume "seenLocks T M iTable q = {}" "sqlite3rowlockPsmLockRecordQuery (recordComparator None) M pid iTable q owner = Some SQLITE_OK"
    then show ?thesis using e by simp
  next
    fix h assume "h \<in> seenLocks T M iTable q"
      "sqlite3rowlockPsmLockRecordQuery (recordComparator None) M pid iTable q owner = Some (if h = (pid, owner) then SQLITE_DONE else SQLITE_LOCKED)"
    then show ?thesis using e by (cases "h = (pid, owner)") auto
  qed
qed

text \<open>
  Another connection has locked the key with column 7 and row number 1. The query for the column 7 reports a conflict.
\<close>

theorem NoConflict_sees_locks_witness:
  "\<exists>M k. readRecord k = Some [VInt 7, VInt 1] \<and> psmHolder blobComparator M 3 k = Some (43, 8) \<and>
     (\<forall>ops root C. sqlite3BtreeNoConflict (\<lambda>i. 0) True (recordComparator None) (ops :: (nat, Mem list) SeekOps) True M 42 6 3 4 root
        \<lparr>aMem = [MInt 7], nFieldU = 1, nKeyField = 1, default_rc = 0, eqSeen = 0\<rparr> C =
      Some (SQLITE_OK, Some 0, Some \<lparr>aMem = [MInt 7], nFieldU = 1, nKeyField = 1, default_rc = 0, eqSeen = 0\<rparr>, C))"
proof -
  let ?u = "\<lparr>aMem = [MInt 7], nFieldU = 1, nKeyField = 1, default_rc = 0, eqSeen = 0\<rparr>"
  obtain k where k: "k \<in> indexKeys (\<lambda>i. 0) 4 2" "readRecord k = Some [VInt 7, VInt 1]"
    by (rule sample_key [of "MInt 7" "MInt 1"]) (simp_all add: memOk_def memValue_def exactVal_def memBytes_def)
  obtain M t T where M: "psm_inv blobComparator M" "sqlite3HashI64Find (idxList M) (listHeap M) 3 = Some t" "tables M t = Some T" "ht T = None"
    "\<forall>k'. psmHolder blobComparator M 3 k' = (if k' = k then Some (43, 8) else None)" by (rule sample_locked [of k 43 8])
  have ok: "\<forall>m \<in> set [MInt 7]. memOk (\<lambda>i. 0) m" "sum_list (map memBytes [MInt 7]) + 5 * length [MInt 7] < 2 ^ 30" by (simp_all add: memOk_def memBytes_def)
  obtain q a b where q: "vdbeMakeRecord (\<lambda>i. 0) True 4 [MInt 7] = Some (SQLITE_OK, q, a, b)" "readRecord q = Some [VInt 7]"
    by (rule make_record [OF ok, of 4]) (simp add: memValue_def)
  have kq: "keyRecord (\<lambda>i. 0) 4 (take (nFieldU ?u) (aMem ?u)) q" using q(1) ok by (simp add: keyRecord_def)
  have s: "seenLocks T M 3 q = {(43, 8)}" using M(4,5) k(2) q(2) by (auto simp: seenLocks_def leadsTo_def)
  have "sqlite3BtreeNoConflict (\<lambda>i. 0) True (recordComparator None) (ops :: (nat, Mem list) SeekOps) True M 42 6 3 4 root ?u C = Some (SQLITE_OK, Some 0, Some ?u, C)" for ops root C
    using NoConflict_sees_locks [where n = 2 and ops = ops and pid = 42 and owner = 6 and pRootPage = root and C = C, OF M(1) _ M(2,3) _ kq _ _ refl refl refl] M(5) k(1) by (auto simp: s exactVal_def memValue_def split: if_splits)
  with k(2) M(5) show ?thesis by metis
qed

end
