(* ===== verification/Trans_Commit.thy ===== *)
theory Trans_Commit
  imports Trans_Tables
begin

text \<open>
  The commit of a transaction over all its tables (\<open>exclusiveLockTables\<close>, \<open>sqlite3TransBtreeCommit\<close> of \<open>rowlock.c\<close>) and the
  rollback. The loops walk the elements of the root page mapping; \<open>None\<close> is a walk that does not end, a
  dangling pointer, or an access beyond an array.
\<close>

section \<open>Locking the modified tables\<close>

partial_function (option) countElems :: "int heap \<Rightarrow> addr \<Rightarrow> u64 \<Rightarrow> u64 option" where
  "countElems H elem counter =
     (if elem = 0 then Some counter
      else case H elem of None \<Rightarrow> None | Some e \<Rightarrow> countElems H (nextH e) (wrap64 (counter + 1)))"

text \<open>
  One pass over the mapping: the table of every element is opened, and locked exclusively if it is modified.
  The result: return code, the arrays \<open>isModified\<close> and \<open>prevLock\<close>, and the connection.
\<close>

partial_function (option) exclusiveLockLoop ::
  "('b, 'c) DbOps \<Rightarrow> 'c EditOps \<Rightarrow> (nat \<Rightarrow> TabAlloc) \<Rightarrow> Caller \<Rightarrow> addr \<Rightarrow> nat \<Rightarrow> bool list \<Rightarrow> u8 list \<Rightarrow> 'b Conn \<Rightarrow>
   (rc \<times> bool list \<times> u8 list \<times> 'b Conn) option" where
  "exclusiveLockLoop db ops A me elem i isModified prevLock K =
     (if elem = 0 then Some (SQLITE_OK, isModified, prevLock, K)
      else if i \<ge> length isModified then None
      else Option.bind (rootHeap (cWorld K) elem) (\<lambda>e.
        Option.bind (rootData (cWorld K) (dataH e)) (\<lambda>d.
        Option.bind (sqlite3BtreeCursorAll db (A i) K (keyH e) 0 (pKeyInfo d) 1) (\<lambda>(rc1, X1, K1).
          if rc1 \<noteq> SQLITE_OK then Some (rc1, isModified, prevLock, K1)
          else Option.bind X1 (\<lambda>X. Option.bind (mergedCursor X) (\<lambda>C.
            let (rc2, dirty) = isTableModified ops False C in
            if rc2 \<noteq> SQLITE_OK then Some (rc2, isModified, prevLock, sqlite3BtreeCloseCursorAll db X K1)
            else Option.bind
              (if dirty then sqlite3rowlockIpcLockTable (tableArea (cWorld K1)) (myPid me) (myOwner me) (keyH e) EXCLSV_LOCK MODE_LOCK_COMMIT
               else Some (SQLITE_OK, None, tableArea (cWorld K1)))
              (\<lambda>(rc3, prev, m).
                let K2 = sqlite3BtreeCloseCursorAll db X (K1\<lparr>cWorld := (cWorld K1)\<lparr>tableArea := m\<rparr>\<rparr>);
                    isModified' = isModified[i := dirty];
                    prevLock' = (case prev of None \<Rightarrow> prevLock | Some l \<Rightarrow> prevLock[i := l])
                in if rc3 \<noteq> SQLITE_OK then Some (rc3, isModified', prevLock', K2)
                   else Option.bind (rootHeap (cWorld K2) elem) (\<lambda>e'.
                     exclusiveLockLoop db ops A me (nextH e') (i + 1) isModified' prevLock' K2)))))))) "

text \<open>
  The error path. The calls pass \<open>MODE_LOCK_FORCE\<close> for the level and the former level for the mode, as the code does.
\<close>

partial_function (option) restoreLoop :: "Caller \<Rightarrow> int heap \<Rightarrow> addr \<Rightarrow> nat \<Rightarrow> bool list \<Rightarrow> u8 list \<Rightarrow> TableArea \<Rightarrow> TableArea option" where
  "restoreLoop me H elem i isModified prevLock m =
     (if elem = 0 then Some m
      else if i \<ge> length isModified then None
      else case H elem of
          None \<Rightarrow> None
        | Some e \<Rightarrow>
            Option.bind
              (if isModified ! i
               then map_option (\<lambda>(rc, prev, m'). m')
                 (sqlite3rowlockIpcLockTable m (myPid me) (myOwner me) (keyH e) MODE_LOCK_FORCE (prevLock ! i))
               else Some m)
              (\<lambda>m'. restoreLoop me H (nextH e) (i + 1) isModified prevLock m'))"

definition restoreLocks :: "Caller \<Rightarrow> bool list option \<Rightarrow> u8 list \<Rightarrow> u8 \<Rightarrow> LockWorld \<Rightarrow> LockWorld option" where
  "restoreLocks me isModified prevLock prevLockMaster W =
     Option.bind (case isModified of None \<Rightarrow> Some (tableArea W)
                  | Some ms \<Rightarrow> restoreLoop me (rootHeap W) (firstH (rootPages W)) 0 ms prevLock (tableArea W)) (\<lambda>m.
       Option.bind (sqlite3rowlockIpcLockTable m (myPid me) (myOwner me) SCHEMA_ROOT MODE_LOCK_FORCE prevLockMaster) (\<lambda>(rc, prev, m').
         Some (W\<lparr>tableArea := m'\<rparr>)))"

text \<open>The pass over the mapping with its error path.\<close>

definition lockModified ::
  "('b, 'c) DbOps \<Rightarrow> 'c EditOps \<Rightarrow> (nat \<Rightarrow> TabAlloc) \<Rightarrow> Caller \<Rightarrow> nat \<Rightarrow> u8 \<Rightarrow> 'b Conn \<Rightarrow> (rc \<times> 'b Conn) option" where
  "lockModified db ops A me counter prevLockMaster K =
     Option.bind (exclusiveLockLoop db ops A me (firstH (rootPages (cWorld K))) 0 (replicate counter False) (replicate counter 0) K)
       (\<lambda>(rc, ms, ps, K1).
         if rc = SQLITE_OK then Some (SQLITE_OK, K1)
         else Option.bind (restoreLocks me (Some ms) ps prevLockMaster (cWorld K1)) (\<lambda>W. Some (rc, K1\<lparr>cWorld := W\<rparr>)))"

text \<open>\<open>curOk\<close> and \<open>arrOk\<close> are the results of allocating the cursor and the two arrays.\<close>

definition exclusiveLockTables ::
  "('b, 'c) DbOps \<Rightarrow> 'c EditOps \<Rightarrow> (nat \<Rightarrow> TabAlloc) \<Rightarrow> bool \<Rightarrow> bool \<Rightarrow> Caller \<Rightarrow> 'b Conn \<Rightarrow> (rc \<times> 'b Conn) option" where
  "exclusiveLockTables db ops A curOk arrOk me K =
     (if \<not> curOk then Some (SQLITE_NOMEM, K)
      else Option.bind (countElems (rootHeap (cWorld K)) (firstH (rootPages (cWorld K))) 0) (\<lambda>counter.
        if counter = 0 then
          Option.bind (exclusiveLockLoop db ops A me (firstH (rootPages (cWorld K))) 0 [] [] K) (\<lambda>(rc, ms, ps, K1). Some (rc, K1))
        else
          Option.bind (sqlite3rowlockIpcLockTable (tableArea (cWorld K)) (myPid me) (myOwner me) SCHEMA_ROOT WRITE_LOCK MODE_LOCK_COMMIT)
            (\<lambda>(rc1, prev, m).
              let K1 = K\<lparr>cWorld := (cWorld K)\<lparr>tableArea := m\<rparr>\<rparr>; prevLockMaster = (case prev of None \<Rightarrow> 0 | Some l \<Rightarrow> l) in
              if rc1 \<noteq> SQLITE_OK then Some (rc1, K1)
              else if \<not> arrOk then
                Option.bind (restoreLocks me None [] prevLockMaster (cWorld K1)) (\<lambda>W. Some (SQLITE_NOMEM, K1\<lparr>cWorld := W\<rparr>))
              else
                lockModified db ops A me counter prevLockMaster K1)))"

section \<open>Commit and rollback\<close>

partial_function (option) commitLoop ::
  "('b, 'c) DbOps \<Rightarrow> 'c EditOps \<Rightarrow> (nat \<Rightarrow> TabAlloc) \<Rightarrow> addr \<Rightarrow> nat \<Rightarrow> 'b Conn \<Rightarrow> (rc \<times> 'b Conn) option" where
  "commitLoop db ops A elem i K =
     (if elem = 0 then Some (SQLITE_OK, K)
      else Option.bind (rootHeap (cWorld K) elem) (\<lambda>e.
        Option.bind (rootData (cWorld K) (dataH e)) (\<lambda>d.
          let rc0 = dLockTable db (keyH e) (cShared K) in
          if rc0 \<noteq> SQLITE_OK then Some (rc0, K)
          else Option.bind (sqlite3BtreeCursorAll db (A i) K (keyH e) BTREE_WRCSR (pKeyInfo d) 1) (\<lambda>(rc1, X1, K1).
            if rc1 \<noteq> SQLITE_OK then Some (rc1, K1)
            else Option.bind X1 (\<lambda>X. Option.bind (mergedCursor X) (\<lambda>C. Option.bind (rootData (cWorld K1) (dataH e)) (\<lambda>d1.
              Option.bind (commitTable ops (pKeyInfo d \<noteq> 0) d1 C) (\<lambda>(rc2, C').
                let K2 = sqlite3BtreeCloseCursorAll db (X\<lparr>ocCur := pCur C', ocTrans := Some (pCurIns C', pCurDel C')\<rparr>) K1 in
                if rc2 \<noteq> SQLITE_OK then Some (rc2, K2)
                else Option.bind (rootHeap (cWorld K2) elem) (\<lambda>e'. commitLoop db ops A (nextH e') (i + 1) K2)))))))))"

text \<open>The last part of the commit: writing into the shared tables, and the end of the transaction.\<close>

definition commitTables ::
  "('b, 'c) DbOps \<Rightarrow> 'c EditOps \<Rightarrow> (nat \<Rightarrow> TabAlloc) \<Rightarrow> Caller \<Rightarrow> 'b Conn \<Rightarrow> (rc \<times> 'b Conn) option" where
  "commitTables db ops A me K =
     (let (rc1, b) = (if (case cTrans K of None \<Rightarrow> False | Some t \<Rightarrow> dInTrans db t) \<and> \<not> dInTrans db (cShared K)
                      then dBegin db 1 (cShared K) else (SQLITE_OK, cShared K));
          K1 = K\<lparr>cShared := b\<rparr>
      in if rc1 \<noteq> SQLITE_OK then Some (rc1, K1)
         else Option.bind (commitLoop db ops A (firstH (rootPages (cWorld K1))) 0 K1) (\<lambda>(rc2, K2).
           if rc2 \<noteq> SQLITE_OK then Some (rc2, K2)
           else Option.bind (sqlite3TransBtreeRollback me (dRollback db) (cTrans K2) (cSave K2) (cWorld K2)) (\<lambda>(t, S, W).
             Some (SQLITE_OK, K2\<lparr>cTrans := t, cSave := S, cWorld := W\<rparr>))))"

definition sqlite3TransBtreeCommit ::
  "('b, 'c) DbOps \<Rightarrow> 'c EditOps \<Rightarrow> (nat \<Rightarrow> TabAlloc) \<Rightarrow> bool \<Rightarrow> bool \<Rightarrow> bool \<Rightarrow> Caller \<Rightarrow> 'b Conn \<Rightarrow> (rc \<times> 'b Conn) option" where
  "sqlite3TransBtreeCommit db ops A curOk arrOk commitOk me K =
     (if \<not> transBtreeIsUsed K \<or> dReadOnly db (cShared K) then Some (SQLITE_OK, K)
      else Option.bind (sqlite3rowlockIpcLockTableQuery (tableArea (cWorld K)) (myOwner me) SCHEMA_ROOT) (\<lambda>eLock.
        Option.bind (exclusiveLockTables db ops A curOk arrOk me K) (\<lambda>(rc1, K1).
          if rc1 \<noteq> SQLITE_OK then Some (rc1, K1)
          else let (rc2, b) = (if eLock \<noteq> WRITE_LOCK then dCacheReset db (cShared K1) else (SQLITE_OK, cShared K1)); K2 = K1\<lparr>cShared := b\<rparr> in
            if rc2 \<noteq> SQLITE_OK then Some (rc2, K2)
            else if \<not> commitOk then Some (SQLITE_NOMEM, K2)
            else commitTables db ops A me K2)))"

definition sqlite3BtreeRollbackAll ::
  "('b, 'c) DbOps \<Rightarrow> ('b \<Rightarrow> rc \<times> 'b) \<Rightarrow> Caller \<Rightarrow> 'b Conn \<Rightarrow> (rc \<times> 'b Conn) option" where
  "sqlite3BtreeRollbackAll db xRollback me K =
     Option.bind (sqlite3TransBtreeRollback me (dRollback db) (cTrans K) (cSave K) (cWorld K)) (\<lambda>(t, S, W).
       let (rc, b) = xRollback (cShared K) in Some (rc, \<lparr>cShared = b, cTrans = t, cSave = S, cWorld = W, cSchema = cSchema K, nOpenSp = nOpenSp K\<rparr>))"

section \<open>Walking the mapping\<close>

lemma roots_first: "rootsOk W as \<Longrightarrow> firstH (rootPages W) = hdq as 0"
  by (simp add: rootsOk_def hash_inv_def shape_inv_def)

lemma countElems_ok:
  assumes ok: "rootsOk W as"
  shows "as = xs @ ys \<Longrightarrow> n = length xs \<Longrightarrow> countElems (rootHeap W) (hdq ys 0) n = Some (length as)"
proof (induction ys arbitrary: xs n)
  case Nil
  then show ?case by (subst countElems.simps) simp
next
  case (Cons a ys)
  obtain e where e: "a \<noteq> 0" "rootHeap W a = Some e" "nextH e = hdq ys 0" by (rule roots_elem [OF ok Cons.prems(1)])
  have "wrap64 (n + 1) = n + 1" using ok Cons.prems by (simp add: rootsOk_def wrap64_def)
  then have "countElems (rootHeap W) (hdq ys 0) (wrap64 (n + 1)) = Some (length as)"
    using Cons.prems Cons.IH [of "xs @ [a]" "wrap64 (n + 1)"] by simp
  then show ?case using e by (subst countElems.simps) simp
qed

section \<open>One call for a table lock\<close>

text \<open>What every mode has in common: the locks of the other holders, and the caller's on other tables, stay.\<close>

definition lockStep :: "Caller \<Rightarrow> int \<Rightarrow> TableArea \<Rightarrow> TableArea \<Rightarrow> bool" where
  "lockStep me t m m' \<longleftrightarrow> table_inv m' \<and> nCacheT m' = nCacheT m \<and> cachedT m' = cachedT m \<and> nElementT m' = nElementT m \<and>
     (\<forall>k. k \<noteq> (t, myPid me, myOwner me) \<longrightarrow> table_abs m' k = table_abs m k)"

definition heldAtLeast :: "u8 \<Rightarrow> Caller \<Rightarrow> TableArea \<Rightarrow> int \<Rightarrow> bool" where
  "heldAtLeast l me m t \<longleftrightarrow> (\<exists>e\<ge>l. table_abs m (t, myPid me, myOwner me) = Some e)"

lemma lockTable_frame:
  assumes "sqlite3rowlockIpcLockTable m p ow t l mode = Some (rc, prev, m')"
  shows "nCacheT m' = nCacheT m \<and> cachedT m' = cachedT m \<and> nElementT m' = nElementT m \<and> nLockT m' \<le> nLockT m + 1"
proof -
  let ?h = "xCalcHash tableClass m t"
  obtain r where "lockTableLoop m p ow t l mode ?h ?h None = Some r"
    using assms by (auto simp: sqlite3rowlockIpcLockTable_def Let_def bind_eq_Some_conv)
  with assms show ?thesis by (cases r) (auto simp: sqlite3rowlockIpcLockTable_def Let_def wrap64_def split: if_splits)
qed

lemma lock_call:
  assumes "table_inv m" "t \<noteq> 0" "myPid me \<noteq> 0" "myOwner me \<noteq> 0"
  obtains rc prev m' where "sqlite3rowlockIpcLockTable m (myPid me) (myOwner me) t l mode = Some (rc, prev, m')" "lockStep me t m m'"
    "rc \<in> {SQLITE_OK, SQLITE_LOCKED, SQLITE_NOMEM}" "rc = SQLITE_OK \<Longrightarrow> heldAtLeast l me m' t"
proof -
  obtain rc prev m' where r: "sqlite3rowlockIpcLockTable m (myPid me) (myOwner me) t l mode = Some (rc, prev, m')" "table_inv m'"
    "lock_outcome (table_abs m) (tableConflict m (myPid me) (myOwner me) t l mode) (nLockT m < nElementT m - 1) (t, myPid me, myOwner me) l mode rc prev (table_abs m')"
    using table_lock_refines [OF assms] by blast
  from r(3) have "rc \<in> {SQLITE_OK, SQLITE_LOCKED, SQLITE_NOMEM}" "\<forall>k. k \<noteq> (t, myPid me, myOwner me) \<longrightarrow> table_abs m' k = table_abs m k"
    "rc = SQLITE_OK \<longrightarrow> (\<exists>e\<ge>l. table_abs m' (t, myPid me, myOwner me) = Some e)"
    by (cases; auto)+
  with r(1,2) lockTable_frame [OF r(1)] show thesis by (intro that) (auto simp: lockStep_def heldAtLeast_def)
qed

text \<open>Several calls: only locks of the caller on the given tables change.\<close>

definition lockSteps :: "Caller \<Rightarrow> int set \<Rightarrow> TableArea \<Rightarrow> TableArea \<Rightarrow> bool" where
  "lockSteps me T m m' \<longleftrightarrow> table_inv m' \<and> nCacheT m' = nCacheT m \<and> cachedT m' = cachedT m \<and> nElementT m' = nElementT m \<and>
     (\<forall>t q ow. (t \<notin> T \<or> (q, ow) \<noteq> (myPid me, myOwner me)) \<longrightarrow> table_abs m' (t, q, ow) = table_abs m (t, q, ow))"

lemma lockSteps_refl: "table_inv m \<Longrightarrow> lockSteps me {} m m"
  by (simp add: lockSteps_def)

lemma lockSteps_one: "lockStep me t m m' \<Longrightarrow> lockSteps me {t} m m'"
  by (auto simp: lockStep_def lockSteps_def)

lemma lockSteps_trans: "lockSteps me T m m1 \<Longrightarrow> lockSteps me T' m1 m2 \<Longrightarrow> lockSteps me (T \<union> T') m m2"
  by (auto simp: lockSteps_def)

lemma lockSteps_mono: "lockSteps me T m m' \<Longrightarrow> T \<subseteq> T' \<Longrightarrow> lockSteps me T' m m'"
  unfolding lockSteps_def by blast

lemma lockSteps_inv: "lockSteps me T m m' \<Longrightarrow> table_inv m'"
  by (simp add: lockSteps_def)

lemma lockSteps_cache: "lockSteps me T m m' \<Longrightarrow> cache_inv m \<Longrightarrow> cache_inv m'"
  by (simp add: lockSteps_def cache_inv_def cache_entries_def)

text \<open>The error path ends.\<close>

lemma restoreLoop_ok:
  assumes ok: "rootsOk W as" and key: "\<And>a. a \<in> set as \<Longrightarrow> key_of (rootHeap W) a \<noteq> 0" and me: "myPid me \<noteq> 0" "myOwner me \<noteq> 0"
    and T: "\<And>j. j < length as \<Longrightarrow> ms ! j \<Longrightarrow> key_of (rootHeap W) (as ! j) \<in> T"
  shows "as = xs @ ys \<Longrightarrow> n = length xs \<Longrightarrow> length ms = length as \<Longrightarrow> table_inv m \<Longrightarrow>
    \<exists>m'. restoreLoop me (rootHeap W) (hdq ys 0) n ms ps m = Some m' \<and> lockSteps me T m m'"
proof (induction ys arbitrary: xs n m)
  case Nil
  then show ?case using lockSteps_mono [OF lockSteps_refl, of m T me] by (subst restoreLoop.simps) simp
next
  case (Cons a ys)
  obtain e where e: "a \<noteq> 0" "rootHeap W a = Some e" "nextH e = hdq ys 0" "keyH e = key_of (rootHeap W) a" by (rule roots_elem [OF ok Cons.prems(1)])
  have k: "keyH e \<noteq> 0" using key [of a] Cons.prems(1) e(4) by simp
  obtain rc prev m1 where l: "sqlite3rowlockIpcLockTable m (myPid me) (myOwner me) (keyH e) MODE_LOCK_FORCE (ps ! n) = Some (rc, prev, m1)" "lockStep me (keyH e) m m1"
    by (rule lock_call [OF Cons.prems(4) k me])
  define m2 where "m2 = (if ms ! n then m1 else m)"
  have "ms ! n \<Longrightarrow> keyH e \<in> T" using T [of n] Cons.prems(1,2) e(4) by simp
  then have m2: "lockSteps me T m m2"
    using lockSteps_mono [OF lockSteps_one [OF l(2)], of T] lockSteps_mono [OF lockSteps_refl [OF Cons.prems(4)]] by (auto simp: m2_def)
  obtain m' where m': "restoreLoop me (rootHeap W) (hdq ys 0) (n + 1) ms ps m2 = Some m'" "lockSteps me T m2 m'"
    using Cons.IH [of "xs @ [a]" "n + 1" m2] Cons.prems lockSteps_inv [OF m2] by auto
  have "restoreLoop me (rootHeap W) a n ms ps m = restoreLoop me (rootHeap W) (hdq ys 0) (n + 1) ms ps m2"
    using e l(1) Cons.prems by (subst restoreLoop.simps) (auto simp: m2_def)
  with m' lockSteps_trans [OF m2 m'(2)] show ?case by auto
qed

section \<open>The commit of all tables\<close>

definition syncEntry :: "('k \<rightharpoonup> 'v) \<Rightarrow> ('k \<rightharpoonup> 'v) \<Rightarrow> ('k \<rightharpoonup> 'v) \<Rightarrow> TransRootPage \<Rightarrow> bool" where
  "syncEntry R I D d \<longleftrightarrow> dom D \<subseteq> dom R \<and> (pKeyInfo d \<noteq> 0 \<and> deleteAll d = 0 \<longrightarrow> dom I \<inter> dom R \<subseteq> dom D)"

context trans_db
begin

text \<open>What the transaction sees of the table \<open>i\<close>.\<close>

definition viewOf :: "'b \<Rightarrow> 'b \<Rightarrow> int \<Rightarrow> TransRootPage \<Rightarrow> 'k \<rightharpoonup> 'v" where
  "viewOf b t i d = (if deleteAll d \<noteq> 0 then Map.empty else recs b i |` (- dom (recs t (int (iDel d))))) ++ recs t (int (iIns d))"

text \<open>A connection with the same locks and mapping whose btrees hold the same tables.\<close>

definition sameConn :: "'b Conn \<Rightarrow> 'b \<Rightarrow> 'b Conn \<Rightarrow> 'b \<Rightarrow> bool" where
  "sameConn K t K' t' \<longleftrightarrow> cTrans K' = Some t' \<and> cSave K' = cSave K \<and> rootPages (cWorld K') = rootPages (cWorld K) \<and>
     rootHeap (cWorld K') = rootHeap (cWorld K) \<and> rootData (cWorld K') = rootData (cWorld K) \<and>
     tabs t' = tabs t \<and> dInTrans db t' = dInTrans db t \<and> dInTrans db (cShared K') = dInTrans db (cShared K)"

lemma sameConn_trans: "sameConn K t K1 t1 \<Longrightarrow> sameConn K1 t1 K2 t2 \<Longrightarrow> sameConn K t K2 t2"
  by (simp add: sameConn_def)

lemma connOk_same:
  assumes "connOk K t as" "sameConn K t K' t'" "\<And>i x R. tabs (cShared K) i = Some (x, R) \<Longrightarrow> \<exists>R'. tabs (cShared K') i = Some (x, R')"
  shows "connOk K' t' as"
proof -
  have h: "rootPages (cWorld K') = rootPages (cWorld K)" "rootHeap (cWorld K') = rootHeap (cWorld K)" "rootData (cWorld K') = rootData (cWorld K)"
    using assms(2) by (simp_all add: sameConn_def)
  have r: "rootsOk (cWorld K') as = rootsOk (cWorld K) as" "pageOf (cWorld K') as = pageOf (cWorld K) as"
    unfolding rootsOk_def pageOf_cong [OF h(2,3)] h by (rule refl)+
  have "entryOk K' t' i d" if "entryOk K t i d" for i d
    using that assms(2,3) unfolding entryOk_def sameConn_def by metis
  then show ?thesis using assms(1,2) r by (simp add: connOk_def sameConn_def)
qed

lemma recs_eq: "tabs b = tabs b' \<Longrightarrow> recs b = recs b'"
  by (simp add: recs_def fun_eq_iff)

text \<open>One table. Deleted are only records of the shared table; an index record whose key the shared index has is among the deleted.\<close>

lemma commit_step:
  assumes ok: "connOk K t as" and as: "as = xs @ a # ys" and mem: "tInsOk (A n)" "tDelOk (A n)"
    and tr: "dInTrans db t" "dInTrans db (cShared K)" and lock: "\<And>i b. dLockTable db i b = SQLITE_OK"
    and del: "\<And>d. pageOf (cWorld K) as (key_of (rootHeap (cWorld K)) a) = Some d \<Longrightarrow>
      syncEntry (recs (cShared K) (key_of (rootHeap (cWorld K)) a)) (recs t (int (iIns d))) (recs t (int (iDel d))) d"
  obtains i d K' t' where "i = key_of (rootHeap (cWorld K)) a" "pageOf (cWorld K) as i = Some d"
    "commitLoop db ops A a n K = commitLoop db ops A (hdq ys 0) (n + 1) K'" "sameConn K t K' t'" "cWorld K' = cWorld K"
    "tabs (cShared K') = (tabs (cShared K))(i \<mapsto> (pKeyInfo d \<noteq> 0, viewOf (cShared K) t i d))"
proof -
  have t: "cTrans K = Some t" and ro: "rootsOk (cWorld K) as" using ok by (simp_all add: connOk_def)
  obtain e d where e: "a \<noteq> 0" "rootHeap (cWorld K) a = Some e" "nextH e = hdq ys 0" "dataH e \<noteq> 0" "rootData (cWorld K) (dataH e) = Some d"
    "sqlite3HashI64Find (rootPages (cWorld K)) (rootHeap (cWorld K)) (keyH e) = Some (dataH e)" "pageOf (cWorld K) as (keyH e) = Some d"
    "keyH e = key_of (rootHeap (cWorld K)) a" by (rule roots_elem [OF ro as])
  let ?i = "keyH e" and ?x = "pKeyInfo d \<noteq> 0"
  have en: "entryOk K t ?i d" using ok e(7) by (simp add: connOk_def)
  obtain X C where X: "sqlite3BtreeCursorAll db (A n) K ?i BTREE_WRCSR (pKeyInfo d) 1 = Some (SQLITE_OK, Some X, K)" "opened (cShared K) t ?i d X C"
    by (rule cursor_all [OF t en mem e(6,4,5), of BTREE_WRCSR]) (use tr in simp)
  have C: "mergedCursor X = Some C" "table_edit.goodT (good ?x) C" "tab (pCur C) = recs (cShared K) ?i" "tab (pCurIns C) = recs t (int (iIns d))"
    "tab (pCurDel C) = recs t (int (iDel d))" "ocRoot X = ?i" "ocInsRoot X = iIns d" "ocDelRoot X = iDel d"
    using X(2) by (simp_all only: opened_def)
  have "iDel d \<noteq> 0" using en by (simp add: entryOk_def)
  then obtain C' where C': "commitTable ops ?x d C = Some (SQLITE_OK, C')" "table_edit.goodT (good ?x) C'"
    "tab (pCur C') = table_edit.view tab (deleteAll d \<noteq> 0) C" "tab (pCurIns C') = tab (pCurIns C)" "tab (pCurDel C') = tab (pCurDel C)"
    using table_edit.commit_table [OF edit C(2), of d] del [of d] e(7,8) C(3-5) by (auto simp: syncEntry_def)
  obtain b t' where K': "closeWith X C' K = K\<lparr>cShared := b, cTrans := Some t'\<rparr>"
    "tabs b = (tabs (cShared K))(?i \<mapsto> (?x, tab (pCur C')))" "dInTrans db b = dInTrans db (cShared K)"
    "tabs t' = (tabs t)(int (iIns d) \<mapsto> (?x, tab (pCurIns C')), int (iDel d) \<mapsto> (?x, tab (pCurDel C')))" "dInTrans db t' = dInTrans db t"
    by (rule close_all [OF t C'(2) C(6-8)])
  have "tabs t (int (iIns d)) = Some (?x, recs t (int (iIns d)))" "tabs t (int (iDel d)) = Some (?x, recs t (int (iDel d)))"
    using en by (auto simp: entryOk_def recs_def)
  then have tt: "tabs t' = tabs t" using K'(4) C'(4,5) C(4,5) by (simp add: fun_upd_idem)
  have v: "tab (pCur C') = viewOf (cShared K) t ?i d" using C'(3) C(3-5) by (simp add: table_edit.view_def [OF edit] viewOf_def)
  let ?K = "K\<lparr>cShared := b, cTrans := Some t'\<rparr>"
  have "commitLoop db ops A a n K = commitLoop db ops A (hdq ys 0) (n + 1) ?K"
    using e X(1) C(1) C'(1) K'(1) lock by (subst commitLoop.simps) (simp add: closeWith_def)
  moreover have "sameConn K t ?K t'" using K' tt by (simp add: sameConn_def)
  ultimately show thesis using e(7,8) K'(2) v by (intro that [of ?i d ?K t']) simp_all
qed

lemma commit_loop:
  assumes mem: "\<And>n. tInsOk (A n) \<and> tDelOk (A n)" and lock: "\<And>i b. dLockTable db i b = SQLITE_OK"
  shows "connOk K t as \<Longrightarrow> as = xs @ ys \<Longrightarrow> dInTrans db t \<Longrightarrow> dInTrans db (cShared K) \<Longrightarrow>
    \<forall>i d. i \<in> key_of (rootHeap (cWorld K)) ` set ys \<longrightarrow> pageOf (cWorld K) as i = Some d \<longrightarrow> syncEntry (recs (cShared K) i) (recs t (int (iIns d))) (recs t (int (iDel d))) d \<Longrightarrow>
    \<exists>K' t'. commitLoop db ops A (hdq ys 0) n K = Some (SQLITE_OK, K') \<and> sameConn K t K' t' \<and> cWorld K' = cWorld K \<and>
      (\<forall>i d. i \<in> key_of (rootHeap (cWorld K)) ` set ys \<longrightarrow> pageOf (cWorld K) as i = Some d \<longrightarrow>
         tabs (cShared K') i = Some (pKeyInfo d \<noteq> 0, viewOf (cShared K) t i d)) \<and>
      (\<forall>i. i \<notin> key_of (rootHeap (cWorld K)) ` set ys \<longrightarrow> tabs (cShared K') i = tabs (cShared K) i)"
proof (induction ys arbitrary: K t xs n)
  case Nil
  then have "sameConn K t K t" by (simp add: sameConn_def connOk_def)
  then show ?case by (subst commitLoop.simps) (auto intro!: exI [of _ t])
next
  case (Cons a ys)
  let ?W = "cWorld K"
  let ?k = "key_of (rootHeap ?W)"
  have del: "syncEntry (recs (cShared K) (?k a)) (recs t (int (iIns d))) (recs t (int (iDel d))) d" if "pageOf ?W as (?k a) = Some d" for d
    using Cons.prems(5) that by simp
  obtain i d K1 t1 where s: "i = ?k a" "pageOf ?W as i = Some d" "commitLoop db ops A a n K = commitLoop db ops A (hdq ys 0) (n + 1) K1"
    "sameConn K t K1 t1" "cWorld K1 = ?W" "tabs (cShared K1) = (tabs (cShared K))(i \<mapsto> (pKeyInfo d \<noteq> 0, viewOf (cShared K) t i d))"
    by (rule commit_step [OF Cons.prems(1,2) _ _ Cons.prems(3,4) lock del, of A n]) (use mem in simp_all)
  have "i64_inv (rootPages ?W) (rootHeap ?W) as" using Cons.prems(1) by (simp add: connOk_def rootsOk_def)
  then have inj: "inj_on ?k (set as)" "distinct as" by (auto simp: hash_inv_def shape_inv_def inj_on_def)
  have ni: "i \<notin> ?k ` set ys" using inj Cons.prems(2) s(1) by (auto simp: inj_on_def)
  have "\<exists>R'. tabs (cShared K1) j = Some (x, R')" if "tabs (cShared K) j = Some (x, R)" for j x R
    using that s(2,6) Cons.prems(1) unfolding connOk_def entryOk_def by (cases "j = i") fastforce+
  then have ok1: "connOk K1 t1 as" by (rule connOk_same [OF Cons.prems(1) s(4)])
  have r: "recs t1 = recs t" "\<And>j. j \<noteq> i \<Longrightarrow> recs (cShared K1) j = recs (cShared K) j"
    using s(4,6) by (simp_all add: sameConn_def recs_def fun_eq_iff)
  have tr: "dInTrans db t1" "dInTrans db (cShared K1)" using s(4) Cons.prems(3,4) by (simp_all add: sameConn_def)
  have as': "as = (xs @ [a]) @ ys" using Cons.prems(2) by simp
  have del': "\<forall>j d. j \<in> key_of (rootHeap (cWorld K1)) ` set ys \<longrightarrow> pageOf (cWorld K1) as j = Some d \<longrightarrow> syncEntry (recs (cShared K1) j) (recs t1 (int (iIns d))) (recs t1 (int (iDel d))) d"
  proof (intro allI impI)
    fix j d assume j: "j \<in> key_of (rootHeap (cWorld K1)) ` set ys" "pageOf (cWorld K1) as j = Some d"
    then have "j \<noteq> i" using ni s(5) by auto
    then show "syncEntry (recs (cShared K1) j) (recs t1 (int (iIns d))) (recs t1 (int (iDel d))) d"
      using Cons.prems(5) j r s(5) by simp
  qed
  obtain K' t' where K': "commitLoop db ops A (hdq ys 0) (n + 1) K1 = Some (SQLITE_OK, K')" "sameConn K1 t1 K' t'" "cWorld K' = cWorld K1"
    "\<forall>j d. j \<in> ?k ` set ys \<longrightarrow> pageOf ?W as j = Some d \<longrightarrow> tabs (cShared K') j = Some (pKeyInfo d \<noteq> 0, viewOf (cShared K1) t1 j d)"
    "\<forall>j. j \<notin> ?k ` set ys \<longrightarrow> tabs (cShared K') j = tabs (cShared K1) j"
    using Cons.IH [OF ok1 as' tr del', of "n + 1"] unfolding s(5) by blast
  have v: "viewOf (cShared K1) t1 j d = viewOf (cShared K) t j d" if "j \<in> ?k ` set ys" for j d
    using r(1) r(2) [of j] that ni by (metis viewOf_def)
  have "tabs (cShared K') j = Some (pKeyInfo d' \<noteq> 0, viewOf (cShared K) t j d')" if "j \<in> ?k ` set (a # ys)" "pageOf ?W as j = Some d'" for j d'
    using that K'(4,5) v ni s(1,2,6) by (cases "j = i") auto
  moreover have "tabs (cShared K') j = tabs (cShared K) j" if "j \<notin> ?k ` set (a # ys)" for j
    using that K'(5) s(1,6) by auto
  ultimately show ?case
    using s(3,5) K'(1,3) sameConn_trans [OF s(4) K'(2)] by (intro exI [of _ K'] exI [of _ t'] conjI allI impI) simp_all
qed

end

section \<open>The locks of the commit\<close>

context trans_db
begin

definition modified :: "'b \<Rightarrow> TransRootPage \<Rightarrow> bool" where
  "modified t d \<longleftrightarrow> recs t (int (iIns d)) \<noteq> Map.empty \<or> recs t (int (iDel d)) \<noteq> Map.empty"

definition dirty :: "'b Conn \<Rightarrow> 'b \<Rightarrow> addr list \<Rightarrow> int set" where
  "dirty K t as = {i. \<exists>d. pageOf (cWorld K) as i = Some d \<and> modified t d}"

lemma first_empty:
  assumes "good x c"
  obtains c' where "eFirst ops c = (SQLITE_OK, if tab c = Map.empty then 1 else 0, c')"
proof -
  obtain c' where c: "eFirst ops c = (SQLITE_OK, if todo c' = [] then 1 else 0, c')"
    "map_of (map (\<lambda>X. (kcol x (pKeyX X) (nKeyX X), recv x X)) (todo c')) = tab c"
    using table_edit.first_ok [OF edit assms] by blast
  have "todo c' = [] \<longleftrightarrow> tab c = Map.empty" using c(2) by (cases "todo c'") auto
  with c(1) show thesis by (intro that [of c']) simp
qed

lemma isTableModified_ok:
  assumes "opened b t i d X C"
  shows "isTableModified ops False C = (SQLITE_OK, modified t d)"
proof -
  have g: "good (pKeyInfo d \<noteq> 0) (pCurIns C)" "good (pKeyInfo d \<noteq> 0) (pCurDel C)" and tb: "tab (pCurIns C) = recs t (int (iIns d))" "tab (pCurDel C) = recs t (int (iDel d))"
    using assms unfolding opened_def table_edit.goodT_def [OF edit] by blast+
  obtain ci where ci: "eFirst ops (pCurIns C) = (SQLITE_OK, if tab (pCurIns C) = Map.empty then 1 else 0, ci)" by (rule first_empty [OF g(1)])
  obtain cd where cd: "eFirst ops (pCurDel C) = (SQLITE_OK, if tab (pCurDel C) = Map.empty then 1 else 0, cd)" by (rule first_empty [OF g(2)])
  show ?thesis using ci cd tb by (simp add: isTableModified_def modified_def)
qed

text \<open>Closing the cursor unchanged leaves the tables as they are.\<close>

lemma close_same:
  assumes t: "cTrans K = Some t" and e: "entryOk K t i d" and o: "opened (cShared K) t i d X C"
  obtains b t' where "sqlite3BtreeCloseCursorAll db X (K\<lparr>cWorld := W\<rparr>) = K\<lparr>cWorld := W, cShared := b, cTrans := Some t'\<rparr>"
    "tabs b = tabs (cShared K)" "dInTrans db b = dInTrans db (cShared K)" "tabs t' = tabs t" "dInTrans db t' = dInTrans db t"
proof -
  let ?x = "pKeyInfo d \<noteq> 0" and ?K = "K\<lparr>cWorld := W\<rparr>"
  have o': "mergedCursor X = Some C" "ocRoot X = i" "ocInsRoot X = iIns d" "ocDelRoot X = iDel d" "table_edit.goodT (good ?x) C"
    "tab (pCur C) = recs (cShared K) i" "tab (pCurIns C) = recs t (int (iIns d))" "tab (pCurDel C) = recs t (int (iDel d))"
    using o by (simp_all only: opened_def)
  have X: "X\<lparr>ocCur := pCur C, ocTrans := Some (pCurIns C, pCurDel C)\<rparr> = X" using o'(1) by (auto simp: mergedCursor_def)
  have tK: "cTrans ?K = Some t" using t by simp
  obtain b t' where c: "closeWith X C ?K = ?K\<lparr>cShared := b, cTrans := Some t'\<rparr>"
    "tabs b = (tabs (cShared ?K))(i \<mapsto> (?x, tab (pCur C)))" "dInTrans db b = dInTrans db (cShared ?K)"
    "tabs t' = (tabs t)(int (iIns d) \<mapsto> (?x, tab (pCurIns C)), int (iDel d) \<mapsto> (?x, tab (pCurDel C)))" "dInTrans db t' = dInTrans db t"
    by (rule close_all [OF tK o'(5,2,3,4)])
  have "tabs (cShared K) i = Some (?x, recs (cShared K) i)" "tabs t (int (iIns d)) = Some (?x, recs t (int (iIns d)))"
    "tabs t (int (iDel d)) = Some (?x, recs t (int (iDel d)))" using e by (auto simp: entryOk_def recs_def)
  with c o'(6-8) show thesis by (intro that [of t' b]) (simp_all add: closeWith_def X fun_upd_idem)
qed

text \<open>A connection after some table locks of its own.\<close>

definition lockedConn :: "Caller \<Rightarrow> int set \<Rightarrow> 'b Conn \<Rightarrow> 'b \<Rightarrow> 'b Conn \<Rightarrow> 'b \<Rightarrow> bool" where
  "lockedConn me T K t K' t' \<longleftrightarrow> sameConn K t K' t' \<and> tabs (cShared K') = tabs (cShared K) \<and> rowArea (cWorld K') = rowArea (cWorld K) \<and>
     psmArea (cWorld K') = psmArea (cWorld K) \<and> lockSteps me T (tableArea (cWorld K)) (tableArea (cWorld K'))"

lemma lockedConn_trans:
  "lockedConn me T K t K1 t1 \<Longrightarrow> lockedConn me T' K1 t1 K2 t2 \<Longrightarrow> lockedConn me (T \<union> T') K t K2 t2"
  by (auto simp: lockedConn_def intro: sameConn_trans lockSteps_trans)

lemma connOk_locked: "connOk K t as \<Longrightarrow> lockedConn me T K t K' t' \<Longrightarrow> connOk K' t' as"
  by (rule connOk_same) (auto simp: lockedConn_def)

lemma modified_cong: "tabs t' = tabs t \<Longrightarrow> modified t' d = modified t d"
  by (simp add: modified_def recs_def)

lemma exclusive_step:
  assumes ok: "connOk K t as" and as: "as = xs @ a # ys" and mem: "tInsOk (A n)" "tDelOk (A n)" and me: "myPid me \<noteq> 0" "myOwner me \<noteq> 0"
    and n: "n < length ms" and inv: "table_inv (tableArea (cWorld K))"
  obtains i d rc K1 t1 ms1 ps1 where "i = key_of (rootHeap (cWorld K)) a" "pageOf (cWorld K) as i = Some d" "i \<noteq> 0"
    "lockedConn me (if modified t d then {i} else {}) K t K1 t1" "rc \<in> {SQLITE_OK, SQLITE_LOCKED, SQLITE_NOMEM}" "ms1 = ms[n := modified t d]"
    "rc = SQLITE_OK \<Longrightarrow> modified t d \<Longrightarrow> heldAtLeast EXCLSV_LOCK me (tableArea (cWorld K1)) i"
    "exclusiveLockLoop db ops A me a n ms ps K =
       (if rc = SQLITE_OK then exclusiveLockLoop db ops A me (hdq ys 0) (n + 1) ms1 ps1 K1 else Some (rc, ms1, ps1, K1))"
proof -
  have t: "cTrans K = Some t" and ro: "rootsOk (cWorld K) as" using ok by (simp_all add: connOk_def)
  obtain e d where e: "a \<noteq> 0" "rootHeap (cWorld K) a = Some e" "nextH e = hdq ys 0" "dataH e \<noteq> 0" "rootData (cWorld K) (dataH e) = Some d"
    "sqlite3HashI64Find (rootPages (cWorld K)) (rootHeap (cWorld K)) (keyH e) = Some (dataH e)" "pageOf (cWorld K) as (keyH e) = Some d"
    "keyH e = key_of (rootHeap (cWorld K)) a" by (rule roots_elem [OF ro as])
  let ?i = "keyH e"
  have en: "entryOk K t ?i d" using ok e(7) by (simp add: connOk_def)
  then have i: "?i \<noteq> 0" by (auto simp: entryOk_def)
  obtain X C where X: "sqlite3BtreeCursorAll db (A n) K ?i 0 (pKeyInfo d) 1 = Some (SQLITE_OK, Some X, K)" "opened (cShared K) t ?i d X C"
    by (rule cursor_all [OF t en mem e(6,4,5), of 0]) simp
  have C: "mergedCursor X = Some C" using X(2) by (simp add: opened_def)
  note im = isTableModified_ok [OF X(2)]
  obtain rc prev m where l: "(if modified t d then sqlite3rowlockIpcLockTable (tableArea (cWorld K)) (myPid me) (myOwner me) ?i EXCLSV_LOCK MODE_LOCK_COMMIT
       else Some (SQLITE_OK, None, tableArea (cWorld K))) = Some (rc, prev, m)"
    "lockSteps me (if modified t d then {?i} else {}) (tableArea (cWorld K)) m" "rc \<in> {SQLITE_OK, SQLITE_LOCKED, SQLITE_NOMEM}"
    "rc = SQLITE_OK \<Longrightarrow> modified t d \<Longrightarrow> heldAtLeast EXCLSV_LOCK me m ?i"
  proof (cases "modified t d")
    case True
    then show ?thesis
      using that lockSteps_one by (rule_tac lock_call [OF inv i me, of EXCLSV_LOCK MODE_LOCK_COMMIT]) auto
  next
    case False
    then show ?thesis using that [of SQLITE_OK None "tableArea (cWorld K)"] lockSteps_refl [OF inv] by simp
  qed
  let ?W = "(cWorld K)\<lparr>tableArea := m\<rparr>"
  obtain b t' where c: "sqlite3BtreeCloseCursorAll db X (K\<lparr>cWorld := ?W\<rparr>) = K\<lparr>cWorld := ?W, cShared := b, cTrans := Some t'\<rparr>"
    "tabs b = tabs (cShared K)" "dInTrans db b = dInTrans db (cShared K)" "tabs t' = tabs t" "dInTrans db t' = dInTrans db t"
    by (rule close_same [OF t en X(2)])
  define K1 where "K1 = K\<lparr>cWorld := ?W, cShared := b, cTrans := Some t'\<rparr>"
  define ms1 where "ms1 = ms[n := modified t d]"
  define ps1 where "ps1 = (case prev of None \<Rightarrow> ps | Some l \<Rightarrow> ps[n := l])"
  have "exclusiveLockLoop db ops A me a n ms ps K =
      (if rc = SQLITE_OK then exclusiveLockLoop db ops A me (hdq ys 0) (n + 1) ms1 ps1 K1 else Some (rc, ms1, ps1, K1))"
    using e n X(1) C im l(1) c(1) by (subst exclusiveLockLoop.simps) (simp add: K1_def ms1_def ps1_def)
  moreover have "lockedConn me (if modified t d then {?i} else {}) K t K1 t'" using c l(2) by (simp add: lockedConn_def sameConn_def K1_def)
  ultimately show thesis using e(7,8) i l(3,4) by (intro that [of ?i d K1 t' rc ms1 ps1]) (simp_all add: K1_def ms1_def)
qed

end

context trans_db
begin

lemma exclusive_loop:
  assumes mem: "\<And>n. tInsOk (A n) \<and> tDelOk (A n)" and me: "myPid me \<noteq> 0" "myOwner me \<noteq> 0"
  shows "connOk K t as \<Longrightarrow> as = xs @ ys \<Longrightarrow> n = length xs \<Longrightarrow> length ms = length as \<Longrightarrow> table_inv (tableArea (cWorld K)) \<Longrightarrow>
    \<forall>j<length as. ms ! j \<longrightarrow> key_of (rootHeap (cWorld K)) (as ! j) \<in> dirty K t as \<Longrightarrow>
    \<exists>rc ms' ps' K' t'. exclusiveLockLoop db ops A me (hdq ys 0) n ms ps K = Some (rc, ms', ps', K') \<and>
      lockedConn me (dirty K t as \<inter> key_of (rootHeap (cWorld K)) ` set ys) K t K' t' \<and> rc \<in> {SQLITE_OK, SQLITE_LOCKED, SQLITE_NOMEM} \<and> length ms' = length as \<and>
      (\<forall>j<length as. ms' ! j \<longrightarrow> key_of (rootHeap (cWorld K)) (as ! j) \<in> dirty K t as) \<and>
      (rc = SQLITE_OK \<longrightarrow> (\<forall>i d. i \<in> key_of (rootHeap (cWorld K)) ` set ys \<longrightarrow> pageOf (cWorld K) as i = Some d \<longrightarrow> modified t d \<longrightarrow>
         heldAtLeast EXCLSV_LOCK me (tableArea (cWorld K')) i))"
proof (induction ys arbitrary: K t xs n ms ps)
  case Nil
  then have "lockedConn me {} K t K t" by (simp add: lockedConn_def sameConn_def connOk_def lockSteps_refl)
  with Nil show ?case by (subst exclusiveLockLoop.simps) (auto intro!: exI [of _ t])
next
  case (Cons a ys)
  let ?W = "cWorld K"
  let ?k = "key_of (rootHeap ?W)"
  obtain i d rc K1 t1 ms1 ps1 where s: "i = ?k a" "pageOf ?W as i = Some d" "i \<noteq> 0" "lockedConn me (if modified t d then {i} else {}) K t K1 t1"
    "rc \<in> {SQLITE_OK, SQLITE_LOCKED, SQLITE_NOMEM}" "ms1 = ms[n := modified t d]"
    "rc = SQLITE_OK \<Longrightarrow> modified t d \<Longrightarrow> heldAtLeast EXCLSV_LOCK me (tableArea (cWorld K1)) i"
    "exclusiveLockLoop db ops A me a n ms ps K =
       (if rc = SQLITE_OK then exclusiveLockLoop db ops A me (hdq ys 0) (n + 1) ms1 ps1 K1 else Some (rc, ms1, ps1, K1))"
    by (rule exclusive_step [OF Cons.prems(1,2) _ _ me, of A n ms ps]) (use mem Cons.prems in simp_all)
  have own: "(if modified t d then {i} else {}) \<subseteq> dirty K t as \<inter> ?k ` set (a # ys)" using s(1,2) by (auto simp: dirty_def)
  have flags: "\<forall>j<length as. ms1 ! j \<longrightarrow> ?k (as ! j) \<in> dirty K t as"
    using Cons.prems(2-4,6) s(1,2,6) by (auto simp: nth_list_update dirty_def)
  have len: "length ms1 = length as" using s(6) Cons.prems(4) by simp
  show ?case
  proof (cases "rc = SQLITE_OK")
    case False
    have "lockedConn me (dirty K t as \<inter> ?k ` set (a # ys)) K t K1 t1"
      using s(4) lockSteps_mono [OF _ own] unfolding lockedConn_def by blast
    with False s(5,8) len flags show ?thesis by auto
  next
    case True
    have ok1: "connOk K1 t1 as" by (rule connOk_locked [OF Cons.prems(1) s(4)])
    have h: "rootHeap (cWorld K1) = rootHeap ?W" "rootData (cWorld K1) = rootData ?W" "tabs t1 = tabs t" "table_inv (tableArea (cWorld K1))"
      using s(4) by (simp_all add: lockedConn_def sameConn_def lockSteps_def)
    have pg: "pageOf (cWorld K1) = pageOf ?W" by (rule pageOf_cong [OF h(1,2)])
    have as': "as = (xs @ [a]) @ ys" using Cons.prems(2) by simp
    have dk: "dirty K1 t1 as = dirty K t as" by (simp add: dirty_def pg modified_cong [OF h(3)])
    obtain rc' ms' ps' K' t' where r: "exclusiveLockLoop db ops A me (hdq ys 0) (n + 1) ms1 ps1 K1 = Some (rc', ms', ps', K')"
      "lockedConn me (dirty K t as \<inter> ?k ` set ys) K1 t1 K' t'" "rc' \<in> {SQLITE_OK, SQLITE_LOCKED, SQLITE_NOMEM}" "length ms' = length as"
      "rc' = SQLITE_OK \<longrightarrow> (\<forall>j d. j \<in> ?k ` set ys \<longrightarrow> pageOf ?W as j = Some d \<longrightarrow> modified t d \<longrightarrow>
         heldAtLeast EXCLSV_LOCK me (tableArea (cWorld K')) j)" "\<forall>j<length as. ms' ! j \<longrightarrow> ?k (as ! j) \<in> dirty K t as"
      using Cons.IH [OF ok1 as', of "n + 1" ms1 ps1] Cons.prems(3) len h(4) flags
      unfolding h(1) pg modified_cong [OF h(3)] dk by auto
    have "inj_on ?k (set as)" "distinct as" using Cons.prems(1) by (auto simp: connOk_def rootsOk_def hash_inv_def shape_inv_def inj_on_def)
    then have ni: "i \<notin> ?k ` set ys" using Cons.prems(2) s(1) by (auto simp: inj_on_def)
    then have kept: "table_abs (tableArea (cWorld K')) (i, q) = table_abs (tableArea (cWorld K1)) (i, q)" for q
      using r(2) by (cases q) (auto simp: lockedConn_def lockSteps_def)
    have "lockedConn me (dirty K t as \<inter> ?k ` set (a # ys)) K t K' t'"
      using lockedConn_trans [OF s(4) r(2)] own lockSteps_mono [of me _ _ _ "dirty K t as \<inter> ?k ` set (a # ys)"] unfolding lockedConn_def by (auto split: if_splits)
    moreover have "exclusiveLockLoop db ops A me (hdq (a # ys) 0) n ms ps K = Some (rc', ms', ps', K')" using s(8) True r(1) by simp
    moreover have "heldAtLeast EXCLSV_LOCK me (tableArea (cWorld K')) j"
      if "rc' = SQLITE_OK" "j \<in> ?k ` set (a # ys)" "pageOf ?W as j = Some d'" "modified t d'" for j d'
    proof (cases "j = i")
      case j: True
      then show ?thesis using that(3,4) s(2,7) True kept by (auto simp: heldAtLeast_def)
    next
      case False
      then show ?thesis using that r(5) s(1) by auto
    qed
    ultimately show ?thesis
      using r(3,4) r(6) [rule_format] by (intro exI [of _ rc'] exI [of _ ms'] exI [of _ ps'] exI [of _ K'] exI [of _ t'] conjI impI allI)
  qed
qed

end

context trans_db
begin

lemma schema_key:
  assumes "connOk K t as"
  shows "SCHEMA_ROOT \<notin> key_of (rootHeap (cWorld K)) ` set as"
  using assms pageOf_keys [of "cWorld K" as SCHEMA_ROOT] unfolding connOk_def entryOk_def by fastforce

lemma dirty_keys: "connOk K t as \<Longrightarrow> dirty K t as \<subseteq> key_of (rootHeap (cWorld K)) ` set as"
  using pageOf_keys [of "cWorld K" as] unfolding dirty_def connOk_def by auto

lemma dirty_schema: "connOk K t as \<Longrightarrow> SCHEMA_ROOT \<notin> dirty K t as"
  using schema_key dirty_keys by blast

lemma dirty_locked: "lockedConn me T K t K' t' \<Longrightarrow> dirty K' t' as = dirty K t as"
  using pageOf_cong [of "cWorld K'" "cWorld K"] modified_cong [of t' t] by (simp add: lockedConn_def sameConn_def dirty_def)

text \<open>After \<open>exclusiveLockTables\<close>, successful or not.\<close>

definition exclusiveDone :: "Caller \<Rightarrow> 'b Conn \<Rightarrow> 'b \<Rightarrow> addr list \<Rightarrow> rc \<Rightarrow> 'b Conn \<Rightarrow> 'b \<Rightarrow> bool" where
  "exclusiveDone me K t as rc K' t' \<longleftrightarrow> rc \<in> {SQLITE_OK, SQLITE_LOCKED, SQLITE_NOMEM} \<and>
     lockedConn me (insert SCHEMA_ROOT (dirty K t as)) K t K' t' \<and>
     (rc = SQLITE_OK \<longrightarrow> (\<forall>i d. pageOf (cWorld K) as i = Some d \<longrightarrow> modified t d \<longrightarrow> heldAtLeast EXCLSV_LOCK me (tableArea (cWorld K')) i) \<and>
        (as \<noteq> [] \<longrightarrow> heldAtLeast WRITE_LOCK me (tableArea (cWorld K')) SCHEMA_ROOT))"

lemma lockedConn_mono: "lockedConn me T K t K' t' \<Longrightarrow> T \<subseteq> T' \<Longrightarrow> lockedConn me T' K t K' t'"
  by (auto simp: lockedConn_def intro: lockSteps_mono)

lemma lockedConn_area:
  assumes "cTrans K = Some t" "lockSteps me T (tableArea (cWorld K)) m"
  shows "lockedConn me T K t (K\<lparr>cWorld := (cWorld K)\<lparr>tableArea := m\<rparr>\<rparr>) t"
  using assms by (simp add: lockedConn_def sameConn_def)

text \<open>The call that should bring the lock of the schema back to a read lock leaves it a write lock.\<close>

lemma schema_stays:
  assumes inv: "table_inv m" and me: "myPid me \<noteq> 0" "myOwner me \<noteq> 0"
    and w: "table_abs m (SCHEMA_ROOT, myPid me, myOwner me) = Some WRITE_LOCK"
    and l: "sqlite3rowlockIpcLockTable m (myPid me) (myOwner me) SCHEMA_ROOT MODE_LOCK_FORCE READ_LOCK = Some (rc, prev, m')"
  shows "table_abs m' (SCHEMA_ROOT, myPid me, myOwner me) = Some WRITE_LOCK"
proof -
  have "lock_outcome (table_abs m) (tableConflict m (myPid me) (myOwner me) SCHEMA_ROOT MODE_LOCK_FORCE READ_LOCK) (nLockT m < nElementT m - 1)
      (SCHEMA_ROOT, myPid me, myOwner me) MODE_LOCK_FORCE READ_LOCK rc prev (table_abs m')"
    using table_lock_refines [OF inv _ me, of SCHEMA_ROOT MODE_LOCK_FORCE READ_LOCK] l by auto
  then show ?thesis using w by cases auto
qed

lemma restore_ok:
  assumes ok: "connOk K t as" and me: "myPid me \<noteq> 0" "myOwner me \<noteq> 0" and inv: "table_inv (tableArea (cWorld K))"
    and ms: "\<And>x. ms = Some x \<Longrightarrow> length x = length as \<and> (\<forall>j<length as. x ! j \<longrightarrow> key_of (rootHeap (cWorld K)) (as ! j) \<in> dirty K t as)"
  obtains m where "restoreLocks me ms ps pm (cWorld K) = Some ((cWorld K)\<lparr>tableArea := m\<rparr>)"
    "lockSteps me (insert SCHEMA_ROOT (dirty K t as)) (tableArea (cWorld K)) m"
    "pm = READ_LOCK \<Longrightarrow> table_abs (tableArea (cWorld K)) (SCHEMA_ROOT, myPid me, myOwner me) = Some WRITE_LOCK \<Longrightarrow>
       table_abs m (SCHEMA_ROOT, myPid me, myOwner me) = Some WRITE_LOCK"
proof -
  let ?W = "cWorld K"
  let ?k = "dirty K t as"
  have ro: "rootsOk ?W as" using ok by (simp add: connOk_def)
  have key: "key_of (rootHeap ?W) a \<noteq> 0" if "a \<in> set as" for a
    using ok pageOf_keys [OF ro, of "key_of (rootHeap ?W) a"] that unfolding connOk_def entryOk_def by fastforce
  obtain m1 where m1: "(case ms of None \<Rightarrow> Some (tableArea ?W) | Some x \<Rightarrow> restoreLoop me (rootHeap ?W) (firstH (rootPages ?W)) 0 x ps (tableArea ?W)) = Some m1"
    "lockSteps me ?k (tableArea ?W) m1"
  proof (cases ms)
    case None
    then show ?thesis using that lockSteps_mono [OF lockSteps_refl [OF inv]] by simp
  next
    case (Some x)
    then show ?thesis
      using that restoreLoop_ok [OF ro key me, where ms = x and T = ?k and xs = "[]" and ys = as and n = 0 and m = "tableArea ?W" and ps = ps] ms inv roots_first [OF ro] by auto
  qed
  obtain rc prev m2 where m2: "sqlite3rowlockIpcLockTable m1 (myPid me) (myOwner me) SCHEMA_ROOT MODE_LOCK_FORCE pm = Some (rc, prev, m2)" "lockStep me SCHEMA_ROOT m1 m2"
    by (rule lock_call [OF lockSteps_inv [OF m1(2)] _ me, of SCHEMA_ROOT]) simp_all
  have "lockSteps me (insert SCHEMA_ROOT ?k) (tableArea ?W) m2" using lockSteps_trans [OF m1(2) lockSteps_one [OF m2(2)]] by simp
  moreover have "table_abs m2 (SCHEMA_ROOT, myPid me, myOwner me) = Some WRITE_LOCK"
    if "pm = READ_LOCK" "table_abs (tableArea ?W) (SCHEMA_ROOT, myPid me, myOwner me) = Some WRITE_LOCK"
  proof (rule schema_stays [OF lockSteps_inv [OF m1(2)] me])
    show "table_abs m1 (SCHEMA_ROOT, myPid me, myOwner me) = Some WRITE_LOCK"
      using that(2) m1(2) dirty_schema [OF ok] by (simp add: lockSteps_def)
  qed (use that(1) m2(1) in simp)
  ultimately show thesis using m1(1) m2(1) by (intro that [of m2]) (simp_all add: restoreLocks_def)
qed

lemma lock_modified:
  assumes ok: "connOk K t as" and me: "myPid me \<noteq> 0" "myOwner me \<noteq> 0" and inv: "table_inv (tableArea (cWorld K))"
    and mem: "\<And>n. tInsOk (A n) \<and> tDelOk (A n)"
  shows "\<exists>rc K' t'. lockModified db ops A me (length as) pm K = Some (rc, K') \<and> rc \<in> {SQLITE_OK, SQLITE_LOCKED, SQLITE_NOMEM} \<and>
    lockedConn me (insert SCHEMA_ROOT (dirty K t as)) K t K' t' \<and>
    (rc = SQLITE_OK \<longrightarrow> (\<forall>i d. pageOf (cWorld K) as i = Some d \<longrightarrow> modified t d \<longrightarrow> heldAtLeast EXCLSV_LOCK me (tableArea (cWorld K')) i) \<and>
       (heldAtLeast WRITE_LOCK me (tableArea (cWorld K)) SCHEMA_ROOT \<longrightarrow> heldAtLeast WRITE_LOCK me (tableArea (cWorld K')) SCHEMA_ROOT)) \<and>
    (rc \<noteq> SQLITE_OK \<longrightarrow> pm = READ_LOCK \<longrightarrow> table_abs (tableArea (cWorld K)) (SCHEMA_ROOT, myPid me, myOwner me) = Some WRITE_LOCK \<longrightarrow>
       table_abs (tableArea (cWorld K')) (SCHEMA_ROOT, myPid me, myOwner me) = Some WRITE_LOCK)"
proof -
  let ?k = "key_of (rootHeap (cWorld K)) ` set as"
  have ro: "rootsOk (cWorld K) as" using ok by (simp add: connOk_def)
  obtain rc ms ps K2 t2 where r: "exclusiveLockLoop db ops A me (hdq as 0) 0 (replicate (length as) False) (replicate (length as) 0) K = Some (rc, ms, ps, K2)"
    "lockedConn me (dirty K t as \<inter> ?k) K t K2 t2" "rc \<in> {SQLITE_OK, SQLITE_LOCKED, SQLITE_NOMEM}" "length ms = length as"
    "rc = SQLITE_OK \<longrightarrow> (\<forall>i d. i \<in> ?k \<longrightarrow> pageOf (cWorld K) as i = Some d \<longrightarrow> modified t d \<longrightarrow> heldAtLeast EXCLSV_LOCK me (tableArea (cWorld K2)) i)"
    "\<forall>j<length as. ms ! j \<longrightarrow> key_of (rootHeap (cWorld K)) (as ! j) \<in> dirty K t as"
    using exclusive_loop [where A = A, OF mem me ok, where xs = "[]" and ys = as and n = 0 and ms = "replicate (length as) False"
        and ps = "replicate (length as) 0"] inv by (elim exE conjE meta_impE) simp_all
  note D = lockModified_def roots_first [OF ro] r(1)
  have K2: "lockedConn me (insert SCHEMA_ROOT (dirty K t as)) K t K2 t2" by (rule lockedConn_mono [OF r(2)]) blast
  have ok2: "connOk K2 t2 as" by (rule connOk_locked [OF ok K2])
  have inv2: "table_inv (tableArea (cWorld K2))" and hk: "rootHeap (cWorld K2) = rootHeap (cWorld K)"
    using K2 by (simp_all add: lockedConn_def lockSteps_def sameConn_def)
  have t2: "cTrans K2 = Some t2" using ok2 by (simp add: connOk_def)
  have sch: "table_abs (tableArea (cWorld K2)) (SCHEMA_ROOT, q) = table_abs (tableArea (cWorld K)) (SCHEMA_ROOT, q)" for q
    using r(2) schema_key [OF ok] by (cases q) (auto simp: lockedConn_def lockSteps_def)
  show ?thesis
  proof (cases "rc = SQLITE_OK")
    case True
    have "heldAtLeast WRITE_LOCK me (tableArea (cWorld K2)) SCHEMA_ROOT = heldAtLeast WRITE_LOCK me (tableArea (cWorld K)) SCHEMA_ROOT"
      by (simp add: heldAtLeast_def sch)
    moreover have "heldAtLeast EXCLSV_LOCK me (tableArea (cWorld K2)) i" if "pageOf (cWorld K) as i = Some d" "modified t d" for i d
      using r(5) True that pageOf_keys [OF ro, of i] by auto
    ultimately show ?thesis using K2 True by (auto simp: D)
  next
    case False
    obtain m3 where m3: "restoreLocks me (Some ms) ps pm (cWorld K2) = Some ((cWorld K2)\<lparr>tableArea := m3\<rparr>)"
      "lockSteps me (insert SCHEMA_ROOT (dirty K2 t2 as)) (tableArea (cWorld K2)) m3"
      "pm = READ_LOCK \<Longrightarrow> table_abs (tableArea (cWorld K2)) (SCHEMA_ROOT, myPid me, myOwner me) = Some WRITE_LOCK \<Longrightarrow>
         table_abs m3 (SCHEMA_ROOT, myPid me, myOwner me) = Some WRITE_LOCK"
      by (rule restore_ok [OF ok2 me inv2, of "Some ms" ps pm]) (use r(4,6) hk dirty_locked [OF K2] in simp_all)
    have "lockedConn me (insert SCHEMA_ROOT (dirty K t as)) K t (K2\<lparr>cWorld := (cWorld K2)\<lparr>tableArea := m3\<rparr>\<rparr>) t2"
      using lockedConn_trans [OF K2 lockedConn_area [OF t2 m3(2)]] unfolding dirty_locked [OF K2] by simp
    with r(3) False m3(1,3) sch show ?thesis by (auto simp: D)
  qed
qed

lemma exclusive_tables:
  assumes ok: "connOk K t as" and me: "myPid me \<noteq> 0" "myOwner me \<noteq> 0" and inv: "table_inv (tableArea (cWorld K))"
    and mem: "\<And>n. tInsOk (A n) \<and> tDelOk (A n)"
  shows "\<exists>rc K' t'. exclusiveLockTables db ops A curOk arrOk me K = Some (rc, K') \<and> exclusiveDone me K t as rc K' t'"
proof (cases "curOk \<and> as \<noteq> []")
  case False
  have t: "cTrans K = Some t" and ro: "rootsOk (cWorld K) as" using ok by (simp_all add: connOk_def)
  have l: "lockedConn me T K t K t" for T using t lockSteps_mono [OF lockSteps_refl [OF inv]] by (simp add: lockedConn_def sameConn_def)
  have "countElems (rootHeap (cWorld K)) (firstH (rootPages (cWorld K))) 0 = Some (length as)"
    using countElems_ok [OF ro, of "[]" as 0] roots_first [OF ro] by simp
  moreover have "exclusiveLockLoop db ops A me 0 0 [] [] K = Some (SQLITE_OK, [], [], K)" by (subst exclusiveLockLoop.simps) simp
  ultimately show ?thesis
    using False l pageOf_keys [OF ro] roots_first [OF ro]
    by (cases curOk) (auto simp: exclusiveLockTables_def exclusiveDone_def intro!: exI [of _ t])
next
  case True
  let ?k = "dirty K t as"
  have t: "cTrans K = Some t" and ro: "rootsOk (cWorld K) as" using ok by (simp_all add: connOk_def)
  have cnt: "countElems (rootHeap (cWorld K)) (firstH (rootPages (cWorld K))) 0 = Some (length as)"
    using countElems_ok [OF ro, of "[]" as 0] roots_first [OF ro] by simp
  obtain rc1 prev m where l: "sqlite3rowlockIpcLockTable (tableArea (cWorld K)) (myPid me) (myOwner me) SCHEMA_ROOT WRITE_LOCK MODE_LOCK_COMMIT = Some (rc1, prev, m)"
    "lockStep me SCHEMA_ROOT (tableArea (cWorld K)) m" "rc1 \<in> {SQLITE_OK, SQLITE_LOCKED, SQLITE_NOMEM}" "rc1 = SQLITE_OK \<Longrightarrow> heldAtLeast WRITE_LOCK me m SCHEMA_ROOT"
    by (rule lock_call [OF inv _ me, of SCHEMA_ROOT WRITE_LOCK MODE_LOCK_COMMIT]) simp_all
  define K1 where "K1 = K\<lparr>cWorld := (cWorld K)\<lparr>tableArea := m\<rparr>\<rparr>"
  define pm where "pm = (case prev of None \<Rightarrow> 0 | Some l \<Rightarrow> l)"
  have K1: "lockedConn me {SCHEMA_ROOT} K t K1 t" unfolding K1_def by (rule lockedConn_area [OF t lockSteps_one [OF l(2)]])
  have ok1: "connOk K1 t as" by (rule connOk_locked [OF ok K1])
  have inv1: "table_inv (tableArea (cWorld K1))" using l(2) by (simp add: lockStep_def K1_def)
  have h1: "rootHeap (cWorld K1) = rootHeap (cWorld K)" "rootPages (cWorld K1) = rootPages (cWorld K)" "pageOf (cWorld K1) as = pageOf (cWorld K) as"
    using pageOf_cong [of "cWorld K1" "cWorld K"] by (simp_all add: K1_def)
  have D: "exclusiveLockTables db ops A curOk arrOk me K =
      (if rc1 \<noteq> SQLITE_OK then Some (rc1, K1)
       else if \<not> arrOk then Option.bind (restoreLocks me None [] pm (cWorld K1)) (\<lambda>W. Some (SQLITE_NOMEM, K1\<lparr>cWorld := W\<rparr>))
       else lockModified db ops A me (length as) pm K1)"
    using True l(1) cnt by (simp add: exclusiveLockTables_def K1_def pm_def)
  consider "rc1 \<noteq> SQLITE_OK" | "rc1 = SQLITE_OK" "\<not> arrOk" | "rc1 = SQLITE_OK" "arrOk" by blast
  then show ?thesis
  proof cases
    case 1
    with l(3) lockedConn_mono [OF K1, of "insert SCHEMA_ROOT ?k"] show ?thesis unfolding D by (auto simp: exclusiveDone_def)
  next
    case 2
    obtain m2 where m2: "restoreLocks me None [] pm (cWorld K1) = Some ((cWorld K1)\<lparr>tableArea := m2\<rparr>)"
      "lockSteps me (insert SCHEMA_ROOT (dirty K1 t as)) (tableArea (cWorld K1)) m2"
      by (rule restore_ok [OF ok1 me inv1, of None]) simp_all
    have "lockedConn me (insert SCHEMA_ROOT ?k) K t (K1\<lparr>cWorld := (cWorld K1)\<lparr>tableArea := m2\<rparr>\<rparr>) t"
      using lockedConn_trans [OF K1 lockedConn_area [OF _ m2(2)]] t unfolding dirty_locked [OF K1] by (simp add: K1_def insert_commute)
    with 2 m2(1) show ?thesis unfolding D by (auto simp: exclusiveDone_def)
  next
    case 3
    obtain rc2 K2 t2 where r: "lockModified db ops A me (length as) pm K1 = Some (rc2, K2)" "rc2 \<in> {SQLITE_OK, SQLITE_LOCKED, SQLITE_NOMEM}"
      "lockedConn me (insert SCHEMA_ROOT ?k) K1 t K2 t2"
      "rc2 = SQLITE_OK \<Longrightarrow> (\<forall>i d. pageOf (cWorld K) as i = Some d \<longrightarrow> modified t d \<longrightarrow> heldAtLeast EXCLSV_LOCK me (tableArea (cWorld K2)) i) \<and>
         (heldAtLeast WRITE_LOCK me (tableArea (cWorld K1)) SCHEMA_ROOT \<longrightarrow> heldAtLeast WRITE_LOCK me (tableArea (cWorld K2)) SCHEMA_ROOT)"
      using lock_modified [where A = A and pm = pm, OF ok1 me inv1 mem] unfolding h1 dirty_locked [OF K1] by blast
    have "lockedConn me (insert SCHEMA_ROOT ?k) K t K2 t2" using lockedConn_trans [OF K1 r(3)] by simp
    with 3 r(1,2,4) l(4) show ?thesis unfolding D by (auto simp: exclusiveDone_def K1_def)
  qed
qed

end

section \<open>The whole commit\<close>

text \<open>The locks after the end of a transaction: those of the connection are gone, all others are as before.\<close>

definition releasedLocks :: "Caller \<Rightarrow> (blob \<Rightarrow> blob \<Rightarrow> int) \<Rightarrow> LockWorld \<Rightarrow> LockWorld \<Rightarrow> bool" where
  "releasedLocks me xc W W' \<longleftrightarrow>
     row_abs (rowArea W') = spec_release (myPid me) (myOwner me) (row_abs (rowArea W)) \<and>
     (\<forall>t q ow l. table_abs (tableArea W') (t, q, ow) = Some l \<longleftrightarrow> table_abs (tableArea W) (t, q, ow) = Some l \<and> \<not> (q = myPid me \<and> ow = myOwner me)) \<and>
     (\<forall>i\<ge>0. psmHolder xc (psmArea W') i = spec_release (myPid me) (myOwner me) (psmHolder xc (psmArea W) i))"

text \<open>The invariants of the areas.\<close>

definition worldOk :: "(blob \<Rightarrow> blob \<Rightarrow> int) \<Rightarrow> LockWorld \<Rightarrow> bool" where
  "worldOk xc W \<longleftrightarrow> row_inv (rowArea W) \<and> table_inv (tableArea W) \<and> cache_inv (tableArea W) \<and> compareOk xc \<and> psm_inv xc (psmArea W)"

context trans_db
begin

lemma connOk_shared:
  assumes "connOk K t as" "\<And>i d. pageOf (cWorld K) as i = Some d \<Longrightarrow> \<exists>R. tabs b i = Some (pKeyInfo d \<noteq> 0, R)"
  shows "connOk (K\<lparr>cShared := b\<rparr>) t as"
proof -
  have "entryOk (K\<lparr>cShared := b\<rparr>) t i d" if "pageOf (cWorld K) as i = Some d" "entryOk K t i d" for i d
    using assms(2) [OF that(1)] that(2) by (auto simp: entryOk_def)
  then show ?thesis using assms(1) by (simp add: connOk_def)
qed

text \<open>The shared tables hold what the transaction saw over the tables \<open>F\<close>.\<close>

definition installed :: "LockWorld \<Rightarrow> addr list \<Rightarrow> 'b \<Rightarrow> (int \<Rightarrow> (bool \<times> ('k \<rightharpoonup> 'v)) option) \<Rightarrow> 'b \<Rightarrow> bool" where
  "installed W as t F b \<longleftrightarrow>
     (\<forall>i d R. pageOf W as i = Some d \<longrightarrow> F i = Some (pKeyInfo d \<noteq> 0, R) \<longrightarrow>
        tabs b i = Some (pKeyInfo d \<noteq> 0, (if deleteAll d \<noteq> 0 then Map.empty else R |` (- dom (recs t (int (iDel d))))) ++ recs t (int (iIns d)))) \<and>
     (\<forall>i. pageOf W as i = None \<longrightarrow> tabs b i = F i)"

lemma commit_tables:
  assumes ok: "connOk K t as" and tr: "dInTrans db t" and world: "worldOk xc (cWorld K)" and me: "myPid me \<noteq> 0" "myOwner me \<noteq> 0"
    and mem: "\<And>n. tInsOk (A n) \<and> tDelOk (A n)" and lock: "\<And>i b. dLockTable db i b = SQLITE_OK"
    and del: "\<And>i d. pageOf (cWorld K) as i = Some d \<Longrightarrow> syncEntry (recs (cShared K) i) (recs t (int (iIns d))) (recs t (int (iDel d))) d"
  shows "\<exists>rc K'. commitTables db ops A me K = Some (rc, K') \<and>
    (rc = SQLITE_OK \<longrightarrow> installed (cWorld K) as t (tabs (cShared K)) (cShared K') \<and> releasedLocks me xc (cWorld K) (cWorld K') \<and>
       rootPages (cWorld K') = hashInit \<and> hist (cSave K') = [] \<and> saves (cSave K') = []) \<and>
    (rc \<noteq> SQLITE_OK \<longrightarrow> (\<exists>b. fst (dBegin db 1 b) = rc))"
proof -
  have t: "cTrans K = Some t" and ro: "rootsOk (cWorld K) as" using ok by (simp_all add: connOk_def)
  let ?start = "if dInTrans db t \<and> \<not> dInTrans db (cShared K) then dBegin db 1 (cShared K) else (SQLITE_OK, cShared K)"
  obtain rc1 b where b: "?start = (rc1, b)" by fastforce
  define K1 where "K1 = K\<lparr>cShared := b\<rparr>"
  have D: "commitTables db ops A me K = (if rc1 \<noteq> SQLITE_OK then Some (rc1, K1)
      else Option.bind (commitLoop db ops A (firstH (rootPages (cWorld K1))) 0 K1) (\<lambda>(rc2, K2).
           if rc2 \<noteq> SQLITE_OK then Some (rc2, K2)
           else Option.bind (sqlite3TransBtreeRollback me (dRollback db) (cTrans K2) (cSave K2) (cWorld K2)) (\<lambda>(t, S, W).
             Some (SQLITE_OK, K2\<lparr>cTrans := t, cSave := S, cWorld := W\<rparr>))))"
    using t b by (simp add: commitTables_def K1_def)
  show ?thesis
  proof (cases "rc1 = SQLITE_OK")
    case False
    then have "fst (dBegin db 1 (cShared K)) = rc1" using b by (auto split: if_splits)
    with False show ?thesis unfolding D by auto
  next
    case True
    have b': "tabs b = tabs (cShared K)" "dInTrans db b"
      using b True tr begin_ok [of 1 "cShared K" b] by (auto split: if_splits)
    have W1: "cWorld K1 = cWorld K" "cShared K1 = b" by (simp_all add: K1_def)
    have ok1: "connOk K1 t as" unfolding K1_def
      by (rule connOk_shared [OF ok]) (use ok b'(1) in \<open>auto simp: connOk_def entryOk_def\<close>)
    obtain K2 t2 where r: "commitLoop db ops A (hdq as 0) 0 K1 = Some (SQLITE_OK, K2)" "sameConn K1 t K2 t2" "cWorld K2 = cWorld K"
      "\<forall>i d. i \<in> key_of (rootHeap (cWorld K)) ` set as \<longrightarrow> pageOf (cWorld K) as i = Some d \<longrightarrow> tabs (cShared K2) i = Some (pKeyInfo d \<noteq> 0, viewOf b t i d)"
      "\<forall>i. i \<notin> key_of (rootHeap (cWorld K)) ` set as \<longrightarrow> tabs (cShared K2) i = tabs b i"
      using commit_loop [where A = A, OF mem lock ok1, of "[]" as 0] tr b'(2) del unfolding W1 recs_eq [OF b'(1)] by auto
    obtain S' W' where e: "sqlite3TransBtreeRollback me (dRollback db) (cTrans K2) (cSave K2) (cWorld K2) = Some (Some (dRollback db t2), S', W')"
      "hist S' = []" "saves S' = []" "rootPages W' = hashInit" "releasedLocks me xc (cWorld K) W'"
      using rollback_releases [OF ro _ _ _ _ _ me(1), of xc "dRollback db" t2 "cSave K2"] world me(2) r(2,3)
      by (auto simp: worldOk_def sameConn_def releasedLocks_def)
    have "tabs (cShared K2) i = Some (pKeyInfo d \<noteq> 0, viewOf b t i d)" if "pageOf (cWorld K) as i = Some d" for i d
      using r(4) that pageOf_keys [OF ro, of i] by auto
    moreover have "tabs (cShared K2) i = tabs b i" if "pageOf (cWorld K) as i = None" for i
      using r(5) that pageOf_keys [OF ro, of i] by auto
    ultimately have "installed (cWorld K) as t (tabs (cShared K)) (cShared K2)"
      by (simp add: installed_def viewOf_def recs_def b'(1))
    with True r(1) e roots_first [OF ro] W1(1) show ?thesis unfolding D by auto
  qed
qed

end

context trans_db
begin

lemma released_after_locks:
  assumes "lockSteps me T (tableArea W) (tableArea W1)" "rowArea W1 = rowArea W" "psmArea W1 = psmArea W" "releasedLocks me xc W1 W'"
  shows "releasedLocks me xc W W'"
proof -
  have "table_abs (tableArea W1) (t, q, ow) = table_abs (tableArea W) (t, q, ow)" if "\<not> (q = myPid me \<and> ow = myOwner me)" for t q ow
    using assms(1) that by (simp add: lockSteps_def)
  with assms(2-4) show ?thesis by (auto simp: releasedLocks_def)
qed

lemma commit_all:
  assumes ok: "connOk K t as" and tr: "dInTrans db t" "\<not> dReadOnly db (cShared K)" and world: "worldOk xc (cWorld K)" and me: "myPid me \<noteq> 0" "myOwner me \<noteq> 0"
    and mem: "\<And>n. tInsOk (A n) \<and> tDelOk (A n)" and lock: "\<And>i b. dLockTable db i b = SQLITE_OK"
    and q: "sqlite3rowlockIpcLockTableQuery (tableArea (cWorld K)) (myOwner me) SCHEMA_ROOT = Some eLock"
    and disk: "\<And>b. tabs b = tabs (cShared K) \<Longrightarrow> tabs (if eLock = WRITE_LOCK then b else snd (dCacheReset db b)) = F"
    and kinds: "\<And>i d. pageOf (cWorld K) as i = Some d \<Longrightarrow> \<exists>R. F i = Some (pKeyInfo d \<noteq> 0, R) \<and> syncEntry (R) (recs t (int (iIns d))) (recs t (int (iDel d))) d"
  shows "\<exists>rc K'. sqlite3TransBtreeCommit db ops A curOk arrOk commitOk me K = Some (rc, K') \<and>
    (rc = SQLITE_OK \<longrightarrow> installed (cWorld K) as t F (cShared K') \<and> releasedLocks me xc (cWorld K) (cWorld K') \<and>
       rootPages (cWorld K') = hashInit \<and> hist (cSave K') = [] \<and> saves (cSave K') = []) \<and>
    (rc \<noteq> SQLITE_OK \<longrightarrow> rc = SQLITE_LOCKED \<or> rc = SQLITE_NOMEM \<or> (\<exists>b. fst (dCacheReset db b) = rc) \<or> (\<exists>b. fst (dBegin db 1 b) = rc))"
proof -
  have t: "cTrans K = Some t" using ok by (simp add: connOk_def)
  have inv: "table_inv (tableArea (cWorld K))" using world by (simp add: worldOk_def)
  obtain rc1 K1 t1 where e: "exclusiveLockTables db ops A curOk arrOk me K = Some (rc1, K1)" "exclusiveDone me K t as rc1 K1 t1"
    using exclusive_tables [where A = A, OF ok me inv mem] by blast
  obtain rc2 b where b: "(if eLock \<noteq> WRITE_LOCK then dCacheReset db (cShared K1) else (SQLITE_OK, cShared K1)) = (rc2, b)" by fastforce
  define K2 where "K2 = K1\<lparr>cShared := b\<rparr>"
  have D: "sqlite3TransBtreeCommit db ops A curOk arrOk commitOk me K =
      (if rc1 \<noteq> SQLITE_OK then Some (rc1, K1) else if rc2 \<noteq> SQLITE_OK then Some (rc2, K2)
       else if \<not> commitOk then Some (SQLITE_NOMEM, K2) else commitTables db ops A me K2)"
    using tr(2) t q e(1) b by (simp add: sqlite3TransBtreeCommit_def transBtreeIsUsed_def K2_def)
  consider "rc1 \<noteq> SQLITE_OK" | "rc1 = SQLITE_OK" "rc2 \<noteq> SQLITE_OK" | "rc1 = SQLITE_OK" "rc2 = SQLITE_OK" "\<not> commitOk"
    | "rc1 = SQLITE_OK" "rc2 = SQLITE_OK" "commitOk" by blast
  then show ?thesis
  proof cases
    case 1
    then show ?thesis using e(2) unfolding D by (auto simp: exclusiveDone_def)
  next
    case 2
    then have "fst (dCacheReset db (cShared K1)) = rc2" using b by (auto split: if_splits)
    with 2 show ?thesis unfolding D by auto
  next
    case 3
    then show ?thesis unfolding D by auto
  next
    case 4
    have lc: "lockedConn me (insert SCHEMA_ROOT (dirty K t as)) K t K1 t1" using e(2) by (simp add: exclusiveDone_def)
    have K1: "tabs (cShared K1) = tabs (cShared K)" "tabs t1 = tabs t" "dInTrans db t1" "rowArea (cWorld K1) = rowArea (cWorld K)" "psmArea (cWorld K1) = psmArea (cWorld K)"
      "lockSteps me (insert SCHEMA_ROOT (dirty K t as)) (tableArea (cWorld K)) (tableArea (cWorld K1))"
      using lc tr(1) by (simp_all add: lockedConn_def sameConn_def)
    have pg: "pageOf (cWorld K1) = pageOf (cWorld K)" using lc by (intro pageOf_cong) (simp_all add: lockedConn_def sameConn_def)
    have F: "tabs b = F" using disk [OF K1(1)] b by (auto split: if_splits)
    have W2: "cWorld K2 = cWorld K1" "cShared K2 = b" by (simp_all add: K2_def)
    have ok2: "connOk K2 t1 as" unfolding K2_def
      by (rule connOk_shared [OF connOk_locked [OF ok lc]]) (use kinds F pg in \<open>metis\<close>)
    have world2: "worldOk xc (cWorld K2)"
      using world K1(4,5) lockSteps_inv [OF K1(6)] lockSteps_cache [OF K1(6)] by (simp add: worldOk_def W2)
    have del: "syncEntry (recs (cShared K2) i) (recs t1 (int (iIns d))) (recs t1 (int (iDel d))) d" if "pageOf (cWorld K2) as i = Some d" for i d
      using that kinds [of i d] F unfolding W2 pg recs_eq [OF K1(2)] by (auto simp: recs_def [of b])
    obtain rc K' where r: "commitTables db ops A me K2 = Some (rc, K')"
      "rc = SQLITE_OK \<longrightarrow> installed (cWorld K2) as t1 (tabs (cShared K2)) (cShared K') \<and> releasedLocks me xc (cWorld K2) (cWorld K') \<and>
         rootPages (cWorld K') = hashInit \<and> hist (cSave K') = [] \<and> saves (cSave K') = []"
      "rc \<noteq> SQLITE_OK \<longrightarrow> (\<exists>b. fst (dBegin db 1 b) = rc)"
      using commit_tables [where A = A, OF ok2 K1(3) world2 me mem lock del] by blast
    have "installed (cWorld K2) as t1 (tabs (cShared K2)) = installed (cWorld K) as t F"
      unfolding installed_def W2 pg F recs_eq [OF K1(2)] by (rule refl)
    moreover have "releasedLocks me xc (cWorld K2) W' \<Longrightarrow> releasedLocks me xc (cWorld K) W'" for W'
      using released_after_locks [OF K1(6,4,5)] by (simp add: W2)
    ultimately show ?thesis using 4 r unfolding D by auto
  qed
qed

end

section \<open>Properties\<close>

text \<open>
  C1. \<open>sqlite3TransBtreeCommit\<close> returns. With \<open>SQLITE_OK\<close> every shared table of the mapping, with rowids or an index, holds exactly what the transaction saw:
  the records of the file that it has not deleted, none of them after a deletion of all records, overridden
  by the inserted ones; all other tables are those of the file (\<open>F\<close>, read again if the page cache is out of
  date, which is not checked during DDL); the history and the mapping are empty, and exactly the locks of the connection are
  released. Otherwise the code is that of a refused lock, of short memory, or of SQLite's own begin or cache check: that SQLite's other
  functions succeed is part of the laws \<open>trans_db\<close> and of the hypotheses on \<open>dLockTable\<close> and on the allocation of cursors.
  Assumed are further the invariants of the areas, that every table of the mapping has its two tables, that the deleted
  records are records of the file, and that an inserted index record whose key is in the file is among the deleted.
\<close>

theorem TransBtreeCommit_installs:
  assumes laws: "trans_db db ops good tab at todo kcol recv tabs" and ok: "trans_db.connOk tabs K t as"
    and tr: "dInTrans db t" "\<not> dReadOnly db (cShared K)" and world: "worldOk xc (cWorld K)" and me: "myPid me \<noteq> 0" "myOwner me \<noteq> 0"
    and mem: "\<And>n. tInsOk (A n) \<and> tDelOk (A n)" and lock: "\<And>i b. dLockTable db i b = SQLITE_OK"
    and q: "sqlite3rowlockIpcLockTableQuery (tableArea (cWorld K)) (myOwner me) SCHEMA_ROOT = Some eLock"
    and disk: "\<And>b. tabs b = tabs (cShared K) \<Longrightarrow> tabs (if eLock = WRITE_LOCK then b else snd (dCacheReset db b)) = F"
    and kinds: "\<And>i d. pageOf (cWorld K) as i = Some d \<Longrightarrow> \<exists>R. F i = Some (pKeyInfo d \<noteq> 0, R) \<and>
      syncEntry R (trans_db.recs tabs t (int (iIns d))) (trans_db.recs tabs t (int (iDel d))) d"
  shows "\<exists>rc K'. sqlite3TransBtreeCommit db ops A curOk arrOk commitOk me K = Some (rc, K') \<and>
    (rc = SQLITE_OK \<longrightarrow>
       (\<forall>i d R. pageOf (cWorld K) as i = Some d \<longrightarrow> F i = Some (pKeyInfo d \<noteq> 0, R) \<longrightarrow> tabs (cShared K') i = Some (pKeyInfo d \<noteq> 0,
          (if deleteAll d \<noteq> 0 then Map.empty else R |` (- dom (trans_db.recs tabs t (int (iDel d))))) ++ trans_db.recs tabs t (int (iIns d)))) \<and>
       (\<forall>i. pageOf (cWorld K) as i = None \<longrightarrow> tabs (cShared K') i = F i) \<and> releasedLocks me xc (cWorld K) (cWorld K') \<and>
       rootPages (cWorld K') = hashInit \<and> hist (cSave K') = [] \<and> saves (cSave K') = []) \<and>
    (rc \<noteq> SQLITE_OK \<longrightarrow> rc = SQLITE_LOCKED \<or> rc = SQLITE_NOMEM \<or> (\<exists>b. fst (dCacheReset db b) = rc) \<or> (\<exists>b. fst (dBegin db 1 b) = rc))"
  using trans_db.commit_all [where A = A, OF laws ok tr world me mem lock q disk kinds] unfolding trans_db.installed_def [OF laws] by blast

text \<open>A connection with the index 5, whose record with key 2 is replaced and into which one with key 3 is inserted.\<close>

definition demoConn :: "HashTab \<Rightarrow> int heap \<Rightarrow> MapDb Conn" where
  "demoConn T H = \<lparr>cShared = \<lparr>mdTabs = [(5, True, [(6, [6, 10]), (2, [2, 20])])], mdWrite = False\<rparr>,
     cTrans = Some \<lparr>mdTabs = [(3, True, [(2, [2, 21]), (3, [3, 30])]), (4, True, [(2, [2, 20])])], mdWrite = True\<rparr>, cSave = zeroSavepoint,
     cWorld = demoWorld\<lparr>rootPages := T, rootHeap := H, rootData := [7 \<mapsto> \<lparr>iIns = 3, iDel = 4, deleteAll = 0, pKeyInfo = 9\<rparr>]\<rparr>,
     cSchema = \<lparr>idxHash = [], seqTab = None, tblHash = []\<rparr>, nOpenSp = 0\<rparr>"

lemma demoIdx_good: "mdGood True (mdCursor (True, [(6, [6, 10]), (2, [2, 20])]))" "mdGood True (mdCursor (True, [(2, [2, 21]), (3, [3, 30])]))" "mdGood True (mdCursor (True, [(2, [2, 20])]))"
  by (simp_all add: mdGood_def mdCursor_def tcGoodIdx_def keyColumn_def)

lemma demoConn_ok:
  assumes "i64_inv T H as" "contents (=) H as = (\<lambda>k'. if 5 = k' then 7 else 0)" "length as = 1"
  shows "md.connOk (demoConn T H) \<lparr>mdTabs = [(3, True, [(2, [2, 21]), (3, [3, 30])]), (4, True, [(2, [2, 20])])], mdWrite = True\<rparr> as"
    "\<And>i d. pageOf (cWorld (demoConn T H)) as i = Some d \<longleftrightarrow> i = 5 \<and> d = \<lparr>iIns = 3, iDel = 4, deleteAll = 0, pKeyInfo = 9\<rparr>"
    "worldOk blobComparator (cWorld (demoConn T H))"
proof -
  show p: "\<And>i d. pageOf (cWorld (demoConn T H)) as i = Some d \<longleftrightarrow> i = 5 \<and> d = \<lparr>iIns = 3, iDel = 4, deleteAll = 0, pKeyInfo = 9\<rparr>"
    using assms(2) by (auto simp: pageOf_def demoConn_def Let_def split: if_splits)
  have "rootsOk (cWorld (demoConn T H)) as" using assms by (auto simp: rootsOk_def demoConn_def split: if_splits)
  then show "md.connOk (demoConn T H) \<lparr>mdTabs = [(3, True, [(2, [2, 21]), (3, [3, 30])]), (4, True, [(2, [2, 20])])], mdWrite = True\<rparr> as"
    unfolding md.connOk_def p by (simp add: demoConn_def md.entryOk_def mapTabs_def demoIdx_good)
  show "worldOk blobComparator (cWorld (demoConn T H))"
    by (simp add: worldOk_def demoConn_def demoWorld_rows demoWorld_inv compareOk_blobComparator)
qed

theorem TransBtreeCommit_installs_witness:
  "\<exists>T H rc K'. sqlite3TransBtreeCommit mapDb tabOps (\<lambda>n. demoTabAlloc) True True True demoCaller (demoConn T H) = Some (rc, K') \<and>
     (rc = SQLITE_OK \<longrightarrow> mapTabs (cShared K') 5 = Some (True, [6 \<mapsto> [6, 10], 2 \<mapsto> [2, 21], 3 \<mapsto> [3, 30]]))"
proof -
  obtain T H as where r: "i64_inv T H as" "contents (=) H as = (\<lambda>k'. if 5 = k' then 7 else 0)" "length as = 1" by (rule one_root)
  let ?K = "demoConn T H" and ?t = "\<lparr>mdTabs = [(3, True, [(2, [2, 21]), (3, [3, 30])]), (4, True, [(2, [2, 20])])], mdWrite = True\<rparr>" and ?d = "\<lparr>iIns = 3, iDel = 4, deleteAll = 0, pKeyInfo = 9\<rparr>"
  note d = demoConn_ok [OF r]
  have tr: "dInTrans mapDb ?t" "\<not> dReadOnly mapDb (cShared ?K)" "\<And>i b. dLockTable mapDb i b = SQLITE_OK" by (simp_all add: mapDb_def)
  have me: "myPid demoCaller \<noteq> 0" "myOwner demoCaller \<noteq> 0" "\<And>n. tInsOk demoTabAlloc \<and> tDelOk demoTabAlloc" by (simp_all add: demoCaller_def demoTabAlloc_def)
  obtain eLock where q: "sqlite3rowlockIpcLockTableQuery (tableArea (cWorld ?K)) (myOwner demoCaller) SCHEMA_ROOT = Some eLock"
    using table_query [of "tableArea (cWorld ?K)" SCHEMA_ROOT "myOwner demoCaller"] d(3) unfolding worldOk_def by metis
  have disk: "mapTabs (if eLock = WRITE_LOCK then b else snd (dCacheReset mapDb b)) = mapTabs (cShared ?K)" if "mapTabs b = mapTabs (cShared ?K)" for b
    using that by (simp add: mapDb_def)
  have re: "md.recs ?t 3 = [2 \<mapsto> [2, 21], 3 \<mapsto> [3, 30]]" "md.recs ?t 4 = [2 \<mapsto> [2, 20]]" "mapTabs (cShared ?K) 5 = Some (True, [6 \<mapsto> [6, 10], 2 \<mapsto> [2, 20]])"
    by (auto simp: md.recs_def mapTabs_def demoConn_def fun_eq_iff demoIdx_good)
  have kinds: "\<exists>R. mapTabs (cShared ?K) i = Some (pKeyInfo d \<noteq> 0, R) \<and> syncEntry R (md.recs ?t (int (iIns d))) (md.recs ?t (int (iDel d))) d"
    if "pageOf (cWorld ?K) as i = Some d" for i d using that re unfolding d(2) by (auto simp: syncEntry_def)
  have "[6 :: i64 \<mapsto> [6, 10], 2 \<mapsto> [2, 20]] |` (- dom [2 \<mapsto> [2, 20 :: nat]]) ++ [2 \<mapsto> [2, 21], 3 \<mapsto> [3, 30]] = [6 \<mapsto> [6, 10], 2 \<mapsto> [2, 21], 3 \<mapsto> [3, 30 :: nat]]"
    by (auto simp: fun_eq_iff restrict_map_def map_add_def)
  then show ?thesis
    using TransBtreeCommit_installs [where A = "\<lambda>n. demoTabAlloc" and curOk = True and arrOk = True and commitOk = True,
        OF md.trans_db_axioms d(1) tr(1,2) d(3) me tr(3) q disk kinds] re d(2) [of 5 ?d] by fastforce
qed

text \<open>
  C6. \<open>exclusiveLockTables\<close> always returns. With \<open>SQLITE_OK\<close> the connection holds the exclusive lock of every table it has
  modified and at least the write lock of the schema; otherwise the code is that of a refused lock or of short memory. In both
  cases the tables, the row and index key locks, every lock of another holder and the connection's own locks
  on all tables but the schema and the modified ones are as before: a table of the mapping into which nothing is inserted and from which nothing is deleted is not locked.
\<close>

theorem exclusiveLockTables_correct:
  assumes laws: "trans_db db ops good tab at todo kcol recv tabs" and ok: "trans_db.connOk tabs K t as"
    and me: "myPid me \<noteq> 0" "myOwner me \<noteq> 0" and inv: "table_inv (tableArea (cWorld K))" and mem: "\<And>n. tInsOk (A n) \<and> tDelOk (A n)"
  shows "\<exists>rc K' t'. exclusiveLockTables db ops A curOk arrOk me K = Some (rc, K') \<and> rc \<in> {SQLITE_OK, SQLITE_LOCKED, SQLITE_NOMEM} \<and>
    cTrans K' = Some t' \<and> tabs t' = tabs t \<and> tabs (cShared K') = tabs (cShared K) \<and> cSave K' = cSave K \<and>
    rowArea (cWorld K') = rowArea (cWorld K) \<and> psmArea (cWorld K') = psmArea (cWorld K) \<and> table_inv (tableArea (cWorld K')) \<and>
    (\<forall>i q ow. i \<noteq> SCHEMA_ROOT \<and>
       (\<forall>d. pageOf (cWorld K) as i = Some d \<longrightarrow> trans_db.recs tabs t (int (iIns d)) = Map.empty \<and> trans_db.recs tabs t (int (iDel d)) = Map.empty) \<or>
       (q, ow) \<noteq> (myPid me, myOwner me) \<longrightarrow>
       table_abs (tableArea (cWorld K')) (i, q, ow) = table_abs (tableArea (cWorld K)) (i, q, ow)) \<and>
    (rc = SQLITE_OK \<longrightarrow>
       (\<forall>i d. pageOf (cWorld K) as i = Some d \<longrightarrow>
          trans_db.recs tabs t (int (iIns d)) \<noteq> Map.empty \<or> trans_db.recs tabs t (int (iDel d)) \<noteq> Map.empty \<longrightarrow> heldAtLeast EXCLSV_LOCK me (tableArea (cWorld K')) i) \<and>
       (as \<noteq> [] \<longrightarrow> heldAtLeast WRITE_LOCK me (tableArea (cWorld K')) SCHEMA_ROOT))"
proof -
  obtain rc K' t' where r: "exclusiveLockTables db ops A curOk arrOk me K = Some (rc, K')" "trans_db.exclusiveDone db tabs me K t as rc K' t'"
    using trans_db.exclusive_tables [where A = A, OF laws ok me inv mem] by blast
  have k: "i \<notin> insert SCHEMA_ROOT (trans_db.dirty tabs K t as) \<longleftrightarrow> i \<noteq> SCHEMA_ROOT \<and>
      (\<forall>d. pageOf (cWorld K) as i = Some d \<longrightarrow> trans_db.recs tabs t (int (iIns d)) = Map.empty \<and> trans_db.recs tabs t (int (iDel d)) = Map.empty)" for i
    by (auto simp: trans_db.dirty_def [OF laws] trans_db.modified_def [OF laws])
  show ?thesis
    using r unfolding trans_db.exclusiveDone_def [OF laws] trans_db.lockedConn_def [OF laws] trans_db.sameConn_def [OF laws] lockSteps_def k
      trans_db.modified_def [OF laws]
    by (intro exI [of _ rc] exI [of _ K'] exI [of _ t']) blast
qed

theorem exclusiveLockTables_correct_witness:
  "\<exists>T H rc K'. exclusiveLockTables mapDb tabOps (\<lambda>n. demoTabAlloc) True True demoCaller (demoConn T H) = Some (rc, K') \<and>
     (rc = SQLITE_OK \<longrightarrow> heldAtLeast EXCLSV_LOCK demoCaller (tableArea (cWorld K')) 5)"
proof -
  obtain T H as where r: "i64_inv T H as" "contents (=) H as = (\<lambda>k'. if 5 = k' then 7 else 0)" "length as = 1" by (rule one_root)
  let ?K = "demoConn T H" and ?t = "\<lparr>mdTabs = [(3, True, [(2, [2, 21]), (3, [3, 30])]), (4, True, [(2, [2, 20])])], mdWrite = True\<rparr>" and ?d = "\<lparr>iIns = 3, iDel = 4, deleteAll = 0, pKeyInfo = 9\<rparr>"
  note d = demoConn_ok [OF r]
  have me: "myPid demoCaller \<noteq> 0" "myOwner demoCaller \<noteq> 0" "\<And>n. tInsOk demoTabAlloc \<and> tDelOk demoTabAlloc" by (simp_all add: demoCaller_def demoTabAlloc_def)
  have inv: "table_inv (tableArea (cWorld ?K))" using d(3) by (simp add: worldOk_def)
  have "md.recs ?t 3 \<noteq> Map.empty" by (auto simp: md.recs_def mapTabs_def fun_eq_iff demoIdx_good)
  then show ?thesis
    using exclusiveLockTables_correct [where A = "\<lambda>n. demoTabAlloc" and curOk = True and arrOk = True, OF md.trans_db_axioms d(1) me(1,2) inv me(3)] d(2) [of 5 ?d]
    by fastforce
qed

text \<open>
  C39. A commit that cannot lock its tables keeps the write lock of the schema it has just taken: the connection
  had a read lock, the write lock is granted (and reports \<open>READ_LOCK\<close> as the former level), a later step fails, and the
  error path passes the former level as the mode and \<open>MODE_LOCK_FORCE\<close> as the level, which leaves the write lock.
\<close>

theorem commit_keeps_schema_lock:
  assumes laws: "trans_db db ops good tab at todo kcol recv tabs" and ok: "trans_db.connOk tabs K t as" and ne: "as \<noteq> []"
    and me: "myPid me \<noteq> 0" "myOwner me \<noteq> 0" and inv: "table_inv (tableArea (cWorld K))" and mem: "\<And>n. tInsOk (A n) \<and> tDelOk (A n)"
    and l: "sqlite3rowlockIpcLockTable (tableArea (cWorld K)) (myPid me) (myOwner me) SCHEMA_ROOT WRITE_LOCK MODE_LOCK_COMMIT = Some (SQLITE_OK, Some READ_LOCK, m)"
    and fail: "exclusiveLockTables db ops A True arrOk me K = Some (rc, K')" "rc \<noteq> SQLITE_OK"
  shows "table_abs (tableArea (cWorld K')) (SCHEMA_ROOT, myPid me, myOwner me) = Some WRITE_LOCK"
proof -
  have t: "cTrans K = Some t" and ro: "rootsOk (cWorld K) as" using ok by (simp_all add: trans_db.connOk_def [OF laws])
  define K1 where "K1 = K\<lparr>cWorld := (cWorld K)\<lparr>tableArea := m\<rparr>\<rparr>"
  have o: "lock_outcome (table_abs (tableArea (cWorld K))) (tableConflict (tableArea (cWorld K)) (myPid me) (myOwner me) SCHEMA_ROOT WRITE_LOCK MODE_LOCK_COMMIT)
      (nLockT (tableArea (cWorld K)) < nElementT (tableArea (cWorld K)) - 1) (SCHEMA_ROOT, myPid me, myOwner me) WRITE_LOCK MODE_LOCK_COMMIT SQLITE_OK (Some READ_LOCK) (table_abs m)"
    "table_inv m"
    using table_lock_refines [OF inv _ me, of SCHEMA_ROOT WRITE_LOCK MODE_LOCK_COMMIT] l by auto
  from o(1) have w: "table_abs m (SCHEMA_ROOT, myPid me, myOwner me) = Some WRITE_LOCK" by cases auto
  have st: "lockStep me SCHEMA_ROOT (tableArea (cWorld K)) m"
    by (rule lock_call [OF inv _ me, of SCHEMA_ROOT WRITE_LOCK MODE_LOCK_COMMIT]) (use l in simp_all)
  have ok1: "trans_db.connOk tabs K1 t as" unfolding K1_def
    by (rule trans_db.connOk_locked [OF laws ok trans_db.lockedConn_area [OF laws t lockSteps_one [OF st]]])
  have inv1: "table_inv (tableArea (cWorld K1))" and w1: "table_abs (tableArea (cWorld K1)) (SCHEMA_ROOT, myPid me, myOwner me) = Some WRITE_LOCK"
    using o(2) w by (simp_all add: K1_def)
  have cnt: "countElems (rootHeap (cWorld K)) (firstH (rootPages (cWorld K))) 0 = Some (length as)"
    using countElems_ok [OF ro, of "[]" as 0] roots_first [OF ro] by simp
  have D: "exclusiveLockTables db ops A True arrOk me K =
      (if \<not> arrOk then Option.bind (restoreLocks me None [] READ_LOCK (cWorld K1)) (\<lambda>W. Some (SQLITE_NOMEM, K1\<lparr>cWorld := W\<rparr>))
       else lockModified db ops A me (length as) READ_LOCK K1)"
    using l cnt ne by (simp add: exclusiveLockTables_def K1_def)
  show ?thesis
  proof (cases arrOk)
    case True
    then show ?thesis using trans_db.lock_modified [where A = A and pm = READ_LOCK, OF laws ok1 me inv1 mem] fail w1 D by auto
  next
    case False
    obtain m2 where "restoreLocks me None [] READ_LOCK (cWorld K1) = Some ((cWorld K1)\<lparr>tableArea := m2\<rparr>)"
      "table_abs m2 (SCHEMA_ROOT, myPid me, myOwner me) = Some WRITE_LOCK"
      by (rule trans_db.restore_ok [OF laws ok1 me inv1, of None "[]" READ_LOCK]) (use w1 in simp_all)
    then show ?thesis using fail False D by auto
  qed
qed

text \<open>A table lock is granted where nobody else has a lock and there is room.\<close>

lemma lock_alone:
  assumes inv: "table_inv m" and t: "t \<noteq> 0" and me: "myPid me \<noteq> 0" "myOwner me \<noteq> 0" and room: "nLockT m < nElementT m - 1"
    and own: "\<And>k. k \<noteq> (t, myPid me, myOwner me) \<Longrightarrow> table_abs m k = None" and less: "\<And>e. table_abs m (t, myPid me, myOwner me) = Some e \<Longrightarrow> e < l"
    and mode: "mode \<noteq> MODE_LOCK_FORCE"
  obtains m' where "sqlite3rowlockIpcLockTable m (myPid me) (myOwner me) t l mode =
      Some (SQLITE_OK, Some (case table_abs m (t, myPid me, myOwner me) of None \<Rightarrow> NOT_LOCKED | Some e \<Rightarrow> e), m')"
    "table_inv m'" "table_abs m' = (table_abs m)((t, myPid me, myOwner me) \<mapsto> l)" "nElementT m' = nElementT m" "nLockT m' \<le> nLockT m + 1"
proof -
  have c: "\<not> tableConflict m (myPid me) (myOwner me) t l mode"
  proof
    assume "tableConflict m (myPid me) (myOwner me) t l mode"
    then obtain e where e: "e \<in> set (table_locks m)" "iTableT e = t" "\<not> (pidT e = myPid me \<and> ownerT e = myOwner me)" by (auto simp: tableConflict_def)
    then have "table_abs m (tableKey e) = Some (eLockT e)" using table_abs_Some [OF inv] by blast
    moreover have "tableKey e \<noteq> (t, myPid me, myOwner me)" using e(3) by (simp add: tableKey_def)
    ultimately show False using own by simp
  qed
  obtain rc prev m' where r: "sqlite3rowlockIpcLockTable m (myPid me) (myOwner me) t l mode = Some (rc, prev, m')" "table_inv m'"
    "lock_outcome (table_abs m) (tableConflict m (myPid me) (myOwner me) t l mode) (nLockT m < nElementT m - 1) (t, myPid me, myOwner me) l mode rc prev (table_abs m')"
    using table_lock_refines [OF inv t me] by blast
  from r(3) have "rc = SQLITE_OK \<and> prev = Some (case table_abs m (t, myPid me, myOwner me) of None \<Rightarrow> NOT_LOCKED | Some e \<Rightarrow> e) \<and>
      table_abs m' = (table_abs m)((t, myPid me, myOwner me) \<mapsto> l)"
    by cases (use c room less mode in \<open>auto simp: not_le\<close>)
  with r(1,2) lockTable_frame [OF r(1)] show thesis by (intro that [of m']) auto
qed

theorem commit_keeps_schema_lock_witness:
  "\<exists>K rc K'. table_abs (tableArea (cWorld K)) (SCHEMA_ROOT, 7, 1) = Some READ_LOCK \<and>
     exclusiveLockTables mapDb tabOps (\<lambda>n. demoTabAlloc) True False demoCaller K = Some (rc, K') \<and> rc \<noteq> SQLITE_OK \<and>
     table_abs (tableArea (cWorld K')) (SCHEMA_ROOT, 7, 1) = Some WRITE_LOCK"
proof -
  obtain T H as where r: "i64_inv T H as" "contents (=) H as = (\<lambda>k'. if 5 = k' then 7 else 0)" "length as = 1" by (rule one_root)
  let ?t = "\<lparr>mdTabs = [(3, True, [(2, [2, 21]), (3, [3, 30])]), (4, True, [(2, [2, 20])])], mdWrite = True\<rparr>"
  have id: "myPid demoCaller = 7" "myOwner demoCaller = 1" by (simp_all add: demoCaller_def)
  have me: "myPid demoCaller \<noteq> 0" "myOwner demoCaller \<noteq> 0" "\<And>n. tInsOk demoTabAlloc \<and> tDelOk demoTabAlloc" by (simp_all add: demoCaller_def demoTabAlloc_def)
  let ?m0 = "tableClassInitArea tableDemo 456"
  have m0: "table_inv ?m0" "table_abs ?m0 = Map.empty" "nElementT ?m0 = 8" using table_init [of 456 tableDemo] by simp_all
  have n0: "nLockT ?m0 = 0" by (simp add: tableClassInitArea_def Let_def)
  obtain m where m: "table_inv m" "table_abs m = [(SCHEMA_ROOT, 7, 1) \<mapsto> READ_LOCK]" "nElementT m = 8" "nLockT m \<le> 1"
    by (rule lock_alone [OF m0(1) _ me(1,2), of SCHEMA_ROOT READ_LOCK MODE_LOCK_NORMAL]) (use m0 n0 in \<open>simp_all add: id\<close>)
  obtain m' where m': "sqlite3rowlockIpcLockTable m (myPid demoCaller) (myOwner demoCaller) SCHEMA_ROOT WRITE_LOCK MODE_LOCK_COMMIT = Some (SQLITE_OK, Some READ_LOCK, m')" "table_inv m'"
    by (rule lock_alone [OF m(1) _ me(1,2), of SCHEMA_ROOT WRITE_LOCK MODE_LOCK_COMMIT]) (use m in \<open>simp_all add: id split: if_splits\<close>)
  define K where "K = (demoConn T H)\<lparr>cWorld := (cWorld (demoConn T H))\<lparr>tableArea := m\<rparr>\<rparr>"
  have t: "cTrans (demoConn T H) = Some ?t" by (simp add: demoConn_def)
  have ok: "md.connOk K ?t as"
    using demoConn_ok(1) [OF r] pageOf_cong [of "cWorld K" "cWorld (demoConn T H)"]
    by (simp add: md.connOk_def md.entryOk_def K_def rootsOk_def)
  have K: "table_inv (tableArea (cWorld K))" "tableArea (cWorld K) = m" using m(1) by (simp_all add: K_def)
  have ne: "as \<noteq> []" using r(3) by auto
  obtain rc K' where e: "exclusiveLockTables mapDb tabOps (\<lambda>n. demoTabAlloc) True False demoCaller K = Some (rc, K')"
    using md.exclusive_tables [OF ok me(1,2) K(1), of "\<lambda>n. demoTabAlloc"] me(3) by blast
  have "rc \<noteq> SQLITE_OK"
    using e m'(1) ne countElems_ok [of "cWorld K" as "[]" as 0] ok
    by (auto simp: exclusiveLockTables_def K(2) md.connOk_def roots_first bind_eq_Some_conv)
  then show ?thesis
    using commit_keeps_schema_lock [where A = "\<lambda>n. demoTabAlloc", OF md.trans_db_axioms ok ne me(1,2) K(1) me(3) _ e] m'(1) m(2) e
    by (intro exI [of _ K] exI [of _ rc] exI [of _ K']) (simp add: K(2) id)
qed

end
