(* ===== verification/Trans_Blob.thy ===== *)
theory Trans_Blob
  imports Trans_Tables Trans_Seek
begin

text \<open>
  Incremental reading and writing of the payload of a record through a merged cursor (\<open>rowlock.c\<close>), as SQLite's blob handles use it. The bookkeeping that makes
  other handles on a changed record expire is not part of the model.
\<close>

section \<open>Operations\<close>

text \<open>
  SQLite's functions on one cursor: \<open>bPut\<close> is \<open>sqlite3BtreePutData\<close>, \<open>bPayload\<close> is \<open>sqlite3BtreePayload\<close>, \<open>bMark\<close> sets the flag \<open>BTCF_Incrblob\<close> and \<open>bIncrblob\<close> is
  \<open>sqlite3BtreeIncrblobCursor\<close>; \<open>bWritable\<close> is the flag \<open>BTCF_WriteFlag\<close>. \<open>bSaved\<close> is the saved key, \<open>bSkipNext\<close> the field \<open>skipNext\<close>, which holds an error code in the state
  \<open>CURSOR_FAULT\<close>. \<open>bMallocOk\<close> is the allocation of a buffer for the payload.
\<close>

record 'c BlobOps =
  bPut :: "u32 \<Rightarrow> blob \<Rightarrow> 'c \<Rightarrow> rc \<times> 'c"
  bPayload :: "'c \<Rightarrow> u32 \<Rightarrow> u32 \<Rightarrow> rc + blob"
  bMark :: "'c \<Rightarrow> 'c"
  bIncrblob :: "'c \<Rightarrow> 'c"
  bWritable :: "'c \<Rightarrow> bool"
  bMallocOk :: "'c \<Rightarrow> bool"
  bState :: "'c \<Rightarrow> CurState"
  bSetState :: "CurState \<Rightarrow> 'c \<Rightarrow> 'c"
  bSaved :: "'c \<Rightarrow> blob option \<times> i64"
  bFreeKey :: "'c \<Rightarrow> 'c"
  bSkipNext :: "'c \<Rightarrow> int"
  bSetSkipNext :: "int \<Rightarrow> 'c \<Rightarrow> 'c"
  bFaultRc :: "'c \<Rightarrow> rc"

text \<open>A record of the shared table is first copied into the tables of the transaction, then changed there.\<close>

definition sqlite3BtreePutDataAll ::
  "Caller \<Rightarrow> Alloc \<Rightarrow> 'c EditOps \<Rightarrow> 'c BlobOps \<Rightarrow> CurInfo \<Rightarrow> u32 \<Rightarrow> blob \<Rightarrow> 'c BtCursorT \<Rightarrow> RowLockSavepoint \<Rightarrow> LockWorld \<Rightarrow>
   (rc \<times> 'c BtCursorT \<times> RowLockSavepoint \<times> LockWorld) option" where
  "sqlite3BtreePutDataAll me A ops bo I offset z C S W =
     (if cursorTransIsUsed C then
        (let (rc, ci) = bPut bo offset z (bMark bo (pCurIns C)) in Some (rc, C\<lparr>pCurIns := ci\<rparr>, S, W))
      else if cursorSharedIsUsed C then
        (if \<not> bWritable bo (pCurIns C) \<or> \<not> bWritable bo (pCurDel C) then Some (SQLITE_READONLY, C, S, W)
         else if \<not> bMallocOk bo (pCur C) then Some (SQLITE_NOMEM, C, S, W)
         else case ePayload ops (pCur C) of
             Inl rc \<Rightarrow> Some (rc, C, S, W)
           | Inr pBuf \<Rightarrow>
               Option.bind (sqlite3TransBtreeInsert me A ops I \<lparr>pKeyX = None, nKeyX = eIntegerKey ops (pCur C), pDataX = pBuf\<rparr> 0 0 C S W)
                 (\<lambda>(rc, C1, S1, W1).
                    if rc \<noteq> SQLITE_OK then Some (rc, C1, S1, W1)
                    else if bState bo (pCur C1) \<noteq> CURSOR_VALID then Some (SQLITE_ABORT, C1, S1, W1)
                    else let c = snd (eSaveAll ops (pCur C1)); (rc', ci) = bPut bo offset z (bMark bo (pCurIns C1))
                         in Some (rc', C1\<lparr>pCur := c, pCurIns := ci\<rparr>, S1, W1)))
      else (let (rc, c) = bPut bo offset z (pCur C) in Some (rc, C\<lparr>pCur := c\<rparr>, S, W)))"

definition sqlite3BtreeIncrblobCursorAll :: "'c BlobOps \<Rightarrow> 'c BtCursorT \<Rightarrow> 'c BtCursorT" where
  "sqlite3BtreeIncrblobCursorAll bo C =
     (let C1 = C\<lparr>pCur := bIncrblob bo (pCur C)\<rparr> in
      if \<not> transBtreeCursorIsUsed C1 then C1
      else C1\<lparr>pCurIns := bIncrblob bo (pCurIns C1), pCurDel := bIncrblob bo (pCurDel C1)\<rparr>)"

section \<open>Restoring a position\<close>

text \<open>\<open>unpack\<close> decodes an index key, \<open>None\<close> where memory is short; \<open>nAllField\<close> is the number of columns of the index.\<close>

definition btreeMovetoAll ::
  "('c, 'r) SeekOps \<Rightarrow> (blob \<Rightarrow> 'r UnpackedRecord option) \<Rightarrow> nat \<Rightarrow> TransRootPage option \<Rightarrow> blob option \<Rightarrow> i64 \<Rightarrow> 'c BtCursorT \<Rightarrow>
   (rc \<times> int \<times> 'c BtCursorT) option" where
  "btreeMovetoAll ops unpack nAllField root pKey nKey C =
     (let moveto = (\<lambda>pIdxKey. map_option (\<lambda>(rc, res, r, C'). (rc, res, C')) (sqlite3BtreeMovetoUnpackedAll ops root pIdxKey nKey OP_None C)) in
      case pKey of
        None \<Rightarrow> moveto None
      | Some b \<Rightarrow>
          (case unpack b of
             None \<Rightarrow> Some (SQLITE_NOMEM, 0, C)
           | Some r \<Rightarrow> if nFieldU r = 0 \<or> nFieldU r > nAllField then Some (SQLITE_CORRUPT, 0, C) else moveto (Some r)))"

definition btreeRestoreCursorPositionAll ::
  "('c, 'r) SeekOps \<Rightarrow> 'c BlobOps \<Rightarrow> (blob \<Rightarrow> 'r UnpackedRecord option) \<Rightarrow> nat \<Rightarrow> bool \<Rightarrow> TransRootPage option \<Rightarrow> 'c BtCursorT \<Rightarrow>
   (rc \<times> 'c BtCursorT) option" where
  "btreeRestoreCursorPositionAll ops bo unpack nAllField faultSim root C =
     (if bState bo (pCur C) = CURSOR_FAULT then Some (bFaultRc bo (pCur C), C)
      else let (pKey, nKey) = bSaved bo (pCur C); C1 = C\<lparr>pCur := bSetState bo CURSOR_INVALID (pCur C)\<rparr> in
        Option.bind (if faultSim then Some (SQLITE_IOERR, 0, C1) else btreeMovetoAll ops unpack nAllField root pKey nKey C1) (\<lambda>(rc, skipNext, C2).
          if rc \<noteq> SQLITE_OK then Some (rc, C2)
          else let c3 = bFreeKey bo (pCur C2);
                   c4 = (if skipNext \<noteq> 0 then bSetSkipNext bo skipNext c3 else c3);
                   c5 = (if bSkipNext bo c4 \<noteq> 0 \<and> bState bo c4 = CURSOR_VALID then bSetState bo CURSOR_SKIPNEXT c4 else c4)
               in Some (SQLITE_OK, C2\<lparr>pCur := c5\<rparr>)))"

section \<open>Reading\<close>

text \<open>A cursor without cursors of the transaction, as a merged cursor that does not use them, and back.\<close>

definition cursorOf :: "'c OpenCursor \<Rightarrow> 'c BtCursorT" where
  "cursorOf X =
     (case ocTrans X of
        Some (ci, cd) \<Rightarrow> \<lparr>pCur = ocCur X, pCurIns = ci, pCurDel = cd, stateT = ocState X, typeT = ocType X, hasKeyInfo = (ocKeyInfo X \<noteq> 0)\<rparr>
      | None \<Rightarrow> \<lparr>pCur = ocCur X, pCurIns = ocCur X, pCurDel = ocCur X, stateT = CURSOR_NOT_USE, typeT = ocType X, hasKeyInfo = (ocKeyInfo X \<noteq> 0)\<rparr>)"

definition storeCursor :: "'c OpenCursor \<Rightarrow> 'c BtCursorT \<Rightarrow> 'c OpenCursor" where
  "storeCursor X C = X\<lparr>ocCur := pCur C, ocTrans := map_option (\<lambda>t. (pCurIns C, pCurDel C)) (ocTrans X), ocState := (if ocTrans X = None then ocState X else stateT C)\<rparr>"

text \<open>The entry of the mapping of root pages for a table.\<close>

definition rootPageOf :: "LockWorld \<Rightarrow> int \<Rightarrow> TransRootPage option option" where
  "rootPageOf W iTable =
     Option.bind (sqlite3HashI64Find (rootPages W) (rootHeap W) iTable) (\<lambda>p.
       if p = 0 then Some None else map_option Some (rootData W p))"

definition blobState :: "'c BlobOps \<Rightarrow> 'c BtCursorT \<Rightarrow> CurState" where
  "blobState bo C = (if cursorTransIsUsed C then bState bo (pCurIns C) else bState bo (pCur C))"

definition sqlite3BtreePayloadCheckedAll ::
  "('b, 'c) DbOps \<Rightarrow> TabAlloc \<Rightarrow> ('c, 'r) SeekOps \<Rightarrow> 'c BlobOps \<Rightarrow> (blob \<Rightarrow> 'r UnpackedRecord option) \<Rightarrow> nat \<Rightarrow> bool \<Rightarrow> 'b Conn \<Rightarrow> 'c OpenCursor \<Rightarrow>
   u32 \<Rightarrow> u32 \<Rightarrow> ((rc + blob) \<times> 'c OpenCursor \<times> 'b Conn) option" where
  "sqlite3BtreePayloadCheckedAll db A ops bo unpack nAllField faultSim K X offset amt =
     (let curState = blobState bo (cursorOf X) in
      if curState = CURSOR_VALID then Some (sqlite3BtreePayloadAll (bPayload bo) (cursorOf X) offset amt, X, K)
      else if curState = CURSOR_INVALID then Some (Inl SQLITE_ABORT, X, K)
      else Option.bind
        (if \<not> bWritable bo (ocCur X) \<and> (case cTrans K of None \<Rightarrow> False | Some t \<Rightarrow> dInTrans db t) \<and> ocTrans X = None
         then transBtreeCursor db A K (ocRoot X) 0 0 X else Some (SQLITE_OK, X, K))
        (\<lambda>(rc, X1, K1).
           if rc \<noteq> SQLITE_OK then Some (Inl rc, X1, K1)
           else Option.bind (rootPageOf (cWorld K1) (ocRoot X1)) (\<lambda>root.
             Option.bind (btreeRestoreCursorPositionAll ops bo unpack nAllField faultSim root (cursorOf X1)) (\<lambda>(rc, C2).
               Some (if rc \<noteq> SQLITE_OK then Inl rc else sqlite3BtreePayloadAll (bPayload bo) C2 offset amt, storeCursor X1 C2, K1)))))"

section \<open>Writing through a merged cursor\<close>

text \<open>A successful insertion leaves the cursor on the record of the transaction.\<close>

lemma insert_state:
  assumes "sqlite3TransBtreeInsert me A ops I X flags seekResult C S W = Some (SQLITE_OK, C', S', W')" "transBtreeCursorIsUsed C"
  shows "cursorTransIsUsed C'"
  using assms unfolding sqlite3TransBtreeInsert_def insertStore_def Let_def
  by (auto simp: cursorTransIsUsed_def split: prod.splits if_splits bind_splits option.splits)

text \<open>The bytes of a record after a write.\<close>

definition patch :: "nat \<Rightarrow> blob \<Rightarrow> blob \<Rightarrow> blob" where
  "patch off z v = take off v @ z @ drop (off + length z) v"

lemma patch_read: "off + length z \<le> length v \<Longrightarrow> take (length z) (drop off (patch off z v)) = z"
  by (simp add: patch_def)

lemma patch_length: "off + length z \<le> length v \<Longrightarrow> length (patch off z v) = length v"
  by (simp add: patch_def)

text \<open>What is relied on of SQLite's cursors on tables with rowids, whose records are their payloads.\<close>

locale blob_edit = trans_edit ops False good tab at todo kcol pDataX
  for ops :: "'c EditOps" and good :: "'c \<Rightarrow> bool" and tab :: "'c \<Rightarrow> 'k \<rightharpoonup> blob" and at :: "'c \<Rightarrow> 'k" and todo :: "'c \<Rightarrow> BtreePayload list"
    and kcol :: "blob option \<Rightarrow> i64 \<Rightarrow> 'k" +
  fixes bo :: "'c BlobOps"
  assumes moveto_at: "good c \<Longrightarrow> kcol p n \<in> dom (tab c) \<Longrightarrow> eMoveto ops p n c = (SQLITE_OK, r, c') \<Longrightarrow> at c' = kcol p n \<and> bState bo c' = CURSOR_VALID"
    and seek_valid: "good c \<Longrightarrow> btreeCursorMovetoKey ops False p n c = (SQLITE_OK, 0, c') \<Longrightarrow> bState bo c' = CURSOR_VALID"
    and payload_ok: "good c \<Longrightarrow> bState bo c = CURSOR_VALID \<Longrightarrow> \<exists>v. tab c (at c) = Some v \<and> ePayload ops c = Inr v"
    and mark_ok: "good c \<Longrightarrow> good (bMark bo c) \<and> tab (bMark bo c) = tab c \<and> at (bMark bo c) = at c \<and> bState bo (bMark bo c) = bState bo c"
    and put_ok: "good c \<Longrightarrow> bState bo c = CURSOR_VALID \<Longrightarrow> tab c (at c) = Some v \<Longrightarrow> off + length z \<le> length v \<Longrightarrow>
      \<exists>c'. bPut bo off z c = (SQLITE_OK, c') \<and> good c' \<and> tab c' = (tab c)(at c \<mapsto> patch off z v) \<and> at c' = at c \<and> bState bo c' = CURSOR_VALID"
    and read_ok: "good c \<Longrightarrow> bState bo c = CURSOR_VALID \<Longrightarrow> tab c (at c) = Some v \<Longrightarrow> off + amt \<le> length v \<Longrightarrow> bPayload bo c off amt = Inr (take amt (drop off v))"
begin

text \<open>Writing a record of the transaction itself.\<close>

lemma put_trans:
  assumes g: "goodT C" and s: "syncT C" and v: "bState bo (pCurIns C) = CURSOR_VALID" "tab (pCurIns C) (at (pCurIns C)) = Some v" "off + length z \<le> length v"
  obtains ci where "bPut bo off z (bMark bo (pCurIns C)) = (SQLITE_OK, ci)" "goodT (C\<lparr>pCurIns := ci\<rparr>)" "syncT (C\<lparr>pCurIns := ci\<rparr>)"
    "\<And>d. view d (C\<lparr>pCurIns := ci\<rparr>) = (view d C)(at (pCurIns C) \<mapsto> patch off z v)" "bPayload bo ci off (length z) = Inr z" "bState bo ci = CURSOR_VALID"
proof -
  have gi: "good (pCurIns C)" using g by (simp add: goodT_def)
  note m = mark_ok [OF gi]
  obtain ci where c: "bPut bo off z (bMark bo (pCurIns C)) = (SQLITE_OK, ci)" "good ci" "tab ci = (tab (pCurIns C))(at (pCurIns C) \<mapsto> patch off z v)"
    "at ci = at (pCurIns C)" "bState bo ci = CURSOR_VALID"
    using put_ok [of "bMark bo (pCurIns C)" v off z] m v by auto
  have "dom (tab ci) = dom (tab (pCurIns C))" using c(3) v(2) by auto
  then have "syncT (C\<lparr>pCurIns := ci\<rparr>)" using s by (simp add: syncT_def)
  moreover have "bPayload bo ci off (length z) = Inr z"
    using read_ok [OF c(2,5), of "patch off z v" off "length z"] c(3,4) v(3) patch_read [OF v(3)] patch_length [OF v(3)] by simp
  moreover have "view d (C\<lparr>pCurIns := ci\<rparr>) = (view d C)(at (pCurIns C) \<mapsto> patch off z v)" for d
    by (simp add: view_def c(3))
  ultimately show thesis using c(1,2,5) g by (intro that) (simp_all add: goodT_def)
qed

text \<open>Writing a record of the shared table.\<close>

lemma put_shared:
  assumes g: "goodT C" and C: "transBtreeCursorIsUsed C" "\<not> cursorTransIsUsed C" "cursorSharedIsUsed C" "\<not> hasKeyInfo C" "\<not> rowlockIsSequenceTable C"
    and inv: "syncT C" "sp_inv S" "row_inv (rowArea W)" "pgnoRoot I \<noteq> 0"
    and w: "bWritable bo (pCurIns C)" "bWritable bo (pCurDel C)" "bMallocOk bo (pCur C)"
    and v: "bState bo (pCur C) = CURSOR_VALID" "tab (pCur C) (at (pCur C)) = Some v" "off + length z \<le> length v"
  shows "\<exists>rc rcL C' S' m. sqlite3BtreePutDataAll me A ops bo I off z C S W = Some (rc, C', S', W\<lparr>rowArea := m\<rparr>) \<and>
    goodT C' \<and> syncT C' \<and> sp_inv S' \<and> row_inv m \<and>
    rowLockOutcome (row_abs (rowArea W)) (pgnoRoot I, eIntegerKey ops (pCur C)) (myPid me, myOwner me) rcL (row_abs m) \<and>
    rc = (if rcL = SQLITE_LOCKED \<and> autoRowid I = 1 then SQLITE_CORRUPT_ROWID else rcL) \<and>
    (if rc = SQLITE_OK then (\<forall>d. view d C' = (view d C)(at (pCur C) \<mapsto> patch off z v)) \<and> cursorTransIsUsed C' \<and>
       bState bo (pCurIns C') = CURSOR_VALID \<and> bPayload bo (pCurIns C') off (length z) = Inr z
     else \<forall>d. view d C' = view d C)"
proof -
  have gc: "good (pCur C)" using g by (simp add: goodT_def)
  let ?X = "\<lparr>pKeyX = None, nKeyX = eIntegerKey ops (pCur C), pDataX = v\<rparr>" and ?k = "at (pCur C)"
  have p: "ePayload ops (pCur C) = Inr v" using payload_ok [OF gc v(1)] v(2) by auto
  have k: "kx ?X = ?k" using rowid_ok [OF _ gc] v(2) by auto
  have nf: "\<not> False" by simp
  have app: "odd ((0 :: nat) div OPFLAG_APPEND) \<or> (0 :: int) \<noteq> 0 \<or> \<not> cursorSharedIsUsed C \<Longrightarrow> kx ?X \<in> dom (tab (pCur C)) \<Longrightarrow> kx ?X \<in> dom (tab (pCurDel C))"
    using C(3) by simp
  obtain rc rcL C1 S' m where i: "sqlite3TransBtreeInsert me A ops I ?X 0 0 C S W = Some (rc, C1, S', W\<lparr>rowArea := m\<rparr>)" "goodT C1" "syncT C1" "sp_inv S'" "row_inv m"
    "rowLockOutcome (row_abs (rowArea W)) (pgnoRoot I, nKeyX ?X) (myPid me, myOwner me) rcL (row_abs m)"
    "rc = (if rcL = SQLITE_LOCKED \<and> autoRowid I = 1 then SQLITE_CORRUPT_ROWID else rcL)"
    "\<forall>d. view d C1 = (if rc = SQLITE_OK then (view d C)(kx ?X \<mapsto> pDataX ?X) else view d C)"
    "rc = SQLITE_OK \<longrightarrow> movedTo ?X (pCurIns C1) \<and>
       (0 = (0 :: nat) \<and> 0 = (0 :: int) \<and> cursorSharedIsUsed C \<and> kx ?X \<in> dom (tab (pCur C)) \<longrightarrow> soughtTo ?X (pCur C1))"
    using insert_row [OF g C(1,4,5) nf inv app, where me = me and A = A] by blast
  show ?thesis
  proof (cases "rc = SQLITE_OK")
    case False
    then show ?thesis using i C(2,3) w p
      by (intro exI [of _ rc] exI [of _ rcL] exI [of _ C1] exI [of _ S'] exI [of _ m]) (simp add: sqlite3BtreePutDataAll_def)
  next
    case True
    obtain ci0 r where m0: "good ci0" "?k \<in> dom (tab ci0)" "eMoveto ops None (eIntegerKey ops (pCur C)) ci0 = (SQLITE_OK, r, pCurIns C1)"
      using i(9) True k by (auto simp: movedTo_def)
    have mi: "tab (pCurIns C1) = tab ci0" using moveto_ok [OF m0(1)] m0(3) by (metis prod.inject)
    have at: "at (pCurIns C1) = ?k" "bState bo (pCurIns C1) = CURSOR_VALID" using moveto_at [OF m0(1) _ m0(3)] m0(2) k by auto
    have valid: "bState bo (pCur C1) = CURSOR_VALID" using i(9) True C(3) v(2) k seek_valid unfolding soughtTo_def by (metis domI)
    have iv: "tab (pCurIns C1) ?k = Some v"
    proof -
      obtain v' where v': "tab (pCurIns C1) ?k = Some v'" using mi m0(2) by auto
      then have "view False C1 ?k = Some v'" by (simp add: view_def)
      then show ?thesis using i(8) True k v' by simp
    qed
    obtain ci where c: "bPut bo off z (bMark bo (pCurIns C1)) = (SQLITE_OK, ci)" "goodT (C1\<lparr>pCurIns := ci\<rparr>)" "syncT (C1\<lparr>pCurIns := ci\<rparr>)"
      "\<And>d. view d (C1\<lparr>pCurIns := ci\<rparr>) = (view d C1)(at (pCurIns C1) \<mapsto> patch off z v)" "bPayload bo ci off (length z) = Inr z" "bState bo ci = CURSOR_VALID"
      by (rule put_trans [OF i(2,3) at(2), of v off z]) (use at iv v(3) in simp_all)
    have g1: "good (pCur C1)" using i(2) by (simp add: goodT_def)
    obtain cs where s: "eSaveAll ops (pCur C1) = (SQLITE_OK, cs)" "good cs" "tab cs = tab (pCur C1)" using save_ok [OF g1] by blast
    let ?C = "C1\<lparr>pCur := cs, pCurIns := ci\<rparr>"
    have f: "goodT ?C" "syncT ?C" using c(2,3) s by (simp_all add: goodT_def syncT_def)
    have "view d ?C = view d (C1\<lparr>pCurIns := ci\<rparr>)" for d by (simp add: view_def s(3))
    then have fv: "\<forall>d. view d ?C = (view d C)(?k \<mapsto> patch off z v)" using c(4) i(8) True k at(1) by simp
    have "cursorTransIsUsed C1" using insert_state [OF i(1) [unfolded True] C(1)] .
    then show ?thesis using i(1,4-7) True C(2,3) w p valid s(1) c(1,5,6) f fv
      by (intro exI [of _ rc] exI [of _ rcL] exI [of _ ?C] exI [of _ S'] exI [of _ m]) (simp add: sqlite3BtreePutDataAll_def cursorTransIsUsed_def)
  qed
qed

end

section \<open>Tables as lists of rows\<close>

definition tcValid :: "TabCur \<Rightarrow> CurState" where
  "tcValid c = (if tcAt c < length (tcRows c) then CURSOR_VALID else CURSOR_INVALID)"

definition tabBlob :: "TabCur BlobOps" where
  "tabBlob = \<lparr>
     bPut = (\<lambda>off z c. if tcAt c < length (tcRows c) \<and> off + length z \<le> length (snd (tcRows c ! tcAt c))
               then (SQLITE_OK, c\<lparr>tcRows := (tcRows c)[tcAt c := (tcKey c, patch off z (snd (tcRows c ! tcAt c)))]\<rparr>) else (SQLITE_ERROR, c)),
     bPayload = (\<lambda>c off amt. if tcAt c < length (tcRows c) \<and> off + amt \<le> length (snd (tcRows c ! tcAt c))
               then Inr (take amt (drop off (snd (tcRows c ! tcAt c)))) else Inl SQLITE_CORRUPT),
     bMark = (\<lambda>c. c), bIncrblob = (\<lambda>c. c), bWritable = (\<lambda>c. True), bMallocOk = (\<lambda>c. True), bState = tcValid, bSetState = (\<lambda>s c. c),
     bSaved = (\<lambda>c. (None, tcKey c)), bFreeKey = (\<lambda>c. c), bSkipNext = (\<lambda>c. 0), bSetSkipNext = (\<lambda>n c. c), bFaultRc = (\<lambda>c. SQLITE_OK) \<rparr>"

lemma tcAt_tab:
  assumes "tcGood c" "tcAt c < length (tcRows c)"
  shows "tcTab c (tcKey c) = Some (snd (tcRows c ! tcAt c))"
proof -
  have "(tcKey c, snd (tcRows c ! tcAt c)) \<in> set (tcRows c)" using assms(2) nth_mem [OF assms(2)] by (simp add: tcKey_def)
  then show ?thesis using assms(1) by (simp add: tcTab_def tcGood_def)
qed

lemma tcAt_update:
  assumes "tcGood c" "tcAt c < length (tcRows c)"
  shows "tcGood (c\<lparr>tcRows := (tcRows c)[tcAt c := (tcKey c, v)]\<rparr>)" "tcTab (c\<lparr>tcRows := (tcRows c)[tcAt c := (tcKey c, v)]\<rparr>) = (tcTab c)(tcKey c \<mapsto> v)"
proof -
  have k: "fst (tcRows c ! tcAt c) = tcKey c" using assms(2) by (simp add: tcKey_def)
  have d: "distinct (map fst (tcRows c))" using assms(1) by (simp add: tcGood_def)
  show "tcGood (c\<lparr>tcRows := (tcRows c)[tcAt c := (tcKey c, v)]\<rparr>)"
    using assms(1) by (simp add: tcGood_def distinct_upd_same [OF assms(2) k])
  show "tcTab (c\<lparr>tcRows := (tcRows c)[tcAt c := (tcKey c, v)]\<rparr>) = (tcTab c)(tcKey c \<mapsto> v)"
    using map_of_upd [OF d assms(2) k, of v] by (simp add: tcTab_def)
qed

lemma tcSeek_valid: "tcSeek P c = (rc, r, c') \<Longrightarrow> r = 0 \<longleftrightarrow> tcValid c' = CURSOR_VALID"
  by (auto simp: tcSeek_def tcValid_def Let_def)

interpretation tb: blob_edit tabOps tcGood tcTab tcKey tcTodo "\<lambda>p n. n" tabBlob
proof
  fix c p n r c'
  assume g: "tcGood c" and d: "n \<in> dom (tcTab c)" and e: "eMoveto tabOps p n c = (SQLITE_OK, r, c')"
  obtain r0 c0 where "tcMoveto p n c = (SQLITE_OK, r0, c0)" "r0 = 0 \<longleftrightarrow> n \<in> dom (map_of (tcRows c))" "r0 = 0 \<longrightarrow> tcKey c0 = n \<and> tcAt c0 < length (tcRows c)"
    using tcMoveto_ok [of c p n] g unfolding tcGood_def by metis
  then show "tcKey c' = n \<and> bState tabBlob c' = CURSOR_VALID"
    using d e tcSeek_valid [of _ c SQLITE_OK r c'] by (simp add: tabOps_def tabBlob_def tcTab_def tcMoveto_def)
next
  fix c p n c'
  assume "tcGood c" "btreeCursorMovetoKey tabOps False p n c = (SQLITE_OK, 0, c')"
  then show "bState tabBlob c' = CURSOR_VALID" using tcSeek_valid [of _ c SQLITE_OK 0 c'] by (simp add: btreeCursorMovetoKey_def tabOps_def tabBlob_def tcMovetoKey_def)
next
  fix c
  assume "tcGood c" "bState tabBlob c = CURSOR_VALID"
  then show "\<exists>v. tcTab c (tcKey c) = Some v \<and> ePayload tabOps c = Inr v"
    using tcAt_tab [of c] by (auto simp: tabBlob_def tcValid_def tabOps_def split: if_splits)
next
  fix c
  assume "tcGood c"
  then show "tcGood (bMark tabBlob c) \<and> tcTab (bMark tabBlob c) = tcTab c \<and> tcKey (bMark tabBlob c) = tcKey c \<and> bState tabBlob (bMark tabBlob c) = bState tabBlob c"
    by (simp add: tabBlob_def)
next
  fix c v off and z :: blob
  assume c: "tcGood c" "bState tabBlob c = CURSOR_VALID" "tcTab c (tcKey c) = Some v" "off + length z \<le> length v"
  then have i: "tcAt c < length (tcRows c)" by (simp add: tabBlob_def tcValid_def split: if_splits)
  have v: "snd (tcRows c ! tcAt c) = v" using tcAt_tab [OF c(1) i] c(3) by simp
  show "\<exists>c'. bPut tabBlob off z c = (SQLITE_OK, c') \<and> tcGood c' \<and> tcTab c' = (tcTab c)(tcKey c \<mapsto> patch off z v) \<and> tcKey c' = tcKey c \<and> bState tabBlob c' = CURSOR_VALID"
    using tcAt_update [OF c(1) i, of "patch off z v"] i v c(4) by (simp add: tabBlob_def tcValid_def) (simp add: tcKey_def)
next
  fix c v off amt
  assume c: "tcGood c" "bState tabBlob c = CURSOR_VALID" "tcTab c (tcKey c) = Some v" "off + amt \<le> length v"
  then have i: "tcAt c < length (tcRows c)" by (simp add: tabBlob_def tcValid_def split: if_splits)
  show "bPayload tabBlob c off amt = Inr (take amt (drop off v))" using tcAt_tab [OF c(1) i] c(3,4) i by (simp add: tabBlob_def)
qed

section \<open>Properties\<close>

text \<open>
  C14. Writing into the payload of a record through a blob handle. A record of the shared table gets its row lock first, as an insertion does, and is left alone where the
  lock is refused; on success the transaction sees the record with exactly the written bytes replaced, and reading them back through the handle
  gives what was written. A record of the transaction itself is changed in place without further locks.
\<close>

theorem PutDataAll_correct:
  assumes laws: "blob_edit ops good tab at todo kcol bo"
    and C: "cursorTransIsUsed C \<or> cursorSharedIsUsed C" "\<not> hasKeyInfo C" "\<not> rowlockIsSequenceTable C" "table_edit.goodT good C"
    and inv: "trans_edit.syncT tab C" "sp_inv S" "row_inv (rowArea W)" "pgnoRoot I \<noteq> 0"
    and w: "bWritable bo (pCurIns C)" "bWritable bo (pCurDel C)" "bMallocOk bo (pCur C)"
    and v: "blobState bo C = CURSOR_VALID" "c = (if cursorTransIsUsed C then pCurIns C else pCur C)" "tab c (at c) = Some v" "off + length z \<le> length v"
  shows "\<exists>rc rcL C' S' m. sqlite3BtreePutDataAll me A ops bo I off z C S W = Some (rc, C', S', W\<lparr>rowArea := m\<rparr>) \<and>
    table_edit.goodT good C' \<and> trans_edit.syncT tab C' \<and> sp_inv S' \<and> row_inv m \<and>
    (if cursorTransIsUsed C then rcL = SQLITE_OK \<and> S' = S \<and> m = rowArea W
     else rowLockOutcome (row_abs (rowArea W)) (pgnoRoot I, eIntegerKey ops (pCur C)) (myPid me, myOwner me) rcL (row_abs m)) \<and>
    rc = (if rcL = SQLITE_LOCKED \<and> autoRowid I = 1 then SQLITE_CORRUPT_ROWID else rcL) \<and>
    (if rc = SQLITE_OK
     then (\<forall>d. table_edit.view tab d C' = (table_edit.view tab d C)(at c \<mapsto> patch off z v)) \<and> blobState bo C' = CURSOR_VALID \<and>
       sqlite3BtreePayloadAll (bPayload bo) C' off (length z) = Inr z
     else \<forall>d. table_edit.view tab d C' = table_edit.view tab d C)"
proof (cases "cursorTransIsUsed C")
  case True
  then have c: "bState bo (pCurIns C) = CURSOR_VALID" "tab (pCurIns C) (at (pCurIns C)) = Some v" "c = pCurIns C" using v by (simp_all add: blobState_def)
  show ?thesis
    by (rule blob_edit.put_trans [OF laws C(4) inv(1) c(1,2) v(4)])
      (use True inv c(3) in \<open>auto simp: sqlite3BtreePutDataAll_def blobState_def sqlite3BtreePayloadAll_def cursorTransIsUsed_def\<close>)
next
  case False
  then have c: "bState bo (pCur C) = CURSOR_VALID" "tab (pCur C) (at (pCur C)) = Some v" "c = pCur C" "cursorSharedIsUsed C" using v C(1) by (simp_all add: blobState_def)
  have u: "transBtreeCursorIsUsed C" using c(4) by (cases "stateT C = 0") (simp_all add: transBtreeCursorIsUsed_def cursorSharedIsUsed_def)
  obtain rc rcL C' S' m where "sqlite3BtreePutDataAll me A ops bo I off z C S W = Some (rc, C', S', W\<lparr>rowArea := m\<rparr>)"
    "table_edit.goodT good C'" "trans_edit.syncT tab C'" "sp_inv S'" "row_inv m"
    "rowLockOutcome (row_abs (rowArea W)) (pgnoRoot I, eIntegerKey ops (pCur C)) (myPid me, myOwner me) rcL (row_abs m)"
    "rc = (if rcL = SQLITE_LOCKED \<and> autoRowid I = 1 then SQLITE_CORRUPT_ROWID else rcL)"
    "if rc = SQLITE_OK then (\<forall>d. table_edit.view tab d C' = (table_edit.view tab d C)(at (pCur C) \<mapsto> patch off z v)) \<and> cursorTransIsUsed C' \<and>
       bState bo (pCurIns C') = CURSOR_VALID \<and> bPayload bo (pCurIns C') off (length z) = Inr z
     else \<forall>d. table_edit.view tab d C' = table_edit.view tab d C"
    using blob_edit.put_shared [OF laws C(4) u False c(4) C(2,3) inv w c(1,2) v(4), of me A] by blast
  then show ?thesis using False c(3)
    by (intro exI [of _ rc] exI [of _ rcL] exI [of _ C'] exI [of _ S'] exI [of _ m]) (auto simp: blobState_def sqlite3BtreePayloadAll_def)
qed

theorem PutDataAll_correct_witness:
  "\<exists>rc C' S' m. sqlite3BtreePutDataAll demoCaller demoAlloc tabOps tabBlob \<lparr>pgnoRoot = 5, aColl0 = 0, autoRowid = 0\<rparr> 0 [11] demoTables demoSavepoint demoWorld =
      Some (rc, C', S', demoWorld\<lparr>rowArea := m\<rparr>) \<and> (if rc = SQLITE_OK then tc.view False C' 1 = Some [11] else tc.view False C' 1 = Some [10])"
proof -
  let ?I = "\<lparr>pgnoRoot = 5, aColl0 = 0, autoRowid = 0\<rparr>" and ?c = "pCur demoTables"
  have t: "tc.view False demoTables 1 = Some [10]" "tcKey ?c = 1" "tcTab ?c (tcKey ?c) = Some [10]" "blobState tabBlob demoTables = CURSOR_VALID"
    by (simp_all add: tc.view_def demoTables_def tcTab_def tcKey_def blobState_def tabBlob_def tcValid_def cursorTransIsUsed_def)
  have w: "bWritable tabBlob x" "bMallocOk tabBlob x" for x by (simp_all add: tabBlob_def)
  have p: "patch 0 [11] [10] = [11]" by (simp add: patch_def)
  have h: "cursorTransIsUsed demoTables \<or> cursorSharedIsUsed demoTables" "pgnoRoot ?I \<noteq> 0"
    "?c = (if cursorTransIsUsed demoTables then pCurIns demoTables else ?c)" "0 + length [11 :: nat] \<le> length [10 :: nat]"
    using demoTables_ok(6,7) by simp_all
  obtain rc C' S' m where r: "sqlite3BtreePutDataAll demoCaller demoAlloc tabOps tabBlob ?I 0 [11] demoTables demoSavepoint demoWorld = Some (rc, C', S', demoWorld\<lparr>rowArea := m\<rparr>)"
    "if rc = SQLITE_OK then (\<forall>d. tc.view d C' = (tc.view d demoTables)(tcKey ?c \<mapsto> patch 0 [11] [10])) \<and> blobState tabBlob C' = CURSOR_VALID \<and>
       sqlite3BtreePayloadAll (bPayload tabBlob) C' 0 (length [11 :: nat]) = Inr [11]
     else \<forall>d. tc.view d C' = tc.view d demoTables"
    using PutDataAll_correct [OF tb.blob_edit_axioms h(1) demoTables_ok(2-5) demoSavepoint_ok(1) demoWorld_rows(1) h(2) w(1) w(1) w(2) t(4) h(3) t(3) h(4), of demoCaller demoAlloc]
    by blast
  then show ?thesis using t(1,2) p by (intro exI [of _ rc] exI [of _ C'] exI [of _ S'] exI [of _ m]) (auto split: if_splits)
qed

end
