(* ===== verification/Os_Linux.thy ===== *)
theory Os_Linux
  imports Ipc_Area
begin

text \<open>
  The memory mapped files, mutexes and signal handlers of \<open>rowlock_os_linux.c\<close>. The
  results of the system calls are arguments, in a record per function; the results of the
  model are the return code, the handle, and the file descriptors that are closed and
  the names that are unlinked, in order.
\<close>

definition MAX_PATH_LEN :: nat where "MAX_PATH_LEN = 512"

section \<open>Signals and mutexes\<close>

text \<open>\<open>sigactionOk\<close> is whether installing the handler of a signal succeeds; the result is the list of signals handled.\<close>

fun rowlockOsSetSignalAction :: "(int \<Rightarrow> bool) \<Rightarrow> int list \<Rightarrow> bool \<times> int list" where
  "rowlockOsSetSignalAction sigactionOk [] = (True, [])"
| "rowlockOsSetSignalAction sigactionOk (s # ss) =
     (if \<not> sigactionOk s then (False, [])
      else let (ok, done) = rowlockOsSetSignalAction sigactionOk ss in (ok, s # done))"

record MUTEX_HANDLE =
  held :: bool
  init :: bool

definition rowlockOsMutexOpen :: "bool \<Rightarrow> bool \<Rightarrow> bool \<Rightarrow> MUTEX_HANDLE \<Rightarrow> rc \<times> MUTEX_HANDLE" where
  "rowlockOsMutexOpen settypeOk setpsharedOk setrobustOk pMutex =
     (if \<not> settypeOk then (SQLITE_ERROR, pMutex)
      else if \<not> setpsharedOk then (SQLITE_ERROR, pMutex)
      else if \<not> setrobustOk then (SQLITE_ERROR, pMutex)
      else (SQLITE_OK, pMutex\<lparr>init := True\<rparr>))"

definition rowlockOsMutexClose :: "MUTEX_HANDLE \<Rightarrow> MUTEX_HANDLE" where
  "rowlockOsMutexClose pMutex = pMutex\<lparr>held := False, init := False\<rparr>"

definition rowlockOsMutexEnter :: "MUTEX_HANDLE \<Rightarrow> MUTEX_HANDLE" where
  "rowlockOsMutexEnter pMutex = pMutex\<lparr>held := True\<rparr>"

definition rowlockOsMutexLeave :: "MUTEX_HANDLE \<Rightarrow> MUTEX_HANDLE" where
  "rowlockOsMutexLeave pMutex = pMutex\<lparr>held := False\<rparr>"

section \<open>Who uses a file\<close>

text \<open>
  \<open>fuser\<close> prints process numbers; a line counts as the number \<open>atoi\<close> reads at its start.
  \<open>None\<close> is a failed \<open>popen\<close>. The flags are \<open>OPEN_ME\<close> and \<open>OPEN_OTHER\<close>.
\<close>

fun fileUserLoop :: "int \<Rightarrow> int list \<Rightarrow> bool \<times> bool \<Rightarrow> bool \<times> bool" where
  "fileUserLoop me [] user = user"
| "fileUserLoop me (pid # lines) user =
     (if pid \<le> 0 then fileUserLoop me lines user
      else if pid = me then fileUserLoop me lines (True, snd user)
      else fileUserLoop me lines (fst user, True))"

definition fileUser :: "int \<Rightarrow> int list option \<Rightarrow> rc \<times> bool \<times> bool" where
  "fileUser me out =
     (case out of None \<Rightarrow> (SQLITE_CANTOPEN, False, False) | Some lines \<Rightarrow> (SQLITE_OK, fileUserLoop me lines (False, False)))"

section \<open>Memory mapped files\<close>

record MMAP_HANDLE =
  fdMmap :: int
  fdMng :: int
  mapName :: string
  mapSize :: u64

definition zeroMmap :: MMAP_HANDLE where
  "zeroMmap = \<lparr>fdMmap = 0, fdMng = 0, mapName = [], mapSize = 0\<rparr>"

record MmapCalls =
  openMap :: int
  openMng :: int
  fdopenOk :: bool
  fstatSize :: "nat option"
  lseekOk :: bool
  writeOk :: bool
  rewindOk :: bool
  mmapOk :: bool

definition SET_MANAGEMENT_FILE_NAME :: "string \<Rightarrow> string" where
  "SET_MANAGEMENT_FILE_NAME pIn = pIn @ ''_MNG''"

definition getFileSize :: "MmapCalls \<Rightarrow> rc + nat" where
  "getFileSize c =
     (if \<not> fdopenOk c then Inl SQLITE_CANTOPEN
      else case fstatSize c of None \<Rightarrow> Inl SQLITE_CANTOPEN | Some n \<Rightarrow> Inr n)"

definition stretchFileSize :: "MmapCalls \<Rightarrow> rc" where
  "stretchFileSize c =
     (if \<not> lseekOk c then SQLITE_IOERR_SEEK else if \<not> writeOk c then SQLITE_IOERR_WRITE else SQLITE_OK)"

text \<open>The result: return code, handle if set, and the descriptors closed.\<close>

definition rowlockOsMmapOpen :: "MmapCalls \<Rightarrow> u64 \<Rightarrow> string \<Rightarrow> rc \<times> MMAP_HANDLE option \<times> int list" where
  "rowlockOsMmapOpen c allocSize name =
     (if openMap c = -1 then (SQLITE_CANTOPEN, None, [])
      else if openMng c = -1 then (SQLITE_CANTOPEN, None, [openMap c])
      else case getFileSize c of
          Inl rc \<Rightarrow> (rc, None, [openMng c, openMap c])
        | Inr fileSize \<Rightarrow>
            (let rc = (if fileSize < allocSize then
                         (if stretchFileSize c \<noteq> SQLITE_OK then stretchFileSize c
                          else if \<not> rewindOk c then SQLITE_IOERR_SEEK else SQLITE_OK)
                       else SQLITE_OK)
             in if rc \<noteq> SQLITE_OK then (rc, None, [openMng c, openMap c])
                else if \<not> mmapOk c then (SQLITE_IOERR_SHMMAP, None, [openMng c, openMap c])
                else (SQLITE_OK, Some \<lparr>fdMmap = openMap c, fdMng = openMng c, mapName = name, mapSize = allocSize\<rparr>, [])))"

text \<open>Closing a mapping: the descriptors closed and the names unlinked.\<close>

definition rowlockOsMmapClose :: "int \<Rightarrow> int list option \<Rightarrow> MMAP_HANDLE \<Rightarrow> int list \<times> string list" where
  "rowlockOsMmapClose me out hMap =
     (let (rc, user) = fileUser me out in
      ([fdMmap hMap, fdMng hMap],
       if rc = SQLITE_OK \<and> \<not> (fst user \<or> snd user) then [mapName hMap, SET_MANAGEMENT_FILE_NAME (mapName hMap)] else []))"

section \<open>Properties\<close>

lemma fileUserLoop_flags:
  "fileUserLoop me lines user = (fst user \<or> (me > 0 \<and> me \<in> set lines), snd user \<or> (\<exists>p\<in>set lines. p > 0 \<and> p \<noteq> me))"
  by (induction me lines user rule: fileUserLoop.induct) auto


end
