(* ===== verification/Ipc_Handle.thy ===== *)
theory Ipc_Handle
  imports Os_Linux Ipc_Row Cached_Rowid
begin

text \<open>
  Opening and closing the shared memory of the row and table locks (\<open>rowlock_ipc.c\<close>), and
  the operations that open it themselves: release of all locks of a process or of
  everyone, and the cleanup on exit and on signals (\<open>rowlock.c\<close>). The mapped files are
  functions from their names to their areas, an area of a file that does not exist being
  zeroed.
\<close>

section \<open>State\<close>

record IpcFiles =
  rowFile :: "string \<Rightarrow> RowArea"
  tableFile :: "string \<Rightarrow> TableArea"
  rowMutex :: "string \<Rightarrow> MUTEX_HANDLE"
  tableMutex :: "string \<Rightarrow> MUTEX_HANDLE"

text \<open>The pointers \<open>pRecordLock\<close> and \<open>pTableLock\<close> are the names of the mapped files.\<close>

record IpcHandle =
  hRecordLock :: MMAP_HANDLE
  hTableLock :: MMAP_HANDLE
  pRecordLock :: string
  pTableLock :: string
  ownerI :: u64

text \<open>
  The environment: full paths, the system calls of a mapping and of a mutex, and the
  process numbers that \<open>fuser\<close> lists for a management file.
\<close>

record IpcEnv =
  fullPathname :: "string \<Rightarrow> rc + string"
  mmapCalls :: "string \<Rightarrow> MmapCalls"
  mutexOk :: "string \<Rightarrow> bool"
  fuserOut :: "string \<Rightarrow> int list option"
  selfPid :: PID

section \<open>Opening and closing\<close>

definition rowlockIpcMapName :: "IpcEnv \<Rightarrow> (nat \<Rightarrow> string \<Rightarrow> string option) \<Rightarrow> nat \<Rightarrow> string \<Rightarrow> rc + string" where
  "rowlockIpcMapName env xMapNm bufSize name =
     (case fullPathname env name of
        Inl rc \<Rightarrow> Inl rc
      | Inr fullPath \<Rightarrow> (case xMapNm bufSize fullPath of None \<Rightarrow> Inl SQLITE_CANTOPEN | Some buf \<Rightarrow> Inr buf))"

text \<open>The result: return code, handle, area and descriptors closed.\<close>

definition rowlockIpcCreate ::
  "IpcEnv \<Rightarrow> ('m, 'e, 'k) IpcClass \<Rightarrow> u64 \<Rightarrow> string \<Rightarrow> 'm \<Rightarrow> rc \<times> MMAP_HANDLE option \<times> 'm \<times> int list" where
  "rowlockIpcCreate env xClass allocSize name pMap =
     (let (rc, h, cl) = rowlockOsMmapOpen (mmapCalls env name) allocSize name in
      if rc \<noteq> SQLITE_OK then (rc, h, pMap, cl)
      else (SQLITE_OK, h, if \<not> xIsInitialized xClass pMap then xInitArea xClass pMap allocSize else pMap, cl))"

text \<open>Unlinking a file: the next opener finds a zeroed area.\<close>

definition unlinkFiles :: "string list \<Rightarrow> IpcFiles \<Rightarrow> IpcFiles" where
  "unlinkFiles names F =
     \<lparr>rowFile = (\<lambda>n. if n \<in> set names then freshRowArea else rowFile F n),
      tableFile = (\<lambda>n. if n \<in> set names then freshTableArea else tableFile F n),
      rowMutex = (\<lambda>n. if n \<in> set names then \<lparr>held = False, init = False\<rparr> else rowMutex F n),
      tableMutex = (\<lambda>n. if n \<in> set names then \<lparr>held = False, init = False\<rparr> else tableMutex F n)\<rparr>"

text \<open>The result of closing: the files and the descriptors closed.\<close>

definition rowlockIpcClose :: "IpcEnv \<Rightarrow> MMAP_HANDLE \<Rightarrow> IpcFiles \<Rightarrow> IpcFiles \<times> int list" where
  "rowlockIpcClose env hMap F =
     (let (fds, names) = rowlockOsMmapClose (int (selfPid env)) (fuserOut env (SET_MANAGEMENT_FILE_NAME (mapName hMap))) hMap
      in (unlinkFiles names F, fds))"

definition ipcCloseBoth :: "IpcEnv \<Rightarrow> MMAP_HANDLE \<Rightarrow> MMAP_HANDLE \<Rightarrow> IpcFiles \<Rightarrow> IpcFiles \<times> int list" where
  "ipcCloseBoth env hRow hTab F =
     (let (F1, cl1) = rowlockIpcClose env hRow F; (F2, cl2) = rowlockIpcClose env hTab F1 in (F2, cl1 @ cl2))"

text \<open>Opening a mutex that a mapped file holds, unless it is initialized.\<close>

definition ipcMutex :: "IpcEnv \<Rightarrow> string \<Rightarrow> MUTEX_HANDLE \<Rightarrow> rc \<times> MUTEX_HANDLE" where
  "ipcMutex env mtxName pMutex =
     (if \<not> init pMutex then rowlockOsMutexOpen (mutexOk env mtxName) True True pMutex else (SQLITE_OK, pMutex))"

definition nElemRowOf :: "u64 \<Rightarrow> u64" where
  "nElemRowOf nByteRow = sub64 nByteRow sizeof_RowMetaData div sizeof_RowElement"

definition nElemTableOf :: "u64 \<Rightarrow> u64" where
  "nElemTableOf nByteTable = sub64 nByteTable sizeof_TableMetaData div (sizeof_TableElement + sizeof_CachedRowid)"

definition nAllocRowOf :: "u64 \<Rightarrow> u64" where
  "nAllocRowOf nByteRow = wrap64 (sizeof_RowMetaData + sizeof_RowElement * nElemRowOf nByteRow)"

definition nAllocTableOf :: "u64 \<Rightarrow> u64" where
  "nAllocTableOf nByteTable =
     wrap64 (sizeof_TableMetaData + (sizeof_TableElement + sizeof_CachedRowid) * nElemTableOf nByteTable)"

definition sqlite3rowlockIpcInit ::
  "IpcEnv \<Rightarrow> IpcFiles \<Rightarrow> u64 \<Rightarrow> u64 \<Rightarrow> u64 \<Rightarrow> string \<Rightarrow> rc \<times> IpcHandle option \<times> IpcFiles \<times> int list" where
  "sqlite3rowlockIpcInit env F nByteRow nByteTable owner name =
     (let nAllocRow = nAllocRowOf nByteRow; nAllocTable = nAllocTableOf nByteTable in
      case rowlockIpcMapName env rowClassMapName MAX_PATH_LEN name of
        Inl rc \<Rightarrow> (rc, None, F, [])
      | Inr mapNameRow \<Rightarrow>
      (case rowlockIpcMapName env tableClassMapName MAX_PATH_LEN name of
        Inl rc \<Rightarrow> (rc, None, F, [])
      | Inr mapNameTable \<Rightarrow>
      (case rowlockStrCat MAX_PATH_LEN name ''-rowlock-mutex'' of
        None \<Rightarrow> (SQLITE_ERROR, None, F, [])
      | Some mtxNameRow \<Rightarrow>
      (case rowlockStrCat MAX_PATH_LEN name ''-tablelock-mutex'' of
        None \<Rightarrow> (SQLITE_ERROR, None, F, [])
      | Some mtxNameTable \<Rightarrow>
          (let (rcR, hR, mR, clR) = rowlockIpcCreate env rowClass nAllocRow mapNameRow (rowFile F mapNameRow);
               F1 = F\<lparr>rowFile := (rowFile F)(mapNameRow := mR)\<rparr> in
           if rcR \<noteq> SQLITE_OK then (rcR, None, F1, clR)
           else
             let (rcT, hT, mT, clT) = rowlockIpcCreate env tableClass nAllocTable mapNameTable (tableFile F1 mapNameTable);
                 F2 = F1\<lparr>tableFile := (tableFile F1)(mapNameTable := mT)\<rparr>;
                 hRow = (case hR of None \<Rightarrow> zeroMmap | Some h \<Rightarrow> h);
                 hTab = (case hT of None \<Rightarrow> zeroMmap | Some h \<Rightarrow> h);
                 failed = ipcCloseBoth env hRow hTab
             in if rcT \<noteq> SQLITE_OK then (rcT, None, fst (failed F2), clT @ snd (failed F2))
             else
               let (rc1, rm) = ipcMutex env mtxNameRow (rowMutex F2 mapNameRow);
                   F3 = F2\<lparr>rowMutex := (rowMutex F2)(mapNameRow := rm)\<rparr>
               in if rc1 \<noteq> SQLITE_OK then (rc1, None, fst (failed F3), snd (failed F3))
               else
                 let (rc2, tm) = ipcMutex env mtxNameTable (tableMutex F3 mapNameTable);
                     F4 = F3\<lparr>tableMutex := (tableMutex F3)(mapNameTable := tm)\<rparr>
                 in if rc2 \<noteq> SQLITE_OK then (rc2, None, fst (failed F4), snd (failed F4))
                 else (SQLITE_OK,
                   Some \<lparr>hRecordLock = hRow, hTableLock = hTab, pRecordLock = mapNameRow, pTableLock = mapNameTable, ownerI = owner\<rparr>,
                   F4, []))))))"

section \<open>Operations on a handle\<close>

definition ipcUnlockRecordProc :: "IpcFiles \<Rightarrow> IpcHandle \<Rightarrow> PID \<Rightarrow> IpcFiles option" where
  "ipcUnlockRecordProc F h pid =
     map_option (\<lambda>m. F\<lparr>rowFile := (rowFile F)(pRecordLock h := m)\<rparr>)
       (sqlite3rowlockIpcUnlockRecordProcCore (rowFile F (pRecordLock h)) pid (ownerI h))"

definition ipcUnlockTablesProc :: "IpcFiles \<Rightarrow> IpcHandle \<Rightarrow> PID \<Rightarrow> PID \<Rightarrow> nat \<Rightarrow> IpcFiles option" where
  "ipcUnlockTablesProc F h self pid mode =
     map_option (\<lambda>m. F\<lparr>tableFile := (tableFile F)(pTableLock h := m)\<rparr>)
       (sqlite3rowlockIpcUnlockTablesProcCore (tableFile F (pTableLock h)) self pid (ownerI h) mode)"

text \<open>Closing clears the handle.\<close>

definition sqlite3rowlockIpcFinish :: "IpcEnv \<Rightarrow> IpcFiles \<Rightarrow> IpcHandle option \<Rightarrow> (IpcFiles \<times> int list) option" where
  "sqlite3rowlockIpcFinish env F pHandle =
     (case pHandle of
        None \<Rightarrow> Some (F, [])
      | Some h \<Rightarrow>
          Option.bind (ipcUnlockRecordProc F h (selfPid env)) (\<lambda>F1.
          Option.bind (ipcUnlockTablesProc F1 h (selfPid env) (selfPid env) MODE_UNLOCK_TRANS) (\<lambda>F2.
            Some (ipcCloseBoth env (hRecordLock h) (hTableLock h) F2))))"

text \<open>
  The variants of the release functions without a handle: open with no owner, release,
  close. \<open>cfg\<close> is the pair of configured sizes.
\<close>

definition withHandle ::
  "IpcEnv \<Rightarrow> u64 \<times> u64 \<Rightarrow> IpcFiles \<Rightarrow> string \<Rightarrow> (IpcFiles \<Rightarrow> IpcHandle \<Rightarrow> IpcFiles option) \<Rightarrow> IpcFiles option" where
  "withHandle env cfg F name body =
     (let (rc, h, F1, cl) = sqlite3rowlockIpcInit env F (fst cfg) (snd cfg) 0 name in
      case h of
        None \<Rightarrow> Some F1
      | Some hn \<Rightarrow>
          Option.bind (body F1 hn) (\<lambda>F2. map_option fst (sqlite3rowlockIpcFinish env F2 (Some hn))))"

definition sqlite3rowlockIpcUnlockRecordProc ::
  "IpcEnv \<Rightarrow> u64 \<times> u64 \<Rightarrow> IpcFiles \<Rightarrow> IpcHandle option \<Rightarrow> string \<Rightarrow> IpcFiles option" where
  "sqlite3rowlockIpcUnlockRecordProc env cfg F pHandle name =
     (case pHandle of
        Some h \<Rightarrow> ipcUnlockRecordProc F h (selfPid env)
      | None \<Rightarrow> withHandle env cfg F name (\<lambda>F h. ipcUnlockRecordProc F h (selfPid env)))"

definition sqlite3rowlockIpcUnlockRecordAll ::
  "IpcEnv \<Rightarrow> u64 \<times> u64 \<Rightarrow> IpcFiles \<Rightarrow> string \<Rightarrow> IpcFiles option" where
  "sqlite3rowlockIpcUnlockRecordAll env cfg F name =
     withHandle env cfg F name (\<lambda>F h. ipcUnlockRecordProc F h 0)"

definition sqlite3rowlockIpcUnlockTablesProc ::
  "IpcEnv \<Rightarrow> u64 \<times> u64 \<Rightarrow> IpcFiles \<Rightarrow> IpcHandle option \<Rightarrow> string \<Rightarrow> IpcFiles option" where
  "sqlite3rowlockIpcUnlockTablesProc env cfg F pHandle name =
     (case pHandle of
        Some h \<Rightarrow> ipcUnlockTablesProc F h (selfPid env) (selfPid env) MODE_UNLOCK_TRANS
      | None \<Rightarrow> withHandle env cfg F name (\<lambda>F h. ipcUnlockTablesProc F h (selfPid env) (selfPid env) MODE_UNLOCK_TRANS))"

definition sqlite3rowlockIpcUnlockTablesStmtProc ::
  "IpcEnv \<Rightarrow> u64 \<times> u64 \<Rightarrow> IpcFiles \<Rightarrow> IpcHandle option \<Rightarrow> string \<Rightarrow> IpcFiles option" where
  "sqlite3rowlockIpcUnlockTablesStmtProc env cfg F pHandle name =
     (case pHandle of
        Some h \<Rightarrow> ipcUnlockTablesProc F h (selfPid env) (selfPid env) MODE_UNLOCK_STMT
      | None \<Rightarrow> withHandle env cfg F name (\<lambda>F h. ipcUnlockTablesProc F h (selfPid env) (selfPid env) MODE_UNLOCK_STMT))"

definition sqlite3rowlockIpcUnlockTablesAll ::
  "IpcEnv \<Rightarrow> u64 \<times> u64 \<Rightarrow> IpcFiles \<Rightarrow> string \<Rightarrow> IpcFiles option" where
  "sqlite3rowlockIpcUnlockTablesAll env cfg F name =
     withHandle env cfg F name (\<lambda>F h. ipcUnlockTablesProc F h (selfPid env) 0 MODE_UNLOCK_TRANS)"

definition ipcCachedRowidReset ::
  "IpcEnv \<Rightarrow> u64 \<times> u64 \<Rightarrow> IpcFiles \<Rightarrow> IpcHandle option \<Rightarrow> string \<Rightarrow> IpcFiles option" where
  "ipcCachedRowidReset env cfg F pHandle name =
     (let body = (\<lambda>F h. map_option (\<lambda>m. F\<lparr>tableFile := (tableFile F)(pTableLock h := m)\<rparr>)
                    (sqlite3rowlockIpcCachedRowidReset (tableFile F (pTableLock h))))
      in case pHandle of Some h \<Rightarrow> body F h | None \<Rightarrow> withHandle env cfg F name body)"

text \<open>The cleanup at exit and on signals, over the databases of the process.\<close>

fun rowlockIpcCleanup :: "IpcEnv \<Rightarrow> u64 \<times> u64 \<Rightarrow> string list \<Rightarrow> IpcFiles \<Rightarrow> IpcFiles option" where
  "rowlockIpcCleanup env cfg [] F = Some F"
| "rowlockIpcCleanup env cfg (dbFullPath # dbs) F =
     Option.bind (sqlite3rowlockIpcUnlockRecordProc env cfg F None dbFullPath) (\<lambda>F1.
     Option.bind (sqlite3rowlockIpcUnlockTablesProc env cfg F1 None dbFullPath) (\<lambda>F2.
     Option.bind (ipcCachedRowidReset env cfg F2 None dbFullPath) (\<lambda>F3.
       rowlockIpcCleanup env cfg dbs F3)))"

section \<open>Lemmas\<close>

lemma div_bounds: "0 < d \<Longrightarrow> d * (x div d) \<le> x \<and> x < d * (x div d) + d" for x d :: nat
  using mod_less_divisor [of d x] mult_div_mod_eq [of d x] by linarith

lemma nAllocRow_exact:
  assumes "104 \<le> n" "n < 2 ^ 63"
  shows "nAllocRowOf n \<le> n" "n < nAllocRowOf n + 40" "104 \<le> nAllocRowOf n" "nAllocRowOf n < 2 ^ 63"
    "nElementR (rowClassInitArea m (nAllocRowOf n)) = nElemRowOf n"
proof -
  let ?q = "(n - 64) div 40"
  have e: "nElemRowOf n = ?q"
    using assms by (simp add: nElemRowOf_def sizeof_RowMetaData_def sizeof_RowElement_def sub64_id)
  have q: "40 * ?q \<le> n - 64" "n - 64 < 40 * ?q + 40" "1 \<le> ?q"
    using div_bounds [of 40 "n - 64"] assms(1) by (simp_all add: Suc_le_eq div_greater_zero_iff)
  have "64 + 40 * ?q < 2 ^ 64" using q(1) assms by simp
  then have a: "nAllocRowOf n = 64 + 40 * ?q"
    by (simp add: nAllocRowOf_def e sizeof_RowMetaData_def sizeof_RowElement_def)
  show "nAllocRowOf n \<le> n" "n < nAllocRowOf n + 40" "104 \<le> nAllocRowOf n" "nAllocRowOf n < 2 ^ 63"
    unfolding a using q assms by linarith+
  show "nElementR (rowClassInitArea m (nAllocRowOf n)) = nElemRowOf n"
    using q(1) assms by (simp add: rowClassInitArea_def Let_def a e sizeof_RowMetaData_def sizeof_RowElement_def sub64_id)
qed

lemma nAllocTable_exact:
  assumes "120 \<le> n" "n < 2 ^ 63"
  shows "nAllocTableOf n \<le> n" "n < nAllocTableOf n + 48" "120 \<le> nAllocTableOf n" "nAllocTableOf n < 2 ^ 63"
    "nElementT (tableClassInitArea m (nAllocTableOf n)) = nElemTableOf n"
proof -
  let ?q = "(n - 72) div 48"
  have e: "nElemTableOf n = ?q"
    using assms by (simp add: nElemTableOf_def sizeof_TableMetaData_def sizeof_TableElement_def sizeof_CachedRowid_def sub64_id)
  have q: "48 * ?q \<le> n - 72" "n - 72 < 48 * ?q + 48" "1 \<le> ?q"
    using div_bounds [of 48 "n - 72"] assms(1) by (simp_all add: Suc_le_eq div_greater_zero_iff)
  have "72 + 48 * ?q < 2 ^ 64" using q(1) assms by simp
  then have a: "nAllocTableOf n = 72 + 48 * ?q"
    by (simp add: nAllocTableOf_def e sizeof_TableMetaData_def sizeof_TableElement_def sizeof_CachedRowid_def)
  show "nAllocTableOf n \<le> n" "n < nAllocTableOf n + 48" and b: "120 \<le> nAllocTableOf n" "nAllocTableOf n < 2 ^ 63"
    unfolding a using q assms by linarith+
  show "nElementT (tableClassInitArea m (nAllocTableOf n)) = nElemTableOf n"
    using table_init(3) [OF b, of m] by (simp add: a e)
qed

lemma create_cases:
  assumes "rowlockIpcCreate env C sz n m = (rc, h, m', cl)"
  shows "rc = SQLITE_OK \<longleftrightarrow> h \<noteq> None" "rc = SQLITE_OK \<Longrightarrow> cl = []"
    "m' = (if rc = SQLITE_OK \<and> \<not> xIsInitialized C m then xInitArea C m sz else m)"
proof -
  obtain rc0 h0 cl0 where o: "rowlockOsMmapOpen (mmapCalls env n) sz n = (rc0, h0, cl0)" using prod_cases3 by blast
  have g: "rc \<noteq> SQLITE_OK" if "getFileSize c = Inl rc" for c rc
    using that by (auto simp: getFileSize_def split: if_splits option.splits)
  have r: "rc0 = SQLITE_OK \<longleftrightarrow> h0 \<noteq> None" "rc0 = SQLITE_OK \<longrightarrow> cl0 = []"
    using o g by (auto simp: rowlockOsMmapOpen_def Let_def split: if_splits sum.splits)
  have c: "(rc, h, m', cl) = (if rc0 \<noteq> SQLITE_OK then (rc0, h0, m, cl0)
      else (SQLITE_OK, h0, if \<not> xIsInitialized C m then xInitArea C m sz else m, cl0))"
    using assms o by (simp add: rowlockIpcCreate_def)
  show "rc = SQLITE_OK \<longleftrightarrow> h \<noteq> None" "rc = SQLITE_OK \<Longrightarrow> cl = []"
    "m' = (if rc = SQLITE_OK \<and> \<not> xIsInitialized C m then xInitArea C m sz else m)"
    using c r by (auto split: if_splits)
qed

lemma init_success:
  assumes run: "sqlite3rowlockIpcInit env F nByteRow nByteTable owner name = (SQLITE_OK, h, F', cl)"
    and path: "\<forall>r. fullPathname env name = Inl r \<longrightarrow> r \<noteq> SQLITE_OK"
  obtains hn where "h = Some hn" "cl = []" "ownerI hn = owner"
    "rowFile F' = (rowFile F)(pRecordLock hn := let m = rowFile F (pRecordLock hn) in
       if rowClassIsInitialized m then m else rowClassInitArea m (nAllocRowOf nByteRow))"
    "tableFile F' = (tableFile F)(pTableLock hn := let m = tableFile F (pTableLock hn) in
       if tableClassIsInitialized m then m else tableClassInitArea m (nAllocTableOf nByteTable))"
    "init (rowMutex F' (pRecordLock hn))" "init (tableMutex F' (pTableLock hn))"
proof -
  have mn: "rowlockIpcMapName env f n name \<noteq> Inl SQLITE_OK" for f n
    using path by (auto simp: rowlockIpcMapName_def split: sum.splits option.splits)
  obtain nr where nr: "rowlockIpcMapName env rowClassMapName MAX_PATH_LEN name = Inr nr"
    using run mn [of rowClassMapName MAX_PATH_LEN] by (auto simp: sqlite3rowlockIpcInit_def Let_def split: sum.splits)
  obtain nt where nt: "rowlockIpcMapName env tableClassMapName MAX_PATH_LEN name = Inr nt"
    using run nr mn [of tableClassMapName MAX_PATH_LEN] by (auto simp: sqlite3rowlockIpcInit_def Let_def split: sum.splits)
  obtain xr xt where x: "rowlockStrCat MAX_PATH_LEN name ''-rowlock-mutex'' = Some xr" "rowlockStrCat MAX_PATH_LEN name ''-tablelock-mutex'' = Some xt"
    using run nr nt by (auto simp: sqlite3rowlockIpcInit_def Let_def split: option.splits)
  obtain rcR hR mR clR where R: "rowlockIpcCreate env rowClass (nAllocRowOf nByteRow) nr (rowFile F nr) = (rcR, hR, mR, clR)" using prod_cases4 by blast
  obtain rcT hT mT clT where T: "rowlockIpcCreate env tableClass (nAllocTableOf nByteTable) nt (tableFile F nt) = (rcT, hT, mT, clT)" using prod_cases4 by blast
  obtain rc1 rm where M1: "ipcMutex env xr (rowMutex F nr) = (rc1, rm)" by fastforce
  obtain rc2 tm where M2: "ipcMutex env xt (tableMutex F nt) = (rc2, tm)" by fastforce
  note d = run [unfolded sqlite3rowlockIpcInit_def Let_def nr nt x sum.case option.case R prod.case]
  have ok: "rcR = SQLITE_OK" "rcT = SQLITE_OK" "rc1 = SQLITE_OK" "rc2 = SQLITE_OK"
    using d T M1 M2 by (auto split: if_splits)
  note dd = d [simplified ok, simplified]
  obtain h1 h2 where hh: "hR = Some h1" "hT = Some h2" using create_cases(1) [OF R] create_cases(1) [OF T] ok by blast
  let ?hn = "\<lparr>hRecordLock = h1, hTableLock = h2, pRecordLock = nr, pTableLock = nt, ownerI = owner\<rparr>"
  have F': "h = Some ?hn" "cl = []" "rowFile F' = (rowFile F)(nr := mR)" "tableFile F' = (tableFile F)(nt := mT)"
    "rowMutex F' nr = rm" "tableMutex F' nt = tm"
    using d T M1 M2 ok hh by auto
  have i: "init rm" "init tm" using M1 M2 ok by (auto simp: ipcMutex_def rowlockOsMutexOpen_def split: if_splits)
  show thesis
    by (rule that [of ?hn])
      (use F' i create_cases(3) [OF R] create_cases(3) [OF T] ok in \<open>simp_all add: rowClass_def tableClass_def Let_def\<close>)
qed

text \<open>A successful opening.\<close>

lemma ipc_init_ok:
  assumes run: "sqlite3rowlockIpcInit env F nByteRow nByteTable owner name = (SQLITE_OK, h, F', cl)"
    and path: "\<forall>r. fullPathname env name = Inl r \<longrightarrow> r \<noteq> SQLITE_OK"
    and sz: "104 \<le> nByteRow" "nByteRow < 2 ^ 63" "120 \<le> nByteTable" "nByteTable < 2 ^ 63"
    and areas: "\<forall>n. rowFile F n = freshRowArea \<or> row_inv (rowFile F n)" "\<forall>n. tableFile F n = freshTableArea \<or> table_inv (tableFile F n)"
  shows "\<exists>hn. h = Some hn \<and> cl = [] \<and> ownerI hn = owner \<and>
    row_inv (rowFile F' (pRecordLock hn)) \<and> table_inv (tableFile F' (pTableLock hn)) \<and>
    (\<forall>n. row_abs (rowFile F' n) = row_abs (rowFile F n) \<and> table_abs (tableFile F' n) = table_abs (tableFile F n)) \<and>
    (\<forall>n. n \<noteq> pRecordLock hn \<longrightarrow> rowFile F' n = rowFile F n) \<and> (\<forall>n. n \<noteq> pTableLock hn \<longrightarrow> tableFile F' n = tableFile F n) \<and>
    init (rowMutex F' (pRecordLock hn)) \<and> init (tableMutex F' (pTableLock hn))"
proof -
  obtain hn where h: "h = Some hn" "cl = []" "ownerI hn = owner"
    "rowFile F' = (rowFile F)(pRecordLock hn := let m = rowFile F (pRecordLock hn) in
       if rowClassIsInitialized m then m else rowClassInitArea m (nAllocRowOf nByteRow))"
    "tableFile F' = (tableFile F)(pTableLock hn := let m = tableFile F (pTableLock hn) in
       if tableClassIsInitialized m then m else tableClassInitArea m (nAllocTableOf nByteTable))"
    "init (rowMutex F' (pRecordLock hn))" "init (tableMutex F' (pTableLock hn))"
    by (rule init_success [OF run path])
  note aR = nAllocRow_exact(3,4) [OF sz(1,2)] and aT = nAllocTable_exact(3,4) [OF sz(3,4)]
  have R: "row_inv (if rowClassIsInitialized m then m else rowClassInitArea m (nAllocRowOf nByteRow)) \<and>
      row_abs (if rowClassIsInitialized m then m else rowClassInitArea m (nAllocRowOf nByteRow)) = row_abs m"
    if "m = freshRowArea \<or> row_inv m" for m
    using that row_init [OF aR, of m]
    by (auto simp: rowClassIsInitialized_def freshRowArea_def row_abs_def row_locks_def row_inv_def row_wf_def)
  have T: "table_inv (if tableClassIsInitialized m then m else tableClassInitArea m (nAllocTableOf nByteTable)) \<and>
      table_abs (if tableClassIsInitialized m then m else tableClassInitArea m (nAllocTableOf nByteTable)) = table_abs m"
    if "m = freshTableArea \<or> table_inv m" for m
    using that table_init [OF aT, of m]
    by (auto simp: tableClassIsInitialized_def freshTableArea_def table_abs_def table_locks_def table_inv_def table_wf_def)
  define mR where "mR = (let m = rowFile F (pRecordLock hn) in if rowClassIsInitialized m then m else rowClassInitArea m (nAllocRowOf nByteRow))"
  define mT where "mT = (let m = tableFile F (pTableLock hn) in if tableClassIsInitialized m then m else tableClassInitArea m (nAllocTableOf nByteTable))"
  have "row_inv mR \<and> row_abs mR = row_abs (rowFile F (pRecordLock hn))"
    using R [OF areas(1) [rule_format, of "pRecordLock hn"]] unfolding mR_def Let_def .
  moreover have "table_inv mT \<and> table_abs mT = table_abs (tableFile F (pTableLock hn))"
    using T [OF areas(2) [rule_format, of "pTableLock hn"]] unfolding mT_def Let_def .
  ultimately show ?thesis
    using h(1-3,6,7) h(4) [folded mR_def] h(5) [folded mT_def] by (intro exI [of _ hn]) simp
qed

text \<open>Closing files that a process still uses.\<close>

definition stillUsed :: "IpcEnv \<Rightarrow> MMAP_HANDLE \<Rightarrow> bool" where
  "stillUsed env hm \<longleftrightarrow> (\<exists>p ps. fuserOut env (SET_MANAGEMENT_FILE_NAME (mapName hm)) = Some (p # ps) \<and> 0 < p)"

lemma close_used:
  assumes "stillUsed env hm"
  shows "rowlockIpcClose env hm G = (G, [fdMmap hm, fdMng hm])"
proof -
  obtain p ps where used: "fuserOut env (SET_MANAGEMENT_FILE_NAME (mapName hm)) = Some (p # ps)" "0 < p"
    using assms by (auto simp: stillUsed_def)
  obtain user where f: "fileUser (int (selfPid env)) (Some (p # ps)) = (SQLITE_OK, user)" by (simp add: fileUser_def)
  have "fst user \<or> snd user" using f used(2) by (auto simp: fileUser_def fileUserLoop_flags)
  then have "rowlockOsMmapClose (int (selfPid env)) (Some (p # ps)) hm = ([fdMmap hm, fdMng hm], [])"
    using f by (auto simp: rowlockOsMmapClose_def)
  then show ?thesis using used(1) by (simp add: rowlockIpcClose_def unlinkFiles_def)
qed

text \<open>Closing a handle, on areas that are still used: what it keeps of the table locks, and its result.\<close>

definition tableLocksKept :: "PID \<Rightarrow> u64 \<Rightarrow> TableArea \<Rightarrow> TableArea \<Rightarrow> bool" where
  "tableLocksKept pid owner m m' \<longleftrightarrow>
     (\<forall>t p ow l. table_abs m' (t, p, ow) = Some l \<longleftrightarrow> table_abs m (t, p, ow) = Some l \<and> \<not> (p = pid \<and> (owner = 0 \<or> ow = owner)))"

lemma finish_ok:
  assumes inv: "row_inv (rowFile F (pRecordLock h))" "table_inv (tableFile F (pTableLock h))" and self: "selfPid env \<noteq> 0"
    and keep: "stillUsed env (hRecordLock h)" "stillUsed env (hTableLock h)"
  obtains mR mT where "sqlite3rowlockIpcFinish env F (Some h) =
      Some (F\<lparr>rowFile := (rowFile F)(pRecordLock h := mR), tableFile := (tableFile F)(pTableLock h := mT)\<rparr>,
        [fdMmap (hRecordLock h), fdMng (hRecordLock h), fdMmap (hTableLock h), fdMng (hTableLock h)])"
    "row_inv mR" "table_inv mT" "row_abs mR = spec_release (selfPid env) (ownerI h) (row_abs (rowFile F (pRecordLock h)))"
    "tableLocksKept (selfPid env) (ownerI h) (tableFile F (pTableLock h)) mT"
proof -
  obtain mR where R: "sqlite3rowlockIpcUnlockRecordProcCore (rowFile F (pRecordLock h)) (selfPid env) (ownerI h) = Some mR" "row_inv mR"
    "row_abs mR = spec_release (selfPid env) (ownerI h) (row_abs (rowFile F (pRecordLock h)))"
    by (rule row_proc_refines [OF inv(1)])
  obtain mT where T: "sqlite3rowlockIpcUnlockTablesProcCore (tableFile F (pTableLock h)) (selfPid env) (selfPid env) (ownerI h) MODE_UNLOCK_TRANS = Some mT"
    "table_inv mT" and ms: "mset (map flagless (table_locks mT)) =
       filter_mset (\<lambda>e. \<not> tableReleased (selfPid env) (ownerI h) MODE_UNLOCK_TRANS e) (mset (map flagless (table_locks (tableFile F (pTableLock h)))))"
    by (rule table_proc_core [OF inv(2) self, of MODE_UNLOCK_TRANS "ownerI h"]) simp_all
  have Ta: "tableLocksKept (selfPid env) (ownerI h) (tableFile F (pTableLock h)) mT"
    using table_proc_abs [OF inv(2) T(2) ms] self by (simp add: tableLocksKept_def)
  show thesis
    by (rule that [where mR = mR and mT = mT])
      (use R T Ta in \<open>simp_all add: sqlite3rowlockIpcFinish_def ipcUnlockRecordProc_def ipcUnlockTablesProc_def
        ipcCloseBoth_def close_used [OF keep(1)] close_used [OF keep(2)]\<close>)
qed

section \<open>Properties\<close>

text \<open>
  The sizes of \<open>sqlite3rowlockIpcInit\<close>: for configured sizes that hold the header and one
  element, the areas fill the configured bytes up to less than one element and never exceed them,
  and an initialized area has exactly the elements the size was computed for.
\<close>

theorem IpcInit_sizes:
  assumes "104 \<le> nByteRow" and "nByteRow < 2 ^ 63" and "120 \<le> nByteTable" and "nByteTable < 2 ^ 63"
  shows "nAllocRowOf nByteRow \<le> nByteRow \<and> nByteRow < nAllocRowOf nByteRow + sizeof_RowElement \<and>
    nElementR (rowClassInitArea mR (nAllocRowOf nByteRow)) = nElemRowOf nByteRow \<and>
    nAllocTableOf nByteTable \<le> nByteTable \<and> nByteTable < nAllocTableOf nByteTable + sizeof_TableElement + sizeof_CachedRowid \<and>
    nElementT (tableClassInitArea mT (nAllocTableOf nByteTable)) = nElemTableOf nByteTable"
  using nAllocRow_exact [OF assms(1,2)] nAllocTable_exact [OF assms(3,4)]
  by (simp add: sizeof_RowElement_def sizeof_TableElement_def sizeof_CachedRowid_def)

theorem IpcInit_sizes_witness: "nAllocRowOf 1000 \<le> 1000 \<and> nAllocTableOf 1000 \<le> 1000"
  using IpcInit_sizes [of 1000 1000 freshRowArea freshTableArea] by simp

text \<open>
  A successful \<open>sqlite3rowlockIpcInit\<close> returns a handle with the owner, closes no
  descriptor, and leaves both areas well-formed and both mutexes initialized; the locks of
  an area that was already in use are kept, and no other file changes.
\<close>

theorem IpcInit_correct:
  assumes run: "sqlite3rowlockIpcInit env F nByteRow nByteTable owner name = (SQLITE_OK, h, F', cl)"
    and path: "\<forall>r. fullPathname env name = Inl r \<longrightarrow> r \<noteq> SQLITE_OK"
    and sz: "104 \<le> nByteRow" "nByteRow < 2 ^ 63" "120 \<le> nByteTable" "nByteTable < 2 ^ 63"
    and areas: "\<forall>n. rowFile F n = freshRowArea \<or> row_inv (rowFile F n)" "\<forall>n. tableFile F n = freshTableArea \<or> table_inv (tableFile F n)"
  shows "\<exists>hn. h = Some hn \<and> cl = [] \<and> ownerI hn = owner \<and>
    row_inv (rowFile F' (pRecordLock hn)) \<and> table_inv (tableFile F' (pTableLock hn)) \<and>
    (\<forall>n. row_abs (rowFile F' n) = row_abs (rowFile F n) \<and> table_abs (tableFile F' n) = table_abs (tableFile F n)) \<and>
    (\<forall>n. n \<noteq> pRecordLock hn \<longrightarrow> rowFile F' n = rowFile F n) \<and> (\<forall>n. n \<noteq> pTableLock hn \<longrightarrow> tableFile F' n = tableFile F n) \<and>
    init (rowMutex F' (pRecordLock hn)) \<and> init (tableMutex F' (pTableLock hn))"
  by (rule ipc_init_ok [OF run path sz areas])

text \<open>A process that opens the areas of a database on which no file exists yet.\<close>

definition demoCalls :: MmapCalls where
  "demoCalls = \<lparr>openMap = 3, openMng = 4, fdopenOk = True, fstatSize = Some 0, lseekOk = True, writeOk = True,
     rewindOk = True, mmapOk = True\<rparr>"

definition demoEnv :: IpcEnv where
  "demoEnv = \<lparr>fullPathname = Inr, mmapCalls = (\<lambda>n. demoCalls), mutexOk = (\<lambda>n. True), fuserOut = (\<lambda>n. Some [7, 8]), selfPid = 7\<rparr>"

definition demoFiles :: IpcFiles where
  "demoFiles = \<lparr>rowFile = (\<lambda>n. freshRowArea), tableFile = (\<lambda>n. freshTableArea),
     rowMutex = (\<lambda>n. \<lparr>held = False, init = False\<rparr>), tableMutex = (\<lambda>n. \<lparr>held = False, init = False\<rparr>)\<rparr>"

lemma demo_open:
  "rowlockOsMmapOpen demoCalls sz n = (SQLITE_OK, Some \<lparr>fdMmap = 3, fdMng = 4, mapName = n, mapSize = sz\<rparr>, [])"
  "rowlockOsMmapOpen (demoCalls\<lparr>openMap := -1\<rparr>) sz n = (SQLITE_CANTOPEN, None, [])"
  by (simp_all add: rowlockOsMmapOpen_def getFileSize_def stretchFileSize_def demoCalls_def Let_def)

lemmas ipcInit_eval = sqlite3rowlockIpcInit_def rowlockIpcMapName_def rowClassMapName_def tableClassMapName_def
  rowlockStrCat_def MAX_PATH_LEN_def rowlockIpcCreate_def demo_open
  ipcMutex_def rowlockOsMutexOpen_def demoEnv_def demoFiles_def Let_def

theorem IpcInit_correct_witness:
  "\<exists>hn F'. sqlite3rowlockIpcInit demoEnv demoFiles 184 168 1 ''a'' = (SQLITE_OK, Some hn, F', []) \<and> row_inv (rowFile F' (pRecordLock hn))"
proof -
  obtain rc h F' cl where r: "sqlite3rowlockIpcInit demoEnv demoFiles 184 168 1 ''a'' = (rc, h, F', cl)" using prod_cases4 by blast
  then have rc: "rc = SQLITE_OK" by (auto simp: ipcInit_eval)
  have "\<exists>hn. h = Some hn \<and> cl = [] \<and> row_inv (rowFile F' (pRecordLock hn))"
    using IpcInit_correct [OF r [unfolded rc]] by (auto simp: demoEnv_def demoFiles_def)
  then show ?thesis using r rc by auto
qed

text \<open>
  C36. \<open>sqlite3rowlockIpcFinish\<close> on areas that another process still uses ends and releases
  exactly the row and table locks of this process and owner (any owner for 0), and
  closes the four descriptors of the handle.
\<close>

theorem IpcFinish_releases:
  assumes inv: "row_inv (rowFile F (pRecordLock h))" "table_inv (tableFile F (pTableLock h))" and self: "selfPid env \<noteq> 0"
    and used: "fuserOut env (SET_MANAGEMENT_FILE_NAME (mapName (hRecordLock h))) = Some (p # ps)" "0 < p"
      "fuserOut env (SET_MANAGEMENT_FILE_NAME (mapName (hTableLock h))) = Some (q # qs)" "0 < q"
  shows "\<exists>F'. sqlite3rowlockIpcFinish env F (Some h) = Some (F',
      [fdMmap (hRecordLock h), fdMng (hRecordLock h), fdMmap (hTableLock h), fdMng (hTableLock h)]) \<and>
    row_inv (rowFile F' (pRecordLock h)) \<and> table_inv (tableFile F' (pTableLock h)) \<and>
    row_abs (rowFile F' (pRecordLock h)) = spec_release (selfPid env) (ownerI h) (row_abs (rowFile F (pRecordLock h))) \<and>
    (\<forall>t p ow l. table_abs (tableFile F' (pTableLock h)) (t, p, ow) = Some l \<longleftrightarrow>
       table_abs (tableFile F (pTableLock h)) (t, p, ow) = Some l \<and> \<not> (p = selfPid env \<and> (ownerI h = 0 \<or> ow = ownerI h)))"
proof -
  have keep: "stillUsed env (hRecordLock h)" "stillUsed env (hTableLock h)" using used by (auto simp: stillUsed_def)
  show ?thesis by (rule finish_ok [OF inv self keep]) (auto simp: tableLocksKept_def)
qed

theorem IpcFinish_releases_witness:
  "\<exists>F h F' cl. sqlite3rowlockIpcFinish demoEnv F (Some h) = Some (F', cl) \<and> cl = [3, 4, 3, 4] \<and>
     row_abs (rowFile F' (pRecordLock h)) = Map.empty"
proof -
  let ?m = "\<lparr>fdMmap = 3, fdMng = 4, mapName = ''a'', mapSize = 184\<rparr>"
  let ?h = "\<lparr>hRecordLock = ?m, hTableLock = ?m, pRecordLock = ''a'', pTableLock = ''a'', ownerI = 1\<rparr>"
  let ?F = "demoFiles\<lparr>rowFile := (\<lambda>n. rowClassInitArea freshRowArea 184), tableFile := (\<lambda>n. tableClassInitArea freshTableArea 168)\<rparr>"
  have "row_inv (rowClassInitArea freshRowArea 184)" "table_inv (tableClassInitArea freshTableArea 168)"
    "row_abs (rowClassInitArea freshRowArea 184) = Map.empty"
    by (simp_all add: row_init table_init)
  moreover have "fuserOut demoEnv n = Some [7, 8]" "selfPid demoEnv = 7" for n by (simp_all add: demoEnv_def)
  ultimately have "\<exists>F'. sqlite3rowlockIpcFinish demoEnv ?F (Some ?h) = Some (F', [3, 4, 3, 4]) \<and>
      row_abs (rowFile F' (pRecordLock ?h)) = Map.empty"
    using IpcFinish_releases [of ?F ?h demoEnv 7 "[8]" 7 "[8]"] by (auto simp: spec_release_def)
  then show ?thesis by blast
qed

text \<open>
  A flaw of the error path of \<open>sqlite3rowlockIpcInit\<close>: when the table lock file cannot be
  opened, the handle that was never opened is closed too, which closes descriptor 0 of the
  process.
\<close>

theorem IpcInit_closes_descriptor_0:
  "\<exists>F'. sqlite3rowlockIpcInit (demoEnv\<lparr>mmapCalls := (\<lambda>n. if n = ''a-tablelock'' then demoCalls\<lparr>openMap := -1\<rparr> else demoCalls)\<rparr>)
     demoFiles 184 168 1 ''a'' = (SQLITE_CANTOPEN, None, F', [3, 4, 0, 0])"
  by (simp add: ipcInit_eval ipcCloseBoth_def rowlockIpcClose_def rowlockOsMmapClose_def fileUser_def zeroMmap_def)

text \<open>The name of the management file may exceed the buffer that it is written to.\<close>

lemma management_name_overflow:
  assumes "fullPathname env name = Inr p" "500 \<le> length p" "length p \<le> 503"
  shows "\<exists>buf. rowlockIpcMapName env rowClassMapName MAX_PATH_LEN name = Inr buf \<and>
    MAX_PATH_LEN < length (SET_MANAGEMENT_FILE_NAME buf) + 1"
  using assms
  by (simp add: rowlockIpcMapName_def rowClassMapName_def rowlockStrCat_def MAX_PATH_LEN_def SET_MANAGEMENT_FILE_NAME_def)

end
