(* ===== verification/Psm_Init.thy ===== *)
theory Psm_Init
  imports Psm_Lock Os_Linux
begin

text \<open>
  Opening and inheriting the shared memory of the index key locks
  (\<open>rowlock_psm_lock.c\<close>, the build for Linux). The PSM library, the file system and the
  full path function of the VFS are not part of the model: their results are arguments.
\<close>

section \<open>Names and the initialization lock\<close>

definition rowlockPsmLockName :: "(string \<Rightarrow> rc + string) \<Rightarrow> nat \<Rightarrow> string \<Rightarrow> rc + string" where
  "rowlockPsmLockName fullPathname bufSize name =
     (case fullPathname name of
        Inl rc \<Rightarrow> Inl rc
      | Inr fullPath \<Rightarrow>
          (case rowlockStrCat bufSize fullPath ''-psmlock'' of None \<Rightarrow> Inl SQLITE_CANTOPEN | Some buf \<Rightarrow> Inr buf))"

text \<open>
  The results of the successive calls of \<open>open\<close> with \<open>O_CREAT | O_EXCL\<close>. The loop is left by a
  success or by an error other than \<open>EEXIST\<close>; \<open>None\<close> is a loop that is still retrying after
  these calls.
\<close>

datatype open_result = OPEN_FD | OPEN_EEXIST | OPEN_ERRNO

fun rowlockPsmInitLock :: "open_result list \<Rightarrow> rc option" where
  "rowlockPsmInitLock [] = None"
| "rowlockPsmInitLock (r # rs) =
     (case r of
        OPEN_FD \<Rightarrow> Some SQLITE_OK
      | OPEN_ERRNO \<Rightarrow> Some SQLITE_CANTOPEN
      | OPEN_EEXIST \<Rightarrow> rowlockPsmInitLock rs)"

section \<open>Initialization\<close>

text \<open>
  The address of the meta data that the first opener publishes in the shared memory
  (\<open>PSMgetUser\<close>), whether the handle was set, and whether the caller's lock file exists.
  \<open>psmOpen\<close> is the number of calls of \<open>PSMinit\<close> without their call of \<open>PSMdeinit\<close>.
\<close>

record PsmInitState =
  published :: "PsmMem option"
  handleSet :: bool
  initLock :: bool
  psmOpen :: int

definition sqlite3rowlockPsmInit ::
  "(string \<Rightarrow> rc + string) \<Rightarrow> open_result list \<Rightarrow> bool \<Rightarrow> bool \<Rightarrow> rc \<Rightarrow> PsmInitState \<Rightarrow> string \<Rightarrow>
   (rc \<times> PsmInitState) option" where
  "sqlite3rowlockPsmInit fullPathname opens psmOk metaOk mutexRc S name =
     (case rowlockPsmLockName fullPathname MAX_PATH_LEN name of
        Inl rc \<Rightarrow> Some (rc, S)
      | Inr psmName \<Rightarrow>
     (case rowlockStrCat MAX_PATH_LEN name ''-psmlock-mutex'' of
        None \<Rightarrow> Some (SQLITE_ERROR, S)
      | Some mtxName \<Rightarrow>
     (case rowlockStrCat MAX_PATH_LEN name ''-initlock'' of
        None \<Rightarrow> Some (SQLITE_ERROR, S)
      | Some lockName \<Rightarrow>
          Option.bind (rowlockPsmInitLock opens) (\<lambda>rc.
            if rc \<noteq> SQLITE_OK then Some (rc, S)
            else let S1 = S\<lparr>initLock := True\<rparr> in
              if \<not> psmOk then Some (SQLITE_CANTOPEN, S1\<lparr>initLock := False\<rparr>)
              else let S2 = S1\<lparr>psmOpen := psmOpen S1 + 1\<rparr>; psm_init_error = S2\<lparr>psmOpen := psmOpen S2 - 1, initLock := False\<rparr> in
                case published S2 of
                  Some m \<Rightarrow> Some (SQLITE_OK, S2\<lparr>handleSet := True, initLock := False\<rparr>)
                | None \<Rightarrow>
                    if \<not> metaOk then Some (SQLITE_NOMEM, psm_init_error)
                    else if mutexRc \<noteq> SQLITE_OK then Some (mutexRc, psm_init_error)
                    else Some (SQLITE_OK, S2\<lparr>published := Some psmEmpty, handleSet := True, initLock := False\<rparr>)))))"

text \<open>The handle keeps its value.\<close>

definition sqlite3rowlockPsmFinish :: "PsmInitState \<Rightarrow> PsmInitState" where
  "sqlite3rowlockPsmFinish S = (if \<not> handleSet S then S else S\<lparr>psmOpen := psmOpen S - 1\<rparr>)"

section \<open>Inheritance over \<open>fork\<close>\<close>

text \<open>
  The databases of a connection: \<open>None\<close> where \<open>pBt\<close> is null, otherwise the PSM handle of
  its transaction btree. The address of the handle member is never null.
\<close>

type_synonym aDb = "addr option list"

definition getPsmHandle :: "aDb \<Rightarrow> nat \<Rightarrow> rc + addr" where
  "getPsmHandle db index = (case db ! index of None \<Rightarrow> Inl SQLITE_CANTOPEN | Some h \<Rightarrow> Inr h)"

definition setPsmHandle :: "aDb \<Rightarrow> addr \<Rightarrow> nat \<Rightarrow> rc \<times> aDb" where
  "setPsmHandle db psmHandle index =
     (case db ! index of None \<Rightarrow> (SQLITE_CANTOPEN, db) | Some h \<Rightarrow> (SQLITE_OK, db[index := Some psmHandle]))"

text \<open>The loop shared by the first two functions, with the function of the PSM library as argument.\<close>

function inheritLoop :: "(addr \<Rightarrow> addr) \<Rightarrow> aDb \<Rightarrow> nat \<Rightarrow> rc \<times> aDb" where
  "inheritLoop f db i =
     (if i < length db then
        (case getPsmHandle db i of
           Inl rc \<Rightarrow> inheritLoop f db (i + 1)
         | Inr h \<Rightarrow>
             if f h \<noteq> 0 then inheritLoop f (snd (setPsmHandle db (f h) i)) (i + 1)
             else (SQLITE_ERROR, db))
      else (SQLITE_OK, db))"
  by pat_completeness auto
termination
  by (relation "measure (\<lambda>(f, db, i). length db - i)") (auto simp: setPsmHandle_def split: option.splits)

declare inheritLoop.simps [simp del]

definition sqlite3_prepare_inherit :: "(addr \<Rightarrow> addr) \<Rightarrow> aDb \<Rightarrow> rc \<times> aDb" where
  "sqlite3_prepare_inherit PSMprepareInherit db = inheritLoop PSMprepareInherit db 0"

definition sqlite3_execute_inherit :: "(addr \<Rightarrow> addr) \<Rightarrow> aDb \<Rightarrow> rc \<times> aDb" where
  "sqlite3_execute_inherit PSMexecuteInherit db = inheritLoop PSMexecuteInherit db 0"

text \<open>The handles on which \<open>PSMcancelInherit\<close> is called, in order.\<close>

definition sqlite3_cancel_inherit :: "aDb \<Rightarrow> rc \<times> addr list" where
  "sqlite3_cancel_inherit db =
     (SQLITE_OK, List.concat (map (\<lambda>i. case getPsmHandle db i of Inl rc \<Rightarrow> [] | Inr h \<Rightarrow> [h]) [0..<length db]))"

section \<open>Lemmas\<close>

lemma rowlockPsmInitLock_result: "rowlockPsmInitLock rs \<in> {None, Some SQLITE_OK, Some SQLITE_CANTOPEN}"
  by (induction rs) (auto split: open_result.splits)

text \<open>What the loop leaves: the handles before the first failure are replaced.\<close>

definition inheritResult :: "(addr \<Rightarrow> addr) \<Rightarrow> aDb \<Rightarrow> aDb" where
  "inheritResult f db =
     map (map_option f) (takeWhile (\<lambda>d. \<forall>h. d = Some h \<longrightarrow> f h \<noteq> 0) db) @
     dropWhile (\<lambda>d. \<forall>h. d = Some h \<longrightarrow> f h \<noteq> 0) db"

lemma inheritLoop_ok:
  "inheritLoop f (pre @ db) (length pre) =
     (if \<forall>h. Some h \<in> set db \<longrightarrow> f h \<noteq> 0 then SQLITE_OK else SQLITE_ERROR, pre @ inheritResult f db)"
proof (induction db arbitrary: pre)
  case Nil
  then show ?case by (simp add: inheritLoop.simps inheritResult_def)
next
  case (Cons d db)
  have IH: "inheritLoop f (pre @ d' # db) (Suc (length pre)) =
    (if \<forall>h. Some h \<in> set db \<longrightarrow> f h \<noteq> 0 then SQLITE_OK else SQLITE_ERROR, pre @ d' # inheritResult f db)" for d'
    using Cons [of "pre @ [d']"] by simp
  show ?case
  proof (cases d)
    case None
    then show ?thesis using IH [of d]
      by (subst inheritLoop.simps) (simp add: getPsmHandle_def inheritResult_def)
  next
    case (Some h)
    then show ?thesis using IH [of "Some (f h)"]
      by (subst inheritLoop.simps) (auto simp: getPsmHandle_def setPsmHandle_def inheritResult_def list_update_append)
  qed
qed

section \<open>Properties\<close>

text \<open>
  \<open>sqlite3rowlockPsmInit\<close>, whenever the lock file can be created in the end: the
  handle is set and the shared memory stays attached exactly on success, the lock file is removed on every path, meta data
  that another process has published is never replaced, and what a first opener
  publishes is a well-formed shared memory without locks.
\<close>

theorem PsmInit_correct:
  assumes opens: "rowlockPsmInitLock opens \<noteq> None" and S: "\<not> handleSet S" "\<not> initLock S"
    and path: "\<forall>r. fullPathname name = Inl r \<longrightarrow> r \<noteq> SQLITE_OK"
  shows "\<exists>rc S'. sqlite3rowlockPsmInit fullPathname opens psmOk metaOk mutexRc S name = Some (rc, S') \<and>
    handleSet S' = (rc = SQLITE_OK) \<and> \<not> initLock S' \<and> psmOpen S' = psmOpen S + (if rc = SQLITE_OK then 1 else 0) \<and>
    (\<forall>m. published S = Some m \<longrightarrow> published S' = Some m) \<and>
    (\<forall>xc m. published S = None \<longrightarrow> published S' = Some m \<longrightarrow>
       rc = SQLITE_OK \<and> psm_inv xc m \<and> (\<forall>i k. 0 \<le> i \<longrightarrow> \<not> psmHasTable m i \<and> psmHolder xc m i k = None))"
proof -
  have e: "psm_inv xc psmEmpty" for xc by (rule psm_inv_empty)
  have f: "sqlite3HashI64Find (idxList psmEmpty) (listHeap psmEmpty) i = Some 0" if "0 \<le> i" for i
    using i64.hashFind_ok [OF hash_inv_init, of i] that
    by (simp add: psmEmpty_def sqlite3HashI64Find_def i64Key_def)
  have t: "\<not> psmHasTable psmEmpty i \<and> psmHolder xc psmEmpty i k = None" if "0 \<le> i" for i xc k
    using f [OF that] by (simp add: psmHasTable_def psmHolder_def) (simp add: psmEmpty_def)
  have n: "rc \<noteq> SQLITE_OK" if "rowlockPsmLockName fullPathname MAX_PATH_LEN name = Inl rc" for rc
    using that path by (auto simp: rowlockPsmLockName_def split: sum.splits option.splits)
  show ?thesis
    using opens S e t n rowlockPsmInitLock_result [of opens]
    by (auto simp: sqlite3rowlockPsmInit_def Let_def split: sum.splits option.splits)
qed

theorem PsmInit_correct_witness:
  "\<exists>S'. sqlite3rowlockPsmInit Inr [OPEN_EEXIST, OPEN_FD] True True SQLITE_OK
     \<lparr>published = None, handleSet = False, initLock = False, psmOpen = 0\<rparr> ''/tmp/a.db'' = Some (SQLITE_OK, S') \<and> handleSet S' \<and> \<not> initLock S'"
proof -
  let ?S = "\<lparr>published = None, handleSet = False, initLock = False, psmOpen = 0\<rparr>"
  have "sqlite3rowlockPsmInit Inr [OPEN_EEXIST, OPEN_FD] True True SQLITE_OK ?S ''/tmp/a.db'' =
      Some (SQLITE_OK, \<lparr>published = Some psmEmpty, handleSet = True, initLock = False, psmOpen = 1\<rparr>)"
    by (simp add: sqlite3rowlockPsmInit_def rowlockPsmLockName_def rowlockStrCat_def MAX_PATH_LEN_def)
  moreover have "\<exists>rc S'. sqlite3rowlockPsmInit Inr [OPEN_EEXIST, OPEN_FD] True True SQLITE_OK ?S ''/tmp/a.db'' = Some (rc, S') \<and>
      handleSet S' = (rc = SQLITE_OK) \<and> \<not> initLock S'"
    using PsmInit_correct [of "[OPEN_EEXIST, OPEN_FD]" ?S Inr "''/tmp/a.db''" True True SQLITE_OK] by auto
  ultimately show ?thesis by auto
qed

text \<open>
  \<open>sqlite3_prepare_inherit\<close> replaces the handle of every open database by the one the
  PSM library returns and reports \<open>SQLITE_ERROR\<close> as soon as one is null, leaving that
  handle and the later ones as they were; \<open>sqlite3_cancel_inherit\<close> then reaches every
  handle.
\<close>

theorem prepare_inherit_correct:
  "sqlite3_prepare_inherit f db =
     (if \<forall>h. Some h \<in> set db \<longrightarrow> f h \<noteq> 0 then (SQLITE_OK, map (map_option f) db)
      else (SQLITE_ERROR, inheritResult f db)) \<and>
   snd (sqlite3_cancel_inherit (snd (sqlite3_prepare_inherit f db))) =
     List.map_filter (\<lambda>h. h) (snd (sqlite3_prepare_inherit f db))"
proof -
  have all: "inheritResult f db = map (map_option f) db" if "\<forall>h. Some h \<in> set db \<longrightarrow> f h \<noteq> 0"
  proof -
    have tw: "takeWhile (\<lambda>d. \<forall>h. d = Some h \<longrightarrow> f h \<noteq> 0) db = db" using that by (intro takeWhile_eq_all_conv [THEN iffD2]) auto
    have dw: "dropWhile (\<lambda>d. \<forall>h. d = Some h \<longrightarrow> f h \<noteq> 0) db = []" using that by (intro dropWhile_eq_Nil_conv [THEN iffD2]) auto
    show ?thesis unfolding inheritResult_def tw dw by simp
  qed
  have c: "snd (sqlite3_cancel_inherit d) = List.map_filter (\<lambda>h. h) d" for d :: aDb
  proof -
    have "map (\<lambda>i. case getPsmHandle d i of Inl rc \<Rightarrow> [] | Inr h \<Rightarrow> [h]) [0..<length d] =
        map (\<lambda>x. case x of None \<Rightarrow> [] | Some h \<Rightarrow> [h]) (map ((!) d) [0..<length d])"
      by (auto simp: getPsmHandle_def split: option.splits)
    also have "List.concat \<dots> = List.map_filter (\<lambda>h. h) d"
      by (simp add: map_nth) (induction d, auto simp: List.map_filter_def split: option.splits)
    finally show ?thesis by (simp add: sqlite3_cancel_inherit_def)
  qed
  show ?thesis using inheritLoop_ok [of f "[]" db] all by (simp add: sqlite3_prepare_inherit_def c)
qed

theorem prepare_inherit_correct_witness:
  "sqlite3_prepare_inherit (\<lambda>h. h + 1) [Some 4, None, Some 6] = (SQLITE_OK, [Some 5, None, Some 7])"
  using prepare_inherit_correct [of "\<lambda>h. h + 1" "[Some 4, None, Some 6]"] by auto

end
