(* ===== verification/Trans_Open.thy ===== *)
theory Trans_Open
  imports Trans_Control Ipc_Handle Psm_Init
begin

text \<open>
  Start and end of the feature in \<open>rowlock.c\<close>: the signal handlers and the functions that run when the library is loaded and unloaded, and opening and
  closing a connection with its transaction btree, its lock areas and its shared memory.
\<close>

section \<open>Signals, loading and unloading\<close>

abbreviation (input) "SIGINT \<equiv> (2 :: int)"
abbreviation (input) "SIGILL \<equiv> (4 :: int)"
abbreviation (input) "SIGABRT \<equiv> (6 :: int)"
abbreviation (input) "SIGFPE \<equiv> (8 :: int)"
abbreviation (input) "SIGSEGV \<equiv> (11 :: int)"
abbreviation (input) "SIGTERM \<equiv> (15 :: int)"

text \<open>The databases of the shared cache, by the names of their files, are an argument.\<close>

definition rowlockSignalHandler :: "IpcEnv \<Rightarrow> u64 \<times> u64 \<Rightarrow> string list \<Rightarrow> int \<Rightarrow> IpcFiles \<Rightarrow> IpcFiles option" where
  "rowlockSignalHandler env cfg dbs signal F =
     (if signal \<in> {SIGINT, SIGILL, SIGFPE, SIGSEGV, SIGTERM, SIGABRT} then rowlockIpcCleanup env cfg dbs F else Some F)"

definition rowlockSetSignalAction :: "(int \<Rightarrow> bool) \<Rightarrow> bool \<times> int list" where
  "rowlockSetSignalAction sigactionOk = rowlockOsSetSignalAction sigactionOk [SIGINT, SIGILL, SIGFPE, SIGSEGV, SIGTERM, SIGABRT]"

text \<open>The result, whether the shared cache is enabled, and the signals with a handler.\<close>

definition rowlockInitialize :: "(int \<Rightarrow> bool) \<Rightarrow> rc \<times> bool \<times> int list" where
  "rowlockInitialize sigactionOk =
     (let (ok, done) = rowlockSetSignalAction sigactionOk in (if \<not> ok then SQLITE_ERROR else SQLITE_OK, True, done))"

definition constructor :: "(int \<Rightarrow> bool) \<Rightarrow> bool \<times> int list" where
  "constructor sigactionOk = snd (rowlockInitialize sigactionOk)"

definition destructor :: "IpcEnv \<Rightarrow> u64 \<times> u64 \<Rightarrow> string list \<Rightarrow> IpcFiles \<Rightarrow> IpcFiles option" where
  "destructor env cfg dbs F = rowlockIpcCleanup env cfg dbs F"

section \<open>State of a connection\<close>

text \<open>
  The results of the calls that opening makes: the lock areas, the configured sizes, the PSM library, the allocation of a name, and of SQLite's own open and
  close. \<open>pagerFilename\<close> is the name of the opened file, \<open>sharable\<close> the flag of the opened btree.
\<close>

record OpenEnv =
  ipcEnv :: IpcEnv
  szMmapRowLock :: u64
  szMmapTableLock :: u64
  psmOpens :: "open_result list"
  psmOkE :: bool
  metaOkE :: bool
  psmMutexRc :: rc
  nameOk :: bool
  sharedRc :: rc
  transRc :: rc
  closeRc :: rc
  sharable :: bool
  pagerFilename :: string

text \<open>
  \<open>openTrees\<close> counts the open btrees and \<open>nNames\<close> the allocated names; \<open>transOpen\<close> is whether the btree has a transaction btree. Of \<open>worldB\<close> only the mapping of
  root pages is used here, the lock areas are in \<open>filesB\<close>. \<open>closedFds\<close> collects the closed descriptors, and \<open>lostB\<close> counts the structures that were
  overwritten while they still referred to allocated memory.
\<close>

record BtreeState =
  openTrees :: nat
  nNames :: nat
  transOpen :: bool
  ipcHandleB :: "IpcHandle option"
  psmB :: PsmInitState
  filesB :: IpcFiles
  savepointB :: RowLockSavepoint
  worldB :: LockWorld
  closedFds :: "int list"
  lostB :: nat

text \<open>The structures of the connection with allocated memory: the two arrays of the savepoints and the mapping of root pages.\<close>

definition heldBlocks :: "BtreeState \<Rightarrow> nat" where
  "heldBlocks D = of_bool (pHistory (savepointB D) \<noteq> None) + of_bool (pSavepoints (savepointB D) \<noteq> None) + of_bool (rootPages (worldB D) \<noteq> hashInit)"

section \<open>Opening\<close>

fun decimal :: "nat \<Rightarrow> string" where
  "decimal n = (if n < 10 then [char_of (48 + n)] else decimal (n div 10) @ [char_of (48 + n mod 10)])"

declare decimal.simps [simp del]

text \<open>The name of a database in memory: the buffer for the relative name holds 20 characters.\<close>

definition rowlockMemoryDbFileName :: "OpenEnv \<Rightarrow> BtreeState \<Rightarrow> rc \<times> string \<times> BtreeState" where
  "rowlockMemoryDbFileName E D =
     (if \<not> nameOk E then (SQLITE_NOMEM, '''', D)
      else let D1 = D\<lparr>nNames := nNames D + 1\<rparr> in
        case fullPathname (ipcEnv E) (take 20 (''memory-'' @ decimal (selfPid (ipcEnv E)) @ ''.db'')) of
          Inl rc \<Rightarrow> (rc, '''', D1\<lparr>nNames := nNames D1 - 1\<rparr>)
        | Inr zFullPathname \<Rightarrow> (SQLITE_OK, zFullPathname, D1))"

text \<open>Freeing a name, where one was allocated, and closing the transaction btree on the paths of failure.\<close>

definition freeName :: "bool \<Rightarrow> BtreeState \<Rightarrow> BtreeState" where
  "freeName pFree D = (if pFree then D\<lparr>nNames := nNames D - 1\<rparr> else D)"

definition closeTrans :: "BtreeState \<Rightarrow> BtreeState" where
  "closeTrans D = D\<lparr>openTrees := openTrees D - 1, transOpen := False\<rparr>"

text \<open>\<open>mainDb\<close> is the flag \<open>SQLITE_OPEN_MAIN_DB\<close>, \<open>owner\<close> the address of the btree.\<close>

definition sqlite3TransBtreeOpen :: "OpenEnv \<Rightarrow> bool \<Rightarrow> u64 \<Rightarrow> BtreeState \<Rightarrow> (rc \<times> BtreeState) option" where
  "sqlite3TransBtreeOpen E mainDb owner D =
     (if \<not> mainDb \<or> \<not> sharable E then Some (SQLITE_OK, D\<lparr>transOpen := False\<rparr>)
      else if pagerFilename E = '''' then Some (SQLITE_OK, D)
      else let pFree = (pagerFilename E = '':memory:'');
               (rc0, dbFullPath, D1) = (if pFree then rowlockMemoryDbFileName E D else (SQLITE_OK, pagerFilename E, D))
        in if rc0 \<noteq> SQLITE_OK then Some (rc0, D1)
        else if transRc E \<noteq> SQLITE_OK then Some (transRc E, freeName pFree D1)
        else let D2 = D1\<lparr>openTrees := openTrees D1 + 1, transOpen := True, savepointB := zeroSavepoint\<rparr>;
                 (rcI, h, F, cl) = sqlite3rowlockIpcInit (ipcEnv E) (filesB D2) (szMmapRowLock E) (szMmapTableLock E) owner dbFullPath;
                 D3 = D2\<lparr>ipcHandleB := h, filesB := F, closedFds := closedFds D2 @ cl\<rparr>
          in if rcI \<noteq> SQLITE_OK then Some (rcI, freeName pFree (closeTrans D3))
          else Option.bind (sqlite3rowlockPsmInit (fullPathname (ipcEnv E)) (psmOpens E) (psmOkE E) (metaOkE E) (psmMutexRc E) (psmB D3) dbFullPath) (\<lambda>(rcP, S).
            let D4 = D3\<lparr>psmB := S\<rparr> in
            if rcP \<noteq> SQLITE_OK then
              Option.bind (sqlite3rowlockIpcFinish (ipcEnv E) (filesB D4) (ipcHandleB D4)) (\<lambda>(F', cl').
                Some (rcP, freeName pFree (closeTrans (D4\<lparr>filesB := F', ipcHandleB := None, closedFds := closedFds D4 @ cl'\<rparr>))))
            else Some (SQLITE_OK, (freeName pFree D4)\<lparr>worldB := (worldB D4)\<lparr>rootPages := transRootPagesInit\<rparr>\<rparr>)))"

section \<open>Closing\<close>

text \<open>Zeroing the structure \<open>BtreeTrans\<close> loses the memory it still refers to.\<close>

definition zeroBtreeTrans :: "BtreeState \<Rightarrow> BtreeState" where
  "zeroBtreeTrans D = D\<lparr>transOpen := False, ipcHandleB := None, psmB := (psmB D)\<lparr>handleSet := False\<rparr>, savepointB := zeroSavepoint,
     worldB := (worldB D)\<lparr>rootPages := hashInit\<rparr>, lostB := lostB D + heldBlocks D\<rparr>"

definition sqlite3TransBtreeClose :: "OpenEnv \<Rightarrow> BtreeState \<Rightarrow> BtreeState option" where
  "sqlite3TransBtreeClose E D =
     Option.bind
       (if transOpen D then
          Option.bind (sqlite3rowlockSavepointClose (Some (savepointB D))) (\<lambda>S.
          Option.bind (sqlite3rowlockIpcFinish (ipcEnv E) (filesB D) (ipcHandleB D)) (\<lambda>(F, cl).
            let D1 = D\<lparr>savepointB := S, filesB := F, closedFds := closedFds D @ cl, psmB := sqlite3rowlockPsmFinish (psmB D), openTrees := openTrees D - 1\<rparr> in
            map_option (\<lambda>W. D1\<lparr>worldB := W\<rparr>) (transRootPagesFinish (worldB D1))))
        else Some D)
       (\<lambda>D1. Some (zeroBtreeTrans D1))"

definition sqlite3BtreeCloseAll :: "OpenEnv \<Rightarrow> BtreeState \<Rightarrow> (rc \<times> BtreeState) option" where
  "sqlite3BtreeCloseAll E D = Option.bind (sqlite3TransBtreeClose E D) (\<lambda>D1. Some (closeRc E, D1\<lparr>openTrees := openTrees D1 - 1\<rparr>))"

definition sqlite3BtreeOpenAll :: "OpenEnv \<Rightarrow> bool \<Rightarrow> u64 \<Rightarrow> BtreeState \<Rightarrow> (rc \<times> BtreeState) option" where
  "sqlite3BtreeOpenAll E mainDb owner D =
     (if sharedRc E \<noteq> SQLITE_OK then Some (sharedRc E, D)
      else Option.bind (sqlite3TransBtreeOpen E mainDb owner (D\<lparr>openTrees := openTrees D + 1\<rparr>)) (\<lambda>(rc, D1).
        if rc \<noteq> SQLITE_OK then map_option (\<lambda>(r, D2). (rc, D2)) (sqlite3BtreeCloseAll E D1)
        else Some (SQLITE_OK, D1)))"

section \<open>Lemmas\<close>

text \<open>Lock files that are not used yet or well-formed, and what is kept of them while another process uses them, whatever opening them returns.\<close>

definition areasOk :: "IpcFiles \<Rightarrow> bool" where
  "areasOk F \<longleftrightarrow> (\<forall>n. rowFile F n = freshRowArea \<or> row_inv (rowFile F n)) \<and> (\<forall>n. tableFile F n = freshTableArea \<or> table_inv (tableFile F n))"

definition sameLocks :: "IpcFiles \<Rightarrow> IpcFiles \<Rightarrow> bool" where
  "sameLocks F F' \<longleftrightarrow> (\<forall>n. row_abs (rowFile F' n) = row_abs (rowFile F n) \<and> table_abs (tableFile F' n) = table_abs (tableFile F n))"

lemma sameLocks_trans: "sameLocks F G \<Longrightarrow> sameLocks G H \<Longrightarrow> sameLocks F H"
  by (simp add: sameLocks_def)

lemma fresh_init:
  assumes "104 \<le> nByteRow" "nByteRow < 2 ^ 63" "120 \<le> nByteTable" "nByteTable < 2 ^ 63"
  shows "row_abs (rowClassInitArea freshRowArea (nAllocRowOf nByteRow)) = row_abs freshRowArea" "row_inv (rowClassInitArea freshRowArea (nAllocRowOf nByteRow))"
    "table_abs (tableClassInitArea freshTableArea (nAllocTableOf nByteTable)) = table_abs freshTableArea" "table_inv (tableClassInitArea freshTableArea (nAllocTableOf nByteTable))"
  using row_init [OF nAllocRow_exact(3,4) [OF assms(1,2)], of freshRowArea] table_init [OF nAllocTable_exact(3,4) [OF assms(3,4)], of freshTableArea]
  by (simp_all add: freshRowArea_def freshTableArea_def row_abs_def row_locks_def table_abs_def table_locks_def)

lemma create_area:
  assumes "rowlockIpcCreate env C sz n m = (rc, h, m', cl)"
  shows "m' = m \<or> \<not> xIsInitialized C m \<and> m' = xInitArea C m sz"
  using create_cases(3) [OF assms] by auto

lemma init_files:
  assumes run: "sqlite3rowlockIpcInit env F nByteRow nByteTable owner name = (rc, h, F', cl)" and used: "\<And>hm. stillUsed env hm"
  shows "rowFile F' n = rowFile F n \<or> \<not> rowClassIsInitialized (rowFile F n) \<and> rowFile F' n = rowClassInitArea (rowFile F n) (nAllocRowOf nByteRow)"
    "tableFile F' n = tableFile F n \<or> \<not> tableClassIsInitialized (tableFile F n) \<and> tableFile F' n = tableClassInitArea (tableFile F n) (nAllocTableOf nByteTable)"
    "rc \<noteq> SQLITE_OK \<Longrightarrow> h = None"
proof -
  have c: "ipcCloseBoth env a b G = (G, [fdMmap a, fdMng a, fdMmap b, fdMng b])" for a b G
    by (simp add: ipcCloseBoth_def close_used [OF used])
  have x: "xIsInitialized rowClass = rowClassIsInitialized" "xInitArea rowClass = rowClassInitArea"
    "xIsInitialized tableClass = tableClassIsInitialized" "xInitArea tableClass = tableClassInitArea" by (simp_all add: rowClass_def tableClass_def)
  note R = create_area [of env rowClass "nAllocRowOf nByteRow", unfolded x] and T = create_area [of env tableClass "nAllocTableOf nByteTable", unfolded x]
  show "rowFile F' n = rowFile F n \<or> \<not> rowClassIsInitialized (rowFile F n) \<and> rowFile F' n = rowClassInitArea (rowFile F n) (nAllocRowOf nByteRow)"
    using run unfolding sqlite3rowlockIpcInit_def Let_def
    by (auto simp: c split: sum.splits option.splits prod.splits if_splits dest!: R)
  show "tableFile F' n = tableFile F n \<or> \<not> tableClassIsInitialized (tableFile F n) \<and> tableFile F' n = tableClassInitArea (tableFile F n) (nAllocTableOf nByteTable)"
    using run unfolding sqlite3rowlockIpcInit_def Let_def
    by (auto simp: c split: sum.splits option.splits prod.splits if_splits dest!: T)
  show "rc \<noteq> SQLITE_OK \<Longrightarrow> h = None"
    using run unfolding sqlite3rowlockIpcInit_def Let_def by (auto simp: c split: sum.splits option.splits prod.splits if_splits)
qed

lemma init_any:
  assumes run: "sqlite3rowlockIpcInit env F nByteRow nByteTable owner name = (rc, h, F', cl)" and used: "\<And>hm. stillUsed env hm"
    and path: "\<And>n. fullPathname env n \<noteq> Inl SQLITE_OK" and sz: "104 \<le> nByteRow" "nByteRow < 2 ^ 63" "120 \<le> nByteTable" "nByteTable < 2 ^ 63"
    and ok: "areasOk F"
  shows "sameLocks F F'" "areasOk F'" "rc \<noteq> SQLITE_OK \<Longrightarrow> h = None"
    "rc = SQLITE_OK \<Longrightarrow> \<exists>hn. h = Some hn \<and> cl = [] \<and> ownerI hn = owner \<and> row_inv (rowFile F' (pRecordLock hn)) \<and> table_inv (tableFile F' (pTableLock hn))"
proof -
  note i = init_files [OF run used] and f = fresh_init [OF sz]
  have r: "rowFile F n = freshRowArea \<or> row_inv (rowFile F n)" "tableFile F n = freshTableArea \<or> table_inv (tableFile F n)" for n using ok by (auto simp: areasOk_def)
  have n: "row_inv m \<Longrightarrow> rowClassIsInitialized m" "table_inv t \<Longrightarrow> tableClassIsInitialized t" for m t
    by (auto simp: rowClassIsInitialized_def tableClassIsInitialized_def row_inv_def row_wf_def table_inv_def table_wf_def)
  have "row_abs (rowFile F' n) = row_abs (rowFile F n) \<and> (rowFile F' n = freshRowArea \<or> row_inv (rowFile F' n))" for n
    using i(1) [of n] r(1) [of n] f(1,2) n(1) by metis
  moreover have "table_abs (tableFile F' n) = table_abs (tableFile F n) \<and> (tableFile F' n = freshTableArea \<or> table_inv (tableFile F' n))" for n
    using i(2) [of n] r(2) [of n] f(3,4) n(2) by metis
  ultimately show "sameLocks F F'" "areasOk F'" by (simp_all add: sameLocks_def areasOk_def)
  show "rc \<noteq> SQLITE_OK \<Longrightarrow> h = None" by (rule i(3))
  show "\<exists>hn. h = Some hn \<and> cl = [] \<and> ownerI hn = owner \<and> row_inv (rowFile F' (pRecordLock hn)) \<and> table_inv (tableFile F' (pTableLock hn))" if "rc = SQLITE_OK"
    using ipc_init_ok [OF run [unfolded that] _ sz] path r by auto
qed

text \<open>A new connection holds no locks, so closing it releases none of any other.\<close>

definition noLocks :: "PID \<Rightarrow> u64 \<Rightarrow> IpcFiles \<Rightarrow> bool" where
  "noLocks pid owner F \<longleftrightarrow> (\<forall>n. (\<forall>k. row_abs (rowFile F n) k \<noteq> Some (pid, owner)) \<and> (\<forall>t. table_abs (tableFile F n) (t, pid, owner) = None))"

lemma noLocks_same: "sameLocks F F' \<Longrightarrow> noLocks pid owner F' = noLocks pid owner F"
  by (simp add: noLocks_def sameLocks_def)

definition descriptors :: "IpcHandle \<Rightarrow> int list" where
  "descriptors h = [fdMmap (hRecordLock h), fdMng (hRecordLock h), fdMmap (hTableLock h), fdMng (hTableLock h)]"

lemma finish_same:
  assumes inv: "row_inv (rowFile F (pRecordLock h))" "table_inv (tableFile F (pTableLock h))" and self: "selfPid env \<noteq> 0"
    and used: "\<And>hm. stillUsed env hm" and no: "noLocks (selfPid env) (ownerI h) F" "ownerI h \<noteq> 0"
  obtains F' where "sqlite3rowlockIpcFinish env F (Some h) = Some (F', descriptors h)" "sameLocks F F'"
proof -
  obtain mR mT where f: "sqlite3rowlockIpcFinish env F (Some h) =
      Some (F\<lparr>rowFile := (rowFile F)(pRecordLock h := mR), tableFile := (tableFile F)(pTableLock h := mT)\<rparr>, descriptors h)"
    and R: "row_abs mR = spec_release (selfPid env) (ownerI h) (row_abs (rowFile F (pRecordLock h)))"
    and T: "tableLocksKept (selfPid env) (ownerI h) (tableFile F (pTableLock h)) mT"
    by (rule finish_ok [OF inv self used used, folded descriptors_def])
  have "row_abs mR = row_abs (rowFile F (pRecordLock h))"
    using no self unfolding R spec_release_def noLocks_def by (auto simp: holderMatches_def fun_eq_iff split: option.splits)
  moreover have "table_abs mT (t, p, ow) = table_abs (tableFile F (pTableLock h)) (t, p, ow)" for t p ow
  proof -
    have "p = selfPid env \<and> ow = ownerI h \<Longrightarrow> table_abs (tableFile F (pTableLock h)) (t, p, ow) = None" using no(1) by (simp add: noLocks_def)
    then have "table_abs mT (t, p, ow) = Some l \<longleftrightarrow> table_abs (tableFile F (pTableLock h)) (t, p, ow) = Some l" for l
      using T no(2) by (auto simp: tableLocksKept_def)
    then show ?thesis by (metis not_None_eq)
  qed
  ultimately show thesis using that [OF f] by (auto simp: sameLocks_def fun_eq_iff)
qed

text \<open>
  The descriptors that the calls of \<open>open\<close> return for a mapping, and for both lock areas of a database: the area of the table locks is opened only when that
  of the row locks could be.
\<close>

definition mmapFds :: "MmapCalls \<Rightarrow> int multiset" where
  "mmapFds c = (if openMap c = -1 then {#} else filter_mset (\<lambda>fd. fd \<noteq> -1) {#openMap c, openMng c#})"

definition ipcFds :: "IpcEnv \<Rightarrow> u64 \<Rightarrow> string \<Rightarrow> int multiset" where
  "ipcFds env nByteRow name =
     (case (rowlockIpcMapName env rowClassMapName MAX_PATH_LEN name, rowlockIpcMapName env tableClassMapName MAX_PATH_LEN name,
            rowlockStrCat MAX_PATH_LEN name ''-rowlock-mutex'', rowlockStrCat MAX_PATH_LEN name ''-tablelock-mutex'') of
        (Inr nR, Inr nT, Some xR, Some xT) \<Rightarrow>
          mmapFds (mmapCalls env nR) +
          (if fst (rowlockOsMmapOpen (mmapCalls env nR) (nAllocRowOf nByteRow) nR) = SQLITE_OK then mmapFds (mmapCalls env nT) else {#})
      | _ \<Rightarrow> {#})"

lemma open_fds:
  assumes "rowlockOsMmapOpen c sz n = (rc, h, cl)"
  shows "case h of Some m \<Rightarrow> rc = SQLITE_OK \<and> cl = [] \<and> {#fdMmap m, fdMng m#} = mmapFds c | None \<Rightarrow> rc \<noteq> SQLITE_OK \<and> mset cl = mmapFds c"
proof -
  have g: "rc \<noteq> SQLITE_OK" if "getFileSize c = Inl rc" for rc
    using that by (auto simp: getFileSize_def split: if_splits option.splits)
  show ?thesis using assms g by (auto simp: rowlockOsMmapOpen_def mmapFds_def Let_def split: if_splits sum.splits)
qed

text \<open>
  Opening the lock areas: what is not closed again is in the handle. A failure after the first area closes the second handle even when it was never set, that
  is descriptor 0 twice.
\<close>

lemma init_fds:
  assumes run: "sqlite3rowlockIpcInit env F nByteRow nByteTable owner name = (rc, h, F', cl)" and used: "\<And>hm. stillUsed env hm"
  shows "case h of Some hn \<Rightarrow> mset (descriptors hn) = ipcFds env nByteRow name
    | None \<Rightarrow> ipcFds env nByteRow name \<subseteq># mset cl \<and> mset cl \<subseteq># ipcFds env nByteRow name + {#0, 0#}"
proof -
  have c: "ipcCloseBoth env a b G = (G, [fdMmap a, fdMng a, fdMmap b, fdMng b])" for a b G
    by (simp add: ipcCloseBoth_def close_used [OF used])
  note unf = sqlite3rowlockIpcInit_def Let_def ipcFds_def c
  show ?thesis
  proof (cases "\<exists>nR nT xR xT. rowlockIpcMapName env rowClassMapName MAX_PATH_LEN name = Inr nR \<and> rowlockIpcMapName env tableClassMapName MAX_PATH_LEN name = Inr nT \<and>
      rowlockStrCat MAX_PATH_LEN name ''-rowlock-mutex'' = Some xR \<and> rowlockStrCat MAX_PATH_LEN name ''-tablelock-mutex'' = Some xT")
    case False
    then show ?thesis using run by (auto simp: unf split: sum.splits option.splits)
  next
    case True
    then obtain nR nT xR xT where n: "rowlockIpcMapName env rowClassMapName MAX_PATH_LEN name = Inr nR" "rowlockIpcMapName env tableClassMapName MAX_PATH_LEN name = Inr nT"
      "rowlockStrCat MAX_PATH_LEN name ''-rowlock-mutex'' = Some xR" "rowlockStrCat MAX_PATH_LEN name ''-tablelock-mutex'' = Some xT" by blast
    obtain rcR hR clR where R: "rowlockOsMmapOpen (mmapCalls env nR) (nAllocRowOf nByteRow) nR = (rcR, hR, clR)" using prod_cases3 by blast
    obtain rcT hT clT where T: "rowlockOsMmapOpen (mmapCalls env nT) (nAllocTableOf nByteTable) nT = (rcT, hT, clT)" using prod_cases3 by blast
    note r = run [unfolded unf n sum.case option.case rowlockIpcCreate_def R T prod.case]
    note o = open_fds [OF R] open_fds [OF T]
    have i: "ipcFds env nByteRow name = mmapFds (mmapCalls env nR) + (if rcR = SQLITE_OK then mmapFds (mmapCalls env nT) else {#})"
      by (simp add: ipcFds_def n R)
    show ?thesis
    proof (cases hR)
      case None
      then show ?thesis using r o i by auto
    next
      case R: (Some a)
      show ?thesis
      proof (cases hT)
        case None
        then have cl: "h = None" "cl = clT @ [fdMmap a, fdMng a, 0, 0]" using r R o by (auto simp: zeroMmap_def split: if_splits)
        have "ipcFds env nByteRow name = mset clT + {#fdMmap a, fdMng a#}" using None R o i by auto
        then show ?thesis by (simp add: cl ac_simps)
      next
        case (Some b)
        then have eq: "ipcFds env nByteRow name = {#fdMmap a, fdMng a, fdMmap b, fdMng b#}" and ok: "rcR = SQLITE_OK" "rcT = SQLITE_OK"
          using R o i by (auto simp: add_mset_commute)
        have "case h of Some hn \<Rightarrow> descriptors hn = [fdMmap a, fdMng a, fdMmap b, fdMng b] | None \<Rightarrow> cl = [fdMmap a, fdMng a, fdMmap b, fdMng b]"
          using r unfolding R Some ok by (auto simp: descriptors_def split: if_splits prod.splits)
        then show ?thesis unfolding eq by (auto split: option.splits)
      qed
    qed
  qed
qed

text \<open>A connection with nothing open, and a state in which everything an opening took is given back and the descriptors \<open>fds\<close> are closed.\<close>

definition idle :: "BtreeState \<Rightarrow> bool" where
  "idle D \<longleftrightarrow> \<not> transOpen D \<and> ipcHandleB D = None \<and> \<not> handleSet (psmB D) \<and> \<not> initLock (psmB D) \<and> heldBlocks D = 0"

definition restored :: "int multiset \<Rightarrow> BtreeState \<Rightarrow> BtreeState \<Rightarrow> bool" where
  "restored fds D D' \<longleftrightarrow> idle D' \<and> openTrees D' = openTrees D \<and> nNames D' = nNames D \<and> psmOpen (psmB D') = psmOpen (psmB D) \<and> lostB D' = lostB D \<and>
     mset (closedFds D') = mset (closedFds D) + fds"

text \<open>Whether the btree gets a transaction btree.\<close>

definition usesTrans :: "OpenEnv \<Rightarrow> bool \<Rightarrow> bool" where
  "usesTrans E mainDb \<longleftrightarrow> mainDb \<and> sharable E \<and> pagerFilename E \<noteq> ''''"

text \<open>The name under which the lock areas are opened, and the descriptors an opening takes.\<close>

definition dbPath :: "OpenEnv \<Rightarrow> string option" where
  "dbPath E =
     (if pagerFilename E \<noteq> '':memory:'' then Some (pagerFilename E)
      else if \<not> nameOk E then None
      else case fullPathname (ipcEnv E) (take 20 (''memory-'' @ decimal (selfPid (ipcEnv E)) @ ''.db'')) of Inl rc \<Rightarrow> None | Inr zFullPathname \<Rightarrow> Some zFullPathname)"

definition takenFds :: "OpenEnv \<Rightarrow> bool \<Rightarrow> int multiset" where
  "takenFds E mainDb =
     (if sharedRc E = SQLITE_OK \<and> usesTrans E mainDb \<and> transRc E = SQLITE_OK
      then (case dbPath E of None \<Rightarrow> {#} | Some name \<Rightarrow> ipcFds (ipcEnv E) (szMmapRowLock E) name) else {#})"

text \<open>
  The state of an open connection after any work: it has the handles it was opened with, and for a transaction btree well-formed lock areas, with locks of any
  owner, any arrays of savepoints and a well-formed mapping.
\<close>

definition worked :: "BtreeState \<Rightarrow> BtreeState \<Rightarrow> bool" where
  "worked D D' \<longleftrightarrow> openTrees D' = openTrees D \<and> nNames D' = nNames D \<and> transOpen D' = transOpen D \<and> ipcHandleB D' = ipcHandleB D \<and>
     handleSet (psmB D') = handleSet (psmB D) \<and> initLock (psmB D') = initLock (psmB D) \<and> psmOpen (psmB D') = psmOpen (psmB D) \<and>
     closedFds D' = closedFds D \<and> lostB D' = lostB D \<and>
     (if transOpen D then \<exists>as. rootsOk (worldB D') as else savepointB D' = savepointB D \<and> rootPages (worldB D') = rootPages (worldB D)) \<and>
     (\<forall>h. ipcHandleB D = Some h \<longrightarrow> row_inv (rowFile (filesB D') (pRecordLock h)) \<and> table_inv (tableFile (filesB D') (pTableLock h)))"

text \<open>What closing does to the lock areas: exactly the locks of the connection are released.\<close>

definition locksReleased :: "PID \<Rightarrow> IpcHandle option \<Rightarrow> IpcFiles \<Rightarrow> IpcFiles \<Rightarrow> bool" where
  "locksReleased pid handle F F' \<longleftrightarrow>
     (case handle of
        None \<Rightarrow> F' = F
      | Some h \<Rightarrow>
          (\<forall>n. row_abs (rowFile F' n) = (if n = pRecordLock h then spec_release pid (ownerI h) (row_abs (rowFile F n)) else row_abs (rowFile F n))) \<and>
          (\<forall>n. if n = pTableLock h then tableLocksKept pid (ownerI h) (tableFile F n) (tableFile F' n) else tableFile F' n = tableFile F n))"

lemma close_idle:
  assumes "idle D"
  obtains D' where "sqlite3BtreeCloseAll E D = Some (closeRc E, D')" "filesB D' = filesB D" "restored {#} (D\<lparr>openTrees := openTrees D - 1\<rparr>) D'"
  using assms
  by (simp add: sqlite3BtreeCloseAll_def sqlite3TransBtreeClose_def idle_def restored_def zeroBtreeTrans_def heldBlocks_def zeroSavepoint_def)

lemma close_trans:
  assumes D: "transOpen D" "ipcHandleB D = Some h" "handleSet (psmB D)" "\<not> initLock (psmB D)" "rootsOk (worldB D) as"
    and inv: "row_inv (rowFile (filesB D) (pRecordLock h))" "table_inv (tableFile (filesB D) (pTableLock h))" and self: "selfPid (ipcEnv E) \<noteq> 0"
    and used: "\<And>hm. stillUsed (ipcEnv E) hm"
  obtains D' where "sqlite3BtreeCloseAll E D = Some (closeRc E, D')" "locksReleased (selfPid (ipcEnv E)) (Some h) (filesB D) (filesB D')"
    "restored (mset (descriptors h)) (D\<lparr>openTrees := openTrees D - 2, psmB := (psmB D)\<lparr>psmOpen := psmOpen (psmB D) - 1\<rparr>\<rparr>) D'"
proof -
  obtain mR mT where f: "sqlite3rowlockIpcFinish (ipcEnv E) (filesB D) (Some h) =
      Some ((filesB D)\<lparr>rowFile := (rowFile (filesB D))(pRecordLock h := mR), tableFile := (tableFile (filesB D))(pTableLock h := mT)\<rparr>, descriptors h)"
    and R: "row_abs mR = spec_release (selfPid (ipcEnv E)) (ownerI h) (row_abs (rowFile (filesB D) (pRecordLock h)))"
    and T: "tableLocksKept (selfPid (ipcEnv E)) (ownerI h) (tableFile (filesB D) (pTableLock h)) mT"
    by (rule finish_ok [OF inv self used used, folded descriptors_def])
  obtain W where W: "transRootPagesFinish (worldB D) = Some W" "rootPages W = hashInit" using roots_finish [OF D(5)] by blast
  show thesis
    using that D f R T W
    by (simp add: sqlite3BtreeCloseAll_def sqlite3TransBtreeClose_def sqlite3rowlockSavepointClose_def Let_def sqlite3rowlockPsmFinish_def idle_def
        zeroBtreeTrans_def heldBlocks_def zeroSavepoint_def restored_def locksReleased_def)
qed

text \<open>
  What opening relies on: a call that fails says so, the configured sizes hold an element, another process uses the lock files, process identifiers are
  not 0, and the lock file of the shared memory can be created in the end.
\<close>

definition lawfulEnv :: "OpenEnv \<Rightarrow> bool" where
  "lawfulEnv E \<longleftrightarrow> (\<forall>n. fullPathname (ipcEnv E) n \<noteq> Inl SQLITE_OK) \<and> (\<forall>hm. stillUsed (ipcEnv E) hm) \<and> selfPid (ipcEnv E) \<noteq> 0 \<and>
     104 \<le> szMmapRowLock E \<and> szMmapRowLock E < 2 ^ 63 \<and> 120 \<le> szMmapTableLock E \<and> szMmapTableLock E < 2 ^ 63 \<and> rowlockPsmInitLock (psmOpens E) \<noteq> None"

definition opened :: "u64 \<Rightarrow> BtreeState \<Rightarrow> BtreeState \<Rightarrow> IpcHandle \<Rightarrow> bool" where
  "opened owner D D' h \<longleftrightarrow> transOpen D' \<and> ipcHandleB D' = Some h \<and> ownerI h = owner \<and> handleSet (psmB D') \<and> \<not> initLock (psmB D') \<and>
     psmOpen (psmB D') = psmOpen (psmB D) + 1 \<and> openTrees D' = openTrees D + 1 \<and> nNames D' = nNames D \<and> closedFds D' = closedFds D \<and> lostB D' = lostB D \<and>
     row_inv (rowFile (filesB D') (pRecordLock h)) \<and> table_inv (tableFile (filesB D') (pTableLock h)) \<and>
     savepointB D' = zeroSavepoint \<and> rootsOk (worldB D') []"

text \<open>A failed opening: nothing stays, and all the descriptors taken are closed, besides them descriptor 0 at most twice.\<close>

definition failedOpen :: "int multiset \<Rightarrow> BtreeState \<Rightarrow> BtreeState \<Rightarrow> bool" where
  "failedOpen fds D D' \<longleftrightarrow> (\<exists>C. restored C D D' \<and> fds \<subseteq># C \<and> C \<subseteq># fds + {#0, 0#})"

lemma memory_name:
  assumes "lawfulEnv E" "(if pagerFilename E = '':memory:'' then rowlockMemoryDbFileName E D else (SQLITE_OK, pagerFilename E, D)) = (rc, name, D1)"
  shows "D1 = D\<lparr>nNames := nNames D + (if pagerFilename E = '':memory:'' \<and> rc = SQLITE_OK then 1 else 0)\<rparr>" "dbPath E = (if rc = SQLITE_OK then Some name else None)"
  using assms by (auto simp: rowlockMemoryDbFileName_def lawfulEnv_def dbPath_def Let_def split: if_splits sum.splits)

lemma btree_open:
  assumes E: "lawfulEnv E" "sharedRc E = SQLITE_OK" and D: "idle D" "areasOk (filesB D)"
    and no: "noLocks (selfPid (ipcEnv E)) owner (filesB D)" "owner \<noteq> 0"
  shows "\<exists>rc D'. sqlite3TransBtreeOpen E mainDb owner D = Some (rc, D') \<and> sameLocks (filesB D) (filesB D') \<and>
    (if rc \<noteq> SQLITE_OK then failedOpen (takenFds E mainDb) D D'
     else if usesTrans E mainDb then \<exists>h. opened owner D D' h \<and> mset (descriptors h) = takenFds E mainDb else restored {#} D D')"
proof (cases "usesTrans E mainDb")
  case False
  have "sameLocks (filesB D) (filesB D)" by (simp add: sameLocks_def)
  moreover have "restored {#} D D" "restored {#} D (D\<lparr>transOpen := False\<rparr>)" using D(1) by (auto simp: restored_def idle_def heldBlocks_def)
  ultimately show ?thesis using False by (auto simp: sqlite3TransBtreeOpen_def usesTrans_def)
next
  case True
  note u = True [unfolded usesTrans_def]
  note laws = E(1) [unfolded lawfulEnv_def]
  define pFree where "pFree = (pagerFilename E = '':memory:'')"
  obtain rc0 name D1 where N: "(if pFree then rowlockMemoryDbFileName E D else (SQLITE_OK, pagerFilename E, D)) = (rc0, name, D1)" using prod_cases3 by blast
  have D1: "D1 = D\<lparr>nNames := nNames D + (if pFree \<and> rc0 = SQLITE_OK then 1 else 0)\<rparr>" "dbPath E = (if rc0 = SQLITE_OK then Some name else None)"
    using memory_name [OF E(1) N [unfolded pFree_def]] by (simp_all add: pFree_def)
  have s: "sameLocks G G" for G by (simp add: sameLocks_def)
  obtain rcI h F cl where I: "sqlite3rowlockIpcInit (ipcEnv E) (filesB D) (szMmapRowLock E) (szMmapTableLock E) owner name = (rcI, h, F, cl)" using prod_cases4 by blast
  have i: "sameLocks (filesB D) F" "areasOk F" "rcI \<noteq> SQLITE_OK \<Longrightarrow> h = None"
    "rcI = SQLITE_OK \<Longrightarrow> \<exists>hn. h = Some hn \<and> cl = [] \<and> ownerI hn = owner \<and> row_inv (rowFile F (pRecordLock hn)) \<and> table_inv (tableFile F (pTableLock hn))"
    by (rule init_any [OF I]; use laws D(2) in blast)+
  have fds: "case h of Some hn \<Rightarrow> mset (descriptors hn) = ipcFds (ipcEnv E) (szMmapRowLock E) name
      | None \<Rightarrow> ipcFds (ipcEnv E) (szMmapRowLock E) name \<subseteq># mset cl \<and> mset cl \<subseteq># ipcFds (ipcEnv E) (szMmapRowLock E) name + {#0, 0#}"
    using init_fds [OF I] laws by blast
  have tk: "takenFds E mainDb = (if transRc E = SQLITE_OK \<and> rc0 = SQLITE_OK then ipcFds (ipcEnv E) (szMmapRowLock E) name else {#})"
    using True E(2) D1(2) by (simp add: takenFds_def)
  obtain rcP S where P: "sqlite3rowlockPsmInit (fullPathname (ipcEnv E)) (psmOpens E) (psmOkE E) (metaOkE E) (psmMutexRc E) (psmB D) name = Some (rcP, S)"
    "handleSet S = (rcP = SQLITE_OK)" "\<not> initLock S" "psmOpen S = psmOpen (psmB D) + (if rcP = SQLITE_OK then 1 else 0)"
    using PsmInit_correct [of "psmOpens E" "psmB D" "fullPathname (ipcEnv E)" name "psmOkE E" "metaOkE E" "psmMutexRc E"] D(1) laws
    unfolding idle_def by blast
  note unf = sqlite3TransBtreeOpen_def Let_def pFree_def [symmetric] N prod.case
  note spec = failedOpen_def restored_def idle_def heldBlocks_def zeroSavepoint_def freeName_def closeTrans_def
  consider (name) "rc0 \<noteq> SQLITE_OK" | (tree) "rc0 = SQLITE_OK" "transRc E \<noteq> SQLITE_OK" | (ipc) "rc0 = SQLITE_OK" "transRc E = SQLITE_OK" "rcI \<noteq> SQLITE_OK"
    | (psm) hn where "rc0 = SQLITE_OK" "transRc E = SQLITE_OK" "rcI = SQLITE_OK" "h = Some hn" "cl = []" "ownerI hn = owner"
        "row_inv (rowFile F (pRecordLock hn))" "table_inv (tableFile F (pTableLock hn))"
    using i(4) by blast
  then show ?thesis
  proof cases
    case name
    then show ?thesis using u D1 D(1) s tk by (auto simp: unf spec)
  next
    case tree
    then show ?thesis using u D1 D(1) s tk by (auto simp: unf spec)
  next
    case ipc
    then show ?thesis using u D1 D(1) i I fds tk by (auto simp: unf spec)
  next
    case psm
    show ?thesis
    proof (cases "rcP = SQLITE_OK")
      case True
      have "i64_inv transRootPagesInit H []" for H by (simp add: transRootPagesInit_def hash_inv_init)
      then show ?thesis using u D1 D(1) i I psm P True \<open>usesTrans E mainDb\<close> fds tk by (auto simp: unf opened_def freeName_def rootsOk_def)
    next
      case False
      obtain F' where F': "sqlite3rowlockIpcFinish (ipcEnv E) F (Some hn) = Some (F', descriptors hn)" "sameLocks F F'"
        by (rule finish_same [OF psm(7,8)]) (use laws no psm(6) noLocks_same [OF i(1)] in auto)
      then show ?thesis using u D1 D(1) I psm P False sameLocks_trans [OF i(1) F'(2)] fds tk by (auto simp: unf spec)
    qed
  qed
qed

text \<open>The signals and what their handler does.\<close>

lemma initialize_ok:
  "rowlockInitialize sigactionOk = (SQLITE_OK, True, done) \<Longrightarrow>
     s \<in> set done \<longleftrightarrow> rowlockSignalHandler env cfg dbs s = rowlockIpcCleanup env cfg dbs \<and> s \<in> {SIGINT, SIGILL, SIGFPE, SIGSEGV, SIGTERM, SIGABRT}"
  by (auto simp: rowlockInitialize_def rowlockSetSignalAction_def rowlockSignalHandler_def fun_eq_iff Let_def split: if_splits prod.splits)

section \<open>Properties\<close>


text \<open>A process that opens a database in memory beside another process.\<close>

definition demoOpen :: OpenEnv where
  "demoOpen = \<lparr>ipcEnv = demoEnv, szMmapRowLock = 184, szMmapTableLock = 168, psmOpens = [OPEN_FD], psmOkE = True, metaOkE = True, psmMutexRc = SQLITE_OK,
     nameOk = True, sharedRc = SQLITE_OK, transRc = SQLITE_OK, closeRc = SQLITE_OK, sharable = True, pagerFilename = '':memory:''\<rparr>"

definition demoBtree :: BtreeState where
  "demoBtree = \<lparr>openTrees = 0, nNames = 0, transOpen = False, ipcHandleB = None, psmB = \<lparr>published = None, handleSet = False, initLock = False, psmOpen = 0\<rparr>,
     filesB = demoFiles, savepointB = zeroSavepoint,
     worldB = \<lparr>rowArea = freshRowArea, tableArea = freshTableArea, psmArea = psmEmpty, rootPages = hashInit, rootHeap = Map.empty, rootData = Map.empty\<rparr>,
     closedFds = [], lostB = 0\<rparr>"


end
