(* ===== verification/Table_Calls.thy ===== *)
theory Table_Calls
  imports Cached_Rowid
begin

text \<open>
  Sequences of calls on the area of table locks and cached rowids, which all processes share: the mutex of the area makes each call one step. The states
  that such sequences reach from a new area are well-formed, and every call on them returns.
\<close>

section \<open>Calls\<close>

text \<open>The calls of \<open>rowlock_ipc_table.c\<close> that change the area. The caller is given by its process and owner; a release is run by the process it is for.\<close>

datatype TableCall =
    TLock PID u64 int u8 nat
  | TUnlock PID u64 int
  | TUnlockStmt PID u64 int
  | TRelease PID u64
  | TReleaseStmt PID u64
  | TRowidSet int i64
  | TRowidDrop int
  | TRowidReset

fun tableCall :: "TableCall \<Rightarrow> TableArea \<Rightarrow> TableArea option" where
  "tableCall (TLock p ow t l mode) m = map_option (\<lambda>(rc, prev, m'). m') (sqlite3rowlockIpcLockTable m p ow t l mode)"
| "tableCall (TUnlock p ow t) m = sqlite3rowlockIpcUnlockTable m p ow t"
| "tableCall (TUnlockStmt p ow t) m = sqlite3rowlockIpcUnlockTableStmt m p ow t"
| "tableCall (TRelease p ow) m = sqlite3rowlockIpcUnlockTablesProcCore m p p ow MODE_UNLOCK_TRANS"
| "tableCall (TReleaseStmt p ow) m = sqlite3rowlockIpcUnlockTablesProcCore m p p ow MODE_UNLOCK_STMT"
| "tableCall (TRowidSet t r) m = map_option snd (sqlite3rowlockIpcCachedRowidSet m t r)"
| "tableCall (TRowidDrop t) m = sqlite3rowlockIpcCachedRowidDropTable m t"
| "tableCall TRowidReset m = sqlite3rowlockIpcCachedRowidReset m"

text \<open>
  Calls as the program makes them: processes, owners and tables are not 0, and the lock of \<open>sqlite_master\<close> is for reading or writing. With \<open>force\<close> the modes that
  ignore other holders are allowed too.
\<close>

fun properCall :: "bool \<Rightarrow> TableCall \<Rightarrow> bool" where
  "properCall force (TLock p ow t l mode) \<longleftrightarrow> p \<noteq> 0 \<and> ow \<noteq> 0 \<and> t \<noteq> 0 \<and> (t = SCHEMA_ROOT \<longrightarrow> l = READ_LOCK \<or> l = WRITE_LOCK) \<and> (force \<or> mode = MODE_LOCK_NORMAL)"
| "properCall force (TUnlock p ow t) \<longleftrightarrow> p \<noteq> 0 \<and> ow \<noteq> 0"
| "properCall force (TUnlockStmt p ow t) \<longleftrightarrow> p \<noteq> 0 \<and> ow \<noteq> 0"
| "properCall force (TRelease p ow) \<longleftrightarrow> p \<noteq> 0"
| "properCall force (TReleaseStmt p ow) \<longleftrightarrow> p \<noteq> 0 \<and> ow \<noteq> 0"
| "properCall force (TRowidSet t r) \<longleftrightarrow> True"
| "properCall force (TRowidDrop t) \<longleftrightarrow> True"
| "properCall force TRowidReset \<longleftrightarrow> True"

inductive tableReach :: "bool \<Rightarrow> TableArea \<Rightarrow> bool" for force :: bool where
  new: "120 \<le> sz \<Longrightarrow> sz < 2 ^ 32 \<Longrightarrow> tableReach force (tableClassInitArea m sz)"
| call: "tableReach force m \<Longrightarrow> properCall force k \<Longrightarrow> tableCall k m = Some m' \<Longrightarrow> tableReach force m'"

section \<open>Preservation\<close>

text \<open>The fields each half of the file reads.\<close>

lemma table_frame [simp]:
  "table_inv (m\<lparr>cachedT := cs\<rparr>) = table_inv m" "table_abs (m\<lparr>cachedT := cs\<rparr>) = table_abs m"
  "table_inv (m\<lparr>nCacheT := n\<rparr>) = table_inv m" "table_abs (m\<lparr>nCacheT := n\<rparr>) = table_abs m"
  by (auto simp: table_inv_def table_wf_def table_locks_def table_abs_def probe_ok_def tableClass_defs tableClassCalcHash_def)

definition sameCache :: "TableArea \<Rightarrow> TableArea \<Rightarrow> bool" where
  "sameCache m m' \<longleftrightarrow> nElementT m' = nElementT m \<and> nCacheT m' = nCacheT m \<and> cachedT m' = cachedT m"

lemma sameCache_inv: "sameCache m m' \<Longrightarrow> cache_inv m' = cache_inv m"
  by (simp add: sameCache_def cache_inv_def cache_entries_def)

text \<open>Giving locks up keeps levels compatible.\<close>

lemma tableCompat_mono: "tableCompat L \<Longrightarrow> (\<And>k l. L' k = Some l \<Longrightarrow> L k = Some l) \<Longrightarrow> tableCompat L'"
  unfolding tableCompat_def by blast

text \<open>One call: it returns, and keeps the area well-formed and its levels compatible.\<close>

definition soundStep :: "bool \<Rightarrow> TableCall \<Rightarrow> TableArea \<Rightarrow> bool" where
  "soundStep force k m \<longleftrightarrow> (\<exists>m'. tableCall k m = Some m' \<and> table_inv m' \<and> cache_inv m' \<and> (force \<or> tableCompat (table_abs m')))"

lemma lock_sound:
  assumes inv: "table_inv m" "cache_inv m" "force \<or> tableCompat (table_abs m)" and k: "properCall force (TLock p ow t l mode)"
  shows "soundStep force (TLock p ow t l mode) m"
proof -
  obtain rc prev m' where r: "sqlite3rowlockIpcLockTable m p ow t l mode = Some (rc, prev, m')" "table_inv m'"
    using table_lock_refines [OF inv(1), of t p ow l mode] k by auto
  have "sameCache m m'"
    using r(1) unfolding sqlite3rowlockIpcLockTable_def Let_def sameCache_def by (cases "lockTableLoop m p ow t l mode (xCalcHash tableClass m t) (xCalcHash tableClass m t) None")
      (auto split: LockScan.splits if_splits)
  moreover have "tableCompat (table_abs m')" if "\<not> force"
    using LockTable_compat [OF inv(1), of t p ow l] inv(3) k that r(1) by auto
  ultimately show ?thesis using r sameCache_inv inv(2) by (auto simp: soundStep_def)
qed

lemma unlock_sound:
  assumes inv: "table_inv m" "cache_inv m" "force \<or> tableCompat (table_abs m)" and p: "p \<noteq> 0"
  shows "\<exists>m'. sqlite3rowlockIpcUnlockTableCore m p ow t mode = Some m' \<and> table_inv m' \<and> cache_inv m' \<and> (force \<or> tableCompat (table_abs m'))"
proof (cases rule: table_unlock [OF inv(1) p, of t ow mode])
  case 1
  then show ?thesis using inv by auto
next
  case (2 i m')
  then have "sameCache m m'" by (simp add: sameCache_def)
  moreover have "tableCompat (table_abs m')" if "tableCompat (table_abs m)"
    by (rule tableCompat_mono [OF that]) (simp add: 2(8) split: if_splits)
  ultimately show ?thesis using 2(6,7) inv(2,3) sameCache_inv by blast
next
  case (3 i)
  let ?m = "m\<lparr>pDataT := (pDataT m)[i := (pDataT m ! i)\<lparr>inUseT := 0\<rparr>]\<rparr>"
  have "table_inv ?m" "table_abs ?m = table_abs m" using table_flag(1,2) [OF inv(1) 3(1,2) refl] by simp_all
  moreover have "cache_inv ?m" using inv(2) by (simp add: cache_inv_def cache_entries_def)
  ultimately show ?thesis using 3(7) inv(3) by simp
qed

lemma release_sound:
  assumes inv: "table_inv m" "cache_inv m" "force \<or> tableCompat (table_abs m)" and p: "p \<noteq> 0" "mode = MODE_UNLOCK_TRANS \<or> mode = MODE_UNLOCK_STMT \<and> ow \<noteq> 0"
  shows "\<exists>m'. sqlite3rowlockIpcUnlockTablesProcCore m p p ow mode = Some m' \<and> table_inv m' \<and> cache_inv m' \<and> (force \<or> tableCompat (table_abs m'))"
proof -
  obtain m' where r: "sqlite3rowlockIpcUnlockTablesProcCore m p p ow mode = Some m'" "table_inv m'"
    "nElementT m' = nElementT m" "nCacheT m' = nCacheT m" "cachedT m' = cachedT m"
    and ms: "mset (map flagless (table_locks m')) = filter_mset (\<lambda>e. \<not> tableReleased p ow mode e) (mset (map flagless (table_locks m)))"
    by (rule table_proc_core [OF inv(1) p])
  have "tableCompat (table_abs m')" if "tableCompat (table_abs m)"
    by (rule tableCompat_mono [OF that]) (use table_proc_abs [OF inv(1) r(2) ms] in auto)
  then show ?thesis using r inv(2,3) sameCache_inv [of m m'] by (auto simp: sameCache_def)
qed

lemma rowid_sound:
  assumes inv: "table_inv m" "cache_inv m" "force \<or> tableCompat (table_abs m)"
  shows "soundStep force (TRowidSet t r) m" "soundStep force (TRowidDrop t) m" "soundStep force TRowidReset m"
proof -
  obtain rc m1 where s: "sqlite3rowlockIpcCachedRowidSet m t r = Some (rc, m1)" "cache_inv m1" using cached_set [OF inv(2), of t r] by blast
  have "table_inv m1 = table_inv m \<and> table_abs m1 = table_abs m"
    using s(1) by (auto simp: sqlite3rowlockIpcCachedRowidSet_def bind_eq_Some_conv split: if_splits)
  then show "soundStep force (TRowidSet t r) m" using s inv by (simp add: soundStep_def)
  obtain m2 where d: "sqlite3rowlockIpcCachedRowidDropTable m t = Some m2" "cache_inv m2" using cached_drop [OF inv(2), of t] by blast
  have "table_inv m2 = table_inv m \<and> table_abs m2 = table_abs m"
    using d(1) by (auto simp: sqlite3rowlockIpcCachedRowidDropTable_def bind_eq_Some_conv Let_def split: if_splits)
  then show "soundStep force (TRowidDrop t) m" using d inv by (simp add: soundStep_def)
  obtain m3 where e: "sqlite3rowlockIpcCachedRowidReset m = Some m3" "cache_inv m3" using cached_reset [OF inv(2,1)] by blast
  have "table_inv m3 = table_inv m \<and> table_abs m3 = table_abs m"
    using e(1) by (auto simp: sqlite3rowlockIpcCachedRowidReset_def bind_eq_Some_conv split: if_splits)
  then show "soundStep force TRowidReset m" using e inv by (simp add: soundStep_def)
qed

lemma call_sound:
  assumes inv: "table_inv m" "cache_inv m" "force \<or> tableCompat (table_abs m)" and k: "properCall force k"
  shows "soundStep force k m"
proof (cases k)
  case (TLock p ow t l mode)
  then show ?thesis using lock_sound [OF inv] k by simp
next
  case (TUnlock p ow t)
  then show ?thesis using unlock_sound [OF inv, of p ow t MODE_UNLOCK_TRANS] k by (simp add: soundStep_def sqlite3rowlockIpcUnlockTable_def)
next
  case (TUnlockStmt p ow t)
  then show ?thesis using unlock_sound [OF inv, of p ow t MODE_UNLOCK_STMT] k by (simp add: soundStep_def sqlite3rowlockIpcUnlockTableStmt_def)
next
  case (TRelease p ow)
  then show ?thesis using release_sound [OF inv, of p MODE_UNLOCK_TRANS ow] k by (simp add: soundStep_def)
next
  case (TReleaseStmt p ow)
  then show ?thesis using release_sound [OF inv, of p MODE_UNLOCK_STMT ow] k by (simp add: soundStep_def)
qed (simp_all add: rowid_sound [OF inv])

lemma new_sound:
  assumes "120 \<le> sz" "sz < 2 ^ 32"
  shows "table_inv (tableClassInitArea m sz)" "cache_inv (tableClassInitArea m sz)" "tableCompat (table_abs (tableClassInitArea m sz))"
proof -
  have s: "sz < 2 ^ 63" using assms(2) by simp
  note t = table_init [OF assms(1) s, of m]
  show "table_inv (tableClassInitArea m sz)" "tableCompat (table_abs (tableClassInitArea m sz))" using t(1,2) by (simp_all add: tableCompat_def)
  have "(sz - 72) div 48 < 2 ^ 32" using assms(2) by simp
  then show "cache_inv (tableClassInitArea m sz)"
    using assms s by (auto simp: tableClassInitArea_def Let_def sizeof_TableMetaData_def sizeof_TableElement_def sizeof_CachedRowid_def sub64_id
        cache_inv_def cache_entries_def zeroCache_def)
qed

section \<open>Properties\<close>

text \<open>
  C21. Whatever sequence of proper calls processes make on a new area, in any interleaving, the area of table locks and cached rowids is well-formed, any further proper call
  returns, and as long as no call ignores other holders, no two of them have incompatible locks on a table.
\<close>

theorem table_area_sound:
  assumes "tableReach force m"
  shows "table_inv m \<and> cache_inv m \<and> (\<forall>k. properCall force k \<longrightarrow> tableCall k m \<noteq> None) \<and> (\<not> force \<longrightarrow> tableCompat (table_abs m))"
proof -
  have "table_inv m \<and> cache_inv m \<and> (force \<or> tableCompat (table_abs m))"
    using assms
  proof (induction rule: tableReach.induct)
    case (new sz m)
    then show ?case using new_sound by blast
  next
    case (call m k m')
    then show ?case using call_sound [of m force k] by (auto simp: soundStep_def)
  qed
  then show ?thesis using call_sound [of m force] by (fastforce simp: soundStep_def)
qed

theorem table_area_sound_witness:
  "\<exists>m. tableCall (TLock 3 30 5 WRITE_LOCK MODE_LOCK_NORMAL) (tableClassInitArea freshTableArea 168) = Some m \<and> table_inv m \<and> tableCompat (table_abs m) \<and>
     tableCall (TRelease 3 30) m \<noteq> None"
proof -
  let ?k = "TLock 3 30 5 WRITE_LOCK MODE_LOCK_NORMAL" and ?m = "tableClassInitArea freshTableArea 168"
  have r: "tableReach False ?m" by (rule tableReach.new) simp_all
  have k: "properCall False ?k" "properCall False (TRelease 3 30)" by simp_all
  obtain m where m: "tableCall ?k ?m = Some m" using table_area_sound [OF r] k(1) by blast
  have "tableReach False m" by (rule tableReach.call [OF r k(1) m])
  then show ?thesis using table_area_sound [of False m] m k(2) by blast
qed

end
