(* ===== verification/Os_Win.thy ===== *)
theory Os_Win
  imports Prelude
begin

text \<open>
  The signal handlers, mutexes and memory mapped files of \<open>rowlock_os_win.c\<close>. A handle of the Windows API is a number, 0 for the null handle; the results of the
  calls are arguments, and the model returns the handles that are closed and the files that are deleted, in order.
\<close>

section \<open>Signals and mutexes\<close>

fun rowlockOsSetSignalActionWin :: "(int \<Rightarrow> bool) \<Rightarrow> int list \<Rightarrow> bool \<times> int list" where
  "rowlockOsSetSignalActionWin signalOk [] = (True, [])"
| "rowlockOsSetSignalActionWin signalOk (s # ss) =
     (if \<not> signalOk s then (False, []) else let (ok, done) = rowlockOsSetSignalActionWin signalOk ss in (ok, s # done))"

text \<open>A backslash is not allowed in the name of a mutex.\<close>

definition createMutexName :: "string \<Rightarrow> string" where
  "createMutexName pIn = map (\<lambda>c. if c = CHR 0x5C then CHR 0x5F else c) pIn"

record MutexWin =
  handleW :: nat
  heldW :: bool

text \<open>\<open>createMutex\<close> gives the handle of the mutex with a name.\<close>

definition rowlockOsMutexOpenWin :: "(string \<Rightarrow> nat) \<Rightarrow> string \<Rightarrow> MutexWin \<Rightarrow> rc \<times> MutexWin" where
  "rowlockOsMutexOpenWin createMutex name pMutex =
     (let mtx = createMutex (createMutexName name) in
      if mtx = 0 then (SQLITE_ERROR, pMutex) else (SQLITE_OK, pMutex\<lparr>handleW := mtx, heldW := False\<rparr>))"

definition rowlockOsMutexCloseWin :: "MutexWin \<Rightarrow> MutexWin \<times> nat list" where
  "rowlockOsMutexCloseWin pMutex = (pMutex\<lparr>handleW := 0, heldW := False\<rparr>, [handleW pMutex])"

definition rowlockOsMutexEnterWin :: "MutexWin \<Rightarrow> MutexWin" where
  "rowlockOsMutexEnterWin pMutex = pMutex\<lparr>heldW := True\<rparr>"

definition rowlockOsMutexLeaveWin :: "MutexWin \<Rightarrow> MutexWin" where
  "rowlockOsMutexLeaveWin pMutex = pMutex\<lparr>heldW := False\<rparr>"

definition rowlockOsMutexHeldWin :: "MutexWin \<Rightarrow> bool" where
  "rowlockOsMutexHeldWin pMutex = heldW pMutex"

section \<open>Memory mapped files\<close>

record MmapWin =
  hdlFile :: nat
  hdlMap :: nat
  nameW :: string

text \<open>
  The results of \<open>CreateFile\<close> (\<open>None\<close> for \<open>INVALID_HANDLE_VALUE\<close>, and whether the file existed), \<open>CreateFileMapping\<close> and \<open>MapViewOfFile\<close>.
\<close>

record MapCallsWin =
  createFile :: "nat option"
  existedW :: bool
  createMapping :: nat
  mapView :: nat

text \<open>The views unmapped, the handles closed and the files deleted.\<close>

definition rowlockOsMmapCloseWin :: "MmapWin \<Rightarrow> nat \<Rightarrow> nat list \<times> nat list \<times> string list" where
  "rowlockOsMmapCloseWin hMap pMap =
     (if pMap \<noteq> 0 then [pMap] else [],
      (if hdlMap hMap \<noteq> 0 then [hdlMap hMap] else []) @ (if hdlFile hMap \<noteq> 0 then [hdlFile hMap] else []),
      if nameW hMap \<noteq> [] then [nameW hMap] else [])"

definition rowlockOsMmapOpenWin :: "MapCallsWin \<Rightarrow> string \<Rightarrow> rc \<times> (MmapWin \<times> nat) option \<times> nat list \<times> nat list \<times> string list" where
  "rowlockOsMmapOpenWin c name =
     (case createFile c of
        None \<Rightarrow> (SQLITE_CANTOPEN, None, [], [], [])
      | Some f \<Rightarrow>
          (let hMap = \<lparr>hdlFile = f, hdlMap = createMapping c, nameW = []\<rparr>;
               failed = (\<lambda>pMap. let (views, handles, files) = rowlockOsMmapCloseWin hMap pMap
                                in (views, handles, files @ (if \<not> existedW c then [name] else [])))
           in if createMapping c = 0 then (SQLITE_CANTOPEN, None, failed 0)
              else if mapView c = 0 then (SQLITE_IOERR_SHMMAP, None, failed 0)
              else (SQLITE_OK, Some (hMap\<lparr>nameW := name\<rparr>, mapView c), [], [], [])))"

section \<open>Properties\<close>

text \<open>
  On every failing path opening closes exactly the handles it got, and deletes the file exactly when it has created it; the handle is set exactly on success, and
  closing it unmaps the view, closes both handles and tries to delete the file.
\<close>

theorem MmapOpenWin_closes:
  assumes "createFile c \<noteq> Some 0" "name \<noteq> []"
  shows "\<exists>rc h views handles files. rowlockOsMmapOpenWin c name = (rc, h, views, handles, files) \<and> (rc = SQLITE_OK \<longleftrightarrow> h \<noteq> None) \<and>
    (case h of
       Some (m, p) \<Rightarrow> views = [] \<and> handles = [] \<and> files = [] \<and> createFile c = Some (hdlFile m) \<and>
         rowlockOsMmapCloseWin m p = ([mapView c], [createMapping c, hdlFile m], [name])
     | None \<Rightarrow> views = [] \<and> mset handles = mset (case createFile c of None \<Rightarrow> [] | Some f \<Rightarrow> filter (\<lambda>x. x \<noteq> 0) [createMapping c, f]) \<and>
         files = (if createFile c \<noteq> None \<and> \<not> existedW c then [name] else []))"
  using assms by (cases "createFile c") (auto simp: rowlockOsMmapOpenWin_def rowlockOsMmapCloseWin_def Let_def)

theorem MmapOpenWin_closes_witness:
  "rowlockOsMmapOpenWin \<lparr>createFile = Some 3, existedW = False, createMapping = 4, mapView = 0\<rparr> ''a'' = (SQLITE_IOERR_SHMMAP, None, [], [4, 3], [''a''])"
  using MmapOpenWin_closes [of "\<lparr>createFile = Some 3, existedW = False, createMapping = 4, mapView = 0\<rparr>" "''a''"]
  by (simp add: rowlockOsMmapOpenWin_def rowlockOsMmapCloseWin_def)

text \<open>A mutex name has no backslash, and two names that differ only in a backslash and an underscore share their mutex.\<close>

lemma createMutexName_ok:
  "CHR 0x5C \<notin> set (createMutexName n)" "length (createMutexName n) = length n" "createMutexName (a @ [CHR 0x5C] @ b) = createMutexName (a @ [CHR 0x5F] @ b)"
  by (auto simp: createMutexName_def)

end
