(* ===== verification/Sql_Functions.thy ===== *)
theory Sql_Functions
  imports Complex_Main Prelude
begin

text \<open>
  The SQL functions of \<open>funcNew.c\<close>: rounding, aggregates for variance and standard deviation, and functions on strings. The floating point
  arithmetic and the conversions of SQLite's value interface are the record \<open>SqlOps\<close>. A function that sets no result returns NULL.
\<close>

section \<open>Values\<close>

datatype 'd SqlValue = SNull | SInt i64 | SReal 'd | SText "nat list" | SBlob "nat list"

text \<open>
  \<open>vDouble\<close>, \<open>vText\<close> and \<open>vInt\<close> are \<open>sqlite3_value_double\<close>, \<open>sqlite3_value_text\<close> with \<open>sqlite3_value_bytes\<close> (\<open>None\<close> for a null pointer) and
  \<open>sqlite3_value_int\<close>, \<open>vNumeric\<close> tells whether \<open>sqlite3_value_numeric_type\<close> is not NULL; the rest is the arithmetic of \<open>double\<close>.
\<close>

record 'd SqlOps =
  vDouble :: "'d SqlValue \<Rightarrow> 'd"
  vText :: "'d SqlValue \<Rightarrow> nat list option"
  vInt :: "'d SqlValue \<Rightarrow> int"
  vNumeric :: "'d SqlValue \<Rightarrow> bool"
  dCeil :: "'d \<Rightarrow> 'd"
  dFloor :: "'d \<Rightarrow> 'd"
  dFmod :: "'d \<Rightarrow> 'd \<Rightarrow> 'd"
  dPow :: "'d \<Rightarrow> 'd \<Rightarrow> 'd"
  dSqrt :: "'d \<Rightarrow> 'd"
  dPlus :: "'d \<Rightarrow> 'd \<Rightarrow> 'd"
  dMinus :: "'d \<Rightarrow> 'd \<Rightarrow> 'd"
  dTimes :: "'d \<Rightarrow> 'd \<Rightarrow> 'd"
  dDivide :: "'d \<Rightarrow> 'd \<Rightarrow> 'd"
  dNeg :: "'d \<Rightarrow> 'd"
  dLess :: "'d \<Rightarrow> 'd \<Rightarrow> bool"
  dOfInt :: "i64 \<Rightarrow> 'd"
  dToInt :: "'d \<Rightarrow> i64"

section \<open>Rounding\<close>

definition ceilFunc :: "'d SqlOps \<Rightarrow> 'd SqlValue \<Rightarrow> 'd SqlValue" where
  "ceilFunc op x = (if x = SNull then SNull else SReal (dCeil op (vDouble op x)))"

definition floorFunc :: "'d SqlOps \<Rightarrow> 'd SqlValue \<Rightarrow> 'd SqlValue" where
  "floorFunc op x = (if x = SNull then SNull else SReal (dFloor op (vDouble op x)))"

definition modFunc :: "'d SqlOps \<Rightarrow> 'd SqlValue \<Rightarrow> 'd SqlValue \<Rightarrow> 'd SqlValue" where
  "modFunc op x y =
     (if x = SNull \<or> y = SNull then SNull
      else SReal (dFmod op (dFloor op (vDouble op x)) (dFloor op (vDouble op y))))"

definition LARGEST_INT64 :: i64 where
  "LARGEST_INT64 = 2 ^ 63 - 1"

text \<open>The second argument is the number of digits, \<open>None\<close> where there is one argument.\<close>

definition truncFunc :: "'d SqlOps \<Rightarrow> 'd SqlValue \<Rightarrow> 'd SqlValue option \<Rightarrow> 'd SqlValue" where
  "truncFunc op x y =
     (if y = Some SNull then SNull
      else let n = (case y of None \<Rightarrow> 0 | Some v \<Rightarrow> max 0 (min 30 (vInt op v))) in
        if x = SNull then SNull
        else let r = vDouble op x; zero = dOfInt op 0; lim = dOfInt op (LARGEST_INT64 - 1) in
          SReal
            (if n = 0 \<and> \<not> dLess op r zero \<and> dLess op r lim then dOfInt op (dToInt op r)
             else if n = 0 \<and> dLess op r zero \<and> dLess op (dNeg op r) lim then dNeg op (dOfInt op (dToInt op (dNeg op r)))
             else let a = dFloor op r; b = dMinus op r a; t = dPow op (dOfInt op 10) (dOfInt op n);
                      c = dDivide op (dFloor op (dTimes op b t)) t
                  in dPlus op a c))"

section \<open>Aggregates\<close>

record 'd VarCtx =
  sumV :: 'd
  sqsum :: 'd
  cntV :: i64

definition zeroCtx :: "'d SqlOps \<Rightarrow> 'd VarCtx" where
  "zeroCtx op = \<lparr>sumV = dOfInt op 0, sqsum = dOfInt op 0, cntV = 0\<rparr>"

text \<open>The context is \<open>None\<close> where it could not be allocated.\<close>

definition varianceStep :: "'d SqlOps \<Rightarrow> 'd SqlValue \<Rightarrow> 'd VarCtx option \<Rightarrow> 'd VarCtx option" where
  "varianceStep op x =
     map_option (\<lambda>p. if vNumeric op x
       then let v = vDouble op x in p\<lparr>cntV := cntV p + 1, sumV := dPlus op (sumV p) v, sqsum := dPlus op (sqsum p) (dTimes op v v)\<rparr> else p)"

definition varianceInverse :: "'d SqlOps \<Rightarrow> 'd SqlValue \<Rightarrow> 'd VarCtx option \<Rightarrow> 'd VarCtx option" where
  "varianceInverse op x =
     map_option (\<lambda>p. if vNumeric op x
       then let v = vDouble op x in p\<lparr>cntV := cntV p - 1, sumV := dMinus op (sumV p) v, sqsum := dMinus op (sqsum p) (dTimes op v v)\<rparr> else p)"

definition varOf :: "'d SqlOps \<Rightarrow> 'd VarCtx \<Rightarrow> 'd" where
  "varOf op p =
     (let n = dOfInt op (cntV p); squ = dMinus op (sqsum p) (dDivide op (dTimes op (sumV p) (sumV p)) n)
      in dDivide op squ (dOfInt op (cntV p - 1)))"

definition varpOf :: "'d SqlOps \<Rightarrow> 'd VarCtx \<Rightarrow> 'd" where
  "varpOf op p =
     (let n = dOfInt op (cntV p) in dMinus op (dDivide op (sqsum p) n) (dPow op (dDivide op (sumV p) n) (dOfInt op 2)))"

definition varianceFinalize :: "'d SqlOps \<Rightarrow> 'd VarCtx option \<Rightarrow> 'd SqlValue" where
  "varianceFinalize op p = (case p of Some c \<Rightarrow> if cntV c > 1 then SReal (varOf op c) else SNull | None \<Rightarrow> SNull)"

definition variancePFinalize :: "'d SqlOps \<Rightarrow> 'd VarCtx option \<Rightarrow> 'd SqlValue" where
  "variancePFinalize op p = (case p of Some c \<Rightarrow> if cntV c > 0 then SReal (varpOf op c) else SNull | None \<Rightarrow> SNull)"

definition stddevFinalize :: "'d SqlOps \<Rightarrow> 'd VarCtx option \<Rightarrow> 'd SqlValue" where
  "stddevFinalize op p = (case p of Some c \<Rightarrow> if cntV c > 1 then SReal (dSqrt op (varOf op c)) else SNull | None \<Rightarrow> SNull)"

definition stddevPFinalize :: "'d SqlOps \<Rightarrow> 'd VarCtx option \<Rightarrow> 'd SqlValue" where
  "stddevPFinalize op p = (case p of Some c \<Rightarrow> if cntV c > 0 then SReal (dSqrt op (varpOf op c)) else SNull | None \<Rightarrow> SNull)"

text \<open>The other aggregates share the step and its inverse.\<close>

definition variancePStep :: "'d SqlOps \<Rightarrow> 'd SqlValue \<Rightarrow> 'd VarCtx option \<Rightarrow> 'd VarCtx option" where
  "variancePStep op = varianceStep op"

definition variancePInverse :: "'d SqlOps \<Rightarrow> 'd SqlValue \<Rightarrow> 'd VarCtx option \<Rightarrow> 'd VarCtx option" where
  "variancePInverse op = varianceInverse op"

definition stddevStep :: "'d SqlOps \<Rightarrow> 'd SqlValue \<Rightarrow> 'd VarCtx option \<Rightarrow> 'd VarCtx option" where
  "stddevStep op = varianceStep op"

definition stddevInverse :: "'d SqlOps \<Rightarrow> 'd SqlValue \<Rightarrow> 'd VarCtx option \<Rightarrow> 'd VarCtx option" where
  "stddevInverse op = varianceInverse op"

definition stddevPStep :: "'d SqlOps \<Rightarrow> 'd SqlValue \<Rightarrow> 'd VarCtx option \<Rightarrow> 'd VarCtx option" where
  "stddevPStep op = varianceStep op"

definition stddevPInverse :: "'d SqlOps \<Rightarrow> 'd SqlValue \<Rightarrow> 'd VarCtx option \<Rightarrow> 'd VarCtx option" where
  "stddevPInverse op = varianceInverse op"

section \<open>Strings\<close>

text \<open>
  A result of \<open>sqlite3_result_text\<close> with length \<open>-1\<close> ends before the first zero byte. A text ends with a zero byte that is not counted in its length.
\<close>

definition cText :: "nat list \<Rightarrow> 'd SqlValue" where
  "cText bs = SText (takeWhile (\<lambda>b. b \<noteq> 0) bs)"

definition nvlFunc :: "'d SqlValue \<Rightarrow> 'd SqlValue \<Rightarrow> 'd SqlValue" where
  "nvlFunc x y = (if x \<noteq> SNull then x else y)"

definition asciiFunc :: "'d SqlOps \<Rightarrow> 'd SqlValue \<Rightarrow> 'd SqlValue" where
  "asciiFunc op x = (case vText op x of None \<Rightarrow> SNull | Some z \<Rightarrow> SInt (int ((z @ [0]) ! 0)))"

text \<open>\<open>strOk\<close> is false where the result is too long or memory is short, which makes the result NULL, as it is without arguments: nothing is appended then and
  the accumulator has no text.\<close>

definition concatFunc :: "'d SqlOps \<Rightarrow> (nat \<Rightarrow> bool) \<Rightarrow> 'd SqlValue list \<Rightarrow> 'd SqlValue" where
  "concatFunc op strOk argv =
     (let s = concat (map (\<lambda>x. case vText op x of None \<Rightarrow> [] | Some z \<Rightarrow> z) argv) in if argv \<noteq> [] \<and> strOk (length s) then cText s else SNull)"

definition sqlite3Toupper :: "nat \<Rightarrow> nat" where
  "sqlite3Toupper c = (if 97 \<le> c \<and> c \<le> 122 then c - 32 else c)"

definition initcapFunc :: "'d SqlOps \<Rightarrow> bool \<Rightarrow> 'd SqlValue \<Rightarrow> 'd SqlValue" where
  "initcapFunc op mallocOk x =
     (case vText op x of
        None \<Rightarrow> SNull
      | Some z \<Rightarrow> if \<not> mallocOk then SNull else cText ((z @ [0])[0 := sqlite3Toupper ((z @ [0]) ! 0)]))"

text \<open>Copying into a buffer: \<open>None\<close> is a write beyond its end.\<close>

definition copyTo :: "nat \<Rightarrow> nat list \<Rightarrow> nat list \<Rightarrow> nat list option" where
  "copyTo i bs buf = (if i + length bs \<le> length buf then Some (take i buf @ bs @ drop (i + length bs) buf) else None)"

text \<open>The wrap-around of a 32-bit signed sum; \<open>sqlite3MallocZero\<close> takes its argument as an unsigned 64-bit number, and refuses what is zero or too large.\<close>

definition toI32 :: "int \<Rightarrow> int" where
  "toI32 x = (x + 2 ^ 31) mod 2 ^ 32 - 2 ^ 31"

definition mallocZero :: "bool \<Rightarrow> int \<Rightarrow> nat list option" where
  "mallocZero mallocOk n = (if mallocOk \<and> 0 < n \<and> n < 2 ^ 31 - 256 then Some (replicate (nat n) 0) else None)"

text \<open>The padding character: a blank, or the first byte of the third argument.\<close>

definition padChar :: "'d SqlOps \<Rightarrow> 'd SqlValue option \<Rightarrow> nat option" where
  "padChar op y = (case y of None \<Rightarrow> Some 32 | Some v \<Rightarrow> map_option (\<lambda>z. (z @ [0]) ! 0) (vText op v))"

text \<open>The text of a buffer: \<open>None\<close> where the search for its zero byte reads beyond the end.\<close>

definition bufText :: "nat list \<Rightarrow> 'd SqlValue option" where
  "bufText buf = (if 0 \<in> set buf then Some (cText buf) else None)"

text \<open>The result is \<open>None\<close> where a byte is written or read beyond the end of the buffer.\<close>

definition lpadFunc :: "'d SqlOps \<Rightarrow> bool \<Rightarrow> 'd SqlValue \<Rightarrow> 'd SqlValue \<Rightarrow> 'd SqlValue option \<Rightarrow> 'd SqlValue option" where
  "lpadFunc op mallocOk x n y =
     (if n = SNull then Some SNull
      else let lenPad = vInt op n in
        case padChar op y of
          None \<Rightarrow> Some SNull
        | Some c \<Rightarrow>
            (case vText op x of
               None \<Rightarrow> Some SNull
             | Some z \<Rightarrow>
                 (case mallocZero mallocOk (toI32 (toI32 (lenPad + int (length z)) + 1)) of
                    None \<Rightarrow> Some SNull
                  | Some zOut \<Rightarrow>
                      Option.bind (if lenPad > 0 then copyTo 0 (replicate (nat lenPad) c) zOut else Some zOut) (\<lambda>zOut1.
                      Option.bind (copyTo (nat lenPad) z zOut1) (\<lambda>zOut2. bufText zOut2)))))"

definition rpadFunc :: "'d SqlOps \<Rightarrow> bool \<Rightarrow> 'd SqlValue \<Rightarrow> 'd SqlValue \<Rightarrow> 'd SqlValue option \<Rightarrow> 'd SqlValue option" where
  "rpadFunc op mallocOk x n y =
     (if n = SNull then Some SNull
      else let lenPad = vInt op n in
        case padChar op y of
          None \<Rightarrow> Some SNull
        | Some c \<Rightarrow>
            (case vText op x of
               None \<Rightarrow> Some SNull
             | Some z \<Rightarrow>
                 (case mallocZero mallocOk (toI32 (toI32 (lenPad + int (length z)) + 1)) of
                    None \<Rightarrow> Some SNull
                  | Some zOut \<Rightarrow>
                      Option.bind (copyTo 0 z zOut) (\<lambda>zOut1.
                      Option.bind (if lenPad > 0 then copyTo (length z) (replicate (nat lenPad) c) zOut1 else Some zOut1) (\<lambda>zOut2. bufText zOut2)))))"

section \<open>Lemmas\<close>

text \<open>The values that count for an aggregate, as floating-point numbers.\<close>

definition numbers :: "'d SqlOps \<Rightarrow> 'd SqlValue list \<Rightarrow> 'd list" where
  "numbers op vs = map (vDouble op) (filter (vNumeric op) vs)"

lemma steps_ctx:
  "fold (varianceStep op) vs (Some c) =
     Some \<lparr>sumV = foldl (dPlus op) (sumV c) (numbers op vs), sqsum = foldl (\<lambda>s v. dPlus op s (dTimes op v v)) (sqsum c) (numbers op vs),
       cntV = cntV c + int (length (numbers op vs)), \<dots> = VarCtx.more c\<rparr>"
  by (induction vs arbitrary: c) (simp_all add: varianceStep_def numbers_def Let_def)

lemma inverses_count: "\<exists>c'. fold (varianceInverse op) vs (Some c) = Some c' \<and> cntV c' = cntV c - int (length (numbers op vs))"
proof (induction vs arbitrary: c)
  case (Cons v vs)
  obtain d where d: "varianceInverse op v (Some c) = Some d" "cntV d = cntV c - (if vNumeric op v then 1 else 0)" by (simp add: varianceInverse_def Let_def)
  from Cons [of d] d show ?case by (auto simp: numbers_def)
qed (simp add: numbers_def)

lemma toI32_id: "- (2 ^ 31) \<le> x \<Longrightarrow> x < 2 ^ 31 \<Longrightarrow> toI32 x = x"
  by (simp add: toI32_def)

lemma pad_buffer:
  assumes "0 \<le> k" "k < 2 ^ 31 - 257"
  shows "mallocZero True (toI32 (toI32 k + 1)) = Some (replicate (nat k + 1) 0)"
  using assms by (simp add: toI32_id mallocZero_def nat_add_distrib)

lemma copyTo_mid: "length bs \<le> length Z \<Longrightarrow> i = length A \<Longrightarrow> copyTo i bs (A @ Z) = Some (A @ bs @ drop (length bs) Z)"
  by (simp add: copyTo_def)

lemma bufText_Some: "0 \<notin> set w \<Longrightarrow> bufText (w @ [0]) = Some (SText w)"
  by (induction w) (auto simp: bufText_def cText_def)

section \<open>Properties\<close>

text \<open>
  The aggregates, whatever the arithmetic of \<open>double\<close> rounds: over a window of values of which the first are removed again, \<open>variance\<close> and \<open>stddev\<close> are NULL exactly if
  less than two numbers remain, \<open>variancep\<close> and \<open>stddevp\<close> exactly if none does. Nothing is said about the numbers they return.
\<close>

lemma aggregates_null:
  "let p = fold (varianceInverse op) us (fold (varianceStep op) (us @ vs) (Some (zeroCtx op))); n = length (numbers op vs) in
   (varianceFinalize op p = SNull \<longleftrightarrow> n < 2) \<and> (stddevFinalize op p = SNull \<longleftrightarrow> n < 2) \<and> (variancePFinalize op p = SNull \<longleftrightarrow> n = 0) \<and> (stddevPFinalize op p = SNull \<longleftrightarrow> n = 0)"
proof -
  obtain c where c: "fold (varianceStep op) (us @ vs) (Some (zeroCtx op)) = Some c" "cntV c = int (length (numbers op us) + length (numbers op vs))"
    using steps_ctx [of op "us @ vs" "zeroCtx op"] by (simp add: zeroCtx_def numbers_def del: fold_append)
  obtain d where d: "fold (varianceInverse op) us (Some c) = Some d" "cntV d = int (length (numbers op vs))"
    using inverses_count [of op us c] c(2) by auto
  show ?thesis unfolding Let_def c(1) d(1) using d(2)
    by (simp add: varianceFinalize_def stddevFinalize_def variancePFinalize_def stddevPFinalize_def)
qed

text \<open>An instance of the interface, for the examples with strings.\<close>

definition realOps :: "real SqlOps" where
  "realOps = \<lparr>vDouble = (\<lambda>v. case v of SInt i \<Rightarrow> of_int i | SReal r \<Rightarrow> r | _ \<Rightarrow> 0),
     vText = (\<lambda>v. case v of SText z \<Rightarrow> Some z | SBlob z \<Rightarrow> Some z | _ \<Rightarrow> None),
     vInt = (\<lambda>v. case v of SInt i \<Rightarrow> i | SReal r \<Rightarrow> \<lfloor>r\<rfloor> | _ \<Rightarrow> 0), vNumeric = (\<lambda>v. v \<noteq> SNull),
     dCeil = (\<lambda>x. of_int \<lceil>x\<rceil>), dFloor = (\<lambda>x. of_int \<lfloor>x\<rfloor>), dFmod = (\<lambda>x y. x), dPow = (\<lambda>x y. x ^ nat \<lfloor>y\<rfloor>), dSqrt = sqrt,
     dPlus = (+), dMinus = (-), dTimes = (*), dDivide = (/), dNeg = uminus, dLess = (<), dOfInt = of_int, dToInt = floor\<rparr>"

text \<open>Padding where the buffer is large enough: the number of characters is not negative.\<close>

lemma pad_fits:
  assumes n: "n \<noteq> SNull" "0 \<le> vInt op n" and c: "padChar op y = Some c" "c \<noteq> 0" and z: "vText op x = Some z" "0 \<notin> set z"
    and size: "vInt op n + int (length z) < 2 ^ 31 - 257"
  shows "lpadFunc op True x n y = Some (SText (replicate (nat (vInt op n)) c @ z))" "rpadFunc op True x n y = Some (SText (z @ replicate (nat (vInt op n)) c))"
proof -
  let ?k = "nat (vInt op n)"
  have b: "mallocZero True (toI32 (toI32 (vInt op n + int (length z)) + 1)) = Some (replicate (?k + length z + 1) 0)"
    using pad_buffer [of "vInt op n + int (length z)"] n(2) size by (simp add: nat_add_distrib)
  have t: "bufText (replicate m c @ z @ [0]) = Some (SText (replicate m c @ z))" "bufText (z @ replicate m c @ [0]) = Some (SText (z @ replicate m c))" for m
    using bufText_Some [of "replicate m c @ z"] bufText_Some [of "z @ replicate m c"] c(2) z(2) by simp_all
  have l: "copyTo 0 (replicate ?k c) (replicate (?k + length z + 1) 0) = Some (replicate ?k c @ replicate (length z + 1) 0)"
    "copyTo ?k z (replicate ?k c @ replicate (length z + 1) 0) = Some (replicate ?k c @ z @ [0])"
    using copyTo_mid [of "replicate ?k c" "replicate (?k + length z + 1) 0" 0 "[]"] copyTo_mid [of z "replicate (length z + 1) 0" ?k "replicate ?k c"]
    unfolding drop_replicate by simp_all
  have r: "copyTo 0 z (replicate (?k + length z + 1) 0) = Some (z @ replicate (?k + 1) 0)"
    "copyTo (length z) (replicate ?k c) (z @ replicate (?k + 1) 0) = Some (z @ replicate ?k c @ [0])"
    using copyTo_mid [of z "replicate (?k + length z + 1) 0" 0 "[]"] copyTo_mid [of "replicate ?k c" "replicate (?k + 1) 0" "length z" z]
    unfolding drop_replicate by simp_all
  have k: "?k = 0" if "\<not> 0 < vInt op n" using that by simp
  show "lpadFunc op True x n y = Some (SText (replicate ?k c @ z))"
    unfolding lpadFunc_def Let_def c(1) z(1) b option.case using n(1) l t(1) [of ?k] k
    by (cases "0 < vInt op n") (simp_all del: replicate_Suc)
  show "rpadFunc op True x n y = Some (SText (z @ replicate ?k c))"
    unfolding rpadFunc_def Let_def c(1) z(1) b option.case using n(1) r t(2) [of ?k] k
    by (cases "0 < vInt op n") (simp_all del: replicate_Suc add: replicate_Suc [of 0])
qed

text \<open>A negative number, down to the length of the text, makes the buffer too short for the text and its zero byte.\<close>

lemma pad_overflow:
  assumes n: "n \<noteq> SNull" "vInt op n < 0" and c: "padChar op y = Some c" and z: "vText op x = Some z" "0 \<notin> set z"
    and size: "0 \<le> vInt op n + int (length z)" "vInt op n + int (length z) < 2 ^ 31 - 257"
  shows "lpadFunc op True x n y = None" "rpadFunc op True x n y = None"
proof -
  let ?buf = "replicate (nat (vInt op n + int (length z)) + 1) 0"
  have b: "mallocZero True (toI32 (toI32 (vInt op n + int (length z)) + 1)) = Some ?buf"
    by (rule pad_buffer [OF size])
  have "length ?buf \<le> length z" unfolding length_replicate using n(2) size by linarith
  then have w: "copyTo 0 z ?buf = None \<or> copyTo 0 z ?buf = Some z" unfolding copyTo_def by (cases "length ?buf = length z") simp_all
  have t: "bufText z = None" using z(2) by (simp add: bufText_def)
  show "lpadFunc op True x n y = None" "rpadFunc op True x n y = None"
    unfolding lpadFunc_def rpadFunc_def Let_def c z(1) b option.case using w t n by (auto simp del: replicate_Suc)
qed

text \<open>
  C32. Padding, for a text and a padding character without zero byte and a buffer that can be had: \<open>lpad\<close> puts the given number of copies of the padding
  character before the text and \<open>rpad\<close> after it, and where the number is negative both write or read beyond the end of the buffer.
\<close>

theorem pad_correct:
  assumes n: "n \<noteq> SNull" and c: "padChar op y = Some c" "c \<noteq> 0" and z: "vText op x = Some z" "0 \<notin> set z"
    and size: "0 \<le> vInt op n + int (length z)" "vInt op n + int (length z) < 2 ^ 31 - 257"
  shows "lpadFunc op True x n y = (if 0 \<le> vInt op n then Some (SText (replicate (nat (vInt op n)) c @ z)) else None) \<and>
    rpadFunc op True x n y = (if 0 \<le> vInt op n then Some (SText (z @ replicate (nat (vInt op n)) c)) else None)"
  using pad_fits [OF n _ c z size(2)] pad_overflow [OF n _ c(1) z size] by simp

theorem pad_correct_witness:
  "lpadFunc realOps True (SText [97, 98]) (SInt 3) (Some (SText [46])) = Some (SText [46, 46, 46, 97, 98]) \<and>
   rpadFunc realOps True (SText [97, 98]) (SInt 3) (Some (SText [46])) = Some (SText [97, 98, 46, 46, 46]) \<and>
   lpadFunc realOps True (SText [97, 98, 99]) (SInt (- 2)) None = None \<and> rpadFunc realOps True (SText [97, 98, 99]) (SInt (- 2)) None = None"
  using pad_correct [of "SInt 3" realOps "Some (SText [46])" 46 "SText [97, 98]" "[97, 98]"]
    pad_correct [of "SInt (- 2)" realOps None 32 "SText [97, 98, 99]" "[97, 98, 99]"]
  by (simp add: realOps_def padChar_def numeral_3_eq_3)

end
