(* ===== verification/Spec2Isabelle.thy ===== *)
theory Spec2Isabelle
  imports Page_Cache Record_Compare Trans_Commit Trans_Blob Trans_Open Table_Calls Os_Win Sql_Functions
begin

text \<open>
  Verification of SQLumDash, the part of the repository that is its own: the row lock feature in \<open>src/src/rowlock*.c\<close> with the headers beside them, and the SQL
  functions in \<open>src/src/funcNew.c\<close>. The rest of the sources is SQLite, into whose btree calls the feature is hooked; of it only the few functions
  that the feature's correctness rests on directly are modelled.

  \<^bold>\<open>The program.\<close> Plain SQLite locks the whole database file while a transaction writes. SQLumDash
  lets several connections, also of different processes, write at the same time. A
  transaction keeps the records it inserts and the records it deletes in two tables of a
  private database (\<open>rowlock.c\<close>, the transaction btree), and for its statements the shared
  table and these two appear as one table (the \<open>...All\<close> functions on merged cursors). Before it
  changes a record it takes a lock on it: on a rowid in a memory mapped file shared by all
  processes (\<open>rowlock_ipc.c\<close>, \<open>rowlock_ipc_row.c\<close>), on the key of a unique index in a shared memory
  heap (\<open>rowlock_psm_lock.c\<close> on the hash tables of \<open>rowlock_psm_hash.c\<close>); statements lock their tables in
  a second mapped file (\<open>rowlock_ipc_table.c\<close>), which also holds the largest rowid given out per table.
  The locks taken are recorded in a history (\<open>rowlock_savepoint.c\<close>), so that \<open>ROLLBACK TO\<close> releases
  them again. Commit takes exclusive locks on the modified tables and writes the private records into the
  shared ones; the end of a transaction releases all locks of the connection.

  \<^bold>\<open>The theories\<close>, in the order of their dependencies.
  \<^item> \<open>Prelude\<close>: C integers, return codes, cyclic index arithmetic, loops with an optional result.
  \<^item> \<open>Ipc_Area\<close> (\<open>rowlock_ipc.c\<close>: hash function, \<open>rowlockIpcSearch\<close>, \<open>rowlockIpcDelete\<close>). The array of a mapped
    file is a list of elements, the class of function pointers \<open>IpcClass\<close> a record of functions.
    The locale \<open>ipc_area\<close> states the laws of a class and proves that search is complete and that
    deletion keeps every other element reachable.
  \<^item> \<open>Lock_Spec\<close>: the abstract table of record locks, a map from records to holders, the locale
    \<open>record_locks\<close> and mutual exclusion over interleaved calls.
  \<^item> \<open>Ipc_Row\<close> (\<open>rowlock_ipc_row.c\<close>) interprets both locales: lock, unlock, query and release refine the
    abstract operations on every branch, a full area included.
  \<^item> \<open>Ipc_Table\<close> (\<open>rowlock_ipc_table.c\<close>): table locks, whose elements are compared up to their \<open>inUse\<close> flag.
  \<^item> \<open>Cached_Rowid\<close> (the rest of that file): the cache as a map from tables to rowids. \<open>Table_Calls\<close>: the states that calls of any processes in any order
    reach from a new area are well-formed, every call returns on them, and the levels different holders have stay compatible.
  \<^item> \<open>Os_Linux\<close>, \<open>Os_Win\<close> (\<open>rowlock_os_linux.c\<close>, \<open>rowlock_os_win.c\<close>) and \<open>Ipc_Handle\<close> (opening, closing and the entry points by path in
    \<open>rowlock_ipc.c\<close>, \<open>rowlock_ipc_row.c\<close>, \<open>rowlock_ipc_table.c\<close>, cleanup in \<open>rowlock.c\<close>): the results of
    system calls are arguments, mapped files are functions from names to areas. The rest of the development is on the layer for Linux.
  \<^item> \<open>Hash_Table\<close> (\<open>rowlock_hash.c\<close>, \<open>rowlock_psm_hash.c\<close>): one model of both hash tables over an explicit heap of
    linked elements, well-formedness through insertion, deletion and resizing, and the map it
    stands for.
  \<^item> \<open>Psm_Lock\<close> and \<open>Psm_Init\<close> (\<open>rowlock_psm_lock.c\<close>): index key locks on a hash table of hash tables, for any comparison of keys; opening, inheriting and
    detaching from the shared memory.
  \<^item> \<open>Savepoint\<close> (\<open>rowlock_savepoint.c\<close>): the two stacks, their bounds, and that a rollback undoes exactly the
    entries above the savepoint, the newest first, on the lock areas above.
  \<^item> \<open>Trans_Cursor\<close> (\<open>rowlock.c\<close>, first, last, next, previous and reading through merged cursors): the locales
    \<open>merge_cursors\<close> and \<open>merge_scan\<close> state what is relied on of SQLite's cursors; a scan visits exactly
    what the transaction sees, in order. \<open>Trans_Seek\<close> (\<open>sqlite3BtreeMovetoUnpackedAll\<close> and its helpers): a lookup finds a record exactly where the
    transaction sees one, and where the cursors of a forward range scan start.
  \<^item> \<open>Trans_Btree\<close> (\<open>rowlock.c\<close>, insert, delete, commit of a table): the locales \<open>table_edit\<close> and \<open>trans_edit\<close>, the first interpreted on
    rowid tables and on indexes, with what an insertion into an index demands of its flags and of the position of the cursor; the
    effect of insert and delete on locks and on the view, and that commit installs the view.
  \<^item> \<open>Trans_Control\<close> (\<open>rowlock.c\<close>, root pages, table locks with history, deleting all records, counting, start and
    end of a transaction, rowids of cursors).
  \<^item> \<open>Trans_Tables\<close> (creating and dropping the two tables of a shared table, opening and closing cursors): the locale \<open>trans_db\<close> states what is relied on of a
    database with tables. \<open>Trans_Commit\<close> (\<open>exclusiveLockTables\<close>, \<open>sqlite3TransBtreeCommit\<close>): the exclusive locks of the modified tables, and no others, are obtained or given back, and the
    loop over all tables leaves in each exactly what the transaction saw.
  \<^item> \<open>Trans_Blob\<close> (reading and writing parts of a record, the locale \<open>blob_edit\<close>) and \<open>Trans_Open\<close> (loading of the library, opening and closing a connection): what
    is written is read back and locked; the descriptors, blocks, btrees, locks and attachments of a connection are accounted for, and what is opened is released on every path.
  \<^item> \<open>Index_Record\<close> (\<open>vdbeMakeRecord\<close> and the check for conflicting keys in \<open>rowlock.c\<close>, with the variable-length integers of \<open>util.c\<close> and the serial types of
    \<open>vdbeaux.c\<close>): a record of an index key stays within its buffer and is read back. \<open>Record_Compare\<close> (\<open>recordComparator\<close> of \<open>rowlock_psm_lock.c\<close> with the functions of
    \<open>util.c\<close> and \<open>vdbeaux.c\<close> it calls): for which records the comparison is equality, the locks of index keys under it, and which locks the check for conflicting keys sees. \<open>Page_Cache\<close> (\<open>rowlock_pager.c\<close>, with the functions of \<open>pager.c\<close> and
    \<open>pcache.c\<close> it calls): when a cache is discarded.
  \<^item> \<open>Sql_Functions\<close> (\<open>funcNew.c\<close>): rounding, variance and standard deviation, functions on strings with their buffers.

  \<^bold>\<open>Conventions.\<close> Unsigned integers are natural numbers with the wrap-around written out, signed ones
  are integers, with the wrap-around written out where the code depends on it. A loop whose end is not evident is a \<open>partial_function (option)\<close>; \<open>None\<close> is a loop that
  does not end, a read through a null or dangling pointer or an access beyond a buffer. There is no fuel: the theorems
  about such loops state that they return \<open>Some\<close>, from the invariant of the state. The process-shared mutexes
  make an operation on a lock area one atomic step; interleavings are sequences of such steps.
  Results of the allocator, of the operating system and of SQLite's core are arguments, and
  where the code relies on laws for them these are the assumptions of a locale. For the
  merged cursors they are discharged on cursors over sorted key lists, for the edits of a table on lists
  of rows with a position, for a database on maps from root pages to such tables; a cursor carries its table. The properties of
  scans, seeks, edits, commit, opening cursors and blob handles are stated for every implementation that obeys the laws, and their witnesses are on these instances. The laws of the scans
  are for rowids of an absolute value below \<open>2 ^ 62\<close>, so that no difference of two of them wraps; \<open>scan_overflow\<close> shows that without it the order is lost. The commit assumes
  that every entry of the mapping of root pages has its two tables; opening a cursor also covers an entry that only records a deletion of all records. The laws of
  a table say that SQLite's own functions succeed, except where a theorem names their codes; the errors of the allocator, of the lock areas and of the cache check are branches. The
  properties of the locks of index keys are for keys of an index with the same number of fields, without floating-point numbers and under the collating sequence \<open>BINARY\<close>,
  where the comparison is the equality of records; the arithmetic of the SQL functions on doubles is a parameter, and of the aggregates only is proved when they are NULL.

  \<^bold>\<open>Behaviour of the code that the theorems record as it is\<close>: a deletion that moves a table lock loses its
  \<open>inUse\<close> flag (\<open>inUse_lost_on_move\<close>), the release of all table locks does not end on a lock of another
  process (\<open>UnlockTablesAll_diverges\<close>), dropping an index never drops one that exists (\<open>PsmDropTable_idle\<close>), a
  negative key of the integer hash table is out of bounds (\<open>HashI64_negative_key\<close>), a rollback to a savepoint
  can release a lock of another connection (\<open>rollback_frees_foreign_lock\<close>) and removes the whole entry of a table, with an earlier deletion of all
  records (\<open>new_table_undone\<close>), a seek with opcode 0 finds a deleted record (\<open>MovetoUnpackedAll_lookup\<close>), range scans in both directions can lose records or return deleted ones (\<open>seek_forward_errors\<close>, \<open>seek_backward_errors\<close>), a commit that
  cannot get its locks keeps the write lock of the schema (\<open>commit_keeps_schema_lock\<close>), the check for a conflicting key does not see locks outside the bucket of its own hash (\<open>NoConflict_sees_locks\<close>), the replaced data of a key stays where the copy of the key fails (\<open>HashBlob_insert_find\<close>), a zero-filled blob inside a key gives a malformed record (\<open>MakeRecord_zeroblob\<close>), an older
  file does not make the page cache expire (\<open>CacheReset_correct\<close>), and padding with a negative length runs beyond the buffer (\<open>pad_correct\<close>).

  \<^bold>\<open>Not modelled.\<close> SQLite itself, on which the feature is built: its btree, pager and virtual machine are parameters with the laws named above. \<open>rowlock_btree.c\<close>,
  \<open>rowlock_main.c\<close>, \<open>rowlock_vtab.c\<close>, \<open>rowlock_macro.h\<close>: renaming of entry points, without logic of their own. \<open>test_rowlock.c\<close>, \<open>test4_new.c\<close>: test commands. Of the modelled files:
  assertions and debug printers, the variants of \<open>rowlock.c\<close> that only exist on Windows, and the expiry of other blob handles on a changed record.
\<close>

end
